(* ===== verification/Prelude.thy ===== *)
theory Prelude
  imports Main "HOL-Library.Sublist"
begin

text \<open>
  The shared layer of the development: Rust strings as lists of Unicode scalar values with
  the standard-library operations the modelled crates call, saturating 64-bit arithmetic,
  lookups in association lists, and a generic rule that lifts a one-step invariant to runs.

  A Rust \<^verbatim>\<open>String\<close> is a sequence of Unicode scalar values; here it is the list of their
  code points (type \<open>ustr\<close>). Literals are written \<open>U ''abc''\<close>. \<open>utf8_len\<close> is
  \<^verbatim>\<open>str::len\<close> (bytes) and \<open>utf16_len\<close> is JavaScript's \<^verbatim>\<open>length\<close>.
\<close>

section \<open>Strings\<close>

type_synonym uchar = int
type_synonym ustr = "uchar list"

definition U :: "string \<Rightarrow> ustr" where
  "U s = map of_char s"

named_theorems ustr_eval \<open>unfoldings that evaluate closed string terms\<close>

lemma U_simps [ustr_eval]:
  "U [] = []"
  "U (c # s) = of_char c # U s"
  by (simp_all add: U_def)

lemma U_eq_iff [simp]: "U s = U t \<longleftrightarrow> s = t"
  by (auto simp: U_def inj_map_eq_map inj_on_def)

lemma U_Nil_iff [simp]: "U s = [] \<longleftrightarrow> s = []"
  by (simp add: U_def)

lemma Nil_U_iff [simp]: "[] = U s \<longleftrightarrow> s = []"
  by (auto simp: U_def)

lemma length_U [simp]: "length (U s) = length s"
  by (simp add: U_def)

definition C :: "char \<Rightarrow> uchar" where
  [ustr_eval]: "C c = of_char c"

lemma C_eq_iff [simp]: "C a = C b \<longleftrightarrow> a = b"
  by (simp add: C_def)

text \<open>\<^verbatim>\<open>char::is_whitespace\<close>: the Unicode White_Space property.\<close>

definition is_ws :: "uchar \<Rightarrow> bool" where
  "is_ws c \<longleftrightarrow> (9 \<le> c \<and> c \<le> 13) \<or> c = 32 \<or> c = 133 \<or> c = 160 \<or> c = 5760
     \<or> (8192 \<le> c \<and> c \<le> 8202) \<or> c = 8232 \<or> c = 8233 \<or> c = 8239 \<or> c = 8287 \<or> c = 12288"

definition is_digit :: "uchar \<Rightarrow> bool" where
  "is_digit c \<longleftrightarrow> 48 \<le> c \<and> c \<le> 57"

definition is_alpha :: "uchar \<Rightarrow> bool" where
  "is_alpha c \<longleftrightarrow> (65 \<le> c \<and> c \<le> 90) \<or> (97 \<le> c \<and> c \<le> 122)"

definition lower :: "uchar \<Rightarrow> uchar" where
  "lower c = (if 65 \<le> c \<and> c \<le> 90 then c + 32 else c)"

definition to_ascii_lowercase :: "ustr \<Rightarrow> ustr" where
  "to_ascii_lowercase s = map lower s"

definition eq_ignore_ascii_case :: "ustr \<Rightarrow> ustr \<Rightarrow> bool" where
  "eq_ignore_ascii_case a b \<longleftrightarrow> to_ascii_lowercase a = to_ascii_lowercase b"

definition trim_start :: "ustr \<Rightarrow> ustr" where
  "trim_start s = dropWhile is_ws s"

definition trim_end :: "ustr \<Rightarrow> ustr" where
  "trim_end s = rev (dropWhile is_ws (rev s))"

definition trim :: "ustr \<Rightarrow> ustr" where
  "trim s = trim_end (trim_start s)"

definition starts_with :: "ustr \<Rightarrow> ustr \<Rightarrow> bool" where
  "starts_with s p \<longleftrightarrow> prefix p s"

definition strip_prefix :: "ustr \<Rightarrow> ustr \<Rightarrow> ustr option" where
  "strip_prefix s p = (if prefix p s then Some (drop (length p) s) else None)"

definition strip_suffix :: "ustr \<Rightarrow> ustr \<Rightarrow> ustr option" where
  "strip_suffix s p = (if suffix p s then Some (take (length s - length p) s) else None)"

definition contains_str :: "ustr \<Rightarrow> ustr \<Rightarrow> bool" where
  "contains_str s p \<longleftrightarrow> sublist p s"

declare sublist_Cons_right [ustr_eval]

text \<open>\<^verbatim>\<open>str::split_whitespace\<close>, \<^verbatim>\<open>str::split(c)\<close>, \<^verbatim>\<open>str::split_once(c)\<close>.\<close>

fun words_go :: "ustr \<Rightarrow> ustr \<Rightarrow> ustr list" where
  "words_go cur [] = (if cur = [] then [] else [cur])"
| "words_go cur (c # cs) =
     (if is_ws c then (if cur = [] then words_go [] cs else cur # words_go [] cs)
      else words_go (cur @ [c]) cs)"

definition split_whitespace :: "ustr \<Rightarrow> ustr list" where
  "split_whitespace s = words_go [] s"

fun split_on :: "uchar \<Rightarrow> ustr \<Rightarrow> ustr list" where
  "split_on c [] = [[]]"
| "split_on c (x # xs) =
     (if x = c then [] # split_on c xs
      else (case split_on c xs of [] \<Rightarrow> [[x]] | w # ws \<Rightarrow> (x # w) # ws))"

definition split_once :: "uchar \<Rightarrow> ustr \<Rightarrow> (ustr \<times> ustr) option" where
  "split_once c s =
     (if c \<in> set s then Some (takeWhile (\<lambda>x. x \<noteq> c) s, tl (dropWhile (\<lambda>x. x \<noteq> c) s)) else None)"

fun join :: "ustr \<Rightarrow> ustr list \<Rightarrow> ustr" where
  "join sep [] = []"
| "join sep [w] = w"
| "join sep (w # ws) = w @ sep @ join sep ws"

definition utf8_width :: "uchar \<Rightarrow> nat" where
  "utf8_width c = (if c < 128 then 1 else if c < 2048 then 2 else if c < 65536 then 3 else 4)"

definition utf8_len :: "ustr \<Rightarrow> nat" where
  "utf8_len s = sum_list (map utf8_width s)"

lemma utf8_width_pos [simp]: "0 < utf8_width c" "utf8_width c \<noteq> 0"
  by (simp_all add: utf8_width_def)

lemma utf8_len_simps [simp]:
  "utf8_len [] = 0"
  "utf8_len (c # s) = utf8_width c + utf8_len s"
  "utf8_len (a @ b) = utf8_len a + utf8_len b"
  by (simp_all add: utf8_len_def)

definition utf16_len :: "ustr \<Rightarrow> nat" where
  "utf16_len s = sum_list (map (\<lambda>c. if c < 65536 then 1 else 2) s)"

text \<open>\<^verbatim>\<open>str::encode_utf16\<close>: the code units of a string.\<close>

definition encode_utf16 :: "ustr \<Rightarrow> int list" where
  "encode_utf16 s = concat (map (\<lambda>c. if c < 65536 then [c]
     else [55296 + (c - 65536) div 1024, 56320 + (c - 65536) mod 1024]) s)"

fun nat_digits :: "nat \<Rightarrow> ustr" where
  "nat_digits n = (if n < 10 then [48 + int n] else nat_digits (n div 10) @ [48 + int (n mod 10)])"

declare nat_digits.simps [simp del]

lemma split_on_line: "c \<notin> set l \<Longrightarrow> split_on c (l @ c # s) = l # split_on c s"
  by (induction l) auto

lemma split_on_ne [simp]: "split_on c s \<noteq> []"
  by (cases s) (auto split: list.splits)

lemma split_on_no_sep: "w \<in> set (split_on c s) \<Longrightarrow> c \<notin> set w"
  by (induction s arbitrary: w) (auto split: if_splits list.splits)

lemma split_on_join: "join [c] (split_on c s) = s"
proof (induction s)
  case Nil
  show ?case by simp
next
  case (Cons x xs)
  obtain w ws where ws: "split_on c xs = w # ws"
    by (cases "split_on c xs") auto
  with Cons show ?case
    by (cases ws) auto
qed

lemma split_on_single: "c \<notin> set s \<Longrightarrow> split_on c s = [s]"
  by (induction s) auto

lemma words_go_ne: "[] \<notin> set (words_go cur s)"
  by (induction cur s rule: words_go.induct) auto

lemma words_go_no_ws:
  "(\<forall>c \<in> set cur. \<not> is_ws c) \<Longrightarrow> w \<in> set (words_go cur s) \<Longrightarrow> c \<in> set w \<Longrightarrow> \<not> is_ws c"
  by (induction cur s rule: words_go.induct) (auto split: if_splits)

section \<open>Saturating 64-bit arithmetic\<close>

definition i64_max :: int where "i64_max = 9223372036854775807"
definition i64_min :: int where "i64_min = -9223372036854775808"

definition i64_sat :: "int \<Rightarrow> int" where
  "i64_sat x = max i64_min (min i64_max x)"

definition sat_add :: "int \<Rightarrow> int \<Rightarrow> int" where "sat_add a b = i64_sat (a + b)"
definition sat_sub :: "int \<Rightarrow> int \<Rightarrow> int" where "sat_sub a b = i64_sat (a - b)"
definition sat_mul :: "int \<Rightarrow> int \<Rightarrow> int" where "sat_mul a b = i64_sat (a * b)"

lemmas i64_defs = i64_max_def i64_min_def i64_sat_def sat_add_def sat_sub_def sat_mul_def

lemma sat_in_range: "i64_min \<le> x \<Longrightarrow> x \<le> i64_max \<Longrightarrow> i64_sat x = x"
  by (simp add: i64_defs)

section \<open>Association lists (hash maps whose key order is not observed)\<close>

fun aget :: "('k \<times> 'v) list \<Rightarrow> 'k \<Rightarrow> 'v option" where
  "aget [] k = None"
| "aget ((x, v) # m) k = (if x = k then Some v else aget m k)"

fun aput :: "'k \<Rightarrow> 'v \<Rightarrow> ('k \<times> 'v) list \<Rightarrow> ('k \<times> 'v) list" where
  "aput k v [] = [(k, v)]"
| "aput k v ((x, w) # m) = (if x = k then (k, v) # m else (x, w) # aput k v m)"

definition adel :: "'k \<Rightarrow> ('k \<times> 'v) list \<Rightarrow> ('k \<times> 'v) list" where
  "adel k m = filter (\<lambda>p. fst p \<noteq> k) m"

text \<open>The interface every keyed store of the model offers, and its laws.\<close>

locale keyed_map =
  fixes get :: "'m \<Rightarrow> 'k \<Rightarrow> 'v option"
    and put :: "'k \<Rightarrow> 'v \<Rightarrow> 'm \<Rightarrow> 'm"
    and del :: "'k \<Rightarrow> 'm \<Rightarrow> 'm"
  assumes get_put: "get (put k v m) j = (if j = k then Some v else get m j)"
    and get_del: "get (del k m) j = (if j = k then None else get m j)"
begin

lemma get_put_same: "get (put k v m) k = Some v"
  by (simp add: get_put)

lemma get_put_other: "j \<noteq> k \<Longrightarrow> get (put k v m) j = get m j"
  by (simp add: get_put)

lemma get_del_same: "get (del k m) k = None"
  by (simp add: get_del)

lemma get_put_put: "get (put k v (put k w m)) j = get (put k v m) j"
  by (simp add: get_put)

lemma get_fold_put_other:
  "j \<notin> fst ` set kvs \<Longrightarrow> get (foldl (\<lambda>m (k, v). put k v m) m kvs) j = get m j"
  by (induction kvs arbitrary: m) (auto simp: get_put)

end

lemma aget_adel: "aget (adel k m) j = (if j = k then None else aget m j)"
  by (induction m) (auto simp: adel_def)

lemma aget_aput: "aget (aput k v m) j = (if j = k then Some v else aget m j)"
  by (induction k v m rule: aput.induct) auto

interpretation amap: keyed_map aget aput adel
  by unfold_locales (simp_all add: aget_aput aget_adel)

lemma aget_in_set: "aget m k = Some v \<Longrightarrow> (k, v) \<in> set m"
  by (induction m) (auto split: if_splits)

lemma aget_None_iff: "aget m k = None \<longleftrightarrow> k \<notin> fst ` set m"
  by (induction m) (auto split: if_splits simp: image_iff)

lemma aget_distinct: "distinct (map fst m) \<Longrightarrow> (k, v) \<in> set m \<Longrightarrow> aget m k = Some v"
  by (induction m) (auto simp: rev_image_eqI)

section \<open>The least index with a property\<close>

lemma filter_remove1_length:
  "x \<in> set xs \<Longrightarrow> length (filter P (remove1 x xs)) + (if P x then 1 else 0) = length (filter P xs)"
  by (induction xs) auto

lemma find_upt_None: "List.find P [a..<b] = None \<longleftrightarrow> (\<forall>j. a \<le> j \<and> j < b \<longrightarrow> \<not> P j)"
  by (auto simp: find_None_iff)

lemma find_upt_Some:
  "List.find P [a..<b] = Some i \<longleftrightarrow> a \<le> i \<and> i < b \<and> P i \<and> (\<forall>j. a \<le> j \<and> j < i \<longrightarrow> \<not> P j)"
proof (induction b)
  case 0
  show ?case by simp
next
  case (Suc b)
  have app: "List.find P (xs @ ys) = (case List.find P xs of None \<Rightarrow> List.find P ys | r \<Rightarrow> r)" for xs ys
    by (induction xs) auto
  show ?case
  proof (cases "a \<le> b")
    case True
    show ?thesis
    proof (cases "List.find P [a..<b]")
      case None
      then have "\<forall>j. a \<le> j \<and> j < b \<longrightarrow> \<not> P j" by (simp add: find_upt_None)
      with True None show ?thesis by (auto simp: app less_Suc_eq)
    next
      case (Some k)
      then have "k \<in> set [a..<b]" "P k"
        by (auto simp: find_Some_iff)
      with True Some Suc show ?thesis
        by (auto simp: app less_Suc_eq)
    qed
  qed simp
qed

text \<open>\<^verbatim>\<open>str::find\<close> of a literal, by character.\<close>

definition find_str :: "ustr \<Rightarrow> ustr \<Rightarrow> nat option" where
  "find_str s p = List.find (\<lambda>i. take (length p) (drop i s) = p) [0 ..< Suc (length s)]"

lemma find_str_Some:
  "find_str s p = Some i \<longleftrightarrow> i \<le> length s \<and> take (length p) (drop i s) = p
     \<and> (\<forall>j < i. take (length p) (drop j s) \<noteq> p)"
  by (auto simp: find_str_def find_upt_Some simp del: upt_Suc)

lemma find_str_None: "find_str s p = None \<longleftrightarrow> \<not> sublist p s"
proof
  assume a: "find_str s p = None"
  show "\<not> sublist p s"
  proof
    assume "sublist p s"
    then obtain x y where s: "s = x @ p @ y" by (auto simp: sublist_def)
    then have "length x < Suc (length s)" "take (length p) (drop (length x) s) = p" by simp_all
    with a show False by (auto simp: find_str_def find_upt_None simp del: upt_Suc)
  qed
next
  assume a: "\<not> sublist p s"
  have "take (length p) (drop i s) \<noteq> p" for i
  proof
    assume "take (length p) (drop i s) = p"
    then have "s = take i s @ p @ drop (length p) (drop i s)" by (metis append_take_drop_id)
    with a show False unfolding sublist_def by blast
  qed
  then show "find_str s p = None" by (auto simp: find_str_def find_upt_None simp del: upt_Suc)
qed

section \<open>Runs of a step function\<close>

text \<open>
  Components with several operations are driven by lists of events; a one-step invariant
  holds after every run, and a per-step relation that composes holds across the run.
\<close>

locale stepper =
  fixes step :: "'s \<Rightarrow> 'e \<Rightarrow> 's" and inv :: "'s \<Rightarrow> bool"
  assumes step_inv: "inv s \<Longrightarrow> inv (step s e)"
begin

lemma run_inv: "inv s \<Longrightarrow> inv (foldl step s es)"
  by (induction es arbitrary: s) (auto intro: step_inv)

lemma run_rel:
  assumes refl: "\<And>s. R s s" and trans: "\<And>a b c. R a b \<Longrightarrow> R b c \<Longrightarrow> R a c"
    and one: "\<And>s e. inv s \<Longrightarrow> R s (step s e)" and i: "inv s"
  shows "R s (foldl step s es)"
  using i
proof (induction es arbitrary: s)
  case Nil
  show ?case by (simp add: refl)
next
  case (Cons e es)
  from Cons.IH [OF step_inv [OF Cons.prems]] one [OF Cons.prems]
  show ?case by (auto intro: trans)
qed

end

end
