(* ===== verification/Shell_Words.thy ===== *)
theory Shell_Words
  imports Prelude
begin

text \<open>
  The shell-command scanners of \<^verbatim>\<open>crates/hoocode-code-permissions/src/lib.rs\<close>: the split
  into pipe segments and redirect targets (\<open>split_words\<close>), the scan for code the
  first-word check cannot see (\<open>has_code_expansion\<close>), the always-rule check
  (\<open>always_allows\<close>) and the pieces they share with the read-only allowlist (\<open>Safe_Shell\<close>).
\<close>

section \<open>Words and segments\<close>

record word =
  word_text :: ustr
  expands_to_flag :: bool
  slash :: bool

definition word_default :: word where
  "word_default = \<lparr>word_text = [], expands_to_flag = False, slash = False\<rparr>"

definition word_push :: "word \<Rightarrow> uchar \<Rightarrow> bool \<Rightarrow> word" where
  "word_push w c quoted =
     (let sl = (slash w \<or> c = C CHR ''/'')
      in \<lparr>word_text = word_text w @ [c],
          expands_to_flag = (expands_to_flag w
             \<or> (\<not> quoted \<and> \<not> sl \<and> c \<in> {C CHR ''*'', C CHR ''?'', C CHR ''['', C CHR ''{''})),
          slash = sl\<rparr>)"

text \<open>
  The state of \<^verbatim>\<open>split_words\<close>. The vector of segments is its finished part \<open>segs\<close> and its
  last segment \<open>seg\<close>, which the code reaches with \<^verbatim>\<open>last_mut().expect\<close>: it always exists.
\<close>

record split_state =
  segs :: "word list list"
  seg :: "word list"
  redirects :: "ustr list"
  current :: word
  quote :: "uchar option"
  escaped :: bool
  redirect_pending :: bool
  piped :: bool
  prev :: "uchar option"

definition split_init :: split_state where
  "split_init = \<lparr>segs = [], seg = [], redirects = [], current = word_default, quote = None,
     escaped = False, redirect_pending = False, piped = False, prev = None\<rparr>"

definition push_word :: "split_state \<Rightarrow> split_state" where
  "push_word s =
     (if word_text (current s) \<noteq> [] then s\<lparr>seg := seg s @ [current s], current := word_default\<rparr> else s)"

definition take_redirect :: "split_state \<Rightarrow> split_state" where
  "take_redirect s =
     (if redirect_pending s \<and> word_text (current s) \<noteq> []
      then s\<lparr>redirects := redirects s @ [word_text (current s)], current := word_default,
             redirect_pending := False\<rparr>
      else s)"

definition end_word :: "split_state \<Rightarrow> split_state" where
  "end_word s = push_word (take_redirect s)"

definition new_segment :: "split_state \<Rightarrow> split_state" where
  "new_segment s = s\<lparr>segs := segs s @ [seg s], seg := [], redirect_pending := False\<rparr>"

text \<open>
  One round of the loop over \<^verbatim>\<open>chars\<close>: the new state, and whether the peeked next character
  was consumed too.
\<close>

definition split_step :: "split_state \<Rightarrow> uchar \<Rightarrow> uchar option \<Rightarrow> split_state \<times> bool" where
  "split_step s c peek =
     (if escaped s then (s\<lparr>current := word_push (current s) c True, escaped := False\<rparr>, False)
      else if c = C CHR 0x5C \<and> quote s \<noteq> Some (C CHR 0x27) then (s\<lparr>escaped := True\<rparr>, False)
      else case quote s of
        Some q \<Rightarrow> (if c = q then s\<lparr>quote := None\<rparr>
                   else s\<lparr>current := word_push (current s) c True\<rparr>, False)
      | None \<Rightarrow>
         if c = C CHR 0x27 \<or> c = C CHR 0x22 then (s\<lparr>quote := Some c\<rparr>, False)
         else if c = C CHR ''|'' then
           (let s = end_word s; double = (peek = Some (C CHR ''|''));
                s = (if double then s else s\<lparr>piped := True\<rparr>)
            in ((new_segment s)\<lparr>prev := Some (C CHR ''|'')\<rparr>, double))
         else if c \<in> {C CHR ''&'', C CHR '';'', C CHR ''<'', C CHR ''('', C CHR '')''} then
           (if c = C CHR ''&'' \<and> prev s = Some (C CHR ''>'')
            then (s\<lparr>current := word_push (current s) c False, prev := Some c\<rparr>, False)
            else ((new_segment (end_word s))\<lparr>prev := Some c\<rparr>,
                  c = C CHR ''&'' \<and> peek = Some (C CHR ''&'')))
         else if c = C CHR ''>'' then
           ((end_word s)\<lparr>redirect_pending := True, prev := Some (C CHR ''>'')\<rparr>,
            peek = Some (C CHR ''>''))
         else if is_ws c then ((end_word s)\<lparr>prev := Some (C CHR '' '')\<rparr>, False)
         else (s\<lparr>current := word_push (current s) c False, prev := Some c\<rparr>, False))"

function split_loop :: "split_state \<Rightarrow> ustr \<Rightarrow> split_state" where
  "split_loop s [] = s"
| "split_loop s (c # cs) =
     (case split_step s c (case cs of [] \<Rightarrow> None | d # _ \<Rightarrow> Some d) of
        (s', skip) \<Rightarrow> split_loop s' (if skip then tl cs else cs))"
  by pat_completeness auto
termination
  by (relation "measure (\<lambda>(s, cs). length cs)") auto

definition split_words :: "ustr \<Rightarrow> word list list \<times> ustr list \<times> bool" where
  "split_words command =
     (let s = end_word (split_loop split_init command)
      in (filter (\<lambda>ws. ws \<noteq> []) (segs s @ [seg s]), redirects s, piped s))"

definition split_segments :: "ustr \<Rightarrow> ustr list list \<times> ustr list \<times> bool" where
  "split_segments command =
     (case split_words command of (sgs, rds, p) \<Rightarrow> (map (map word_text) sgs, rds, p))"

definition is_path_word :: "ustr \<Rightarrow> bool" where
  "is_path_word w \<longleftrightarrow> C CHR ''/'' \<in> set w \<or> C CHR ''.'' \<in> set w"

section \<open>Programs\<close>

definition unquote_ends :: "ustr \<Rightarrow> ustr" where
  "unquote_ends w =
     (let w = (case strip_prefix w [C CHR 0x27] of Some r \<Rightarrow> r | None \<Rightarrow>
                (case strip_prefix w [C CHR 0x22] of Some r \<Rightarrow> r | None \<Rightarrow> w))
      in (case strip_suffix w [C CHR 0x27] of Some r \<Rightarrow> r | None \<Rightarrow>
           (case strip_suffix w [C CHR 0x22] of Some r \<Rightarrow> r | None \<Rightarrow> w)))"

definition shell_program :: "ustr \<Rightarrow> ustr option" where
  "shell_program command =
     (case split_whitespace command of
        [] \<Rightarrow> None
      | w # _ \<Rightarrow> (let w = unquote_ends w in if w \<noteq> [] then Some w else None))"

definition always_wrappers :: "string list" where
  "always_wrappers =
     [''sudo'', ''doas'', ''su'', ''env'', ''sh'', ''bash'', ''zsh'', ''dash'', ''fish'',
      ''xargs'', ''nohup'', ''nice'', ''timeout'', ''watch'', ''find'', ''trap'', ''export'',
      ''declare'', ''typeset'', ''local'', ''readonly'', ''set'', ''unset'', ''shopt'',
      ''coproc'', ''function'', ''alias'', ''unalias'', ''cd'', ''pushd'', ''popd'', ''kill'',
      ''wait'', ''jobs'', ''fg'', ''bg'', ''disown'', ''suspend'', ''exec'', ''eval'',
      ''source'', ''.'', ''command'', ''builtin'', ''enable'', ''hash'', ''ulimit'', ''umask'',
      ''read'', ''mapfile'', ''let'', ''getopts'', ''fc'', ''history'', ''logout'', ''exit'',
      ''return'', ''break'', ''continue'', ''shift'', ''times'', ''type'', ''[['', ''if'',
      ''then'', ''elif'', ''else'', ''fi'', ''for'', ''while'', ''until'', ''case'', ''esac'',
      ''select'', ''time'', ''do'', ''done'', ''in'', ''{'', ''}'', ''('', '')'', ''!'']"

definition is_always_wrapper :: "ustr \<Rightarrow> bool" where
  "is_always_wrapper program \<longleftrightarrow>
     to_ascii_lowercase (last (split_on (C CHR ''/'') program)) \<in> set (map U always_wrappers)"

section \<open>Hidden code\<close>

text \<open>The loop of \<^verbatim>\<open>has_code_expansion\<close> over its locals \<open>single\<close>, \<open>escaped\<close> and \<open>prev\<close>.\<close>

fun code_scan :: "bool \<Rightarrow> bool \<Rightarrow> uchar option \<Rightarrow> ustr \<Rightarrow> bool" where
  "code_scan single esc p [] = False"
| "code_scan single esc p (c # cs) =
     (if single then code_scan (c \<noteq> C CHR 0x27) esc p cs
      else if esc then code_scan single False None cs
      else if c = C CHR 0x5C then code_scan single True None cs
      else if c = C CHR 0x27 then code_scan True esc None cs
      else if c = C CHR 0x60 then True
      else if c = C CHR ''('' \<and> p \<in> {Some (C CHR ''$''), Some (C CHR ''<''), Some (C CHR ''>'')} then True
      else if c = C CHR ''{'' \<and> p = Some (C CHR ''$'') then True
      else if c = C CHR ''<'' \<and> p = Some (C CHR ''<'') then True
      else code_scan single esc
             (if c \<in> {C CHR ''$'', C CHR ''<'', C CHR ''>''} then Some c else None) cs)"

definition has_code_expansion :: "ustr \<Rightarrow> bool" where
  "has_code_expansion command \<longleftrightarrow>
     10 \<in> set command \<or> 13 \<in> set command \<or> code_scan False False None command"

text \<open>\<^verbatim>\<open>NAME=value\<close>, with \<^verbatim>\<open>NAME\<close> an identifier.\<close>

definition is_assignment :: "ustr \<Rightarrow> bool" where
  "is_assignment w =
     (case split_once (C CHR ''='') w of
        None \<Rightarrow> False
      | Some (name, _) \<Rightarrow> name \<noteq> [] \<and>
          list_all (\<lambda>(i, c). c = C CHR ''_'' \<or> is_alpha c \<or> (i > 0 \<and> is_digit c))
            (List.enumerate 0 name))"

definition redirect_harmless :: "ustr \<Rightarrow> bool" where
  "redirect_harmless target \<longleftrightarrow> target = U ''/dev/null''
     \<or> (case strip_prefix target [C CHR ''&''] of
          None \<Rightarrow> False
        | Some fd \<Rightarrow> fd = [C CHR ''-''] \<or> (fd \<noteq> [] \<and> list_all is_digit fd))"

definition redirects_are_harmless :: "ustr \<Rightarrow> ustr list \<Rightarrow> bool" where
  "redirects_are_harmless command rds \<longleftrightarrow>
     \<not> contains_str command (U ''>|'') \<and> list_all redirect_harmless rds"

text \<open>
  \<^verbatim>\<open>always_allows\<close>. Every kept segment is non-empty (\<open>split_words\<close> retains only those), so
  \<^verbatim>\<open>words[0]\<close> is its head.
\<close>

definition always_allows :: "ustr \<Rightarrow> ustr list \<Rightarrow> bool" where
  "always_allows command approved =
     (if utf8_len command > 32 * 1024 then False
      else if has_code_expansion command then False
      else (case split_segments command of (sgs, rds, _) \<Rightarrow>
             if sgs = [] then False
             else if \<not> redirects_are_harmless command rds then False
             else list_all (\<lambda>ws. let program = hd ws in
                      C CHR ''/'' \<notin> set program \<and> \<not> is_always_wrapper program
                      \<and> \<not> is_assignment program \<and> program \<in> set approved) sgs))"


section \<open>Evaluation\<close>

lemmas split_eval = split_words_def split_init_def split_step_def word_push_def word_default_def
  end_word_def push_word_def take_redirect_def new_segment_def is_ws_def Let_def ustr_eval

section \<open>Quoted text is data\<close>

definition word_pushes :: "word \<Rightarrow> ustr \<Rightarrow> word" where
  "word_pushes w cs = foldl (\<lambda>w c. word_push w c True) w cs"

lemma word_text_push [simp]: "word_text (word_push w c q) = word_text w @ [c]"
  by (simp add: word_push_def Let_def)

lemma word_text_pushes [simp]: "word_text (word_pushes w cs) = word_text w @ cs"
  by (induction cs arbitrary: w) (simp_all add: word_pushes_def)

lemma word_text_default [simp]: "word_text word_default = []"
  by (simp add: word_default_def)

lemma split_step_single:
  "\<not> escaped s \<Longrightarrow> quote s = Some 39 \<Longrightarrow>
   split_step s c peek = (if c = 39 then s\<lparr>quote := None\<rparr>
                          else s\<lparr>current := word_push (current s) c True\<rparr>, False)"
  by (simp add: split_step_def ustr_eval)

lemma split_step_open:
  "\<not> escaped s \<Longrightarrow> quote s = None \<Longrightarrow> split_step s 39 peek = (s\<lparr>quote := Some 39\<rparr>, False)"
  by (simp add: split_step_def ustr_eval)

lemma split_step_space:
  "\<not> escaped s \<Longrightarrow> quote s = None \<Longrightarrow>
   split_step s 32 peek = ((end_word s)\<lparr>prev := Some 32\<rparr>, False)"
  by (simp add: split_step_def is_ws_def ustr_eval)

lemma split_loop_quoted:
  "\<not> escaped s \<Longrightarrow> quote s = Some 39 \<Longrightarrow> 39 \<notin> set w \<Longrightarrow>
   split_loop s (w @ rest) = split_loop (s\<lparr>current := word_pushes (current s) w\<rparr>) rest"
proof (induction w arbitrary: s)
  case Nil
  show ?case by (simp add: word_pushes_def)
next
  case (Cons c w)
  from Cons.prems have "split_loop s ((c # w) @ rest)
      = split_loop (s\<lparr>current := word_push (current s) c True\<rparr>) (w @ rest)"
    by (simp add: split_step_single)
  also have "\<dots> = split_loop (s\<lparr>current := word_pushes (word_push (current s) c True) w\<rparr>) rest"
    using Cons.IH [of "s\<lparr>current := word_push (current s) c True\<rparr>"] Cons.prems by simp
  finally show ?case by (simp add: word_pushes_def)
qed

definition single_quote :: "ustr \<Rightarrow> ustr" where
  "single_quote w = 39 # w @ [39]"

lemma split_loop_single_quote:
  assumes "\<not> escaped s" and "quote s = None" and "39 \<notin> set w"
  shows "split_loop s (single_quote w @ rest)
       = split_loop (s\<lparr>current := word_pushes (current s) w\<rparr>) rest"
proof -
  let ?q = "s\<lparr>quote := Some 39\<rparr>"
  let ?e = "?q\<lparr>current := word_pushes (current s) w\<rparr>"
  have "split_loop s (single_quote w @ rest) = split_loop ?q (w @ 39 # rest)"
    using assms by (simp add: single_quote_def split_step_open)
  also have "\<dots> = split_loop ?e (39 # rest)"
    using assms split_loop_quoted [of ?q w "39 # rest"] by simp
  also have "\<dots> = split_loop (?e\<lparr>quote := None\<rparr>) rest"
    using assms by (simp add: split_step_single)
  also have "?e\<lparr>quote := None\<rparr> = s\<lparr>current := word_pushes (current s) w\<rparr>"
    using assms by simp
  finally show ?thesis .
qed

definition idle :: "split_state \<Rightarrow> bool" where
  "idle s \<longleftrightarrow> \<not> escaped s \<and> quote s = None \<and> \<not> redirect_pending s \<and> current s = word_default"

lemma end_word_idle: "idle s \<Longrightarrow> end_word s = s"
  by (simp add: idle_def end_word_def push_word_def take_redirect_def)

lemma end_word_after_quote:
  assumes "idle s" and "w \<noteq> []"
  shows "end_word (s\<lparr>current := word_pushes word_default w\<rparr>)
       = s\<lparr>seg := seg s @ [word_pushes word_default w]\<rparr>"
  using assms by (simp add: idle_def end_word_def push_word_def take_redirect_def)

lemma split_loop_quoted_words:
  assumes "idle s" and "\<forall>w \<in> set ws. w \<noteq> [] \<and> 39 \<notin> set w"
  defines "s' \<equiv> end_word (split_loop s (join [32] (map single_quote ws)))"
  shows "map word_text (seg s') = map word_text (seg s) @ ws \<and> segs s' = segs s
       \<and> redirects s' = redirects s \<and> piped s' = piped s"
  using assms(1,2) unfolding s'_def
proof (induction ws arbitrary: s)
  case Nil
  then show ?case by (simp add: end_word_idle)
next
  case (Cons w ws)
  from Cons.prems have w: "w \<noteq> []" "39 \<notin> set w" and s: "idle s" by auto
  let ?c = "s\<lparr>current := word_pushes word_default w\<rparr>"
  have quoted: "split_loop s (single_quote w @ rest) = split_loop ?c rest" for rest
    using split_loop_single_quote [of s w rest] s w by (simp add: idle_def)
  show ?case
  proof (cases ws)
    case Nil
    with quoted [of "[]"] show ?thesis
      by (simp add: end_word_after_quote [OF s w(1)])
  next
    case (Cons v vs)
    let ?n = "(s\<lparr>seg := seg s @ [word_pushes word_default w]\<rparr>)\<lparr>prev := Some 32\<rparr>"
    let ?rest = "join [32] (map single_quote ws)"
    have "split_loop s (join [32] (map single_quote (w # ws))) = split_loop ?c (32 # ?rest)"
      using quoted [of "32 # ?rest"] Cons by simp
    also have "\<dots> = split_loop ?n ?rest"
      using s by (simp add: split_step_space idle_def end_word_after_quote [OF s w(1)])
    finally have step: "split_loop s (join [32] (map single_quote (w # ws))) = split_loop ?n ?rest" .
    have "idle ?n" using s by (simp add: idle_def)
    from Cons.IH [OF this] Cons.prems(2) show ?thesis
      unfolding step by simp
  qed
qed

text \<open>
  Arguments in single quotes reach the program check as they are. A command built by
  single-quoting non-empty words (none holding a single quote) and joining them with spaces
  splits into exactly one segment with exactly those words, whatever operators, redirects,
  globs or whitespace they contain; it has no redirect and no pipe.
\<close>

theorem single_quoted_words_roundtrip:
  assumes "ws \<noteq> []" and "\<forall>w \<in> set ws. w \<noteq> [] \<and> 39 \<notin> set w"
  shows "split_segments (join [32] (map single_quote ws)) = ([ws], [], False)"
proof -
  let ?s = "end_word (split_loop split_init (join [32] (map single_quote ws)))"
  have "idle split_init" by (simp add: idle_def split_init_def)
  from split_loop_quoted_words [OF this assms(2)]
  have "map word_text (seg ?s) = ws" "segs ?s = []" "redirects ?s = []" "\<not> piped ?s"
    by (simp_all add: split_init_def)
  with assms(1) show ?thesis
    by (auto simp: split_segments_def split_words_def Let_def)
qed

theorem single_quoted_words_roundtrip_witness:
  "split_segments (join [32] (map single_quote [U ''rm'', U ''a; b > c | d &''])) =
     ([[U ''rm'', U ''a; b > c | d &'']], [], False)"
  by (rule single_quoted_words_roundtrip) (simp_all add: ustr_eval)

end
