(* ===== verification/Safe_Shell.thy ===== *)
theory Safe_Shell
  imports Shell_Words
begin

text \<open>
  \<^verbatim>\<open>crates/hoocode-code-permissions/src/safe_shell.rs\<close>: the built-in allowlist of commands
  that only read, which run in every mode without a prompt.
\<close>

definition read_only_programs :: "string list" where
  "read_only_programs =
     [''ls'', ''pwd'', ''cat'', ''head'', ''tail'', ''wc'', ''grep'', ''egrep'', ''fgrep'',
      ''rg'', ''which'', ''whoami'', ''uname'', ''basename'', ''dirname'', ''realpath'',
      ''readlink'', ''stat'', ''du'', ''df'', ''nl'', ''cut'', ''tr'', ''diff'', ''cmp'',
      ''comm'', ''true'', ''false'', ''echo'', ''printf'', ''tree'', ''file'', ''sort'']"

definition long_flag :: "ustr \<Rightarrow> ustr \<Rightarrow> bool" where
  "long_flag arg name =
     (case strip_prefix arg (U ''--'') of
        None \<Rightarrow> False
      | Some given \<Rightarrow>
          (let given = hd (split_on (C CHR ''='') given)
           in given \<noteq> [] \<and> (starts_with name given \<or> starts_with given name)))"

text \<open>\<^verbatim>\<open>arg.len() > 1\<close> counts bytes; \<^verbatim>\<open>arg[1..]\<close> follows a \<^verbatim>\<open>-\<close>, a one-byte character.\<close>

definition short_flag :: "ustr \<Rightarrow> uchar \<Rightarrow> bool" where
  "short_flag arg flag \<longleftrightarrow>
     utf8_len arg > 1 \<and> starts_with arg (U ''-'') \<and> \<not> starts_with arg (U ''--'')
     \<and> flag \<in> set (tl arg)"

definition risky_arg_programs :: "string list" where
  "risky_arg_programs = [''sort'', ''tree'', ''rg'', ''file'', ''tail'', ''git'']"

definition has_long :: "ustr list \<Rightarrow> string list \<Rightarrow> bool" where
  "has_long args names \<longleftrightarrow> list_ex (\<lambda>a. list_ex (\<lambda>n. long_flag a (U n)) names) args"

definition has_short :: "ustr list \<Rightarrow> char \<Rightarrow> bool" where
  "has_short args flag \<longleftrightarrow> list_ex (\<lambda>a. short_flag a (C flag)) args"

definition has_unsafe_arg :: "ustr \<Rightarrow> ustr list \<Rightarrow> bool" where
  "has_unsafe_arg program args =
     (if program = U ''sort'' then
        has_short args CHR ''o'' \<or> has_long args [''output'', ''compress-program'']
      else if program = U ''tree'' then
        has_short args CHR ''o'' \<or> has_short args CHR ''R'' \<or> has_long args [''output'']
      else if program = U ''rg'' then has_long args [''pre'', ''hostname-bin'']
      else if program = U ''file'' then has_short args CHR ''C'' \<or> has_long args [''compile'']
      else if program = U ''tail'' then
        has_short args CHR ''f'' \<or> has_short args CHR ''F'' \<or> has_long args [''follow'']
      else False)"

definition git_read_only :: "string list" where
  "git_read_only = [''status'', ''diff'', ''log'', ''show'', ''blame'', ''rev-parse'',
     ''ls-files'', ''grep'', ''branch'']"

definition git_branch_list_flags :: "string list" where
  "git_branch_list_flags = [''-a'', ''-r'', ''-v'', ''-vv'', ''--all'', ''--remotes'',
     ''--list'', ''--show-current'']"

fun git_is_read_only :: "ustr list \<Rightarrow> bool" where
  "git_is_read_only [] = False"
| "git_is_read_only (sub # rest) =
     (if sub \<notin> set (map U git_read_only) then False
      else if list_ex (\<lambda>a. short_flag a (C CHR ''O'')
                 \<or> list_ex (\<lambda>n. long_flag a (U n))
                     [''output'', ''open-files-in-pager'', ''ext-diff'', ''textconv'']) rest
      then False
      else if sub = U ''branch'' then
        list_all (\<lambda>a. a \<in> set (map U git_branch_list_flags)) rest
      else True)"

fun segment_is_read_only :: "word list \<Rightarrow> bool" where
  "segment_is_read_only [] = False"
| "segment_is_read_only (pw # rest) =
     (let program = word_text pw; args = map word_text rest
      in if program \<in> set (map U risky_arg_programs) \<and> list_ex expands_to_flag rest then False
         else if C CHR ''/'' \<in> set program \<or> is_assignment program then False
         else if program = U ''cd'' then length args \<le> 1
         else if program = U ''git'' then git_is_read_only args
         else program \<in> set (map U read_only_programs) \<and> \<not> has_unsafe_arg program args)"

text \<open>The loop of \<^verbatim>\<open>has_parameter_expansion\<close> over \<open>single\<close> and \<open>escaped\<close>.\<close>

fun param_scan :: "bool \<Rightarrow> bool \<Rightarrow> ustr \<Rightarrow> bool" where
  "param_scan single esc [] = False"
| "param_scan single esc (c # cs) =
     (if single then param_scan (c \<noteq> C CHR 0x27) esc cs
      else if esc then param_scan single False cs
      else if c = C CHR 0x5C then param_scan single True cs
      else if c = C CHR 0x27 then param_scan True esc cs
      else if c = C CHR ''$'' then True
      else param_scan single esc cs)"

definition has_parameter_expansion :: "ustr \<Rightarrow> bool" where
  "has_parameter_expansion command \<longleftrightarrow> param_scan False False command"

definition is_safe_shell_command :: "ustr \<Rightarrow> bool" where
  "is_safe_shell_command command =
     (if trim command = [] \<or> utf8_len command > 32 * 1024 then False
      else if has_code_expansion command \<or> has_parameter_expansion command then False
      else (case split_words command of (sgs, rds, _) \<Rightarrow>
             if sgs = [] then False
             else if \<not> redirects_are_harmless command rds then False
             else list_all segment_is_read_only sgs))"

section \<open>A closed instance\<close>

lemma pwd_is_safe: "is_safe_shell_command (U ''pwd'')"
  by (simp add: is_safe_shell_command_def trim_def trim_start_def trim_end_def utf8_len_def
      utf8_width_def has_code_expansion_def has_parameter_expansion_def split_eval
      redirects_are_harmless_def contains_str_def read_only_programs_def has_unsafe_arg_def
      risky_arg_programs_def is_assignment_def split_once_def)

end
