(* ===== verification/Shell_Properties.thy ===== *)
theory Shell_Properties
  imports Safe_Shell
begin

text \<open>
  What the shell scanners guarantee: the scan for hidden code is an exact test on the
  characters outside single quotes and escapes; a command without quotes, backslashes and
  redirects splits as the shell splits it, so the always-rule and the read-only allowlist
  look at every program it runs; and the one place where the scanners' idea of quoting
  differs from the shell's lets code through.
\<close>

section \<open>The scan for hidden code\<close>

text \<open>
  The characters of a command outside single quotes and escapes, in place; \<open>None\<close> stands for
  a quoted or escaped character, a quote or a backslash.
\<close>

fun live :: "bool \<Rightarrow> bool \<Rightarrow> ustr \<Rightarrow> uchar option list" where
  "live single esc [] = []"
| "live single esc (c # cs) =
     (if single then None # live (c \<noteq> 39) esc cs
      else if esc then None # live single False cs
      else if c = 92 then None # live single True cs
      else if c = 39 then None # live True esc cs
      else Some c # live single esc cs)"

text \<open>\<open>$(\<close>, \<open><(\<close>, \<open>>(\<close>, \<open>${\<close> and \<open><<\<close>.\<close>

definition hidden_pairs :: "(uchar option \<times> uchar option) set" where
  "hidden_pairs = {(Some 36, Some 40), (Some 60, Some 40), (Some 62, Some 40), (Some 36, Some 123),
     (Some 60, Some 60)}"

fun has_pair :: "uchar option list \<Rightarrow> bool" where
  "has_pair (x # y # zs) = ((x, y) \<in> hidden_pairs \<or> has_pair (y # zs))"
| "has_pair _ = False"

lemma has_pair_Cons: "has_pair (x # l) \<longleftrightarrow> (\<exists>y zs. l = y # zs \<and> (x, y) \<in> hidden_pairs) \<or> has_pair l"
  by (cases l) auto

lemma has_pair_None [simp]: "has_pair (None # l) = has_pair l"
  by (auto simp: has_pair_Cons hidden_pairs_def)

lemma code_scan_live:
  "(single \<longrightarrow> p = None) \<Longrightarrow> (esc \<longrightarrow> p = None) \<Longrightarrow> p \<in> {None, Some 36, Some 60, Some 62} \<Longrightarrow>
   code_scan single esc p cs \<longleftrightarrow> Some 96 \<in> set (live single esc cs) \<or> has_pair (p # live single esc cs)"
proof (induction cs arbitrary: single esc p)
  case Nil
  show ?case by simp
next
  case (Cons c cs)
  show ?case
  proof (cases "single \<or> esc \<or> c = 92 \<or> c = 39")
    case True
    then show ?thesis
      using Cons.prems Cons.IH [of _ None] by (auto simp: ustr_eval has_pair_Cons [of p] hidden_pairs_def)
  next
    case False
    let ?p = "if c \<in> {36, 60, 62} then Some c else None"
    let ?hit = "c = 96 \<or> (p, Some c) \<in> hidden_pairs"
    have pair: "(p, Some c) \<in> hidden_pairs \<longleftrightarrow>
        (c = 40 \<and> p \<in> {Some 36, Some 60, Some 62}) \<or> (c = 123 \<and> p = Some 36) \<or> (c = 60 \<and> p = Some 60)"
      by (auto simp: hidden_pairs_def)
    have lhs: "code_scan single esc p (c # cs) \<longleftrightarrow> ?hit \<or> code_scan single esc ?p cs"
      unfolding pair using False by (simp add: ustr_eval del: insert_iff) blast
    have "code_scan single esc ?p cs
        \<longleftrightarrow> Some 96 \<in> set (live single esc cs) \<or> has_pair (?p # live single esc cs)"
      using False by (intro Cons.IH) auto
    moreover have "has_pair (?p # live single esc cs) = has_pair (Some c # live single esc cs)"
      by (auto simp: has_pair_Cons hidden_pairs_def)
    ultimately show ?thesis
      unfolding lhs using False by (auto simp: has_pair_Cons [of p])
  qed
qed

text \<open>
  \<open>has_code_expansion\<close> finds exactly what it looks for: it holds of a command if and only
  if the command has a line break, or, outside single quotes and escapes, a backtick or one
  of the adjacent pairs \<open>$(\<close>, \<open><(\<close>, \<open>>(\<close>, \<open>${\<close>, \<open><<\<close>.
\<close>

theorem code_expansion_exact:
  "has_code_expansion command \<longleftrightarrow>
     10 \<in> set command \<or> 13 \<in> set command
     \<or> Some 96 \<in> set (live False False command) \<or> has_pair (live False False command)"
  using code_scan_live [of False None False command] by (simp add: has_code_expansion_def)

lemma param_scan_live: "param_scan single esc cs \<longleftrightarrow> Some 36 \<in> set (live single esc cs)"
  by (induction single esc cs rule: param_scan.induct) (auto simp: ustr_eval)

section \<open>Plain commands split as the shell splits them\<close>

text \<open>A command without quotes, backslashes and redirects; its control operators.\<close>

definition plain :: "ustr \<Rightarrow> bool" where
  "plain command \<longleftrightarrow> set command \<inter> {39, 34, 92, 60, 62} = {}"

definition operators :: "uchar set" where
  "operators = {124, 38, 59, 40, 41}"

fun simple_commands :: "ustr \<Rightarrow> ustr list" where
  "simple_commands [] = [[]]"
| "simple_commands (c # cs) =
     (if c \<in> operators then [] # simple_commands cs
      else (case simple_commands cs of [] \<Rightarrow> [[c]] | p # ps \<Rightarrow> (c # p) # ps))"

lemma simple_commands_ne [simp]: "simple_commands cs \<noteq> []"
  by (cases cs) (auto split: list.split)

lemma simple_commands_char: "c \<notin> operators \<Longrightarrow>
   simple_commands (c # cs) = (c # hd (simple_commands cs)) # tl (simple_commands cs)"
  by (auto split: list.split)

lemmas simple_commands_eval = simple_commands.simps operators_def
declare simple_commands.simps(2) [simp del]

lemma simple_commands_op [simp]: "c \<in> operators \<Longrightarrow> simple_commands (c # cs) = [] # simple_commands cs"
  by (simp add: simple_commands.simps)

definition between :: "split_state \<Rightarrow> bool" where
  "between s \<longleftrightarrow> \<not> escaped s \<and> quote s = None \<and> \<not> redirect_pending s \<and> prev s \<noteq> Some 62
     \<and> redirects s = []"

abbreviation texts :: "word list list \<Rightarrow> ustr list list" where
  "texts ws \<equiv> filter (\<lambda>x. x \<noteq> []) (map (map word_text) ws)"

text \<open>What the state will still produce from the rest of the command.\<close>

definition outcome :: "split_state \<Rightarrow> ustr \<Rightarrow> ustr list list" where
  "outcome s cs = texts (segs s) @ filter (\<lambda>x. x \<noteq> [])
     ((map word_text (seg s) @ words_go (word_text (current s)) (hd (simple_commands cs)))
      # map (words_go []) (tl (simple_commands cs)))"

lemma end_word_between:
  "between s \<Longrightarrow> end_word s =
     (if word_text (current s) = [] then s else s\<lparr>seg := seg s @ [current s], current := word_default\<rparr>)"
  by (simp add: end_word_def take_redirect_def push_word_def between_def)

lemma map_hd_tl: "map (words_go []) xs = (case xs of [] \<Rightarrow> [] | _ \<Rightarrow> words_go [] (hd xs) # map (words_go []) (tl xs))"
  by (cases xs) auto

lemma outcome_operator:
  assumes "between s" and "c \<in> operators"
  shows "outcome ((new_segment (end_word s))\<lparr>prev := p\<rparr>) cs = outcome s (c # cs)"
  using assms
  by (cases "simple_commands cs")
     (auto simp: outcome_def end_word_between new_segment_def word_default_def)

lemma outcome_space:
  assumes "between s" and "is_ws c" and "c \<notin> operators"
  shows "outcome ((end_word s)\<lparr>prev := p\<rparr>) cs = outcome s (c # cs)"
  using assms by (auto simp: outcome_def end_word_between word_default_def simple_commands_char)

lemma outcome_char:
  assumes "\<not> is_ws c" and "c \<notin> operators"
  shows "outcome (s\<lparr>current := word_push (current s) c False, prev := p\<rparr>) cs = outcome s (c # cs)"
  using assms by (auto simp: outcome_def simple_commands_char)

lemma outcome_double: "c \<in> operators \<Longrightarrow> word_text (current s) = [] \<Longrightarrow> seg s = [] \<Longrightarrow> outcome s (c # cs) = outcome s cs"
  by (cases "simple_commands cs") (auto simp: outcome_def word_default_def)


lemma plain_step:
  assumes "between s" and "c \<notin> {39, 34, 92, 60, 62}"
  shows "\<exists>s' skip. split_step s c peek = (s', skip) \<and> between s' \<and> outcome s' cs = outcome s (c # cs)
    \<and> (skip \<longrightarrow> (\<exists>d. peek = Some d \<and> d \<in> operators) \<and> word_text (current s') = [] \<and> seg s' = [])"
proof -
  from assms(1) have e: "\<not> escaped s" "quote s = None" "prev s \<noteq> Some 62" by (auto simp: between_def)
  have new: "between ((new_segment (end_word s))\<lparr>prev := Some x\<rparr>)" if "x \<noteq> 62" for x
    using assms(1) that by (auto simp: between_def end_word_def push_word_def take_redirect_def new_segment_def)
  have new_seg: "seg (new_segment t) = []" "word_text (current (new_segment (end_word s))) = []" for t
    using assms(1) by (auto simp: between_def new_segment_def end_word_def push_word_def
        take_redirect_def word_default_def)
  consider (op) "c \<in> operators" "c \<noteq> 124" | (pipe) "c = 124" | (space) "c \<notin> operators" "is_ws c"
    | (chr) "c \<notin> operators" "\<not> is_ws c" by blast
  then show ?thesis
  proof cases
    case op
    with e assms(2) have "split_step s c peek
        = ((new_segment (end_word s))\<lparr>prev := Some c\<rparr>, c = 38 \<and> peek = Some 38)"
      by (auto simp: split_step_def operators_def ustr_eval)
    with new [of c] new_seg outcome_operator [OF assms(1) op(1)] assms(2) show ?thesis
      by (auto simp: operators_def)
  next
    case pipe
    let ?s = "if peek = Some 124 then end_word s else (end_word s)\<lparr>piped := True\<rparr>"
    have "split_step s c peek = ((new_segment ?s)\<lparr>prev := Some 124\<rparr>, peek = Some 124)"
      using e pipe by (simp add: split_step_def ustr_eval Let_def)
    moreover have "new_segment ?s = (new_segment (end_word s))\<lparr>piped := (peek \<noteq> Some 124 \<or> piped (new_segment ?s))\<rparr>"
      by (simp add: new_segment_def)
    ultimately show ?thesis
      using new [of 124] new_seg outcome_operator [OF assms(1), of c "Some 124" cs] pipe
      by (auto simp: operators_def between_def outcome_def new_segment_def)
  next
    case space
    with e assms(2) have "split_step s c peek = ((end_word s)\<lparr>prev := Some 32\<rparr>, False)"
      by (auto simp: split_step_def operators_def ustr_eval)
    moreover have "between ((end_word s)\<lparr>prev := Some 32\<rparr>)"
      using assms(1) by (auto simp: between_def end_word_def push_word_def take_redirect_def)
    ultimately show ?thesis using outcome_space [OF assms(1) space(2,1)] by auto
  next
    case chr
    with e assms(2) have "split_step s c peek
        = (s\<lparr>current := word_push (current s) c False, prev := Some c\<rparr>, False)"
      by (auto simp: split_step_def operators_def ustr_eval)
    moreover have "between (s\<lparr>current := word_push (current s) c False, prev := Some c\<rparr>)"
      using assms by (auto simp: between_def)
    ultimately show ?thesis using outcome_char [OF chr(2,1)] by auto
  qed
qed

lemma plain_loop:
  "between s \<Longrightarrow> set cs \<inter> {39, 34, 92, 60, 62} = {} \<Longrightarrow>
   between (split_loop s cs) \<and> outcome (split_loop s cs) [] = outcome s cs"
proof (induction s cs rule: split_loop.induct)
  case (1 s)
  then show ?case by simp
next
  case (2 s c cs)
  let ?peek = "case cs of [] \<Rightarrow> None | d # _ \<Rightarrow> Some d"
  from 2 obtain s' skip where st: "split_step s c ?peek = (s', skip)" "between s'"
    "outcome s' cs = outcome s (c # cs)"
    "skip \<longrightarrow> (\<exists>d. ?peek = Some d \<and> d \<in> operators) \<and> word_text (current s') = [] \<and> seg s' = []"
    using plain_step [of s c ?peek cs] by auto
  have ih: "between (split_loop s' (if skip then tl cs else cs))
      \<and> outcome (split_loop s' (if skip then tl cs else cs)) [] = outcome s' (if skip then tl cs else cs)"
    by (rule "2.IH" [OF st(1) [symmetric]]) (use st(2) "2.prems" in \<open>cases cs; auto\<close>)+
  moreover have "outcome s' (if skip then tl cs else cs) = outcome s' cs"
    using st(4) outcome_double [of _ s' "tl cs"] by (cases cs) auto
  ultimately show ?case using st by simp
qed

lemma outcome_end: "between s \<Longrightarrow> texts (segs (end_word s) @ [seg (end_word s)]) = outcome s []"
  by (auto simp: outcome_def end_word_between)

lemma plain_split:
  assumes "plain command"
  shows "fst (split_segments command)
       = filter (\<lambda>ws. ws \<noteq> []) (map split_whitespace (simple_commands command))
     \<and> fst (snd (split_segments command)) = []"
proof -
  let ?s = "split_loop split_init command"
  have i: "between split_init" by (simp add: between_def split_init_def)
  from plain_loop [OF i] assms have l: "between ?s" "outcome ?s [] = outcome split_init command"
    by (auto simp: plain_def)
  have "filter (\<lambda>ws. ws \<noteq> []) (map (map word_text) xs) = map (map word_text) (filter (\<lambda>ws. ws \<noteq> []) xs)" for xs
    by (induction xs) auto
  note fmap = this
  have "fst (split_segments command) = texts (segs (end_word ?s) @ [seg (end_word ?s)])"
    by (simp add: split_segments_def split_words_def Let_def fmap del: filter_append map_append)
  also have "\<dots> = filter (\<lambda>ws. ws \<noteq> []) (map split_whitespace (simple_commands command))"
    unfolding outcome_end [OF l(1)] l(2) map_hd_tl [of "simple_commands command"]
    by (cases "simple_commands command")
       (auto simp: outcome_def split_init_def word_default_def split_whitespace_def [abs_def] comp_def)
  finally show ?thesis
    using l(1) by (auto simp: split_segments_def split_words_def Let_def end_word_between between_def)
qed

text \<open>
  A command without quotes, backslashes and redirects splits into segments as the shell
  splits it into simple commands: cut at every \<open>|\<close>, \<open>&\<close>, \<open>;\<close>, \<open>(\<close> and \<open>)\<close>, each piece
  cut into words at whitespace, empty pieces dropped; there is no redirect.
\<close>

theorem plain_command_split:
  assumes "plain command"
  shows "split_segments command =
     (filter (\<lambda>ws. ws \<noteq> []) (map split_whitespace (simple_commands command)), [],
      snd (snd (split_segments command)))"
  using plain_split [OF assms] by (cases "split_segments command") auto

theorem plain_command_split_witness:
  "fst (split_segments (U ''ls -l && make x | wc'')) = [[U ''ls'', U ''-l''], [U ''make'', U ''x''], [U ''wc'']]"
proof -
  have "plain (U ''ls -l && make x | wc'')" by (simp add: plain_def ustr_eval)
  moreover have "filter (\<lambda>ws. ws \<noteq> []) (map split_whitespace (simple_commands (U ''ls -l && make x | wc'')))
      = [[U ''ls'', U ''-l''], [U ''make'', U ''x''], [U ''wc'']]"
    by (simp add: split_whitespace_def simple_commands_eval is_ws_def ustr_eval)
  ultimately show ?thesis
    using arg_cong [OF plain_command_split [of "U ''ls -l && make x | wc''"], of fst] by simp
qed


section \<open>Every program of a plain command is looked at\<close>

lemma plain_programs:
  assumes "plain command" and "piece \<in> set (simple_commands command)" and "split_whitespace piece = w # ws"
  shows "w # ws \<in> set (fst (split_segments command))"
  using assms plain_split [OF assms(1)] by (force simp: image_iff)

text \<open>
  C36: An always-rule runs approved programs only. If \<open>always_allows\<close> covers a plain command,
  then every simple command in it that has a word starts with an approved program, and that
  program is no wrapper, no path and no assignment.
\<close>

theorem always_rule_covers_every_program:
  assumes "plain command" and "always_allows command approved"
    and "piece \<in> set (simple_commands command)" and "split_whitespace piece = w # ws"
  shows "w \<in> set approved \<and> \<not> is_always_wrapper w \<and> C CHR ''/'' \<notin> set w \<and> \<not> is_assignment w"
  using plain_programs [OF assms(1,3,4)] assms(2)
  by (cases "split_segments command")
     (auto simp: always_allows_def list_all_iff split: if_splits)

theorem always_rule_covers_every_program_witness:
  "U ''make'' \<in> set [U ''make'', U ''wc''] \<and> \<not> is_always_wrapper (U ''make'')
   \<and> C CHR ''/'' \<notin> set (U ''make'') \<and> \<not> is_assignment (U ''make'')"
proof -
  let ?c = "U ''wc x; make y''"
  have "plain ?c" by (simp add: plain_def ustr_eval)
  moreover have "always_allows ?c [U ''make'', U ''wc'']"
    by (simp add: always_allows_def utf8_len_def utf8_width_def has_code_expansion_def split_segments_def
        split_eval redirects_are_harmless_def contains_str_def is_always_wrapper_def always_wrappers_def
        is_assignment_def split_once_def to_ascii_lowercase_def lower_def)
  moreover have "U '' make y'' \<in> set (simple_commands ?c)"
    by (simp add: simple_commands_eval ustr_eval)
  moreover have "split_whitespace (U '' make y'') = U ''make'' # [U ''y'']"
    by (simp add: split_whitespace_def is_ws_def ustr_eval)
  ultimately show ?thesis by (rule always_rule_covers_every_program)
qed

text \<open>
  C37: The read-only allowlist looks at every program of a plain command. If a plain command
  is allowed as read-only, it has no line break, backtick, or dollar sign, and every simple
  command in it that has a word starts with a listed program, with \<open>cd\<close>, or with \<open>git\<close> and a
  listed subcommand; a listed program has none of its writing or running flags.
\<close>

theorem safe_shell_covers_every_program:
  assumes "plain command" and "is_safe_shell_command command"
    and "piece \<in> set (simple_commands command)" and "split_whitespace piece = w # ws"
  shows "set command \<inter> {10, 13, 36, 96} = {}
     \<and> (w = U ''cd'' \<or> (w = U ''git'' \<and> ws \<noteq> [] \<and> hd ws \<in> set (map U git_read_only))
        \<or> (w \<in> set (map U read_only_programs) \<and> \<not> has_unsafe_arg w ws))"
proof -
  obtain sgs rds p where sw: "split_words command = (sgs, rds, p)" by (cases "split_words command")
  have "\<not> has_code_expansion command" "\<not> has_parameter_expansion command"
    and all: "list_all segment_is_read_only sgs"
    using assms(2) sw by (auto simp: is_safe_shell_command_def split: if_splits)
  moreover have "live False False cs = map Some cs" if "plain cs" for cs
    using that by (induction cs) (auto simp: plain_def)
  ultimately have chars: "set command \<inter> {10, 13, 36, 96} = {}"
    using assms(1)
    by (auto simp: has_code_expansion_def has_parameter_expansion_def code_scan_live param_scan_live)
  from plain_programs [OF assms(1,3,4)] sw obtain seg where
    seg: "seg \<in> set sgs" "map word_text seg = w # ws"
    by (auto simp: split_segments_def)
  then obtain pw rest where "seg = pw # rest" "word_text pw = w" "map word_text rest = ws" by auto
  with seg(1) all have "(w = U ''cd'' \<or> (w = U ''git'' \<and> git_is_read_only ws)
        \<or> (w \<in> set (map U read_only_programs) \<and> \<not> has_unsafe_arg w ws))"
    by (auto simp: list_all_iff Let_def split: if_splits)
  moreover have "git_is_read_only ws \<Longrightarrow> ws \<noteq> [] \<and> hd ws \<in> set (map U git_read_only)"
    by (cases ws) (auto split: if_splits)
  ultimately show ?thesis using chars by blast
qed

theorem safe_shell_covers_every_program_witness:
  "set (U ''ls -l | sort -r'') \<inter> {10, 13, 36, 96} = {}"
proof -
  let ?c = "U ''ls -l | sort -r''"
  have "plain ?c" by (simp add: plain_def ustr_eval)
  moreover have "is_safe_shell_command ?c"
    by (simp add: is_safe_shell_command_def trim_def trim_start_def trim_end_def utf8_len_def
        utf8_width_def has_code_expansion_def has_parameter_expansion_def split_eval
        redirects_are_harmless_def contains_str_def read_only_programs_def has_unsafe_arg_def
        risky_arg_programs_def is_assignment_def split_once_def has_short_def has_long_def
        short_flag_def long_flag_def starts_with_def strip_prefix_def)
  moreover have "U '' sort -r'' \<in> set (simple_commands ?c)"
    by (simp add: simple_commands_eval ustr_eval)
  moreover have "split_whitespace (U '' sort -r'') = U ''sort'' # [U ''-r'']"
    by (simp add: split_whitespace_def is_ws_def ustr_eval)
  ultimately show ?thesis using safe_shell_covers_every_program by blast
qed

section \<open>Where the scanners and the shell disagree\<close>

text \<open>
  The characters a POSIX shell expands: outside single quotes and escapes, where a single
  quote inside double quotes is an ordinary character.
\<close>

fun posix_live :: "uchar option \<Rightarrow> bool \<Rightarrow> ustr \<Rightarrow> uchar option list" where
  "posix_live q esc [] = []"
| "posix_live q esc (c # cs) =
     (if q = Some 39 then None # posix_live (if c = 39 then None else q) esc cs
      else if esc then None # posix_live q False cs
      else if c = 92 then None # posix_live q True cs
      else if q = Some 34 then
        (if c = 34 then None # posix_live None esc cs else Some c # posix_live q esc cs)
      else if c = 39 \<or> c = 34 then None # posix_live (Some c) esc cs
      else Some c # posix_live q esc cs)"

lemma posix_live_no_double:
  "34 \<notin> set cs \<Longrightarrow> posix_live (if single then Some 39 else None) esc cs = live single esc cs"
  by (induction single esc cs rule: live.induct) auto

text \<open>
  Without double quotes the read-only check is right about expansion: a command it
  accepts that holds no double quote has no backtick and no dollar sign that a shell would
  expand.
\<close>

theorem safe_shell_no_expansion:
  assumes "is_safe_shell_command command" and "34 \<notin> set command"
  shows "Some 96 \<notin> set (posix_live None False command) \<and> Some 36 \<notin> set (posix_live None False command)"
proof -
  have "\<not> has_code_expansion command" "\<not> has_parameter_expansion command"
    using assms(1) by (auto simp: is_safe_shell_command_def split: if_splits)
  then show ?thesis
    using posix_live_no_double [OF assms(2), of False False]
    by (auto simp: has_code_expansion_def has_parameter_expansion_def code_scan_live param_scan_live)
qed

theorem safe_shell_no_expansion_witness:
  "Some 96 \<notin> set (posix_live None False (U ''pwd'')) \<and> Some 36 \<notin> set (posix_live None False (U ''pwd''))"
  by (rule safe_shell_no_expansion [OF pwd_is_safe]) (simp add: ustr_eval)

text \<open>
  The hypothesis on double quotes is needed: \<open>echo "'" `rm -rf x` "'"\<close>.
\<close>

definition sneaky_command :: ustr where
  "sneaky_command = U ''echo '' @ [34, 39, 34, 32, 96] @ U ''rm -rf x'' @ [96, 32, 34, 39, 34]"

text \<open>
  A single quote inside double quotes blinds both scans. The command
  \<open>echo "'" `rm -rf x` "'"\<close> is accepted as read-only, and an always-rule for \<open>echo\<close> covers
  it, although a shell expands its backticks and runs \<open>rm -rf x\<close>.
\<close>

theorem quoted_quote_hides_code:
  "is_safe_shell_command sneaky_command \<and> always_allows sneaky_command [U ''echo'']
   \<and> Some 96 \<in> set (posix_live None False sneaky_command)"
  by (intro conjI)
     (simp_all add: sneaky_command_def is_safe_shell_command_def always_allows_def trim_def
        trim_start_def trim_end_def utf8_len_def utf8_width_def has_code_expansion_def
        has_parameter_expansion_def split_segments_def split_eval redirects_are_harmless_def
        contains_str_def read_only_programs_def has_unsafe_arg_def risky_arg_programs_def
        is_assignment_def split_once_def is_always_wrapper_def always_wrappers_def
        to_ascii_lowercase_def lower_def)

end
