(* ===== verification/Json.thy ===== *)
theory Json
  imports Prelude
begin

text \<open>
  \<^verbatim>\<open>serde_json::Value\<close>, the data the configuration, the tool arguments and the session
  details are made of. An object is an association list read through its first entry for a
  key; the order of keys only shows in a written file and is not observed by the modelled
  code. Numbers are kept as their source text: no modelled function computes with one.
\<close>

datatype json =
    JNull
  | JBool bool
  | JNum ustr
  | JStr ustr
  | JArr "json list"
  | JObj "(ustr \<times> json) list"

type_synonym jobject = "(ustr \<times> json) list"

fun as_bool :: "json \<Rightarrow> bool option" where
  "as_bool (JBool b) = Some b"
| "as_bool _ = None"

fun as_str :: "json \<Rightarrow> ustr option" where
  "as_str (JStr s) = Some s"
| "as_str _ = None"

fun as_array :: "json \<Rightarrow> json list option" where
  "as_array (JArr xs) = Some xs"
| "as_array _ = None"

fun as_object :: "json \<Rightarrow> jobject option" where
  "as_object (JObj m) = Some m"
| "as_object _ = None"

definition is_array :: "json \<Rightarrow> bool" where "is_array v \<longleftrightarrow> as_array v \<noteq> None"
definition is_object :: "json \<Rightarrow> bool" where "is_object v \<longleftrightarrow> as_object v \<noteq> None"

text \<open>\<^verbatim>\<open>Value::get(key)\<close>: \<^verbatim>\<open>None\<close> unless the value is an object with that key.\<close>

definition jget :: "json \<Rightarrow> ustr \<Rightarrow> json option" where
  "jget v k = (case as_object v of None \<Rightarrow> None | Some m \<Rightarrow> aget m k)"

text \<open>\<^verbatim>\<open>map.entry(key).or_insert(v)\<close> as an update: an existing value stays.\<close>

definition aentry :: "'k \<Rightarrow> 'v \<Rightarrow> ('k \<times> 'v) list \<Rightarrow> ('k \<times> 'v) list" where
  "aentry k v m = (if aget m k = None then aput k v m else m)"

lemma aget_aentry:
  "aget (aentry k v m) j = (if j = k \<and> aget m k = None then Some v else aget m j)"
  by (auto simp: aentry_def amap.get_put)

lemma jget_JObj [simp]: "jget (JObj m) k = aget m k"
  by (simp add: jget_def)

lemma as_object_Some [simp]: "as_object v = Some m \<longleftrightarrow> v = JObj m"
  by (cases v) auto

lemma as_array_Some [simp]: "as_array v = Some xs \<longleftrightarrow> v = JArr xs"
  by (cases v) auto

lemma as_str_Some [simp]: "as_str v = Some s \<longleftrightarrow> v = JStr s"
  by (cases v) auto

lemma as_bool_Some [simp]: "as_bool v = Some b \<longleftrightarrow> v = JBool b"
  by (cases v) auto

end
