(* ===== verification/Messages.thy ===== *)
theory Messages
  imports Json
begin

text \<open>
  The conversation data every later component carries:
  \<^verbatim>\<open>hoocode-ai-types/src/lib.rs\<close> (content blocks, usage, the three model messages) and
  \<^verbatim>\<open>hoocode-agent-types/src/lib.rs\<close> (\<^verbatim>\<open>AgentMessage\<close> and its harness roles). Token
  counts are \<^verbatim>\<open>u64\<close> values held as naturals; \<^verbatim>\<open>Usage.cost\<close>, five floats no modelled
  function reads, is kept as the JSON it is stored as.
\<close>

section \<open>Content blocks\<close>

record text_content =
  tx_text :: ustr
  tx_signature :: "ustr option"

record image_content =
  img_data :: ustr
  img_media_type :: ustr

record thinking_content =
  th_thinking :: ustr
  th_signature :: "ustr option"
  th_redacted :: bool

record tool_call_content =
  call_id :: ustr
  call_name :: ustr
  call_arguments :: json
  call_thought_signature :: "ustr option"

datatype content =
    CText text_content
  | CImage image_content
  | CThinking thinking_content
  | CToolCall tool_call_content

definition text_block :: "ustr \<Rightarrow> content" where
  "text_block s = CText \<lparr>tx_text = s, tx_signature = None\<rparr>"

datatype user_content = UText ustr | UBlocks "content list"

fun blocks :: "user_content \<Rightarrow> content list" where
  "blocks (UText s) = [text_block s]"
| "blocks (UBlocks bs) = bs"

section \<open>Model messages\<close>

datatype stop_reason = Stop | Length | ToolUse | ErrorStop | Aborted

record usage =
  u_input :: nat
  u_output :: nat
  u_cache_read :: nat
  u_cache_write :: nat
  u_total_tokens :: nat
  u_cost :: json

record user_message =
  um_content :: user_content
  um_timestamp :: int

record assistant_message =
  am_content :: "content list"
  am_api :: ustr
  am_provider :: ustr
  am_model :: ustr
  am_usage :: usage
  am_stop_reason :: stop_reason
  am_timestamp :: int
  am_response_id :: "ustr option"
  am_response_model :: "ustr option"
  am_error_message :: "ustr option"
  am_diagnostics :: "json list option"

record tool_result_message =
  tr_call_id :: ustr
  tr_tool_name :: ustr
  tr_content :: "content list"
  tr_details :: "json option"
  tr_is_error :: bool
  tr_timestamp :: int
  tr_duration_ms :: "nat option"

section \<open>Agent messages\<close>

record bash_execution_message =
  be_command :: ustr
  be_output :: ustr
  be_exit_code :: "int option"
  be_cancelled :: bool
  be_truncated :: bool
  be_full_output_path :: "ustr option"
  be_timestamp :: int
  be_exclude_from_context :: "bool option"

record custom_message =
  cm_custom_type :: ustr
  cm_content :: user_content
  cm_display :: bool
  cm_details :: "json option"
  cm_timestamp :: int

record branch_summary_message =
  bs_summary :: ustr
  bs_from_id :: ustr
  bs_timestamp :: int

record compaction_summary_message =
  cs_summary :: ustr
  cs_tokens_before :: nat
  cs_tokens_after :: "nat option"
  cs_timestamp :: int
  cs_mission_range :: "(nat \<times> nat) option"

datatype agent_message =
    UserMsg user_message
  | AssistantMsg assistant_message
  | ToolResultMsg tool_result_message
  | BashExecutionMsg bash_execution_message
  | CustomMsg custom_message
  | BranchSummaryMsg branch_summary_message
  | CompactionSummaryMsg compaction_summary_message

fun is_user_msg :: "agent_message \<Rightarrow> bool" where
  "is_user_msg (UserMsg _) = True"
| "is_user_msg _ = False"

fun is_tool_result :: "agent_message \<Rightarrow> bool" where
  "is_tool_result (ToolResultMsg _) = True"
| "is_tool_result _ = False"

fun is_bash_execution :: "agent_message \<Rightarrow> bool" where
  "is_bash_execution (BashExecutionMsg _) = True"
| "is_bash_execution _ = False"

text \<open>What a permission gate answers.\<close>

datatype permission_decision = Grant | GrantAlways | Deny ustr

text \<open>Closed messages used to evaluate the model on concrete sessions.\<close>

definition no_usage :: usage where
  "no_usage = \<lparr>u_input = 0, u_output = 0, u_cache_read = 0, u_cache_write = 0,
     u_total_tokens = 0, u_cost = JNull\<rparr>"

definition user_says :: "ustr \<Rightarrow> agent_message" where
  "user_says s = UserMsg \<lparr>um_content = UText s, um_timestamp = 0\<rparr>"

definition assistant_says :: "ustr \<Rightarrow> ustr \<Rightarrow> content list \<Rightarrow> agent_message" where
  "assistant_says prov model bs = AssistantMsg \<lparr>am_content = bs, am_api = [], am_provider = prov,
     am_model = model, am_usage = no_usage, am_stop_reason = Stop, am_timestamp = 0,
     am_response_id = None, am_response_model = None, am_error_message = None,
     am_diagnostics = None\<rparr>"

definition tool_says :: "ustr \<Rightarrow> ustr \<Rightarrow> agent_message" where
  "tool_says i s = ToolResultMsg \<lparr>tr_call_id = i, tr_tool_name = [], tr_content = [text_block s],
     tr_details = None, tr_is_error = False, tr_timestamp = 0, tr_duration_ms = None\<rparr>"

end
