(* ===== verification/Mode_Config.thy ===== *)
theory Mode_Config
  imports Json
begin

text \<open>
  \<^verbatim>\<open>crates/hoocode-code-modes/src/config.rs\<close>: the merged \<^verbatim>\<open>hoo-config.json\<close>. The global
  file, with the shipped mode rules filled in, is overlaid by the project's file. The
  files themselves (reading and writing) are the state of the permission gate
  (\<open>Permission_Gate\<close>); this theory holds the pure merge and the accessors. The environment
  variable of \<open>skip_permissions\<close> is an argument.
\<close>

type_synonym hoo_config = jobject

section \<open>Reading and merging\<close>

definition strings :: "json option \<Rightarrow> ustr list" where
  "strings v = (case Option.bind v as_array of
      None \<Rightarrow> []
    | Some items \<Rightarrow> List.map_filter as_str items)"

definition dedupe :: "ustr list \<Rightarrow> ustr list" where
  "dedupe paths = foldl (\<lambda>out p. if p \<in> set out then out else out @ [p]) [] paths"

definition union_lists :: "json option \<Rightarrow> json option \<Rightarrow> json" where
  "union_lists a b = JArr (map JStr (dedupe (strings a @ strings b)))"

definition get_object :: "hoo_config \<Rightarrow> ustr \<Rightarrow> jobject option" where
  "get_object m k = Option.bind (aget m k) as_object"

definition copy_key :: "jobject \<Rightarrow> jobject \<Rightarrow> ustr \<Rightarrow> jobject" where
  "copy_key from_obj onto k = (case aget from_obj k of None \<Rightarrow> onto | Some v \<Rightarrow> aput k v onto)"

text \<open>One mode's merged rules: the body of the loop of \<^verbatim>\<open>merge_configs\<close>.\<close>

definition merge_mode :: "jobject \<Rightarrow> jobject \<Rightarrow> jobject" where
  "merge_mode global_cfg project_cfg =
     (let cfg = foldl (\<lambda>c (k, v). aput k v c) global_cfg project_cfg;
          cfg = foldl (\<lambda>c k. aput k (union_lists (aget global_cfg k) (aget project_cfg k)) c)
                  cfg [U ''denied_tools'', U ''denied_bash_commands''];
          cfg = (case aget global_cfg (U ''auto_allow'') of
                   Some v \<Rightarrow> aput (U ''auto_allow'') v cfg
                 | None \<Rightarrow> adel (U ''auto_allow'') cfg);
          cfg = copy_key global_cfg cfg (U ''allowed_write_paths'')
      in foldl (\<lambda>c k. case (case aget project_cfg k of None \<Rightarrow> aget global_cfg k | Some v \<Rightarrow> Some v) of
                        Some v \<Rightarrow> aput k v c
                      | None \<Rightarrow> adel k c)
           cfg [U ''enabled_tools'', U ''allowed_bash_commands''])"

definition merge_modes :: "jobject option \<Rightarrow> jobject \<Rightarrow> jobject" where
  "merge_modes global_modes project_modes =
     foldl (\<lambda>modes (mode, project_cfg).
        let global_cfg = (case Option.bind (Option.bind global_modes (\<lambda>m. aget m mode)) as_object of
                            None \<Rightarrow> [] | Some m \<Rightarrow> m);
            project_cfg = (case as_object project_cfg of None \<Rightarrow> [] | Some m \<Rightarrow> m)
        in aput mode (JObj (merge_mode global_cfg project_cfg)) modes)
       (case global_modes of None \<Rightarrow> [] | Some m \<Rightarrow> m) project_modes"

definition merge_configs :: "hoo_config \<Rightarrow> hoo_config \<Rightarrow> hoo_config" where
  "merge_configs global project =
     (let merged = copy_key project (copy_key project global (U ''active_mode''))
                     (U ''thinking_escalation'');
          merged = (case get_object project (U ''modes'') of
                      None \<Rightarrow> merged
                    | Some project_modes \<Rightarrow>
                        aput (U ''modes'')
                          (JObj (merge_modes (get_object global (U ''modes'')) project_modes)) merged)
      in if aget project (U ''mode_paths'') \<noteq> None \<or> aget global (U ''mode_paths'') \<noteq> None
         then aput (U ''mode_paths'')
                (JArr (map JStr (dedupe (strings (aget project (U ''mode_paths''))
                                        @ strings (aget global (U ''mode_paths'')))))) merged
         else merged)"

definition merge_search_paths :: "ustr list list \<Rightarrow> ustr list" where
  "merge_search_paths sources = dedupe (concat sources)"

section \<open>The shipped defaults\<close>

abbreviation jstrs :: "string list \<Rightarrow> json" where
  "jstrs ss \<equiv> JArr (map (\<lambda>s. JStr (U s)) ss)"

definition default_modes :: jobject where
  "default_modes =
     [(U ''ask'', JObj [(U ''denied_tools'', jstrs [''Write'', ''Edit''])]),
      (U ''debug'', JObj [(U ''denied_tools'', jstrs [''Write'', ''Edit''])]),
      (U ''plan'', JObj [(U ''allowed_write_paths'', jstrs [''.hoocode/*'']),
                         (U ''auto_allow'', jstrs [''Write'', ''Edit''])]),
      (U ''build'', JObj [])]"

definition default_config :: hoo_config where
  "default_config =
     [(U ''active_mode'', JStr (U ''build'')),
      (U ''safe_shell'', JBool True),
      (U ''skip_permissions'', JBool False),
      (U ''modes'', JObj default_modes)]"

definition object_or_empty :: "json option \<Rightarrow> jobject" where
  "object_or_empty v = (case Option.bind v as_object of None \<Rightarrow> [] | Some m \<Rightarrow> m)"

definition fill_defaults :: "jobject \<Rightarrow> jobject \<Rightarrow> jobject" where
  "fill_defaults cfg default_cfg = foldl (\<lambda>c (k, v). aentry k v c) cfg default_cfg"

text \<open>
  The loop of \<^verbatim>\<open>with_builtin_defaults\<close>: a default that is not an object is skipped, a mode
  entry that is not an object is replaced by an empty one before the keys are filled in.
\<close>

definition fill_modes :: "jobject \<Rightarrow> jobject \<Rightarrow> jobject" where
  "fill_modes modes defaults =
     foldl (\<lambda>ms (mode, d). case as_object d of
              None \<Rightarrow> ms
            | Some default_cfg \<Rightarrow>
                aput mode (JObj (fill_defaults (object_or_empty (aget ms mode)) default_cfg)) ms)
       modes defaults"

definition with_builtin_defaults :: "hoo_config \<Rightarrow> hoo_config" where
  "with_builtin_defaults config =
     (case get_object default_config (U ''modes'') of
        None \<Rightarrow> config
      | Some defaults \<Rightarrow>
          aput (U ''modes'') (JObj (fill_modes (object_or_empty (aget config (U ''modes''))) defaults))
            config)"

section \<open>Accessors\<close>

definition truthy :: "ustr \<Rightarrow> bool" where
  "truthy v \<longleftrightarrow> to_ascii_lowercase (trim v) \<in> {U ''1'', U ''true'', U ''yes'', U ''on''}"

text \<open>\<open>env\<close> is the value of \<^verbatim>\<open>HOOCODE_SKIP_PERMISSIONS\<close>, when set.\<close>

definition skip_permissions :: "ustr option \<Rightarrow> hoo_config \<Rightarrow> bool" where
  "skip_permissions env config \<longleftrightarrow>
     Option.bind (aget config (U ''skip_permissions'')) as_bool = Some True
     \<or> (case env of None \<Rightarrow> False | Some v \<Rightarrow> truthy v)"

definition safe_shell :: "hoo_config \<Rightarrow> bool" where
  "safe_shell config \<longleftrightarrow> Option.bind (aget config (U ''safe_shell'')) as_bool \<noteq> Some False"

text \<open>\<^verbatim>\<open>read_merged_config\<close>: \<open>project\<close> is \<open>None\<close> when the file is missing or not an object.\<close>

definition read_merged_config :: "hoo_config \<Rightarrow> hoo_config option \<Rightarrow> hoo_config" where
  "read_merged_config global_file project =
     (let global = with_builtin_defaults global_file
      in case project of None \<Rightarrow> global | Some p \<Rightarrow> merge_configs global p)"

definition active_mode :: "hoo_config \<Rightarrow> ustr option" where
  "active_mode config = Option.bind (aget config (U ''active_mode'')) as_str"

definition mode_paths :: "hoo_config \<Rightarrow> ustr list" where
  "mode_paths config = strings (aget config (U ''mode_paths''))"

definition mode_config :: "hoo_config \<Rightarrow> ustr \<Rightarrow> jobject option" where
  "mode_config config mode =
     Option.bind (Option.bind (get_object config (U ''modes'')) (\<lambda>m. aget m mode)) as_object"

definition mode_list :: "hoo_config \<Rightarrow> ustr \<Rightarrow> ustr \<Rightarrow> ustr list option" where
  "mode_list config mode key =
     (case Option.bind (mode_config config mode) (\<lambda>m. aget m key) of
        None \<Rightarrow> None
      | Some v \<Rightarrow> (if is_array v then Some (strings (Some v)) else None))"


section \<open>Lookups in a merged configuration\<close>

text \<open>The value a mode sets for a key, before it is read as a string list.\<close>

definition mode_value :: "hoo_config \<Rightarrow> ustr \<Rightarrow> ustr \<Rightarrow> json option" where
  "mode_value config mode key = Option.bind (mode_config config mode) (\<lambda>m. aget m key)"

lemma mode_list_value:
  "mode_list config mode key =
     (case mode_value config mode key of
        None \<Rightarrow> None | Some v \<Rightarrow> (if is_array v then Some (strings (Some v)) else None))"
  by (simp add: mode_list_def mode_value_def)

lemma set_dedupe_go:
  "set (foldl (\<lambda>out p. if p \<in> set out then out else out @ [p]) out xs) = set out \<union> set xs"
  by (induction xs arbitrary: out) auto

lemma set_dedupe [simp]: "set (dedupe xs) = set xs"
  by (simp add: dedupe_def set_dedupe_go)

lemma distinct_dedupe_go:
  "distinct out \<Longrightarrow> distinct (foldl (\<lambda>out p. if p \<in> set out then out else out @ [p]) out xs)"
  by (induction xs arbitrary: out) auto

lemma distinct_dedupe: "distinct (dedupe xs)"
  by (simp add: dedupe_def distinct_dedupe_go)

lemma map_filter_strs [simp]: "List.map_filter as_str (map JStr xs) = xs"
  by (induction xs) (simp_all add: List.map_filter_simps)

lemma strings_JArr [simp]: "strings (Some (JArr vs)) = List.map_filter as_str vs"
  by (simp add: strings_def)

lemma strings_None [simp]: "strings None = []"
  by (simp add: strings_def)

lemma strings_union [simp]: "set (strings (Some (union_lists a b))) = set (strings a) \<union> set (strings b)"
  by (simp add: union_lists_def)

lemma is_array_union [simp]: "is_array (union_lists a b)"
  by (simp add: union_lists_def is_array_def)

lemma aget_copy_key:
  "aget (copy_key f onto k) j =
     (if j = k then (case aget f k of None \<Rightarrow> aget onto k | Some v \<Rightarrow> Some v) else aget onto j)"
  by (cases "aget f k") (auto simp: copy_key_def amap.get_put)

lemma aget_put_or_del:
  "aget (case x of Some v \<Rightarrow> aput k v m | None \<Rightarrow> adel k m) j = (if j = k then x else aget m j)"
  by (cases x) (auto simp: amap.get_put amap.get_del)

lemmas merge_mode_lookup = merge_mode_def Let_def aget_copy_key aget_put_or_del amap.get_put

lemma merge_mode_auto_allow:
  "aget (merge_mode g p) (U ''auto_allow'') = aget g (U ''auto_allow'')"
  by (simp add: merge_mode_lookup)

lemma merge_mode_write_paths:
  "aget g (U ''allowed_write_paths'') = Some v \<Longrightarrow>
   aget (merge_mode g p) (U ''allowed_write_paths'') = Some v"
  by (simp add: merge_mode_lookup)

lemma merge_mode_denied:
  "k = U ''denied_tools'' \<or> k = U ''denied_bash_commands'' \<Longrightarrow>
   aget (merge_mode g p) k = Some (union_lists (aget g k) (aget p k))"
  by (elim disjE) (simp_all add: merge_mode_lookup)

lemma merge_mode_enabled:
  "k = U ''enabled_tools'' \<or> k = U ''allowed_bash_commands'' \<Longrightarrow>
   aget (merge_mode g p) k = (case aget p k of None \<Rightarrow> aget g k | Some v \<Rightarrow> Some v)"
  by (elim disjE; hypsubst; simp add: merge_mode_lookup)

lemma merge_modes_go:
  "(\<exists>p. aget (foldl (\<lambda>modes (mode, project_cfg).
        let global_cfg = (case Option.bind (Option.bind gm (\<lambda>m. aget m mode)) as_object of
                            None \<Rightarrow> [] | Some m \<Rightarrow> m);
            project_cfg = (case as_object project_cfg of None \<Rightarrow> [] | Some m \<Rightarrow> m)
        in aput mode (JObj (merge_mode global_cfg project_cfg)) modes) ms pm) m
      = Some (JObj (merge_mode (object_or_empty (Option.bind gm (\<lambda>g. aget g m))) p)))
   \<or> aget (foldl (\<lambda>modes (mode, project_cfg).
        let global_cfg = (case Option.bind (Option.bind gm (\<lambda>m. aget m mode)) as_object of
                            None \<Rightarrow> [] | Some m \<Rightarrow> m);
            project_cfg = (case as_object project_cfg of None \<Rightarrow> [] | Some m \<Rightarrow> m)
        in aput mode (JObj (merge_mode global_cfg project_cfg)) modes) ms pm) m = aget ms m"
proof (induction pm arbitrary: ms)
  case Nil
  show ?case by simp
next
  case (Cons a pm)
  obtain mode cfg where a: "a = (mode, cfg)" by (cases a)
  let ?ms = "aput mode (JObj (merge_mode (object_or_empty (Option.bind gm (\<lambda>g. aget g mode)))
                (case as_object cfg of None \<Rightarrow> [] | Some m \<Rightarrow> m))) ms"
  show ?case
    using Cons.IH [of ?ms]
    by (cases "m = mode") (auto simp: a Let_def object_or_empty_def amap.get_put)
qed

lemma merge_modes_lookup:
  "(\<exists>p. aget (merge_modes gm pm) m
        = Some (JObj (merge_mode (object_or_empty (Option.bind gm (\<lambda>g. aget g m))) p)))
   \<or> aget (merge_modes gm pm) m = Option.bind gm (\<lambda>g. aget g m)"
  using merge_modes_go [of gm "case gm of None \<Rightarrow> [] | Some m \<Rightarrow> m" pm m]
  by (cases gm) (auto simp: merge_modes_def)

lemma merge_configs_top:
  "k \<noteq> U ''modes'' \<Longrightarrow> k \<noteq> U ''active_mode'' \<Longrightarrow> k \<noteq> U ''thinking_escalation'' \<Longrightarrow>
   k \<noteq> U ''mode_paths'' \<Longrightarrow> aget (merge_configs g p) k = aget g k"
  by (auto simp: merge_configs_def Let_def copy_key_def amap.get_put split: option.split)

lemma merge_configs_modes:
  "aget (merge_configs g p) (U ''modes'') =
     (case get_object p (U ''modes'') of
        None \<Rightarrow> aget g (U ''modes'')
      | Some pm \<Rightarrow> Some (JObj (merge_modes (get_object g (U ''modes'')) pm)))"
  by (auto simp: merge_configs_def Let_def copy_key_def amap.get_put split: option.split)

text \<open>Every mode of the merged configuration is the global one, or merged from it.\<close>

lemma mode_config_merged:
  "mode_config (merge_configs g p) m = mode_config g m
   \<or> (\<exists>pc. mode_config (merge_configs g p) m
          = Some (merge_mode (case mode_config g m of None \<Rightarrow> [] | Some c \<Rightarrow> c) pc))"
proof (cases "get_object p (U ''modes'')")
  case None
  then have "get_object (merge_configs g p) (U ''modes'') = get_object g (U ''modes'')"
    unfolding get_object_def merge_configs_modes by simp
  then show ?thesis by (simp add: mode_config_def)
next
  case (Some pm)
  then have m: "get_object (merge_configs g p) (U ''modes'')
      = Some (merge_modes (get_object g (U ''modes'')) pm)"
    unfolding get_object_def merge_configs_modes by simp
  show ?thesis
    using merge_modes_lookup [of "get_object g (U ''modes'')" pm m]
    by (auto simp: mode_config_def m object_or_empty_def split: option.split)
qed

lemma mode_value_merged_auto_allow:
  "mode_value (merge_configs g p) m (U ''auto_allow'') = mode_value g m (U ''auto_allow'')"
  using mode_config_merged [of g p m]
  by (auto simp: mode_value_def merge_mode_auto_allow split: option.splits)

lemma mode_value_merged_write_paths:
  "mode_value g m (U ''allowed_write_paths'') = Some v \<Longrightarrow>
   mode_value (merge_configs g p) m (U ''allowed_write_paths'') = Some v"
  using mode_config_merged [of g p m]
  by (auto simp: mode_value_def merge_mode_write_paths bind_eq_Some_conv split: option.splits)

lemma mode_list_merged_denied:
  assumes "k = U ''denied_tools'' \<or> k = U ''denied_bash_commands''"
    and "mode_list g m k = Some gd"
  shows "\<exists>d. mode_list (merge_configs g p) m k = Some d \<and> set gd \<subseteq> set d"
proof -
  from assms(2) obtain c v where c: "mode_config g m = Some c" "aget c k = Some v"
    and v: "is_array v" "gd = strings (Some v)"
    by (auto simp: mode_list_def split: option.splits if_splits bind_splits)
  from mode_config_merged [of g p m] show ?thesis
  proof
    assume "mode_config (merge_configs g p) m = mode_config g m"
    with assms(2) show ?thesis by (simp add: mode_list_def)
  next
    assume "\<exists>pc. mode_config (merge_configs g p) m
          = Some (merge_mode (case mode_config g m of None \<Rightarrow> [] | Some c \<Rightarrow> c) pc)"
    with c v assms(1) show ?thesis
      by (auto simp: mode_list_def merge_mode_denied)
  qed
qed

lemma skip_permissions_merged [simp]:
  "skip_permissions env (merge_configs g p) = skip_permissions env g"
  by (simp add: skip_permissions_def merge_configs_top)

lemma safe_shell_merged [simp]: "safe_shell (merge_configs g p) = safe_shell g"
  by (simp add: safe_shell_def merge_configs_top)

section \<open>The shipped defaults as a fallback\<close>

lemma aget_fill_defaults:
  "aget (fill_defaults c d) k = (case aget c k of Some v \<Rightarrow> Some v | None \<Rightarrow> aget d k)"
  unfolding fill_defaults_def
  by (induction d arbitrary: c) (auto simp: aget_aentry split: option.split if_splits)

lemma aget_fill_modes:
  "distinct (map fst ds) \<Longrightarrow> aget (fill_modes ms ds) m =
     (case Option.bind (aget ds m) as_object of
        None \<Rightarrow> aget ms m
      | Some dc \<Rightarrow> Some (JObj (fill_defaults (object_or_empty (aget ms m)) dc)))"
proof (induction ds arbitrary: ms)
  case Nil
  show ?case by (simp add: fill_modes_def)
next
  case (Cons a ds)
  obtain mode d where a: "a = (mode, d)" by (cases a)
  from Cons.prems a have fresh: "aget ds mode = None" and dist: "distinct (map fst ds)"
    by (auto simp: aget_None_iff)
  show ?case
  proof (cases "as_object d")
    case None
    with a have "fill_modes ms (a # ds) = fill_modes ms ds" by (simp add: fill_modes_def)
    with Cons.IH [OF dist, of ms] None a fresh show ?thesis
      by (cases "m = mode") auto
  next
    case (Some dc)
    let ?ms = "aput mode (JObj (fill_defaults (object_or_empty (aget ms mode)) dc)) ms"
    from Some a have "fill_modes ms (a # ds) = fill_modes ?ms ds" by (simp add: fill_modes_def)
    moreover have "m = mode \<or> mode \<noteq> m" by blast
    ultimately show ?thesis
      using Cons.IH [OF dist, of ?ms] Some a fresh by (auto simp: amap.get_put split: option.split)
  qed
qed

lemma default_modes_distinct: "distinct (map fst default_modes)"
  by (simp add: default_modes_def)

lemma mode_value_defaults:
  "mode_value (with_builtin_defaults c) m k =
     (case mode_value c m k of Some v \<Rightarrow> Some v | None \<Rightarrow> mode_value default_config m k)"
proof -
  have d: "get_object default_config (U ''modes'') = Some default_modes"
    by (simp add: get_object_def default_config_def)
  have g: "get_object (with_builtin_defaults c) (U ''modes'')
      = Some (fill_modes (object_or_empty (aget c (U ''modes''))) default_modes)"
    unfolding with_builtin_defaults_def d by (simp add: get_object_def amap.get_put)
  have m: "mode_config (with_builtin_defaults c) m =
      Option.bind (aget (fill_modes (object_or_empty (aget c (U ''modes''))) default_modes) m) as_object"
    by (simp add: mode_config_def g)
  have dm: "mode_config default_config m = Option.bind (aget default_modes m) as_object"
    by (simp add: mode_config_def d)
  have cm: "mode_config c m = Option.bind (aget (object_or_empty (aget c (U ''modes''))) m) as_object"
    by (cases "get_object c (U ''modes'')")
       (simp_all add: mode_config_def get_object_def object_or_empty_def)
  have e: "aget (object_or_empty v) k = Option.bind (Option.bind v as_object) (\<lambda>m. aget m k)" for v
    by (cases "Option.bind v as_object") (simp_all add: object_or_empty_def)
  show ?thesis
    by (cases "Option.bind (aget default_modes m) as_object")
       (simp_all add: mode_value_def m dm cm aget_fill_modes [OF default_modes_distinct]
          aget_fill_defaults e split: option.split)
qed

lemma defaults_top: "k \<noteq> U ''modes'' \<Longrightarrow> aget (with_builtin_defaults c) k = aget c k"
  by (auto simp: with_builtin_defaults_def amap.get_put split: option.split)

end
