(* ===== verification/Write_Paths.thy ===== *)
theory Write_Paths
  imports Prelude
begin

text \<open>
  The path rules of \<^verbatim>\<open>crates/hoocode-code-permissions/src/lib.rs\<close>: which files a mode lets
  \<^verbatim>\<open>Write\<close> and \<^verbatim>\<open>Edit\<close> touch. A \<^verbatim>\<open>Path\<close> is the list of its components (two paths are equal
  in Rust when these lists are); \<open>components\<close> is \<^verbatim>\<open>Path::components\<close> on Unix. The regex crate
  and the file system are arguments: \<open>rx\<close> is \<^verbatim>\<open>Regex::new\<close> with \<^verbatim>\<open>is_match\<close>, \<open>esc\<close> is
  \<^verbatim>\<open>regex::escape\<close>, \<open>exists\<close> is \<^verbatim>\<open>symlink_metadata(..).is_ok()\<close> and \<open>canon\<close> is \<^verbatim>\<open>canonicalize\<close>.
\<close>

section \<open>Paths\<close>

datatype component = RootDir | CurDir | ParentDir | Normal ustr

type_synonym path = "component list"

definition component_of :: "ustr \<Rightarrow> component" where
  "component_of w = (if w = U ''..'' then ParentDir else Normal w)"

text \<open>Empty pieces and \<^verbatim>\<open>.\<close> are dropped, except a \<^verbatim>\<open>.\<close> that starts a relative path.\<close>

definition pieces :: "ustr list \<Rightarrow> path" where
  "pieces ws = map component_of (filter (\<lambda>w. w \<noteq> [] \<and> w \<noteq> U ''.'') ws)"

definition components :: "ustr \<Rightarrow> path" where
  "components s =
     (case split_on (C CHR ''/'') s of
        [] \<Rightarrow> []
      | w # ws \<Rightarrow>
          (if w = [] \<and> s \<noteq> [] then RootDir # pieces ws
           else if w = U ''.'' then CurDir # pieces ws
           else pieces (w # ws)))"

definition is_absolute :: "path \<Rightarrow> bool" where
  "is_absolute p \<longleftrightarrow> (case p of RootDir # _ \<Rightarrow> True | _ \<Rightarrow> False)"

text \<open>\<^verbatim>\<open>Path::join\<close>: an absolute argument replaces the path.\<close>

definition path_join :: "path \<Rightarrow> path \<Rightarrow> path" where
  "path_join p q =
     (if is_absolute q then q else if p = [] then q else p @ filter (\<lambda>c. c \<noteq> CurDir) q)"

text \<open>\<^verbatim>\<open>PathBuf::pop\<close> and \<^verbatim>\<open>Path::parent\<close>: the root and the empty path have no parent.\<close>

definition parent :: "path \<Rightarrow> path option" where
  "parent p = (if p = [] \<or> last p = RootDir then None else Some (butlast p))"

definition path_pop :: "path \<Rightarrow> path" where
  "path_pop p = (case parent p of None \<Rightarrow> p | Some q \<Rightarrow> q)"

definition file_name :: "path \<Rightarrow> ustr option" where
  "file_name p = (if p = [] then None else (case last p of Normal w \<Rightarrow> Some w | _ \<Rightarrow> None))"

text \<open>\<^verbatim>\<open>Path::extension\<close>: what follows the last dot of the file name, unless nothing precedes it.\<close>

definition extension :: "path \<Rightarrow> ustr option" where
  "extension p =
     (case file_name p of
        None \<Rightarrow> None
      | Some w \<Rightarrow> (let ws = split_on (C CHR ''.'') w
                  in if tl ws = [] \<or> (length ws = 2 \<and> hd ws = []) then None else Some (last ws)))"

text \<open>\<^verbatim>\<open>PathBuf::push\<close> of one component.\<close>

definition path_push :: "path \<Rightarrow> component \<Rightarrow> path" where
  "path_push p c = (if c = RootDir then [RootDir] else p @ [c])"

section \<open>The rules\<close>

definition to_posix :: "ustr \<Rightarrow> ustr" where
  "to_posix s = map (\<lambda>c. if c = C CHR 0x5C then C CHR ''/'' else c) s"

fun rel_norm :: "ustr list \<Rightarrow> path \<Rightarrow> ustr list" where
  "rel_norm out [] = out"
| "rel_norm out (c # cs) =
     rel_norm (case c of Normal s \<Rightarrow> out @ [s] | ParentDir \<Rightarrow> butlast out | _ \<Rightarrow> out) cs"

fun common_len :: "ustr list \<Rightarrow> ustr list \<Rightarrow> nat" where
  "common_len (x # xs) (y # ys) = (if x = y then Suc (common_len xs ys) else 0)"
| "common_len _ _ = 0"

definition relative :: "path \<Rightarrow> path \<Rightarrow> ustr" where
  "relative from_path to_path =
     (let a = rel_norm [] from_path; b = rel_norm [] to_path; n = common_len a b
      in join (U ''/'') (replicate (length a - n) (U ''..'') @ drop n b))"

text \<open>The anchored source a pattern compiles to.\<close>

definition glob_source :: "(ustr \<Rightarrow> ustr) \<Rightarrow> ustr \<Rightarrow> ustr" where
  "glob_source esc pattern =
     U ''^'' @ join (U ''.*'') (map esc (split_on (C CHR ''*'') pattern)) @ U ''$''"

definition candidates :: "path \<Rightarrow> ustr \<Rightarrow> ustr list" where
  "candidates cwd file_path =
     (let p = components file_path; c = to_posix file_path
      in if is_absolute p
         then (let rel = relative cwd p
               in if rel \<noteq> [] \<and> rel \<notin> set [c] then [c, to_posix rel] else [c])
         else [c])"

definition pattern_matches ::
  "(ustr \<Rightarrow> (ustr \<Rightarrow> bool) option) \<Rightarrow> (ustr \<Rightarrow> ustr) \<Rightarrow> ustr list \<Rightarrow> ustr \<Rightarrow> bool" where
  "pattern_matches rx esc cands pattern =
     (let pattern = to_posix pattern
      in if pattern \<in> set cands then True
         else if C CHR ''*'' \<notin> set pattern then False
         else (case rx (glob_source esc pattern) of
                 None \<Rightarrow> False
               | Some m \<Rightarrow> list_ex m cands))"

definition matches_allowed_path ::
  "(ustr \<Rightarrow> (ustr \<Rightarrow> bool) option) \<Rightarrow> (ustr \<Rightarrow> ustr) \<Rightarrow> ustr \<Rightarrow> ustr list \<Rightarrow> path \<Rightarrow> bool" where
  "matches_allowed_path rx esc file_path allowed cwd =
     (if allowed = [] then True
      else if file_path = [] then False
      else if ParentDir \<in> set (components file_path) then False
      else list_ex (pattern_matches rx esc (candidates cwd file_path)) allowed)"

text \<open>\<open>fold_dots\<close> is the loop of \<^verbatim>\<open>lexical_abs\<close>.\<close>

fun fold_dots :: "path \<Rightarrow> path \<Rightarrow> path" where
  "fold_dots out [] = out"
| "fold_dots out (c # cs) =
     fold_dots (case c of ParentDir \<Rightarrow> path_pop out | CurDir \<Rightarrow> out | c \<Rightarrow> path_push out c) cs"

definition lexical_abs :: "path \<Rightarrow> ustr \<Rightarrow> path" where
  "lexical_abs cwd file_path = fold_dots [] (path_join cwd (components file_path))"

text \<open>The loop of \<^verbatim>\<open>resolves_elsewhere\<close>: the deepest existing part and the names below it.\<close>

function existing_part :: "(path \<Rightarrow> bool) \<Rightarrow> path \<Rightarrow> ustr list \<Rightarrow> (path \<times> ustr list) option" where
  "existing_part exists p tail_names =
     (if exists p then Some (p, tail_names)
      else (case (file_name p, parent p) of
              (Some name, Some q) \<Rightarrow> existing_part exists q (tail_names @ [name])
            | _ \<Rightarrow> None))"
  by pat_completeness auto
termination
  by (relation "measure (\<lambda>(e, p, t). length p)") (auto simp: parent_def split: if_splits)

declare existing_part.simps [simp del]

definition resolves_elsewhere ::
  "(path \<Rightarrow> bool) \<Rightarrow> (path \<Rightarrow> path option) \<Rightarrow> path \<Rightarrow> ustr \<Rightarrow> bool" where
  "resolves_elsewhere exists canon cwd file_path =
     (let target = lexical_abs cwd file_path
      in if \<not> prefix cwd target then False
         else (case canon cwd of
                 None \<Rightarrow> False
               | Some real_cwd \<Rightarrow>
                   (case existing_part exists target [] of
                      None \<Rightarrow> False
                    | Some (existing, tail_names) \<Rightarrow>
                        (case canon existing of
                           None \<Rightarrow> True
                         | Some resolved \<Rightarrow>
                             resolved @ map Normal (rev tail_names)
                               \<noteq> path_join real_cwd (drop (length cwd) target)))))"

definition config_dir_name :: ustr where "config_dir_name = U ''.hoocode''"

definition is_project_config_file :: "path \<Rightarrow> ustr \<Rightarrow> bool" where
  "is_project_config_file cwd file_path =
     (if file_path = [] then False
      else (let target = lexical_abs cwd file_path
            in parent target = Some (path_join cwd [Normal config_dir_name])
               \<and> (case extension target of
                    None \<Rightarrow> False | Some e \<Rightarrow> eq_ignore_ascii_case e (U ''json''))))"


section \<open>What the regex crate is trusted for\<close>

text \<open>
  \<open>glob parts t\<close>: \<open>t\<close> is the parts in order, with any text between two of them. The compiled
  source of a pattern matches nothing else: \<open>^\<close>, \<open>$\<close>, \<open>.*\<close> and the escaped literals have
  their documented meaning.
\<close>

fun glob :: "ustr list \<Rightarrow> ustr \<Rightarrow> bool" where
  "glob [] t = (t = [])"
| "glob [p] t = (t = p)"
| "glob (p # q # ps) t = (prefix p t \<and> list_ex (glob (q # ps)) (suffixes (drop (length p) t)))"

definition regex_sound :: "(ustr \<Rightarrow> (ustr \<Rightarrow> bool) option) \<Rightarrow> (ustr \<Rightarrow> ustr) \<Rightarrow> ustr \<Rightarrow> bool" where
  "regex_sound rx esc pattern \<longleftrightarrow>
     (\<forall>m t. rx (glob_source esc pattern) = Some m \<longrightarrow> m t \<longrightarrow> glob (split_on (C CHR ''*'') pattern) t)"

section \<open>Clean paths\<close>

definition clean :: "path \<Rightarrow> bool" where
  "clean p \<longleftrightarrow> (\<exists>ws. p = RootDir # map Normal ws)"

lemma fold_dots_normals: "fold_dots out (map Normal ws) = out @ map Normal ws"
  by (induction ws arbitrary: out) (auto simp: path_push_def)

lemma fold_dots_append: "fold_dots out (p @ q) = fold_dots (fold_dots out p) q"
  by (induction out p rule: fold_dots.induct) (auto split: component.splits)

lemma fold_dots_clean: "clean p \<Longrightarrow> fold_dots [] p = p"
  by (auto simp: clean_def path_push_def fold_dots_normals)

lemma rel_norm_normals: "rel_norm out (map Normal ws) = out @ ws"
  by (induction ws arbitrary: out) auto

lemma rel_norm_clean: "rel_norm [] (RootDir # map Normal ws) = ws"
  by (simp add: rel_norm_normals)

lemma pieces_no_root: "RootDir \<notin> set (pieces ws)" "CurDir \<notin> set (pieces ws)"
  by (auto simp: pieces_def component_of_def)

lemma pieces_normals: "ParentDir \<notin> set (pieces ws) \<Longrightarrow>
   pieces ws = map Normal (filter (\<lambda>w. w \<noteq> [] \<and> w \<noteq> U ''.'') ws)"
  by (induction ws) (auto simp: pieces_def component_of_def split: if_splits)

lemma component_of_name [simp]: "w \<noteq> U ''..'' \<Longrightarrow> component_of w = Normal w"
  by (simp add: component_of_def)

lemma split_on_prefix: "c \<notin> set d \<Longrightarrow> split_on c (d @ c # r) = d # split_on c r"
  by (induction d) auto

lemma components_below:
  assumes "d \<noteq> []" and "C CHR ''/'' \<notin> set d" and "d \<noteq> U ''.''" and "d \<noteq> U ''..''"
  shows "components (d @ C CHR ''/'' # r) = Normal d # pieces (split_on (C CHR ''/'') r)"
  using assms by (simp add: components_def split_on_prefix pieces_def)

lemma components_absolute:
  "is_absolute (components s) \<longleftrightarrow> (\<exists>r. s = C CHR ''/'' # r)"
proof (cases s)
  case Nil
  then show ?thesis by (simp add: components_def pieces_def is_absolute_def)
next
  case (Cons c r)
  obtain w ws where w: "split_on (C CHR ''/'') r = w # ws"
    by (cases "split_on (C CHR ''/'') r") auto
  have np: "\<not> is_absolute (pieces v)" for v
    using pieces_no_root(1) [of v] by (auto simp: is_absolute_def split: list.splits component.splits)
  show ?thesis
    using Cons w np by (auto simp: components_def is_absolute_def)
qed

lemma components_root:
  "components (C CHR ''/'' # r) = RootDir # pieces (split_on (C CHR ''/'') r)"
  by (simp add: components_def)

section \<open>A directory rule confines writes\<close>

lemma common_len_prefix: "common_len a b \<le> length a"
  by (induction a b rule: common_len.induct) auto

lemma common_len_take: "take (common_len a b) a = take (common_len a b) b"
  by (induction a b rule: common_len.induct) auto

lemma join_Cons: "ws \<noteq> [] \<Longrightarrow> join sep (w # ws) = w @ sep @ join sep ws"
  by (cases ws) auto

lemma before_sep_eq: "c \<notin> set w \<Longrightarrow> c \<notin> set d \<Longrightarrow> w @ c # t = d @ c # r \<Longrightarrow> w = d"
proof (induction w arbitrary: d)
  case Nil
  then show ?case by (cases d) auto
next
  case (Cons x w)
  then show ?case by (cases d) auto
qed

lemma join_first:
  assumes "join [c] ws = d @ c # r" and "\<forall>w \<in> set ws. c \<notin> set w" and "c \<notin> set d"
  shows "\<exists>vs. ws = d # vs"
proof (cases ws)
  case Nil
  with assms show ?thesis by simp
next
  case (Cons w vs)
  have len: "w = d" if "w @ c # t = d @ c # r" for t
    using before_sep_eq [OF _ assms(3) that] assms(2) Cons by simp
  show ?thesis
  proof (cases vs)
    case Nil
    with assms(1) Cons have "w = d @ c # r" by simp
    with assms(2) Cons show ?thesis by auto
  next
    case (Cons v us)
    with \<open>ws = w # vs\<close> assms(1) have "w @ c # join [c] vs = d @ c # r" by simp
    with len \<open>ws = w # vs\<close> show ?thesis by blast
  qed
qed

lemma to_posix_id: "C CHR 0x5C \<notin> set s \<Longrightarrow> to_posix s = s"
  by (induction s) (auto simp: to_posix_def)

lemma set_join: "set (join sep ws) \<subseteq> \<Union> (set ` set ws) \<union> set sep"
  by (induction sep ws rule: join.induct) auto

lemma set_split_on: "w \<in> set (split_on c s) \<Longrightarrow> set w \<subseteq> set s"
  by (induction s arbitrary: w) (auto split: if_splits list.splits, blast+)

definition dir_name :: "ustr \<Rightarrow> bool" where
  "dir_name d \<longleftrightarrow> d \<noteq> [] \<and> d \<noteq> U ''.'' \<and> d \<noteq> U ''..''
     \<and> C CHR ''/'' \<notin> set d \<and> C CHR ''*'' \<notin> set d \<and> C CHR 0x5C \<notin> set d"

lemma pattern_prefix:
  assumes "pattern_matches rx esc cands (d @ U ''/*'')" and "dir_name d"
    and "regex_sound rx esc (d @ U ''/*'')"
  shows "\<exists>c r. c \<in> set cands \<and> c = d @ C CHR ''/'' # r"
proof -
  have u: "U ''/*'' = [C CHR ''/'', C CHR ''*'']" by (simp add: ustr_eval)
  have p: "to_posix (d @ U ''/*'') = d @ U ''/*''"
    using assms(2) by (simp add: to_posix_id dir_name_def u ustr_eval)
  have "split_on (C CHR ''*'') ((d @ [C CHR ''/'']) @ C CHR ''*'' # [])
      = (d @ [C CHR ''/'']) # split_on (C CHR ''*'') []"
    using assms(2) by (intro split_on_prefix) (simp add: dir_name_def ustr_eval)
  then have sp: "split_on (C CHR ''*'') (d @ U ''/*'') = [d @ [C CHR ''/''], []]"
    by (simp add: u)
  have star: "C CHR ''*'' \<in> set (d @ U ''/*'')" by (simp add: u)
  show ?thesis
  proof (cases "d @ U ''/*'' \<in> set cands")
    case True
    then show ?thesis by (auto simp: u)
  next
    case False
    with assms(1) p star obtain m where
      m: "rx (glob_source esc (d @ U ''/*'')) = Some m" "list_ex m cands"
      by (auto simp: pattern_matches_def Let_def split: option.splits if_splits)
    then obtain c where c: "c \<in> set cands" "m c" by (auto simp: list_ex_iff)
    with assms(3) m(1) have "glob (split_on (C CHR ''*'') (d @ U ''/*'')) c"
      by (auto simp: regex_sound_def)
    then have "prefix (d @ [C CHR ''/'']) c" by (simp add: sp)
    with c show ?thesis by (auto simp: prefix_def)
  qed
qed


text \<open>A relative path that starts with the directory's name, and no parent component.\<close>

lemma below_relative:
  assumes "dir_name d" and "clean cwd" and "ParentDir \<notin> set (components (d @ C CHR ''/'' # r))"
  shows "prefix (cwd @ [Normal d]) (lexical_abs cwd (d @ C CHR ''/'' # r))"
proof -
  let ?ws = "split_on (C CHR ''/'') r"
  have c: "components (d @ C CHR ''/'' # r) = Normal d # pieces ?ws"
    using assms(1) by (intro components_below) (auto simp: dir_name_def)
  with assms(3) have ps: "pieces ?ws = map Normal (filter (\<lambda>w. w \<noteq> [] \<and> w \<noteq> U ''.'') ?ws)"
    by (intro pieces_normals) simp
  from assms(2) obtain ns where ns: "cwd = RootDir # map Normal ns" by (auto simp: clean_def)
  have "path_join cwd (components (d @ C CHR ''/'' # r)) = cwd @ Normal d # pieces ?ws"
    using pieces_no_root [of ?ws] ns
    by (auto simp: path_join_def c is_absolute_def filter_id_conv)
  moreover have "clean (cwd @ Normal d # pieces ?ws)"
    unfolding clean_def ps ns
    by (rule exI [of _ "ns @ d # filter (\<lambda>w. w \<noteq> [] \<and> w \<noteq> U ''.'') ?ws"]) simp
  ultimately have "lexical_abs cwd (d @ C CHR ''/'' # r) = cwd @ Normal d # pieces ?ws"
    unfolding lexical_abs_def by (simp only: fold_dots_clean)
  then show ?thesis by simp
qed

text \<open>An absolute path whose form relative to the project starts with the directory's name.\<close>

lemma below_absolute:
  assumes "dir_name d" and "clean cwd" and "is_absolute (components s)"
    and "ParentDir \<notin> set (components s)"
    and "relative cwd (components s) = d @ C CHR ''/'' # r"
  shows "prefix (cwd @ [Normal d]) (lexical_abs cwd s)"
proof -
  from assms(3) obtain t where s: "s = C CHR ''/'' # t" by (auto simp: components_absolute)
  let ?ms = "filter (\<lambda>w. w \<noteq> [] \<and> w \<noteq> U ''.'') (split_on (C CHR ''/'') t)"
  from assms(4) have ps: "pieces (split_on (C CHR ''/'') t) = map Normal ?ms"
    by (intro pieces_normals) (simp add: s components_root)
  have comps: "components s = RootDir # map Normal ?ms" by (simp add: s components_root ps)
  from assms(2) obtain ns where ns: "cwd = RootDir # map Normal ns" by (auto simp: clean_def)
  let ?n = "common_len ns ?ms"
  have rel: "join (U ''/'') (replicate (length ns - ?n) (U ''..'') @ drop ?n ?ms) = d @ C CHR ''/'' # r"
    using assms(5) unfolding comps ns relative_def rel_norm_clean Let_def .
  have slash: "U ''/'' = [C CHR ''/'']" by (simp add: ustr_eval)
  have "\<forall>w \<in> set (replicate (length ns - ?n) (U ''..'') @ drop ?n ?ms). C CHR ''/'' \<notin> set w"
    by (auto simp: ustr_eval dest!: in_set_dropD dest: split_on_no_sep)
  from join_first [OF rel [unfolded slash] this] assms(1) obtain vs where
    vs: "replicate (length ns - ?n) (U ''..'') @ drop ?n ?ms = d # vs"
    by (auto simp: dir_name_def)
  have "length ns - ?n = 0"
    using vs assms(1) by (cases "length ns - ?n") (auto simp: dir_name_def)
  then have n: "?n = length ns" "drop ?n ?ms = d # vs"
    using vs common_len_prefix [of ns ?ms] by auto
  have "?ms = take ?n ?ms @ drop ?n ?ms" by simp
  also have "take ?n ?ms = ns" using common_len_take [of ns ?ms] n(1) by simp
  finally have "?ms = ns @ d # vs" using n(2) by simp
  then have "lexical_abs cwd s = cwd @ Normal d # map Normal vs"
    unfolding lexical_abs_def comps ns
    using fold_dots_normals [of "[RootDir]" "ns @ d # vs"]
    by (simp add: path_join_def is_absolute_def path_push_def)
  then show ?thesis by simp
qed

lemma relative_chars:
  "C CHR 0x5C \<notin> set s \<Longrightarrow> is_absolute (components s) \<Longrightarrow> ParentDir \<notin> set (components s) \<Longrightarrow>
   clean cwd \<Longrightarrow> C CHR 0x5C \<notin> set (relative cwd (components s))"
proof -
  assume a: "C CHR 0x5C \<notin> set s" "is_absolute (components s)" "ParentDir \<notin> set (components s)"
    "clean cwd"
  then obtain t where s: "s = C CHR ''/'' # t" by (auto simp: components_absolute)
  let ?ms = "filter (\<lambda>w. w \<noteq> [] \<and> w \<noteq> U ''.'') (split_on (C CHR ''/'') t)"
  have "pieces (split_on (C CHR ''/'') t) = map Normal ?ms"
    using a(3) by (intro pieces_normals) (simp add: s components_root)
  then have c: "components s = RootDir # map Normal ?ms" by (simp add: s components_root)
  from a(4) obtain ns where ns: "cwd = RootDir # map Normal ns" by (auto simp: clean_def)
  let ?l = "replicate (length ns - common_len ns ?ms) (U ''..'') @ drop (common_len ns ?ms) ?ms"
  have "\<Union> (set ` set ?l) \<subseteq> set t \<union> set (U ''..'')"
    by (auto dest!: in_set_dropD set_split_on)
  moreover have "C CHR 0x5C \<notin> set (U ''..'') \<union> set (U ''/'')" by (simp add: ustr_eval)
  moreover have "C CHR 0x5C \<notin> set t" using a(1) s by simp
  ultimately have "C CHR 0x5C \<notin> set (join (U ''/'') ?l)"
    using set_join [of "U ''/''" ?l] by blast
  then show ?thesis unfolding c ns relative_def rel_norm_clean Let_def .
qed

lemma allowed_dir_confines:
  assumes "matches_allowed_path rx esc file_path [d @ U ''/*''] cwd"
    and "regex_sound rx esc (d @ U ''/*'')" and d: "dir_name d" and cwd: "clean cwd"
    and nb: "C CHR 0x5C \<notin> set file_path"
  shows "prefix (cwd @ [Normal d]) (lexical_abs cwd file_path)"
proof -
  from assms(1) have pm: "pattern_matches rx esc (candidates cwd file_path) (d @ U ''/*'')"
    and np: "ParentDir \<notin> set (components file_path)"
    by (auto simp: matches_allowed_path_def split: if_splits)
  from pattern_prefix [OF pm d assms(2)] obtain c r where
    c: "c \<in> set (candidates cwd file_path)" "c = d @ C CHR ''/'' # r" by blast
  show ?thesis
  proof (cases "c = file_path")
    case True
    with c np below_relative [OF d cwd] show ?thesis by simp
  next
    case False
    with c(1) nb have abs: "is_absolute (components file_path)"
      and "c = to_posix (relative cwd (components file_path))"
      by (auto simp: candidates_def Let_def to_posix_id split: if_splits)
    with relative_chars [OF nb abs np cwd] c(2)
    have "relative cwd (components file_path) = d @ C CHR ''/'' # r" by (simp add: to_posix_id)
    from below_absolute [OF d cwd abs np this] show ?thesis .
  qed
qed

text \<open>
  A directory rule confines writes. When a mode's only write rule is \<open>d/*\<close> for one
  directory name, every path it lets through, relative or absolute, that holds no backslash
  denotes a file below \<open>d\<close> in the project once \<open>.\<close> and \<open>..\<close> are folded.
\<close>

theorem directory_rule_confines:
  assumes "matches_allowed_path rx esc file_path [d @ U ''/*''] cwd"
    and "regex_sound rx esc (d @ U ''/*'')" and "dir_name d" and "clean cwd"
    and "C CHR 0x5C \<notin> set file_path"
  shows "prefix (cwd @ [Normal d]) (lexical_abs cwd file_path)"
  by (rule allowed_dir_confines) (use assms in simp_all)

text \<open>A regex that matches exactly the prefix \<open>.hoocode/\<close>, as the crate does for the shipped rule.\<close>

definition plan_regex :: "ustr \<Rightarrow> (ustr \<Rightarrow> bool) option" where
  "plan_regex source = Some (\<lambda>t. starts_with t (U ''.hoocode/''))"

lemma plan_regex_sound: "regex_sound plan_regex (\<lambda>s. s) (config_dir_name @ U ''/*'')"
  by (auto simp: regex_sound_def plan_regex_def config_dir_name_def starts_with_def ustr_eval
      list_ex_iff in_set_suffixes)

theorem directory_rule_confines_witness:
  "prefix ([RootDir, Normal (U ''repo'')] @ [Normal config_dir_name])
     (lexical_abs [RootDir, Normal (U ''repo'')] (U ''/repo/./.hoocode/plans/a.md''))"
proof (rule directory_rule_confines)
  show "matches_allowed_path plan_regex (\<lambda>s. s) (U ''/repo/./.hoocode/plans/a.md'')
      [config_dir_name @ U ''/*''] [RootDir, Normal (U ''repo'')]"
    by (simp add: matches_allowed_path_def components_def pieces_def component_of_def
        pattern_matches_def candidates_def is_absolute_def relative_def plan_regex_def
        to_posix_def glob_source_def config_dir_name_def starts_with_def Let_def ustr_eval)
  show "regex_sound plan_regex (\<lambda>s. s) (config_dir_name @ U ''/*'')" by (rule plan_regex_sound)
  show "clean [RootDir, Normal (U ''repo'')]"
    unfolding clean_def by (rule exI [of _ "[U ''repo'']"]) simp
qed (simp_all add: dir_name_def config_dir_name_def ustr_eval)

text \<open>
  The backslash exception is real on Unix. There a backslash is an ordinary character of
  a file name, but the rule is matched with every backslash read as a slash: the name
  \<open>.hoocode\x\<close> passes the rule \<open>.hoocode/*\<close> and denotes a file of the project's root.
\<close>

theorem backslash_escapes_rule:
  "matches_allowed_path plan_regex (\<lambda>s. s) (U ''.hoocode'' @ C CHR 0x5C # U ''x'')
     [U ''.hoocode/*''] [RootDir, Normal (U ''repo'')]
   \<and> lexical_abs [RootDir, Normal (U ''repo'')] (U ''.hoocode'' @ C CHR 0x5C # U ''x'')
     = [RootDir, Normal (U ''repo''), Normal (U ''.hoocode'' @ C CHR 0x5C # U ''x'')]"
  by (simp add: matches_allowed_path_def components_def pieces_def component_of_def
      pattern_matches_def candidates_def is_absolute_def plan_regex_def to_posix_def
      glob_source_def starts_with_def lexical_abs_def path_join_def path_push_def Let_def ustr_eval)


section \<open>Symbolic links\<close>

lemma existing_part_sound:
  "existing_part e p t = Some (q, names) \<Longrightarrow>
   e q \<and> q @ map Normal (rev names) = p @ map Normal (rev t)"
proof (induction e p t rule: existing_part.induct)
  case (1 e p t)
  show ?case
  proof (cases "e p")
    case True
    with 1(2) show ?thesis by (simp add: existing_part.simps)
  next
    case False
    with 1(2) obtain name r where nr: "file_name p = Some name" "parent p = Some r"
      "existing_part e r (t @ [name]) = Some (q, names)"
      by (subst (asm) existing_part.simps) (auto split: option.splits)
    from nr(1,2) have "p = r @ [Normal name]"
      by (auto simp: file_name_def parent_def split: if_splits component.splits)
         (metis append_butlast_last_id)
    with 1(1) [OF False refl nr(1,2,3)] show ?thesis by simp
  qed
qed

definition resolved_form :: "path \<Rightarrow> bool" where
  "resolved_form p \<longleftrightarrow> CurDir \<notin> set p \<and> ParentDir \<notin> set p \<and> RootDir \<notin> set (tl p)"

lemma set_tl_butlast: "x \<in> set (tl (butlast p)) \<Longrightarrow> x \<in> set (tl p)"
  by (cases p) (auto dest: in_set_butlastD split: if_splits)

lemma resolved_form_pop: "resolved_form p \<Longrightarrow> resolved_form (path_pop p)"
  by (auto simp: resolved_form_def path_pop_def parent_def dest: in_set_butlastD set_tl_butlast)

lemma resolved_form_push: "resolved_form p \<Longrightarrow> resolved_form (path_push p (Normal w))"
  by (cases p) (auto simp: resolved_form_def path_push_def)

lemma resolved_form_fold: "resolved_form out \<Longrightarrow> resolved_form (fold_dots out p)"
proof (induction out p rule: fold_dots.induct)
  case (2 out c cs)
  then show ?case
    by (cases c) (simp_all add: resolved_form_pop resolved_form_push,
        simp add: path_push_def resolved_form_def)
qed simp

lemma lexical_abs_resolved: "resolved_form (lexical_abs cwd s)"
  unfolding lexical_abs_def by (rule resolved_form_fold) (simp add: resolved_form_def)

text \<open>
  Without symbolic links the symlink check never blocks. If every path that exists is its
  own canonical form and the project directory exists, \<open>resolves_elsewhere\<close> is false for
  every file name, however many of its directories are still to be created.
\<close>

theorem no_symlink_never_elsewhere:
  assumes "\<And>p. exists p \<Longrightarrow> canon p = Some p" and "exists cwd" and "clean cwd"
  shows "\<not> resolves_elsewhere exists canon cwd file_path"
proof (cases "prefix cwd (lexical_abs cwd file_path)")
  case False
  then show ?thesis by (simp add: resolves_elsewhere_def Let_def)
next
  case True
  let ?t = "lexical_abs cwd file_path"
  from True obtain rest where rest: "?t = cwd @ rest" by (auto simp: prefix_def)
  from assms(3) have cwd: "cwd \<noteq> []" by (auto simp: clean_def)
  have "CurDir \<notin> set rest" "RootDir \<notin> set rest"
    using lexical_abs_resolved [of cwd file_path] rest cwd
    by (auto simp: resolved_form_def tl_append2)
  then have "path_join cwd rest = cwd @ rest"
    using cwd by (auto simp: path_join_def is_absolute_def filter_id_conv split: list.splits component.splits)
  with rest existing_part_sound [of exists ?t "[]"] assms(1,2) show ?thesis
    by (fastforce simp: resolves_elsewhere_def Let_def split: option.splits)
qed

theorem no_symlink_never_elsewhere_witness:
  "\<not> resolves_elsewhere (\<lambda>p. p = [RootDir, Normal (U ''repo'')]) Some
       [RootDir, Normal (U ''repo'')] (U ''a/../b/c.md'')"
  by (rule no_symlink_never_elsewhere)
     (simp_all add: clean_def, rule exI [of _ "[U ''repo'']"], simp)

end
