(* ===== verification/Utf16.thy ===== *)
theory Utf16
  imports Prelude
begin

text \<open>
  UTF-16 code units: the decoders of Rust's \<^verbatim>\<open>String\<close> (\<open>from_utf16_lossy\<close>,
  \<open>from_utf16\<close>), JavaScript's white space on code units
  (\<^verbatim>\<open>crates/hoocode-tui-util/src/js_regex.rs\<close>), and the round trip with \<open>encode_utf16\<close>.
\<close>

type_synonym units = "int list"

definition high_surrogate :: "int \<Rightarrow> bool" where
  "high_surrogate u \<longleftrightarrow> 55296 \<le> u \<and> u < 56320"

definition low_surrogate :: "int \<Rightarrow> bool" where
  "low_surrogate u \<longleftrightarrow> 56320 \<le> u \<and> u < 57344"

text \<open>\<^verbatim>\<open>String::from_utf16_lossy\<close>: an unpaired surrogate becomes U+FFFD.\<close>

fun from_utf16_lossy :: "int list \<Rightarrow> ustr" where
  "from_utf16_lossy [] = []"
| "from_utf16_lossy [u] = [if high_surrogate u \<or> low_surrogate u then 65533 else u]"
| "from_utf16_lossy (u # v # us) =
     (if high_surrogate u \<and> low_surrogate v
      then (65536 + (u - 55296) * 1024 + (v - 56320)) # from_utf16_lossy us
      else (if high_surrogate u \<or> low_surrogate u then 65533 else u) # from_utf16_lossy (v # us))"

definition scalar :: "uchar \<Rightarrow> bool" where
  "scalar c \<longleftrightarrow> (0 \<le> c \<and> c < 55296) \<or> (57344 \<le> c \<and> c < 1114112)"

text \<open>\<^verbatim>\<open>String::from_utf16\<close>: None when a surrogate is unpaired.\<close>

fun from_utf16 :: "units \<Rightarrow> ustr option" where
  "from_utf16 [] = Some []"
| "from_utf16 [u] = (if high_surrogate u \<or> low_surrogate u then None else Some [u])"
| "from_utf16 (u # v # us) =
     (if high_surrogate u \<and> low_surrogate v
      then map_option (\<lambda>s. (65536 + (u - 55296) * 1024 + (v - 56320)) # s) (from_utf16 us)
      else if high_surrogate u \<or> low_surrogate u then None
      else map_option (\<lambda>s. u # s) (from_utf16 (v # us)))"

text \<open>White space of JavaScript, on code units.\<close>

definition is_js_space_unit :: "int \<Rightarrow> bool" where
  "is_js_space_unit u \<longleftrightarrow> (9 \<le> u \<and> u \<le> 13) \<or> u = 32 \<or> u = 160 \<or> u = 5760
     \<or> (8192 \<le> u \<and> u \<le> 8202) \<or> u = 8232 \<or> u = 8233 \<or> u = 8239 \<or> u = 8287 \<or> u = 12288
     \<or> u = 65279"

definition drop_trailing :: "('a \<Rightarrow> bool) \<Rightarrow> 'a list \<Rightarrow> 'a list" where
  "drop_trailing P xs = take (length xs - length (takeWhile P (rev xs))) xs"

definition js_trim_units :: "units \<Rightarrow> units" where
  "js_trim_units u = drop_trailing is_js_space_unit (drop (length (takeWhile is_js_space_unit u)) u)"

section \<open>Decoding what was encoded\<close>

lemma from_utf16_cons_plain:
  "\<not> high_surrogate u \<Longrightarrow> \<not> low_surrogate u \<Longrightarrow> from_utf16_lossy (u # us) = u # from_utf16_lossy us"
  by (cases us) auto

lemma surrogate_pair:
  assumes "65536 \<le> c" and "c < 1114112"
  shows "high_surrogate (55296 + (c - 65536) div 1024) \<and> low_surrogate (56320 + (c - 65536) mod 1024)
       \<and> 65536 + (55296 + (c - 65536) div 1024 - 55296) * 1024
           + (56320 + (c - 65536) mod 1024 - 56320) = c"
proof -
  have "0 \<le> (c - 65536) div 1024" "(c - 65536) div 1024 < 1024" using assms by auto
  moreover have "(c - 65536) div 1024 * 1024 + (c - 65536) mod 1024 = c - 65536"
    by (rule div_mult_mod_eq)
  ultimately show ?thesis
    using assms by (auto simp: high_surrogate_def low_surrogate_def)
qed

lemma encode_utf16_Cons:
  "encode_utf16 (c # s) = (if c < 65536 then [c]
     else [55296 + (c - 65536) div 1024, 56320 + (c - 65536) mod 1024]) @ encode_utf16 s"
  by (simp add: encode_utf16_def)

lemma utf16_len_Cons: "utf16_len (c # s) = (if c < 65536 then 1 else 2) + utf16_len s"
  by (simp add: utf16_len_def)

lemma utf16_len_Nil [simp]: "utf16_len [] = 0"
  by (simp add: utf16_len_def)

lemma encode_utf16_Nil [simp]: "encode_utf16 [] = []"
  by (simp add: encode_utf16_def)

lemma encode_utf16_append: "encode_utf16 (a @ b) = encode_utf16 a @ encode_utf16 b"
  by (simp add: encode_utf16_def)

lemma length_encode_utf16: "length (encode_utf16 s) = utf16_len s"
  by (induction s) (simp_all add: encode_utf16_Cons utf16_len_Cons)

lemma from_utf16_encode [simp]: "list_all scalar s \<Longrightarrow> from_utf16 (encode_utf16 s) = Some s"
proof (induction s)
  case Nil
  show ?case by simp
next
  case (Cons c s)
  show ?case
  proof (cases "c < 65536")
    case True
    with Cons.prems have "\<not> high_surrogate c" "\<not> low_surrogate c"
      by (auto simp: scalar_def high_surrogate_def low_surrogate_def)
    with True Cons show ?thesis
      by (cases "encode_utf16 s") (auto simp: encode_utf16_Cons)
  next
    case False
    with Cons.prems have "high_surrogate (55296 + (c - 65536) div 1024)"
      "low_surrogate (56320 + (c - 65536) mod 1024)"
      "65536 + (c - 65536) div 1024 * 1024 + (c - 65536) mod 1024 = c"
      using surrogate_pair [of c] by (auto simp: scalar_def)
    with False Cons show ?thesis by (simp add: encode_utf16_Cons)
  qed
qed

lemma from_utf16_lossy_exact: "from_utf16 u = Some s \<Longrightarrow> from_utf16_lossy u = s"
  by (induction u arbitrary: s rule: from_utf16.induct) (auto split: if_splits)

lemma from_utf16_lossy_encode: "list_all scalar s \<Longrightarrow> from_utf16_lossy (encode_utf16 s) = s"
  by (rule from_utf16_lossy_exact) simp

lemma encode_utf16_inj:
  "list_all scalar s \<Longrightarrow> list_all scalar t \<Longrightarrow> encode_utf16 s = encode_utf16 t \<longleftrightarrow> s = t"
  by (metis from_utf16_lossy_encode)

lemma drop_trailing_prefix: "\<exists>n \<le> length xs. drop_trailing P xs = take n xs"
  by (auto simp: drop_trailing_def intro!: exI [of _ "length xs - length (takeWhile P (rev xs))"])

end
