(* ===== verification/Clearance_Card.thy ===== *)
theory Clearance_Card
  imports Json Shell_Words Utf16
begin

text \<open>
  What the clearance card shows for a gated call
  (\<^verbatim>\<open>crates/hoocode-code-permissions/src/lib.rs\<close>): the REACH cells (\<open>reach_for\<close>), the
  subject line (\<open>describe_tool\<close>) with its cut at 100 UTF-16 units, and the path a mutation
  names. The card never decides anything; it must show the call's own data.
\<close>

section \<open>Reach\<close>

record reach_cell =
  cell_on :: bool
  qualifier :: "ustr option"

record reach =
  reach_read :: reach_cell
  reach_write :: reach_cell
  reach_network :: reach_cell
  reach_pipe :: reach_cell

definition cell_off :: reach_cell where
  "cell_off = \<lparr>cell_on = False, qualifier = None\<rparr>"

definition cell_lit :: "ustr option \<Rightarrow> reach_cell" where
  "cell_lit q = \<lparr>cell_on = True, qualifier = q\<rparr>"

definition reach_none :: reach where
  "reach_none = \<lparr>reach_read = cell_off, reach_write = cell_off, reach_network = cell_off,
     reach_pipe = cell_off\<rparr>"

definition network_programs :: "string list" where
  "network_programs = [''curl'', ''wget'', ''ssh'', ''scp'', ''sftp'', ''ping'', ''nc'',
     ''netcat'', ''ncat'', ''telnet'', ''ftp'']"

text \<open>One word of the double loop of \<open>shell_reach\<close>, over its locals \<open>read\<close> and \<open>network\<close>.\<close>

definition reach_word :: "ustr option \<times> bool \<Rightarrow> nat \<times> ustr \<Rightarrow> ustr option \<times> bool" where
  "reach_word st iw =
     (case st of (rd, net) \<Rightarrow> case iw of (i, w) \<Rightarrow>
        (let l = to_ascii_lowercase w;
             net = (net \<or> contains_str l (U ''http://'') \<or> contains_str l (U ''https://''))
         in if i = 0 then (rd, net \<or> l \<in> set (map U network_programs))
            else if starts_with w (U ''-'') \<or> C CHR ''='' \<in> set w then (rd, net)
            else (if rd = None \<and> is_path_word w then Some w else rd, net)))"

definition shell_reach :: "ustr \<Rightarrow> reach" where
  "shell_reach command =
     (case split_segments command of (sgs, rds, pp) \<Rightarrow>
       (case foldl (\<lambda>st ws. foldl reach_word st (List.enumerate 0 ws)) (None, False) sgs of
          (rd, net) \<Rightarrow>
            \<lparr>reach_read = \<lparr>cell_on = (rd \<noteq> None), qualifier = rd\<rparr>,
             reach_write = \<lparr>cell_on = (rds \<noteq> []),
                            qualifier = (case rds of [] \<Rightarrow> None | r # _ \<Rightarrow> Some r)\<rparr>,
             reach_network = \<lparr>cell_on = net, qualifier = None\<rparr>,
             reach_pipe = \<lparr>cell_on = pp,
                           qualifier = (if pp then Some (nat_digits (length sgs) @ U '' programs'')
                                        else None)\<rparr>\<rparr>))"

text \<open>\<^verbatim>\<open>input.get(k).and_then(Value::as_str)\<close>.\<close>

definition str_field :: "json \<Rightarrow> ustr \<Rightarrow> ustr option" where
  "str_field input k = Option.bind (jget input k) as_str"

definition command_of :: "json \<Rightarrow> ustr" where
  "command_of input = (case str_field input (U ''command'') of None \<Rightarrow> [] | Some c \<Rightarrow> c)"

definition nonempty_str :: "ustr option \<Rightarrow> ustr option" where
  "nonempty_str v = (case v of Some s \<Rightarrow> (if s \<noteq> [] then Some s else None) | None \<Rightarrow> None)"

definition mutation_path :: "json \<Rightarrow> ustr option" where
  "mutation_path input =
     (case nonempty_str (str_field input (U ''path'')) of
        Some s \<Rightarrow> Some s
      | None \<Rightarrow> nonempty_str (str_field input (U ''file_path'')))"

definition reach_for :: "ustr \<Rightarrow> json \<Rightarrow> reach" where
  "reach_for tool input =
     (if tool = U ''Edit'' then
        reach_none\<lparr>reach_read := cell_lit (mutation_path input),
                   reach_write := cell_lit (mutation_path input)\<rparr>
      else if tool = U ''Write'' then reach_none\<lparr>reach_write := cell_lit (mutation_path input)\<rparr>
      else if tool = U ''WebFetch'' \<or> tool = U ''WebSearch'' then
        reach_none\<lparr>reach_network := cell_lit None\<rparr>
      else if tool = U ''Shell'' then shell_reach (command_of input)
      else reach_none)"

section \<open>The subject line\<close>

text \<open>The loop that replaces runs of whitespace (and U+FEFF) by one space.\<close>

fun collapse_spaces :: "bool \<Rightarrow> ustr \<Rightarrow> ustr" where
  "collapse_spaces in_space [] = []"
| "collapse_spaces in_space (c # cs) =
     (if is_ws c \<or> c = 65279
      then (if in_space then collapse_spaces True cs else 32 # collapse_spaces True cs)
      else c # collapse_spaces False cs)"

definition field_or_unknown :: "json \<Rightarrow> ustr \<Rightarrow> ustr" where
  "field_or_unknown input k =
     (case str_field input k of None \<Rightarrow> U ''(unknown)'' | Some s \<Rightarrow> s)"

definition describe_tool :: "ustr \<Rightarrow> json \<Rightarrow> ustr" where
  "describe_tool tool input =
     (if tool = U ''Shell'' then
        U ''$ '' @ from_utf16_lossy (take 100 (encode_utf16 (collapse_spaces False (command_of input))))
      else if tool = U ''Edit'' \<or> tool = U ''Write'' then
        tool @ U '' '' @ (case mutation_path input of None \<Rightarrow> U ''(unknown)'' | Some p \<Rightarrow> p)
      else if tool = U ''WebFetch'' then U ''WebFetch '' @ field_or_unknown input (U ''url'')
      else if tool = U ''WebSearch'' then
        U ''WebSearch '' @ [34] @ field_or_unknown input (U ''query'') @ [34]
      else tool)"

section \<open>The cut keeps the text\<close>

text \<open>
  The decoding of a cut: exactly the characters that fit, then U+FFFD when the cut halves
  the next one.
\<close>

definition fits :: "nat \<Rightarrow> ustr \<Rightarrow> nat \<Rightarrow> bool" where
  "fits n s k \<longleftrightarrow> k \<le> length s \<and> utf16_len (take k s) \<le> n
     \<and> (k < length s \<longrightarrow> n < utf16_len (take (Suc k) s))"

definition cut_text :: "nat \<Rightarrow> ustr \<Rightarrow> nat \<Rightarrow> ustr" where
  "cut_text n s k =
     take k s @ (if k < length s \<and> utf16_len (take k s) < n then [65533] else [])"

lemma utf16_cut:
  "list_all scalar s \<Longrightarrow>
   \<exists>k. fits n s k \<and> from_utf16_lossy (take n (encode_utf16 s)) = cut_text n s k"
proof (induction s arbitrary: n)
  case Nil
  show ?case by (simp add: encode_utf16_def fits_def cut_text_def)
next
  case (Cons c s)
  then have c: "scalar c" and s: "list_all scalar s" by auto
  let ?P = "\<exists>k. fits n (c # s) k \<and> from_utf16_lossy (take n (encode_utf16 (c # s))) = cut_text n (c # s) k"
  have zero: ?P if "n = 0"
    using that by (auto simp: fits_def cut_text_def utf16_len_Cons intro!: exI [of _ 0])
  have more: "\<exists>k. fits n (c # s) k \<and> c # from_utf16_lossy (take m (encode_utf16 s)) = cut_text n (c # s) k"
    if "n = (if c < 65536 then 1 else 2) + m" for m
  proof -
    from Cons.IH [OF s, of m] obtain k where
      "fits m s k" "from_utf16_lossy (take m (encode_utf16 s)) = cut_text m s k" by blast
    with that show ?thesis
      by (intro exI [of _ "Suc k"]) (auto simp: fits_def cut_text_def utf16_len_Cons)
  qed
  show ?case
  proof (cases "c < 65536")
    case True
    with c have "\<not> high_surrogate c" "\<not> low_surrogate c"
      by (auto simp: scalar_def high_surrogate_def low_surrogate_def)
    with True zero more show ?thesis
      by (cases n) (auto simp: encode_utf16_Cons from_utf16_cons_plain)
  next
    case False
    with c have pair: "high_surrogate (55296 + (c - 65536) div 1024)"
      "low_surrogate (56320 + (c - 65536) mod 1024)"
      "65536 + (c - 65536) div 1024 * 1024 + (c - 65536) mod 1024 = c"
      using surrogate_pair [of c] by (auto simp: scalar_def)
    have one: ?P if "n = 1"
      using that False pair
      by (auto simp: encode_utf16_Cons fits_def cut_text_def utf16_len_Cons intro!: exI [of _ 0])
    have two: ?P if "n = Suc (Suc m)" for m
      using more [of m] that False pair by (auto simp: encode_utf16_Cons)
    consider "n = 0" | "n = 1" | m where "n = Suc (Suc m)"
      by (metis One_nat_def not0_implies_Suc)
    then show ?thesis
      using zero one two by cases auto
  qed
qed

text \<open>
  The card's subject line of a Shell call is the command itself. With every run of
  whitespace shown as one space, it is \<open>$\<close>, a space, and the longest prefix of the command
  that fits in 100 UTF-16 units, followed by one replacement character exactly when the cut
  halves a character.
\<close>

theorem describe_shell_is_command:
  assumes "list_all scalar (collapse_spaces False (command_of input))"
  shows "\<exists>k. fits 100 (collapse_spaces False (command_of input)) k
       \<and> describe_tool (U ''Shell'') input
         = U ''$ '' @ cut_text 100 (collapse_spaces False (command_of input)) k"
  using utf16_cut [OF assms, of 100] by (auto simp: describe_tool_def)

theorem describe_shell_is_command_witness:
  "\<exists>k. fits 100 (U ''ls -l'') k
     \<and> describe_tool (U ''Shell'') (JObj [(U ''command'', JStr (U ''ls  -l''))])
       = U ''$ '' @ cut_text 100 (U ''ls -l'') k"
proof -
  have c: "collapse_spaces False (command_of (JObj [(U ''command'', JStr (U ''ls  -l''))]))
         = U ''ls -l''"
    by (simp add: command_of_def str_field_def is_ws_def ustr_eval)
  have "list_all scalar (U ''ls -l'')" by (simp add: scalar_def ustr_eval)
  then show ?thesis
    using describe_shell_is_command [of "JObj [(U ''command'', JStr (U ''ls  -l''))]"]
    unfolding c by blast
qed

end
