(* ===== verification/Permission_Gate.thy ===== *)
theory Permission_Gate
  imports Messages Mode_Config Safe_Shell Write_Paths Clearance_Card
begin

text \<open>
  \<^verbatim>\<open>HooPermissionGate\<close> of \<^verbatim>\<open>crates/hoocode-code-permissions/src/lib.rs\<close>: the verdict of
  \<open>evaluate\<close> over a merged configuration, the session's always-approved programs, and the
  handler \<open>gate_check\<close> that asks the relay or the UI and applies an "Always".

  The environment record holds what is not the gate's own code: the skip variable, the regex
  crate and the file system. The state record holds what a check reads and writes: the
  global file, the projects' files (by project directory), the in-memory session approvals
  and the notifications shown.
\<close>

record gate_env =
  skip_env :: "ustr option"
  rx :: "ustr \<Rightarrow> (ustr \<Rightarrow> bool) option"
  rx_escape :: "ustr \<Rightarrow> ustr"
  path_exists :: "path \<Rightarrow> bool"
  canonicalize :: "path \<Rightarrow> path option"

record gate_state =
  global_file :: hoo_config
  project_file :: "path \<Rightarrow> hoo_config option"
  session_always :: "((path \<times> ustr) \<times> ustr list) list"
  notices :: "ustr list"
  config_writable :: bool

section \<open>Tools\<close>

definition gated_tools :: "string list" where
  "gated_tools = [''Shell'', ''Write'', ''Edit'', ''WebFetch'', ''WebSearch'', ''ShellKill'']"

definition plugin_tools :: "string list" where
  "plugin_tools = [''SearchPlugins'', ''ListPlugins'', ''InstallPlugin'', ''UninstallPlugin'',
     ''ProposePlugin'']"

definition is_mcp_or_plugin_tool :: "ustr \<Rightarrow> bool" where
  "is_mcp_or_plugin_tool tool \<longleftrightarrow> starts_with tool (U ''mcp_'') \<or> tool \<in> set (map U plugin_tools)"

definition is_approval_tool :: "ustr \<Rightarrow> bool" where
  "is_approval_tool tool \<longleftrightarrow> tool \<in> set (map U gated_tools) \<or> is_mcp_or_plugin_tool tool"

datatype approval_channel = Ui | Headless bool

datatype verdict = Block ustr | Allow | Prompt

definition matches_bash_pattern :: "gate_env \<Rightarrow> ustr \<Rightarrow> ustr \<Rightarrow> bool" where
  "matches_bash_pattern env pattern command =
     (case rx env pattern of None \<Rightarrow> False | Some m \<Rightarrow> m command)"

section \<open>Session approvals\<close>

definition session_programs :: "gate_state \<Rightarrow> path \<Rightarrow> ustr \<Rightarrow> ustr list" where
  "session_programs st cwd mode =
     (case aget (session_always st) (cwd, mode) of None \<Rightarrow> [] | Some ps \<Rightarrow> ps)"

definition session_allow_program :: "gate_state \<Rightarrow> path \<Rightarrow> ustr \<Rightarrow> ustr \<Rightarrow> gate_state" where
  "session_allow_program st cwd mode program =
     (let ps = session_programs st cwd mode
      in st\<lparr>session_always := aput (cwd, mode) (List.insert program ps) (session_always st)\<rparr>)"

section \<open>The verdict\<close>

definition current_mode :: "hoo_config \<Rightarrow> ustr" where
  "current_mode config = (case active_mode config of None \<Rightarrow> U ''build'' | Some m \<Rightarrow> m)"

definition quoted :: "ustr \<Rightarrow> ustr" where "quoted s = 34 # s @ [34]"

definition list_has :: "ustr list option \<Rightarrow> ustr \<Rightarrow> bool" where
  "list_has l tool = (case l of None \<Rightarrow> False | Some xs \<Rightarrow> tool \<in> set xs)"

definition nonempty_list :: "ustr list option \<Rightarrow> ustr list option" where
  "nonempty_list l = (case l of None \<Rightarrow> None | Some xs \<Rightarrow> (if xs = [] then None else Some xs))"

text \<open>The two checks of tool and command that come first: a reason blocks the call.\<close>

definition tool_rules :: "hoo_config \<Rightarrow> ustr \<Rightarrow> ustr option" where
  "tool_rules config tool =
     (let mode = current_mode config
      in if list_has (mode_list config mode (U ''denied_tools'')) tool
         then Some (U ''Tool '' @ quoted tool @ U '' is denied in mode '' @ quoted mode @ U ''.'')
         else (case nonempty_list (mode_list config mode (U ''enabled_tools'')) of
                 None \<Rightarrow> None
               | Some enabled \<Rightarrow>
                   (if tool \<in> set enabled then None
                    else Some (U ''Tool '' @ quoted tool @ U '' is not enabled in mode '' @ quoted mode
                      @ U '' (enabled: '' @ join (U '', '') enabled @ U '').''))))"

definition bash_rules :: "gate_env \<Rightarrow> hoo_config \<Rightarrow> ustr \<Rightarrow> ustr option" where
  "bash_rules env config command =
     (let mode = current_mode config;
          denied = (case mode_list config mode (U ''denied_bash_commands'') of None \<Rightarrow> [] | Some d \<Rightarrow> d)
      in case find (\<lambda>p. matches_bash_pattern env p command) denied of
           Some pattern \<Rightarrow> Some (U ''Bash command matches a denied pattern in mode '' @ quoted mode
                            @ U '': '' @ pattern)
         | None \<Rightarrow>
             (case nonempty_list (mode_list config mode (U ''allowed_bash_commands'')) of
                None \<Rightarrow> None
              | Some allowed \<Rightarrow>
                  (if list_ex (\<lambda>p. matches_bash_pattern env p command) allowed then None
                   else Some (U ''Bash command is not permitted in mode '' @ quoted mode
                     @ U ''. Allowed patterns: '' @ join (U '', '') allowed))))"

definition write_rules :: "gate_env \<Rightarrow> hoo_config \<Rightarrow> path \<Rightarrow> ustr \<Rightarrow> ustr \<Rightarrow> ustr option" where
  "write_rules env config cwd tool file_path =
     (let mode = current_mode config
      in case mode_list config mode (U ''allowed_write_paths'') of
           None \<Rightarrow> None
         | Some allowed \<Rightarrow>
             (if \<not> matches_allowed_path (rx env) (rx_escape env) file_path allowed cwd
                 \<or> resolves_elsewhere (path_exists env) (canonicalize env) cwd file_path
              then Some (U ''Mode '' @ quoted mode @ U '' only allows writes to: ''
                     @ join (U '', '') allowed @ U ''. Attempted to '' @ tool @ U '': '' @ file_path
                     @ U ''. Switch to '' @ quoted (U ''/mode build'') @ U '' to modify source files.'')
              else None))"

definition config_reason :: "ustr \<Rightarrow> ustr" where
  "config_reason tool = U ''Tool '' @ quoted tool @ U '' may not change hoocode'' @ [39]
     @ U ''s project config without approval, and no client can answer in this session.''"

definition no_client_reason :: "ustr \<Rightarrow> ustr \<Rightarrow> ustr" where
  "no_client_reason tool mode = U ''Tool '' @ quoted tool
     @ U '' needs approval, but no client can answer in this session (rpc mode denies it). ''
     @ U ''Add it to auto_allow for mode '' @ quoted mode @ U '' in hoo-config.json to allow it.''"

definition is_plan :: "ustr \<Rightarrow> bool" where
  "is_plan mode \<longleftrightarrow> eq_ignore_ascii_case (trim mode) (U ''plan'')"

text \<open>From \<^verbatim>\<open>skip_permissions\<close> on: what runs without asking, and what happens otherwise.\<close>

definition ask_rules ::
  "gate_env \<Rightarrow> gate_state \<Rightarrow> hoo_config \<Rightarrow> path \<Rightarrow> ustr \<Rightarrow> json \<Rightarrow> bool \<Rightarrow> verdict" where
  "ask_rules env st config cwd tool input fail_closed =
     (let mode = current_mode config
      in if skip_permissions (skip_env env) config then Allow
         else if tool = U ''Shell'' \<and> safe_shell config \<and> is_safe_shell_command (command_of input)
         then Allow
         else if list_has (mode_list config mode (U ''auto_allow'')) tool then Allow
         else if tool = U ''Shell'' \<and> \<not> is_plan mode
                 \<and> always_allows (command_of input) (session_programs st cwd mode)
         then Allow
         else if fail_closed then Block (no_client_reason tool mode)
         else Prompt)"

definition evaluate ::
  "gate_env \<Rightarrow> gate_state \<Rightarrow> hoo_config \<Rightarrow> path \<Rightarrow> ustr \<Rightarrow> json \<Rightarrow> approval_channel \<Rightarrow> verdict" where
  "evaluate env st config cwd tool input channel =
     (case tool_rules config tool of
        Some reason \<Rightarrow> Block reason
      | None \<Rightarrow>
         (case (if tool = U ''Shell'' then bash_rules env config (command_of input) else None) of
            Some reason \<Rightarrow> Block reason
          | None \<Rightarrow>
             (if channel = Headless False then Allow
              else let fail_closed = (channel = Headless True);
                       file_path = (case mutation_path input of None \<Rightarrow> [] | Some p \<Rightarrow> p)
                   in if \<not> (tool \<in> set (map U gated_tools)
                            \<or> (fail_closed \<and> is_mcp_or_plugin_tool tool)) then Allow
                      else if tool = U ''Write'' \<or> tool = U ''Edit'' then
                        (case write_rules env config cwd tool file_path of
                           Some reason \<Rightarrow> Block reason
                         | None \<Rightarrow>
                             (if is_project_config_file cwd file_path
                              then (if fail_closed then Block (config_reason tool) else Prompt)
                              else ask_rules env st config cwd tool input fail_closed))
                      else ask_rules env st config cwd tool input fail_closed)))"

section \<open>The handler\<close>

record clearance_info =
  info_tool :: ustr
  info_detail :: ustr
  info_mode :: ustr
  info_step :: "nat option"
  info_reach :: reach
  info_from :: "ustr option"

datatype clearance_choice = Once | Always | Deny "ustr option" | Revise ustr

definition choices :: "string list" where
  "choices = [''Yes (once)'', ''No (block)'', ''Always (add to auto-allow for this mode)'']"

text \<open>
  The provided method \<^verbatim>\<open>PermissionUi::select_clearance\<close>: the three-choice prompt \<open>select\<close>
  (an argument: the host's answer), read back.
\<close>

definition select_clearance ::
  "(ustr \<Rightarrow> ustr list \<Rightarrow> ustr option) \<Rightarrow> clearance_info \<Rightarrow> clearance_choice" where
  "select_clearance select info =
     (case select (U ''Allow: '' @ info_detail info) (map U choices) of
        None \<Rightarrow> Deny None
      | Some c \<Rightarrow> (if starts_with c (U ''Always'') then Always
                   else if starts_with c (U ''No'') then Deny None
                   else Once))"

record relay_request =
  req_via :: "ustr option"
  req_tool :: ustr
  req_input :: json
  req_cancelled :: bool

text \<open>A gate: its directory, its channel, and who answers (\<open>gate_relay\<close> before \<open>gate_ui\<close>).\<close>

record gate =
  gate_cwd :: path
  gate_channel :: approval_channel
  gate_ui :: "(clearance_info \<Rightarrow> clearance_choice) option"
  gate_relay :: "(relay_request \<Rightarrow> ustr option) option"

definition notify :: "ustr \<Rightarrow> gate_state \<Rightarrow> gate_state" where
  "notify m st = st\<lparr>notices := notices st @ [m]\<rparr>"

text \<open>
  \<^verbatim>\<open>insert_mode_list\<close>. A mode entry that is there and not an object is left as it is, and
  then nothing is added.
\<close>

definition insert_mode_list :: "hoo_config \<Rightarrow> ustr \<Rightarrow> ustr \<Rightarrow> ustr \<Rightarrow> hoo_config" where
  "insert_mode_list latest mode key value =
     (let modes = object_or_empty (aget latest (U ''modes''));
          modes = aentry mode (JObj []) modes
      in case Option.bind (aget modes mode) as_object of
           None \<Rightarrow> aput (U ''modes'') (JObj modes) latest
         | Some mode_cfg \<Rightarrow>
             (let allow = (case Option.bind (aget mode_cfg key) as_array of None \<Rightarrow> [] | Some xs \<Rightarrow> xs);
                  allow = (if JStr value \<in> set allow then allow else allow @ [JStr value])
              in aput (U ''modes'') (JObj (aput mode (JObj (aput key (JArr allow) mode_cfg)) modes)) latest))"

text \<open>\<^verbatim>\<open>write_config\<close>: a failed write is ignored by the caller.\<close>

definition write_config :: "hoo_config \<Rightarrow> gate_state \<Rightarrow> gate_state" where
  "write_config config st = (if config_writable st then st\<lparr>global_file := config\<rparr> else st)"

definition merged_config :: "gate_state \<Rightarrow> path \<Rightarrow> hoo_config" where
  "merged_config st cwd = read_merged_config (global_file st) (project_file st cwd)"

definition always_program :: "ustr \<Rightarrow> ustr option" where
  "always_program command =
     (case shell_program command of
        None \<Rightarrow> None
      | Some p \<Rightarrow> (if C CHR ''/'' \<notin> set p \<and> \<not> is_always_wrapper p \<and> \<not> is_assignment p
                   then Some p else None))"

definition always_offered :: ustr where
  "always_offered = quoted (U ''always'') @ U '' isn'' @ [39] @ U ''t offered here; ran once''"

text \<open>The \<^verbatim>\<open>ClearanceChoice::Always\<close> arm.\<close>

definition apply_always :: "gate \<Rightarrow> gate_state \<Rightarrow> ustr \<Rightarrow> ustr \<Rightarrow> json \<Rightarrow> gate_state" where
  "apply_always g st mode tool input =
     (if tool = U ''Shell'' \<and> \<not> is_plan mode then
        (case always_program (command_of input) of
           Some program \<Rightarrow>
             notify (quoted program @ U '' always allowed in this session'')
               (session_allow_program st (gate_cwd g) mode program)
         | None \<Rightarrow> notify always_offered st)
      else if tool = U ''Shell'' then notify always_offered st
      else notify (quoted tool @ U '' added to auto-allow for mode '' @ quoted mode)
             (write_config (insert_mode_list (global_file st) mode (U ''auto_allow'') tool) st))"

definition deny_reason :: "ustr option \<Rightarrow> ustr" where
  "deny_reason reason =
     (case reason of
        None \<Rightarrow> U ''Denied by permission gate''
      | Some r \<Rightarrow> (if trim r \<noteq> [] then U ''Denied by permission gate: '' @ trim r
                  else U ''Denied by permission gate''))"

definition no_prompt_reason :: "ustr \<Rightarrow> ustr \<Rightarrow> ustr" where
  "no_prompt_reason tool mode = U ''Denied by permission gate: '' @ tool
     @ U '' needs approval in mode '' @ quoted mode
     @ U '', but no approval prompt is available in this session. ''
     @ U ''Ask the user to allow it, or use a read-only alternative.''"

text \<open>\<^verbatim>\<open>HooPermissionGate::check\<close>: \<open>None\<close> lets the call run.\<close>

definition gate_check ::
  "gate_env \<Rightarrow> gate \<Rightarrow> gate_state \<Rightarrow> ustr \<Rightarrow> json \<Rightarrow> ustr option \<times> gate_state" where
  "gate_check env g st tool input =
     (let merged = merged_config st (gate_cwd g); mode = current_mode merged
      in case evaluate env st merged (gate_cwd g) tool input (gate_channel g) of
           Allow \<Rightarrow> (None, st)
         | Block reason \<Rightarrow> (Some reason, st)
         | Prompt \<Rightarrow>
             (case gate_relay g of
                Some ask \<Rightarrow> (ask \<lparr>req_via = None, req_tool = tool, req_input = input,
                                 req_cancelled = False\<rparr>, st)
              | None \<Rightarrow>
                 (case gate_ui g of
                    None \<Rightarrow> (Some (no_prompt_reason tool mode), st)
                  | Some ui \<Rightarrow>
                      (case ui \<lparr>info_tool = tool, info_detail = describe_tool tool input,
                                info_mode = mode, info_step = None,
                                info_reach = reach_for tool input, info_from = None\<rparr> of
                         Once \<Rightarrow> (None, st)
                       | Deny reason \<Rightarrow> (Some (deny_reason reason), st)
                       | Revise _ \<Rightarrow> (Some (U ''Denied by permission gate''), st)
                       | Always \<Rightarrow> (None, apply_always g st mode tool input)))))"


text \<open>\<^verbatim>\<open>PermissionGate::request\<close>, what the agent loop calls.\<close>

definition gate_request ::
  "gate_env \<Rightarrow> gate \<Rightarrow> gate_state \<Rightarrow> ustr \<Rightarrow> json \<Rightarrow> permission_decision \<times> gate_state" where
  "gate_request env g st tool input =
     (case gate_check env g st tool input of
        (None, st') \<Rightarrow> (Grant, st')
      | (Some reason, st') \<Rightarrow> (permission_decision.Deny reason, st'))"

section \<open>The shape of a verdict\<close>

text \<open>The mode rules a call must pass before anything may allow it.\<close>

definition passes_rules :: "gate_env \<Rightarrow> hoo_config \<Rightarrow> ustr \<Rightarrow> json \<Rightarrow> bool" where
  "passes_rules env config tool input \<longleftrightarrow> tool_rules config tool = None
     \<and> (tool = U ''Shell'' \<longrightarrow> bash_rules env config (command_of input) = None)"

definition target_path :: "json \<Rightarrow> ustr" where
  "target_path input = (case mutation_path input of None \<Rightarrow> [] | Some p \<Rightarrow> p)"

definition is_write :: "ustr \<Rightarrow> bool" where
  "is_write tool \<longleftrightarrow> tool = U ''Write'' \<or> tool = U ''Edit''"

definition is_gated :: "ustr \<Rightarrow> bool \<Rightarrow> bool" where
  "is_gated tool fail_closed \<longleftrightarrow>
     tool \<in> set (map U gated_tools) \<or> (fail_closed \<and> is_mcp_or_plugin_tool tool)"

lemma ask_rules_cases:
  "ask_rules env st config cwd tool input fc
     \<in> {Allow, if fc then Block (no_client_reason tool (current_mode config)) else Prompt}"
  by (auto simp: ask_rules_def Let_def)

lemma evaluate_blocked: "\<not> passes_rules env config tool input \<Longrightarrow>
   \<exists>r. evaluate env st config cwd tool input ch = Block r"
  by (cases "tool_rules config tool"; cases "bash_rules env config (command_of input)")
     (auto simp: evaluate_def passes_rules_def)

lemma evaluate_asking:
  assumes "passes_rules env config tool input" and "ch \<noteq> Headless False"
  shows "evaluate env st config cwd tool input ch =
     (let fc = (ch = Headless True)
      in if \<not> is_gated tool fc then Allow
         else if is_write tool then
           (case write_rules env config cwd tool (target_path input) of
              Some reason \<Rightarrow> Block reason
            | None \<Rightarrow> (if is_project_config_file cwd (target_path input)
                      then (if fc then Block (config_reason tool) else Prompt)
                      else ask_rules env st config cwd tool input fc))
         else ask_rules env st config cwd tool input fc)"
  using assms
  by (auto simp: evaluate_def passes_rules_def is_gated_def is_write_def target_path_def Let_def
      cong: option.case_cong)

lemma evaluate_headless_open:
  "passes_rules env config tool input \<Longrightarrow> evaluate env st config cwd tool input (Headless False) = Allow"
  by (auto simp: evaluate_def passes_rules_def)

lemma evaluate_gated_ask:
  assumes "passes_rules env config tool input" and "ch \<noteq> Headless False"
    and "is_gated tool (ch = Headless True)" and "\<not> is_write tool"
  shows "evaluate env st config cwd tool input ch
       = ask_rules env st config cwd tool input (ch = Headless True)"
  using assms by (simp add: evaluate_asking Let_def)

lemma evaluate_Allow_write:
  assumes "evaluate env st config cwd tool input Ui = Allow" and "is_write tool"
  shows "passes_rules env config tool input \<and> write_rules env config cwd tool (target_path input) = None
       \<and> \<not> is_project_config_file cwd (target_path input)
       \<and> ask_rules env st config cwd tool input False = Allow"
proof -
  have p: "passes_rules env config tool input"
    using assms(1) evaluate_blocked [of env config tool input st cwd Ui] by fastforce
  have g: "is_gated tool False"
    using assms(2) by (auto simp: is_write_def is_gated_def gated_tools_def)
  from assms p g show ?thesis
    by (auto simp: evaluate_asking Let_def split: option.splits if_splits)
qed

lemma evaluate_Prompt:
  assumes "evaluate env st config cwd tool input ch = Prompt"
  shows "ch = Ui \<and> passes_rules env config tool input \<and> is_gated tool False
       \<and> (is_write tool \<and> is_project_config_file cwd (target_path input)
          \<or> ask_rules env st config cwd tool input False = Prompt)"
proof -
  have p: "passes_rules env config tool input"
    using assms evaluate_blocked [of env config tool input st cwd ch] by fastforce
  have o: "ch \<noteq> Headless False"
    using assms p evaluate_headless_open by fastforce
  have "ch = Ui"
  proof (cases ch)
    case (Headless b)
    with o have "ch = Headless True" by (cases b) auto
    then show ?thesis
      using assms p o ask_rules_cases [of env st config cwd tool input True]
      by (auto simp: evaluate_asking Let_def split: option.splits if_splits)
  qed simp
  with assms p show ?thesis
    by (auto simp: evaluate_asking Let_def split: option.splits if_splits)
qed

end
