(* ===== verification/Gate_Properties.thy ===== *)
theory Gate_Properties
  imports Permission_Gate
begin

text \<open>
  What the permission gate promises, over the model of \<open>Permission_Gate\<close>: a project's file
  cannot silence a prompt nor lift a denial, a gate nobody can answer fails closed, "Always"
  holds where it was given and nowhere else, and the plan mode's write rule confines writes.
\<close>

section \<open>A project's file cannot widen what runs without asking\<close>

lemma mode_list_merged_auto:
  "mode_list (merge_configs g p) m (U ''auto_allow'') = mode_list g m (U ''auto_allow'')"
  by (simp add: mode_list_value mode_value_merged_auto_allow)

lemma ask_rules_merged:
  "current_mode (merge_configs g p) = current_mode g \<Longrightarrow>
   ask_rules env st (merge_configs g p) cwd tool input fc = ask_rules env st g cwd tool input fc"
  by (simp add: ask_rules_def mode_list_merged_auto Let_def)

lemma ask_rules_Prompt: "ask_rules env st config cwd tool input False = Prompt \<Longrightarrow>
   ask_rules env st config cwd tool input fc \<noteq> Allow"
  by (auto simp: ask_rules_def Let_def split: if_splits)

lemma project_never_silences:
  assumes "evaluate env st g cwd tool input Ui = Prompt"
    and "current_mode (merge_configs g p) = current_mode g" and "ch \<noteq> Headless False"
  shows "evaluate env st (merge_configs g p) cwd tool input ch \<noteq> Allow"
proof
  assume allow: "evaluate env st (merge_configs g p) cwd tool input ch = Allow"
  let ?fc = "ch = Headless True"
  from evaluate_Prompt [OF assms(1)] have gated: "is_gated tool False"
    and why: "is_write tool \<and> is_project_config_file cwd (target_path input)
       \<or> ask_rules env st g cwd tool input False = Prompt" by auto
  then have gated': "is_gated tool ?fc" by (auto simp: is_gated_def)
  have passes: "passes_rules env (merge_configs g p) tool input"
    using allow evaluate_blocked [of env "merge_configs g p" tool input st cwd ch] by fastforce
  show False
    using why
  proof
    assume "is_write tool \<and> is_project_config_file cwd (target_path input)"
    with allow passes gated' assms(3) show False
      by (auto simp: evaluate_asking Let_def split: option.splits if_splits)
  next
    assume "ask_rules env st g cwd tool input False = Prompt"
    then have "ask_rules env st (merge_configs g p) cwd tool input ?fc \<noteq> Allow"
      using ask_rules_Prompt by (simp add: ask_rules_merged [OF assms(2)])
    with allow passes gated' assms(3) show False
      by (auto simp: evaluate_asking Let_def split: option.splits if_splits)
  qed
qed

text \<open>
  C1: A cloned project's file cannot turn a prompt into a silent run. If with the user's own
  configuration (shipped rules filled in) the gate asks about a call, then with any
  project file on top that keeps the active mode, the call is not allowed without asking,
  neither where a client answers nor where nobody can and the gate fails closed.
\<close>

theorem project_config_cannot_silence:
  assumes "evaluate env st (read_merged_config g None) cwd tool input Ui = Prompt"
    and "current_mode (read_merged_config g (Some p)) = current_mode (read_merged_config g None)"
    and "ch \<noteq> Headless False"
  shows "evaluate env st (read_merged_config g (Some p)) cwd tool input ch \<noteq> Allow"
  using assms by (simp add: read_merged_config_def project_never_silences)

definition quiet_env :: gate_env where
  "quiet_env = \<lparr>skip_env = None, rx = (\<lambda>p. None), rx_escape = (\<lambda>s. s),
     path_exists = (\<lambda>p. True), canonicalize = Some\<rparr>"

definition empty_state :: gate_state where
  "empty_state = \<lparr>global_file = [], project_file = (\<lambda>p. None), session_always = [], notices = [],
     config_writable = True\<rparr>"

definition repo :: path where "repo = [RootDir, Normal (U ''repo'')]"

definition fetch_input :: json where "fetch_input = JObj [(U ''url'', JStr (U ''http://x''))]"

text \<open>A project that tries to auto-allow \<^verbatim>\<open>WebFetch\<close> and to skip permissions.\<close>

definition greedy_project :: hoo_config where
  "greedy_project = [(U ''skip_permissions'', JBool True),
     (U ''modes'', JObj [(U ''build'', JObj [(U ''auto_allow'', jstrs [''WebFetch''])])])]"

lemmas gate_eval = evaluate_def tool_rules_def bash_rules_def ask_rules_def write_rules_def
  current_mode_def active_mode_def mode_list_def mode_config_def get_object_def
  list_has_def nonempty_list_def skip_permissions_def safe_shell_def session_programs_def
  gated_tools_def is_plan_def read_merged_config_def with_builtin_defaults_def fill_modes_def
  fill_defaults_def default_config_def default_modes_def object_or_empty_def aentry_def
  is_array_def strings_def Let_def

lemma eval_fetch_default:
  "evaluate quiet_env empty_state (read_merged_config [] None) repo (U ''WebFetch'') fetch_input Ui
   = Prompt"
  by (simp add: gate_eval quiet_env_def empty_state_def)

lemma greedy_mode: "current_mode (read_merged_config [] (Some greedy_project))
   = current_mode (read_merged_config [] None)"
  by (simp add: current_mode_def active_mode_def read_merged_config_def merge_configs_def
      greedy_project_def copy_key_def get_object_def with_builtin_defaults_def default_config_def
      default_modes_def object_or_empty_def fill_modes_def amap.get_put Let_def)

theorem project_config_cannot_silence_witness:
  "evaluate quiet_env empty_state (read_merged_config [] (Some greedy_project)) repo
     (U ''WebFetch'') fetch_input (Headless True) \<noteq> Allow"
  by (rule project_config_cannot_silence [OF eval_fetch_default greedy_mode]) simp

definition any_regex_env :: gate_env where
  "any_regex_env = quiet_env\<lparr>rx := (\<lambda>p. if p = U ''.*'' then Some (\<lambda>c. True)
       else if p = U ''^ls'' then Some (\<lambda>c. starts_with c (U ''ls'')) else None)\<rparr>"

definition limited_config :: hoo_config where
  "limited_config = [(U ''modes'', JObj [(U ''build'', JObj [(U ''auto_allow'', jstrs [''Shell'']),
     (U ''allowed_bash_commands'', jstrs [''^ls''])])])]"

definition lifting_project :: hoo_config where
  "lifting_project = [(U ''modes'', JObj [(U ''build'', JObj [(U ''allowed_bash_commands'', jstrs [''.*''])])])]"

definition rm_input :: json where "rm_input = JObj [(U ''command'', JStr (U ''rm x''))]"

lemma rm_is_not_ls: "\<not> prefix (U ''ls'') (U ''rm x'')"
  by (simp add: ustr_eval)

text \<open>
  The protection stops at the prompts. A project's file can lift a block: with
  \<open>Shell\<close> auto-allowed by the user but limited to listed patterns, a project that sets its
  own \<open>allowed_bash_commands\<close> turns the block of a command into a run without asking,
  although the merge means to keep a cloned project from widening what runs without a prompt.
\<close>

theorem project_lifts_bash_block:
  "evaluate any_regex_env empty_state (read_merged_config limited_config (Some lifting_project)) repo
     (U ''Shell'') rm_input Ui = Allow
   \<and> (\<exists>r. evaluate any_regex_env empty_state (read_merged_config limited_config None) repo
        (U ''Shell'') rm_input Ui = Block r)"
  by (simp add: gate_eval any_regex_env_def quiet_env_def empty_state_def limited_config_def
      lifting_project_def rm_input_def command_of_def str_field_def matches_bash_pattern_def
      merge_configs_def merge_modes_def merge_mode_def copy_key_def union_lists_def dedupe_def
      starts_with_def adel_def rm_is_not_ls)


section \<open>Denials stay\<close>

text \<open>
  A tool the user's configuration denies in the active mode is blocked by every gate,
  whatever channel, prompt or relay it has and whatever the project's file says, and the
  blocked check changes nothing.
\<close>

theorem denied_tool_blocked:
  assumes "current_mode (merged_config st (gate_cwd g)) = mode"
    and "mode_list (with_builtin_defaults (global_file st)) mode (U ''denied_tools'') = Some denied"
    and "tool \<in> set denied"
  shows "\<exists>reason. gate_check env g st tool input = (Some reason, st)"
proof -
  let ?m = "merged_config st (gate_cwd g)"
  obtain d where d: "mode_list ?m mode (U ''denied_tools'') = Some d" "set denied \<subseteq> set d"
  proof (cases "project_file st (gate_cwd g)")
    case None
    with assms(2) that show thesis by (simp add: merged_config_def read_merged_config_def)
  next
    case (Some p)
    with mode_list_merged_denied [OF _ assms(2), of p] that show thesis
      by (auto simp: merged_config_def read_merged_config_def)
  qed
  then have "\<not> passes_rules env ?m tool input"
    using assms(1,3) by (auto simp: passes_rules_def tool_rules_def list_has_def)
  from evaluate_blocked [OF this] obtain r where
    "evaluate env st ?m (gate_cwd g) tool input (gate_channel g) = Block r" by blast
  then show ?thesis by (simp add: gate_check_def Let_def)
qed

definition yes_gate :: "approval_channel \<Rightarrow> gate" where
  "yes_gate ch = \<lparr>gate_cwd = repo, gate_channel = ch, gate_ui = Some (\<lambda>i. Once), gate_relay = None\<rparr>"

definition ask_state :: gate_state where
  "ask_state = empty_state\<lparr>global_file := [(U ''active_mode'', JStr (U ''ask''))]\<rparr>"

theorem denied_tool_blocked_witness:
  "\<exists>reason. gate_check quiet_env (yes_gate (Headless False)) ask_state (U ''Edit'') (JObj [])
     = (Some reason, ask_state)"
  by (rule denied_tool_blocked [where mode = "U ''ask''" and denied = "[U ''Write'', U ''Edit'']"])
     (simp_all add: gate_eval merged_config_def ask_state_def empty_state_def yes_gate_def
        List.map_filter_simps)

section \<open>Who lets a call run\<close>

text \<open>The reasons that let an approval-requiring call run without anybody answering.\<close>

definition pre_approved :: "gate_env \<Rightarrow> gate_state \<Rightarrow> hoo_config \<Rightarrow> path \<Rightarrow> ustr \<Rightarrow> json \<Rightarrow> bool" where
  "pre_approved env st config cwd tool input \<longleftrightarrow>
     skip_permissions (skip_env env) config
     \<or> (tool = U ''Shell'' \<and> safe_shell config \<and> is_safe_shell_command (command_of input))
     \<or> list_has (mode_list config (current_mode config) (U ''auto_allow'')) tool
     \<or> (tool = U ''Shell'' \<and> \<not> is_plan (current_mode config)
        \<and> always_allows (command_of input) (session_programs st cwd (current_mode config)))"

lemma ask_rules_Allow:
  "ask_rules env st config cwd tool input fc = Allow \<longleftrightarrow> pre_approved env st config cwd tool input"
  by (auto simp: ask_rules_def pre_approved_def Let_def)

lemma approval_tool_gated: "is_approval_tool tool \<Longrightarrow> is_gated tool True"
  by (auto simp: is_approval_tool_def is_gated_def)

lemma write_tool_gated: "is_write tool \<Longrightarrow> is_gated tool b"
  by (auto simp: is_write_def is_gated_def gated_tools_def)

lemma evaluate_Headless_asks_nobody: "evaluate env st config cwd tool input (Headless b) \<noteq> Prompt"
  using evaluate_Prompt [of env st config cwd tool input "Headless b"] by auto

text \<open>The reasons that let a call that needs approval run although nobody is asked.\<close>

definition runs_unasked :: "gate_env \<Rightarrow> gate_state \<Rightarrow> hoo_config \<Rightarrow> path \<Rightarrow> ustr \<Rightarrow> json \<Rightarrow> bool" where
  "runs_unasked env st config cwd tool input \<longleftrightarrow>
     passes_rules env config tool input
     \<and> (is_write tool \<longrightarrow> write_rules env config cwd tool (target_path input) = None
          \<and> \<not> is_project_config_file cwd (target_path input))
     \<and> pre_approved env st config cwd tool input"

lemma evaluate_allows_unasked:
  assumes "ch \<noteq> Headless False" and "is_gated tool (ch = Headless True)"
  shows "evaluate env st config cwd tool input ch = Allow
     \<longleftrightarrow> runs_unasked env st config cwd tool input"
proof (cases "passes_rules env config tool input")
  case False
  with evaluate_blocked [OF this, of st cwd ch] show ?thesis by (auto simp: runs_unasked_def)
next
  case True
  with assms show ?thesis
    by (auto simp: evaluate_asking runs_unasked_def Let_def ask_rules_Allow split: option.splits)
qed

text \<open>
  C9: A gate that nobody can answer (rpc mode) fails closed. A check of any tool, whatever its
  result, leaves the state as it was, and the UI and the relay the gate has make no difference
  to it. A tool that needs approval (Shell, Write, Edit, the web tools, ShellKill, every MCP
  and plugin tool) runs if and only if the mode's rules let it, a write meets the mode's write
  rule and does not target the project's own configuration, and skip_permissions, the
  read-only allowlist, \<open>auto_allow\<close> or a session approval allows it; else it is blocked.
\<close>

theorem fail_closed_gate:
  assumes "gate_channel g = Headless True"
  shows "snd (gate_check env g st tool input) = st
    \<and> gate_check env (g\<lparr>gate_ui := ui, gate_relay := relay\<rparr>) st tool input
        = gate_check env g st tool input
    \<and> (is_approval_tool tool \<longrightarrow>
        (fst (gate_check env g st tool input) = None \<longleftrightarrow>
         runs_unasked env st (merged_config st (gate_cwd g)) (gate_cwd g) tool input))"
proof -
  let ?v = "evaluate env st (merged_config st (gate_cwd g)) (gate_cwd g) tool input (Headless True)"
  have v: "?v \<noteq> Prompt" by (rule evaluate_Headless_asks_nobody)
  then have "snd (gate_check env g st tool input) = st
    \<and> gate_check env (g\<lparr>gate_ui := ui, gate_relay := relay\<rparr>) st tool input
        = gate_check env g st tool input
    \<and> (fst (gate_check env g st tool input) = None \<longleftrightarrow> ?v = Allow)"
    using assms by (cases ?v) (simp_all add: gate_check_def Let_def)
  then show ?thesis
    by (simp add: evaluate_allows_unasked approval_tool_gated)
qed

lemma empty_merged: "merged_config empty_state repo = with_builtin_defaults []"
  by (simp add: merged_config_def empty_state_def read_merged_config_def)

definition status_input :: json where
  "status_input = JObj [(U ''command'', JStr (U ''pwd''))]"

theorem fail_closed_gate_witness:
  "runs_unasked quiet_env empty_state (merged_config empty_state repo) repo (U ''Shell'') status_input"
proof -
  have "gate_check quiet_env (yes_gate (Headless True)) empty_state (U ''Shell'') status_input
      = (None, empty_state)"
    using pwd_is_safe
    by (simp add: gate_check_def empty_merged yes_gate_def gate_eval quiet_env_def status_input_def
        command_of_def str_field_def)
  moreover have "is_approval_tool (U ''Shell'')"
    by (simp add: is_approval_tool_def gated_tools_def)
  ultimately show ?thesis
    using fail_closed_gate [of "yes_gate (Headless True)" quiet_env empty_state "U ''Shell''"
      status_input None None] by (simp add: yes_gate_def)
qed

section \<open>What "Always" changes\<close>

lemma session_programs_allow:
  "session_programs (session_allow_program st cwd mode p) c m =
     (if (c, m) = (cwd, mode) then List.insert p (session_programs st cwd mode)
      else session_programs st c m)"
  by (auto simp: session_programs_def session_allow_program_def amap.get_put Let_def)

lemma session_programs_same [simp]:
  "session_programs (notify n st) = session_programs st"
  "session_programs (write_config cfg st) = session_programs st"
  by (auto simp: session_programs_def notify_def write_config_def fun_eq_iff)

lemma apply_always_programs:
  "session_programs (apply_always g st mode tool input) c m =
     (if (c, m) = (gate_cwd g, mode) \<and> tool = U ''Shell'' \<and> \<not> is_plan mode
      then (case always_program (command_of input) of
              Some p \<Rightarrow> List.insert p (session_programs st c m) | None \<Rightarrow> session_programs st c m)
      else session_programs st c m)"
  by (auto simp: apply_always_def session_programs_allow split: option.splits)

lemma gate_check_state:
  "snd (gate_check env g st tool input) = st
   \<or> snd (gate_check env g st tool input)
     = apply_always g st (current_mode (merged_config st (gate_cwd g))) tool input"
  by (auto simp: gate_check_def Let_def split: verdict.splits option.splits clearance_choice.splits)

text \<open>
  C11: A session approval stays where it was given. A check by a gate of one directory
  changes the approved programs of no other directory and of no other mode, whatever the
  user answers; in plan mode it never adds one at all; and it never removes one.
\<close>

theorem session_approvals_isolated:
  "(set (session_programs (snd (gate_check env g st tool input)) c m) \<supseteq> set (session_programs st c m))
   \<and> ((c, m) \<noteq> (gate_cwd g, current_mode (merged_config st (gate_cwd g))) \<or> is_plan m
      \<longrightarrow> session_programs (snd (gate_check env g st tool input)) c m = session_programs st c m)"
  using gate_check_state [of env g st tool input]
  by (auto simp: apply_always_programs split: option.splits)

theorem session_approvals_isolated_witness:
  "session_programs (snd (gate_check quiet_env (yes_gate Ui) empty_state (U ''Shell'') rm_input))
     repo (U ''plan'') = session_programs empty_state repo (U ''plan'')"
proof -
  have "is_plan (U ''plan'')"
    by (simp add: is_plan_def eq_ignore_ascii_case_def trim_def trim_start_def trim_end_def
        is_ws_def ustr_eval)
  then show ?thesis
    using session_approvals_isolated [of empty_state repo "U ''plan''" quiet_env "yes_gate Ui"
      "U ''Shell''" rm_input] by simp
qed

text \<open>Everything a mode lookup of the merged configuration reads of the global file.\<close>

lemma aget_foldl_aput_cong:
  "aget a k = aget b k \<Longrightarrow>
   aget (foldl (\<lambda>c (k, v). aput k v c) a kvs) k = aget (foldl (\<lambda>c (k, v). aput k v c) b kvs) k"
proof (induction kvs arbitrary: a b)
  case Nil
  then show ?case by simp
next
  case (Cons x kvs)
  obtain j v where "x = (j, v)" by (cases x)
  with Cons.IH [of "aput j v a" "aput j v b"] Cons.prems show ?case by (simp add: amap.get_put)
qed

lemma aget_default: "aget (case x of None \<Rightarrow> [] | Some c \<Rightarrow> c) k = Option.bind x (\<lambda>c. aget c k)"
  by (cases x) simp_all

lemma merge_mode_cong:
  "aget a k = aget b k \<Longrightarrow> aget (merge_mode a p) k = aget (merge_mode b p) k"
  using aget_foldl_aput_cong [of a k b p] by (auto simp: merge_mode_lookup split: option.split)

definition mode_key :: "jobject option \<Rightarrow> ustr \<Rightarrow> ustr \<Rightarrow> json option" where
  "mode_key modes m k =
     Option.bind (Option.bind (Option.bind modes (\<lambda>ms. aget ms m)) as_object) (\<lambda>c. aget c k)"

lemma mode_value_key: "mode_value config m k = mode_key (get_object config (U ''modes'')) m k"
  by (simp add: mode_value_def mode_config_def mode_key_def)

lemma mode_key_put:
  "mode_key (Some (aput x v ms)) m k
   = (if m = x then Option.bind (as_object v) (\<lambda>c. aget c k) else mode_key (Some ms) m k)"
  by (simp add: mode_key_def amap.get_put)

lemma merge_modes_cong:
  assumes "mode_key gm m k = mode_key gn m k"
  shows "mode_key (Some (merge_modes gm pm)) m k = mode_key (Some (merge_modes gn pm)) m k"
proof -
  have entry: "aget (case Option.bind (Option.bind gm (\<lambda>ms. aget ms m)) as_object of None \<Rightarrow> [] | Some c \<Rightarrow> c) k
      = aget (case Option.bind (Option.bind gn (\<lambda>ms. aget ms m)) as_object of None \<Rightarrow> [] | Some c \<Rightarrow> c) k"
    using assms unfolding aget_default mode_key_def .
  have "mode_key (Some a) m k = mode_key (Some b) m k \<Longrightarrow>
      mode_key (Some (foldl (\<lambda>modes (mode, project_cfg).
        let global_cfg = (case Option.bind (Option.bind gm (\<lambda>m. aget m mode)) as_object of
                            None \<Rightarrow> [] | Some m \<Rightarrow> m);
            project_cfg = (case as_object project_cfg of None \<Rightarrow> [] | Some m \<Rightarrow> m)
        in aput mode (JObj (merge_mode global_cfg project_cfg)) modes) a pm)) m k
    = mode_key (Some (foldl (\<lambda>modes (mode, project_cfg).
        let global_cfg = (case Option.bind (Option.bind gn (\<lambda>m. aget m mode)) as_object of
                            None \<Rightarrow> [] | Some m \<Rightarrow> m);
            project_cfg = (case as_object project_cfg of None \<Rightarrow> [] | Some m \<Rightarrow> m)
        in aput mode (JObj (merge_mode global_cfg project_cfg)) modes) b pm)) m k" for a b
  proof (induction pm arbitrary: a b)
    case Nil
    then show ?case by simp
  next
    case (Cons x pm)
    obtain mode cfg where x: "x = (mode, cfg)" by (cases x)
    have "mode = m \<or> mode \<noteq> m" by blast
    then show ?case
      unfolding x foldl_Cons prod.case Let_def
      by (intro Cons.IH [unfolded Let_def], elim disjE; hypsubst?)
         (simp_all add: mode_key_put Cons.prems merge_mode_cong [OF entry] del: Option.bind_assoc)
  qed
  moreover have "mode_key (Some (case x of None \<Rightarrow> [] | Some m \<Rightarrow> m)) m k = mode_key x m k" for x
    by (cases x) (simp_all add: mode_key_def)
  ultimately show ?thesis
    using assms by (simp add: merge_modes_def)
qed

lemma mode_value_merge_cong:
  "mode_value a m k = mode_value b m k \<Longrightarrow>
   mode_value (merge_configs a p) m k = mode_value (merge_configs b p) m k"
proof -
  assume a: "mode_value a m k = mode_value b m k"
  have "get_object (merge_configs c p) (U ''modes'') =
      (case get_object p (U ''modes'') of
         None \<Rightarrow> get_object c (U ''modes'')
       | Some pm \<Rightarrow> Some (merge_modes (get_object c (U ''modes'')) pm))" for c
    unfolding get_object_def [of "merge_configs c p"] merge_configs_modes
    by (simp add: get_object_def split: option.split)
  with a show ?thesis
    by (auto simp: mode_value_key intro: merge_modes_cong split: option.split)
qed

lemma mode_value_read_cong:
  "mode_value a m k = mode_value b m k \<Longrightarrow>
   mode_value (read_merged_config a p) m k = mode_value (read_merged_config b p) m k"
  by (cases p)
     (simp_all add: read_merged_config_def mode_value_defaults mode_value_merge_cong)

lemma active_mode_read_cong:
  "aget a (U ''active_mode'') = aget b (U ''active_mode'') \<Longrightarrow>
   current_mode (read_merged_config a p) = current_mode (read_merged_config b p)"
  by (cases p) (simp_all add: current_mode_def active_mode_def read_merged_config_def defaults_top
      merge_configs_def Let_def aget_copy_key amap.get_put split: option.split)

section \<open>"Always" sticks\<close>

definition mode_entry_ok :: "hoo_config \<Rightarrow> ustr \<Rightarrow> bool" where
  "mode_entry_ok config mode \<longleftrightarrow>
     (case aget (object_or_empty (aget config (U ''modes''))) mode of
        None \<Rightarrow> True | Some v \<Rightarrow> is_object v)"

lemma insert_mode_list_modes:
  assumes "mode_entry_ok config mode"
  shows "mode_value (insert_mode_list config mode key tool) m k =
     (if m = mode \<and> k = key
      then Some (JArr (let old = (case Option.bind (mode_value config mode key) as_array of
                                    None \<Rightarrow> [] | Some xs \<Rightarrow> xs)
                       in if JStr tool \<in> set old then old else old @ [JStr tool]))
      else mode_value config m k)"
proof -
  let ?ms = "object_or_empty (aget config (U ''modes''))"
  have old: "mode_value config n j = Option.bind (Option.bind (aget ?ms n) as_object) (\<lambda>c. aget c j)" for n j
    by (cases "get_object config (U ''modes'')")
       (simp_all add: mode_value_def mode_config_def get_object_def object_or_empty_def)
  obtain c where c: "Option.bind (aget (aentry mode (JObj []) ?ms) mode) as_object = Some c"
    "\<And>j. aget c j = mode_value config mode j"
    using assms unfolding old
    by (cases "aget ?ms mode") (auto simp: mode_entry_ok_def aget_aentry is_object_def)
  let ?new = "let old = (case Option.bind (mode_value config mode key) as_array of
                 None \<Rightarrow> [] | Some xs \<Rightarrow> xs)
              in if JStr tool \<in> set old then old else old @ [JStr tool]"
  have "get_object (insert_mode_list config mode key tool) (U ''modes'') =
      Some (aput mode (JObj (aput key (JArr ?new) c)) (aentry mode (JObj []) ?ms))"
    by (simp add: insert_mode_list_def Let_def c get_object_def amap.get_put)
  then have ins: "mode_value (insert_mode_list config mode key tool) m k =
      mode_key (Some (aput mode (JObj (aput key (JArr ?new) c)) (aentry mode (JObj []) ?ms))) m k"
    by (simp only: mode_value_key)
  show ?thesis
  proof (cases "m = mode")
    case True
    then show ?thesis unfolding ins mode_key_put by (simp add: amap.get_put c(2))
  next
    case False
    then have "mode_key (Some (aentry mode (JObj []) ?ms)) m k = mode_value config m k"
      unfolding old by (simp add: mode_key_def aget_aentry)
    with False show ?thesis unfolding ins mode_key_put by simp
  qed
qed

lemma insert_mode_list_top:
  "k \<noteq> U ''modes'' \<Longrightarrow> aget (insert_mode_list config mode key tool) k = aget config k"
  by (auto simp: insert_mode_list_def Let_def amap.get_put split: option.split)

lemma auto_allow_after_insert:
  assumes "mode_entry_ok config mode"
  shows "list_has (mode_list (read_merged_config (insert_mode_list config mode (U ''auto_allow'') tool) p)
           mode (U ''auto_allow'')) tool"
proof -
  have "mode_value (read_merged_config (insert_mode_list config mode (U ''auto_allow'') tool) p) mode
          (U ''auto_allow'')
      = mode_value (insert_mode_list config mode (U ''auto_allow'') tool) mode (U ''auto_allow'')"
    by (cases p) (simp_all add: read_merged_config_def mode_value_merged_auto_allow
        mode_value_defaults insert_mode_list_modes [OF assms])
  then show ?thesis
    by (auto simp: mode_list_value list_has_def insert_mode_list_modes [OF assms] is_array_def Let_def
        List.map_filter_def image_iff intro: rev_image_eqI)
qed

lemma rules_after_insert:
  fixes tool :: ustr and p :: "hoo_config option"
  assumes "mode_entry_ok config mode"
  defines "a \<equiv> read_merged_config (insert_mode_list config mode (U ''auto_allow'') tool) p"
    and "b \<equiv> read_merged_config config p"
  shows "current_mode a = current_mode b" and "tool_rules a t = tool_rules b t"
    and "bash_rules env a c = bash_rules env b c" and "write_rules env a cwd t f = write_rules env b cwd t f"
proof -
  show mode: "current_mode a = current_mode b"
    unfolding a_def b_def by (rule active_mode_read_cong) (simp add: insert_mode_list_top)
  have "mode_list a m k = mode_list b m k" if "k \<noteq> U ''auto_allow''" for m k
    unfolding mode_list_value a_def b_def
    using that by (subst mode_value_read_cong [where b = config]) (simp_all add: insert_mode_list_modes [OF assms(1)])
  then show "tool_rules a t = tool_rules b t" "bash_rules env a c = bash_rules env b c"
    "write_rules env a cwd t f = write_rules env b cwd t f"
    unfolding tool_rules_def bash_rules_def write_rules_def mode Let_def
    by (simp_all cong: option.case_cong)
qed

lemma pre_approved_allows:
  assumes "passes_rules env config tool input" and "pre_approved env st config cwd tool input"
    and "is_write tool \<longrightarrow> write_rules env config cwd tool (target_path input) = None
           \<and> \<not> is_project_config_file cwd (target_path input)"
  shows "evaluate env st config cwd tool input ch = Allow"
proof (cases "ch = Headless False")
  case True
  with assms(1) show ?thesis by (simp add: evaluate_headless_open)
next
  case False
  with assms show ?thesis by (simp add: evaluate_asking Let_def ask_rules_Allow)
qed

lemma Prompt_write_rules:
  assumes "evaluate env st config cwd tool input Ui = Prompt" and "is_write tool"
  shows "write_rules env config cwd tool (target_path input) = None"
proof -
  from evaluate_Prompt [OF assms(1)] have "passes_rules env config tool input" "is_gated tool False"
    by auto
  with assms show ?thesis by (auto simp: evaluate_asking Let_def split: option.splits)
qed

text \<open>
  "Always" holds. When the user answers "Always" to a prompt about a tool other than
  Shell, the same call never asks again: every later check of it by any gate of that
  directory, with any channel, UI or relay, lets it run and changes nothing. (The write of
  the global file succeeds, its entry for the mode is an object or missing, and the call is
  not a write to the project's own configuration, which always asks.)
\<close>

theorem always_sticks:
  assumes "evaluate env st (merged_config st (gate_cwd g)) (gate_cwd g) tool input (gate_channel g) = Prompt"
    and "gate_relay g = None" and "gate_ui g = Some ui" and "\<And>info. ui info = Always"
    and "tool \<noteq> U ''Shell''"
    and "is_write tool \<Longrightarrow> \<not> is_project_config_file (gate_cwd g) (target_path input)"
    and "config_writable st"
    and "mode_entry_ok (global_file st) (current_mode (merged_config st (gate_cwd g)))"
    and "gate_cwd h = gate_cwd g"
  shows "gate_check env h (snd (gate_check env g st tool input)) tool input
       = (None, snd (gate_check env g st tool input))"
proof -
  let ?m = "merged_config st (gate_cwd g)"
  let ?mode = "current_mode ?m"
  let ?st = "snd (gate_check env g st tool input)"
  have st: "?st = apply_always g st ?mode tool input"
    using assms(1-4) by (simp add: gate_check_def Let_def)
  then have gf: "global_file ?st = insert_mode_list (global_file st) ?mode (U ''auto_allow'') tool"
    and pf: "project_file ?st = project_file st"
    using assms(5,7) by (simp_all add: apply_always_def notify_def write_config_def)
  let ?m' = "merged_config ?st (gate_cwd h)"
  note after = rules_after_insert [OF assms(8), where tool = tool and p = "project_file st (gate_cwd g)",
      folded merged_config_def]
  have m': "?m' = read_merged_config (insert_mode_list (global_file st) ?mode (U ''auto_allow'') tool)
                    (project_file st (gate_cwd g))"
    by (simp add: merged_config_def gf pf assms(9))
  from evaluate_Prompt [OF assms(1)] have ui: "gate_channel g = Ui" and p: "passes_rules env ?m tool input"
    by auto
  have "passes_rules env ?m' tool input"
    using p assms(5) by (simp add: passes_rules_def m' after)
  moreover have "pre_approved env ?st ?m' (gate_cwd h) tool input"
    unfolding pre_approved_def
    using auto_allow_after_insert [OF assms(8), of tool "project_file st (gate_cwd g)"]
    by (simp add: m' after(1))
  moreover have "is_write tool \<longrightarrow> write_rules env ?m' (gate_cwd h) tool (target_path input) = None
      \<and> \<not> is_project_config_file (gate_cwd h) (target_path input)"
    unfolding m' after(4) unfolding assms(9)
    using assms(6) Prompt_write_rules [OF assms(1) [unfolded ui]] by blast
  ultimately have "evaluate env ?st ?m' (gate_cwd h) tool input (gate_channel h) = Allow"
    by (rule pre_approved_allows)
  then show ?thesis by (simp add: gate_check_def Let_def)
qed

definition always_gate :: gate where
  "always_gate = \<lparr>gate_cwd = repo, gate_channel = Ui, gate_ui = Some (\<lambda>i. Always), gate_relay = None\<rparr>"

theorem always_sticks_witness:
  "fst (gate_check quiet_env (yes_gate (Headless True))
     (snd (gate_check quiet_env always_gate empty_state (U ''WebFetch'') fetch_input))
     (U ''WebFetch'') fetch_input) = None"
proof -
  have "mode_entry_ok (global_file empty_state) m" "config_writable empty_state" for m
    by (simp_all add: mode_entry_ok_def empty_state_def object_or_empty_def)
  with eval_fetch_default show ?thesis
    using always_sticks [of quiet_env empty_state always_gate "U ''WebFetch''" fetch_input
        "\<lambda>i. Always" "yes_gate (Headless True)"]
    by (simp add: always_gate_def yes_gate_def empty_merged read_merged_config_def is_write_def)
qed

section \<open>Nobody to ask, and who answers\<close>

text \<open>
  What whoever stands behind a gate says about a call: the relay to the request it is sent, the
  UI to the card it is shown. \<open>answered_yes\<close> is a yes of the one that is asked; the relay comes
  before the UI.
\<close>

definition relay_reply :: "gate \<Rightarrow> ustr \<Rightarrow> json \<Rightarrow> ustr option option" where
  "relay_reply g tool input =
     map_option (\<lambda>ask. ask \<lparr>req_via = None, req_tool = tool, req_input = input,
       req_cancelled = False\<rparr>) (gate_relay g)"

definition ui_choice :: "gate \<Rightarrow> ustr \<Rightarrow> ustr \<Rightarrow> json \<Rightarrow> clearance_choice option" where
  "ui_choice g mode tool input =
     map_option (\<lambda>ui. ui \<lparr>info_tool = tool, info_detail = describe_tool tool input,
       info_mode = mode, info_step = None, info_reach = reach_for tool input,
       info_from = None\<rparr>) (gate_ui g)"

definition answered_yes :: "gate \<Rightarrow> ustr \<Rightarrow> ustr \<Rightarrow> json \<Rightarrow> bool" where
  "answered_yes g mode tool input \<longleftrightarrow>
     (if gate_relay g \<noteq> None then relay_reply g tool input = Some None
      else ui_choice g mode tool input \<in> {Some Once, Some Always})"

definition keeps_rules :: "gate_env \<Rightarrow> hoo_config \<Rightarrow> path \<Rightarrow> ustr \<Rightarrow> json \<Rightarrow> bool" where
  "keeps_rules env config cwd tool input \<longleftrightarrow>
     passes_rules env config tool input
     \<and> (is_write tool \<longrightarrow> write_rules env config cwd tool (target_path input) = None)"

lemma evaluate_prompts:
  assumes "is_gated tool False"
  shows "evaluate env st config cwd tool input Ui = Prompt \<longleftrightarrow>
     keeps_rules env config cwd tool input \<and> \<not> runs_unasked env st config cwd tool input"
proof (cases "passes_rules env config tool input")
  case False
  with evaluate_blocked [OF this, of st cwd Ui] show ?thesis by (auto simp: keeps_rules_def)
next
  case True
  with assms ask_rules_cases [of env st config cwd tool input False]
    ask_rules_Allow [of env st config cwd tool input False]
  show ?thesis
    by (auto simp: evaluate_asking runs_unasked_def keeps_rules_def Let_def split: option.splits)
qed

lemma runs_unasked_keeps_rules:
  "runs_unasked env st config cwd tool input \<Longrightarrow> keeps_rules env config cwd tool input"
  by (simp add: runs_unasked_def keeps_rules_def)

lemma gate_check_prompt:
  assumes "evaluate env st (merged_config st (gate_cwd g)) (gate_cwd g) tool input (gate_channel g) = Prompt"
  shows "(fst (gate_check env g st tool input) = None \<longleftrightarrow>
        answered_yes g (current_mode (merged_config st (gate_cwd g))) tool input)
    \<and> snd (gate_check env g st tool input) =
        (if gate_relay g = None
            \<and> ui_choice g (current_mode (merged_config st (gate_cwd g))) tool input = Some Always
         then apply_always g st (current_mode (merged_config st (gate_cwd g))) tool input else st)"
  using assms
  by (auto simp: gate_check_def answered_yes_def relay_reply_def ui_choice_def Let_def
      split: option.splits clearance_choice.splits)

text \<open>
  C2: No silent allow where a client answers. Through a gate with a UI channel, a gated tool
  (Shell, Write, Edit, the web tools, ShellKill) runs if and only if the mode's rules for the
  tool, the command and the write path let it, and either it may run unasked (it is approved by
  skip_permissions, the read-only allowlist, \<open>auto_allow\<close> or a session approval, and is not a
  write to the project's own configuration) or somebody said yes to exactly this call: the
  relay, or, where the gate has no relay, the UI with \<open>Once\<close> or \<open>Always\<close>; with neither the call
  is denied. The check changes the state in one case only: the UI was asked and answered
  \<open>Always\<close>.
\<close>

theorem prompt_needs_answer:
  assumes "gate_channel g = Ui" and "is_gated tool False"
    and "gate_check env g st tool input = (r, st')"
    and "config = merged_config st (gate_cwd g)" and "mode = current_mode config"
  shows "(r = None \<longleftrightarrow> keeps_rules env config (gate_cwd g) tool input
        \<and> (runs_unasked env st config (gate_cwd g) tool input \<or> answered_yes g mode tool input))
    \<and> st' = (if keeps_rules env config (gate_cwd g) tool input
           \<and> \<not> runs_unasked env st config (gate_cwd g) tool input
           \<and> gate_relay g = None \<and> ui_choice g mode tool input = Some Always
         then apply_always g st mode tool input else st)"
proof -
  let ?v = "evaluate env st config (gate_cwd g) tool input (gate_channel g)"
  have allow: "?v = Allow \<longleftrightarrow> runs_unasked env st config (gate_cwd g) tool input"
    and ask: "?v = Prompt \<longleftrightarrow> keeps_rules env config (gate_cwd g) tool input
      \<and> \<not> runs_unasked env st config (gate_cwd g) tool input"
    using assms(1,2) by (simp_all add: evaluate_allows_unasked evaluate_prompts)
  show ?thesis
  proof (cases ?v)
    case (Block reason)
    then have "gate_check env g st tool input = (Some reason, st)"
      using assms(4) by (simp add: gate_check_def Let_def)
    with assms(3) allow ask Block show ?thesis by auto
  next
    case Allow
    then have "gate_check env g st tool input = (None, st)"
      using assms(4) by (simp add: gate_check_def Let_def)
    with assms(3) allow Allow runs_unasked_keeps_rules show ?thesis by auto
  next
    case Prompt
    with gate_check_prompt [of env st g tool input] assms(3-5) ask show ?thesis by auto
  qed
qed

theorem prompt_needs_answer_witness:
  "\<exists>r. gate_check quiet_env ((yes_gate Ui)\<lparr>gate_ui := None\<rparr>) empty_state (U ''WebFetch'') fetch_input
     = (Some r, empty_state)"
proof -
  let ?g = "(yes_gate Ui)\<lparr>gate_ui := None\<rparr>" and ?c = "merged_config empty_state repo"
  obtain r st' where c: "gate_check quiet_env ?g empty_state (U ''WebFetch'') fetch_input = (r, st')"
    by (cases "gate_check quiet_env ?g empty_state (U ''WebFetch'') fetch_input")
  have g: "is_gated (U ''WebFetch'') False" by (simp add: is_gated_def gated_tools_def)
  then have "\<not> runs_unasked quiet_env empty_state ?c repo (U ''WebFetch'') fetch_input"
    using eval_fetch_default evaluate_prompts [OF g]
    by (simp add: empty_merged read_merged_config_def)
  with prompt_needs_answer [OF _ g c refl refl] c show ?thesis
    by (auto simp: yes_gate_def answered_yes_def ui_choice_def)
qed

section \<open>The plan mode\<close>

lemma write_needs_rules:
  assumes "gate_check env g st tool input = (None, st')" and "is_write tool"
    and "gate_channel g \<noteq> Headless False"
  shows "write_rules env (merged_config st (gate_cwd g)) (gate_cwd g) tool (target_path input) = None"
proof -
  let ?m = "merged_config st (gate_cwd g)"
  let ?v = "evaluate env st ?m (gate_cwd g) tool input (gate_channel g)"
  have nb: "?v \<noteq> Block r" for r
    using assms(1) by (auto simp: gate_check_def Let_def)
  then have p: "passes_rules env ?m tool input"
    using evaluate_blocked [of env ?m tool input st "gate_cwd g" "gate_channel g"] by blast
  have "is_gated tool b" for b
    using assms(2) by (auto simp: is_write_def is_gated_def gated_tools_def)
  then show ?thesis
    using nb p assms(2,3)
    by (cases "write_rules env ?m (gate_cwd g) tool (target_path input)")
       (auto simp: evaluate_asking Let_def)
qed

lemma plan_write_paths:
  assumes "mode_value config (U ''plan'') (U ''allowed_write_paths'') = None"
  shows "mode_list (read_merged_config config p) (U ''plan'') (U ''allowed_write_paths'')
       = Some [config_dir_name @ U ''/*'']"
proof -
  have d: "mode_value default_config (U ''plan'') (U ''allowed_write_paths'')
      = Some (JArr [JStr (U ''.hoocode/*'')])"
    by (simp add: mode_value_def mode_config_def get_object_def default_config_def default_modes_def)
  then have "mode_value (with_builtin_defaults config) (U ''plan'') (U ''allowed_write_paths'')
      = Some (JArr [JStr (U ''.hoocode/*'')])"
    by (simp add: mode_value_defaults assms)
  then have "mode_value (read_merged_config config p) (U ''plan'') (U ''allowed_write_paths'')
      = Some (JArr [JStr (U ''.hoocode/*'')])"
    by (cases p) (simp_all add: read_merged_config_def mode_value_merged_write_paths)
  then show ?thesis
    by (simp add: mode_list_value is_array_def List.map_filter_simps config_dir_name_def ustr_eval)
qed

text \<open>
  C10: Plan mode confines writes. If the user's file does not set plan's write rule, then in
  plan mode every Write or Edit that the gate lets run, whatever a project's file says and
  whatever the user, the relay or skip_permissions answers, targets (with \<open>.\<close> and \<open>..\<close>
  folded) a file below the project's \<open>.hoocode\<close>, and no symbolic link leads it elsewhere.
  The path holds no backslash and the gate is not the print/json one, which asks nobody.
\<close>

theorem plan_mode_confines_writes:
  assumes "gate_check env g st tool input = (None, st')" and "is_write tool"
    and "gate_channel g \<noteq> Headless False"
    and "current_mode (merged_config st (gate_cwd g)) = U ''plan''"
    and "mode_value (global_file st) (U ''plan'') (U ''allowed_write_paths'') = None"
    and "regex_sound (rx env) (rx_escape env) (config_dir_name @ U ''/*'')"
    and "clean (gate_cwd g)" and "C CHR 0x5C \<notin> set (target_path input)"
  shows "prefix (gate_cwd g @ [Normal config_dir_name]) (lexical_abs (gate_cwd g) (target_path input))
       \<and> \<not> resolves_elsewhere (path_exists env) (canonicalize env) (gate_cwd g) (target_path input)"
proof -
  have "write_rules env (merged_config st (gate_cwd g)) (gate_cwd g) tool (target_path input) = None"
    by (rule write_needs_rules) (use assms in simp_all)
  then have m: "matches_allowed_path (rx env) (rx_escape env) (target_path input)
        [config_dir_name @ U ''/*''] (gate_cwd g)"
    and r: "\<not> resolves_elsewhere (path_exists env) (canonicalize env) (gate_cwd g) (target_path input)"
    using plan_write_paths [OF assms(5), of "project_file st (gate_cwd g)"] assms(4)
    by (auto simp: write_rules_def merged_config_def Let_def split: if_splits)
  have "dir_name config_dir_name" by (simp add: dir_name_def config_dir_name_def ustr_eval)
  from allowed_dir_confines [OF m assms(6) this assms(7,8)] r show ?thesis by blast
qed

definition plan_env :: gate_env where
  "plan_env = quiet_env\<lparr>rx := plan_regex\<rparr>"

definition plan_state :: gate_state where
  "plan_state = empty_state\<lparr>global_file := [(U ''active_mode'', JStr (U ''plan''))]\<rparr>"

definition plan_input :: json where
  "plan_input = JObj [(U ''path'', JStr (U ''.hoocode/plan.md''))]"

lemma plan_input_path: "target_path plan_input = U ''.hoocode/plan.md''"
  by (simp add: target_path_def plan_input_def mutation_path_def str_field_def nonempty_str_def)

lemma repo_clean: "clean repo"
  unfolding clean_def repo_def by (rule exI [of _ "[U ''repo'']"]) simp

lemma plan_path_components: "components (U ''.hoocode/plan.md'') = [Normal (U ''.hoocode''), Normal (U ''plan.md'')]"
  by (simp add: components_def pieces_def component_of_def ustr_eval)

lemma plan_path_allowed:
  "matches_allowed_path plan_regex (\<lambda>s. s) (U ''.hoocode/plan.md'') [U ''.hoocode/*''] repo"
  by (simp add: matches_allowed_path_def components_def pieces_def component_of_def
      pattern_matches_def candidates_def is_absolute_def plan_regex_def to_posix_def
      glob_source_def starts_with_def Let_def ustr_eval)

lemma plan_path_target:
  "lexical_abs repo (U ''.hoocode/plan.md'') = repo @ [Normal (U ''.hoocode''), Normal (U ''plan.md'')]"
  by (simp add: lexical_abs_def plan_path_components path_join_def is_absolute_def repo_def
      path_push_def)

lemma plan_path_is_no_config: "\<not> is_project_config_file repo (U ''.hoocode/plan.md'')"
proof -
  have "extension (repo @ [Normal (U ''.hoocode''), Normal (U ''plan.md'')]) = Some (U ''md'')"
    by (simp add: extension_def file_name_def ustr_eval)
  then show ?thesis
    unfolding is_project_config_file_def plan_path_target Let_def
    by (simp add: eq_ignore_ascii_case_def to_ascii_lowercase_def ustr_eval)
qed

lemma plan_write_runs:
  "gate_check plan_env (yes_gate Ui) plan_state (U ''Write'') plan_input = (None, plan_state)"
proof -
  have "\<not> resolves_elsewhere (\<lambda>p. True) Some repo (U ''.hoocode/plan.md'')"
    unfolding resolves_elsewhere_def plan_path_target Let_def
    by (simp add: existing_part.simps repo_def path_join_def is_absolute_def)
  then have "evaluate plan_env plan_state (merged_config plan_state repo) repo (U ''Write'') plan_input Ui
      = Allow"
    using plan_path_allowed plan_path_is_no_config
    by (intro pre_approved_allows)
       (simp_all add: passes_rules_def pre_approved_def plan_input_path is_write_def gate_eval
          plan_env_def quiet_env_def merged_config_def plan_state_def empty_state_def
          List.map_filter_simps)
  then show ?thesis by (simp add: gate_check_def yes_gate_def Let_def)
qed

theorem plan_mode_confines_writes_witness:
  "prefix (repo @ [Normal config_dir_name]) (lexical_abs repo (target_path plan_input))"
proof -
  have "C CHR 0x5C \<notin> set (target_path plan_input)" by (simp add: plan_input_path ustr_eval)
  moreover have "current_mode (merged_config plan_state repo) = U ''plan''"
    "mode_value (global_file plan_state) (U ''plan'') (U ''allowed_write_paths'') = None"
    by (simp_all add: gate_eval merged_config_def plan_state_def empty_state_def mode_value_def)
  moreover have "regex_sound (rx plan_env) (rx_escape plan_env) (config_dir_name @ U ''/*'')"
    using plan_regex_sound by (simp add: plan_env_def quiet_env_def)
  ultimately show ?thesis
    using plan_mode_confines_writes [OF plan_write_runs] repo_clean
    by (simp add: yes_gate_def is_write_def)
qed

section \<open>What the documents promise and the code does not\<close>

definition config_input :: json where
  "config_input = JObj [(U ''path'', JStr (U ''.hoocode/hoo-config.json''))]"

lemma config_input_path: "target_path config_input = U ''.hoocode/hoo-config.json''"
  by (simp add: target_path_def config_input_def mutation_path_def str_field_def nonempty_str_def)

lemma config_is_config: "is_project_config_file repo (U ''.hoocode/hoo-config.json'')"
proof -
  have t: "lexical_abs repo (U ''.hoocode/hoo-config.json'')
      = repo @ [Normal (U ''.hoocode''), Normal (U ''hoo-config.json'')]"
    by (simp add: lexical_abs_def components_def pieces_def component_of_def path_join_def
        is_absolute_def repo_def path_push_def ustr_eval)
  have "extension (repo @ [Normal (U ''.hoocode''), Normal (U ''hoo-config.json'')]) = Some (U ''json'')"
    by (simp add: extension_def file_name_def ustr_eval)
  then show ?thesis
    unfolding is_project_config_file_def t Let_def
    by (simp add: eq_ignore_ascii_case_def parent_def repo_def path_join_def is_absolute_def
        config_dir_name_def)
qed

text \<open>
  The print and json gate does not protect hoocode's own configuration. The
  documentation says a write to \<open>.hoocode/*.json\<close> always asks, in every mode; a gate of
  channel \<open>Headless False\<close> returns before the check, so in plan mode it lets an Edit of the
  project's \<open>hoo-config.json\<close> run.
\<close>

theorem print_gate_writes_config:
  "is_project_config_file repo (target_path config_input)
   \<and> gate_check plan_env (yes_gate (Headless False)) plan_state (U ''Edit'') config_input
     = (None, plan_state)"
  by (simp add: config_input_path config_is_config gate_check_def evaluate_headless_open
      passes_rules_def gate_eval yes_gate_def merged_config_def plan_state_def empty_state_def
      List.map_filter_simps)

lemma fetch_prompts_in_plan:
  "evaluate plan_env plan_state (merged_config plan_state repo) repo (U ''WebFetch'') fetch_input Ui
   = Prompt"
  by (simp add: gate_eval plan_env_def quiet_env_def plan_state_def empty_state_def merged_config_def
      List.map_filter_simps)

text \<open>
  One "Always" can take away a shipped one. With a global file that leaves plan's
  \<open>auto_allow\<close> out, Write is allowed in plan mode by the shipped value; after "Always" on
  WebFetch the file holds \<open>auto_allow\<close> with WebFetch alone, and Write is no longer in the
  effective list.
\<close>

theorem always_drops_shipped_rule:
  "list_has (mode_list (merged_config plan_state repo) (U ''plan'') (U ''auto_allow'')) (U ''Write'')
   \<and> \<not> list_has (mode_list (merged_config
        (snd (gate_check plan_env always_gate plan_state (U ''WebFetch'') fetch_input)) repo)
        (U ''plan'') (U ''auto_allow'')) (U ''Write'')"
proof -
  have "current_mode (merged_config plan_state repo) = U ''plan''"
    by (simp add: gate_eval merged_config_def plan_state_def empty_state_def)
  then have g: "global_file (snd (gate_check plan_env always_gate plan_state (U ''WebFetch'') fetch_input))
      = insert_mode_list (global_file plan_state) (U ''plan'') (U ''auto_allow'') (U ''WebFetch'')"
    and p: "project_file (snd (gate_check plan_env always_gate plan_state (U ''WebFetch'') fetch_input))
      = project_file plan_state"
    using fetch_prompts_in_plan
    by (simp_all add: gate_check_def always_gate_def apply_always_def notify_def write_config_def
        plan_state_def empty_state_def Let_def)
  have "mode_value (global_file plan_state) (U ''plan'') (U ''auto_allow'') = None"
    "mode_entry_ok (global_file plan_state) (U ''plan'')"
    by (simp_all add: mode_value_def mode_config_def get_object_def plan_state_def empty_state_def
        mode_entry_ok_def object_or_empty_def)
  then have "mode_list (merged_config
        (snd (gate_check plan_env always_gate plan_state (U ''WebFetch'') fetch_input)) repo)
        (U ''plan'') (U ''auto_allow'') = Some [U ''WebFetch'']"
    unfolding merged_config_def g p
    by (simp add: plan_state_def empty_state_def read_merged_config_def mode_list_value
        mode_value_defaults insert_mode_list_modes is_array_def List.map_filter_simps)
  then show ?thesis
    by (simp add: list_has_def gate_eval merged_config_def plan_state_def empty_state_def
        List.map_filter_simps)
qed


end
