(* ===== verification/Cron.thy ===== *)
theory Cron
  imports Prelude
begin

text \<open>
  \<^verbatim>\<open>crates/hoocode-code-scheduler/src/cron.rs\<close>: the 5-field cron matcher and the strict
  check of \<^verbatim>\<open>/loop\<close>. Integers are \<^verbatim>\<open>i64\<close>: the walk over a field's progression saturates, as in
  the code. The walk is a partial function (\<open>None\<close> would be a loop that never ends); the
  theorems show that it ends for every field. The calendar fields of a time are a record,
  filled in by the caller (\<^verbatim>\<open>chrono\<close> is not part of the model).
\<close>

section \<open>Numbers\<close>

definition digits_value :: "ustr \<Rightarrow> int" where
  "digits_value ds = foldl (\<lambda>a c. a * 10 + (c - 48)) 0 ds"

definition in_i64 :: "int \<Rightarrow> bool" where
  "in_i64 v \<longleftrightarrow> i64_min \<le> v \<and> v \<le> i64_max"

text \<open>\<^verbatim>\<open>str::parse::<i64>\<close>: a sign and digits, nothing else, within the type's range.\<close>

definition parse_i64 :: "ustr \<Rightarrow> int option" where
  "parse_i64 s =
     (let (neg, ds) = (case s of
            [] \<Rightarrow> (False, [])
          | c # cs \<Rightarrow> (if c = C CHR ''-'' then (True, cs)
                      else if c = C CHR ''+'' then (False, cs) else (False, s)))
      in if ds = [] \<or> \<not> list_all is_digit ds then None
         else (let v = (if neg then - digits_value ds else digits_value ds)
               in if in_i64 v then Some v else None))"

definition parse_u64 :: "ustr \<Rightarrow> nat option" where
  "parse_u64 s =
     (let ds = (case s of c # cs \<Rightarrow> (if c = C CHR ''+'' then cs else s) | [] \<Rightarrow> [])
      in if ds = [] \<or> \<not> list_all is_digit ds \<or> digits_value ds \<ge> 2 ^ 64 then None
         else Some (nat (digits_value ds)))"

definition js_parse_int :: "ustr \<Rightarrow> int option" where
  "js_parse_int str =
     (let s = trim_start str;
          (negative, digits) = (case strip_prefix s [C CHR ''-''] of
              Some rest \<Rightarrow> (True, rest)
            | None \<Rightarrow> (False, (case strip_prefix s [C CHR ''+''] of None \<Rightarrow> s | Some r \<Rightarrow> r)));
          ds = takeWhile is_digit digits
      in if ds = [] then None
         else (case parse_i64 ds of
                 None \<Rightarrow> None
               | Some v \<Rightarrow> Some (if negative then - v else v)))"

section \<open>Fields\<close>

datatype field = AnyValue | Values "int list"

fun allows :: "field \<Rightarrow> int \<Rightarrow> bool" where
  "allows AnyValue v = True"
| "allows (Values vs) v = (v \<in> set vs)"

definition split_fields :: "ustr \<Rightarrow> ustr list" where
  "split_fields expr = split_whitespace expr"

definition is_five_field :: "ustr \<Rightarrow> bool" where
  "is_five_field expr \<longleftrightarrow> length (split_fields expr) = 5"

text \<open>
  The bounds and the step one comma-separated part stands for; \<open>None\<close> is the \<^verbatim>\<open>continue\<close> that
  skips it. \<open>nth_piece\<close> is the iterator's second element.
\<close>

definition nth_piece :: "ustr list \<Rightarrow> ustr option" where
  "nth_piece ws = (case ws of _ # w # _ \<Rightarrow> Some w | _ \<Rightarrow> None)"

definition part_step :: "ustr \<Rightarrow> int option" where
  "part_step part =
     (case nth_piece (split_on (C CHR ''/'') part) of
        Some st \<Rightarrow> (if st \<noteq> [] then js_parse_int st else Some 1)
      | None \<Rightarrow> Some 1)"

definition range_bounds :: "ustr \<Rightarrow> int \<Rightarrow> int \<Rightarrow> (int \<times> int) option" where
  "range_bounds rng mn mx =
     (if rng \<noteq> [] \<and> rng \<noteq> U ''*'' then
        (let bounds = split_on (C CHR ''-'') rng
         in case js_parse_int (hd bounds) of
              None \<Rightarrow> None
            | Some lo \<Rightarrow>
                (case nth_piece bounds of
                   None \<Rightarrow> Some (lo, lo)
                 | Some b \<Rightarrow> (case js_parse_int b of None \<Rightarrow> None | Some hi \<Rightarrow> Some (lo, hi))))
      else Some (mn, mx))"

definition part_range :: "ustr \<Rightarrow> int \<Rightarrow> int \<Rightarrow> (int \<times> int \<times> int) option" where
  "part_range part mn mx =
     (case part_step part of
        None \<Rightarrow> None
      | Some st \<Rightarrow>
          (if st < 1 then None
           else (case range_bounds (hd (split_on (C CHR ''/'') part)) mn mx of
                   None \<Rightarrow> None
                 | Some (lo, hi) \<Rightarrow> Some (lo, hi, st))))"

text \<open>The jump to the first value at or above the minimum, and the walk from there.\<close>

definition walk_start :: "int \<Rightarrow> int \<Rightarrow> int \<Rightarrow> int" where
  "walk_start lo mn st =
     (if lo < mn
      then (let skipped = sat_add (sat_sub mn lo) (st - 1) div st
            in sat_add lo (sat_mul skipped st))
      else lo)"

partial_function (option) walk :: "int \<Rightarrow> int \<Rightarrow> int \<Rightarrow> int \<Rightarrow> int \<Rightarrow> int list \<Rightarrow> int list option" where
  "walk v hi mn mx st allowed =
     (if v \<le> hi \<and> v \<le> mx
      then walk (sat_add v st) hi mn mx st (if v \<ge> mn then v # allowed else allowed)
      else Some allowed)"

fun parse_parts :: "ustr list \<Rightarrow> int \<Rightarrow> int \<Rightarrow> int list \<Rightarrow> int list option" where
  "parse_parts [] mn mx allowed = Some allowed"
| "parse_parts (part # parts) mn mx allowed =
     (case part_range part mn mx of
        None \<Rightarrow> parse_parts parts mn mx allowed
      | Some (lo, hi, st) \<Rightarrow>
          Option.bind (walk (walk_start lo mn st) hi mn mx st allowed) (parse_parts parts mn mx))"

definition parse_field :: "ustr \<Rightarrow> int \<Rightarrow> int \<Rightarrow> field option" where
  "parse_field fld mn mx =
     (if fld = U ''*'' then Some AnyValue
      else map_option Values (parse_parts (split_on (C CHR '','') fld) mn mx []))"

section \<open>The strict check\<close>

definition quote_str :: "ustr \<Rightarrow> ustr" where "quote_str s = 34 # s @ [34]"

definition signed_digits :: "int \<Rightarrow> ustr" where
  "signed_digits v = (if v < 0 then C CHR ''-'' # nat_digits (nat (- v)) else nat_digits (nat v))"

text \<open>One part of \<^verbatim>\<open>check_field\<close>: \<open>Some why\<close> is the early return.\<close>

definition check_part :: "ustr \<Rightarrow> int \<Rightarrow> int \<Rightarrow> ustr option" where
  "check_part part mn mx =
     (let (rng, bad_step) = (case split_once (C CHR ''/'') part of
            None \<Rightarrow> (part, False)
          | Some (rng, st) \<Rightarrow> (rng, \<not> (case parse_i64 st of None \<Rightarrow> False | Some s \<Rightarrow> s \<ge> 1)))
      in if bad_step then Some (quote_str part @ U '' needs a step of at least 1'')
         else if rng = U ''*'' then None
         else (let (lo, hi) = (case split_once (C CHR ''-'') rng of None \<Rightarrow> (rng, rng) | Some p \<Rightarrow> p)
               in case (parse_i64 lo, parse_i64 hi) of
                    (Some lo, Some hi) \<Rightarrow>
                      (if lo < mn \<or> hi > mx \<or> lo > hi
                       then Some (quote_str part @ U '' must stay within '' @ signed_digits mn @ U ''-''
                              @ signed_digits mx)
                       else None)
                  | _ \<Rightarrow> Some (quote_str part @ U '' is not a number, a range or *'')))"

fun check_parts :: "ustr list \<Rightarrow> int \<Rightarrow> int \<Rightarrow> ustr option" where
  "check_parts [] mn mx = None"
| "check_parts (part # parts) mn mx =
     (case check_part part mn mx of Some why \<Rightarrow> Some why | None \<Rightarrow> check_parts parts mn mx)"

definition check_field :: "ustr \<Rightarrow> int \<Rightarrow> int \<Rightarrow> ustr option" where
  "check_field fld mn mx = check_parts (split_on (C CHR '','') fld) mn mx"

fun check_fields :: "(string \<times> ustr \<times> int \<times> int) list \<Rightarrow> ustr option" where
  "check_fields [] = None"
| "check_fields ((name, fld, mn, mx) # checks) =
     (case check_field fld mn mx of
        Some why \<Rightarrow> Some (U ''The '' @ U name @ U '' field '' @ quote_str fld @ U '' is not valid: ''
                      @ why @ U ''.'')
      | None \<Rightarrow> check_fields checks)"

text \<open>\<open>None\<close> is \<^verbatim>\<open>Ok(())\<close>, \<open>Some why\<close> the error.\<close>

definition validate :: "ustr \<Rightarrow> ustr option" where
  "validate expr =
     (case split_fields expr of
        [minute, hour, mday, month, dow] \<Rightarrow>
          check_fields [(''minute'', minute, 0, 59), (''hour'', hour, 0, 23),
            (''day-of-month'', mday, 1, 31), (''month'', month, 1, 12), (''day-of-week'', dow, 0, 7)]
      | _ \<Rightarrow> Some (U ''A cron expression has 5 fields (minute hour day-of-month month day-of-week): ''
               @ quote_str expr))"

section \<open>Matching a time\<close>

record caltime =
  cal_minute :: int
  cal_hour :: int
  cal_day :: int
  cal_month :: int
  cal_weekday :: int

definition field_allows :: "ustr \<Rightarrow> int \<Rightarrow> int \<Rightarrow> int \<Rightarrow> bool option" where
  "field_allows fld mn mx v = map_option (\<lambda>f. allows f v) (parse_field fld mn mx)"

text \<open>\<open>None\<close> would be a matcher that does not return.\<close>

definition cron_matches :: "ustr \<Rightarrow> caltime \<Rightarrow> bool option" where
  "cron_matches expr now =
     (case split_fields expr of
        [m, h, mday, mon, dow] \<Rightarrow>
          (case (field_allows m 0 59 (cal_minute now), field_allows h 0 23 (cal_hour now),
                 field_allows mon 1 12 (cal_month now), parse_field mday 1 31, parse_field dow 0 7) of
             (Some minute, Some hour, Some month, Some dom_field, Some dow_field) \<Rightarrow>
               (if \<not> (minute \<and> hour \<and> month) then Some False
                else let dom_restricted = (mday \<noteq> U ''*'');
                         dow_restricted = (dow \<noteq> U ''*'');
                         day_of_month = allows dom_field (cal_day now);
                         day_of_week = (allows dow_field (cal_weekday now)
                           \<or> (cal_weekday now = 0 \<and> allows dow_field 7))
                     in Some (if dom_restricted \<and> dow_restricted then day_of_month \<or> day_of_week
                              else day_of_month \<and> day_of_week))
           | _ \<Rightarrow> None)
      | _ \<Rightarrow> Some False)"

section \<open>The walk ends, and visits the progression\<close>

lemma digits_value_snoc: "digits_value (ds @ [d]) = digits_value ds * 10 + (d - 48)"
  by (simp add: digits_value_def)

lemma digits_value_nonneg: "list_all is_digit ds \<Longrightarrow> 0 \<le> digits_value ds"
  by (induction ds rule: rev_induct) (auto simp: digits_value_snoc is_digit_def, simp add: digits_value_def)

lemma nat_digits_read: "list_all is_digit (nat_digits n) \<and> nat_digits n \<noteq> [] \<and> digits_value (nat_digits n) = int n"
proof (induction n rule: nat_digits.induct)
  case (1 n)
  show ?case
  proof (cases "n < 10")
    case True
    then show ?thesis by (simp add: nat_digits.simps [of n] is_digit_def digits_value_def)
  next
    case False
    with 1 have "list_all is_digit (nat_digits (n div 10))" "digits_value (nat_digits (n div 10)) = int (n div 10)"
      by auto
    moreover have "int (n div 10) * 10 + int (n mod 10) = int n" by presburger
    moreover have "is_digit (48 + int (n mod 10))" unfolding is_digit_def by presburger
    ultimately show ?thesis using False by (simp add: nat_digits.simps [of n] digits_value_snoc)
  qed
qed

lemma takeWhile_all: "list_all P (takeWhile P xs)"
  by (induction xs) auto

text \<open>The values of a progression inside two bounds.\<close>

definition progression :: "int \<Rightarrow> int \<Rightarrow> int \<Rightarrow> int \<Rightarrow> int \<Rightarrow> int set" where
  "progression lo hi st mn mx = {v. lo \<le> v \<and> v \<le> hi \<and> mn \<le> v \<and> v \<le> mx \<and> st dvd (v - lo)}"


lemma js_parse_int_range:
  assumes "js_parse_int s = Some v"
  shows "in_i64 v" and "C CHR ''-'' \<notin> set s \<Longrightarrow> 0 \<le> v"
proof -
  let ?neg = "case strip_prefix (trim_start s) [C CHR ''-''] of Some rest \<Rightarrow> (True, rest)
     | None \<Rightarrow> (False, (case strip_prefix (trim_start s) [C CHR ''+''] of
          None \<Rightarrow> trim_start s | Some r \<Rightarrow> r))"
  obtain negative digits where nd: "?neg = (negative, digits)" by (cases ?neg)
  let ?ds = "takeWhile is_digit digits"
  from assms nd obtain w where w: "parse_i64 ?ds = Some w" "v = (if negative then - w else w)"
    by (auto simp: js_parse_int_def Let_def split: if_splits option.splits)
  have dig: "list_all is_digit ?ds" by (rule takeWhile_all)
  then have "hd ?ds \<noteq> C CHR ''-''" "hd ?ds \<noteq> C CHR ''+''" if "?ds \<noteq> []"
    using that by (cases ?ds; auto simp: is_digit_def ustr_eval)+
  with w(1) dig have "w = digits_value ?ds" "in_i64 w"
    by (auto simp: parse_i64_def Let_def split: list.splits if_splits)
  with digits_value_nonneg [OF dig] have w0: "0 \<le> w" "w \<le> i64_max" by (auto simp: in_i64_def)
  with w(2) show "in_i64 v" by (auto simp: in_i64_def i64_defs)
  assume "C CHR ''-'' \<notin> set s"
  moreover have "set (trim_start s) \<subseteq> set s" by (auto simp: trim_start_def dest: set_dropWhileD)
  ultimately have "\<not> prefix [C CHR ''-''] (trim_start s)" by (auto simp: prefix_def)
  with nd have "\<not> negative" by (auto simp: strip_prefix_def)
  with w(2) w0 show "0 \<le> v" by simp
qed

lemma walk_progression:
  assumes "1 \<le> st" and "st \<le> i64_max" and "mx < i64_max" and "0 \<le> v"
  shows "\<exists>vs. walk v hi mn mx st acc = Some vs \<and> set vs = set acc \<union> progression v hi st mn mx"
  using assms
proof (induction "nat (mx + 1 - v)" arbitrary: v acc rule: less_induct)
  case less
  show ?case
  proof (cases "v \<le> hi \<and> v \<le> mx")
    case False
    then have "progression v hi st mn mx = {}" by (auto simp: progression_def)
    moreover from False have "walk v hi mn mx st acc = Some acc" by (subst walk.simps) auto
    ultimately show ?thesis by simp
  next
    case True
    let ?n = "sat_add v st"
    have "?n = min i64_max (v + st)"
      using less.prems by (simp add: sat_add_def i64_sat_def i64_min_def)
    then have n: "?n = v + st \<or> (?n = i64_max \<and> i64_max \<le> v + st)" "0 \<le> ?n" "v < ?n"
      using less.prems True by auto
    have split: "progression v hi st mn mx = (if mn \<le> v then {v} else {}) \<union> progression (v + st) hi st mn mx"
    proof -
      have "v + st \<le> w" if "st dvd (w - v)" "v \<le> w" "w \<noteq> v" for w
        using zdvd_imp_le [OF that(1)] that by simp
      moreover have "st dvd (w - (v + st)) \<longleftrightarrow> st dvd (w - v)" for w
        using dvd_add_triv_right_iff [of st "w - (v + st)"] by simp
      ultimately show ?thesis
        using True less.prems by (auto simp: progression_def)
    qed
    have same: "progression ?n hi st mn mx = progression (v + st) hi st mn mx"
      using n(1) less.prems(3) by (auto simp: progression_def)
    have "nat (mx + 1 - ?n) < nat (mx + 1 - v)" using n(3) True by simp
    from less.hyps [OF this less.prems(1-3) n(2), of "if mn \<le> v then v # acc else acc"]
    obtain vs where vs: "walk ?n hi mn mx st (if mn \<le> v then v # acc else acc) = Some vs"
      "set vs = set (if mn \<le> v then v # acc else acc) \<union> progression ?n hi st mn mx" by blast
    from True have "walk v hi mn mx st acc = walk ?n hi mn mx st (if mn \<le> v then v # acc else acc)"
      by (subst walk.simps) auto
    with vs show ?thesis unfolding same split by auto
  qed
qed

definition part_values :: "ustr \<Rightarrow> int \<Rightarrow> int \<Rightarrow> int set" where
  "part_values part mn mx =
     (case part_range part mn mx of None \<Rightarrow> {} | Some (lo, hi, st) \<Rightarrow> progression lo hi st mn mx)"

lemma part_range_bounds:
  assumes "part_range part mn mx = Some (lo, hi, st)" and "0 \<le> mn"
  shows "0 \<le> lo" and "1 \<le> st" and "st \<le> i64_max"
proof -
  from assms(1) have st: "part_step part = Some st" "1 \<le> st"
    and rb: "range_bounds (hd (split_on (C CHR ''/'') part)) mn mx = Some (lo, hi)"
    by (auto simp: part_range_def split: option.splits if_splits)
  from st(1) js_parse_int_range(1) have "in_i64 st"
    by (auto simp: part_step_def in_i64_def i64_defs split: option.splits if_splits)
  with st show "1 \<le> st" "st \<le> i64_max" by (auto simp: in_i64_def)
  let ?r = "hd (split_on (C CHR ''/'') part)"
  have "C CHR ''-'' \<notin> set (hd (split_on (C CHR ''-'') ?r))"
    by (rule split_on_no_sep [of _ _ ?r]) simp
  with rb assms(2) show "0 \<le> lo"
    by (auto simp: range_bounds_def Let_def dest: js_parse_int_range(2) split: option.splits if_splits)
qed

lemma walk_start_progression:
  assumes "0 \<le> lo" and "1 \<le> st" and "st \<le> i64_max" and "0 \<le> mn" and "mn \<le> 1"
  shows "progression (walk_start lo mn st) hi st mn mx = progression lo hi st mn mx \<and> 0 \<le> walk_start lo mn st"
proof (cases "lo < mn")
  case False
  with assms show ?thesis by (simp add: walk_start_def)
next
  case True
  with assms have b: "lo = 0" "mn = 1" by auto
  have sat: "i64_sat x = x" if "0 \<le> x" "x \<le> i64_max" for x
    using that by (intro sat_in_range) (simp_all add: i64_min_def)
  have w: "walk_start lo mn st = st"
    unfolding walk_start_def b sat_add_def sat_sub_def sat_mul_def
    using assms(2,3) sat [of 1] sat [of st] by (simp add: i64_max_def)
  have up: "st \<le> w" if "st dvd w" "1 \<le> w" for w
    using zdvd_imp_le [OF that(1)] that(2) by simp
  have dv: "st dvd (w - st) \<longleftrightarrow> st dvd w" for w
    using dvd_add_triv_right_iff [of st "w - st"] by simp
  have "v \<in> progression st hi st 1 mx \<longleftrightarrow> v \<in> progression 0 hi st 1 mx" for v
    using assms(2) up [of v] by (auto simp: progression_def dv)
  with w b assms(2) show ?thesis by auto
qed

lemma parse_parts_values:
  assumes "0 \<le> mn" and "mn \<le> 1" and "mx < i64_max"
  shows "\<exists>vs. parse_parts parts mn mx acc = Some vs
       \<and> set vs = set acc \<union> (\<Union>part \<in> set parts. part_values part mn mx)"
proof (induction parts arbitrary: acc)
  case Nil
  show ?case by simp
next
  case (Cons part parts)
  show ?case
  proof (cases "part_range part mn mx")
    case None
    with Cons.IH [of acc] show ?thesis by (auto simp: part_values_def)
  next
    case (Some r)
    obtain lo hi st where r: "r = (lo, hi, st)" by (cases r)
    note b = part_range_bounds [OF Some [unfolded r] assms(1)]
    note ws = walk_start_progression [OF b assms(1,2), of hi mx]
    from walk_progression [OF b(2,3) assms(3), of "walk_start lo mn st" hi mn acc] ws
    obtain vs where vs: "walk (walk_start lo mn st) hi mn mx st acc = Some vs"
      "set vs = set acc \<union> progression lo hi st mn mx" by auto
    with Cons.IH [of vs] Some r show ?thesis by (auto simp: part_values_def)
  qed
qed

text \<open>
  \<open>parse_field\<close> always returns and allows exactly the progressions written. For a field's
  range with a minimum of 0 or 1 and any maximum below the largest \<^verbatim>\<open>i64\<close>, the field allows
  a value if and only if it is \<open>*\<close>, or one of its comma-separated parts reads as bounds and
  a step whose progression meets the value inside the range; the saturating walk never
  loops and never loses or adds a value, however large the numbers written.
\<close>

theorem parse_field_exact:
  assumes "0 \<le> mn" and "mn \<le> 1" and "mx < i64_max"
  shows "\<exists>f. parse_field fld mn mx = Some f
    \<and> (\<forall>v. allows f v \<longleftrightarrow> fld = U ''*'' \<or> (\<exists>part \<in> set (split_on (C CHR '','') fld). v \<in> part_values part mn mx))"
  using parse_parts_values [OF assms, of "split_on (C CHR '','') fld" "[]"]
  by (auto simp: parse_field_def)

theorem parse_field_exact_witness:
  "\<exists>f. parse_field (U ''5-40/10'') 0 59 = Some f
    \<and> (\<forall>v. allows f v \<longleftrightarrow> (\<exists>part \<in> set (split_on (C CHR '','') (U ''5-40/10'')). v \<in> part_values part 0 59))"
  using parse_field_exact [of 0 59 "U ''5-40/10''"] by (simp add: i64_max_def)


section \<open>The matcher returns for every expression\<close>

lemma parse_field_Some: "0 \<le> mn \<Longrightarrow> mn \<le> 1 \<Longrightarrow> mx < 100 \<Longrightarrow> \<exists>f. parse_field fld mn mx = Some f"
  using parse_parts_values [of mn mx "split_on (C CHR '','') fld" "[]"]
  by (auto simp: parse_field_def i64_max_def)

text \<open>
  The matcher returns for every stored expression and every time; no expression, however
  written, makes a tick hang.
\<close>

theorem cron_matches_returns: "\<exists>b. cron_matches expr now = Some b"
proof (cases "\<exists>m h mday mon dow. split_fields expr = [m, h, mday, mon, dow]")
  case True
  then obtain m h mday mon dow where f: "split_fields expr = [m, h, mday, mon, dow]" by blast
  obtain a b c d e where "parse_field m 0 59 = Some a" "parse_field h 0 23 = Some b"
    "parse_field mon 1 12 = Some c" "parse_field mday 1 31 = Some d" "parse_field dow 0 7 = Some e"
    using parse_field_Some [of 0 59 m] parse_field_Some [of 0 23 h] parse_field_Some [of 1 12 mon]
      parse_field_Some [of 1 31 mday] parse_field_Some [of 0 7 dow] by auto
  then show ?thesis by (auto simp: cron_matches_def f field_allows_def Let_def)
next
  case False
  then show ?thesis by (auto simp: cron_matches_def split: list.split)
qed

definition cron_hit :: "ustr \<Rightarrow> caltime \<Rightarrow> bool" where
  "cron_hit expr now \<longleftrightarrow> cron_matches expr now = Some True"

section \<open>What the strict check accepts, the matcher reads as written\<close>

text \<open>The bounds and the step a part has when its numbers are read strictly.\<close>

definition strict_range :: "ustr \<Rightarrow> int \<Rightarrow> int \<Rightarrow> int \<times> int \<times> int" where
  "strict_range part mn mx =
     (let (rng, st) = (case split_once (C CHR ''/'') part of
            None \<Rightarrow> (part, 1) | Some (rng, s) \<Rightarrow> (rng, the (parse_i64 s)));
          (lo, hi) = (if rng = U ''*'' then (mn, mx)
                      else (case split_once (C CHR ''-'') rng of
                              None \<Rightarrow> (the (parse_i64 rng), the (parse_i64 rng))
                            | Some (a, b) \<Rightarrow> (the (parse_i64 a), the (parse_i64 b))))
      in (lo, hi, st))"

lemma split_on_append: "c \<notin> set a \<Longrightarrow> split_on c (a @ c # b) = a # split_on c b"
  by (induction a) auto

lemma split_once_Some:
  "split_once c s = Some (a, b) \<Longrightarrow> s = a @ c # b \<and> split_on c s = a # split_on c b"
proof -
  assume "split_once c s = Some (a, b)"
  then have c: "c \<in> set s" "a = takeWhile (\<lambda>x. x \<noteq> c) s" "b = tl (dropWhile (\<lambda>x. x \<noteq> c) s)"
    by (auto simp: split_once_def split: if_splits)
  let ?d = "dropWhile (\<lambda>x. x \<noteq> c) s"
  from c(1) have ne: "?d \<noteq> []" by (auto simp: dropWhile_eq_Nil_conv)
  with hd_dropWhile [of "\<lambda>x. x \<noteq> c" s] have "?d = c # tl ?d" by (cases ?d) auto
  with c(2,3) have "s = a @ c # b"
    using takeWhile_dropWhile_id [of "\<lambda>x. x \<noteq> c" s] by simp
  moreover have "c \<notin> set a" using c(2) by (auto dest: set_takeWhileD)
  ultimately show ?thesis by (simp add: split_on_append)
qed

lemma split_once_None: "split_once c s = None \<Longrightarrow> c \<notin> set s"
  by (auto simp: split_once_def split: if_splits)

lemma parse_i64_chars:
  assumes "parse_i64 s = Some v"
  shows "s \<noteq> []" and "\<And>x. x \<in> set (tl s) \<Longrightarrow> is_digit x"
    and "is_digit (hd s) \<or> hd s = C CHR ''-'' \<or> hd s = C CHR ''+''"
  using assms by (cases s; auto simp: parse_i64_def Let_def list_all_iff split: if_splits)+

lemma takeWhile_digits: "list_all is_digit ds \<Longrightarrow> takeWhile is_digit ds = ds"
  by (simp add: takeWhile_eq_all_conv list_all_iff)

lemma js_parse_strict:
  assumes "parse_i64 s = Some v" and "0 \<le> v"
  shows "js_parse_int s = Some v"
proof -
  obtain c cs where s: "s = c # cs" using parse_i64_chars(1) [OF assms(1)] by (cases s) auto
  have sign: "is_digit c \<or> c = C CHR ''-'' \<or> c = C CHR ''+''" using parse_i64_chars(3) [OF assms(1)] s by simp
  then have tr: "trim_start s = s"
    using s by (auto simp: trim_start_def is_ws_def is_digit_def ustr_eval)
  have num: "parse_i64 ds = Some (digits_value ds)"
    if "ds \<noteq> []" "list_all is_digit ds" "digits_value ds \<le> i64_max" for ds
    using that digits_value_nonneg [OF that(2)]
    by (cases ds) (auto simp: parse_i64_def in_i64_def i64_min_def is_digit_def ustr_eval)
  have js: "js_parse_int s = (let ds = takeWhile is_digit digits in if ds = [] then None
      else (case parse_i64 ds of None \<Rightarrow> None | Some v \<Rightarrow> Some (if negative then - v else v)))"
    if "(c = C CHR ''-'' \<and> negative \<and> digits = cs) \<or> (c = C CHR ''+'' \<and> \<not> negative \<and> digits = cs)
        \<or> (is_digit c \<and> \<not> negative \<and> digits = s)" for negative digits
    using that unfolding js_parse_int_def tr Let_def unfolding s
    by (elim disjE; elim conjE; simp add: strip_prefix_def is_digit_def ustr_eval
        split: option.split)
  show ?thesis
  proof (cases "is_digit c")
    case True
    with assms(1) s have "list_all is_digit s" "digits_value s = v" "v \<le> i64_max"
      by (auto simp: parse_i64_def Let_def is_digit_def in_i64_def ustr_eval split: if_splits)
    moreover from True have "js_parse_int s = (let ds = takeWhile is_digit s in if ds = [] then None
        else (case parse_i64 ds of None \<Rightarrow> None | Some v \<Rightarrow> Some (if False then - v else v)))"
      by (intro js) simp
    moreover have "s \<noteq> []" using s by simp
    ultimately show ?thesis using num [of s] by (simp add: takeWhile_digits)
  next
    case False
    with assms(1) s sign have cs: "cs \<noteq> []" "list_all is_digit cs"
      and v: "v = (if c = C CHR ''-'' then - digits_value cs else digits_value cs)" "v \<le> i64_max"
      by (auto simp: parse_i64_def Let_def in_i64_def ustr_eval split: if_splits)
    with assms(2) digits_value_nonneg [OF cs(2)] have "digits_value cs \<le> i64_max"
      by (auto simp: i64_max_def split: if_splits)
    with num [OF cs] js [of "c = C CHR ''-''" cs] sign False v cs assms(2) digits_value_nonneg [OF cs(2)]
    show ?thesis by (auto simp: takeWhile_digits split: if_splits)
  qed
qed


lemma sublist_split_on: "w \<in> set (split_on c s) \<Longrightarrow> sublist w s"
proof -
  have "prefix (hd (split_on c s)) s \<and> (\<forall>w \<in> set (split_on c s). sublist w s)"
  proof (induction s)
    case Nil
    show ?case by simp
  next
    case (Cons x xs)
    obtain w ws where "split_on c xs = w # ws" by (cases "split_on c xs") auto
    with Cons show ?case by (auto simp: sublist_Cons_right)
  qed
  then show "w \<in> set (split_on c s) \<Longrightarrow> sublist w s" by blast
qed

text \<open>The part before a dash holds no dash, and after it comes no second one.\<close>

lemma strict_bound:
  assumes "split_once (C CHR ''-'') rng = Some (a, b)" and "parse_i64 b = Some v"
    and "\<not> sublist (U ''--'') rng"
  shows "hd (split_on (C CHR ''-'') b) = b"
proof -
  from split_once_Some [OF assms(1)] have r: "rng = a @ C CHR ''-'' # b" by simp
  have "C CHR ''-'' \<noteq> hd b"
  proof
    assume "C CHR ''-'' = hd b"
    with parse_i64_chars(1) [OF assms(2)] have "b = C CHR ''-'' # tl b" by (cases b) auto
    then have "rng = a @ U ''--'' @ tl b" using r by (simp add: ustr_eval)
    then have "sublist (U ''--'') rng" by (metis sublist_appendI)
    with assms(3) show False by simp
  qed
  moreover have "C CHR ''-'' \<notin> set (tl b)"
    using parse_i64_chars(2) [OF assms(2), of "C CHR ''-''"] by (auto simp: is_digit_def ustr_eval)
  ultimately have "C CHR ''-'' \<notin> set b"
    using parse_i64_chars(1) [OF assms(2)] by (cases b) auto
  then show ?thesis by (simp add: split_on_single)
qed

lemma check_part_bounds:
  assumes "check_part part mn mx = None" and "0 \<le> mn" and "mn \<le> mx" and "\<not> sublist (U ''--'') part"
    and r: "(rng, st) = (case split_once (C CHR ''/'') part of None \<Rightarrow> (part, 1) | Some (g, s) \<Rightarrow> (g, the (parse_i64 s)))"
  shows "\<exists>lo hi. range_bounds rng mn mx = Some (lo, hi) \<and> mn \<le> lo \<and> lo \<le> hi \<and> hi \<le> mx
    \<and> strict_range part mn mx = (lo, hi, st)"
proof (cases "rng = U ''*''")
  case True
  then show ?thesis
    using assms(3) by (simp add: range_bounds_def strict_range_def r [symmetric])
next
  case False
  have sub: "\<not> sublist (U ''--'') rng"
  proof (cases "split_once (C CHR ''/'') part")
    case None
    with r assms(4) show ?thesis by simp
  next
    case (Some p)
    obtain g s where "p = (g, s)" by (cases p)
    with Some r split_once_Some [of _ part g s] have "part = rng @ C CHR ''/'' # s" by auto
    then have "sublist rng part" by simp
    with assms(4) show ?thesis using sublist_order.order_trans by blast
  qed
  let ?lh = "case split_once (C CHR ''-'') rng of None \<Rightarrow> (rng, rng) | Some p \<Rightarrow> p"
  obtain a b where ab: "?lh = (a, b)" by (cases ?lh)
  have "(case (parse_i64 a, parse_i64 b) of (Some lo, Some hi) \<Rightarrow> \<not> (lo < mn \<or> hi > mx \<or> lo > hi) | _ \<Rightarrow> False)"
    using assms(1) False r ab
    by (auto simp: check_part_def Let_def split: option.splits prod.splits if_splits)
  then obtain lo hi where lh: "parse_i64 a = Some lo" "parse_i64 b = Some hi"
    "mn \<le> lo" "lo \<le> hi" "hi \<le> mx" by (auto split: option.splits)
  with assms(2) have js: "js_parse_int a = Some lo" "js_parse_int b = Some hi"
    by (auto intro: js_parse_strict)
  have "range_bounds rng mn mx = Some (lo, hi)"
  proof (cases "split_once (C CHR ''-'') rng")
    case None
    with ab have eq: "a = rng" "b = rng" by auto
    with lh(1,2) have "lo = hi" by simp
    with eq js False parse_i64_chars(1) [OF lh(1)] split_once_None [OF None] show ?thesis
      by (simp add: range_bounds_def split_on_single nth_piece_def)
  next
    case (Some p)
    with ab have p: "split_once (C CHR ''-'') rng = Some (a, b)" by simp
    obtain w ws where ws: "split_on (C CHR ''-'') b = w # ws" by (cases "split_on (C CHR ''-'') b") auto
    with strict_bound [OF p lh(2) sub] have "w = b" by simp
    with split_once_Some [OF p] ws js False show ?thesis
      by (auto simp: range_bounds_def nth_piece_def)
  qed
  moreover have "strict_range part mn mx = (lo, hi, st)"
    using False ab lh by (auto simp: strict_range_def r [symmetric] split: option.splits prod.splits)
  ultimately show ?thesis using lh by blast
qed

lemma check_part_step:
  assumes "check_part part mn mx = None"
    and r: "(rng, st) = (case split_once (C CHR ''/'') part of None \<Rightarrow> (part, 1) | Some (g, s) \<Rightarrow> (g, the (parse_i64 s)))"
  shows "part_step part = Some st \<and> 1 \<le> st \<and> hd (split_on (C CHR ''/'') part) = rng"
proof (cases "split_once (C CHR ''/'') part")
  case None
  with r split_once_None [OF None] show ?thesis by (simp add: part_step_def split_on_single nth_piece_def)
next
  case (Some p)
  obtain g s where p: "p = (g, s)" by (cases p)
  with Some r assms(1) obtain v where v: "parse_i64 s = Some v" "1 \<le> v" "st = v" "rng = g"
    by (auto simp: check_part_def Let_def split: if_splits option.splits)
  have "C CHR ''/'' \<notin> set (tl s)" "C CHR ''/'' \<noteq> hd s"
    using parse_i64_chars(2) [OF v(1), of "C CHR ''/''"] parse_i64_chars(3) [OF v(1)]
    by (auto simp: is_digit_def ustr_eval)
  then have "C CHR ''/'' \<notin> set s" using parse_i64_chars(1) [OF v(1)] by (cases s) auto
  with split_once_Some [of _ part g s] Some p v js_parse_strict [OF v(1)] parse_i64_chars(1) [OF v(1)]
  show ?thesis by (auto simp: part_step_def split_on_single nth_piece_def)
qed

lemma check_parts_None: "check_parts parts mn mx = None \<longleftrightarrow> (\<forall>p \<in> set parts. check_part p mn mx = None)"
  by (induction parts) (auto split: option.split)

text \<open>
  C40: What the strict check accepts, the lenient matcher reads as written. If \<open>check_field\<close>
  accepts a field that holds no two dashes in a row, the matcher skips none of its parts:
  each contributes the progression of its strictly read bounds and step, which lie inside
  the field's range, so each part allows at least one value.
\<close>

theorem checked_field_read_as_written:
  assumes "check_field fld mn mx = None" and "\<not> contains_str fld (U ''--'')"
    and "0 \<le> mn" and "mn \<le> mx" and "part \<in> set (split_on (C CHR '','') fld)"
  shows "part_range part mn mx = Some (strict_range part mn mx)
    \<and> (case strict_range part mn mx of (lo, hi, st) \<Rightarrow> mn \<le> lo \<and> lo \<le> hi \<and> hi \<le> mx \<and> 1 \<le> st)
    \<and> part_values part mn mx \<noteq> {}"
proof -
  have c: "check_part part mn mx = None"
    using assms(1,5) by (simp add: check_field_def check_parts_None)
  have sub: "\<not> sublist (U ''--'') part"
    using assms(2) sublist_split_on [OF assms(5)] sublist_order.order_trans by (auto simp: contains_str_def)
  obtain rng st where r: "(rng, st) = (case split_once (C CHR ''/'') part of
      None \<Rightarrow> (part, 1) | Some (g, s) \<Rightarrow> (g, the (parse_i64 s)))"
    by (metis surj_pair)
  from check_part_bounds [OF c assms(3,4) sub r] obtain lo hi where
    b: "range_bounds rng mn mx = Some (lo, hi)" "mn \<le> lo" "lo \<le> hi" "hi \<le> mx"
      "strict_range part mn mx = (lo, hi, st)" by blast
  from check_part_step [OF c r] b have pr: "part_range part mn mx = Some (lo, hi, st)" "1 \<le> st"
    by (auto simp: part_range_def)
  moreover from pr b have "lo \<in> part_values part mn mx"
    by (simp add: part_values_def progression_def)
  ultimately show ?thesis using b by auto
qed

theorem checked_field_read_as_written_witness:
  "part_range (U ''10-30/5'') 0 59 = Some (strict_range (U ''10-30/5'') 0 59)"
proof -
  have "check_field (U ''0,10-30/5'') 0 59 = None"
    by (simp add: check_field_def check_part_def split_once_def parse_i64_def digits_value_def
        is_digit_def in_i64_def i64_max_def i64_min_def Let_def ustr_eval)
  moreover have "\<not> contains_str (U ''0,10-30/5'') (U ''--'')"
    by (simp add: contains_str_def ustr_eval)
  moreover have "U ''10-30/5'' \<in> set (split_on (C CHR '','') (U ''0,10-30/5''))"
    by (simp add: ustr_eval)
  ultimately show ?thesis using checked_field_read_as_written [of _ 0 59] by auto
qed

text \<open>
  The exception is real. \<^verbatim>\<open>/loop\<close> accepts \<open>0--0 * * * *\<close> (the strict check reads the second
  bound as minus zero), but the matcher skips that part, so the task never fires.
\<close>

theorem double_dash_never_fires:
  "validate (U ''0--0 * * * *'') = None \<and> cron_matches (U ''0--0 * * * *'') now = Some False"
proof
  show "validate (U ''0--0 * * * *'') = None"
    by (simp add: validate_def split_fields_def split_whitespace_def is_ws_def check_field_def
        check_part_def split_once_def parse_i64_def digits_value_def
        is_digit_def in_i64_def i64_max_def i64_min_def Let_def ustr_eval)
  have "parse_field (U ''0--0'') 0 59 = Some (Values [])"
    by (simp add: parse_field_def part_range_def part_step_def nth_piece_def range_bounds_def
        js_parse_int_def trim_start_def is_ws_def strip_prefix_def parse_i64_def digits_value_def
        is_digit_def in_i64_def i64_max_def i64_min_def Let_def ustr_eval)
  then show "cron_matches (U ''0--0 * * * *'') now = Some False"
    by (simp add: cron_matches_def split_fields_def split_whitespace_def is_ws_def field_allows_def
        parse_field_def ustr_eval)
qed

end
