(* ===== verification/Schedule_Store.thy ===== *)
theory Schedule_Store
  imports Cron "HOL-Library.Word"
begin

text \<open>
  \<^verbatim>\<open>crates/hoocode-code-scheduler/src/store.rs\<close>: the scheduled-task store and the claim of a
  tick. The file is the list of tasks; a store acts for an owner (pid and session). What the
  code takes from outside is an argument: the calendar \<open>cal\<close> (the local calendar fields of an
  epoch minute), \<open>alive\<close> (is a pid running), \<open>held\<close> (was the lock file taken), \<open>writable\<close> (does
  the write of the file succeed), the clock and the counter behind a new id.
\<close>

record scheduled_task =
  job_id :: ustr
  job_cron :: ustr
  job_prompt :: ustr
  recurring :: bool
  created_at :: nat
  last_run_minute :: "int option"
  owner_pid :: nat
  owner_session_id :: "ustr option"
  fire_count :: nat

record owner =
  pid :: nat
  session_id :: "ustr option"

definition late_fire_minutes :: int where "late_fire_minutes = 10"
definition lookback_minutes :: int where "lookback_minutes = 24 * 60"

section \<open>The text of a fire\<close>

definition is_slash_prompt :: "ustr \<Rightarrow> bool" where
  "is_slash_prompt prompt \<longleftrightarrow> starts_with (trim_start prompt) (U ''/'')"

text \<open>U+23F0 is the alarm clock the line starts with.\<close>

definition fire_message :: "ustr \<Rightarrow> ustr \<Rightarrow> bool \<Rightarrow> ustr \<Rightarrow> ustr" where
  "fire_message i c rec prompt =
     (if is_slash_prompt prompt then prompt
      else 9200 # U '' Scheduled task '' @ i @ U '' ('' @ c @ U '', ''
           @ (if rec then U ''recurring'' else U ''once'') @ U '')'' @ [10] @ prompt)"

record fired =
  fired_id :: ustr
  fired_cron :: ustr
  fired_recurring :: bool
  fired_prompt :: ustr

definition fired_message :: "fired \<Rightarrow> ustr" where
  "fired_message f = fire_message (fired_id f) (fired_cron f) (fired_recurring f) (fired_prompt f)"

record adopted =
  adopted_id :: ustr
  previous_pid :: nat
  previous_session :: "ustr option"

record claimed =
  fired_tasks :: "fired list"
  fired_jobs :: "scheduled_task list"
  skipped :: "ustr list"
  adoptions :: "adopted list"

definition claimed_default :: claimed where
  "claimed_default = \<lparr>fired_tasks = [], fired_jobs = [], skipped = [], adoptions = []\<rparr>"

section \<open>Ids\<close>

definition digit36 :: "nat \<Rightarrow> uchar" where
  "digit36 d = (if d < 10 then 48 + int d else 87 + int d)"

fun base36_go :: "nat \<Rightarrow> ustr" where
  "base36_go n = (if n = 0 then [] else base36_go (n div 36) @ [digit36 (n mod 36)])"

declare base36_go.simps [simp del]

definition to_base36 :: "nat \<Rightarrow> ustr" where
  "to_base36 n = (if n = 0 then U ''0'' else base36_go n)"

text \<open>\<open>counter\<close> is the process counter before this id.\<close>

definition new_id :: "nat \<Rightarrow> nat \<Rightarrow> ustr" where
  "new_id now_millis counter = U ''task_'' @ to_base36 now_millis @ to_base36 (counter + 1)"

section \<open>Creating and deleting\<close>

text \<open>\<open>None\<close> is the I/O error. Both run with or without the lock file.\<close>

definition new_task :: "owner \<Rightarrow> nat \<Rightarrow> nat \<Rightarrow> ustr \<Rightarrow> ustr \<Rightarrow> bool \<Rightarrow> scheduled_task" where
  "new_task own now_millis counter c prompt rec =
     \<lparr>job_id = new_id now_millis counter, job_cron = c, job_prompt = prompt,
      recurring = rec, created_at = now_millis, last_run_minute = None,
      owner_pid = pid own, owner_session_id = session_id own, fire_count = 0\<rparr>"

definition create_task ::
  "owner \<Rightarrow> nat \<Rightarrow> nat \<Rightarrow> bool \<Rightarrow> ustr \<Rightarrow> ustr \<Rightarrow> bool \<Rightarrow> scheduled_task list
   \<Rightarrow> scheduled_task option \<times> scheduled_task list" where
  "create_task own now_millis counter writable c prompt rec file =
     (let task = new_task own now_millis counter c prompt rec
      in if writable then (Some task, file @ [task]) else (None, file))"

definition delete_task ::
  "bool \<Rightarrow> ustr \<Rightarrow> scheduled_task list \<Rightarrow> bool option \<times> scheduled_task list" where
  "delete_task writable i file =
     (let tasks = filter (\<lambda>t. job_id t \<noteq> i) file; removed = (length tasks < length file)
      in if removed then (if writable then (Some True, tasks) else (None, file))
         else (Some False, file))"

section \<open>Due minutes\<close>

text \<open>
  The latest minute of \<open>lowest..now\<close> at which the expression matches; the search goes down
  from \<open>now\<close>. A minute's calendar fields are those of \<^verbatim>\<open>now\<close> less the difference in minutes.
\<close>

function search_due :: "(int \<Rightarrow> caltime) \<Rightarrow> ustr \<Rightarrow> int \<Rightarrow> int \<Rightarrow> int option" where
  "search_due cal c lowest minute =
     (if minute < lowest then None
      else if cron_matches c (cal minute) = Some True then Some minute
      else search_due cal c lowest (minute - 1))"
  by pat_completeness auto
termination
  by (relation "measure (\<lambda>(cal, c, lowest, minute). nat (minute - lowest + 1))") auto

declare search_due.simps [simp del]

definition latest_due_minute :: "(int \<Rightarrow> caltime) \<Rightarrow> ustr \<Rightarrow> int \<Rightarrow> int \<Rightarrow> int option" where
  "latest_due_minute cal c now_minute floor_minute =
     search_due cal c (max floor_minute (now_minute - lookback_minutes)) now_minute"

text \<open>
  \<^verbatim>\<open>minute + 1\<close> on \<^verbatim>\<open>i64\<close>, with the wrap of a release build (a debug build panics on the
  largest value, which only a hand-edited store holds).
\<close>

definition i64_succ :: "int \<Rightarrow> int" where
  "i64_succ m = (if m = i64_max then i64_min else m + 1)"

definition due_floor :: "scheduled_task \<Rightarrow> int" where
  "due_floor t =
     (let created_minute = min i64_max (int (created_at t div 60000))
      in case last_run_minute t of
           None \<Rightarrow> created_minute
         | Some m \<Rightarrow> max (i64_succ m) created_minute)"

section \<open>One tick\<close>

text \<open>What the loop does with the task's owner: \<open>None\<close> leaves the task alone.\<close>

definition take_task ::
  "owner \<Rightarrow> (nat \<Rightarrow> bool) \<Rightarrow> scheduled_task \<Rightarrow> (scheduled_task \<times> adopted list) option" where
  "take_task own alive t =
     (if owner_pid t = pid own then
        Some (if session_id own \<noteq> None \<and> owner_session_id t \<noteq> session_id own
              then t\<lparr>owner_session_id := session_id own\<rparr> else t, [])
      else if alive (owner_pid t) then None
      else Some (t\<lparr>owner_pid := pid own, owner_session_id := session_id own\<rparr>,
                 [\<lparr>adopted_id = job_id t, previous_pid = owner_pid t,
                   previous_session = owner_session_id t\<rparr>]))"

text \<open>
  One round of the loop: the task afterwards, the claim so far, the ids of spent one-shots and
  whether anything changed. The fire count is a \<^verbatim>\<open>u64\<close>; it is not computed with.
\<close>

definition claim_task ::
  "owner \<Rightarrow> (int \<Rightarrow> caltime) \<Rightarrow> (nat \<Rightarrow> bool) \<Rightarrow> int \<Rightarrow> scheduled_task
   \<Rightarrow> claimed \<times> ustr list \<times> bool \<Rightarrow> scheduled_task \<times> (claimed \<times> ustr list \<times> bool)" where
  "claim_task own cal alive now_minute t st =
     (case st of (cl, spent, changed) \<Rightarrow>
       (case latest_due_minute cal (job_cron t) now_minute (due_floor t) of
          None \<Rightarrow> (t, st)
        | Some due \<Rightarrow>
            (case take_task own alive t of
               None \<Rightarrow> (t, st)
             | Some (t, ads) \<Rightarrow>
                 (let cl = cl\<lparr>adoptions := adoptions cl @ ads\<rparr>;
                      t = t\<lparr>last_run_minute := Some due\<rparr>;
                      (t, cl) =
                        (if now_minute - due \<le> late_fire_minutes
                         then (let t = t\<lparr>fire_count := fire_count t + 1\<rparr>
                               in (t, cl\<lparr>fired_tasks := fired_tasks cl @
                                       [\<lparr>fired_id = job_id t, fired_cron = job_cron t,
                                         fired_recurring = recurring t, fired_prompt = job_prompt t\<rparr>],
                                     fired_jobs := fired_jobs cl @ [t]\<rparr>))
                         else (t, cl\<lparr>skipped := skipped cl @ [job_prompt t]\<rparr>))
                  in (t, cl, if recurring t then spent else spent @ [job_id t], True)))))"

fun claim_tasks ::
  "owner \<Rightarrow> (int \<Rightarrow> caltime) \<Rightarrow> (nat \<Rightarrow> bool) \<Rightarrow> int \<Rightarrow> scheduled_task list
   \<Rightarrow> claimed \<times> ustr list \<times> bool \<Rightarrow> scheduled_task list \<times> (claimed \<times> ustr list \<times> bool)" where
  "claim_tasks own cal alive now_minute [] st = ([], st)"
| "claim_tasks own cal alive now_minute (t # ts) st =
     (case claim_task own cal alive now_minute t st of
        (t', st') \<Rightarrow>
          (case claim_tasks own cal alive now_minute ts st' of (ts', st'') \<Rightarrow> (t' # ts', st'')))"

record tick =
  tick_claimed :: claimed
  tick_jobs :: "scheduled_task list option"

text \<open>
  \<open>scan_due\<close> is what \<^verbatim>\<open>claim_due_tick_with\<close> does between the read of the file and its write: the
  claim, the tasks afterwards and whether they are to be written.
  \<^verbatim>\<open>claim_due_tick_with\<close>: the result (\<open>None\<close> is the I/O error) and the file afterwards. The
  time is its epoch second, an \<^verbatim>\<open>i64\<close>.
\<close>

definition minute_of :: "64 word \<Rightarrow> int" where
  "minute_of timestamp = sint timestamp div 60"

definition scan_due ::
  "owner \<Rightarrow> (int \<Rightarrow> caltime) \<Rightarrow> (nat \<Rightarrow> bool) \<Rightarrow> 64 word \<Rightarrow> scheduled_task list
   \<Rightarrow> claimed \<times> scheduled_task list \<times> bool" where
  "scan_due own cal alive timestamp tasks =
     (case claim_tasks own cal alive (minute_of timestamp) tasks (claimed_default, [], False) of
        (tasks, cl, spent, changed) \<Rightarrow>
          (cl, if changed then filter (\<lambda>t. job_id t \<notin> set spent) tasks else tasks, changed))"

definition claim_due_tick_with ::
  "owner \<Rightarrow> (int \<Rightarrow> caltime) \<Rightarrow> (nat \<Rightarrow> bool) \<Rightarrow> bool \<Rightarrow> bool \<Rightarrow> 64 word \<Rightarrow> scheduled_task list
   \<Rightarrow> tick option \<times> scheduled_task list" where
  "claim_due_tick_with own cal alive held writable timestamp file =
     (if \<not> held then (Some \<lparr>tick_claimed = claimed_default, tick_jobs = None\<rparr>, file)
      else (case scan_due own cal alive timestamp file of
              (cl, tasks, changed) \<Rightarrow>
                (if changed \<and> \<not> writable then (None, file)
                 else (Some \<lparr>tick_claimed = cl, tick_jobs = Some tasks\<rparr>,
                       if changed then tasks else file))))"

text \<open>\<^verbatim>\<open>claim_due\<close> of \<^verbatim>\<open>lib.rs\<close>: a store that cannot be written fires nothing.\<close>

definition claim_due ::
  "owner \<Rightarrow> (int \<Rightarrow> caltime) \<Rightarrow> (nat \<Rightarrow> bool) \<Rightarrow> bool \<Rightarrow> bool \<Rightarrow> 64 word \<Rightarrow> scheduled_task list
   \<Rightarrow> claimed \<times> scheduled_task list" where
  "claim_due own cal alive held writable timestamp file =
     (case claim_due_tick_with own cal alive held writable timestamp file of
        (None, f) \<Rightarrow> (claimed_default, f)
      | (Some t, f) \<Rightarrow> (tick_claimed t, f))"


section \<open>What a tick does to one task\<close>

lemma minute_of_lt: "minute_of t < i64_max"
proof -
  have "sint t < 2 ^ 63" using sint_lt [of t] by simp
  then show ?thesis unfolding minute_of_def i64_max_def by simp
qed

lemma search_due_Some:
  "search_due cal c lo m = Some d \<longleftrightarrow>
     lo \<le> d \<and> d \<le> m \<and> cron_hit c (cal d) \<and> (\<forall>k. d < k \<and> k \<le> m \<longrightarrow> \<not> cron_hit c (cal k))"
proof (induction cal c lo m rule: search_due.induct)
  case (1 cal c lo m)
  show ?case
  proof (cases "m < lo \<or> cron_hit c (cal m)")
    case True
    then show ?thesis by (subst search_due.simps) (force simp: cron_hit_def)
  next
    case False
    then have "search_due cal c lo m = search_due cal c lo (m - 1)"
      by (subst search_due.simps) (simp add: cron_hit_def)
    moreover have "d \<le> m \<and> \<not> cron_hit c (cal m) \<and> cron_hit c (cal d) \<longleftrightarrow>
        d \<le> m - 1 \<and> \<not> cron_hit c (cal m) \<and> cron_hit c (cal d)"
      by (cases "d = m") auto
    moreover have "k \<le> m \<longleftrightarrow> k = m \<or> k \<le> m - 1" for k :: int by auto
    ultimately show ?thesis using False 1 by (auto simp: cron_hit_def)
  qed
qed

lemma search_due_None:
  "search_due cal c lo m = None \<longleftrightarrow> (\<forall>k. lo \<le> k \<and> k \<le> m \<longrightarrow> \<not> cron_hit c (cal k))"
proof (induction cal c lo m rule: search_due.induct)
  case (1 cal c lo m)
  show ?case
  proof (cases "m < lo \<or> cron_hit c (cal m)")
    case True
    then have "(search_due cal c lo m = None) = (m < lo)"
      by (subst search_due.simps) (auto simp: cron_hit_def)
    moreover from True have "(\<forall>k. lo \<le> k \<and> k \<le> m \<longrightarrow> \<not> cron_hit c (cal k)) = (m < lo)"
      by (cases "m < lo") (auto intro: exI [of _ m])
    ultimately show ?thesis by simp
  next
    case False
    then have "search_due cal c lo m = search_due cal c lo (m - 1)"
      by (subst search_due.simps) (simp add: cron_hit_def)
    moreover have "k \<le> m \<longleftrightarrow> k = m \<or> k \<le> m - 1" for k :: int by auto
    ultimately show ?thesis using False 1 by (auto simp: cron_hit_def)
  qed
qed

text \<open>The due minute a tick handles for a task, if it handles it.\<close>

definition handles :: "owner \<Rightarrow> (int \<Rightarrow> caltime) \<Rightarrow> (nat \<Rightarrow> bool) \<Rightarrow> int \<Rightarrow> scheduled_task \<Rightarrow> int option" where
  "handles own cal alive now t =
     (if owner_pid t = pid own \<or> \<not> alive (owner_pid t)
      then latest_due_minute cal (job_cron t) now (due_floor t) else None)"

definition handled :: "owner \<Rightarrow> int \<Rightarrow> scheduled_task \<Rightarrow> int \<Rightarrow> scheduled_task" where
  "handled own now t due =
     t\<lparr>owner_pid := pid own,
       owner_session_id := (if owner_pid t = pid own \<and> session_id own = None then owner_session_id t
                            else session_id own),
       last_run_minute := Some due,
       fire_count := (if now - due \<le> late_fire_minutes then fire_count t + 1 else fire_count t)\<rparr>"

definition after_tick :: "owner \<Rightarrow> (int \<Rightarrow> caltime) \<Rightarrow> (nat \<Rightarrow> bool) \<Rightarrow> int \<Rightarrow> scheduled_task \<Rightarrow> scheduled_task" where
  "after_tick own cal alive now t =
     (case handles own cal alive now t of None \<Rightarrow> t | Some due \<Rightarrow> handled own now t due)"

definition fires :: "owner \<Rightarrow> (int \<Rightarrow> caltime) \<Rightarrow> (nat \<Rightarrow> bool) \<Rightarrow> int \<Rightarrow> scheduled_task \<Rightarrow> bool" where
  "fires own cal alive now t \<longleftrightarrow>
     (case handles own cal alive now t of None \<Rightarrow> False | Some due \<Rightarrow> now - due \<le> late_fire_minutes)"

lemma take_task_eq:
  "take_task own alive t =
     (if owner_pid t = pid own \<or> \<not> alive (owner_pid t)
      then Some (t\<lparr>owner_pid := pid own,
                   owner_session_id := (if owner_pid t = pid own \<and> session_id own = None
                                        then owner_session_id t else session_id own)\<rparr>,
                 if owner_pid t = pid own then []
                 else [\<lparr>adopted_id = job_id t, previous_pid = owner_pid t,
                        previous_session = owner_session_id t\<rparr>])
      else None)"
  by (auto simp: take_task_def intro!: scheduled_task.equality)

lemma claim_task_eq:
  "claim_task own cal alive now t (cl, spent, changed) =
     (after_tick own cal alive now t,
      (case handles own cal alive now t of
         None \<Rightarrow> (cl, spent, changed)
       | Some due \<Rightarrow>
           (cl\<lparr>fired_tasks := fired_tasks cl @ (if now - due \<le> late_fire_minutes
                 then [\<lparr>fired_id = job_id t, fired_cron = job_cron t,
                        fired_recurring = recurring t, fired_prompt = job_prompt t\<rparr>] else []),
               fired_jobs := fired_jobs cl @ (if now - due \<le> late_fire_minutes then [handled own now t due] else []),
               skipped := skipped cl @ (if now - due \<le> late_fire_minutes then [] else [job_prompt t]),
               adoptions := adoptions cl @ (if owner_pid t = pid own then []
                 else [\<lparr>adopted_id = job_id t, previous_pid = owner_pid t,
                        previous_session = owner_session_id t\<rparr>])\<rparr>,
            if recurring t then spent else spent @ [job_id t], True)))"
proof (cases "latest_due_minute cal (job_cron t) now (due_floor t)")
  case None
  then show ?thesis by (simp add: claim_task_def handles_def after_tick_def)
next
  case (Some due)
  then show ?thesis
    by (auto simp: claim_task_def handles_def after_tick_def take_task_eq handled_def Let_def
        intro!: scheduled_task.equality claimed.equality)
qed

text \<open>What the whole loop produces.\<close>

lemma claim_tasks_eq:
  "\<exists>cl' spent' changed'. claim_tasks own cal alive now ts (cl, spent, changed)
      = (map (after_tick own cal alive now) ts, cl', spent', changed')
    \<and> fired_jobs cl' = fired_jobs cl @ map (after_tick own cal alive now) (filter (fires own cal alive now) ts)
    \<and> spent' = spent @ map job_id (filter (\<lambda>t. handles own cal alive now t \<noteq> None \<and> \<not> recurring t) ts)
    \<and> (changed' \<longleftrightarrow> changed \<or> (\<exists>t \<in> set ts. handles own cal alive now t \<noteq> None))
    \<and> ((\<forall>t \<in> set ts. handles own cal alive now t = None) \<longrightarrow> cl' = cl)"
proof (induction ts arbitrary: cl spent changed)
  case Nil
  show ?case by simp
next
  case (Cons t ts)
  show ?case
  proof (cases "handles own cal alive now t")
    case None
    with Cons.IH [of cl spent changed] show ?thesis
      by (auto simp: claim_task_eq fires_def after_tick_def)
  next
    case (Some due)
    let ?st = "snd (claim_task own cal alive now t (cl, spent, changed))"
    obtain cl2 sp2 where st: "?st = (cl2, sp2, True)"
      "fired_jobs cl2 = fired_jobs cl @ (if fires own cal alive now t then [after_tick own cal alive now t] else [])"
      "sp2 = (if recurring t then spent else spent @ [job_id t])"
      using Some by (auto simp: claim_task_eq fires_def after_tick_def)
    from Cons.IH [of cl2 sp2 True] st Some show ?thesis
      by (auto simp: claim_task_eq split: if_splits)
  qed
qed


lemma after_tick_id [simp]: "job_id (after_tick own cal alive now t) = job_id t"
  and after_tick_cron [simp]: "job_cron (after_tick own cal alive now t) = job_cron t"
  and after_tick_created [simp]: "created_at (after_tick own cal alive now t) = created_at t"
  and after_tick_recurring [simp]: "recurring (after_tick own cal alive now t) = recurring t"
  by (auto simp: after_tick_def handled_def split: option.split)

lemma handles_Some:
  assumes "handles own cal alive now t = Some due"
  shows "owner_pid t = pid own \<or> \<not> alive (owner_pid t)" and "due_floor t \<le> due" and "due \<le> now"
    and "cron_hit (job_cron t) (cal due)"
    and "\<And>k. due < k \<Longrightarrow> k \<le> now \<Longrightarrow> \<not> cron_hit (job_cron t) (cal k)"
  using assms by (auto simp: handles_def latest_due_minute_def search_due_Some split: if_splits)

lemma due_floor_after: "m < i64_max \<Longrightarrow> last_run_minute t = Some m \<Longrightarrow> m < due_floor t"
  by (auto simp: due_floor_def i64_succ_def Let_def)

text \<open>What a task has after a tick it is not handled again at the same minute.\<close>

lemma handles_after_tick:
  assumes "now < i64_max"
  shows "handles own cal alive now (after_tick own cal alive now t) = None"
proof (cases "handles own cal alive now t")
  case None
  then show ?thesis by (simp add: after_tick_def)
next
  case (Some due)
  note h = handles_Some [OF Some]
  let ?t = "after_tick own cal alive now t"
  have lr: "last_run_minute ?t = Some due" using Some by (simp add: after_tick_def handled_def)
  then have "due < due_floor ?t" using due_floor_after h(3) assms by simp
  then have "latest_due_minute cal (job_cron ?t) now (due_floor ?t) = None"
    using h(5) by (auto simp: latest_due_minute_def search_due_None)
  then show ?thesis by (simp add: handles_def)
qed

definition spent_ids :: "owner \<Rightarrow> (int \<Rightarrow> caltime) \<Rightarrow> (nat \<Rightarrow> bool) \<Rightarrow> int \<Rightarrow> scheduled_task list \<Rightarrow> ustr set" where
  "spent_ids own cal alive now ts =
     job_id ` {t \<in> set ts. handles own cal alive now t \<noteq> None \<and> \<not> recurring t}"

definition file_after :: "owner \<Rightarrow> (int \<Rightarrow> caltime) \<Rightarrow> (nat \<Rightarrow> bool) \<Rightarrow> int \<Rightarrow> scheduled_task list \<Rightarrow> scheduled_task list" where
  "file_after own cal alive now ts =
     filter (\<lambda>t. job_id t \<notin> spent_ids own cal alive now ts) (map (after_tick own cal alive now) ts)"

lemma file_after_none:
  "\<forall>t \<in> set ts. handles own cal alive now t = None \<Longrightarrow> file_after own cal alive now ts = ts"
  by (auto simp: file_after_def spent_ids_def after_tick_def map_idI filter_id_conv cong: map_cong)

text \<open>A tick under the lock whose write succeeds.\<close>

lemma tick_eq:
  "\<exists>cl. claim_due_tick_with own cal alive True True ts file
       = (Some \<lparr>tick_claimed = cl, tick_jobs = Some (file_after own cal alive (minute_of ts) file)\<rparr>,
          file_after own cal alive (minute_of ts) file)
     \<and> fired_jobs cl = map (after_tick own cal alive (minute_of ts))
         (filter (fires own cal alive (minute_of ts)) file)
     \<and> ((\<forall>t \<in> set file. handles own cal alive (minute_of ts) t = None) \<longrightarrow> cl = claimed_default)"
proof -
  let ?n = "minute_of ts"
  from claim_tasks_eq [of own cal alive ?n "file" claimed_default "[]" False]
  obtain cl spent changed where ct: "claim_tasks own cal alive ?n file (claimed_default, [], False)
      = (map (after_tick own cal alive ?n) file, cl, spent, changed)"
    "fired_jobs cl = map (after_tick own cal alive ?n) (filter (fires own cal alive ?n) file)"
    "spent = map job_id (filter (\<lambda>t. handles own cal alive ?n t \<noteq> None \<and> \<not> recurring t) file)"
    "changed \<longleftrightarrow> (\<exists>t \<in> set file. handles own cal alive ?n t \<noteq> None)"
    "(\<forall>t \<in> set file. handles own cal alive ?n t = None) \<longrightarrow> cl = claimed_default"
    by (auto simp: claimed_default_def)
  have sp: "set spent = spent_ids own cal alive ?n file" by (auto simp: ct(3) spent_ids_def)
  show ?thesis
  proof (cases changed)
    case True
    then show ?thesis
      using ct(1,2,5)
      by (intro exI [of _ cl]) (simp add: claim_due_tick_with_def scan_due_def file_after_def sp)
  next
    case False
    then have none: "\<forall>t \<in> set file. handles own cal alive ?n t = None" using ct(4) by auto
    then have "map (after_tick own cal alive ?n) file = file" by (simp add: after_tick_def map_idI)
    with False ct(1,2,5) file_after_none [OF none] show ?thesis
      by (intro exI [of _ cl]) (simp add: claim_due_tick_with_def scan_due_def)
  qed
qed

lemma tick_failed:
  assumes "claim_due_tick_with own cal alive held writable ts file = (r, file')" and "\<not> (held \<and> writable)"
  shows "file' = file \<and> (case r of None \<Rightarrow> True | Some t \<Rightarrow> fired_jobs (tick_claimed t) = [])"
proof (cases held)
  case False
  with assms(1) show ?thesis by (auto simp: claim_due_tick_with_def claimed_default_def)
next
  case True
  with assms(2) have w: "\<not> writable" by simp
  from claim_tasks_eq [of own cal alive "minute_of ts" "file" claimed_default "[]" False]
  obtain cl spent changed where ct: "claim_tasks own cal alive (minute_of ts) file (claimed_default, [], False)
      = (map (after_tick own cal alive (minute_of ts)) file, cl, spent, changed)"
    "changed \<longleftrightarrow> (\<exists>t \<in> set file. handles own cal alive (minute_of ts) t \<noteq> None)"
    "(\<forall>t \<in> set file. handles own cal alive (minute_of ts) t = None) \<longrightarrow> cl = claimed_default"
    by (auto simp: claimed_default_def)
  with True w assms(1) show ?thesis
    by (auto simp: claim_due_tick_with_def scan_due_def claimed_default_def split: if_splits)
qed

section \<open>What a tick may fire\<close>

text \<open>
  A tick fires only what it may. Every job a tick reports as fired is a stored task of
  this owner or of an owner that has exited; it is recorded as run at a minute that matches
  its expression, lies at most ten minutes back and after its last run; and it now belongs to
  this owner. Without the lock file, or when the write fails, nothing fires and the file is
  as it was.
\<close>

theorem tick_fires_only_due:
  assumes "claim_due_tick_with own cal alive held writable ts file = (Some tk, file')"
    and "j \<in> set (fired_jobs (tick_claimed tk))"
  shows "held \<and> writable \<and> owner_pid j = pid own
    \<and> (\<exists>t \<in> set file. \<exists>due. job_id t = job_id j \<and> job_prompt t = job_prompt j
        \<and> (owner_pid t = pid own \<or> \<not> alive (owner_pid t))
        \<and> last_run_minute j = Some due \<and> cron_hit (job_cron t) (cal due)
        \<and> due \<le> minute_of ts \<and> minute_of ts - due \<le> late_fire_minutes \<and> due_floor t \<le> due)"
proof -
  have hw: "held \<and> writable"
    using tick_failed [OF assms(1)] assms(2) by fastforce
  with assms(1) tick_eq [of own cal alive ts "file"]
  have "fired_jobs (tick_claimed tk) = map (after_tick own cal alive (minute_of ts))
         (filter (fires own cal alive (minute_of ts)) file)" by auto
  with assms(2) obtain t where t: "t \<in> set file" "fires own cal alive (minute_of ts) t"
    "j = after_tick own cal alive (minute_of ts) t" by auto
  then obtain due where due: "handles own cal alive (minute_of ts) t = Some due"
    "minute_of ts - due \<le> late_fire_minutes" by (auto simp: fires_def split: option.splits)
  with t(3) have "j = handled own (minute_of ts) t due" by (simp add: after_tick_def)
  with hw t(1) due handles_Some [OF due(1)] show ?thesis
    by (auto simp: handled_def intro!: bexI [of _ t])
qed


definition every_minute :: "int \<Rightarrow> caltime" where
  "every_minute m = \<lparr>cal_minute = m mod 60, cal_hour = (m div 60) mod 24, cal_day = 1, cal_month = 1,
     cal_weekday = 4\<rparr>"

definition job_a :: scheduled_task where
  "job_a = \<lparr>job_id = U ''task_a'', job_cron = U ''* * * * *'', job_prompt = U ''go'', recurring = True,
     created_at = 0, last_run_minute = None, owner_pid = 7, owner_session_id = None, fire_count = 0\<rparr>"

definition owner_9 :: owner where
  "owner_9 = \<lparr>pid = 9, session_id = Some (U ''s'')\<rparr>"

lemma star_hits: "cron_hit (U ''* * * * *'') t"
  by (simp add: cron_hit_def cron_matches_def split_fields_def split_whitespace_def is_ws_def
      field_allows_def parse_field_def ustr_eval)

lemma job_a_handled: "0 \<le> n \<Longrightarrow> handles owner_9 every_minute (\<lambda>p. False) n job_a = Some n"
  by (simp add: handles_def job_a_def owner_9_def due_floor_def latest_due_minute_def search_due_Some
      star_hits lookback_minutes_def)

lemma minute_of_120 [simp]: "minute_of 120 = 2"
  by (simp add: minute_of_def)

theorem tick_fires_only_due_witness:
  "\<exists>t \<in> set [job_a]. \<exists>due. last_run_minute (handled owner_9 2 job_a 2) = Some due
     \<and> cron_hit (job_cron t) (every_minute due) \<and> 2 - due \<le> late_fire_minutes"
proof -
  from tick_eq [of owner_9 every_minute "\<lambda>p. False" 120 "[job_a]"] obtain cl f where
    c: "claim_due_tick_with owner_9 every_minute (\<lambda>p. False) True True 120 [job_a]
        = (Some \<lparr>tick_claimed = cl, tick_jobs = Some f\<rparr>, f)"
    "fired_jobs cl = map (after_tick owner_9 every_minute (\<lambda>p. False) 2)
       (filter (fires owner_9 every_minute (\<lambda>p. False) 2) [job_a])" by auto
  then have "handled owner_9 2 job_a 2 \<in> set (fired_jobs (tick_claimed \<lparr>tick_claimed = cl, tick_jobs = Some f\<rparr>))"
    using job_a_handled [of 2] by (simp add: fires_def after_tick_def late_fire_minutes_def)
  from tick_fires_only_due [OF c(1) this] show ?thesis by (auto simp: minute_of_120)
qed

text \<open>
  C13: A due task fires. Under the lock, with a write that succeeds, every stored task of
  this owner (or of an owner that has exited) whose expression matches some minute of the last
  ten, not before its floor (its creation, and the minute after its last run), is among the
  fired jobs of the tick.
\<close>

theorem due_task_fires:
  assumes "t \<in> set file" and "owner_pid t = pid own \<or> \<not> alive (owner_pid t)"
    and "cron_hit (job_cron t) (cal m)" and "due_floor t \<le> m"
    and "minute_of ts - late_fire_minutes \<le> m" and "m \<le> minute_of ts"
  shows "\<exists>tk file' j. claim_due_tick_with own cal alive True True ts file = (Some tk, file')
    \<and> j \<in> set (fired_jobs (tick_claimed tk)) \<and> job_id j = job_id t"
proof -
  have "latest_due_minute cal (job_cron t) (minute_of ts) (due_floor t) \<noteq> None"
    using assms(3-6) by (auto simp: latest_due_minute_def search_due_None late_fire_minutes_def
        lookback_minutes_def)
  then obtain due where due: "handles own cal alive (minute_of ts) t = Some due"
    using assms(2) by (auto simp: handles_def)
  have "m \<le> due" using handles_Some(5) [OF due, of m] assms(3,6) by fastforce
  with due assms(5) have "fires own cal alive (minute_of ts) t" by (simp add: fires_def)
  with assms(1) tick_eq [of own cal alive ts "file"] show ?thesis by force
qed

theorem due_task_fires_witness:
  "\<exists>tk file' j. claim_due_tick_with owner_9 every_minute (\<lambda>p. False) True True 120 [job_a] = (Some tk, file')
    \<and> j \<in> set (fired_jobs (tick_claimed tk)) \<and> job_id j = job_id job_a"
  by (rule due_task_fires [where m = 2])
     (simp_all add: job_a_def owner_9_def star_hits due_floor_def late_fire_minutes_def)

text \<open>
  A tick handles each due minute once. A second tick of the same owner at the same time,
  after one that succeeded, fires, skips and adopts nothing and leaves the file as it is.
\<close>

theorem second_tick_is_empty:
  assumes "claim_due_tick_with own cal alive True True ts file = (Some tk, file')"
  shows "claim_due_tick_with own cal alive True True ts file'
       = (Some \<lparr>tick_claimed = claimed_default, tick_jobs = Some file'\<rparr>, file')"
proof -
  from assms tick_eq [of own cal alive ts "file"] have f: "file' = file_after own cal alive (minute_of ts) file"
    by auto
  have none: "\<forall>t \<in> set file'. handles own cal alive (minute_of ts) t = None"
    using handles_after_tick [OF minute_of_lt] by (auto simp: f file_after_def)
  with tick_eq [of own cal alive ts "file'"] file_after_none [OF none] show ?thesis by auto
qed

theorem second_tick_is_empty_witness:
  "\<exists>file'. claim_due_tick_with owner_9 every_minute (\<lambda>p. False) True True 120 file'
       = (Some \<lparr>tick_claimed = claimed_default, tick_jobs = Some file'\<rparr>, file')"
proof -
  from tick_eq [of owner_9 every_minute "\<lambda>p. False" 120 "[job_a]"] obtain cl f where
    "claim_due_tick_with owner_9 every_minute (\<lambda>p. False) True True 120 [job_a]
        = (Some \<lparr>tick_claimed = cl, tick_jobs = Some f\<rparr>, f)" by auto
  from second_tick_is_empty [OF this] show ?thesis by blast
qed

text \<open>
  A tick leaves the tasks of other running processes alone. With distinct ids in the
  file, a task owned by another pid that is alive is in the file afterwards exactly as before,
  whatever else the tick fires, adopts or removes.
\<close>

theorem live_owner_untouched:
  assumes "distinct (map job_id file)" and "t \<in> set file" and "owner_pid t \<noteq> pid own" and "alive (owner_pid t)"
    and "claim_due_tick_with own cal alive held writable ts file = (r, file')"
  shows "t \<in> set file'"
proof (cases "held \<and> writable")
  case False
  with tick_failed [OF assms(5)] assms(2) show ?thesis by simp
next
  case True
  with assms(5) tick_eq [of own cal alive ts "file"] have f: "file' = file_after own cal alive (minute_of ts) file"
    by auto
  have none: "handles own cal alive (minute_of ts) t = None" using assms(3,4) by (simp add: handles_def)
  then have "after_tick own cal alive (minute_of ts) t = t" by (simp add: after_tick_def)
  moreover have "u = t" if "u \<in> set file" "job_id u = job_id t" for u
    using assms(1,2) that by (simp add: distinct_map inj_on_def)
  then have "job_id t \<notin> spent_ids own cal alive (minute_of ts) file"
    using none by (auto simp: spent_ids_def)
  ultimately show ?thesis using assms(2) by (force simp: f file_after_def)
qed

theorem live_owner_untouched_witness:
  "job_a \<in> set (snd (claim_due_tick_with owner_9 every_minute (\<lambda>p. p = 7) True True 120 [job_a]))"
proof -
  obtain r f where c: "claim_due_tick_with owner_9 every_minute (\<lambda>p. p = 7) True True 120 [job_a] = (r, f)"
    by (cases "claim_due_tick_with owner_9 every_minute (\<lambda>p. p = 7) True True 120 [job_a]")
  then show ?thesis
    using live_owner_untouched [OF _ _ _ _ c, of job_a] by (simp add: job_a_def owner_9_def)
qed

end
