(* ===== verification/Lock_File.thy ===== *)
theory Lock_File
  imports Prelude
begin

text \<open>
  The store's lock file (\<^verbatim>\<open>FileLock\<close> in \<^verbatim>\<open>crates/hoocode-code-scheduler/src/store.rs\<close>) as a
  step relation over the processes that share a store. Each system call of \<open>acquire\<close>,
  \<open>is_stale\<close> and \<open>drop\<close> is one step: \<open>create_new\<close>, the read of the file's modification time, the
  read of the clock, the removal, the look at the time waited. Between two steps of one process
  any other process may run, the clocks move, and any process may die.

  \<open>wall\<close> is \<^verbatim>\<open>SystemTime\<close> in milliseconds (it may be set to anything), \<open>instant\<close> is \<^verbatim>\<open>Instant\<close> (it
  never goes back). The file keeps its modification time; who created it is recorded for the
  statements only, no step looks at it.
\<close>

definition stale_lock_ms :: int where "stale_lock_ms = 10000"
definition lock_wait_ms :: nat where "lock_wait_ms = 3000"

datatype phase =
    Idle
  | Trying        \<comment> \<open>before \<open>create_new\<close>\<close>
  | Found         \<comment> \<open>\<open>AlreadyExists\<close>: \<open>is_stale\<close> comes next\<close>
  | Judging int   \<comment> \<open>\<open>is_stale\<close> has read this modification time\<close>
  | Removing      \<comment> \<open>\<open>is_stale\<close> has answered true, \<open>remove_file\<close> comes next\<close>
  | Waiting       \<comment> \<open>\<open>is_stale\<close> has answered false\<close>
  | Holding
  | Without       \<comment> \<open>\<open>path: None\<close>: goes on without the lock\<close>
  | Dead

record lock_state =
  lock_file :: "(nat \<times> int) option"
  wall :: int
  instant :: nat
  phase_of :: "nat \<Rightarrow> phase"
  started :: "nat \<Rightarrow> nat"

definition lock_init :: lock_state where
  "lock_init = \<lparr>lock_file = None, wall = 0, instant = 0, phase_of = (\<lambda>p. Idle), started = (\<lambda>p. 0)\<rparr>"

definition goto :: "nat \<Rightarrow> phase \<Rightarrow> lock_state \<Rightarrow> lock_state" where
  "goto p ph s = s\<lparr>phase_of := (phase_of s)(p := ph)\<rparr>"

text \<open>\<^verbatim>\<open>duration_since\<close> of a later time is an error, and then the file is not stale.\<close>

definition too_old :: "int \<Rightarrow> int \<Rightarrow> bool" where
  "too_old modified now \<longleftrightarrow> now \<ge> modified \<and> now - modified > stale_lock_ms"

text \<open>What a step is: whose it is, and where it stands in the use of the lock.\<close>

datatype lock_act = Begin nat | Move nat | Release nat | Crash nat | Clock

inductive lock_step :: "lock_state \<Rightarrow> lock_act \<Rightarrow> lock_state \<Rightarrow> bool" where
  begin_acquire: "phase_of s p = Idle \<Longrightarrow>
    lock_step s (Begin p) (goto p Trying (s\<lparr>started := (started s)(p := instant s)\<rparr>))"
| create_new: "phase_of s p = Trying \<Longrightarrow> lock_file s = None \<Longrightarrow>
    lock_step s (Move p) (goto p Holding (s\<lparr>lock_file := Some (p, wall s)\<rparr>))"
| already_exists: "phase_of s p = Trying \<Longrightarrow> lock_file s \<noteq> None \<Longrightarrow>
    lock_step s (Move p) (goto p Found s)"
| create_error: "phase_of s p = Trying \<Longrightarrow> lock_step s (Move p) (goto p Without s)"
| read_modified: "phase_of s p = Found \<Longrightarrow> lock_file s = Some (c, m) \<Longrightarrow>
    lock_step s (Move p) (goto p (Judging m) s)"
| metadata_error: "phase_of s p = Found \<Longrightarrow> lock_step s (Move p) (goto p Waiting s)"
| judge: "phase_of s p = Judging m \<Longrightarrow>
    lock_step s (Move p) (goto p (if too_old m (wall s) then Removing else Waiting) s)"
| remove_stale: "phase_of s p = Removing \<Longrightarrow>
    lock_step s (Move p) (goto p Trying (s\<lparr>lock_file := None\<rparr>))"
| remove_error: "phase_of s p = Removing \<Longrightarrow> lock_step s (Move p) (goto p Trying s)"
| wait_over: "phase_of s p = Waiting \<Longrightarrow> instant s - started s p \<ge> lock_wait_ms \<Longrightarrow>
    lock_step s (Move p) (goto p Without s)"
| try_again: "phase_of s p = Waiting \<Longrightarrow> instant s - started s p < lock_wait_ms \<Longrightarrow>
    lock_step s (Move p) (goto p Trying s)"
| drop_lock: "phase_of s p = Holding \<Longrightarrow>
    lock_step s (Release p) (goto p Idle (s\<lparr>lock_file := None\<rparr>))"
| drop_without: "phase_of s p = Without \<Longrightarrow> lock_step s (Release p) (goto p Idle s)"
| crash: "lock_step s (Crash p) (goto p Dead s)"
| clock: "instant s \<le> k \<Longrightarrow> lock_step s Clock (s\<lparr>wall := w, instant := k\<rparr>)"

inductive_cases lock_stepE: "lock_step s a t"

definition lock_reachable :: "lock_state \<Rightarrow> bool" where
  "lock_reachable s \<longleftrightarrow> (\<lambda>s t. \<exists>a. lock_step s a t)\<^sup>*\<^sup>* lock_init s"

section \<open>When the lock excludes\<close>

text \<open>A process that is going to remove the file, as the clock stands.\<close>

definition removes :: "phase \<Rightarrow> int \<Rightarrow> bool" where
  "removes ph now = (case ph of Removing \<Rightarrow> True | Judging m \<Rightarrow> too_old m now | _ \<Rightarrow> False)"

abbreviation about_to_remove :: "lock_state \<Rightarrow> nat \<Rightarrow> bool" where
  "about_to_remove s p \<equiv> removes (phase_of s p) (wall s)"

text \<open>
  The timing the lock relies on: no live holder keeps its file until it is older than ten
  seconds; the file is not created while another process is about to remove an older one; and
  while a process is between reading the file's time and reading the clock, the clock does not
  pass the ten seconds.
\<close>

definition punctual :: "lock_state \<Rightarrow> bool" where
  "punctual s \<longleftrightarrow> (\<forall>p m. lock_file s = Some (p, m) \<longrightarrow> phase_of s p = Holding \<longrightarrow> \<not> too_old m (wall s))"

definition timely :: "lock_state \<Rightarrow> lock_act \<Rightarrow> lock_state \<Rightarrow> bool" where
  "timely s a t \<longleftrightarrow> punctual t
     \<and> (lock_file s = None \<and> lock_file t \<noteq> None \<longrightarrow> (\<forall>p. \<not> about_to_remove s p))
     \<and> (a = Clock \<longrightarrow> (\<forall>p. about_to_remove t p \<longrightarrow> about_to_remove s p))"

definition timely_run :: "lock_state \<Rightarrow> bool" where
  "timely_run s \<longleftrightarrow> (\<lambda>s t. \<exists>a. lock_step s a t \<and> timely s a t)\<^sup>*\<^sup>* lock_init s"

lemma removes_simps [simp]:
  "removes Removing now" "removes (Judging m) now \<longleftrightarrow> too_old m now"
  "\<not> removes Idle now" "\<not> removes Trying now" "\<not> removes Found now" "\<not> removes Waiting now"
  "\<not> removes Holding now" "\<not> removes Without now" "\<not> removes Dead now"
  by (simp_all add: removes_def)

lemma goto_simps [simp]:
  "phase_of (goto p ph s) q = (if q = p then ph else phase_of s q)"
  "lock_file (goto p ph s) = lock_file s" "wall (goto p ph s) = wall s"
  "instant (goto p ph s) = instant s" "started (goto p ph s) = started s"
  by (simp_all add: goto_def)

text \<open>
  A holder's file is its own; the file's creator holds it or has died; and while it holds it,
  nobody is about to remove it.
\<close>

definition lock_inv :: "lock_state \<Rightarrow> bool" where
  "lock_inv s \<longleftrightarrow>
     (\<forall>p. phase_of s p = Holding \<longrightarrow> (\<exists>m. lock_file s = Some (p, m)))
     \<and> (\<forall>c m. lock_file s = Some (c, m) \<longrightarrow>
          (phase_of s c = Holding \<or> phase_of s c = Dead)
          \<and> (phase_of s c = Holding \<longrightarrow> (\<forall>p. \<not> about_to_remove s p)))"

text \<open>A process that moves between phases in which it neither holds nor is about to remove.\<close>

lemma lock_inv_goto:
  assumes "lock_inv s" and "phase_of s p \<notin> {Holding, Dead}"
    and "ph \<noteq> Holding" and "removes ph (wall s) \<Longrightarrow> removes (phase_of s p) (wall s)
      \<or> (\<forall>c m. lock_file s = Some (c, m) \<longrightarrow> phase_of s c \<noteq> Holding)"
  shows "lock_inv (goto p ph s)"
  using assms by (auto simp: lock_inv_def)

lemma lock_inv_started: "lock_inv (s\<lparr>started := f\<rparr>) = lock_inv s"
  by (simp add: lock_inv_def)

lemma lock_inv_step:
  assumes "lock_step s a t" and "timely s a t" and "lock_inv s"
  shows "lock_inv t"
  using assms
proof (induction rule: lock_step.induct)
  case (begin_acquire s p)
  then show ?case by (intro lock_inv_goto) (simp_all add: lock_inv_started)
next
  case (create_new s p)
  then show ?case by (auto simp: lock_inv_def timely_def)
next
  case (read_modified s p c m)
  then have "phase_of s c = Holding \<Longrightarrow> \<not> too_old m (wall s)"
    by (auto simp: timely_def punctual_def split: if_splits)
  with read_modified show ?case by (intro lock_inv_goto) auto
next
  case (judge s p m)
  then show ?case by (intro lock_inv_goto) auto
next
  case (remove_stale s p)
  then have "phase_of s c \<noteq> Holding" if "lock_file s = Some (c, m)" for c m
    using that removes_simps(1) unfolding lock_inv_def by metis
  with remove_stale show ?case by (fastforce simp: lock_inv_def)
next
  case (drop_lock s p)
  then have "q = p" if "phase_of s q = Holding" for q
    using that unfolding lock_inv_def by (metis option.inject prod.inject)
  then have "phase_of (goto p Idle (s\<lparr>lock_file := None\<rparr>)) q \<noteq> Holding" for q by auto
  then show ?case unfolding lock_inv_def by simp
next
  case (crash s p)
  then show ?case by (auto simp: lock_inv_def)
next
  case (clock s k w)
  then have "removes (phase_of s p) w \<Longrightarrow> about_to_remove s p" for p
    by (simp add: timely_def)
  with clock(3) show ?case unfolding lock_inv_def by simp blast
qed (intro lock_inv_goto; simp)+

lemma lock_inv_init: "lock_inv lock_init"
  by (simp add: lock_inv_def lock_init_def)

lemma lock_inv_run: "timely_run s \<Longrightarrow> lock_inv s"
  unfolding timely_run_def
  by (induction rule: rtranclp_induct) (auto intro: lock_inv_init lock_inv_step)

text \<open>
  C39: The lock file excludes while its timing is kept. Take any number of processes, in any
  interleaving of their system calls, with crashes at any point and the clocks set to anything,
  as long as no live holder keeps the file until it is older than ten seconds, nobody creates
  it while another process is about to remove one that is older, and no process is held up
  between reading the file's time and the clock until the file is that old. Then at most one
  process holds the lock, also after the file of a dead one has been cleared away.
\<close>

theorem lock_excludes:
  assumes "timely_run s" and "phase_of s p = Holding" and "phase_of s q = Holding"
  shows "p = q"
  using lock_inv_run [OF assms(1)] assms(2,3) unfolding lock_inv_def
  by (metis option.inject prod.inject)

definition chain :: "('s \<Rightarrow> 's \<Rightarrow> bool) \<Rightarrow> 's list \<Rightarrow> bool" where
  "chain R ss \<longleftrightarrow> list_all (\<lambda>(s, t). R s t) (zip ss (tl ss))"

lemma chain_Cons2 [simp]: "chain R (s # t # ss) \<longleftrightarrow> R s t \<and> chain R (t # ss)"
  and chain_single [simp]: "chain R [s]"
  by (simp_all add: chain_def)

lemma chain_reaches: "chain R (s # ss) \<Longrightarrow> R\<^sup>*\<^sup>* s (last (s # ss))"
proof (induction ss arbitrary: s)
  case (Cons t ss)
  then have "R s t" "R\<^sup>*\<^sup>* t (last (t # ss))" by simp_all
  then show ?case by (auto intro: converse_rtranclp_into_rtranclp)
qed simp

definition begins :: "nat \<Rightarrow> lock_state \<Rightarrow> lock_state" where
  "begins p s = goto p Trying (s\<lparr>started := (started s)(p := instant s)\<rparr>)"

definition takes :: "nat \<Rightarrow> lock_state \<Rightarrow> lock_state" where
  "takes p s = goto p Holding (s\<lparr>lock_file := Some (p, wall s)\<rparr>)"

definition clears :: "nat \<Rightarrow> lock_state \<Rightarrow> lock_state" where
  "clears p s = goto p Trying (s\<lparr>lock_file := None\<rparr>)"

definition later :: "lock_state \<Rightarrow> lock_state" where
  "later s = s\<lparr>wall := wall s + 10001, instant := instant s + 10001\<rparr>"

lemmas moves = begins_def takes_def clears_def later_def goto_def lock_init_def

text \<open>One process dies with the lock; eleven seconds later another clears the file and takes it.\<close>

definition recovery :: "lock_state list" where
  "recovery =
     (let s1 = begins 0 lock_init; s2 = takes 0 s1; s3 = goto 0 Dead s2; s4 = later s3;
          s5 = begins 1 s4; s6 = goto 1 Found s5; s7 = goto 1 (Judging 0) s6;
          s8 = goto 1 Removing s7; s9 = clears 1 s8; s10 = takes 1 s9
      in [s1, s2, s3, s4, s5, s6, s7, s8, s9, s10])"

lemma step_begins: "phase_of s p = Idle \<Longrightarrow> lock_step s (Begin p) (begins p s)"
  and step_takes: "phase_of s p = Trying \<Longrightarrow> lock_file s = None \<Longrightarrow> lock_step s (Move p) (takes p s)"
  and step_clears: "phase_of s p = Removing \<Longrightarrow> lock_step s (Move p) (clears p s)"
  and step_later: "lock_step s Clock (later s)"
  by (simp_all add: begins_def takes_def clears_def later_def begin_acquire create_new remove_stale clock)

lemma step_removing: "phase_of s p \<noteq> Removing \<and> about_to_remove s p \<Longrightarrow>
    lock_step s (Move p) (goto p Removing s)"
  using judge [of s p] by (cases "phase_of s p") auto

lemma step_judging: "phase_of s p = Found \<Longrightarrow> map_option snd (lock_file s) = Some m \<Longrightarrow>
    lock_step s (Move p) (goto p (Judging m) s)"
  by (auto intro: read_modified)

lemmas step_rules = step_begins step_takes step_clears step_later step_removing step_judging
  already_exists crash

lemma recovery_timely: "timely_run (last recovery)"
proof -
  have "chain (\<lambda>s t. \<exists>a. lock_step s a t \<and> timely s a t) (lock_init # recovery)"
    by (simp add: recovery_def Let_def)
       (intro conjI; rule exI, rule conjI, rule step_rules;
         simp add: timely_def punctual_def moves too_old_def stale_lock_ms_def removes_def)
  from chain_reaches [OF this] show ?thesis
    by (simp add: timely_run_def recovery_def Let_def)
qed

theorem lock_excludes_witness:
  "\<exists>s. timely_run s \<and> phase_of s 0 = Dead \<and> phase_of s 1 = Holding
     \<and> (\<forall>q. phase_of s q = Holding \<longrightarrow> q = 1)"
proof -
  have "phase_of (last recovery) 0 = Dead \<and> phase_of (last recovery) 1 = Holding"
    by (simp add: recovery_def Let_def moves)
  with lock_excludes [OF recovery_timely] recovery_timely show ?thesis by blast
qed

section \<open>When it does not\<close>

text \<open>
  A slow holder loses the lock. Without any crash two processes hold the lock at once: the
  second finds the first one's file older than ten seconds and removes it, although the first
  still holds it. The comment on the constant says that such a file belongs to a process that
  died holding it; the code looks only at the age.
\<close>

definition slow_holder :: "lock_state list" where
  "slow_holder =
     (let s1 = begins 0 lock_init; s2 = takes 0 s1; s3 = later s2;
          s4 = begins 1 s3; s5 = goto 1 Found s4; s6 = goto 1 (Judging 0) s5;
          s7 = goto 1 Removing s6; s8 = clears 1 s7; s9 = takes 1 s8
      in [s1, s2, s3, s4, s5, s6, s7, s8, s9])"

theorem slow_holder_loses_lock:
  "\<exists>s. (\<lambda>s t. \<exists>a. lock_step s a t \<and> (\<forall>p. a \<noteq> Crash p))\<^sup>*\<^sup>* lock_init s
     \<and> phase_of s 0 = Holding \<and> phase_of s 1 = Holding"
proof -
  have "chain (\<lambda>s t. \<exists>a. lock_step s a t \<and> (\<forall>p. a \<noteq> Crash p)) (lock_init # slow_holder)"
    by (simp add: slow_holder_def Let_def)
       (intro conjI; rule exI, rule conjI, rule step_rules;
         simp add: moves too_old_def stale_lock_ms_def)
  from chain_reaches [OF this] have "(\<lambda>s t. \<exists>a. lock_step s a t \<and> (\<forall>p. a \<noteq> Crash p))\<^sup>*\<^sup>* lock_init (last slow_holder)"
    by (simp add: slow_holder_def Let_def)
  moreover have "phase_of (last slow_holder) 0 = Holding \<and> phase_of (last slow_holder) 1 = Holding"
    by (simp add: slow_holder_def Let_def moves)
  ultimately show ?thesis by blast
qed

text \<open>
  A dead process's file can be removed twice. The staleness check and the removal are separate
  calls, so of two processes that both saw it as stale the slower one removes the fresh file of
  the faster one, and both hold the lock, with every live holder's file younger than ten
  seconds all the time.
\<close>

definition race :: "lock_state list" where
  "race =
     (let s1 = begins 0 lock_init; s2 = takes 0 s1; s3 = goto 0 Dead s2; s4 = later s3;
          s5 = begins 1 s4; s6 = begins 2 s5; s7 = goto 1 Found s6; s8 = goto 2 Found s7;
          s9 = goto 1 (Judging 0) s8; s10 = goto 2 (Judging 0) s9;
          s11 = goto 1 Removing s10; s12 = goto 2 Removing s11;
          s13 = clears 1 s12; s14 = takes 1 s13; s15 = clears 2 s14; s16 = takes 2 s15
      in [s1, s2, s3, s4, s5, s6, s7, s8, s9, s10, s11, s12, s13, s14, s15, s16])"

theorem stale_removal_race:
  "\<exists>s. (\<lambda>s t. punctual t \<and> (\<exists>a. lock_step s a t))\<^sup>*\<^sup>* lock_init s
     \<and> phase_of s 1 = Holding \<and> phase_of s 2 = Holding"
proof -
  have "chain (\<lambda>s t. punctual t \<and> (\<exists>a. lock_step s a t)) (lock_init # race)"
    by (simp add: race_def Let_def)
       (intro conjI; (rule exI, rule step_rules)?;
         simp add: punctual_def moves too_old_def stale_lock_ms_def)
  from chain_reaches [OF this] have "(\<lambda>s t. punctual t \<and> (\<exists>a. lock_step s a t))\<^sup>*\<^sup>* lock_init (last race)"
    by (simp add: race_def Let_def)
  moreover have "phase_of (last race) 1 = Holding \<and> phase_of (last race) 2 = Holding"
    by (simp add: race_def Let_def moves)
  ultimately show ?thesis by blast
qed

end
