(* ===== verification/Schedule_Ticks.thy ===== *)
theory Schedule_Ticks
  imports Schedule_Store Lock_File
begin

text \<open>
  Many processes over one store file (\<^verbatim>\<open>with_lock\<close> and the operations that use it,
  \<^verbatim>\<open>crates/hoocode-code-scheduler/src/store.rs\<close>): every process claims, creates and deletes by
  the steps of the lock file (\<open>lock_step\<close>), then one read of the store, then at most one write (a
  rename), then the release of the lock; what a claim fired is submitted after that. Between
  two steps of a process any other may run, and a process may die at any point.
\<close>

section \<open>One process's work\<close>

text \<open>What a caller asks of the store: a claim at a time, a new task, a deletion.\<close>

datatype request =
    Claim owner "nat \<Rightarrow> bool" "64 word"
  | Create owner nat nat ustr ustr bool
  | Delete ustr

text \<open>
  The closure given to \<^verbatim>\<open>with_lock\<close>. A claim returns at once, firing nothing, when the lock
  file was not taken; a create and a delete do not look at \<^verbatim>\<open>held\<close>. Then \<open>body\<close>: from the tasks
  read, the jobs fired and what is written, if anything is.
\<close>

definition goes_on :: "request \<Rightarrow> bool \<Rightarrow> bool" where
  "goes_on req held = (case req of Claim _ _ _ \<Rightarrow> held | _ \<Rightarrow> True)"

definition body ::
  "(int \<Rightarrow> caltime) \<Rightarrow> request \<Rightarrow> scheduled_task list
   \<Rightarrow> scheduled_task list \<times> scheduled_task list option" where
  "body cal req tasks =
     (case req of
        Claim own alive timestamp \<Rightarrow>
          (case scan_due own cal alive timestamp tasks of
             (cl, tasks', changed) \<Rightarrow> (fired_jobs cl, if changed then Some tasks' else None))
      | Create own now_millis counter c prompt rec \<Rightarrow>
          ([], Some (tasks @ [new_task own now_millis counter c prompt rec]))
      | Delete i \<Rightarrow>
          (let tasks' = filter (\<lambda>t. job_id t \<noteq> i) tasks
           in ([], if length tasks' < length tasks then Some tasks' else None)))"

text \<open>On one process alone, the closures are the operations of \<open>Schedule_Store\<close>.\<close>

lemma claim_is_body:
  "claim_due_tick_with own cal alive held writable ts tasks = (r, new) \<Longrightarrow>
     (if goes_on (Claim own alive ts) held
      then (case body cal (Claim own alive ts) tasks of
              (jobs, None) \<Rightarrow> new = tasks \<and> (\<exists>tk. r = Some tk \<and> fired_jobs (tick_claimed tk) = jobs)
            | (jobs, Some tasks') \<Rightarrow>
                (if writable then new = tasks' \<and> (\<exists>tk. r = Some tk \<and> fired_jobs (tick_claimed tk) = jobs)
                 else new = tasks \<and> r = None))
      else new = tasks \<and> (\<exists>tk. r = Some tk \<and> fired_jobs (tick_claimed tk) = []))"
  by (auto simp: claim_due_tick_with_def goes_on_def body_def claimed_default_def split: prod.splits if_splits)

lemma create_is_body:
  "create_task own n k True c prompt rec tasks = (r, new) \<Longrightarrow>
     body cal (Create own n k c prompt rec) tasks = ([], Some new)"
  by (auto simp: create_task_def body_def Let_def)

lemma delete_is_body:
  "delete_task True i tasks = (r, new) \<Longrightarrow>
     snd (body cal (Delete i) tasks) = (if r = Some True then Some new else None)
     \<and> (r \<noteq> Some True \<longrightarrow> new = tasks)"
  by (auto simp: delete_task_def body_def Let_def split: if_splits)

datatype work =
    NoWork
  | Asked request                            \<comment> \<open>waiting for the lock, or not yet read\<close>
  | Loaded request "scheduled_task list"     \<comment> \<open>the store as it was read\<close>
  | Finished "scheduled_task list"           \<comment> \<open>written; the jobs to submit\<close>

record store_state =
  lock :: lock_state
  work_of :: "nat \<Rightarrow> work"
  store_file :: "scheduled_task list"
  fire_log :: "(ustr \<times> int option) list"
  used_ids :: "ustr list"

text \<open>The (job, due minute) pairs of fired jobs, as the log of submissions has them.\<close>

definition entries :: "scheduled_task list \<Rightarrow> (ustr \<times> int option) list" where
  "entries jobs = map (\<lambda>j. (job_id j, last_run_minute j)) jobs"

definition set_work :: "nat \<Rightarrow> work \<Rightarrow> store_state \<Rightarrow> store_state" where
  "set_work p w s = s\<lparr>work_of := (work_of s)(p := w)\<rparr>"

datatype store_act = Locking lock_act | Working nat

inductive store_step :: "(int \<Rightarrow> caltime) \<Rightarrow> store_state \<Rightarrow> store_act \<Rightarrow> store_state \<Rightarrow> bool"
  for cal where
  ask: "lock_step (lock s) (Begin p) l \<Longrightarrow>
    store_step cal s (Locking (Begin p)) (set_work p (Asked req) (s\<lparr>lock := l\<rparr>))"
| lock_move: "lock_step (lock s) (Move p) l \<Longrightarrow>
    store_step cal s (Locking (Move p)) (s\<lparr>lock := l\<rparr>)"
| time_passes: "lock_step (lock s) Clock l \<Longrightarrow> store_step cal s (Locking Clock) (s\<lparr>lock := l\<rparr>)"
| die: "lock_step (lock s) (Crash p) l \<Longrightarrow>
    store_step cal s (Locking (Crash p)) (set_work p NoWork (s\<lparr>lock := l\<rparr>))"
| load: "work_of s p = Asked req \<Longrightarrow> phase_of (lock s) p = Holding \<or>
      phase_of (lock s) p = Without \<Longrightarrow> goes_on req (phase_of (lock s) p = Holding) \<Longrightarrow>
    store_step cal s (Working p) (set_work p (Loaded req (store_file s)) s)"
| do_nothing: "work_of s p = Asked req \<Longrightarrow> phase_of (lock s) p = Without \<Longrightarrow> \<not> goes_on req False \<Longrightarrow>
    store_step cal s (Working p) (set_work p (Finished []) s)"
| write_file: "work_of s p = Loaded req tasks \<Longrightarrow>
      body cal req tasks = (jobs, Some new) \<Longrightarrow>
    store_step cal s (Working p) (set_work p (Finished jobs)
      (s\<lparr>store_file := new, used_ids := used_ids s @ map job_id new\<rparr>))"
| write_error: "work_of s p = Loaded req tasks \<Longrightarrow>
      body cal req tasks = (jobs, Some new) \<Longrightarrow>
    store_step cal s (Working p) (set_work p (Finished []) s)"
| no_write: "work_of s p = Loaded req tasks \<Longrightarrow>
      body cal req tasks = (jobs, None) \<Longrightarrow>
    store_step cal s (Working p) (set_work p (Finished jobs) s)"
| finish: "work_of s p = Finished jobs \<Longrightarrow> lock_step (lock s) (Release p) l \<Longrightarrow>
    store_step cal s (Locking (Release p)) (set_work p NoWork
      (s\<lparr>lock := l, fire_log := fire_log s @ entries jobs\<rparr>))"

definition store_init :: "scheduled_task list \<Rightarrow> store_state" where
  "store_init file = \<lparr>lock = lock_init, work_of = (\<lambda>p. NoWork), store_file = file, fire_log = [],
     used_ids = map job_id file\<rparr>"

text \<open>
  What the claim needs of the run: the lock's timing is kept; a create or delete that goes ahead
  without the lock writes over the store it has read, not over a later one; and a created
  task's id is new.
\<close>

definition lock_timely :: "store_state \<Rightarrow> store_act \<Rightarrow> store_state \<Rightarrow> bool" where
  "lock_timely s a t =
     (case a of Locking la \<Rightarrow> timely (lock s) la (lock t) | Working p \<Rightarrow> True)"

definition undisturbed :: "store_state \<Rightarrow> store_act \<Rightarrow> store_state \<Rightarrow> bool" where
  "undisturbed s a t =
     (lock_timely s a t
      \<and> (case a of
           Locking la \<Rightarrow> True
         | Working p \<Rightarrow>
             (case work_of s p of
                Loaded req tasks \<Rightarrow>
                  (phase_of (lock s) p = Without \<longrightarrow> tasks = store_file s)
                  \<and> (case req of
                       Create own now_millis counter c prompt rec \<Rightarrow>
                         new_id now_millis counter \<notin> set (used_ids s)
                     | _ \<Rightarrow> True)
              | _ \<Rightarrow> True)))"

definition store_run :: "(int \<Rightarrow> caltime) \<Rightarrow> scheduled_task list \<Rightarrow> store_state \<Rightarrow> bool" where
  "store_run cal file s \<longleftrightarrow>
     (\<lambda>s t. \<exists>a. store_step cal s a t \<and> undisturbed s a t)\<^sup>*\<^sup>* (store_init file) s"

section \<open>The tasks and the log agree\<close>

text \<open>Distinct ids, distinct fires, and every fire is recorded in the task while it lives.\<close>

definition recorded :: "scheduled_task list \<Rightarrow> (ustr \<times> int option) list \<Rightarrow> bool" where
  "recorded tasks log \<longleftrightarrow> distinct (map job_id tasks) \<and> distinct log
     \<and> (\<forall>t \<in> set tasks. \<forall>d. (job_id t, d) \<in> set log \<longrightarrow>
          (\<exists>m due. d = Some due \<and> last_run_minute t = Some m \<and> due \<le> m \<and> m < i64_max))
     \<and> (\<forall>t \<in> set tasks. \<forall>m. last_run_minute t = Some m \<longrightarrow> m < i64_max)"

lemma last_run_after:
  assumes "handles own cal alive now t = Some due"
  shows "last_run_minute (after_tick own cal alive now t) = Some due"
  using assms by (simp add: after_tick_def handled_def)

lemma distinct_ids_after:
  "distinct (map job_id ts) \<Longrightarrow> distinct (map job_id (file_after own cal alive now ts))"
proof -
  have "map job_id (map (after_tick own cal alive now) ts) = map job_id ts" by simp
  moreover assume "distinct (map job_id ts)"
  ultimately show ?thesis by (simp add: file_after_def distinct_map_filter del: map_map)
qed

lemma fired_entries_distinct:
  "distinct (map job_id ts) \<Longrightarrow>
   distinct (entries (map (after_tick own cal alive now) (filter P ts)))"
proof -
  assume d: "distinct (map job_id ts)"
  have "map fst (entries (map (after_tick own cal alive now) (filter P ts)))
      = map job_id (filter P ts)" by (simp add: entries_def comp_def)
  with distinct_map_filter [OF d] show ?thesis by (metis distinct_map)
qed

lemma recorded_smaller:
  "recorded tasks (xs @ ys) \<Longrightarrow> recorded tasks xs"
  by (auto simp: recorded_def)

lemma recorded_filter: "recorded tasks log \<Longrightarrow> recorded (filter P tasks) log"
  by (auto simp: recorded_def distinct_map_filter)

lemma recorded_new:
  assumes "recorded tasks log" and "job_id t \<notin> job_id ` set tasks" and "job_id t \<notin> fst ` set log"
    and "last_run_minute t = None"
  shows "recorded (tasks @ [t]) log"
  using assms by (force simp: recorded_def)

text \<open>A claim over tasks that agree with the log.\<close>

lemma recorded_claim:
  assumes "recorded tasks log"
  shows "recorded (file_after own cal alive (minute_of ts) tasks)
    (log @ entries (map (after_tick own cal alive (minute_of ts))
       (filter (fires own cal alive (minute_of ts)) tasks)))"
    (is "recorded _ (log @ ?new)")
proof -
  let ?n = "minute_of ts" and ?a = "after_tick own cal alive (minute_of ts)"
  from assms have ids: "distinct (map job_id tasks)" and log: "distinct log"
    and old: "\<And>t d. t \<in> set tasks \<Longrightarrow> (job_id t, d) \<in> set log \<Longrightarrow>
        \<exists>m due. d = Some due \<and> last_run_minute t = Some m \<and> due \<le> m \<and> m < i64_max"
    and max: "\<And>t m. t \<in> set tasks \<Longrightarrow> last_run_minute t = Some m \<Longrightarrow> m < i64_max"
    by (auto simp: recorded_def)
  have same: "t = u" if "t \<in> set tasks" "u \<in> set tasks" "job_id t = job_id u" for t u
    using ids that by (simp add: distinct_map inj_on_def)
  have new: "\<exists>t due. t \<in> set tasks \<and> handles own cal alive ?n t = Some due \<and> x = (job_id t, Some due)"
    if "x \<in> set ?new" for x
    using that last_run_after by (force simp: entries_def fires_def split: option.splits)
  have later: "m < due" if "t \<in> set tasks" "handles own cal alive ?n t = Some due" "last_run_minute t = Some m"
    for t due m
    using handles_Some(2) [OF that(2)] due_floor_after [OF max [OF that(1,3)] that(3)] by simp
  have bound: "due < i64_max" if "handles own cal alive ?n t = Some due" for t due
    using handles_Some(3) [OF that] minute_of_lt [of ts] by simp
  have "set ?new \<inter> set log = {}"
  proof (intro equals0I)
    fix x assume x: "x \<in> set ?new \<inter> set log"
    with new obtain t due where t: "t \<in> set tasks" "handles own cal alive ?n t = Some due" "x = (job_id t, Some due)"
      by blast
    with x old [OF t(1), of "Some due"] obtain m where "last_run_minute t = Some m" "due \<le> m" by auto
    with later [OF t(1,2)] show False by fastforce
  qed
  then have d: "distinct (log @ ?new)"
    using log fired_entries_distinct [OF ids] by auto
  have upd: "\<exists>m due'. d = Some due' \<and> last_run_minute (?a t) = Some m \<and> due' \<le> m \<and> m < i64_max"
    if t: "t \<in> set tasks" and e: "(job_id t, d) \<in> set (log @ ?new)" for t d
  proof (cases "(job_id t, d) \<in> set log")
    case True
    from old [OF t True] obtain m due where m: "d = Some due" "last_run_minute t = Some m" "due \<le> m" "m < i64_max"
      by blast
    show ?thesis
    proof (cases "handles own cal alive ?n t")
      case None
      with m show ?thesis by (simp add: after_tick_def)
    next
      case (Some due')
      with m later [OF t Some m(2)] last_run_after [OF Some] bound [OF Some] show ?thesis by auto
    qed
  next
    case False
    with e have "(job_id t, d) \<in> set ?new" by auto
    from new [OF this] obtain u due where u: "u \<in> set tasks" "handles own cal alive ?n u = Some due"
      "job_id t = job_id u" "d = Some due" by auto
    with same t have "t = u" by blast
    with u last_run_after [OF u(2)] bound [OF u(2)] show ?thesis by auto
  qed
  have "m < i64_max" if "t \<in> set tasks" "last_run_minute (?a t) = Some m" for t m
    using that max [OF that(1)] last_run_after [of own cal alive ?n t] bound [of t]
    by (cases "handles own cal alive ?n t") (auto simp: after_tick_def)
  with d upd distinct_ids_after [OF ids] show ?thesis
    unfolding recorded_def by (auto simp: file_after_def)
qed

text \<open>What the closure of a claim that holds the lock fires and writes.\<close>

lemma scan_due_eq:
  assumes "scan_due own cal alive ts tasks = (cl, tasks', changed)"
  shows "tasks' = file_after own cal alive (minute_of ts) tasks
    \<and> fired_jobs cl = map (after_tick own cal alive (minute_of ts))
        (filter (fires own cal alive (minute_of ts)) tasks)
    \<and> (\<not> changed \<longrightarrow> fired_jobs cl = [] \<and> tasks' = tasks)"
proof -
  have t: "claim_due_tick_with own cal alive True True ts tasks =
      (Some \<lparr>tick_claimed = cl, tick_jobs = Some tasks'\<rparr>, if changed then tasks' else tasks)"
    using assms by (simp add: claim_due_tick_with_def)
  have f: "claim_due_tick_with own cal alive True False ts tasks =
      (if changed then None else Some \<lparr>tick_claimed = cl, tick_jobs = Some tasks'\<rparr>, tasks)"
    using assms by (simp add: claim_due_tick_with_def)
  have "\<not> changed \<longrightarrow> fired_jobs cl = []"
    using tick_failed [OF f] by (cases changed) simp_all
  then show ?thesis
    using tick_eq [of own cal alive ts tasks] t by (auto split: if_splits)
qed

section \<open>What every step keeps\<close>

lemma body_jobs: "body cal req tasks = (jobs, w) \<Longrightarrow> goes_on req held \<Longrightarrow> jobs \<noteq> [] \<Longrightarrow> held"
  by (auto simp: body_def goes_on_def Let_def split: request.splits if_splits)

lemma body_no_write: "body cal req tasks = (jobs, None) \<Longrightarrow> jobs = []"
  by (auto simp: body_def Let_def dest: scan_due_eq split: request.splits if_splits prod.splits)

text \<open>The ids in what is fired and written come from the tasks read, or are the created task's.\<close>

definition created_id :: "request \<Rightarrow> ustr set" where
  "created_id req = (case req of Create own now_millis counter c prompt rec \<Rightarrow> {new_id now_millis counter}
     | _ \<Rightarrow> {})"

lemma body_fired_ids:
  "body cal req tasks = (jobs, w) \<Longrightarrow> fst ` set (entries jobs) \<subseteq> job_id ` set tasks"
  by (force simp: body_def Let_def entries_def dest: scan_due_eq split: request.splits if_splits prod.splits)

text \<open>What a write does to tasks that agree with the log.\<close>

lemma recorded_body:
  assumes "recorded tasks log" and "body cal req tasks = (jobs, Some new)"
    and "created_id req \<inter> (job_id ` set tasks \<union> fst ` set log) = {}"
  shows "recorded new (log @ entries jobs)"
proof (cases req)
  case (Claim own alive ts)
  with assms(2) obtain cl where "scan_due own cal alive ts tasks = (cl, new, True)" "jobs = fired_jobs cl"
    by (auto simp: body_def split: if_splits prod.splits)
  with scan_due_eq [OF this(1)] recorded_claim [OF assms(1), of own cal alive ts] show ?thesis by simp
next
  case (Create own n k c prompt rec)
  with assms show ?thesis
    by (auto simp: body_def entries_def created_id_def new_task_def intro!: recorded_new
        dest: image_eqI [of "new_id n k" fst, OF sym [OF fst_conv]])
next
  case (Delete i)
  with assms(1,2) show ?thesis
    by (auto simp: body_def entries_def Let_def recorded_filter split: if_splits)
qed

definition pend :: "store_state \<Rightarrow> nat \<Rightarrow> (ustr \<times> int option) list" where
  "pend s p = (case work_of s p of Finished jobs \<Rightarrow> entries jobs | _ \<Rightarrow> [])"

definition at_work :: "work \<Rightarrow> bool" where
  "at_work w = (case w of Loaded _ _ \<Rightarrow> True | Finished _ \<Rightarrow> True | _ \<Rightarrow> False)"

lemma at_work_simps [simp]:
  "at_work (Loaded req tasks)" "at_work (Finished jobs)" "\<not> at_work NoWork" "\<not> at_work (Asked req)"
  by (simp_all add: at_work_def)

lemma set_work_simps [simp]:
  "work_of (set_work p w s) q = (if q = p then w else work_of s q)"
  "lock (set_work p w s) = lock s" "store_file (set_work p w s) = store_file s"
  "fire_log (set_work p w s) = fire_log s" "used_ids (set_work p w s) = used_ids s"
  by (simp_all add: set_work_def)

lemma pend_set_work:
  "pend (set_work p w s) q = (if q = p then (case w of Finished jobs \<Rightarrow> entries jobs | _ \<Rightarrow> []) else pend s q)"
  by (simp add: pend_def)

lemma pend_at_work: "pend s p \<noteq> [] \<Longrightarrow> at_work (work_of s p)"
  by (auto simp: pend_def split: work.splits)

lemma pend_same [simp]:
  "pend (s\<lparr>lock := l\<rparr>) p = pend s p" "pend (s\<lparr>store_file := f, used_ids := u\<rparr>) p = pend s p"
  "pend (s\<lparr>lock := l, fire_log := g\<rparr>) p = pend s p"
  by (simp_all add: pend_def)

text \<open>Only the acting process changes its phase, and one that works has got past the loop.\<close>

lemma lock_others:
  assumes "lock_step l a l'"
  shows "case a of Clock \<Rightarrow> phase_of l' = phase_of l
    | Begin p \<Rightarrow> phase_of l p = Idle \<and> (\<forall>q. q \<noteq> p \<longrightarrow> phase_of l' q = phase_of l q)
    | Move p \<Rightarrow> phase_of l p \<notin> {Holding, Without} \<and> (\<forall>q. q \<noteq> p \<longrightarrow> phase_of l' q = phase_of l q)
    | Release p \<Rightarrow> (\<forall>q. q \<noteq> p \<longrightarrow> phase_of l' q = phase_of l q)
    | Crash p \<Rightarrow> (\<forall>q. q \<noteq> p \<longrightarrow> phase_of l' q = phase_of l q)"
  using assms by (induction rule: lock_step.induct) auto

definition phases_ok :: "store_state \<Rightarrow> bool" where
  "phases_ok s \<longleftrightarrow> lock_inv (lock s)
     \<and> (\<forall>p. at_work (work_of s p) \<longrightarrow> phase_of (lock s) p \<in> {Holding, Without})
     \<and> (\<forall>p. pend s p \<noteq> [] \<longrightarrow> phase_of (lock s) p = Holding)
     \<and> (\<forall>p req tasks. work_of s p = Loaded req tasks \<longrightarrow> goes_on req (phase_of (lock s) p = Holding))"

lemma phases_ok_step:
  assumes "store_step cal s a t" and "undisturbed s a t" and "phases_ok s"
  shows "phases_ok t"
  using assms
proof (induction rule: store_step.induct)
  case (ask s p l req)
  then have "lock_inv l" by (auto simp: undisturbed_def lock_timely_def phases_ok_def intro: lock_inv_step)
  with ask lock_others [OF ask(1)] show ?case by (auto simp: phases_ok_def pend_set_work)
next
  case (lock_move s p l)
  then have "lock_inv l" by (auto simp: undisturbed_def lock_timely_def phases_ok_def intro: lock_inv_step)
  moreover have "phase_of l q = phase_of (lock s) q" if "at_work (work_of s q)" for q
    using lock_others [OF lock_move(1)] lock_move(3) that by (cases "q = p") (auto simp: phases_ok_def)
  ultimately show ?case using lock_move(3) pend_at_work by (fastforce simp: phases_ok_def)
next
  case (time_passes s l)
  then have "lock_inv l" by (auto simp: undisturbed_def lock_timely_def phases_ok_def intro: lock_inv_step)
  with time_passes lock_others [OF time_passes(1)] show ?case by (auto simp: phases_ok_def)
next
  case (die s p l)
  then have "lock_inv l" by (auto simp: undisturbed_def lock_timely_def phases_ok_def intro: lock_inv_step)
  with die lock_others [OF die(1)] show ?case by (auto simp: phases_ok_def pend_set_work)
next
  case (finish s p jobs l)
  then have "lock_inv l" by (auto simp: undisturbed_def lock_timely_def phases_ok_def intro: lock_inv_step)
  with finish lock_others [OF finish(2)] show ?case by (auto simp: phases_ok_def pend_set_work)
next
  case (write_file s p req tasks jobs new)
  then have "goes_on req (phase_of (lock s) p = Holding)" by (simp add: phases_ok_def)
  with write_file body_jobs [OF write_file(2) this] show ?case by (force simp: phases_ok_def pend_set_work entries_def)
next
  case (no_write s p req tasks jobs)
  with body_no_write [OF no_write(2)] show ?case by (force simp: phases_ok_def pend_set_work entries_def)
qed (force simp: phases_ok_def pend_set_work entries_def)+

text \<open>Two processes are never both beyond the lock.\<close>

lemma one_holder:
  "phases_ok s \<Longrightarrow> phase_of (lock s) p = Holding \<Longrightarrow> phase_of (lock s) q = Holding \<Longrightarrow> p = q"
  unfolding phases_ok_def lock_inv_def by (metis option.inject prod.inject)

definition ids_known :: "store_state \<Rightarrow> bool" where
  "ids_known s \<longleftrightarrow> job_id ` set (store_file s) \<subseteq> set (used_ids s)
     \<and> fst ` set (fire_log s) \<subseteq> set (used_ids s)
     \<and> (\<forall>p. fst ` set (pend s p) \<subseteq> set (used_ids s))
     \<and> (\<forall>p req tasks. work_of s p = Loaded req tasks \<longrightarrow> job_id ` set tasks \<subseteq> set (used_ids s))"

lemma ids_knownD:
  assumes "ids_known s"
  shows "job_id ` set (store_file s) \<subseteq> set (used_ids s)" "fst ` set (fire_log s) \<subseteq> set (used_ids s)"
    "fst ` set (pend s p) \<subseteq> set (used_ids s)"
    "work_of s p = Loaded req tasks \<Longrightarrow> job_id ` set tasks \<subseteq> set (used_ids s)"
  using assms by (simp_all add: ids_known_def)

lemma ids_known_set_work:
  assumes "ids_known s"
    and "case w of Finished jobs \<Rightarrow> fst ` set (entries jobs) \<subseteq> set (used_ids s)
      | Loaded req tasks \<Rightarrow> job_id ` set tasks \<subseteq> set (used_ids s) | _ \<Rightarrow> True"
  shows "ids_known (set_work p w s)"
  using assms by (auto simp: ids_known_def pend_set_work split: work.splits)

lemma ids_known_lock: "ids_known (s\<lparr>lock := l\<rparr>) = ids_known s"
  by (simp add: ids_known_def)

lemma ids_known_step:
  assumes "store_step cal s a t" and "ids_known s"
  shows "ids_known t"
  using assms
proof (induction rule: store_step.induct)
  case (load s p req)
  with ids_knownD(1) show ?case by (intro ids_known_set_work) auto
next
  case (finish s p jobs l)
  from ids_knownD(3) [OF finish(3), of p] finish(1) have "fst ` set (entries jobs) \<subseteq> set (used_ids s)"
    by (simp add: pend_def)
  with finish(3) have "ids_known (s\<lparr>lock := l, fire_log := fire_log s @ entries jobs\<rparr>)"
    by (simp add: ids_known_def image_Un)
  then show ?case by (intro ids_known_set_work) simp_all
next
  case (write_file s p req tasks jobs new)
  from write_file(3) have "ids_known (s\<lparr>store_file := new, used_ids := used_ids s @ map job_id new\<rparr>)"
    by (simp add: ids_known_def le_supI1)
  moreover have "fst ` set (entries jobs) \<subseteq> set (used_ids s)"
    using body_fired_ids [OF write_file(2)] ids_knownD(4) [OF write_file(3,1)] by blast
  ultimately show ?case by (intro ids_known_set_work) auto
next
  case (no_write s p req tasks jobs)
  with body_no_write [OF no_write(2)] show ?case by (intro ids_known_set_work) (simp_all add: entries_def)
qed (simp add: ids_known_lock | intro ids_known_set_work; simp add: ids_known_lock entries_def)+

text \<open>
  The store agrees with what has been submitted and with what each process is about to submit,
  and what a holder has read agrees with what has been submitted.
\<close>

definition store_ok :: "store_state \<Rightarrow> bool" where
  "store_ok s \<longleftrightarrow>
     (\<forall>p. recorded (store_file s) (fire_log s @ pend s p))
     \<and> (\<forall>p req tasks. work_of s p = Loaded req tasks \<longrightarrow> phase_of (lock s) p = Holding \<longrightarrow>
          recorded tasks (fire_log s))"

lemma store_ok_log: "store_ok s \<Longrightarrow> recorded (store_file s) (fire_log s)"
  using recorded_smaller unfolding store_ok_def by blast

lemma pend_others:
  assumes "phases_ok s" and "phase_of (lock s) p = Holding" and "q \<noteq> p"
  shows "pend s q = []"
  using assms one_holder [OF assms(1,2), of q] by (auto simp: phases_ok_def)

lemma store_ok_write:
  assumes "store_ok s" and "phases_ok s" and "ids_known s"
    and "work_of s p = Loaded req tasks"
    and "body cal req tasks = (jobs, Some new)"
    and "undisturbed s (Working p) t"
  shows "store_ok (set_work p (Finished jobs) (s\<lparr>store_file := new, used_ids := u\<rparr>))"
proof -
  have fresh: "created_id req \<inter> set (used_ids s) = {}"
    using assms(4,6) by (auto simp: undisturbed_def created_id_def split: request.splits)
  have known: "job_id ` set tasks \<subseteq> set (used_ids s)" "fst ` set (fire_log s) \<subseteq> set (used_ids s)"
    "fst ` set (pend s q) \<subseteq> set (used_ids s)" for q
    using assms(3,4) unfolding ids_known_def by auto
  have busy: "phase_of (lock s) p = Holding \<or> phase_of (lock s) p = Without"
  proof -
    have "at_work (work_of s p)" using assms(4) by simp
    with assms(2) show ?thesis by (auto simp: phases_ok_def)
  qed
  show ?thesis
  proof (cases "phase_of (lock s) p = Holding")
    case True
    then have "recorded tasks (fire_log s)" using assms(1,4) by (auto simp: store_ok_def)
    moreover have "created_id req \<inter> (job_id ` set tasks \<union> fst ` set (fire_log s)) = {}"
      using fresh known by blast
    ultimately have r: "recorded new (fire_log s @ entries jobs)"
      by (rule recorded_body [OF _ assms(5)])
    have "pend s q = []" if "q \<noteq> p" for q using pend_others [OF assms(2) True that] .
    moreover have "phase_of (lock s) q \<noteq> Holding" if "q \<noteq> p" for q
      using one_holder [OF assms(2) True] that by blast
    ultimately show ?thesis
      using r recorded_smaller [OF r] by (auto simp: store_ok_def pend_set_work)
  next
    case False
    then have w: "phase_of (lock s) p = Without" using busy by simp
    then have tasks: "tasks = store_file s" using assms(4,6) by (simp add: undisturbed_def)
    from False assms(2,4) have "goes_on req False" unfolding phases_ok_def by metis
    with body_jobs [OF assms(5) this] have j: "jobs = []" by blast
    have "recorded new (fire_log s @ pend s q)" for q
    proof -
      have "created_id req \<inter> (job_id ` set tasks \<union> fst ` set (fire_log s @ pend s q)) = {}"
        using fresh known(1,2) known(3) [of q] by (auto simp: image_Un)
      with recorded_body [OF _ assms(5), of "fire_log s @ pend s q"] assms(1) show ?thesis
        by (simp add: tasks j entries_def store_ok_def)
    qed
    moreover from this [of p] have "recorded new (fire_log s)" by (rule recorded_smaller)
    ultimately show ?thesis
      using assms(1,4) w by (auto simp: store_ok_def pend_set_work j entries_def)
  qed
qed

lemma store_ok_finish:
  assumes "store_ok s" and "phases_ok s" and "work_of s p = Finished jobs"
    and "lock_step (lock s) (Release p) l"
  shows "store_ok (set_work p NoWork (s\<lparr>lock := l, fire_log := fire_log s @ entries jobs\<rparr>))"
proof -
  have pp: "pend s p = entries jobs" using assms(3) by (simp add: pend_def)
  have others: "\<And>q. q \<noteq> p \<Longrightarrow> phase_of l q = phase_of (lock s) q" using lock_others [OF assms(4)] by simp
  show ?thesis
  proof (cases "entries jobs = []")
    case True
    with assms(1) others store_ok_log [OF assms(1)] show ?thesis
      by (auto simp: store_ok_def pend_set_work)
  next
    case False
    then have h: "phase_of (lock s) p = Holding" using assms(2) pp by (auto simp: phases_ok_def)
    have "phase_of (lock s) q \<noteq> Holding" "pend s q = []" if "q \<noteq> p" for q
      using one_holder [OF assms(2) h] pend_others [OF assms(2) h] that by blast+
    moreover have "recorded (store_file s) (fire_log s @ entries jobs)"
      using assms(1) pp unfolding store_ok_def by metis
    ultimately show ?thesis using others by (auto simp: store_ok_def pend_set_work)
  qed
qed

lemma store_file_ok_step:
  assumes "store_step cal s a t" and "undisturbed s a t" and "store_ok s" and "phases_ok s" and "ids_known s"
  shows "store_ok t"
  using assms
proof (induction rule: store_step.induct)
  case (ask s p l req)
  with lock_others [OF ask(1)] store_ok_log [OF ask(3)] show ?case
    by (auto simp: store_ok_def pend_set_work)
next
  case (lock_move s p l)
  have "phase_of l q = phase_of (lock s) q" if "at_work (work_of s q)" for q
    using lock_others [OF lock_move(1)] lock_move(4) that by (cases "q = p") (auto simp: phases_ok_def)
  with lock_move(3) show ?case by (auto simp: store_ok_def)
next
  case (time_passes s l)
  with lock_others [OF time_passes(1)] show ?case by (auto simp: store_ok_def)
next
  case (die s p l)
  with lock_others [OF die(1)] store_ok_log [OF die(3)] show ?case
    by (auto simp: store_ok_def pend_set_work)
next
  case (load s p req)
  with store_ok_log [OF load(5)] show ?case by (auto simp: store_ok_def pend_set_work)
next
  case (do_nothing s p req)
  with store_ok_log [OF do_nothing(5)] show ?case by (auto simp: store_ok_def pend_set_work entries_def)
next
  case (write_file s p req tasks jobs new)
  show ?case
    by (rule store_ok_write [OF write_file(4-6,1,2)]) (use write_file(3,1) in \<open>simp add: undisturbed_def lock_timely_def\<close>)
next
  case (write_error s p req tasks jobs new)
  with store_ok_log [OF write_error(4)] show ?case by (auto simp: store_ok_def pend_set_work entries_def)
next
  case (no_write s p req tasks jobs)
  with store_ok_log [OF no_write(4)] body_no_write [OF no_write(2)] show ?case
    by (auto simp: store_ok_def pend_set_work entries_def)
next
  case (finish s p jobs l)
  show ?case by (rule store_ok_finish [OF finish(4,5,1,2)])
qed

lemma store_run_ok:
  assumes "store_run cal file s" and "distinct (map job_id file)"
    and "\<forall>t \<in> set file. \<forall>m. last_run_minute t = Some m \<longrightarrow> m < i64_max"
  shows "phases_ok s \<and> ids_known s \<and> store_ok s"
  using assms(1) unfolding store_run_def
proof (induction rule: rtranclp_induct)
  case base
  show ?case
    using assms(2,3) lock_inv_init
    by (simp add: phases_ok_def ids_known_def store_ok_def store_init_def pend_def recorded_def)
next
  case (step s t)
  then show ?case using phases_ok_step ids_known_step store_file_ok_step by blast
qed

text \<open>
  C12: Across all processes a job fires at most once for a due minute. Start from any store
  with distinct ids (and last-run minutes below the largest \<^verbatim>\<open>i64\<close>) and let any number of
  processes claim, create and delete, their steps on the lock file and the store interleaved in
  any way, with any owners and times, waits for the lock that end without it, writes that fail
  and crashes at any point. As long as the lock's timing is kept, a create or delete that goes
  ahead without the lock writes over the store as it read it, and created ids are new, no
  (job, due minute) pair is submitted twice.
\<close>

theorem fires_at_most_once:
  assumes "store_run cal file s" and "distinct (map job_id file)"
    and "\<forall>t \<in> set file. \<forall>m. last_run_minute t = Some m \<longrightarrow> m < i64_max"
  shows "distinct (fire_log s)"
  using store_run_ok [OF assms] store_ok_log unfolding recorded_def by blast

section \<open>Runs\<close>

abbreviation claim_a :: request where "claim_a \<equiv> Claim owner_9 (\<lambda>p. False) 120"

definition after_a :: scheduled_task where "after_a = handled owner_9 2 job_a 2"

lemma claim_body_a:
  assumes "\<forall>t \<in> set rest. handles owner_9 every_minute (\<lambda>p. False) 2 t = None"
  shows "body every_minute claim_a (job_a # rest) = ([after_a], Some (after_a # rest))"
proof -
  obtain cl tasks' changed where sc: "scan_due owner_9 every_minute (\<lambda>p. False) 120 (job_a # rest) = (cl, tasks', changed)"
    by (cases "scan_due owner_9 every_minute (\<lambda>p. False) 120 (job_a # rest)")
  note eq = scan_due_eq [OF sc, simplified minute_of_120]
  have a: "handles owner_9 every_minute (\<lambda>p. False) 2 job_a = Some 2" using job_a_handled [of 2] by simp
  then have f: "filter (fires owner_9 every_minute (\<lambda>p. False) 2) (job_a # rest) = [job_a]"
    using assms by (auto simp: fires_def late_fire_minutes_def filter_empty_conv)
  have r: "recurring job_a" by (simp add: job_a_def)
  have sp: "spent_ids owner_9 every_minute (\<lambda>p. False) 2 (job_a # rest) = {}"
    using assms r by (auto simp: spent_ids_def)
  have "map (after_tick owner_9 every_minute (\<lambda>p. False) 2) rest = rest"
    using assms by (simp add: after_tick_def map_idI)
  then have "tasks' = after_a # rest" "fired_jobs cl = [after_a]"
    using eq f a by (simp_all add: file_after_def sp after_a_def after_tick_def)
  with eq sc show ?thesis by (auto simp: body_def)
qed

lemma entries_a: "entries [after_a] = [(job_id job_a, Some 2)]"
  by (simp add: entries_def after_a_def handled_def)

text \<open>Steps as functions of the state.\<close>

definition asks :: "nat \<Rightarrow> request \<Rightarrow> store_state \<Rightarrow> store_state" where
  "asks p req s = set_work p (Asked req) (s\<lparr>lock := begins p (lock s)\<rparr>)"

definition locks :: "(lock_state \<Rightarrow> lock_state) \<Rightarrow> store_state \<Rightarrow> store_state" where
  "locks f s = s\<lparr>lock := f (lock s)\<rparr>"

definition loads :: "nat \<Rightarrow> request \<Rightarrow> store_state \<Rightarrow> store_state" where
  "loads p req s = set_work p (Loaded req (store_file s)) s"

definition writes :: "nat \<Rightarrow> scheduled_task list \<Rightarrow> scheduled_task list \<Rightarrow> store_state \<Rightarrow> store_state" where
  "writes p jobs new s = set_work p (Finished jobs)
     (s\<lparr>store_file := new, used_ids := used_ids s @ map job_id new\<rparr>)"

definition frees :: "nat \<Rightarrow> scheduled_task list \<Rightarrow> store_state \<Rightarrow> store_state" where
  "frees p jobs s = set_work p NoWork (s\<lparr>lock := goto p Idle ((lock s)\<lparr>lock_file := None\<rparr>),
     fire_log := fire_log s @ entries jobs\<rparr>)"

definition leaves :: "nat \<Rightarrow> store_state \<Rightarrow> store_state" where
  "leaves p s = set_work p NoWork (s\<lparr>lock := goto p Idle (lock s), fire_log := fire_log s @ entries []\<rparr>)"

definition three_seconds :: "lock_state \<Rightarrow> lock_state" where
  "three_seconds s = s\<lparr>wall := wall s + 3000, instant := instant s + 3000\<rparr>"

lemma step_asks: "phase_of (lock s) p = Idle \<Longrightarrow> store_step cal s (Locking (Begin p)) (asks p req s)"
  unfolding asks_def by (rule ask) (rule step_begins)

lemma step_locks: "lock_step (lock s) (Move p) (f (lock s)) \<Longrightarrow>
    store_step cal s (Locking (Move p)) (locks f s)"
  unfolding locks_def by (rule lock_move)

lemma step_three_seconds: "store_step cal s (Locking Clock) (locks three_seconds s)"
  unfolding locks_def three_seconds_def by (rule time_passes, rule clock) simp

lemma step_loads: "work_of s p = Asked req \<Longrightarrow> phase_of (lock s) p = Holding
    \<or> phase_of (lock s) p = Without \<and> goes_on req False \<Longrightarrow>
    store_step cal s (Working p) (loads p req s)"
  unfolding loads_def by (rule load) (auto simp: goes_on_def split: request.splits)

lemma step_writes: "(case work_of s p of
      Loaded req tasks \<Rightarrow> body cal req tasks = (jobs, Some new)
    | _ \<Rightarrow> False) \<Longrightarrow> store_step cal s (Working p) (writes p jobs new s)"
  unfolding writes_def by (auto split: work.splits intro: write_file)

lemma step_frees: "work_of s p = Finished jobs \<Longrightarrow> phase_of (lock s) p = Holding \<Longrightarrow>
    store_step cal s (Locking (Release p)) (frees p jobs s)"
  unfolding frees_def by (rule finish) (auto intro: drop_lock)

lemma step_leaves: "work_of s p = Finished [] \<Longrightarrow> phase_of (lock s) p = Without \<Longrightarrow>
    store_step cal s (Locking (Release p)) (leaves p s)"
  unfolding leaves_def by (rule finish) (auto intro: drop_without)

lemma step_takes': "phase_of (lock s) p = Trying \<and> lock_file (lock s) = None \<Longrightarrow>
    store_step cal s (Locking (Move p)) (locks (takes p) s)"
  by (rule step_locks) (auto intro: step_takes)

lemma step_found: "phase_of (lock s) p = Trying \<and> lock_file (lock s) \<noteq> None \<Longrightarrow>
    store_step cal s (Locking (Move p)) (locks (goto p Found) s)"
  by (rule step_locks) (auto intro: already_exists)

lemma step_judging': "phase_of (lock s) p = Found \<and> map_option snd (lock_file (lock s)) = Some m \<Longrightarrow>
    store_step cal s (Locking (Move p)) (locks (goto p (Judging m)) s)"
  by (rule step_locks) (auto intro: read_modified)

lemma step_waiting: "(case phase_of (lock s) p of Judging m \<Rightarrow> \<not> too_old m (wall (lock s)) | _ \<Rightarrow> False) \<Longrightarrow>
    store_step cal s (Locking (Move p)) (locks (goto p Waiting) s)"
  using judge [of "lock s" p] by (intro step_locks) (auto split: phase.splits)

lemma step_without: "phase_of (lock s) p = Waiting \<and> instant (lock s) - started (lock s) p \<ge> lock_wait_ms \<Longrightarrow>
    store_step cal s (Locking (Move p)) (locks (goto p Without) s)"
  by (rule step_locks) (auto intro: wait_over)

lemmas store_rules = step_asks step_three_seconds step_loads step_writes step_frees step_leaves
  step_takes' step_found step_judging' step_waiting step_without

lemmas store_moves = asks_def locks_def loads_def writes_def frees_def leaves_def set_work_def
  three_seconds_def store_init_def

definition one_fire :: "store_state list" where
  "one_fire =
     (let s1 = asks 0 claim_a (store_init [job_a]); s2 = locks (takes 0) s1; s3 = loads 0 claim_a s2;
          s4 = writes 0 [after_a] [after_a] s3; s5 = frees 0 [after_a] s4
      in [s1, s2, s3, s4, s5])"

lemma one_fire_run: "store_run every_minute [job_a] (last one_fire)"
proof -
  have "chain (\<lambda>s t. \<exists>a. store_step every_minute s a t \<and> undisturbed s a t)
      (store_init [job_a] # one_fire)"
    by (simp add: one_fire_def Let_def)
       (intro conjI; rule exI, rule conjI, rule store_rules;
         simp add: store_moves moves undisturbed_def lock_timely_def timely_def punctual_def
           removes_def too_old_def stale_lock_ms_def claim_body_a)
  from chain_reaches [OF this] show ?thesis by (simp add: store_run_def one_fire_def Let_def)
qed

theorem fires_at_most_once_witness:
  "\<exists>s. store_run every_minute [job_a] s \<and> fire_log s = [(job_id job_a, Some 2)] \<and> distinct (fire_log s)"
proof -
  have "fire_log (last one_fire) = [(job_id job_a, Some 2)]"
    by (simp add: one_fire_def Let_def store_moves entries_a)
  moreover have "distinct (fire_log (last one_fire))"
    by (rule fires_at_most_once [OF one_fire_run]) (simp_all add: job_a_def)
  ultimately show ?thesis using one_fire_run by blast
qed

text \<open>
  A create that goes ahead without the lock makes a job fire twice. A holder that needs more
  than three seconds (and less than ten) is enough: the create reads the store before the claim
  is written and writes over it afterwards, so the recorded minute is lost and the next claim
  fires the same due minute again. The lock's timing is kept throughout, nobody crashes and the
  created id is new. The module promises that two processes that share a store fire a due task
  once; \<^verbatim>\<open>with_lock\<close> lets a create and a delete run without the lock.
\<close>

definition never_due :: request where "never_due = Create owner_9 0 0 (U ''x'') (U ''p'') True"

definition b_task :: scheduled_task where "b_task = new_task owner_9 0 0 (U ''x'') (U ''p'') True"

lemma b_not_due: "handles owner_9 every_minute (\<lambda>p. False) 2 b_task = None"
proof -
  have "\<not> cron_hit (U ''x'') t" for t
    by (simp add: cron_hit_def cron_matches_def split_fields_def split_whitespace_def is_ws_def ustr_eval)
  then show ?thesis
    by (simp add: handles_def b_task_def new_task_def latest_due_minute_def search_due_None)
qed

lemma never_due_body: "body every_minute never_due tasks = ([], Some (tasks @ [b_task]))"
  by (simp add: body_def never_due_def b_task_def)

definition refire :: "store_state list" where
  "refire =
     (let s1 = asks 0 claim_a (store_init [job_a]); s2 = locks (takes 0) s1;
          s3 = asks 1 never_due s2; s4 = loads 0 claim_a s3;
          s5 = locks (goto 1 Found) s4; s6 = locks (goto 1 (Judging 0)) s5;
          s7 = locks (goto 1 Waiting) s6; s8 = locks three_seconds s7;
          s9 = locks (goto 1 Without) s8; s10 = loads 1 never_due s9;
          s11 = writes 0 [after_a] [after_a] s10; s12 = frees 0 [after_a] s11;
          s13 = writes 1 [] [job_a, b_task] s12; s14 = leaves 1 s13;
          s15 = asks 0 claim_a s14; s16 = locks (takes 0) s15; s17 = loads 0 claim_a s16;
          s18 = writes 0 [after_a] [after_a, b_task] s17; s19 = frees 0 [after_a] s18
      in [s1, s2, s3, s4, s5, s6, s7, s8, s9, s10, s11, s12, s13, s14, s15, s16, s17, s18, s19])"

theorem unlocked_create_refires:
  "\<exists>s. (\<lambda>s t. \<exists>a. store_step every_minute s a t \<and> lock_timely s a t \<and> (\<forall>p. a \<noteq> Locking (Crash p)))\<^sup>*\<^sup>*
       (store_init [job_a]) s
     \<and> fire_log s = [(job_id job_a, Some 2), (job_id job_a, Some 2)]"
proof -
  let ?R = "\<lambda>s t. \<exists>a. store_step every_minute s a t \<and> lock_timely s a t \<and> (\<forall>p. a \<noteq> Locking (Crash p))"
  have n: "goes_on never_due False" by (simp add: never_due_def goes_on_def)
  have "chain ?R (store_init [job_a] # refire)"
    by (simp add: refire_def Let_def)
       (intro conjI; rule exI, rule conjI, rule store_rules;
         simp add: store_moves moves lock_timely_def timely_def punctual_def n lock_wait_ms_def
           removes_def too_old_def stale_lock_ms_def claim_body_a b_not_due never_due_body)
  from chain_reaches [OF this] have "?R\<^sup>*\<^sup>* (store_init [job_a]) (last refire)"
    by (simp add: refire_def Let_def)
  moreover have "fire_log (last refire) = [(job_id job_a, Some 2), (job_id job_a, Some 2)]"
    by (simp add: refire_def Let_def store_moves entries_a) (simp add: entries_def)
  ultimately show ?thesis by blast
qed

end
