(* ===== verification/Loop_Command.thy ===== *)
theory Loop_Command
  imports Cron
begin

text \<open>
  \<^verbatim>\<open>crates/hoocode-code-scheduler/src/loop_command.rs\<close>: the arguments of \<^verbatim>\<open>/loop\<close> and the
  state of \<^verbatim>\<open>/loop auto\<close>. An error message is the left side of a sum.
\<close>

definition done_token :: ustr where "done_token = U ''LOOP_DONE''"
definition default_max_turns :: nat where "default_max_turns = 10"

definition usage :: ustr where
  "usage = U ''Usage: /loop '' @ [34] @ U ''<cron>'' @ [34] @ U '' <prompt> | /loop <5m|2h|1d> <prompt> | ''
     @ U ''/loop once <schedule> <prompt> | /loop list | /loop delete <id> | /loop stop | ''
     @ U ''/loop auto [--max-turns N] <task>''"

record schedule =
  sched_cron :: ustr
  sched_recurring :: bool

datatype loop_command =
    Create schedule ustr
  | List_tasks
  | Delete ustr
  | Stop
  | Auto nat ustr

section \<open>Parsing\<close>

definition split_ws_once :: "ustr \<Rightarrow> (ustr \<times> ustr) option" where
  "split_ws_once s =
     (case dropWhile (\<lambda>c. \<not> is_ws c) s of
        [] \<Rightarrow> None
      | _ # rest \<Rightarrow> Some (takeWhile (\<lambda>c. \<not> is_ws c) s, rest))"

definition split_word :: "ustr \<Rightarrow> ustr \<times> ustr" where
  "split_word s =
     (case split_ws_once (trim s) of
        Some (word, rest) \<Rightarrow> (word, trim rest)
      | None \<Rightarrow> (trim s, []))"

text \<open>\<open>None\<close>: not an interval at all. The unit is the token's last character.\<close>

definition interval_cron :: "ustr \<Rightarrow> (ustr + ustr) option" where
  "interval_cron token =
     (if token = [] then None
      else (let unit_char = last token; digits = butlast token
            in if digits = [] \<or> \<not> list_all is_digit digits then None
               else (case parse_u64 digits of
                       None \<Rightarrow> None
                     | Some n \<Rightarrow>
                         if unit_char = C CHR ''m'' \<and> 1 \<le> n \<and> n \<le> 59 \<and> n dvd 60
                         then Some (Inr (U ''*/'' @ nat_digits n @ U '' * * * *''))
                         else if unit_char = C CHR ''h'' \<and> 1 \<le> n \<and> n \<le> 23 \<and> n dvd 24
                         then Some (Inr (U ''0 */'' @ nat_digits n @ U '' * * *''))
                         else if unit_char = C CHR ''d'' \<and> 1 \<le> n \<and> n \<le> 31
                         then Some (Inr (U ''0 0 */'' @ nat_digits n @ U '' * *''))
                         else if unit_char = C CHR ''m'' \<or> unit_char = C CHR ''h''
                         then Some (Inl (U ''The interval '' @ token
                                @ U '' does not divide evenly; use a cron expression, e.g. ''
                                @ quote_str (U ''*/10 * * * *'') @ U ''.''))
                         else None)))"

definition parse_schedule :: "ustr \<Rightarrow> ustr + (ustr \<times> ustr)" where
  "parse_schedule txt =
     (let txt = trim_start txt;
          parsed = (case strip_prefix txt [34] of
            Some quoted \<Rightarrow>
              (case split_once 34 quoted of
                 None \<Rightarrow> Inl (U ''The cron expression needs a closing '' @ [34] @ U ''.'')
               | Some (c, rest) \<Rightarrow>
                   (case validate (trim c) of
                      Some why \<Rightarrow> Inl why
                    | None \<Rightarrow> Inr (trim c, trim rest)))
          | None \<Rightarrow>
              (case split_word txt of
                 (token, rest) \<Rightarrow>
                   (case interval_cron token of
                      None \<Rightarrow> Inl usage
                    | Some (Inl why) \<Rightarrow> Inl why
                    | Some (Inr c) \<Rightarrow> Inr (c, rest))))
      in case parsed of
           Inl why \<Rightarrow> Inl why
         | Inr (c, rest) \<Rightarrow>
             (if rest = [] then Inl (U ''Missing the prompt to run.'') else Inr (c, rest)))"

definition parse_auto :: "ustr \<Rightarrow> ustr + loop_command" where
  "parse_auto rest =
     (let task = trim rest;
          parsed = (case strip_prefix task (U ''--max-turns'') of
            None \<Rightarrow> Inr (default_max_turns, task)
          | Some after \<Rightarrow>
              (case split_word after of
                 (value, remaining) \<Rightarrow>
                   (case parse_u64 value of
                      Some n \<Rightarrow>
                        (if n \<ge> 1 then Inr (n, remaining)
                         else Inl (U ''--max-turns needs a whole number of at least 1.''))
                    | None \<Rightarrow> Inl (U ''--max-turns needs a whole number of at least 1.''))))
      in case parsed of
           Inl why \<Rightarrow> Inl why
         | Inr (n, task) \<Rightarrow>
             (if task = [] then Inl (U ''Usage: /loop auto [--max-turns N] <task>'') else Inr (Auto n task)))"

definition create_command :: "bool \<Rightarrow> ustr + (ustr \<times> ustr) \<Rightarrow> ustr + loop_command" where
  "create_command rec r =
     (case r of Inl why \<Rightarrow> Inl why
      | Inr (c, prompt) \<Rightarrow> Inr (Create \<lparr>sched_cron = c, sched_recurring = rec\<rparr> prompt))"

definition parse_loop_args :: "ustr \<Rightarrow> ustr + loop_command" where
  "parse_loop_args args =
     (case split_word args of
        (head, rest) \<Rightarrow>
          (if head = [] then Inl usage
           else if head = U ''list'' \<and> rest = [] then Inr List_tasks
           else if head = U ''stop'' \<and> rest = [] then Inr Stop
           else if head = U ''delete'' then
             (case split_word rest of
                (i, extra) \<Rightarrow> (if i = [] \<or> extra \<noteq> [] then Inl (U ''Usage: /loop delete <id>'')
                               else Inr (Delete i)))
           else if head = U ''auto'' then parse_auto rest
           else if head = U ''once'' then create_command False (parse_schedule rest)
           else create_command True (parse_schedule args)))"

section \<open>\<open>/loop auto\<close>\<close>

definition auto_task_prompt :: "ustr \<Rightarrow> ustr" where
  "auto_task_prompt task = U ''Work autonomously toward this task:'' @ [10, 10] @ task"

definition auto_continue_prompt :: "ustr \<Rightarrow> ustr" where
  "auto_continue_prompt task = U ''Keep working toward the task:'' @ [10, 10] @ task @ [10, 10]
     @ U ''Reply with '' @ done_token @ U '' only when it is genuinely complete '' @ [8212]
     @ U '' not when it is merely close.''"

datatype auto_end = Done | Turn_cap | Halted ustr | Interrupted | Stopped

datatype auto_next = Next_prompt ustr | Loop_stop auto_end

record auto_loop =
  auto_task :: ustr
  max_turns :: nat
  turns :: nat
  reply_done :: bool

definition auto_start :: "ustr \<Rightarrow> nat \<Rightarrow> auto_loop \<times> ustr" where
  "auto_start task n =
     (\<lparr>auto_task = task, max_turns = max n 1, turns = 1, reply_done = False\<rparr>, auto_task_prompt task)"

definition observe_reply :: "ustr \<Rightarrow> auto_loop \<Rightarrow> auto_loop" where
  "observe_reply txt l = (if contains_str txt done_token then l\<lparr>reply_done := True\<rparr> else l)"

definition turn_ended :: "auto_loop \<Rightarrow> auto_next \<times> auto_loop" where
  "turn_ended l =
     (if reply_done l then (Loop_stop Done, l\<lparr>reply_done := False\<rparr>)
      else if turns l \<ge> max_turns l then (Loop_stop Turn_cap, l)
      else (Next_prompt (auto_continue_prompt (auto_task l)), l\<lparr>turns := turns l + 1\<rparr>))"

section \<open>An accepted schedule is one the matcher reads as written\<close>

lemma valid_minutes: "list_all (\<lambda>n. validate (U ''*/'' @ nat_digits n @ U '' * * * *'') = None)
  [1, 2, 3, 4, 5, 6, 10, 12, 15, 20, 30]"
  by (simp add: nat_digits.simps validate_def split_fields_def split_whitespace_def is_ws_def
      check_field_def check_part_def split_once_def parse_i64_def digits_value_def is_digit_def
      in_i64_def i64_max_def i64_min_def Let_def ustr_eval)

lemma valid_hours: "list_all (\<lambda>n. validate (U ''0 */'' @ nat_digits n @ U '' * * *'') = None)
  [1, 2, 3, 4, 6, 8, 12]"
  by (simp add: nat_digits.simps validate_def split_fields_def split_whitespace_def is_ws_def
      check_field_def check_part_def split_once_def parse_i64_def digits_value_def is_digit_def
      in_i64_def i64_max_def i64_min_def Let_def ustr_eval)

lemma valid_days: "list_all (\<lambda>n. validate (U ''0 0 */'' @ nat_digits n @ U '' * *'') = None) [1..<32]"
  by (simp add: upt_rec nat_digits.simps validate_def split_fields_def split_whitespace_def is_ws_def
      check_field_def check_part_def split_once_def parse_i64_def digits_value_def is_digit_def
      in_i64_def i64_max_def i64_min_def Let_def ustr_eval)

lemma divisors_60: "(n::nat) dvd 60 \<Longrightarrow> n \<le> 59 \<Longrightarrow> n \<in> set [1, 2, 3, 4, 5, 6, 10, 12, 15, 20, 30]"
proof -
  assume "n dvd 60" "n \<le> 59"
  moreover have "list_all (\<lambda>n. n dvd 60 \<longrightarrow> n \<in> set [1, 2, 3, 4, 5, 6, 10, 12, 15, 20, 30]) [0..<60]"
    by code_simp
  ultimately show ?thesis by (auto simp: list_all_iff)
qed

lemma divisors_24: "(n::nat) dvd 24 \<Longrightarrow> n \<le> 23 \<Longrightarrow> n \<in> set [1, 2, 3, 4, 6, 8, 12]"
proof -
  assume "n dvd 24" "n \<le> 23"
  moreover have "list_all (\<lambda>n. n dvd 24 \<longrightarrow> n \<in> set [1, 2, 3, 4, 6, 8, 12]) [0..<24]"
    by code_simp
  ultimately show ?thesis by (auto simp: list_all_iff)
qed

lemma interval_valid: "interval_cron token = Some (Inr c) \<Longrightarrow> validate c = None"
  using valid_minutes valid_hours valid_days divisors_60 divisors_24
  by (auto simp: interval_cron_def Let_def list_all_iff split: if_splits option.splits)

text \<open>
  \<^verbatim>\<open>/loop\<close> never stores a schedule its own check refuses. Whatever is typed, a command
  that creates a task has a non-empty prompt and a cron expression of five fields that the
  strict check accepts, also when it was written as an interval.
\<close>

theorem loop_creates_valid_schedule:
  assumes "parse_loop_args args = Inr (Create sched prompt)"
  shows "validate (sched_cron sched) = None \<and> is_five_field (sched_cron sched) \<and> prompt \<noteq> []"
proof -
  from assms obtain t where "parse_schedule t = Inr (sched_cron sched, prompt)"
    by (auto simp: parse_loop_args_def create_command_def parse_auto_def Let_def
        split: prod.splits if_splits sum.splits option.splits)
  then have v: "validate (sched_cron sched) = None" "prompt \<noteq> []"
    by (auto simp: parse_schedule_def Let_def interval_valid
        split: option.splits prod.splits sum.splits if_splits)
  then have "is_five_field (sched_cron sched)"
    by (auto simp: validate_def is_five_field_def split: list.splits)
  with v show ?thesis by blast
qed


theorem loop_creates_valid_schedule_witness:
  "validate (U ''*/5 * * * *'') = None \<and> is_five_field (U ''*/5 * * * *'') \<and> U ''check ci'' \<noteq> []"
proof -
  have "parse_loop_args (U ''5m check ci'')
      = Inr (Create \<lparr>sched_cron = U ''*/5 * * * *'', sched_recurring = True\<rparr> (U ''check ci''))"
    by (simp add: parse_loop_args_def split_word_def split_ws_once_def trim_def trim_start_def trim_end_def
        is_ws_def create_command_def parse_schedule_def strip_prefix_def interval_cron_def parse_u64_def
        digits_value_def is_digit_def nat_digits.simps Let_def ustr_eval)
  from loop_creates_valid_schedule [OF this] show ?thesis by simp
qed

section \<open>\<open>/loop auto\<close> ends\<close>

text \<open>One turn: its replies are observed, then it ends.\<close>

definition auto_turn :: "auto_loop \<Rightarrow> ustr list \<Rightarrow> auto_next \<times> auto_loop" where
  "auto_turn l replies = turn_ended (foldl (\<lambda>l r. observe_reply r l) l replies)"

text \<open>The prompts a run sends, given the replies of each turn, and how it ends (\<open>None\<close>: still running).\<close>

fun auto_run :: "auto_loop \<Rightarrow> ustr list list \<Rightarrow> ustr list \<times> auto_end option" where
  "auto_run l [] = ([], None)"
| "auto_run l (replies # rest) =
     (case auto_turn l replies of
        (Loop_stop e, _) \<Rightarrow> ([], Some e)
      | (Next_prompt p, l') \<Rightarrow> (case auto_run l' rest of (ps, e) \<Rightarrow> (p # ps, e)))"

lemma observe_replies:
  "foldl (\<lambda>l r. observe_reply r l) l rs
   = l\<lparr>reply_done := (reply_done l \<or> (\<exists>r \<in> set rs. contains_str r done_token))\<rparr>"
  by (induction rs arbitrary: l) (auto simp: observe_reply_def intro!: auto_loop.equality)

lemma auto_turn_eq:
  "\<not> reply_done l \<Longrightarrow> auto_turn l rs =
     (if \<exists>r \<in> set rs. contains_str r done_token then (Loop_stop Done, l)
      else if max_turns l \<le> turns l then (Loop_stop Turn_cap, l)
      else (Next_prompt (auto_continue_prompt (auto_task l)), l\<lparr>turns := turns l + 1\<rparr>))"
  by (auto simp: auto_turn_def observe_replies turn_ended_def intro!: auto_loop.equality)

lemma auto_run_bound:
  "\<not> reply_done l \<Longrightarrow> turns l \<le> max_turns l \<Longrightarrow>
   length (fst (auto_run l rss)) \<le> max_turns l - turns l
   \<and> (length rss > max_turns l - turns l \<longrightarrow> snd (auto_run l rss) \<noteq> None)
   \<and> (snd (auto_run l rss) = Some Turn_cap \<longrightarrow> length (fst (auto_run l rss)) = max_turns l - turns l)"
proof (induction rss arbitrary: l)
  case Nil
  then show ?case by simp
next
  case (Cons rs rss)
  let ?l = "l\<lparr>turns := turns l + 1\<rparr>"
  show ?case
  proof (cases "(\<exists>r \<in> set rs. contains_str r done_token) \<or> max_turns l \<le> turns l")
    case True
    with Cons.prems show ?thesis by (auto simp: auto_turn_eq)
  next
    case False
    with Cons.prems Cons.IH [of ?l] show ?thesis
      by (cases "auto_run ?l rss") (auto simp: auto_turn_eq)
  qed
qed

text \<open>
  \<^verbatim>\<open>/loop auto\<close> ends. Whatever the replies, a run started with a cap of \<open>n\<close> sends at most
  \<open>max n 1\<close> prompts (the first one included), has ended once that many turns are over, and
  stops for the cap only after sending exactly that many.
\<close>

theorem auto_loop_ends:
  "1 + length (fst (auto_run (fst (auto_start task n)) rss)) \<le> max n 1
   \<and> (length rss \<ge> max n 1 \<longrightarrow> snd (auto_run (fst (auto_start task n)) rss) \<noteq> None)
   \<and> (snd (auto_run (fst (auto_start task n)) rss) = Some Turn_cap
      \<longrightarrow> 1 + length (fst (auto_run (fst (auto_start task n)) rss)) = max n 1)"
  using auto_run_bound [of "fst (auto_start task n)" rss] by (auto simp: auto_start_def)

theorem auto_loop_ends_witness:
  "snd (auto_run (fst (auto_start (U ''t'') 2)) [[], []]) \<noteq> None"
  using auto_loop_ends [of "U ''t''" 2 "[[], []]"] by simp

end
