(* ===== verification/Task_Store.thy ===== *)
theory Task_Store
  imports Complex_Main Prelude "HOL-Library.Multiset"
begin

text \<open>
  \<^verbatim>\<open>crates/hoocode-code-task-store/src/lib.rs\<close>: the in-process store behind the task panel.
  The state record is \<^verbatim>\<open>State\<close> under its lock, with the listeners as ids and one ghost field,
  \<open>notified\<close>, the listeners called so far in order. Each operation is one function on the
  state; the clock (\<^verbatim>\<open>now_ms\<close>) is an argument. Token and cost amounts are exact numbers:
  they are only added and compared with zero. Counters do not wrap.
\<close>

datatype status = Pending | In_progress | Done_status | Failed_status | Cancelled

definition status_name :: "status \<Rightarrow> ustr" where
  "status_name st = (case st of Pending \<Rightarrow> U ''pending'' | In_progress \<Rightarrow> U ''in_progress''
     | Done_status \<Rightarrow> U ''done'' | Failed_status \<Rightarrow> U ''failed'' | Cancelled \<Rightarrow> U ''cancelled'')"

definition is_active :: "status \<Rightarrow> bool" where
  "is_active st \<longleftrightarrow> st = Pending \<or> st = In_progress"

datatype source = Subagent | Mcp | Schedule | Shell_job
datatype row_action = Login | Abort
datatype agent_kind = Main_agent | Subagent_agent
datatype agent_state = Agent_active | Agent_running | Agent_done | Agent_queued | Agent_idle
  | Agent_waiting | Agent_failed | Agent_cancelled

record agent_stats =
  stat_input :: real
  stat_output :: real
  stat_cost :: real

record task_agent =
  agent_id :: ustr
  agent_name :: ustr
  role :: "ustr option"
  kind_of :: agent_kind
  state_of :: "agent_state option"
  activity :: "ustr option"
  stats :: "agent_stats option"
  attempt :: "nat option"
  model :: "ustr option"
  deadline_at :: "nat option"
  outcome :: "ustr option"
  confidence :: "real option"
  cause :: "ustr option"

record task_usage =
  use_input :: real
  use_output :: real
  cache_read :: real
  cache_write :: real
  use_cost :: real

record task =
  task_id :: nat
  title :: ustr
  status_of :: status
  source_of :: "source option"
  subagent_mode :: "ustr option"
  task_agent_of :: "ustr option"
  parent_task_id :: "nat option"
  linked_task_id :: "nat option"
  note_of :: "ustr option"
  todo_content :: "ustr option"
  created :: nat
  updated :: nat
  usage_of :: "task_usage option"
  key :: "ustr option"
  next_at :: "nat option"
  action :: "row_action option"
  log_path :: "ustr option"

record create_options =
  opt_source :: "source option"
  opt_subagent_mode :: "ustr option"
  opt_agent :: "ustr option"
  opt_parent :: "nat option"
  opt_linked :: "nat option"
  opt_key :: "ustr option"
  opt_log_path :: "ustr option"

record task_patch =
  p_title :: "ustr option"
  p_status :: "status option"
  p_source :: "source option"
  p_subagent_mode :: "ustr option"
  p_agent :: "ustr option"
  p_usage :: "task_usage option"
  p_note :: "ustr option option"
  p_parent :: "nat option"
  p_linked :: "nat option"
  p_todo :: "ustr option"
  p_next_at :: "nat option option"
  p_action :: "row_action option option"

record agent_patch =
  a_name :: "ustr option"
  a_role :: "ustr option"
  a_kind :: "agent_kind option"
  a_state :: "agent_state option"
  a_activity :: "ustr option"
  a_stats :: "agent_stats option"
  a_attempt :: "nat option"
  a_model :: "ustr option"
  a_deadline :: "nat option"
  a_outcome :: "ustr option"
  a_confidence :: "real option"
  a_cause :: "ustr option"

section \<open>Rows\<close>

definition task_owner_id :: "ustr option \<Rightarrow> source option \<Rightarrow> ustr" where
  "task_owner_id ag src =
     (case ag of Some a \<Rightarrow> a
      | None \<Rightarrow> (if src = Some Subagent then U ''subagent'' else U ''main''))"

definition owner_id :: "task \<Rightarrow> ustr" where
  "owner_id t = task_owner_id (task_agent_of t) (source_of t)"

definition is_plan_item :: "task \<Rightarrow> bool" where
  "is_plan_item t \<longleftrightarrow> source_of t = None \<and> task_agent_of t = None \<and> parent_task_id t = None"

datatype task_kind = Plan_row | Subagent_row | Mcp_row | Schedule_row | Shell_row

definition row_kind :: "task \<Rightarrow> task_kind" where
  "row_kind t = (case source_of t of Some Subagent \<Rightarrow> Subagent_row | Some Mcp \<Rightarrow> Mcp_row
     | Some Schedule \<Rightarrow> Schedule_row | Some Shell_job \<Rightarrow> Shell_row | None \<Rightarrow> Plan_row)"

section \<open>The state\<close>

record store =
  tasks :: "task list"
  agents :: "task_agent list"
  next_id :: nat
  batch_depth :: nat
  mutation_count :: nat
  listeners :: "nat list"
  next_listener :: nat
  row_actions :: "(ustr \<times> nat) list"
  plan_idle_resets :: nat
  notified :: "nat list"

definition plan_idle_messages :: nat where "plan_idle_messages = 3"

definition new_store :: store where
  "new_store = \<lparr>tasks = [], agents = [], next_id = 1, batch_depth = 0, mutation_count = 0,
     listeners = [], next_listener = 0, row_actions = [], plan_idle_resets = 0, notified = []\<rparr>"

definition emit :: "store \<Rightarrow> store" where
  "emit s =
     (let s = s\<lparr>mutation_count := mutation_count s + 1\<rparr>
      in if batch_depth s > 0 then s else s\<lparr>notified := notified s @ listeners s\<rparr>)"

definition batch_begin :: "store \<Rightarrow> store" where
  "batch_begin s = s\<lparr>batch_depth := batch_depth s + 1\<rparr>"

definition batch_end :: "store \<Rightarrow> store" where
  "batch_end s =
     (let s = s\<lparr>batch_depth := batch_depth s - 1\<rparr>
      in if batch_depth s = 0 then emit s else s)"

definition batch :: "(store \<Rightarrow> store) \<Rightarrow> store \<Rightarrow> store" where
  "batch f s = batch_end (f (batch_begin s))"

text \<open>\<^verbatim>\<open>if let Some(x) = patch\<close> and \<^verbatim>\<open>if patch.is_some()\<close>.\<close>

definition set_some :: "'a option \<Rightarrow> 'a \<Rightarrow> 'a" where
  "set_some p old = (case p of None \<Rightarrow> old | Some x \<Rightarrow> x)"

definition keep_some :: "'a option \<Rightarrow> 'a option \<Rightarrow> 'a option" where
  "keep_some p old = (if p \<noteq> None then p else old)"

definition apply_agent_patch :: "agent_patch \<Rightarrow> task_agent \<Rightarrow> task_agent" where
  "apply_agent_patch p a =
     \<lparr>agent_id = agent_id a, agent_name = set_some (a_name p) (agent_name a),
      role = keep_some (a_role p) (role a), kind_of = set_some (a_kind p) (kind_of a),
      state_of = keep_some (a_state p) (state_of a), activity = keep_some (a_activity p) (activity a),
      stats = keep_some (a_stats p) (stats a), attempt = keep_some (a_attempt p) (attempt a),
      model = keep_some (a_model p) (model a), deadline_at = keep_some (a_deadline p) (deadline_at a),
      outcome = keep_some (a_outcome p) (outcome a), confidence = keep_some (a_confidence p) (confidence a),
      cause = keep_some (a_cause p) (cause a)\<rparr>"

text \<open>\<open>update_first P f xs\<close> changes the first element with \<open>P\<close>: \<^verbatim>\<open>iter_mut().find\<close>.\<close>

fun update_first :: "('a \<Rightarrow> bool) \<Rightarrow> ('a \<Rightarrow> 'a) \<Rightarrow> 'a list \<Rightarrow> 'a list" where
  "update_first P f [] = []"
| "update_first P f (x # xs) = (if P x then f x # xs else x # update_first P f xs)"

fun remove_first :: "('a \<Rightarrow> bool) \<Rightarrow> 'a list \<Rightarrow> 'a list" where
  "remove_first P [] = []"
| "remove_first P (x # xs) = (if P x then xs else x # remove_first P xs)"

section \<open>Operations on tasks\<close>

definition create :: "nat \<Rightarrow> ustr \<Rightarrow> create_options \<Rightarrow> store \<Rightarrow> task \<times> store" where
  "create now ttl opts s =
     (let ttl = trim ttl;
          t = \<lparr>task_id = next_id s, title = (if ttl = [] then U ''(untitled task)'' else ttl),
               status_of = Pending, source_of = opt_source opts, subagent_mode = opt_subagent_mode opts,
               task_agent_of = opt_agent opts, parent_task_id = opt_parent opts,
               linked_task_id = opt_linked opts, note_of = None, todo_content = None, created = now,
               updated = now, usage_of = None, key = opt_key opts, next_at = None, action = None,
               log_path = opt_log_path opts\<rparr>
      in (t, emit (s\<lparr>next_id := next_id s + 1, tasks := tasks s @ [t]\<rparr>)))"

definition patch_task :: "nat \<Rightarrow> task_patch \<Rightarrow> task \<Rightarrow> task" where
  "patch_task now p t =
     t\<lparr>title := set_some (p_title p) (title t), status_of := set_some (p_status p) (status_of t),
       source_of := keep_some (p_source p) (source_of t),
       subagent_mode := keep_some (p_subagent_mode p) (subagent_mode t),
       task_agent_of := keep_some (p_agent p) (task_agent_of t),
       parent_task_id := keep_some (p_parent p) (parent_task_id t),
       linked_task_id := keep_some (p_linked p) (linked_task_id t),
       todo_content := keep_some (p_todo p) (todo_content t),
       usage_of := keep_some (p_usage p) (usage_of t), note_of := set_some (p_note p) (note_of t),
       next_at := set_some (p_next_at p) (next_at t), action := set_some (p_action p) (action t),
       updated := now\<rparr>"

definition update :: "nat \<Rightarrow> nat \<Rightarrow> task_patch \<Rightarrow> store \<Rightarrow> store" where
  "update now i p s =
     (if list_ex (\<lambda>t. task_id t = i) (tasks s)
      then emit (s\<lparr>tasks := update_first (\<lambda>t. task_id t = i) (patch_task now p) (tasks s)\<rparr>)
      else s)"

definition keyed_row :: "nat \<Rightarrow> ustr \<Rightarrow> create_options \<Rightarrow> nat \<Rightarrow> task" where
  "keyed_row now k opts i =
     \<lparr>task_id = i, title = [], status_of = Pending, source_of = opt_source opts,
      subagent_mode = opt_subagent_mode opts, task_agent_of = opt_agent opts,
      parent_task_id = opt_parent opts, linked_task_id = opt_linked opts, note_of = None,
      todo_content = None, created = now, updated = now, usage_of = None, key = Some k,
      next_at = None, action = None, log_path = opt_log_path opts\<rparr>"

definition upsert_row :: "nat \<Rightarrow> ustr \<Rightarrow> task_patch \<Rightarrow> task \<Rightarrow> task" where
  "upsert_row now ttl p t =
     t\<lparr>title := (if ttl \<noteq> [] then ttl else title t), status_of := set_some (p_status p) (status_of t),
       note_of := set_some (p_note p) (note_of t), next_at := set_some (p_next_at p) (next_at t),
       action := set_some (p_action p) (action t),
       subagent_mode := keep_some (p_subagent_mode p) (subagent_mode t), updated := now\<rparr>"

definition has_key :: "ustr \<Rightarrow> task \<Rightarrow> bool" where
  "has_key k t \<longleftrightarrow> key t = Some k"

definition upsert_keyed ::
  "nat \<Rightarrow> ustr \<Rightarrow> ustr \<Rightarrow> create_options \<Rightarrow> task_patch \<Rightarrow> store \<Rightarrow> store" where
  "upsert_keyed now k ttl opts p s =
     (let s = (if list_ex (has_key k) (tasks s) then s
               else s\<lparr>next_id := next_id s + 1, tasks := tasks s @ [keyed_row now k opts (next_id s)]\<rparr>)
      in emit (s\<lparr>tasks := update_first (has_key k) (upsert_row now ttl p) (tasks s)\<rparr>))"

definition remove_keys_where :: "(ustr \<Rightarrow> bool) \<Rightarrow> store \<Rightarrow> nat \<times> store" where
  "remove_keys_where pred s =
     (let ts = filter (\<lambda>t. case key t of Some k \<Rightarrow> \<not> pred k | None \<Rightarrow> True) (tasks s);
          removed = length (tasks s) - length ts
      in if removed > 0 then (removed, emit (s\<lparr>tasks := ts\<rparr>)) else (0, s))"

definition remove_keyed :: "ustr \<Rightarrow> store \<Rightarrow> bool \<times> store" where
  "remove_keyed k s = (case remove_keys_where (\<lambda>j. j = k) s of (n, s') \<Rightarrow> (n > 0, s'))"

definition find_keyed :: "ustr \<Rightarrow> store \<Rightarrow> task option" where
  "find_keyed k s = find (has_key k) (tasks s)"

definition remove :: "nat \<Rightarrow> store \<Rightarrow> store" where
  "remove i s =
     (if list_ex (\<lambda>t. task_id t = i) (tasks s)
      then emit (s\<lparr>tasks := remove_first (\<lambda>t. task_id t = i) (tasks s)\<rparr>) else s)"

text \<open>\<^verbatim>\<open>arrange\<close>: the writes into the slots, in order.\<close>

definition find_task :: "nat \<Rightarrow> task list \<Rightarrow> task option" where
  "find_task i ts = find (\<lambda>t. task_id t = i) ts"

fun write_slots :: "(nat \<times> task) list \<Rightarrow> task list \<Rightarrow> task list" where
  "write_slots [] ts = ts"
| "write_slots ((slot, t) # ws) ts = write_slots ws (ts[slot := t])"

definition slots_of :: "nat list \<Rightarrow> task list \<Rightarrow> nat list" where
  "slots_of ids ts = map fst (filter (\<lambda>(i, t). task_id t \<in> set ids) (List.enumerate 0 ts))"

definition arrange :: "nat list \<Rightarrow> store \<Rightarrow> store" where
  "arrange ids s =
     (let ordered = List.map_filter (\<lambda>i. find_task i (tasks s)) ids
      in if length ordered \<noteq> length ids then s
         else let slots = slots_of ids (tasks s)
              in if length slots \<noteq> length ordered then s
                 else emit (s\<lparr>tasks := write_slots (zip slots ordered) (tasks s)\<rparr>))"

section \<open>Row actions\<close>

definition set_row_actions :: "ustr \<Rightarrow> nat option \<Rightarrow> store \<Rightarrow> store" where
  "set_row_actions pre handler s =
     (let ras = filter (\<lambda>(p, _). p \<noteq> pre) (row_actions s)
      in s\<lparr>row_actions := (case handler of None \<Rightarrow> ras | Some h \<Rightarrow> ras @ [(pre, h)])\<rparr>)"

definition action_name :: "row_action \<Rightarrow> ustr" where
  "action_name a = (case a of Login \<Rightarrow> U ''Login'' | Abort \<Rightarrow> U ''Abort'')"

text \<open>\<^verbatim>\<open>perform\<close> up to the handler's own call: the key and the handler, or the error.\<close>

definition perform :: "nat \<Rightarrow> row_action \<Rightarrow> store \<Rightarrow> ustr + (ustr \<times> nat)" where
  "perform i act s =
     (case find_task i (tasks s) of
        None \<Rightarrow> Inl (U ''That row is gone.'')
      | Some t \<Rightarrow>
          (if action t \<noteq> Some act then Inl (U ''That row has no '' @ action_name act @ U '' action.'')
           else (case key t of
                   None \<Rightarrow> Inl (U ''That row has no key.'')
                 | Some k \<Rightarrow>
                     (case find (\<lambda>(p, _). starts_with k p) (row_actions s) of
                        None \<Rightarrow> Inl (U ''Nothing performs that action.'')
                      | Some (_, h) \<Rightarrow> Inr (k, h)))))"

section \<open>Agents\<close>

definition new_agent :: "ustr \<Rightarrow> ustr \<Rightarrow> agent_kind \<Rightarrow> agent_patch \<Rightarrow> task_agent" where
  "new_agent i nm k p =
     \<lparr>agent_id = i, agent_name = nm, role = a_role p, kind_of = k, state_of = a_state p,
      activity = a_activity p, stats = a_stats p, attempt = a_attempt p, model = a_model p,
      deadline_at = a_deadline p, outcome = a_outcome p, confidence = a_confidence p,
      cause = a_cause p\<rparr>"

definition upsert_agent :: "ustr \<Rightarrow> ustr \<Rightarrow> agent_kind \<Rightarrow> agent_patch \<Rightarrow> store \<Rightarrow> store" where
  "upsert_agent i nm k p s =
     emit (s\<lparr>agents := (if list_ex (\<lambda>a. agent_id a = i) (agents s)
        then update_first (\<lambda>a. agent_id a = i)
               (apply_agent_patch (p\<lparr>a_name := Some nm, a_kind := Some k\<rparr>)) (agents s)
        else agents s @ [new_agent i nm k p])\<rparr>)"

definition patch_agent :: "ustr \<Rightarrow> agent_patch \<Rightarrow> store \<Rightarrow> store" where
  "patch_agent i p s =
     (if list_ex (\<lambda>a. agent_id a = i) (agents s)
      then emit (s\<lparr>agents := update_first (\<lambda>a. agent_id a = i) (apply_agent_patch p) (agents s)\<rparr>)
      else s)"

definition add_stats :: "agent_stats \<Rightarrow> task_agent \<Rightarrow> task_agent" where
  "add_stats d a =
     (let st = (case stats a of None \<Rightarrow> \<lparr>stat_input = 0, stat_output = 0, stat_cost = 0\<rparr> | Some st \<Rightarrow> st)
      in a\<lparr>stats := Some \<lparr>stat_input = stat_input st + stat_input d,
                          stat_output = stat_output st + stat_output d,
                          stat_cost = stat_cost st + stat_cost d\<rparr>\<rparr>)"

definition add_agent_stats :: "ustr \<Rightarrow> agent_stats \<Rightarrow> store \<Rightarrow> store" where
  "add_agent_stats i d s =
     (if list_ex (\<lambda>a. agent_id a = i) (agents s)
      then emit (s\<lparr>agents := update_first (\<lambda>a. agent_id a = i) (add_stats d) (agents s)\<rparr>)
      else s)"

section \<open>Reset, clear, listeners\<close>

definition note_plan_write :: "store \<Rightarrow> store" where
  "note_plan_write s = s\<lparr>plan_idle_resets := 0\<rparr>"

definition open_plan :: "store \<Rightarrow> bool" where
  "open_plan s \<longleftrightarrow> list_ex (\<lambda>t. is_plan_item t \<and> is_active (status_of t)) (tasks s)"

definition reset_keeps :: "bool \<Rightarrow> bool \<Rightarrow> task \<Rightarrow> bool" where
  "reset_keeps expired plan_live t \<longleftrightarrow>
     (if expired \<and> is_plan_item t then False
      else is_active (status_of t) \<or> key t \<noteq> None \<or> (plan_live \<and> is_plan_item t))"

definition has_stats :: "task_agent \<Rightarrow> bool" where
  "has_stats a \<longleftrightarrow> (case stats a of None \<Rightarrow> False
     | Some st \<Rightarrow> stat_input st > 0 \<or> stat_output st > 0 \<or> stat_cost st > 0)"

definition reset :: "store \<Rightarrow> store" where
  "reset s =
     (let opn = open_plan s;
          idle = (if opn then plan_idle_resets s + 1 else 0);
          plan_live = (opn \<and> idle < plan_idle_messages);
          expired = (opn \<and> \<not> plan_live);
          active = filter (reset_keeps expired plan_live) (tasks s);
          s = s\<lparr>plan_idle_resets := (if expired then 0 else idle)\<rparr>
      in if length active = length (tasks s) \<and> next_id s = 1 then s
         else let keep_agent = (\<lambda>a. kind_of a \<noteq> Subagent_agent \<and> has_stats a);
                  s = (if active = [] then s\<lparr>next_id := 1, agents := filter keep_agent (agents s)\<rparr>
                       else s\<lparr>agents := filter (\<lambda>a. agent_id a \<in> set (map owner_id active) \<or> keep_agent a)
                                (agents s)\<rparr>)
              in emit (s\<lparr>tasks := active\<rparr>))"

definition clear :: "store \<Rightarrow> store" where
  "clear s = emit (s\<lparr>tasks := [], agents := [], next_id := 1, plan_idle_resets := 0\<rparr>)"

definition subscribe :: "store \<Rightarrow> nat \<times> store" where
  "subscribe s = (next_listener s,
     s\<lparr>next_listener := next_listener s + 1, listeners := listeners s @ [next_listener s]\<rparr>)"

definition unsubscribe :: "nat \<Rightarrow> store \<Rightarrow> store" where
  "unsubscribe i s = s\<lparr>listeners := filter (\<lambda>j. j \<noteq> i) (listeners s)\<rparr>"

section \<open>The operations as events\<close>

datatype store_event =
    Create_task nat ustr create_options
  | Update_task nat nat task_patch
  | Upsert_keyed nat ustr ustr create_options task_patch
  | Remove_keys "ustr \<Rightarrow> bool"
  | Remove_task nat
  | Arrange "nat list"
  | Set_row_actions ustr "nat option"
  | Upsert_agent ustr ustr agent_kind agent_patch
  | Patch_agent ustr agent_patch
  | Add_agent_stats ustr agent_stats
  | Note_plan_write
  | Reset
  | Clear
  | Subscribe
  | Unsubscribe nat

fun store_step :: "store \<Rightarrow> store_event \<Rightarrow> store" where
  "store_step s (Create_task now ttl opts) = snd (create now ttl opts s)"
| "store_step s (Update_task now i p) = update now i p s"
| "store_step s (Upsert_keyed now k ttl opts p) = upsert_keyed now k ttl opts p s"
| "store_step s (Remove_keys pred) = snd (remove_keys_where pred s)"
| "store_step s (Remove_task i) = remove i s"
| "store_step s (Arrange ids) = arrange ids s"
| "store_step s (Set_row_actions pre h) = set_row_actions pre h s"
| "store_step s (Upsert_agent i nm k p) = upsert_agent i nm k p s"
| "store_step s (Patch_agent i p) = patch_agent i p s"
| "store_step s (Add_agent_stats i d) = add_agent_stats i d s"
| "store_step s Note_plan_write = note_plan_write s"
| "store_step s Reset = reset s"
| "store_step s Clear = clear s"
| "store_step s Subscribe = snd (subscribe s)"
| "store_step s (Unsubscribe i) = unsubscribe i s"

end
