(* ===== verification/Task_Properties.thy ===== *)
theory Task_Properties
  imports Task_Store
begin

text \<open>
  What the task store guarantees: ids stay unique and fresh under every operation,
  \<open>arrange\<close> permutes exactly the named rows, \<open>reset\<close> keeps or drops a plan as a whole, and a
  batch notifies once.
\<close>

section \<open>Unique ids\<close>

definition store_ok :: "store \<Rightarrow> bool" where
  "store_ok s \<longleftrightarrow> distinct (map task_id (tasks s)) \<and> (\<forall>i \<in> set (map task_id (tasks s)). i < next_id s)"

lemma emit_fields [simp]:
  "tasks (emit s) = tasks s" "agents (emit s) = agents s" "next_id (emit s) = next_id s"
  "batch_depth (emit s) = batch_depth s" "listeners (emit s) = listeners s"
  "next_listener (emit s) = next_listener s" "row_actions (emit s) = row_actions s"
  "plan_idle_resets (emit s) = plan_idle_resets s"
  by (simp_all add: emit_def Let_def)

lemma map_update_first: "(\<And>x. g (f x) = g x) \<Longrightarrow> map g (update_first P f xs) = map g xs"
  by (induction xs) auto

lemma set_update_first: "x \<in> set (update_first P f xs) \<Longrightarrow> x \<in> set xs \<or> (\<exists>y \<in> set xs. x = f y)"
  by (induction xs) (auto split: if_splits)

lemma set_remove_first: "set (remove_first P xs) \<subseteq> set xs"
  by (induction xs) auto

lemma distinct_remove_first: "distinct (map g xs) \<Longrightarrow> distinct (map g (remove_first P xs))"
proof (induction xs)
  case (Cons x xs)
  have "g ` set (remove_first P xs) \<subseteq> g ` set xs" by (rule image_mono [OF set_remove_first])
  with Cons show ?case by auto
qed simp

lemma patch_task_id [simp]: "task_id (patch_task now p t) = task_id t"
  by (simp add: patch_task_def)

lemma upsert_row_id [simp]: "task_id (upsert_row now ttl p t) = task_id t"
  by (simp add: upsert_row_def)

lemma store_ok_same:
  "store_ok s \<Longrightarrow> map task_id (tasks s') = map task_id (tasks s) \<Longrightarrow> next_id s' = next_id s \<Longrightarrow> store_ok s'"
  unfolding store_ok_def by (simp del: set_map)

lemma store_ok_filter:
  "store_ok s \<Longrightarrow> tasks s' = filter P (tasks s) \<Longrightarrow> next_id s' = next_id s \<or> tasks s' = [] \<Longrightarrow> store_ok s'"
  by (auto simp: store_ok_def distinct_map_filter filter_empty_conv)

lemma store_ok_append:
  "store_ok s \<Longrightarrow> task_id t = next_id s \<Longrightarrow>
   store_ok (s\<lparr>next_id := next_id s + 1, tasks := tasks s @ [t]\<rparr>)"
  by (auto simp: store_ok_def less_Suc_eq)

section \<open>Arranging rows\<close>

text \<open>The list with the rows of \<open>S\<close> replaced in order by the given ones.\<close>

fun place :: "nat set \<Rightarrow> task list \<Rightarrow> task list \<Rightarrow> task list" where
  "place S [] os = []"
| "place S (t # ts) os =
     (if task_id t \<in> S then hd os # place S ts (tl os) else t # place S ts os)"

lemma write_slots_place:
  "length os = length (filter (\<lambda>t. task_id t \<in> S) ts) \<Longrightarrow>
   write_slots (zip (map fst (filter (\<lambda>(i, t). task_id t \<in> S) (List.enumerate (length pre) ts))) os) (pre @ ts)
   = pre @ place S ts os"
proof (induction ts arbitrary: pre os)
  case Nil
  show ?case by simp
next
  case (Cons t ts)
  show ?case
  proof (cases "task_id t \<in> S")
    case True
    with Cons.prems obtain p ps where os: "os = p # ps" by (cases os) auto
    with True Cons.prems Cons.IH [of ps "pre @ [p]"] show ?thesis by simp
  next
    case False
    with Cons.prems Cons.IH [of os "pre @ [t]"] show ?thesis by simp
  qed
qed

lemma place_parts:
  assumes "length os = length (filter (\<lambda>t. task_id t \<in> S) ts)" and "\<forall>t \<in> set os. task_id t \<in> S"
  shows "filter (\<lambda>t. task_id t \<in> S) (place S ts os) = os
    \<and> filter (\<lambda>t. task_id t \<notin> S) (place S ts os) = filter (\<lambda>t. task_id t \<notin> S) ts
    \<and> mset (place S ts os) = mset os + mset (filter (\<lambda>t. task_id t \<notin> S) ts)"
  using assms
proof (induction ts arbitrary: os)
  case Nil
  then show ?case by simp
next
  case (Cons t ts)
  show ?case
  proof (cases "task_id t \<in> S")
    case True
    with Cons.prems obtain p ps where "os = p # ps" by (cases os) auto
    with True Cons.prems Cons.IH [of ps] show ?thesis by simp
  next
    case False
    with Cons.prems Cons.IH [of os] show ?thesis by simp
  qed
qed

lemma place_others: "i < length ts \<Longrightarrow> task_id (ts ! i) \<notin> S \<Longrightarrow> place S ts os ! i = ts ! i"
  by (induction S ts os arbitrary: i rule: place.induct) (auto simp: nth_Cons split: nat.splits)

lemma find_task_Some: "find_task i ts = Some t \<Longrightarrow> t \<in> set ts \<and> task_id t = i"
  by (auto simp: find_task_def find_Some_iff)

lemma find_task_None: "find_task i ts = None \<longleftrightarrow> i \<notin> task_id ` set ts"
  by (auto simp: find_task_def find_None_iff)

lemma map_filter_all: "(\<forall>x \<in> set xs. f x \<noteq> None) \<Longrightarrow> List.map_filter f xs = map (\<lambda>x. the (f x)) xs"
  by (induction xs) (auto simp: List.map_filter_simps)

lemma length_map_filter_le: "length (List.map_filter f xs) \<le> length xs"
  by (simp add: List.map_filter_def)

lemma length_map_filter: "length (List.map_filter f xs) = length xs \<longleftrightarrow> (\<forall>x \<in> set xs. f x \<noteq> None)"
proof (induction xs)
  case Nil
  show ?case by (simp add: List.map_filter_simps)
next
  case (Cons x xs)
  then show ?case
    using length_map_filter_le [of f xs] by (cases "f x") (auto simp: List.map_filter_simps)
qed

lemma length_slots: "length (slots_of ids ts) = length (filter (\<lambda>t. task_id t \<in> set ids) ts)"
proof -
  have "length (filter (\<lambda>(i, t). P t) (List.enumerate n ts)) = length (filter P ts)" for P and n :: nat
    by (induction ts arbitrary: n) auto
  then show ?thesis by (simp add: slots_of_def)
qed

lemma named_rows_count:
  assumes "distinct (map task_id ts)" and "set ids \<subseteq> task_id ` set ts"
  shows "length (filter (\<lambda>t. task_id t \<in> set ids) ts) = card (set ids)"
proof -
  have "distinct (map task_id (filter (\<lambda>t. task_id t \<in> set ids) ts))"
    by (rule distinct_map_filter [OF assms(1)])
  then have "length (filter (\<lambda>t. task_id t \<in> set ids) ts)
      = card (set (map task_id (filter (\<lambda>t. task_id t \<in> set ids) ts)))"
    by (metis distinct_card length_map)
  moreover have "set (map task_id (filter (\<lambda>t. task_id t \<in> set ids) ts)) = set ids"
    using assms(2) by auto
  ultimately show ?thesis by simp
qed

lemma arrange_applies:
  assumes "distinct (map task_id (tasks s))"
  shows "arrange ids s =
     (if distinct ids \<and> set ids \<subseteq> task_id ` set (tasks s)
      then emit (s\<lparr>tasks := place (set ids) (tasks s) (map (\<lambda>i. the (find_task i (tasks s))) ids)\<rparr>)
      else s)"
proof (cases "set ids \<subseteq> task_id ` set (tasks s)")
  case False
  then have "length (List.map_filter (\<lambda>i. find_task i (tasks s)) ids) \<noteq> length ids"
    unfolding length_map_filter find_task_None by auto
  with False show ?thesis by (auto simp: arrange_def Let_def)
next
  case True
  then have all: "\<forall>i \<in> set ids. find_task i (tasks s) \<noteq> None" unfolding find_task_None by auto
  let ?os = "map (\<lambda>i. the (find_task i (tasks s))) ids"
  have mf: "List.map_filter (\<lambda>i. find_task i (tasks s)) ids = ?os" by (rule map_filter_all [OF all])
  have slots: "length (slots_of ids (tasks s)) = card (set ids)"
    by (simp add: length_slots named_rows_count [OF assms True])
  show ?thesis
  proof (cases "distinct ids")
    case False
    with slots have "length (slots_of ids (tasks s)) \<noteq> length ?os"
      by (metis card_distinct length_map)
    with False mf show ?thesis by (simp add: arrange_def Let_def)
  next
    case dist: True
    then have len: "length ?os = length (filter (\<lambda>t. task_id t \<in> set ids) (tasks s))"
      by (simp add: named_rows_count [OF assms True] distinct_card)
    from write_slots_place [OF len, of "[]"]
    have "write_slots (zip (slots_of ids (tasks s)) ?os) (tasks s) = place (set ids) (tasks s) ?os"
      by (simp add: slots_of_def)
    with dist True mf slots show ?thesis by (simp add: arrange_def Let_def distinct_card)
  qed
qed

lemma arranged_rows:
  assumes "distinct (map task_id ts)" and "distinct ids" and "set ids \<subseteq> task_id ` set ts"
  defines "os \<equiv> map (\<lambda>i. the (find_task i ts)) ids"
  shows "map task_id os = ids" and "length os = length (filter (\<lambda>t. task_id t \<in> set ids) ts)"
    and "mset os = mset (filter (\<lambda>t. task_id t \<in> set ids) ts)"
proof -
  have f: "the (find_task i ts) \<in> set ts \<and> task_id (the (find_task i ts)) = i" if "i \<in> set ids" for i
  proof -
    from that assms(3) have "find_task i ts \<noteq> None" unfolding find_task_None by auto
    then obtain t where "find_task i ts = Some t" by blast
    with find_task_Some [OF this] show ?thesis by simp
  qed
  then show ids: "map task_id os = ids" by (simp add: os_def comp_def map_idI)
  show "length os = length (filter (\<lambda>t. task_id t \<in> set ids) ts)"
    using assms(2) by (simp add: os_def named_rows_count [OF assms(1,3)] distinct_card)
  have inj: "t = u" if "t \<in> set ts" "u \<in> set ts" "task_id t = task_id u" for t u
    using assms(1) that by (simp add: distinct_map inj_on_def)
  have "distinct os" using ids assms(2) by (metis distinct_map)
  moreover have "distinct (filter (\<lambda>t. task_id t \<in> set ids) ts)"
    using assms(1) by (simp add: distinct_map)
  moreover have "set os = set (filter (\<lambda>t. task_id t \<in> set ids) ts)"
  proof
    show "set os \<subseteq> set (filter (\<lambda>t. task_id t \<in> set ids) ts)" using f by (auto simp: os_def)
    show "set (filter (\<lambda>t. task_id t \<in> set ids) ts) \<subseteq> set os"
    proof
      fix t assume "t \<in> set (filter (\<lambda>t. task_id t \<in> set ids) ts)"
      then have t: "t \<in> set ts" "task_id t \<in> set ids" by auto
      with f inj have "the (find_task (task_id t) ts) = t" by blast
      with t(2) show "t \<in> set os" by (force simp: os_def)
    qed
  qed
  ultimately show "mset os = mset (filter (\<lambda>t. task_id t \<in> set ids) ts)"
    by (simp only: set_eq_iff_mset_eq_distinct)
qed

lemma arrange_mset:
  assumes "store_ok s"
  shows "mset (tasks (arrange ids s)) = mset (tasks s) \<and> next_id (arrange ids s) = next_id s"
proof (cases "distinct ids \<and> set ids \<subseteq> task_id ` set (tasks s)")
  case False
  from assms have "distinct (map task_id (tasks s))" by (simp add: store_ok_def)
  from arrange_applies [OF this, of ids] False have "arrange ids s = s" by (simp only: if_False)
  then show ?thesis by simp
next
  case True
  from assms have d: "distinct (map task_id (tasks s))" by (simp add: store_ok_def)
  define os where "os = map (\<lambda>i. the (find_task i (tasks s))) ids"
  note ar = arranged_rows [OF d True [THEN conjunct1] True [THEN conjunct2], folded os_def]
  have "\<forall>t \<in> set os. task_id t \<in> set ids" using ar(1) by (metis image_eqI set_map)
  from place_parts [OF ar(2) this] have
    "mset (place (set ids) (tasks s) os)
      = mset (filter (\<lambda>t. task_id t \<in> set ids) (tasks s)) + mset (filter (\<lambda>t. task_id t \<notin> set ids) (tasks s))"
    unfolding ar(3) by blast
  also have "\<dots> = mset (tasks s)"
    using multiset_partition [of "mset (tasks s)" "\<lambda>t. task_id t \<in> set ids"] by simp
  finally show ?thesis using True arrange_applies [OF d, of ids] by (simp add: os_def)
qed

lemma store_ok_mset:
  "store_ok s \<Longrightarrow> mset (tasks s') = mset (tasks s) \<Longrightarrow> next_id s' = next_id s \<Longrightarrow> store_ok s'"
proof -
  assume a: "store_ok s" "mset (tasks s') = mset (tasks s)" "next_id s' = next_id s"
  from a(2) have "mset (map task_id (tasks s')) = mset (map task_id (tasks s))" by simp
  then have "distinct (map task_id (tasks s')) = distinct (map task_id (tasks s))"
    by (rule mset_eq_imp_distinct_iff)
  with a mset_eq_setD [OF a(2)] show ?thesis by (simp add: store_ok_def)
qed


section \<open>Every operation keeps ids unique\<close>

lemma store_ok_emit [simp]: "store_ok (emit s) = store_ok s"
  by (simp add: store_ok_def)

lemma store_ok_update_first:
  "store_ok s \<Longrightarrow> (\<And>t. task_id (f t) = task_id t) \<Longrightarrow> store_ok (s\<lparr>tasks := update_first P f (tasks s)\<rparr>)"
  by (rule store_ok_same) (simp_all add: map_update_first)

lemma store_ok_upsert: "store_ok s \<Longrightarrow> store_ok (upsert_keyed now k ttl opts p s)"
  unfolding upsert_keyed_def Let_def store_ok_emit
  by (rule store_ok_update_first) (auto intro: store_ok_append simp: keyed_row_def simp del: One_nat_def)

lemma store_ok_remove: "store_ok s \<Longrightarrow> store_ok (remove i s)"
  using set_remove_first [of "\<lambda>t. task_id t = i" "tasks s"]
  by (auto simp: remove_def store_ok_def distinct_remove_first)

lemma filter_full: "length (filter P xs) = length xs \<Longrightarrow> filter P xs = xs"
  by (metis filter_id_conv length_filter_less less_irrefl)

definition plan_live :: "store \<Rightarrow> bool" where
  "plan_live s \<longleftrightarrow> open_plan s \<and> Suc (plan_idle_resets s) < plan_idle_messages"

lemma reset_tasks:
  "tasks (reset s) = filter (reset_keeps (open_plan s \<and> \<not> plan_live s) (plan_live s)) (tasks s)
   \<and> (next_id (reset s) = next_id s \<or> tasks (reset s) = [])"
proof -
  let ?P = "reset_keeps (open_plan s \<and> \<not> plan_live s) (plan_live s)"
  have e: "reset s =
     (let s' = s\<lparr>plan_idle_resets := (if open_plan s \<and> \<not> plan_live s then 0
                   else if open_plan s then plan_idle_resets s + 1 else 0)\<rparr>;
          active = filter ?P (tasks s)
      in if length active = length (tasks s) \<and> next_id s = 1 then s'
         else let keep_agent = (\<lambda>a. kind_of a \<noteq> Subagent_agent \<and> has_stats a);
                  s' = (if active = [] then s'\<lparr>next_id := 1, agents := filter keep_agent (agents s)\<rparr>
                       else s'\<lparr>agents := filter (\<lambda>a. agent_id a \<in> set (map owner_id active) \<or> keep_agent a)
                                (agents s)\<rparr>)
              in emit (s'\<lparr>tasks := active\<rparr>))"
    by (cases "open_plan s") (simp_all add: reset_def plan_live_def Let_def)
  show ?thesis
  proof (cases "length (filter ?P (tasks s)) = length (tasks s) \<and> next_id s = 1")
    case True
    then show ?thesis using filter_full [of ?P "tasks s"] by (simp add: e Let_def)
  next
    case False
    then show ?thesis unfolding e Let_def by (auto simp del: length_filter_conv_card)
  qed
qed

lemma store_ok_reset: "store_ok s \<Longrightarrow> store_ok (reset s)"
  using reset_tasks [of s] store_ok_filter by blast

lemma store_ok_step: "store_ok s \<Longrightarrow> store_ok (store_step s e)"
proof (induction s e rule: store_step.induct)
  case (1 s now ttl opts)
  then show ?case
    using store_ok_append [of s] by (simp add: create_def Let_def)
next
  case (2 s now i p)
  then show ?case by (simp add: update_def store_ok_update_first)
next
  case (3 s now k ttl opts p)
  then show ?case by (simp add: store_ok_upsert)
next
  case (4 s pred)
  then show ?case by (auto simp: remove_keys_where_def Let_def intro: store_ok_filter)
next
  case (5 s i)
  then show ?case by (simp add: store_ok_remove)
next
  case (6 s ids)
  then show ?case using arrange_mset [OF 6] by (auto intro: store_ok_mset)
next
  case (12 s)
  then show ?case by (simp add: store_ok_reset)
qed (auto simp: store_ok_def set_row_actions_def upsert_agent_def patch_agent_def add_agent_stats_def
      note_plan_write_def clear_def subscribe_def unsubscribe_def Let_def)

interpretation store_run: stepper store_step store_ok
  by unfold_locales (rule store_ok_step)

text \<open>
  C38: Row ids stay unique. From a new store, after any sequence of operations, no two rows
  have the same id and every id is below the next one to be given, so a new row never takes
  the id of a row that is there.
\<close>

theorem task_ids_unique:
  "distinct (map task_id (tasks (foldl store_step new_store events)))
   \<and> (\<forall>t \<in> set (tasks (foldl store_step new_store events)).
        task_id t < next_id (foldl store_step new_store events))"
proof -
  have "store_ok new_store" by (simp add: store_ok_def new_store_def)
  from store_run.run_inv [OF this] show ?thesis by (simp add: store_ok_def)
qed

theorem task_ids_unique_witness:
  "distinct (map task_id (tasks (foldl store_step new_store [Reset, Clear, Arrange [1, 2]])))"
  using task_ids_unique [of "[Reset, Clear, Arrange [1, 2]]"] by simp

text \<open>
  \<open>arrange\<close> permutes the named rows and nothing else. In a store with unique ids, when the
  given ids are distinct and all there, the named rows are afterwards in the given order,
  every other row is at its old index, and no row is lost, added or changed; in every other
  case nothing happens and nobody is notified.
\<close>

theorem arrange_permutes:
  assumes "store_ok s"
  shows "if distinct ids \<and> set ids \<subseteq> task_id ` set (tasks s)
    then map task_id (filter (\<lambda>t. task_id t \<in> set ids) (tasks (arrange ids s))) = ids
       \<and> mset (tasks (arrange ids s)) = mset (tasks s)
       \<and> (\<forall>i < length (tasks s). task_id (tasks s ! i) \<notin> set ids \<longrightarrow>
            tasks (arrange ids s) ! i = tasks s ! i)
    else arrange ids s = s"
proof (cases "distinct ids \<and> set ids \<subseteq> task_id ` set (tasks s)")
  case False
  from assms have "distinct (map task_id (tasks s))" by (simp add: store_ok_def)
  from arrange_applies [OF this, of ids] False show ?thesis by (simp only: if_False)
next
  case True
  from assms have d: "distinct (map task_id (tasks s))" by (simp add: store_ok_def)
  define os where "os = map (\<lambda>i. the (find_task i (tasks s))) ids"
  note ar = arranged_rows [OF d True [THEN conjunct1] True [THEN conjunct2], folded os_def]
  have "\<forall>t \<in> set os. task_id t \<in> set ids" using ar(1) by (metis image_eqI set_map)
  from place_parts [OF ar(2) this] have
    "filter (\<lambda>t. task_id t \<in> set ids) (place (set ids) (tasks s) os) = os" by blast
  moreover have "tasks (arrange ids s) = place (set ids) (tasks s) os"
    using True arrange_applies [OF d, of ids] by (simp add: os_def)
  ultimately show ?thesis
    using True ar(1) arrange_mset [OF assms, of ids] place_others by auto
qed

definition titled :: "nat \<Rightarrow> task" where
  "titled i = keyed_row 0 [] \<lparr>opt_source = None, opt_subagent_mode = None, opt_agent = None,
     opt_parent = None, opt_linked = None, opt_key = None, opt_log_path = None\<rparr> i\<lparr>key := None\<rparr>"

theorem arrange_permutes_witness:
  "map task_id (filter (\<lambda>t. task_id t \<in> {3, 1})
     (tasks (arrange [3, 1] (new_store\<lparr>tasks := map titled [1, 2, 3], next_id := 4\<rparr>)))) = [3, 1]"
proof -
  let ?s = "new_store\<lparr>tasks := map titled [1, 2, 3], next_id := 4\<rparr>"
  have "store_ok ?s" by (simp add: store_ok_def titled_def keyed_row_def)
  from arrange_permutes [OF this, of "[3, 1]"] show ?thesis
    by (simp add: titled_def keyed_row_def)
qed

section \<open>Reset\<close>

text \<open>
  A new user message drops a plan as a whole or not at all. While some plan item is
  unfinished and fewer than three messages in a row (this one included) passed without a plan
  write, \<open>reset\<close> keeps every plan item, finished ones too; at the third it removes every one.
  Rows of other kinds that are active or keyed always stay.
\<close>

theorem reset_plan_whole:
  assumes "open_plan s"
  shows "(if plan_idle_resets s + 1 < plan_idle_messages
          then filter is_plan_item (tasks (reset s)) = filter is_plan_item (tasks s)
          else filter is_plan_item (tasks (reset s)) = [])
    \<and> (\<forall>t \<in> set (tasks s). \<not> is_plan_item t \<and> (is_active (status_of t) \<or> key t \<noteq> None)
         \<longrightarrow> t \<in> set (tasks (reset s)))"
proof -
  have t: "tasks (reset s) = filter (reset_keeps (\<not> plan_live s) (plan_live s)) (tasks s)"
    using reset_tasks [of s] assms by simp
  have l: "plan_idle_resets s + 1 < plan_idle_messages \<longleftrightarrow> plan_live s"
    using assms by (simp add: plan_live_def)
  show ?thesis
    unfolding t l by (auto simp: reset_keeps_def filter_empty_conv intro!: filter_cong)
qed

theorem reset_plan_whole_witness:
  "filter is_plan_item (tasks (reset (new_store\<lparr>tasks :=
      [(titled 1)\<lparr>status_of := Done_status\<rparr>, titled 2], next_id := 3\<rparr>)))
   = [(titled 1)\<lparr>status_of := Done_status\<rparr>, titled 2]"
proof -
  let ?s = "new_store\<lparr>tasks := [(titled 1)\<lparr>status_of := Done_status\<rparr>, titled 2], next_id := 3\<rparr>"
  have "open_plan ?s"
    by (simp add: open_plan_def is_plan_item_def is_active_def titled_def keyed_row_def)
  from reset_plan_whole [OF this] show ?thesis
    by (simp add: plan_idle_messages_def new_store_def is_plan_item_def titled_def keyed_row_def)
qed

text \<open>
  The documented exception for keyed rows is missing. The comment on \<open>reset\<close> says keyed
  rows are kept whatever their status; a keyed row without source, agent and parent is a plan
  item, and the third idle message removes it although it is active.
\<close>

theorem reset_drops_keyed_row:
  "let row = keyed_row 0 (U ''k'') \<lparr>opt_source = None, opt_subagent_mode = None, opt_agent = None,
        opt_parent = None, opt_linked = None, opt_key = None, opt_log_path = None\<rparr> 1
   in key row \<noteq> None \<and> is_active (status_of row)
      \<and> tasks (reset (new_store\<lparr>tasks := [row], next_id := 2, plan_idle_resets := 2\<rparr>)) = []"
  by (simp add: keyed_row_def is_active_def reset_def open_plan_def is_plan_item_def
      plan_idle_messages_def reset_keeps_def Let_def)

section \<open>Batches\<close>

definition no_listener_change :: "store_event \<Rightarrow> bool" where
  "no_listener_change e \<longleftrightarrow> (case e of Subscribe \<Rightarrow> False | Unsubscribe _ \<Rightarrow> False | _ \<Rightarrow> True)"

definition quiet :: "store \<Rightarrow> store \<Rightarrow> bool" where
  "quiet s t \<longleftrightarrow> batch_depth t = batch_depth s \<and> notified t = notified s
     \<and> mutation_count s \<le> mutation_count t"

lemma emit_effects:
  "notified (emit s) = (if batch_depth s > 0 then notified s else notified s @ listeners s)"
  "mutation_count (emit s) = mutation_count s + 1"
  by (simp_all add: emit_def Let_def)

lemma step_quiet: "batch_depth s > 0 \<Longrightarrow> quiet s (store_step s e)"
  by (cases e)
     (auto simp: create_def update_def upsert_keyed_def remove_keys_where_def remove_def arrange_def
        set_row_actions_def upsert_agent_def patch_agent_def add_agent_stats_def note_plan_write_def
        reset_def clear_def subscribe_def unsubscribe_def Let_def quiet_def emit_effects)

lemma step_listeners: "no_listener_change e \<Longrightarrow> listeners (store_step s e) = listeners s"
  by (cases e)
     (auto simp: create_def update_def upsert_keyed_def remove_keys_where_def remove_def arrange_def
        set_row_actions_def upsert_agent_def patch_agent_def add_agent_stats_def note_plan_write_def
        reset_def clear_def no_listener_change_def Let_def)

lemma run_quiet: "batch_depth s > 0 \<Longrightarrow> quiet s (foldl store_step s es)"
proof (induction es arbitrary: s)
  case Nil
  show ?case by (simp add: quiet_def)
next
  case (Cons e es)
  from step_quiet [OF Cons.prems, of e] Cons.prems have "batch_depth (store_step s e) > 0"
    by (simp add: quiet_def)
  from Cons.IH [OF this] step_quiet [OF Cons.prems, of e] show ?case by (simp add: quiet_def)
qed

lemma run_listeners: "list_all no_listener_change es \<Longrightarrow> listeners (foldl store_step s es) = listeners s"
  by (induction es arbitrary: s) (simp_all add: step_listeners)

text \<open>
  A batch notifies once. However many operations run in an outermost batch, none of them
  notifies anybody; when the batch ends every listener subscribed then is called once, in
  order; inside another batch nobody is called at all. The version never goes back.
\<close>

theorem batch_notifies_once:
  "notified (batch (\<lambda>s. foldl store_step s es) s) =
     (if batch_depth s = 0
      then notified s @ listeners (foldl store_step (batch_begin s) es) else notified s)
   \<and> batch_depth (batch (\<lambda>s. foldl store_step s es) s) = batch_depth s
   \<and> mutation_count s \<le> mutation_count (batch (\<lambda>s. foldl store_step s es) s)
   \<and> (list_all no_listener_change es \<longrightarrow> listeners (foldl store_step (batch_begin s) es) = listeners s)"
proof -
  have b: "batch_depth (batch_begin s) > 0" by (simp add: batch_begin_def)
  from run_quiet [OF b, of es] run_listeners [of es "batch_begin s"] show ?thesis
    by (auto simp: batch_def batch_end_def batch_begin_def quiet_def emit_effects Let_def)
qed

theorem batch_notifies_once_witness:
  "notified (batch (\<lambda>s. foldl store_step s [Clear, Reset, Clear]) (snd (subscribe new_store))) = [0]"
  using batch_notifies_once [of "[Clear, Reset, Clear]" "snd (subscribe new_store)"]
  by (simp add: subscribe_def new_store_def no_listener_change_def)

end
