(* ===== verification/Session_Tree.thy ===== *)
theory Session_Tree
  imports Messages
begin

text \<open>
  \<^verbatim>\<open>hoocode-agent-session/src/entry.rs\<close> (the lines of a session file) and
  \<^verbatim>\<open>hoocode-agent-session/src/storage.rs\<close>: the append-only tree of entries with its id index,
  its label cache and its movable leaf. \<^verbatim>\<open>path_to_root\<close> follows parent ids until one is
  missing; it is a \<open>partial_function (option)\<close>, so a walk that does not end is \<open>None\<close>, and
  it is proved to return on every well-formed tree. The random UUIDs behind fresh ids are a
  parameter \<open>draw\<close> (the \<open>n\<close>-th value drawn).
\<close>

section \<open>Entries\<close>

record header =
  h_version :: "nat option"
  h_id :: ustr
  h_timestamp :: ustr
  h_cwd :: ustr
  h_parent_session :: "ustr option"
  h_branch :: "ustr option"

definition current_session_version :: nat where
  "current_session_version = 3"

text \<open>Every tree entry starts with its id, its parent and its timestamp.\<close>

datatype file_entry =
    SessionHeader header
  | Message ustr "ustr option" ustr agent_message
  | ThinkingLevelChange ustr "ustr option" ustr ustr
  | ModelChange ustr "ustr option" ustr ustr ustr
  | Compaction ustr "ustr option" ustr ustr ustr nat "nat option" "json option" "bool option"
      "(nat \<times> nat) option"
  | BranchSummary ustr "ustr option" ustr ustr ustr "json option" "bool option"
  | Custom ustr "ustr option" ustr ustr "json option"
  | CustomMessage ustr "ustr option" ustr ustr user_content bool "json option"
  | Label ustr "ustr option" ustr ustr "ustr option"
  | SessionInfo ustr "ustr option" ustr "ustr option" "nat option" "ustr option"

fun entry_id :: "file_entry \<Rightarrow> ustr option" where
  "entry_id (SessionHeader _) = None"
| "entry_id (Message i _ _ _) = Some i"
| "entry_id (ThinkingLevelChange i _ _ _) = Some i"
| "entry_id (ModelChange i _ _ _ _) = Some i"
| "entry_id (Compaction i _ _ _ _ _ _ _ _ _) = Some i"
| "entry_id (BranchSummary i _ _ _ _ _ _) = Some i"
| "entry_id (Custom i _ _ _ _) = Some i"
| "entry_id (CustomMessage i _ _ _ _ _ _) = Some i"
| "entry_id (Label i _ _ _ _) = Some i"
| "entry_id (SessionInfo i _ _ _ _ _) = Some i"

fun parent_id :: "file_entry \<Rightarrow> ustr option" where
  "parent_id (SessionHeader _) = None"
| "parent_id (Message _ p _ _) = p"
| "parent_id (ThinkingLevelChange _ p _ _) = p"
| "parent_id (ModelChange _ p _ _ _) = p"
| "parent_id (Compaction _ p _ _ _ _ _ _ _ _) = p"
| "parent_id (BranchSummary _ p _ _ _ _ _) = p"
| "parent_id (Custom _ p _ _ _) = p"
| "parent_id (CustomMessage _ p _ _ _ _ _) = p"
| "parent_id (Label _ p _ _ _) = p"
| "parent_id (SessionInfo _ p _ _ _ _) = p"

fun timestamp :: "file_entry \<Rightarrow> ustr option" where
  "timestamp (SessionHeader h) = Some (h_timestamp h)"
| "timestamp (Message _ _ t _) = Some t"
| "timestamp (ThinkingLevelChange _ _ t _) = Some t"
| "timestamp (ModelChange _ _ t _ _) = Some t"
| "timestamp (Compaction _ _ t _ _ _ _ _ _ _) = Some t"
| "timestamp (BranchSummary _ _ t _ _ _ _) = Some t"
| "timestamp (Custom _ _ t _ _) = Some t"
| "timestamp (CustomMessage _ _ t _ _ _ _) = Some t"
| "timestamp (Label _ _ t _ _) = Some t"
| "timestamp (SessionInfo _ _ t _ _ _) = Some t"

fun is_label :: "file_entry \<Rightarrow> bool" where
  "is_label (Label _ _ _ _ _) = True"
| "is_label _ = False"

fun is_message :: "file_entry \<Rightarrow> bool" where
  "is_message (Message _ _ _ _) = True"
| "is_message _ = False"

text \<open>The \<^verbatim>\<open>type\<close> tag of an entry on the wire.\<close>

fun entry_type_of :: "file_entry \<Rightarrow> ustr" where
  "entry_type_of (SessionHeader _) = U ''session''"
| "entry_type_of (Message _ _ _ _) = U ''message''"
| "entry_type_of (ThinkingLevelChange _ _ _ _) = U ''thinking_level_change''"
| "entry_type_of (ModelChange _ _ _ _ _) = U ''model_change''"
| "entry_type_of (Compaction _ _ _ _ _ _ _ _ _ _) = U ''compaction''"
| "entry_type_of (BranchSummary _ _ _ _ _ _ _) = U ''branch_summary''"
| "entry_type_of (Custom _ _ _ _ _) = U ''custom''"
| "entry_type_of (CustomMessage _ _ _ _ _ _ _) = U ''custom_message''"
| "entry_type_of (Label _ _ _ _ _) = U ''label''"
| "entry_type_of (SessionInfo _ _ _ _ _ _) = U ''session_info''"

section \<open>Errors and fresh ids\<close>

datatype session_error =
    EntryNotFound ustr
  | SessionNotFound ustr
  | Invalid ustr
  | Io
  | JsonError

text \<open>
  \<^verbatim>\<open>generate_entry_id\<close>: up to 100 draws cut to 8 characters, then a full UUID.
\<close>

fun entry_id_go :: "(nat \<Rightarrow> ustr) \<Rightarrow> (ustr \<Rightarrow> bool) \<Rightarrow> nat \<Rightarrow> nat \<Rightarrow> ustr" where
  "entry_id_go draw taken k 0 = draw k"
| "entry_id_go draw taken k (Suc n) =
     (let i = take 8 (draw k) in if \<not> taken i then i else entry_id_go draw taken (Suc k) n)"

definition generate_entry_id :: "(nat \<Rightarrow> ustr) \<Rightarrow> (ustr \<Rightarrow> bool) \<Rightarrow> ustr" where
  "generate_entry_id draw taken = entry_id_go draw taken 0 100"

lemma entry_id_go_fresh:
  assumes "\<not> taken (draw (k + n))"
  shows "\<not> taken (entry_id_go draw taken k n)"
  using assms
  by (induction draw taken k n rule: entry_id_go.induct) (auto simp: Let_def)

lemma entry_id_fresh:
  "\<not> taken (draw 100) \<Longrightarrow> \<not> taken (generate_entry_id draw taken)"
  unfolding generate_entry_id_def by (rule entry_id_go_fresh) simp

text \<open>\<^verbatim>\<open>encode_cwd\<close>: the directory name a working directory's sessions are kept under.\<close>

definition encode_cwd :: "ustr \<Rightarrow> ustr" where
  "encode_cwd cwd =
     (let trimmed = (case cwd of [] \<Rightarrow> [] | c # cs \<Rightarrow> if c = 47 \<or> c = 92 then cs else cwd)
      in U ''--'' @ map (\<lambda>c. if c = 47 \<or> c = 92 \<or> c = 58 then 45 else c) trimmed @ U ''--'')"

section \<open>The tree\<close>

record tree =
  entries :: "file_entry list"
  by_id :: "(ustr \<times> nat) list"
  labels_by_id :: "(ustr \<times> ustr) list"
  leaf_id :: "ustr option"

definition empty_tree :: tree where
  "empty_tree = \<lparr>entries = [], by_id = [], labels_by_id = [], leaf_id = None\<rparr>"

text \<open>The label cache after an entry: a blank or missing label clears its target's.\<close>

definition cache_label :: "file_entry \<Rightarrow> (ustr \<times> ustr) list \<Rightarrow> (ustr \<times> ustr) list" where
  "cache_label e m =
     (case e of
        Label _ _ _ target label \<Rightarrow>
          (case (case label of None \<Rightarrow> None
                 | Some l \<Rightarrow> if trim l \<noteq> [] then Some (trim l) else None) of
             Some l \<Rightarrow> aput target l m
           | None \<Rightarrow> adel target m)
      | _ \<Rightarrow> m)"

definition push :: "file_entry \<Rightarrow> tree \<Rightarrow> tree" where
  "push e t =
     (let t = t\<lparr>labels_by_id := cache_label e (labels_by_id t)\<rparr>;
          t = (case entry_id e of
                 Some i \<Rightarrow> t\<lparr>by_id := aput i (length (entries t)) (by_id t), leaf_id := Some i\<rparr>
               | None \<Rightarrow> t)
      in t\<lparr>entries := entries t @ [e]\<rparr>)"

definition new_tree :: "file_entry list \<Rightarrow> tree" where
  "new_tree es = foldl (\<lambda>t e. push e t) empty_tree es"

definition get_entry :: "tree \<Rightarrow> ustr \<Rightarrow> file_entry option" where
  "get_entry t i = map_option (\<lambda>k. entries t ! k) (aget (by_id t) i)"

definition set_leaf :: "ustr option \<Rightarrow> tree \<Rightarrow> session_error + tree" where
  "set_leaf leaf t =
     (case leaf of
        Some i \<Rightarrow> if aget (by_id t) i = None then Inl (EntryNotFound i)
                  else Inr (t\<lparr>leaf_id := leaf\<rparr>)
      | None \<Rightarrow> Inr (t\<lparr>leaf_id := leaf\<rparr>))"

definition find_entries :: "tree \<Rightarrow> ustr \<Rightarrow> file_entry list" where
  "find_entries t ty = filter (\<lambda>e. entry_type_of e = ty) (entries t)"

definition label_of :: "tree \<Rightarrow> ustr \<Rightarrow> ustr option" where
  "label_of t i = aget (labels_by_id t) i"

partial_function (option) path_go ::
  "tree \<Rightarrow> file_entry option \<Rightarrow> file_entry list \<Rightarrow> file_entry list option" where
  "path_go t current path =
     (case current of
        None \<Rightarrow> Some path
      | Some e \<Rightarrow> path_go t (Option.bind (parent_id e) (get_entry t)) (path @ [e]))"

definition path_to_root :: "tree \<Rightarrow> ustr option \<Rightarrow> file_entry list option" where
  "path_to_root t leaf = map_option rev (path_go t (Option.bind leaf (get_entry t)) [])"

definition new_entry_id :: "(nat \<Rightarrow> ustr) \<Rightarrow> tree \<Rightarrow> ustr" where
  "new_entry_id draw t = generate_entry_id draw (\<lambda>i. aget (by_id t) i \<noteq> None)"

section \<open>Well-formed trees\<close>

text \<open>
  The index holds exactly the entries' ids, every parent is an earlier entry, and the leaf is
  in the tree. A tree grown by session operations is well formed; a file can break it.
\<close>

definition wf_tree :: "tree \<Rightarrow> bool" where
  "wf_tree t \<longleftrightarrow>
     (\<forall>i k. aget (by_id t) i = Some k \<longrightarrow> k < length (entries t) \<and> entry_id (entries t ! k) = Some i)
     \<and> (\<forall>k < length (entries t). \<exists>i. entry_id (entries t ! k) = Some i \<and> aget (by_id t) i = Some k)
     \<and> (\<forall>k < length (entries t). \<forall>p. parent_id (entries t ! k) = Some p
          \<longrightarrow> (\<exists>j < k. aget (by_id t) p = Some j))
     \<and> (\<forall>i. leaf_id t = Some i \<longrightarrow> aget (by_id t) i \<noteq> None)"

definition fresh_entry :: "file_entry \<Rightarrow> tree \<Rightarrow> bool" where
  "fresh_entry e t \<longleftrightarrow>
     (\<exists>i. entry_id e = Some i \<and> aget (by_id t) i = None)
     \<and> (\<forall>p. parent_id e = Some p \<longrightarrow> aget (by_id t) p \<noteq> None)"

lemma wf_treeD:
  assumes "wf_tree t"
  shows "aget (by_id t) i = Some k \<Longrightarrow> k < length (entries t)"
    and "aget (by_id t) i = Some k \<Longrightarrow> entry_id (entries t ! k) = Some i"
    and "k < length (entries t) \<Longrightarrow> \<exists>i. entry_id (entries t ! k) = Some i \<and> aget (by_id t) i = Some k"
    and "k < length (entries t) \<Longrightarrow> parent_id (entries t ! k) = Some p
           \<Longrightarrow> \<exists>j < k. aget (by_id t) p = Some j"
    and "leaf_id t = Some i \<Longrightarrow> aget (by_id t) i \<noteq> None"
  using assms unfolding wf_tree_def by blast+

lemma wf_empty [simp]: "wf_tree empty_tree"
  by (simp add: wf_tree_def empty_tree_def)

lemma push_simps [simp]:
  "entries (push e t) = entries t @ [e]"
  "labels_by_id (push e t) = cache_label e (labels_by_id t)"
  "by_id (push e t) = (case entry_id e of Some i \<Rightarrow> aput i (length (entries t)) (by_id t) | None \<Rightarrow> by_id t)"
  "leaf_id (push e t) = (case entry_id e of Some i \<Rightarrow> Some i | None \<Rightarrow> leaf_id t)"
  by (simp_all add: push_def Let_def split: option.splits)

lemma wf_push:
  assumes wf: "wf_tree t" and fresh: "fresh_entry e t"
  shows "wf_tree (push e t)"
proof -
  from fresh obtain i where i: "entry_id e = Some i" "aget (by_id t) i = None"
    by (auto simp: fresh_entry_def)
  note d = wf_treeD [OF wf]
  have idx: "aget (by_id (push e t)) j = (if j = i then Some (length (entries t)) else aget (by_id t) j)" for j
    by (simp add: i amap.get_put)
  have par: "\<exists>j < k. aget (by_id (push e t)) p = Some j"
    if "k < length (entries (push e t))" "parent_id (entries (push e t) ! k) = Some p" for k p
  proof (cases "k = length (entries t)")
    case True
    with that fresh obtain j where "aget (by_id t) p = Some j"
      by (auto simp: fresh_entry_def)
    with d(1) [of p j] i True show ?thesis by (auto simp: amap.get_put)
  next
    case False
    with that have k: "k < length (entries t)" "parent_id (entries t ! k) = Some p"
      by (auto simp: nth_append)
    from d(4) [OF k] i show ?thesis by (auto simp: amap.get_put)
  qed
  have ids: "\<exists>j. entry_id (entries (push e t) ! k) = Some j \<and> aget (by_id (push e t)) j = Some k"
    if "k < length (entries (push e t))" for k
  proof (cases "k = length (entries t)")
    case True
    with i show ?thesis by (auto simp: nth_append amap.get_put)
  next
    case False
    with that have k: "k < length (entries t)" by simp
    from d(3) [OF k] obtain j where "entry_id (entries t ! k) = Some j" "aget (by_id t) j = Some k"
      by blast
    with i k show ?thesis by (auto simp: idx nth_append simp del: push_simps(3))
  qed
  have "k < length (entries (push e t)) \<and> entry_id (entries (push e t) ! k) = Some j"
    if "aget (by_id (push e t)) j = Some k" for j k
    using that d(1) [of j k] d(2) [of j k] i
    by (auto simp: idx nth_append simp del: push_simps(3) split: if_splits)
  with par ids show ?thesis
    unfolding wf_tree_def by (auto simp: i amap.get_put)
qed

lemma wf_set_leaf:
  "wf_tree t \<Longrightarrow> set_leaf leaf t = Inr t' \<Longrightarrow> wf_tree t' \<and> leaf_id t' = leaf \<and> entries t' = entries t
     \<and> by_id t' = by_id t \<and> labels_by_id t' = labels_by_id t"
  by (auto simp: set_leaf_def wf_tree_def split: option.splits if_splits)

lemma get_entry_Some:
  "wf_tree t \<Longrightarrow> get_entry t i = Some e \<Longrightarrow>
     \<exists>k < length (entries t). aget (by_id t) i = Some k \<and> entries t ! k = e \<and> entry_id e = Some i"
  using wf_treeD(1,2) by (fastforce simp: get_entry_def)

lemma get_entry_push:
  "wf_tree t \<Longrightarrow> fresh_entry e t \<Longrightarrow>
     get_entry (push e t) i = (if entry_id e = Some i then Some e else get_entry t i)"
  using wf_treeD(1) [of t i]
  by (cases "aget (by_id t) i")
    (auto simp: get_entry_def fresh_entry_def amap.get_put nth_append split: option.splits)

section \<open>The walk to the root\<close>

lemma path_go_returns:
  "wf_tree t \<Longrightarrow> aget (by_id t) i = Some k \<Longrightarrow>
     \<exists>r. \<forall>path. path_go t (get_entry t i) path = Some (path @ r)"
proof (induction k arbitrary: i rule: less_induct)
  case (less k)
  note d = wf_treeD [OF less.prems(1)]
  have e: "get_entry t i = Some (entries t ! k)"
    by (simp add: get_entry_def less.prems)
  show ?case
  proof (cases "parent_id (entries t ! k)")
    case None
    then have "path_go t (get_entry t i) path = Some (path @ [entries t ! k])" for path
      by (simp add: e path_go.simps)
    then show ?thesis by blast
  next
    case (Some p)
    from d(4) [OF d(1) [OF less.prems(2)] Some] obtain j where j: "j < k" "aget (by_id t) p = Some j"
      by blast
    from less.IH [OF j(1) less.prems(1) j(2)] obtain r
      where r: "\<forall>path. path_go t (get_entry t p) path = Some (path @ r)" by blast
    have "path_go t (get_entry t i) path = Some (path @ (entries t ! k # r))" for path
      using r by (subst path_go.simps) (simp add: e Some)
    then show ?thesis by blast
  qed
qed

lemma path_to_root_None [simp]: "path_to_root t None = Some []"
  by (simp add: path_to_root_def path_go.simps)

lemma path_to_root_missing: "get_entry t i = None \<Longrightarrow> path_to_root t (Some i) = Some []"
  by (simp add: path_to_root_def path_go.simps)

lemma path_to_root_step:
  assumes "wf_tree t" "get_entry t i = Some e"
  shows "path_to_root t (Some i) = map_option (\<lambda>p. p @ [e]) (path_to_root t (parent_id e))"
proof (cases "parent_id e")
  case None
  with assms show ?thesis
    by (simp add: path_to_root_def path_go.simps)
next
  case (Some p)
  from get_entry_Some [OF assms] obtain k where k: "k < length (entries t)" "entries t ! k = e"
    by blast
  with wf_treeD(4) [OF assms(1) k(1)] Some obtain j where "aget (by_id t) p = Some j" by auto
  from path_go_returns [OF assms(1) this] obtain r
    where r: "\<forall>path. path_go t (get_entry t p) path = Some (path @ r)" by blast
  have "path_go t (get_entry t i) [] = Some (e # r)"
    using r by (subst path_go.simps) (simp add: assms(2) Some)
  with r show ?thesis by (simp add: path_to_root_def Some)
qed

lemma path_to_root_returns: "wf_tree t \<Longrightarrow> \<exists>p. path_to_root t leaf = Some p"
proof (cases leaf)
  case (Some i)
  assume wf: "wf_tree t"
  show ?thesis
  proof (cases "aget (by_id t) i")
    case None
    then show ?thesis by (simp add: Some path_to_root_missing get_entry_def)
  next
    case (Some k)
    from path_go_returns [OF wf Some] show ?thesis
      using \<open>leaf = Some i\<close> by (auto simp: path_to_root_def)
  qed
qed simp

text \<open>What a branch is: each entry's parent is the one before it, and the first has none.\<close>

fun linked :: "ustr option \<Rightarrow> file_entry list \<Rightarrow> bool" where
  "linked parent [] = True"
| "linked parent (e # es) = (parent_id e = parent \<and> linked (entry_id e) es)"

lemma linked_snoc:
  "linked q (es @ [e]) \<longleftrightarrow> linked q es \<and> parent_id e = (if es = [] then q else entry_id (last es))"
  by (induction q es rule: linked.induct) auto

lemma path_to_root_linked:
  assumes wf: "wf_tree t" and "get_entry t i = Some e"
  shows "\<exists>p. path_to_root t (Some i) = Some (p @ [e]) \<and> linked None (p @ [e])
           \<and> set (p @ [e]) \<subseteq> set (entries t)"
proof -
  from get_entry_Some [OF assms] obtain k
    where "k < length (entries t)" "aget (by_id t) i = Some k" "entries t ! k = e" by blast
  with assms(2) show ?thesis
  proof (induction k arbitrary: i e rule: less_induct)
    case (less k)
    have mem: "e \<in> set (entries t)" using less.prems by auto
    note step = path_to_root_step [OF wf less.prems(1)]
    show ?case
    proof (cases "parent_id e")
      case None
      with step mem show ?thesis by (intro exI [of _ "[]"]) simp
    next
      case (Some p)
      with wf_treeD(4) [OF wf less.prems(2)] less.prems(4) obtain j
        where j: "j < k" "aget (by_id t) p = Some j" by auto
      from wf_treeD(1,2) [OF wf j(2)] have jl: "j < length (entries t)" "entry_id (entries t ! j) = Some p"
        by auto
      from less.IH [OF j(1) _ jl(1) j(2) refl] obtain q where
        q: "path_to_root t (Some p) = Some (q @ [entries t ! j])" "linked None (q @ [entries t ! j])"
           "set (q @ [entries t ! j]) \<subseteq> set (entries t)"
        by (auto simp: get_entry_def j)
      show ?thesis
        by (intro exI [of _ "q @ [entries t ! j]"] conjI)
          (use step Some q mem jl in \<open>simp_all add: linked_snoc [of _ "q @ [entries t ! j]", simplified]\<close>)
    qed
  qed
qed

lemma path_to_root_push_old:
  assumes wf: "wf_tree t" and fr: "fresh_entry e t" and i: "get_entry t i \<noteq> None"
  shows "path_to_root (push e t) (Some i) = path_to_root t (Some i)"
proof -
  from i obtain k where "aget (by_id t) i = Some k" by (auto simp: get_entry_def)
  then show ?thesis
  proof (induction k arbitrary: i rule: less_induct)
    case (less k)
    note wf' = wf_push [OF wf fr]
    let ?x = "entries t ! k"
    have g: "get_entry t i = Some ?x" by (simp add: get_entry_def less.prems)
    have g': "get_entry (push e t) i = Some ?x"
      using g fr less.prems by (auto simp: get_entry_push [OF wf fr] fresh_entry_def)
    have "path_to_root (push e t) (parent_id ?x) = path_to_root t (parent_id ?x)"
    proof (cases "parent_id ?x")
      case (Some p)
      with wf_treeD(4) [OF wf wf_treeD(1) [OF wf less.prems]] obtain j
        where "j < k" "aget (by_id t) p = Some j" by blast
      from less.IH [OF this] Some show ?thesis by simp
    qed simp
    with path_to_root_step [OF wf g] path_to_root_step [OF wf' g'] show ?case by simp
  qed
qed

lemma path_to_root_push:
  assumes wf: "wf_tree t" and fr: "fresh_entry e t" and i: "entry_id e = Some i"
  shows "path_to_root (push e t) (Some i) = map_option (\<lambda>p. p @ [e]) (path_to_root t (parent_id e))"
proof -
  have g: "get_entry (push e t) i = Some e"
    by (simp add: get_entry_push [OF wf fr] i)
  have "path_to_root (push e t) (parent_id e) = path_to_root t (parent_id e)"
  proof (cases "parent_id e")
    case (Some p)
    with fr have "get_entry t p \<noteq> None" by (auto simp: fresh_entry_def get_entry_def)
    from path_to_root_push_old [OF wf fr this] Some show ?thesis by simp
  qed simp
  with path_to_root_step [OF wf_push [OF wf fr] g] show ?thesis by simp
qed

lemma path_to_root_cong:
  assumes "wf_tree t" "wf_tree t'" and g: "get_entry t' = get_entry t"
  shows "path_to_root t' leaf = path_to_root t leaf"
proof (cases "Option.bind leaf (get_entry t)")
  case None
  then show ?thesis by (simp add: path_to_root_def g path_go.simps)
next
  case (Some e)
  then obtain i where i: "leaf = Some i" "get_entry t i = Some e" by (cases leaf) auto
  then obtain k where "aget (by_id t) i = Some k" by (auto simp: get_entry_def)
  with i(2) have "path_to_root t' (Some i) = path_to_root t (Some i)"
  proof (induction k arbitrary: i e rule: less_induct)
    case (less k)
    from less.prems have e: "e = entries t ! k" by (simp add: get_entry_def)
    have "path_to_root t' (parent_id e) = path_to_root t (parent_id e)"
    proof (cases "parent_id e")
      case (Some p)
      with wf_treeD(4) [OF assms(1) wf_treeD(1) [OF assms(1) less.prems(2)]] e obtain j
        where j: "j < k" "aget (by_id t) p = Some j" by auto
      then have "get_entry t p = Some (entries t ! j)" by (simp add: get_entry_def)
      from less.IH [OF j(1) this j(2)] Some show ?thesis by simp
    qed simp
    with path_to_root_step [OF assms(1) less.prems(1)] path_to_root_step [OF assms(2), of i e] g
    show ?case by (simp add: less.prems(1))
  qed
  with i show ?thesis by simp
qed

end
