(* ===== verification/Session_Storage.thy ===== *)
theory Session_Storage
  imports Session_Tree
begin

text \<open>
  The \<^verbatim>\<open>SessionStorage\<close> trait of \<^verbatim>\<open>storage.rs\<close> and its two backends. The trait is a record of
  operations (the dictionary a generic \<^verbatim>\<open>Session<S>\<close> is compiled with); the in-memory backend
  keeps a tree, the JSONL backend a tree and a file. A session file is modelled by its content
  (\<open>None\<close> when it cannot be read); JSON encoding and decoding of a line are parameters \<open>enc\<close>,
  \<open>dec_header\<close> and \<open>dec\<close> (\<open>stored\<close> says what a line keeps of an entry), and every append may hit
  an I/O fault, also one that stops inside the line.
\<close>

section \<open>The trait\<close>

record 's storage_ops =
  so_leaf_id :: "'s \<Rightarrow> ustr option"
  so_set_leaf_id :: "ustr option \<Rightarrow> 's \<Rightarrow> 's \<times> (session_error + unit)"
  so_create_entry_id :: "'s \<Rightarrow> ustr"
  so_append_entry :: "file_entry \<Rightarrow> 's \<Rightarrow> 's \<times> (session_error + unit)"
  so_entry :: "'s \<Rightarrow> ustr \<Rightarrow> file_entry option"
  so_find_entries :: "'s \<Rightarrow> ustr \<Rightarrow> file_entry list"
  so_label :: "'s \<Rightarrow> ustr \<Rightarrow> ustr option"
  so_path_to_root :: "'s \<Rightarrow> ustr option \<Rightarrow> file_entry list option"
  so_entries :: "'s \<Rightarrow> file_entry list"

text \<open>
  The contract a backend gives its clients: it is a view of one tree, a successful append is
  a push, and a failed operation leaves the tree alone.
\<close>

locale session_storage =
  fixes ops :: "'s storage_ops" and tree_of :: "'s \<Rightarrow> tree" and draw :: "nat \<Rightarrow> ustr"
  assumes leaf_law: "so_leaf_id ops s = leaf_id (tree_of s)"
    and create_law: "so_create_entry_id ops s = new_entry_id draw (tree_of s)"
    and entry_law: "so_entry ops s i = get_entry (tree_of s) i"
    and path_law: "so_path_to_root ops s leaf = path_to_root (tree_of s) leaf"
    and find_law: "so_find_entries ops s ty = find_entries (tree_of s) ty"
    and label_law: "so_label ops s i = label_of (tree_of s) i"
    and entries_law: "so_entries ops s = entries (tree_of s)"
    and set_leaf_ok: "so_set_leaf_id ops leaf s = (s', Inr u) \<Longrightarrow> set_leaf leaf (tree_of s) = Inr (tree_of s')"
    and set_leaf_err: "so_set_leaf_id ops leaf s = (s', Inl er) \<Longrightarrow>
      tree_of s' = tree_of s \<and> set_leaf leaf (tree_of s) = Inl er"
    and append_ok: "so_append_entry ops e s = (s', Inr u) \<Longrightarrow> tree_of s' = push e (tree_of s)"
    and append_err: "so_append_entry ops e s = (s', Inl er) \<Longrightarrow> tree_of s' = tree_of s"

section \<open>The in-memory backend\<close>

record session_metadata =
  sm_id :: ustr
  sm_created_at :: ustr

record memory_storage =
  ms_metadata :: session_metadata
  ms_tree :: tree

text \<open>
  \<^verbatim>\<open>InMemorySessionStorage::new\<close>; \<open>fresh\<close> is the metadata made from a new session id and the
  current time when none is given.
\<close>

definition memory_new ::
  "file_entry list \<Rightarrow> ustr option \<Rightarrow> session_metadata option \<Rightarrow> session_metadata
    \<Rightarrow> session_error + memory_storage" where
  "memory_new es leaf meta fresh =
     (let t = new_tree es in
      case (if leaf \<noteq> None then set_leaf leaf t else Inr t) of
        Inl e \<Rightarrow> Inl e
      | Inr t \<Rightarrow> Inr \<lparr>ms_metadata = (case meta of Some m \<Rightarrow> m | None \<Rightarrow> fresh), ms_tree = t\<rparr>)"

definition memory_set_leaf :: "ustr option \<Rightarrow> memory_storage \<Rightarrow> memory_storage \<times> (session_error + unit)" where
  "memory_set_leaf leaf s =
     (case set_leaf leaf (ms_tree s) of Inl e \<Rightarrow> (s, Inl e) | Inr t \<Rightarrow> (s\<lparr>ms_tree := t\<rparr>, Inr ()))"

definition memory_append :: "file_entry \<Rightarrow> memory_storage \<Rightarrow> memory_storage \<times> (session_error + unit)" where
  "memory_append e s = (s\<lparr>ms_tree := push e (ms_tree s)\<rparr>, Inr ())"

definition memory_ops :: "(nat \<Rightarrow> ustr) \<Rightarrow> memory_storage storage_ops" where
  "memory_ops draw =
     \<lparr>so_leaf_id = (\<lambda>s. leaf_id (ms_tree s)),
      so_set_leaf_id = memory_set_leaf,
      so_create_entry_id = (\<lambda>s. new_entry_id draw (ms_tree s)),
      so_append_entry = memory_append,
      so_entry = (\<lambda>s. get_entry (ms_tree s)),
      so_find_entries = (\<lambda>s. find_entries (ms_tree s)),
      so_label = (\<lambda>s. label_of (ms_tree s)),
      so_path_to_root = (\<lambda>s. path_to_root (ms_tree s)),
      so_entries = (\<lambda>s. entries (ms_tree s))\<rparr>"

interpretation memory: session_storage "memory_ops draw" ms_tree draw for draw
  by unfold_locales
    (auto simp: memory_ops_def memory_set_leaf_def memory_append_def split: sum.splits)

section \<open>The JSONL backend\<close>

record jsonl_metadata =
  jm_id :: ustr
  jm_created_at :: ustr
  jm_cwd :: ustr
  jm_path :: ustr
  jm_parent_session_path :: "ustr option"

record jsonl_storage =
  js_path :: ustr
  js_metadata :: jsonl_metadata
  js_tree :: tree

type_synonym on_disk = "jsonl_storage \<times> ustr option"

definition invalid_header :: "ustr \<Rightarrow> session_error" where
  "invalid_header path = Invalid (U ''Invalid JSONL session file '' @ path
     @ U '': first line is not a valid session header'')"

definition missing_header :: "ustr \<Rightarrow> session_error" where
  "missing_header path = Invalid (U ''Invalid JSONL session file '' @ path
     @ U '': missing session header'')"

definition header_to_metadata :: "header \<Rightarrow> ustr \<Rightarrow> jsonl_metadata" where
  "header_to_metadata h path = \<lparr>jm_id = h_id h, jm_created_at = h_timestamp h, jm_cwd = h_cwd h,
     jm_path = path, jm_parent_session_path = h_parent_session h\<rparr>"

text \<open>
  \<^verbatim>\<open>load_jsonl_session_metadata\<close>: only the first line (with its newline) is read;
  \<open>resolve\<close> is \<^verbatim>\<open>std::path::absolute\<close>.
\<close>

definition load_jsonl_session_metadata ::
  "(ustr \<Rightarrow> header option) \<Rightarrow> (ustr \<Rightarrow> ustr) \<Rightarrow> ustr \<Rightarrow> ustr option \<Rightarrow> session_error + jsonl_metadata" where
  "load_jsonl_session_metadata dec_header resolve path content =
     (case content of
        None \<Rightarrow> Inl Io
      | Some c \<Rightarrow>
          (let first = takeWhile (\<lambda>x. x \<noteq> 10) c @ take 1 (dropWhile (\<lambda>x. x \<noteq> 10) c) in
           if trim first = [] then Inl (missing_header path)
           else case dec_header (trim_end first) of
                  None \<Rightarrow> Inl (invalid_header path)
                | Some h \<Rightarrow> Inr (header_to_metadata h (resolve path))))"

fun is_header :: "file_entry \<Rightarrow> bool" where
  "is_header (SessionHeader _) = True"
| "is_header _ = False"

text \<open>
  \<^verbatim>\<open>JsonlSessionStorage::open\<close> on an already absolute path: the header, then every line that
  decodes to a tree entry.
\<close>

definition jsonl_open ::
  "(ustr \<Rightarrow> header option) \<Rightarrow> (ustr \<Rightarrow> file_entry option) \<Rightarrow> ustr \<Rightarrow> ustr option
    \<Rightarrow> session_error + jsonl_storage" where
  "jsonl_open dec_header dec path content =
     (case content of
        None \<Rightarrow> Inl Io
      | Some c \<Rightarrow>
          (case filter (\<lambda>l. trim l \<noteq> []) (split_on 10 c) of
             [] \<Rightarrow> Inl (missing_header path)
           | first # lines \<Rightarrow>
               (case dec_header first of
                  None \<Rightarrow> Inl (invalid_header path)
                | Some h \<Rightarrow>
                    Inr \<lparr>js_path = path, js_metadata = header_to_metadata h path,
                         js_tree = new_tree (filter (\<lambda>e. \<not> is_header e) (List.map_filter dec lines))\<rparr>)))"

datatype io_fault = NoFault | OpenFails | WriteStops nat

definition new_header :: "ustr \<Rightarrow> ustr \<Rightarrow> ustr \<Rightarrow> ustr option \<Rightarrow> header" where
  "new_header now cwd session_id parent =
     \<lparr>h_version = Some current_session_version, h_id = session_id, h_timestamp = now,
      h_cwd = cwd, h_parent_session = parent, h_branch = None\<rparr>"

definition jsonl_create ::
  "(file_entry \<Rightarrow> ustr option) \<Rightarrow> io_fault \<Rightarrow> ustr \<Rightarrow> ustr \<Rightarrow> ustr \<Rightarrow> ustr \<Rightarrow> ustr option
    \<Rightarrow> session_error + on_disk" where
  "jsonl_create enc fault now path cwd session_id parent =
     (let h = new_header now cwd session_id parent in
      case enc (SessionHeader h) of
        None \<Rightarrow> Inl JsonError
      | Some line \<Rightarrow>
          if fault \<noteq> NoFault then Inl Io
          else Inr (\<lparr>js_path = path, js_metadata = header_to_metadata h path, js_tree = empty_tree\<rparr>,
                    Some (line @ [10])))"

text \<open>\<^verbatim>\<open>append_entry\<close>: the line goes to the file first, then the tree takes the entry.\<close>

definition jsonl_append ::
  "(file_entry \<Rightarrow> ustr option) \<Rightarrow> io_fault \<Rightarrow> file_entry \<Rightarrow> on_disk
    \<Rightarrow> on_disk \<times> (session_error + unit)" where
  "jsonl_append enc fault e d =
     (case d of (s, content) \<Rightarrow>
        case enc e of
          None \<Rightarrow> (d, Inl JsonError)
        | Some line \<Rightarrow>
            (case (content, fault) of
               (None, _) \<Rightarrow> (d, Inl Io)
             | (_, OpenFails) \<Rightarrow> (d, Inl Io)
             | (Some c, WriteStops n) \<Rightarrow> ((s, Some (c @ take n (line @ [10]))), Inl Io)
             | (Some c, NoFault) \<Rightarrow>
                 ((s\<lparr>js_tree := push e (js_tree s)\<rparr>, Some (c @ line @ [10])), Inr ())))"

definition jsonl_set_leaf :: "ustr option \<Rightarrow> on_disk \<Rightarrow> on_disk \<times> (session_error + unit)" where
  "jsonl_set_leaf leaf d =
     (case d of (s, content) \<Rightarrow>
        case set_leaf leaf (js_tree s) of
          Inl e \<Rightarrow> (d, Inl e)
        | Inr t \<Rightarrow> ((s\<lparr>js_tree := t\<rparr>, content), Inr ()))"

abbreviation disk_tree :: "on_disk \<Rightarrow> tree" where
  "disk_tree d \<equiv> js_tree (fst d)"

definition jsonl_ops ::
  "(nat \<Rightarrow> ustr) \<Rightarrow> (file_entry \<Rightarrow> ustr option) \<Rightarrow> io_fault \<Rightarrow> on_disk storage_ops" where
  "jsonl_ops draw enc fault =
     \<lparr>so_leaf_id = (\<lambda>d. leaf_id (disk_tree d)),
      so_set_leaf_id = jsonl_set_leaf,
      so_create_entry_id = (\<lambda>d. new_entry_id draw (disk_tree d)),
      so_append_entry = jsonl_append enc fault,
      so_entry = (\<lambda>d. get_entry (disk_tree d)),
      so_find_entries = (\<lambda>d. find_entries (disk_tree d)),
      so_label = (\<lambda>d. label_of (disk_tree d)),
      so_path_to_root = (\<lambda>d. path_to_root (disk_tree d)),
      so_entries = (\<lambda>d. entries (disk_tree d))\<rparr>"

interpretation jsonl: session_storage "jsonl_ops draw enc fault" disk_tree draw for draw enc fault
  by unfold_locales
    (auto simp: jsonl_ops_def jsonl_set_leaf_def jsonl_append_def
      split: sum.splits option.splits io_fault.splits prod.splits)

section \<open>What a line keeps of an entry\<close>

text \<open>
  What is read back from the line of an entry, by the serde attributes of the types: a tool
  result's \<^verbatim>\<open>duration_ms\<close> is skipped, a JSON \<^verbatim>\<open>null\<close> in an optional field reads back as the
  missing field, and a number inside a JSON value reads back as \<open>num\<close> of its text (\<^verbatim>\<open>serde_json\<close>
  may print a float differently from how it was read). Everything else is kept.
\<close>

primrec stored_json :: "(ustr \<Rightarrow> ustr) \<Rightarrow> json \<Rightarrow> json" where
  "stored_json num JNull = JNull"
| "stored_json num (JBool b) = JBool b"
| "stored_json num (JNum n) = JNum (num n)"
| "stored_json num (JStr s) = JStr s"
| "stored_json num (JArr xs) = JArr (map (stored_json num) xs)"
| "stored_json num (JObj kvs) = JObj (map (map_prod id (stored_json num)) kvs)"

definition stored_option :: "(ustr \<Rightarrow> ustr) \<Rightarrow> json option \<Rightarrow> json option" where
  "stored_option num v = (if v = Some JNull then None else map_option (stored_json num) v)"

fun stored_block :: "(ustr \<Rightarrow> ustr) \<Rightarrow> content \<Rightarrow> content" where
  "stored_block num (CToolCall c) =
     CToolCall (c\<lparr>call_arguments := stored_json num (call_arguments c)\<rparr>)"
| "stored_block num b = b"

fun stored_user_content :: "(ustr \<Rightarrow> ustr) \<Rightarrow> user_content \<Rightarrow> user_content" where
  "stored_user_content num (UText s) = UText s"
| "stored_user_content num (UBlocks bs) = UBlocks (map (stored_block num) bs)"

fun stored_message :: "(ustr \<Rightarrow> ustr) \<Rightarrow> agent_message \<Rightarrow> agent_message" where
  "stored_message num (UserMsg m) =
     UserMsg (m\<lparr>um_content := stored_user_content num (um_content m)\<rparr>)"
| "stored_message num (AssistantMsg m) =
     AssistantMsg (m\<lparr>am_content := map (stored_block num) (am_content m),
       am_usage := (am_usage m)\<lparr>u_cost := stored_json num (u_cost (am_usage m))\<rparr>,
       am_diagnostics := map_option (map (stored_json num)) (am_diagnostics m)\<rparr>)"
| "stored_message num (ToolResultMsg m) =
     ToolResultMsg (m\<lparr>tr_content := map (stored_block num) (tr_content m),
       tr_details := stored_option num (tr_details m), tr_duration_ms := None\<rparr>)"
| "stored_message num (CustomMsg m) =
     CustomMsg (m\<lparr>cm_content := stored_user_content num (cm_content m),
       cm_details := stored_option num (cm_details m)\<rparr>)"
| "stored_message num (BashExecutionMsg m) = BashExecutionMsg m"
| "stored_message num (BranchSummaryMsg m) = BranchSummaryMsg m"
| "stored_message num (CompactionSummaryMsg m) = CompactionSummaryMsg m"

fun stored :: "(ustr \<Rightarrow> ustr) \<Rightarrow> file_entry \<Rightarrow> file_entry" where
  "stored num (Message i p t m) = Message i p t (stored_message num m)"
| "stored num (Compaction i p t summary kept before after details hook missions) =
     Compaction i p t summary kept before after (stored_option num details) hook missions"
| "stored num (BranchSummary i p t from_id summary details hook) =
     BranchSummary i p t from_id summary (stored_option num details) hook"
| "stored num (Custom i p t ty data) = Custom i p t ty (stored_option num data)"
| "stored num (CustomMessage i p t ty c display details) =
     CustomMessage i p t ty (stored_user_content num c) display (stored_option num details)"
| "stored num e = e"

lemma stored_id [simp]: "entry_id (stored num e) = entry_id e"
  and stored_parent [simp]: "parent_id (stored num e) = parent_id e"
  and stored_header [simp]: "is_header (stored num e) = is_header e"
  and stored_label: "cache_label (stored num e) m = cache_label e m"
  by (cases e; simp add: cache_label_def)+

lemma new_tree_entries: "entries (new_tree es) = es"
  unfolding new_tree_def
  by (induction es rule: rev_induct) (simp_all add: push_def empty_tree_def Let_def split: option.split)

lemma new_tree_stored:
  "new_tree (map (stored num) es) = (new_tree es)\<lparr>entries := map (stored num) es\<rparr>"
proof (induction es rule: rev_induct)
  case Nil
  show ?case by (simp add: new_tree_def empty_tree_def)
next
  case (snoc e es)
  have "new_tree (es @ [e]) = push e (new_tree es)" for es e by (simp add: new_tree_def)
  with snoc show ?case by (auto simp: push_def stored_label new_tree_entries Let_def split: option.split)
qed

section \<open>A file is read back as it was written\<close>

text \<open>
  What the development asks of the encoding of the header and of the entries that are written:
  each is one line, and reads back as what the line keeps.
\<close>

definition one_line :: "ustr \<Rightarrow> bool" where
  "one_line l \<longleftrightarrow> 10 \<notin> set l \<and> trim l \<noteq> []"

definition line_codec ::
  "(ustr \<Rightarrow> ustr) \<Rightarrow> (file_entry \<Rightarrow> ustr option) \<Rightarrow> (ustr \<Rightarrow> header option) \<Rightarrow> (ustr \<Rightarrow> file_entry option)
   \<Rightarrow> header \<Rightarrow> file_entry list \<Rightarrow> bool" where
  "line_codec num enc dec_header dec h es \<longleftrightarrow>
     (\<forall>l. enc (SessionHeader h) = Some l \<longrightarrow> dec_header l = Some h \<and> one_line l)
     \<and> (\<forall>e \<in> set es. \<forall>l. enc e = Some l \<longrightarrow> dec l = Some (stored num e) \<and> one_line l)"

lemma split_on_lines:
  "\<forall>l \<in> set ls. c \<notin> set l \<Longrightarrow> split_on c (concat (map (\<lambda>l. l @ [c]) ls)) = ls @ [[]]"
  by (induction ls) (auto simp: split_on_line)

lemma trim_Nil [simp]: "trim [] = []"
  by (simp add: trim_def trim_end_def trim_start_def)

lemma filter_lines:
  "\<forall>l \<in> set ls. 10 \<notin> set l \<and> trim l \<noteq> [] \<Longrightarrow>
     filter (\<lambda>l. trim l \<noteq> []) (split_on 10 (concat (map (\<lambda>l. l @ [10]) ls))) = ls"
  by (subst split_on_lines) (auto intro!: filter_True)

lemma map_filter_dec:
  assumes "list_all2 (\<lambda>e l. enc e = Some l) es ls"
    and "\<forall>e \<in> set es. \<forall>l. enc e = Some l \<longrightarrow> dec l = Some (stored num e)"
  shows "List.map_filter dec ls = map (stored num) es"
  using assms
proof (induction rule: list_all2_induct)
  case Nil
  show ?case by (simp add: map_filter_simps)
next
  case (Cons e l es ls)
  then show ?case by (simp add: map_filter_simps)
qed

text \<open>The appends of a run that all succeed, and the file they leave.\<close>

definition jsonl_appends ::
  "(file_entry \<Rightarrow> ustr option) \<Rightarrow> file_entry list \<Rightarrow> on_disk \<Rightarrow> on_disk" where
  "jsonl_appends enc es d = foldl (\<lambda>d e. fst (jsonl_append enc NoFault e d)) d es"

lemma jsonl_appends_content:
  assumes "list_all2 (\<lambda>e l. enc e = Some l) es ls"
  shows "jsonl_appends enc es (s, Some c) =
     (s\<lparr>js_tree := foldl (\<lambda>t e. push e t) (js_tree s) es\<rparr>, Some (c @ concat (map (\<lambda>l. l @ [10]) ls)))"
  using assms
  by (induction arbitrary: s c rule: list_all2_induct) (simp_all add: jsonl_appends_def jsonl_append_def)

lemma enc_lines:
  "\<forall>e \<in> set es. enc e \<noteq> None \<Longrightarrow> \<exists>ls. list_all2 (\<lambda>e l. enc e = Some l) es ls"
proof (induction es)
  case Nil
  show ?case by (rule exI [of _ "[]"]) simp
next
  case (Cons e es)
  then obtain ls where "list_all2 (\<lambda>e l. enc e = Some l) es ls" by auto
  moreover obtain l where "enc e = Some l" using Cons.prems by auto
  ultimately show ?case by (intro exI [of _ "l # ls"]) simp
qed

lemma encoded_lines:
  "list_all2 (\<lambda>e l. enc e = Some l) es ls \<Longrightarrow> l \<in> set ls \<Longrightarrow> \<exists>e \<in> set es. enc e = Some l"
  by (induction rule: list_all2_induct) auto

lemma open_lines:
  assumes c: "line_codec num enc dh dec hdr es" and h: "enc (SessionHeader hdr) = Some hl"
    and ls: "list_all2 (\<lambda>e l. enc e = Some l) es ls"
    and nh: "\<forall>e \<in> set es. \<not> is_header e"
  shows "jsonl_open dh dec path (Some (concat (map (\<lambda>l. l @ [10]) (hl # ls)))) =
     Inr \<lparr>js_path = path, js_metadata = header_to_metadata hdr path, js_tree = new_tree (map (stored num) es)\<rparr>"
proof -
  have lines: "\<forall>l \<in> set (hl # ls). 10 \<notin> set l \<and> trim l \<noteq> []"
    using c h encoded_lines [OF ls] by (fastforce simp: line_codec_def one_line_def)
  have "dh hl = Some hdr" using c h by (simp add: line_codec_def)
  moreover have "List.map_filter dec ls = map (stored num) es"
    using c by (intro map_filter_dec [OF ls]) (simp add: line_codec_def)
  then have "filter (\<lambda>e. \<not> is_header e) (List.map_filter dec ls) = map (stored num) es"
    using nh by (simp add: filter_map comp_def)
  ultimately show ?thesis
    using filter_lines [OF lines] by (simp add: jsonl_open_def)
qed

text \<open>
  C17: A session file is read back as it was written, up to what a line keeps. After a session
  file is created and any entries are appended to it, opening it gives the storage that wrote
  it, with the same metadata, id index, labels and leaf and the entries in order, each as its
  line keeps it: a tool result without its duration, a JSON null in an optional field as no
  field, numbers inside JSON values as the JSON library reads them back. The hypothesis on the
  JSON library is that each line written (the header's and the appended entries') is one line
  and reads back so.
\<close>

theorem jsonl_reopen:
  assumes "line_codec num enc dec_header dec (new_header now cwd sid parent) es"
    and "jsonl_create enc NoFault now path cwd sid parent = Inr d"
    and "\<forall>e \<in> set es. enc e \<noteq> None \<and> \<not> is_header e"
    and "(s, content) = jsonl_appends enc es d"
  shows "entries (js_tree s) = es
    \<and> jsonl_open dec_header dec path content
      = Inr (s\<lparr>js_tree := (js_tree s)\<lparr>entries := map (stored num) (entries (js_tree s))\<rparr>\<rparr>)"
proof -
  let ?h = "new_header now cwd sid parent"
  from assms(2) obtain hl where hl: "enc (SessionHeader ?h) = Some hl"
    and d: "d = (\<lparr>js_path = path, js_metadata = header_to_metadata ?h path, js_tree = empty_tree\<rparr>,
                 Some (hl @ [10]))"
    by (auto simp: jsonl_create_def Let_def split: option.splits if_splits)
  from enc_lines [of es enc] assms(3) obtain ls
    where ls: "list_all2 (\<lambda>e l. enc e = Some l) es ls" by auto
  have s: "s = \<lparr>js_path = path, js_metadata = header_to_metadata ?h path, js_tree = new_tree es\<rparr>"
    and content: "content = Some (concat (map (\<lambda>l. l @ [10]) (hl # ls)))"
    using assms(4) by (simp_all add: d jsonl_appends_content [OF ls] new_tree_def)
  have "entries (new_tree es) = es" using new_tree_entries .
  with open_lines [OF assms(1) hl ls] assms(3) show ?thesis
    by (simp add: s content new_tree_stored)
qed

text \<open>
  The line codec of the witnesses: one header and one tool result (with a duration, and null for
  its details) encode, each as one letter.
\<close>

definition demo_header :: header where
  "demo_header = new_header (U ''t'') (U ''/w'') (U ''s'') None"

definition demo_result :: file_entry where
  "demo_result = Message (U ''a1'') None (U ''t'') (ToolResultMsg \<lparr>tr_call_id = U ''c'',
     tr_tool_name = U ''Read'', tr_content = [text_block (U ''hi'')], tr_details = Some JNull,
     tr_is_error = False, tr_timestamp = 0, tr_duration_ms = Some 5\<rparr>)"

definition demo_enc :: "file_entry \<Rightarrow> ustr option" where
  "demo_enc e = (if e = SessionHeader demo_header then Some (U ''H'')
     else if e = demo_result then Some (U ''E'') else None)"

definition demo_dec :: "ustr \<Rightarrow> file_entry option" where
  "demo_dec l = (if l = U ''H'' then Some (SessionHeader demo_header)
     else if l = U ''E'' then Some (stored id demo_result) else None)"

definition demo_dec_header :: "ustr \<Rightarrow> header option" where
  "demo_dec_header l = (if l = U ''H'' then Some demo_header else None)"

lemma demo_codec: "line_codec id demo_enc demo_dec_header demo_dec demo_header [demo_result]"
  by (simp add: line_codec_def one_line_def demo_enc_def demo_dec_def demo_dec_header_def
      demo_result_def trim_def trim_end_def trim_start_def is_ws_def ustr_eval)

lemma demo_create: "jsonl_create demo_enc NoFault (U ''t'') (U ''p'') (U ''/w'') (U ''s'') None
   = Inr (\<lparr>js_path = U ''p'', js_metadata = header_to_metadata demo_header (U ''p''),
       js_tree = empty_tree\<rparr>, Some (U ''H'' @ [10]))"
  by (simp add: jsonl_create_def demo_enc_def demo_header_def)

theorem jsonl_reopen_witness:
  "\<exists>s content. jsonl_open demo_dec_header demo_dec (U ''p'') content
      = Inr (s\<lparr>js_tree := (js_tree s)\<lparr>entries := [stored id demo_result]\<rparr>\<rparr>)
    \<and> entries (js_tree s) = [demo_result] \<and> stored id demo_result \<noteq> demo_result"
proof -
  obtain s content where sc: "(s, content) = jsonl_appends demo_enc [demo_result]
      (\<lparr>js_path = U ''p'', js_metadata = header_to_metadata demo_header (U ''p''),
       js_tree = empty_tree\<rparr>, Some (U ''H'' @ [10]))"
    by (metis surj_pair)
  have "\<forall>e \<in> set [demo_result]. demo_enc e \<noteq> None \<and> \<not> is_header e"
    by (simp add: demo_enc_def demo_result_def)
  from jsonl_reopen [OF demo_codec [unfolded demo_header_def] demo_create this sc]
  have "entries (js_tree s) = [demo_result]" "jsonl_open demo_dec_header demo_dec (U ''p'') content
      = Inr (s\<lparr>js_tree := (js_tree s)\<lparr>entries := [stored id demo_result]\<rparr>\<rparr>)" by simp_all
  moreover have "stored id demo_result \<noteq> demo_result" by (simp add: demo_result_def)
  ultimately show ?thesis by blast
qed

section \<open>A torn line\<close>

text \<open>
  An append that stops inside its line reports an error and leaves the tree alone, but the
  next append goes onto the same line: it reports success, the tree holds its entry, and
  opening the file skips the glued line, so the entry is lost with every branch through it.
\<close>

lemma torn_line_swallows_next_entry:
  fixes path :: ustr
  assumes h: "enc (SessionHeader hdr) = Some hl" "dh hl = Some hdr" "one_line hl"
    and l1: "enc e1 = Some l1" "one_line l1" and l2: "enc e2 = Some l2" "one_line l2" and n: "n \<le> length l1" "0 < n"
    and glued: "dec (take n l1 @ l2) = None" "trim (take n l1 @ l2) \<noteq> []"
  defines "d0 \<equiv> (\<lparr>js_path = path, js_metadata = header_to_metadata hdr path, js_tree = empty_tree\<rparr>,
      Some (hl @ [10]))"
  defines "d1 \<equiv> fst (jsonl_append enc (WriteStops n) e1 d0)"
  shows "snd (jsonl_append enc NoFault e2 d1) = Inr ()"
    and "entries (disk_tree (fst (jsonl_append enc NoFault e2 d1))) = [e2]"
    and "jsonl_open dh dec path (snd (fst (jsonl_append enc NoFault e2 d1))) =
      Inr \<lparr>js_path = path, js_metadata = header_to_metadata hdr path, js_tree = empty_tree\<rparr>"
proof -
  have d1: "d1 = (\<lparr>js_path = path, js_metadata = header_to_metadata hdr path, js_tree = empty_tree\<rparr>,
      Some (hl @ [10] @ take n l1))"
    using n by (simp add: d1_def d0_def jsonl_append_def l1(1))
  show "snd (jsonl_append enc NoFault e2 d1) = Inr ()"
    by (simp add: d1 jsonl_append_def l2(1))
  show "entries (disk_tree (fst (jsonl_append enc NoFault e2 d1))) = [e2]"
    by (simp add: d1 jsonl_append_def l2(1) empty_tree_def)
  let ?g = "take n l1 @ l2"
  have "\<forall>l \<in> set [hl, ?g]. 10 \<notin> set l \<and> trim l \<noteq> []"
    using h(3) l1(2) l2(2) glued(2) by (auto simp: one_line_def dest: in_set_takeD)
  from filter_lines [OF this] have "filter (\<lambda>l. trim l \<noteq> []) (split_on 10 (hl @ [10] @ ?g @ [10])) = [hl, ?g]"
    by simp
  with h(2) show "jsonl_open dh dec path (snd (fst (jsonl_append enc NoFault e2 d1))) =
      Inr \<lparr>js_path = path, js_metadata = header_to_metadata hdr path, js_tree = empty_tree\<rparr>"
    by (simp add: d1 jsonl_append_def l2(1) jsonl_open_def glued(1) List.map_filter_simps new_tree_def)
qed

end
