(* ===== verification/Session_Ops.thy ===== *)
theory Session_Ops
  imports Session_Storage
begin

text \<open>
  \<^verbatim>\<open>hoocode-agent-session/src/session.rs\<close>: the typed appends, labels, branch moves and reads
  of \<^verbatim>\<open>Session<S>\<close>, over any storage record, and the forks of \<^verbatim>\<open>repo.rs\<close>. The clock is the
  argument \<open>now\<close>. The client lemmas are proved once from the storage contract and hold for
  both backends through its interpretations.
\<close>

section \<open>Appends\<close>

definition append_with ::
  "'s storage_ops \<Rightarrow> (ustr \<Rightarrow> ustr option \<Rightarrow> ustr \<Rightarrow> file_entry) \<Rightarrow> ustr \<Rightarrow> 's
    \<Rightarrow> 's \<times> (session_error + ustr)" where
  "append_with ops mk now s =
     (let i = so_create_entry_id ops s;
          e = mk i (so_leaf_id ops s) now
      in case so_append_entry ops e s of
           (s', Inl er) \<Rightarrow> (s', Inl er)
         | (s', Inr _) \<Rightarrow> (s', Inr i))"

definition append_message where
  "append_message ops m = append_with ops (\<lambda>i p t. Message i p t m)"

definition append_thinking_level_change where
  "append_thinking_level_change ops level = append_with ops (\<lambda>i p t. ThinkingLevelChange i p t level)"

definition append_model_change where
  "append_model_change ops provider model = append_with ops (\<lambda>i p t. ModelChange i p t provider model)"

definition append_compaction where
  "append_compaction ops summary first_kept before details from_hook after missions =
     append_with ops (\<lambda>i p t. Compaction i p t summary first_kept before after details from_hook missions)"

definition append_custom_entry where
  "append_custom_entry ops ty data = append_with ops (\<lambda>i p t. Custom i p t ty data)"

definition append_custom_message_entry where
  "append_custom_message_entry ops ty content display details =
     append_with ops (\<lambda>i p t. CustomMessage i p t ty content display details)"

definition append_label ::
  "'s storage_ops \<Rightarrow> ustr \<Rightarrow> ustr option \<Rightarrow> ustr \<Rightarrow> 's \<Rightarrow> 's \<times> (session_error + ustr)" where
  "append_label ops target label now s =
     (if so_entry ops s target = None then (s, Inl (EntryNotFound target))
      else append_with ops (\<lambda>i p t. Label i p t target label) now s)"

definition append_session_name where
  "append_session_name ops name = append_with ops (\<lambda>i p t. SessionInfo i p t (Some (trim name)) None None)"

section \<open>Moves and reads\<close>

record branch_summary_input =
  bi_summary :: ustr
  bi_details :: "json option"
  bi_from_hook :: "bool option"

definition move_to ::
  "'s storage_ops \<Rightarrow> ustr option \<Rightarrow> branch_summary_input option \<Rightarrow> ustr \<Rightarrow> 's
    \<Rightarrow> 's \<times> (session_error + ustr option)" where
  "move_to ops target summary now s =
     (case (case target of
              Some i \<Rightarrow> if so_entry ops s i = None then Some (EntryNotFound i) else None
            | None \<Rightarrow> None) of
        Some er \<Rightarrow> (s, Inl er)
      | None \<Rightarrow>
          (case so_set_leaf_id ops target s of
             (s, Inl er) \<Rightarrow> (s, Inl er)
           | (s, Inr _) \<Rightarrow>
               (case summary of
                  None \<Rightarrow> (s, Inr None)
                | Some b \<Rightarrow>
                    (let i = so_create_entry_id ops s;
                         e = BranchSummary i target now
                               (case target of Some t \<Rightarrow> t | None \<Rightarrow> U ''root'')
                               (bi_summary b) (bi_details b) (bi_from_hook b)
                     in case so_append_entry ops e s of
                          (s, Inl er) \<Rightarrow> (s, Inl er)
                        | (s, Inr _) \<Rightarrow> (s, Inr (Some i))))))"

definition branch :: "'s storage_ops \<Rightarrow> 's \<Rightarrow> ustr option \<Rightarrow> file_entry list option" where
  "branch ops s from =
     so_path_to_root ops s (case from of Some i \<Rightarrow> Some i | None \<Rightarrow> so_leaf_id ops s)"

definition session_name :: "'s storage_ops \<Rightarrow> 's \<Rightarrow> ustr option" where
  "session_name ops s =
     (let es = so_find_entries ops s (U ''session_info'') in
      if es = [] then None
      else case last es of
             SessionInfo _ _ _ (Some n) _ _ \<Rightarrow> if trim n \<noteq> [] then Some (trim n) else None
           | _ \<Rightarrow> None)"

section \<open>Forks\<close>

datatype fork_position = Before | At

text \<open>
  \<^verbatim>\<open>get_entries_to_fork\<close>; \<open>None\<close> when the walk to the root does not end.
\<close>

definition get_entries_to_fork ::
  "'s storage_ops \<Rightarrow> 's \<Rightarrow> ustr option \<Rightarrow> fork_position
    \<Rightarrow> (session_error + file_entry list) option" where
  "get_entries_to_fork ops s entry position =
     (case entry of
        None \<Rightarrow> Some (Inr (so_entries ops s))
      | Some i \<Rightarrow>
          (case so_entry ops s i of
             None \<Rightarrow> Some (Inl (EntryNotFound i))
           | Some target \<Rightarrow>
               (case (case position of
                        At \<Rightarrow> Inr (entry_id target)
                      | Before \<Rightarrow>
                          (case target of
                             Message _ parent _ (UserMsg _) \<Rightarrow> Inr parent
                           | _ \<Rightarrow> Inl (Invalid (U ''Entry '' @ i @ U '' is not a user message'')))) of
                  Inl er \<Rightarrow> Some (Inl er)
                | Inr leaf \<Rightarrow> map_option Inr (so_path_to_root ops s leaf))))"

section \<open>The operations of a session, as one step\<close>

datatype session_op =
    OpMessage agent_message
  | OpThinking ustr
  | OpModel ustr ustr
  | OpCompaction ustr ustr nat "json option" "bool option" "nat option" "(nat \<times> nat) option"
  | OpCustom ustr "json option"
  | OpCustomMessage ustr user_content bool "json option"
  | OpLabel ustr "ustr option"
  | OpName ustr
  | OpMove "ustr option" "branch_summary_input option"

fun session_step :: "'s storage_ops \<Rightarrow> ustr \<Rightarrow> session_op \<Rightarrow> 's \<Rightarrow> 's" where
  "session_step ops now (OpMessage m) s = fst (append_message ops m now s)"
| "session_step ops now (OpThinking l) s = fst (append_thinking_level_change ops l now s)"
| "session_step ops now (OpModel p m) s = fst (append_model_change ops p m now s)"
| "session_step ops now (OpCompaction a b c d e f g) s = fst (append_compaction ops a b c d e f g now s)"
| "session_step ops now (OpCustom ty x) s = fst (append_custom_entry ops ty x now s)"
| "session_step ops now (OpCustomMessage ty c d x) s = fst (append_custom_message_entry ops ty c d x now s)"
| "session_step ops now (OpLabel t l) s = fst (append_label ops t l now s)"
| "session_step ops now (OpName n) s = fst (append_session_name ops n now s)"
| "session_step ops now (OpMove t b) s = fst (move_to ops t b now s)"

lemmas append_defs = append_message_def append_thinking_level_change_def append_model_change_def
  append_compaction_def append_custom_entry_def append_custom_message_entry_def
  append_session_name_def

section \<open>What the contract gives every session\<close>

lemma new_entry_id_fresh:
  "aget (by_id t) (draw 100) = None \<Longrightarrow> aget (by_id t) (new_entry_id draw t) = None"
  using entry_id_fresh [of "\<lambda>i. aget (by_id t) i \<noteq> None" draw] by (simp add: new_entry_id_def)

lemma get_entry_None_iff [simp]: "get_entry t i = None \<longleftrightarrow> aget (by_id t) i = None"
  by (simp add: get_entry_def)

text \<open>One step keeps the tree well formed and only ever adds entries at its end.\<close>

definition grows :: "tree \<Rightarrow> tree \<Rightarrow> bool" where
  "grows t t' \<longleftrightarrow> wf_tree t' \<and> prefix (entries t) (entries t')"

context session_storage
begin

lemma append_with_cases:
  assumes "append_with ops mk now s = (s', r)"
  shows "case r of
      Inl er \<Rightarrow> tree_of s' = tree_of s
    | Inr i \<Rightarrow> i = new_entry_id draw (tree_of s)
        \<and> tree_of s' = push (mk i (leaf_id (tree_of s)) now) (tree_of s)"
  using assms
  by (auto simp: append_with_def Let_def leaf_law create_law split: prod.splits sum.splits
      dest: append_ok append_err)

lemma append_with_extends:
  assumes wf: "wf_tree (tree_of s)"
    and fresh: "aget (by_id (tree_of s)) (draw 100) = None"
    and mk: "\<And>i p t. entry_id (mk i p t) = Some i" "\<And>i p t. parent_id (mk i p t) = p"
    and ok: "append_with ops mk now s = (s', Inr i)"
  shows "wf_tree (tree_of s')"
    and "leaf_id (tree_of s') = Some i"
    and "branch ops s' None = map_option (\<lambda>p. p @ [mk i (leaf_id (tree_of s)) now]) (branch ops s None)"
    and "entries (tree_of s') = entries (tree_of s) @ [mk i (leaf_id (tree_of s)) now]"
proof -
  let ?e = "mk i (leaf_id (tree_of s)) now"
  from append_with_cases [OF ok]
  have i: "i = new_entry_id draw (tree_of s)" and t: "tree_of s' = push ?e (tree_of s)" by simp_all
  have fr: "fresh_entry ?e (tree_of s)"
    using new_entry_id_fresh [where draw = draw, OF fresh] wf_treeD(5) [OF wf] by (auto simp: fresh_entry_def mk i)
  show "wf_tree (tree_of s')" unfolding t by (rule wf_push [OF wf fr])
  show "leaf_id (tree_of s') = Some i" "entries (tree_of s') = entries (tree_of s) @ [?e]"
    by (simp_all add: t mk)
  show "branch ops s' None = map_option (\<lambda>p. p @ [?e]) (branch ops s None)"
    using path_to_root_push [OF wf fr mk(1)]
    by (simp add: branch_def path_law leaf_law t mk)
qed

lemma append_with_grows:
  assumes wf: "wf_tree (tree_of s)"
    and fresh: "aget (by_id (tree_of s)) (draw 100) = None"
    and mk: "\<And>i p t. entry_id (mk i p t) = Some i" "\<And>i p t. parent_id (mk i p t) = p"
  shows "grows (tree_of s) (tree_of (fst (append_with ops mk now s)))"
proof (cases "append_with ops mk now s")
  case (Pair s' r)
  show ?thesis
  proof (cases r)
    case (Inl er)
    with append_with_cases [OF Pair] wf show ?thesis by (simp add: Pair grows_def)
  next
    case (Inr i)
    note ok = Pair [unfolded Inr]
    from append_with_extends(1,4) [OF wf fresh mk ok] show ?thesis by (simp add: Pair grows_def)
  qed
qed

lemma move_to_unknown:
  "get_entry (tree_of s) i = None \<Longrightarrow> move_to ops (Some i) summary now s = (s, Inl (EntryNotFound i))"
  by (simp add: move_to_def entry_law)

lemma move_to_plain:
  assumes "wf_tree (tree_of s)" and sl: "so_set_leaf_id ops target s = (s', Inr u)"
  shows "wf_tree (tree_of s')" "entries (tree_of s') = entries (tree_of s)"
    "by_id (tree_of s') = by_id (tree_of s)" "leaf_id (tree_of s') = target"
    "path_to_root (tree_of s') leaf = path_to_root (tree_of s) leaf"
proof -
  from wf_set_leaf [OF assms(1) set_leaf_ok [OF sl]]
  show t: "wf_tree (tree_of s')" "entries (tree_of s') = entries (tree_of s)"
    "by_id (tree_of s') = by_id (tree_of s)" "leaf_id (tree_of s') = target" by auto
  have g: "get_entry (tree_of s') = get_entry (tree_of s)"
    by (rule ext) (simp add: get_entry_def t)
  show "path_to_root (tree_of s') leaf = path_to_root (tree_of s) leaf"
    by (rule path_to_root_cong [OF assms(1) t(1) g])
qed

text \<open>Every outcome of a move: refused, moved, or moved with a summary below the new leaf.\<close>

lemma move_to_cases:
  assumes wf: "wf_tree (tree_of s)" and fresh: "aget (by_id (tree_of s)) (draw 100) = None"
    and m: "move_to ops target summary now s = (s', r)"
  shows "grows (tree_of s) (tree_of s') \<and>
    (case r of
       Inl _ \<Rightarrow> entries (tree_of s') = entries (tree_of s)
     | Inr None \<Rightarrow> summary = None \<and> entries (tree_of s') = entries (tree_of s)
         \<and> branch ops s' None = path_to_root (tree_of s) target
     | Inr (Some i) \<Rightarrow> (\<exists>e b. summary = Some b \<and> entry_id e = Some i \<and> parent_id e = target
         \<and> e = BranchSummary i target now (case target of Some t \<Rightarrow> t | None \<Rightarrow> U ''root'')
                 (bi_summary b) (bi_details b) (bi_from_hook b)
         \<and> entries (tree_of s') = entries (tree_of s) @ [e]
         \<and> branch ops s' None = map_option (\<lambda>p. p @ [e]) (path_to_root (tree_of s) target)))"
proof (cases "\<exists>i. target = Some i \<and> get_entry (tree_of s) i = None")
  case True
  with move_to_unknown m wf show ?thesis by (fastforce simp: grows_def)
next
  case False
  then have guard: "(case target of Some i \<Rightarrow> if so_entry ops s i = None then Some (EntryNotFound i) else None
            | None \<Rightarrow> None) = None"
    by (auto simp: entry_law split: option.splits)
  obtain s1 r1 where sl: "so_set_leaf_id ops target s = (s1, r1)" by (cases "so_set_leaf_id ops target s")
  show ?thesis
  proof (cases r1)
    case (Inl er)
    with set_leaf_err sl m guard wf show ?thesis by (auto simp: move_to_def grows_def)
  next
    case (Inr u)
    note p = move_to_plain [OF wf sl [unfolded Inr]]
    have br1: "branch ops s1 None = path_to_root (tree_of s) target"
      by (cases target) (simp_all add: branch_def path_law leaf_law p)
    show ?thesis
    proof (cases summary)
      case None
      with m guard sl Inr p br1 show ?thesis by (auto simp: move_to_def grows_def)
    next
      case (Some b)
      let ?i = "new_entry_id draw (tree_of s1)"
      let ?e = "BranchSummary ?i target now (case target of Some t \<Rightarrow> t | None \<Rightarrow> U ''root'')
                 (bi_summary b) (bi_details b) (bi_from_hook b)"
      obtain s2 r2 where ap: "so_append_entry ops ?e s1 = (s2, r2)" by (cases "so_append_entry ops ?e s1")
      have fr: "fresh_entry ?e (tree_of s1)"
        using new_entry_id_fresh [of "tree_of s1" draw] fresh False
        by (auto simp: fresh_entry_def p)
      show ?thesis
      proof (cases r2)
        case (Inl er)
        with append_err ap have "tree_of s2 = tree_of s1" by blast
        with m guard sl Inr Some ap Inl p show ?thesis
          by (auto simp: move_to_def Let_def create_law grows_def)
      next
        case (Inr u2)
        with append_ok ap have t2: "tree_of s2 = push ?e (tree_of s1)" by blast
        have "branch ops s2 None = map_option (\<lambda>p. p @ [?e]) (path_to_root (tree_of s) target)"
          using path_to_root_push [OF p(1) fr, of ?i] by (simp add: branch_def path_law leaf_law t2 p(5))
        with m guard sl \<open>r1 = Inr u\<close> Some ap Inr p t2 wf_push [OF p(1) fr] show ?thesis
          by (auto simp: move_to_def Let_def create_law grows_def)
      qed
    qed
  qed
qed

lemma step_grows:
  assumes "wf_tree (tree_of s)" and "aget (by_id (tree_of s)) (draw 100) = None"
  shows "grows (tree_of s) (tree_of (session_step ops now op s))"
proof -
  note ap = append_with_grows [OF assms]
  show ?thesis
  proof (cases op)
    case (OpMove target summary)
    obtain s' r where m: "move_to ops target summary now s = (s', r)"
      by (cases "move_to ops target summary now s")
    from move_to_cases [OF assms m] show ?thesis by (simp add: OpMove m)
  qed (use assms(1) in \<open>auto simp: append_defs append_label_def grows_def intro!: ap [unfolded grows_def]\<close>)
qed

lemma branch_shape:
  assumes wf: "wf_tree (tree_of s)"
  shows "\<exists>p. branch ops s None = Some p \<and> linked None p \<and> set p \<subseteq> set (entries (tree_of s))
    \<and> (if p = [] then leaf_id (tree_of s) = None else entry_id (last p) = leaf_id (tree_of s))"
proof (cases "leaf_id (tree_of s)")
  case None
  then show ?thesis by (simp add: branch_def path_law leaf_law)
next
  case (Some i)
  with wf_treeD(5) [OF wf] obtain e where e: "get_entry (tree_of s) i = Some e"
    by (auto simp: get_entry_def)
  from path_to_root_linked [OF wf e] obtain p
    where "path_to_root (tree_of s) (Some i) = Some (p @ [e])" "linked None (p @ [e])"
      "set (p @ [e]) \<subseteq> set (entries (tree_of s))" by blast
  moreover have "entry_id e = Some i" using get_entry_Some [OF wf e] by blast
  ultimately show ?thesis
    by (intro exI [of _ "p @ [e]"]) (simp add: branch_def path_law leaf_law Some)
qed

end

end
