(* ===== verification/Session_Properties.thy ===== *)
theory Session_Properties
  imports Session_Ops
begin

text \<open>
  What a user's session keeps: the facts of the storage contract read off for the session
  file backend, through the interpretation \<open>jsonl\<close>, and the case the tree cannot survive.
\<close>

section \<open>History is append-only\<close>

text \<open>
  The states a session file reaches: any operations, at any times, with any I/O fault on
  each; the last-resort UUID of each step is not already an id of the session.
\<close>

inductive disk_reach :: "(file_entry \<Rightarrow> ustr option) \<Rightarrow> on_disk \<Rightarrow> on_disk \<Rightarrow> bool" for enc d0 where
  disk_start: "disk_reach enc d0 d0"
| disk_step: "disk_reach enc d0 d \<Longrightarrow> aget (by_id (disk_tree d)) (draw 100) = None
    \<Longrightarrow> disk_reach enc d0 (session_step (jsonl_ops draw enc fault) now op d)"

lemma disk_reach_grows:
  "disk_reach enc d0 d \<Longrightarrow> wf_tree (disk_tree d0) \<Longrightarrow> grows (disk_tree d0) (disk_tree d)"
proof (induction rule: disk_reach.induct)
  case disk_start
  then show ?case by (simp add: grows_def)
next
  case (disk_step d draw fault now op)
  then have "grows (disk_tree d0) (disk_tree d)" by blast
  moreover from this disk_step.hyps(2)
  have "grows (disk_tree d) (disk_tree (session_step (jsonl_ops draw enc fault) now op d))"
    by (intro jsonl.step_grows) (simp_all add: grows_def)
  ultimately show ?case unfolding grows_def by (blast intro: prefix_order.trans)
qed

text \<open>
  C14: A session's history is append-only and its branch can always be read. From any
  well-formed session, whatever operations run and whatever I/O faults hit them (the UUID drawn
  as a last resort for an entry's id is not in use), the earlier entries stay in place and
  order, and reading the current branch returns: a chain in which every entry's parent is the
  one before it, the first has no parent, and the last is the leaf.
\<close>

theorem session_history_kept:
  assumes "disk_reach enc d0 d" and "wf_tree (disk_tree d0)"
  shows "prefix (entries (disk_tree d0)) (entries (disk_tree d))
    \<and> (\<exists>p. branch (jsonl_ops draw enc fault) d None = Some p \<and> linked None p
         \<and> set p \<subseteq> set (entries (disk_tree d))
         \<and> (if p = [] then leaf_id (disk_tree d) = None else entry_id (last p) = leaf_id (disk_tree d)))"
proof -
  from disk_reach_grows [OF assms] have "wf_tree (disk_tree d)"
    and "prefix (entries (disk_tree d0)) (entries (disk_tree d))" by (simp_all add: grows_def)
  with jsonl.branch_shape [of d draw enc fault] show ?thesis by simp
qed

definition demo_draw :: "nat \<Rightarrow> ustr" where
  "demo_draw n = U ''0a1b2c3d-uuid'' @ nat_digits n"

definition demo_disk :: on_disk where
  "demo_disk = (\<lparr>js_path = U ''p'', js_metadata = header_to_metadata demo_header (U ''p''),
     js_tree = empty_tree\<rparr>, Some (U ''H'' @ [10]))"

definition demo_line :: "file_entry \<Rightarrow> ustr option" where
  "demo_line e = Some (U ''E'')"

definition demo_message :: "on_disk \<Rightarrow> on_disk" where
  "demo_message d = session_step (jsonl_ops demo_draw demo_line NoFault) (U ''t'')
     (OpMessage (user_says (U ''hi''))) d"

lemma demo_fresh_id: "aget (by_id (disk_tree demo_disk)) i = None"
  by (simp add: demo_disk_def empty_tree_def)

theorem session_history_kept_witness:
  "prefix (entries (disk_tree demo_disk)) (entries (disk_tree (demo_message demo_disk)))
    \<and> (\<exists>p. branch (jsonl_ops demo_draw demo_line NoFault) (demo_message demo_disk) None = Some p
         \<and> linked None p \<and> set p \<subseteq> set (entries (disk_tree (demo_message demo_disk)))
         \<and> (if p = [] then leaf_id (disk_tree (demo_message demo_disk)) = None
            else entry_id (last p) = leaf_id (disk_tree (demo_message demo_disk))))"
proof (rule session_history_kept)
  show "disk_reach demo_line demo_disk (demo_message demo_disk)"
    unfolding demo_message_def
    by (rule disk_step [OF disk_start]) (rule demo_fresh_id)
  show "wf_tree (disk_tree demo_disk)"
    by (simp add: demo_disk_def)
qed

text \<open>A session holding one user message, for the witnesses below.\<close>

definition demo_entry :: file_entry where
  "demo_entry = Message (U ''a1'') None (U ''t'') (user_says (U ''hi''))"

definition demo_disk1 :: on_disk where
  "demo_disk1 = (\<lparr>js_path = U ''p'', js_metadata = header_to_metadata demo_header (U ''p''),
     js_tree = push demo_entry empty_tree\<rparr>, Some (U ''H'' @ [10] @ U ''E'' @ [10]))"

abbreviation demo_ops :: "on_disk storage_ops" where
  "demo_ops \<equiv> jsonl_ops demo_draw demo_line NoFault"

lemma demo_disk1_wf: "wf_tree (disk_tree demo_disk1)"
  unfolding demo_disk1_def fst_conv jsonl_storage.simps
  by (rule wf_push [OF wf_empty]) (simp add: fresh_entry_def demo_entry_def empty_tree_def)

lemma demo_disk1_tree:
  "by_id (disk_tree demo_disk1) = [(U ''a1'', 0)]" "leaf_id (disk_tree demo_disk1) = Some (U ''a1'')"
  "entries (disk_tree demo_disk1) = [demo_entry]"
  by (simp_all add: demo_disk1_def demo_entry_def empty_tree_def)

lemma demo_disk1_fresh: "aget (by_id (disk_tree demo_disk1)) (demo_draw 100) = None"
  by (simp add: demo_disk1_tree demo_draw_def ustr_eval)

lemma demo_disk1_entry: "get_entry (disk_tree demo_disk1) (U ''a1'') = Some demo_entry"
  by (simp add: get_entry_def demo_disk1_tree)

lemma demo_new_id: "new_entry_id demo_draw (disk_tree demo_disk1) = U ''0a1b2c3d''"
proof -
  have "entry_id_go demo_draw taken 0 (Suc 99) = U ''0a1b2c3d''" if "\<not> taken (U ''0a1b2c3d'')" for taken
    using that by (simp only: entry_id_go.simps) (simp add: demo_draw_def ustr_eval Let_def)
  moreover have "generate_entry_id demo_draw taken = entry_id_go demo_draw taken 0 (Suc 99)" for taken
    by (simp add: generate_entry_id_def)
  ultimately show ?thesis
    by (simp add: new_entry_id_def demo_disk1_tree)
qed

text \<open>
  An appended message becomes the last entry of the branch and nothing else of it
  changes: when the append reports its id, the branch is the old one with that message at its
  end, and the file has exactly one more line.
\<close>

theorem append_message_extends_branch:
  assumes "wf_tree (disk_tree d)" and "aget (by_id (disk_tree d)) (draw 100) = None"
    and "append_message (jsonl_ops draw enc fault) m now d = (d', Inr i)"
  shows "branch (jsonl_ops draw enc fault) d' None
      = map_option (\<lambda>p. p @ [Message i (leaf_id (disk_tree d)) now m]) (branch (jsonl_ops draw enc fault) d None)
    \<and> get_entry (disk_tree d) i = None
    \<and> (\<exists>c l. snd d = Some c \<and> enc (Message i (leaf_id (disk_tree d)) now m) = Some l
         \<and> snd d' = Some (c @ l @ [10]))"
proof -
  let ?ops = "jsonl_ops draw enc fault"
  let ?mk = "\<lambda>i p t. Message i p t m"
  have ok: "append_with ?ops ?mk now d = (d', Inr i)"
    using assms(3) by (simp add: append_message_def)
  have "\<And>i p t. entry_id (?mk i p t) = Some i" "\<And>i p t. parent_id (?mk i p t) = p" by simp_all
  from jsonl.append_with_extends(3) [OF assms(1,2) this ok]
  have "branch ?ops d' None = map_option (\<lambda>p. p @ [?mk i (leaf_id (disk_tree d)) now]) (branch ?ops d None)"
    by simp
  moreover from jsonl.append_with_cases [OF ok]
  have i: "i = new_entry_id draw (disk_tree d)" by simp
  moreover from new_entry_id_fresh [of "disk_tree d" draw] assms(2) i
  have "get_entry (disk_tree d) i = None" by simp
  moreover have "\<exists>c l. snd d = Some c \<and> enc (?mk i (leaf_id (disk_tree d)) now) = Some l
      \<and> snd d' = Some (c @ l @ [10])"
    using ok by (auto simp: append_with_def Let_def jsonl_ops_def jsonl_append_def
        split: prod.splits sum.splits option.splits io_fault.splits)
  ultimately show ?thesis by simp
qed

theorem append_message_extends_branch_witness:
  "\<exists>d'. append_message demo_ops (user_says (U ''x'')) (U ''t'') demo_disk1 = (d', Inr (U ''0a1b2c3d''))
    \<and> branch demo_ops d' None
      = map_option (\<lambda>p. p @ [Message (U ''0a1b2c3d'') (Some (U ''a1'')) (U ''t'') (user_says (U ''x''))])
          (branch demo_ops demo_disk1 None)"
proof -
  obtain d' where d': "append_message demo_ops (user_says (U ''x'')) (U ''t'') demo_disk1 = (d', Inr (U ''0a1b2c3d''))"
    using demo_new_id
    by (simp add: append_message_def append_with_def jsonl_ops_def jsonl_append_def demo_disk1_def
        demo_line_def Let_def)
  from append_message_extends_branch [OF demo_disk1_wf demo_disk1_fresh d'] d' show ?thesis
    by (auto simp: demo_disk1_tree)
qed

text \<open>
  Moving to another point of a session branches there. An unknown target is refused with
  \<^verbatim>\<open>EntryNotFound\<close> and changes nothing; otherwise the new branch is the path from the root
  to the target, followed, when the abandoned branch is summarised, by that summary alone;
  no entry is removed.
\<close>

theorem move_to_branches:
  assumes "wf_tree (disk_tree d)" and "aget (by_id (disk_tree d)) (draw 100) = None"
    and "move_to (jsonl_ops draw enc fault) target summary now d = (d', r)"
  shows "(case r of
       Inl _ \<Rightarrow> entries (disk_tree d') = entries (disk_tree d)
     | Inr None \<Rightarrow> summary = None \<and> entries (disk_tree d') = entries (disk_tree d)
         \<and> branch (jsonl_ops draw enc fault) d' None = path_to_root (disk_tree d) target
     | Inr (Some i) \<Rightarrow> (\<exists>e b. summary = Some b
         \<and> e = BranchSummary i target now (case target of Some t \<Rightarrow> t | None \<Rightarrow> U ''root'')
                 (bi_summary b) (bi_details b) (bi_from_hook b)
         \<and> entries (disk_tree d') = entries (disk_tree d) @ [e]
         \<and> branch (jsonl_ops draw enc fault) d' None
             = map_option (\<lambda>p. p @ [e]) (path_to_root (disk_tree d) target)))
    \<and> (\<forall>i. target = Some i \<and> get_entry (disk_tree d) i = None \<longrightarrow> d' = d \<and> r = Inl (EntryNotFound i))"
proof -
  have "d' = d \<and> r = Inl (EntryNotFound i)" if "target = Some i" "get_entry (disk_tree d) i = None" for i
    using jsonl.move_to_unknown [OF that(2), of draw enc fault summary now] that(1) assms(3) by simp
  with jsonl.move_to_cases [OF assms] show ?thesis
    by (auto split: sum.splits option.splits)
qed

theorem move_to_branches_witness:
  "snd (move_to demo_ops (Some (U ''zz'')) None (U ''t'') demo_disk1) = Inl (EntryNotFound (U ''zz''))
    \<and> fst (move_to demo_ops (Some (U ''zz'')) None (U ''t'') demo_disk1) = demo_disk1"
proof -
  obtain d' r where m: "move_to demo_ops (Some (U ''zz'')) None (U ''t'') demo_disk1 = (d', r)"
    by (cases "move_to demo_ops (Some (U ''zz'')) None (U ''t'') demo_disk1")
  from move_to_branches [OF demo_disk1_wf demo_disk1_fresh m] m show ?thesis
    by (simp add: demo_disk1_tree)
qed

section \<open>Labels and names\<close>

text \<open>
  Labelling an entry sets its label, trimmed, or clears it when the label is missing or
  blank, and no other entry's label changes; an unknown target is refused and nothing is
  written.
\<close>

theorem label_is_set:
  assumes "append_label (jsonl_ops draw enc fault) target label now d = (d', r)"
  shows "if get_entry (disk_tree d) target = None then r = Inl (EntryNotFound target) \<and> d' = d
    else case r of
      Inl _ \<Rightarrow> disk_tree d' = disk_tree d
    | Inr _ \<Rightarrow> label_of (disk_tree d') target
            = (case label of None \<Rightarrow> None | Some l \<Rightarrow> if trim l = [] then None else Some (trim l))
        \<and> (\<forall>j. j \<noteq> target \<longrightarrow> label_of (disk_tree d') j = label_of (disk_tree d) j)"
proof (cases "get_entry (disk_tree d) target")
  case None
  with assms show ?thesis by (simp add: append_label_def jsonl.entry_law)
next
  case (Some e)
  with assms have ok: "append_with (jsonl_ops draw enc fault) (\<lambda>i p t. Label i p t target label) now d = (d', r)"
    by (simp add: append_label_def jsonl.entry_law)
  from jsonl.append_with_cases [OF ok] Some show ?thesis
    by (auto simp: label_of_def cache_label_def amap.get_put amap.get_del split: sum.splits option.splits)
qed

theorem label_is_set_witness:
  "\<exists>d' i. append_label demo_ops (U ''a1'') (Some (U '' x '')) (U ''t'') demo_disk1 = (d', Inr i)
    \<and> label_of (disk_tree d') (U ''a1'') = Some (U ''x'')"
proof -
  let ?l = "append_label demo_ops (U ''a1'') (Some (U '' x '')) (U ''t'') demo_disk1"
  have "so_entry demo_ops demo_disk1 (U ''a1'') \<noteq> None"
    using demo_disk1_entry by (simp add: jsonl.entry_law demo_disk1_tree)
  then have "\<exists>i. snd ?l = Inr i"
    by (simp add: append_label_def append_with_def Let_def)
      (simp add: jsonl_ops_def jsonl_append_def demo_line_def demo_disk1_def)
  then obtain i where i: "?l = (fst ?l, Inr i)" by (metis prod.collapse)
  have "trim (U '' x '') = U ''x''"
    by (simp add: trim_def trim_end_def trim_start_def is_ws_def ustr_eval)
  with label_is_set [OF i] i demo_disk1_entry show ?thesis
    by (intro exI [of _ "fst ?l"] exI [of _ i]) simp
qed

section \<open>Forks\<close>

text \<open>
  Forking a session before a user message copies the path up to, and without, that
  message; forking at it copies the same path and the message. Forking before any other
  entry is refused.
\<close>

theorem fork_before_and_at:
  assumes "wf_tree (disk_tree d)" and "get_entry (disk_tree d) i = Some e"
  shows "\<exists>p. get_entries_to_fork (jsonl_ops draw enc fault) d (Some i) At = Some (Inr (p @ [e]))
      \<and> linked None (p @ [e])
      \<and> get_entries_to_fork (jsonl_ops draw enc fault) d (Some i) Before =
          (case e of Message _ _ _ (UserMsg _) \<Rightarrow> Some (Inr p)
           | _ \<Rightarrow> Some (Inl (Invalid (U ''Entry '' @ i @ U '' is not a user message''))))"
proof -
  from get_entry_Some [OF assms] have i: "entry_id e = Some i" by blast
  from path_to_root_linked [OF assms] obtain p where
    p: "path_to_root (disk_tree d) (Some i) = Some (p @ [e])" "linked None (p @ [e])" by blast
  from path_to_root_step [OF assms] p(1) have "path_to_root (disk_tree d) (parent_id e) = Some p"
    by (cases "path_to_root (disk_tree d) (parent_id e)") simp_all
  then show ?thesis
    using p assms(2) i
    by (intro exI [of _ p])
      (auto simp: get_entries_to_fork_def jsonl.entry_law jsonl.path_law
        split: file_entry.splits agent_message.splits)
qed

theorem fork_before_and_at_witness:
  "\<exists>p. get_entries_to_fork demo_ops demo_disk1 (Some (U ''a1'')) At = Some (Inr (p @ [demo_entry]))
      \<and> linked None (p @ [demo_entry])
      \<and> get_entries_to_fork demo_ops demo_disk1 (Some (U ''a1'')) Before = Some (Inr p)"
  using fork_before_and_at [OF demo_disk1_wf demo_disk1_entry, of demo_draw demo_line NoFault]
  by (simp add: demo_entry_def user_says_def)

section \<open>A file that cannot be walked\<close>

lemma path_go_self_parent:
  assumes "get_entry t i = Some e" "parent_id e = Some i"
  shows "path_go t (Some e) path = None"
proof -
  have "path_go t (Some e) path \<noteq> Some y" for path y
  proof
    assume "path_go t (Some e) path = Some y"
    then have "t = t \<longrightarrow> Some e = Some e \<longrightarrow> False"
    proof (rule path_go.raw_induct [where P = "\<lambda>t' cur p y. t' = t \<longrightarrow> cur = Some e \<longrightarrow> False", rotated])
      fix f t' cur p y
      assume ih: "\<And>t' cur p y. f t' cur p = Some y \<Longrightarrow> t' = t \<longrightarrow> cur = Some e \<longrightarrow> False"
        and eq: "(case cur of None \<Rightarrow> Some p
           | Some x \<Rightarrow> f t' (Option.bind (parent_id x) (get_entry t')) (p @ [x])) = Some y"
      show "t' = t \<longrightarrow> cur = Some e \<longrightarrow> False"
      proof (intro impI)
        assume "t' = t" "cur = Some e"
        with eq assms have "f t (Some e) (p @ [e]) = Some y" by simp
        from ih [OF this] show False by simp
      qed
    qed
    then show False by simp
  qed
  then show ?thesis by (cases "path_go t (Some e) path") auto
qed

text \<open>
  A session file whose last entry names itself as its parent loads, but reading its branch
  never returns: the walk follows parent ids without remembering where it has been.
\<close>

theorem self_parent_never_returns:
  "path_to_root (new_tree [Message i (Some i) t m]) (leaf_id (new_tree [Message i (Some i) t m])) = None"
proof -
  let ?t = "new_tree [Message i (Some i) t m]"
  have "get_entry ?t i = Some (Message i (Some i) t m)"
    by (simp add: new_tree_def get_entry_def empty_tree_def)
  from path_go_self_parent [OF this] this show ?thesis
    by (simp add: path_to_root_def new_tree_def)
qed

end
