(* ===== verification/Session_Context.thy ===== *)
theory Session_Context
  imports Session_Tree
begin

text \<open>
  \<^verbatim>\<open>hoocode-agent-session/src/context.rs\<close>: what a branch of entries sends to the model. The
  RFC 3339 parser behind \<^verbatim>\<open>parse_timestamp\<close> is the parameter \<open>ts\<close> (milliseconds, \<open>None\<close> for
  an invalid date). The code remembers the last compaction by reference and finds its index
  by pointer equality; here the scan carries the index.
\<close>

section \<open>The code\<close>

record model_ref =
  mr_provider :: ustr
  mr_model_id :: ustr

record session_context =
  sc_messages :: "agent_message list"
  sc_thinking_level :: ustr
  sc_model :: "model_ref option"

definition parse_timestamp :: "(ustr \<Rightarrow> int option) \<Rightarrow> ustr \<Rightarrow> int" where
  "parse_timestamp ts s = (case ts s of Some t \<Rightarrow> t | None \<Rightarrow> 0)"

fun push_message :: "(ustr \<Rightarrow> int option) \<Rightarrow> file_entry \<Rightarrow> agent_message list \<Rightarrow> agent_message list" where
  "push_message ts (Message _ _ _ m) ms = ms @ [m]"
| "push_message ts (CustomMessage _ _ t ty content display details) ms =
     ms @ [CustomMsg \<lparr>cm_custom_type = ty, cm_content = content, cm_display = display,
                      cm_details = details, cm_timestamp = parse_timestamp ts t\<rparr>]"
| "push_message ts (BranchSummary _ _ t from summary _ _) ms =
     (if summary \<noteq> []
      then ms @ [BranchSummaryMsg \<lparr>bs_summary = summary, bs_from_id = from,
                                   bs_timestamp = parse_timestamp ts t\<rparr>]
      else ms)"
| "push_message ts _ ms = ms"

record scan =
  sn_level :: ustr
  sn_model :: "model_ref option"
  sn_compaction :: "nat option"

fun scan_entry :: "nat \<Rightarrow> file_entry \<Rightarrow> scan \<Rightarrow> scan" where
  "scan_entry k (ThinkingLevelChange _ _ _ level) s = s\<lparr>sn_level := level\<rparr>"
| "scan_entry k (ModelChange _ _ _ provider model) s =
     s\<lparr>sn_model := Some \<lparr>mr_provider = provider, mr_model_id = model\<rparr>\<rparr>"
| "scan_entry k (Message _ _ _ (AssistantMsg a)) s =
     s\<lparr>sn_model := Some \<lparr>mr_provider = am_provider a, mr_model_id = am_model a\<rparr>\<rparr>"
| "scan_entry k (Compaction _ _ _ _ _ _ _ _ _ _) s = s\<lparr>sn_compaction := Some k\<rparr>"
| "scan_entry k _ s = s"

fun scan_entries :: "nat \<Rightarrow> file_entry list \<Rightarrow> scan \<Rightarrow> scan" where
  "scan_entries k [] s = s"
| "scan_entries k (e # es) s = scan_entries (Suc k) es (scan_entry k e s)"

text \<open>The kept entries before the compaction: pushed once its first kept id has been seen.\<close>

fun kept_messages ::
  "(ustr \<Rightarrow> int option) \<Rightarrow> ustr \<Rightarrow> bool \<Rightarrow> file_entry list \<Rightarrow> agent_message list \<Rightarrow> agent_message list" where
  "kept_messages ts first found [] ms = ms"
| "kept_messages ts first found (e # es) ms =
     (let found = found \<or> entry_id e = Some first
      in kept_messages ts first found es (if found then push_message ts e ms else ms))"

definition push_all :: "(ustr \<Rightarrow> int option) \<Rightarrow> file_entry list \<Rightarrow> agent_message list \<Rightarrow> agent_message list" where
  "push_all ts es ms = foldl (\<lambda>ms e. push_message ts e ms) ms es"

definition build_session_context :: "(ustr \<Rightarrow> int option) \<Rightarrow> file_entry list \<Rightarrow> session_context" where
  "build_session_context ts es =
     (let s = scan_entries 0 es \<lparr>sn_level = U ''off'', sn_model = None, sn_compaction = None\<rparr>;
          ms = (case sn_compaction s of
                  Some k \<Rightarrow>
                    (case es ! k of
                       Compaction _ _ t summary first before after _ _ missions \<Rightarrow>
                         push_all ts (drop (k + 1) es)
                           (kept_messages ts first False (take k es)
                             [CompactionSummaryMsg \<lparr>cs_summary = summary, cs_tokens_before = before,
                                cs_tokens_after = after, cs_timestamp = parse_timestamp ts t,
                                cs_mission_range = missions\<rparr>])
                     | _ \<Rightarrow> push_all ts es [])
                | None \<Rightarrow> push_all ts es [])
      in \<lparr>sc_messages = ms, sc_thinking_level = sn_level s, sc_model = sn_model s\<rparr>)"

section \<open>What it computes\<close>

text \<open>The message an entry contributes, and the entries from a given id on.\<close>

definition message_of :: "(ustr \<Rightarrow> int option) \<Rightarrow> file_entry \<Rightarrow> agent_message list" where
  "message_of ts e = push_message ts e []"

definition messages_of :: "(ustr \<Rightarrow> int option) \<Rightarrow> file_entry list \<Rightarrow> agent_message list" where
  "messages_of ts es = concat (map (message_of ts) es)"

definition from_id :: "ustr \<Rightarrow> file_entry list \<Rightarrow> file_entry list" where
  "from_id i es = dropWhile (\<lambda>e. entry_id e \<noteq> Some i) es"

fun is_compaction :: "file_entry \<Rightarrow> bool" where
  "is_compaction (Compaction _ _ _ _ _ _ _ _ _ _) = True"
| "is_compaction _ = False"

lemma push_message_append: "push_message ts e ms = ms @ message_of ts e"
  unfolding message_of_def by (cases "(ts, e, ms)" rule: push_message.cases) auto

lemma push_all_messages: "push_all ts es ms = ms @ messages_of ts es"
  by (induction es arbitrary: ms) (simp_all add: push_all_def messages_of_def push_message_append)

lemma kept_messages_from:
  "kept_messages ts first found es ms = ms @ messages_of ts (if found then es else from_id first es)"
  by (induction es arbitrary: found ms)
    (simp_all add: Let_def messages_of_def from_id_def push_message_append)

lemma scan_compaction_none:
  "\<forall>e \<in> set es. \<not> is_compaction e \<Longrightarrow> sn_compaction (scan_entries k es s) = sn_compaction s"
proof (induction es arbitrary: k s)
  case (Cons e es)
  then have "sn_compaction (scan_entry k e s) = sn_compaction s"
    by (cases "(k, e, s)" rule: scan_entry.cases) auto
  with Cons show ?case by simp
qed simp

lemma scan_entries_append:
  "scan_entries k (es @ fs) s = scan_entries (k + length es) fs (scan_entries k es s)"
  by (induction es arbitrary: k s) simp_all

lemma last_compaction:
  assumes "\<forall>e \<in> set post. \<not> is_compaction e" and "is_compaction c"
  shows "sn_compaction (scan_entries 0 (pre @ c # post) s) = Some (length pre)"
  using assms by (cases c) (simp_all add: scan_entries_append scan_compaction_none)

lemma compaction_context:
  assumes "es = pre @ Compaction i p t summary first before after details hook missions # post"
    and "\<And>e. e \<in> set post \<Longrightarrow> \<not> is_compaction e"
  shows "sc_messages (build_session_context ts es) =
     CompactionSummaryMsg \<lparr>cs_summary = summary, cs_tokens_before = before, cs_tokens_after = after,
        cs_timestamp = parse_timestamp ts t, cs_mission_range = missions\<rparr>
     # messages_of ts (from_id first pre) @ messages_of ts post"
proof -
  let ?c = "Compaction i p t summary first before after details hook missions"
  from last_compaction [of post ?c pre] assms(2)
  have "sn_compaction (scan_entries 0 es s) = Some (length pre)" for s
    by (simp add: assms(1))
  then show ?thesis
    by (simp add: build_session_context_def Let_def push_all_messages kept_messages_from assms(1))
qed

lemma from_id_nth:
  "distinct (map entry_id es) \<Longrightarrow> k < length es \<Longrightarrow> entry_id (es ! k) = Some i \<Longrightarrow> from_id i es = drop k es"
proof (induction es arbitrary: k)
  case (Cons e es)
  show ?case
  proof (cases k)
    case 0
    with Cons.prems show ?thesis by (simp add: from_id_def)
  next
    case (Suc j)
    with Cons.prems have "entry_id (es ! j) = Some i" "es ! j \<in> set es" by simp_all
    then have "Some i \<in> entry_id ` set es" by force
    with Cons.prems have "entry_id e \<noteq> Some i" by force
    with Cons Suc show ?thesis by (simp add: from_id_def)
  qed
qed simp

text \<open>
  A compaction replaces exactly the history it covers. With the last compaction of the
  branch at some place, the context is its summary, then the messages of the entries from its
  first kept entry up to it, then the messages of every entry after it; nothing else of the
  branch reaches the model, and nothing after the first kept entry is left out.
\<close>

theorem compaction_replaces_prefix:
  assumes "es = pre @ Compaction i p t summary first before after details hook missions # post"
    and "\<forall>e \<in> set post. \<not> is_compaction e"
  shows "sc_messages (build_session_context ts es) =
     CompactionSummaryMsg \<lparr>cs_summary = summary, cs_tokens_before = before, cs_tokens_after = after,
        cs_timestamp = parse_timestamp ts t, cs_mission_range = missions\<rparr>
     # messages_of ts (from_id first pre) @ messages_of ts post"
  using compaction_context [OF assms(1)] assms(2) by blast

theorem compaction_replaces_prefix_witness:
  "sc_messages (build_session_context (\<lambda>_. None)
      ([Message (U ''a'') None [] (user_says (U ''1'')), Message (U ''b'') (Some (U ''a'')) [] (user_says (U ''2''))]
       @ Compaction (U ''c'') (Some (U ''b'')) [] (U ''S'') (U ''b'') 9 None None None None
       # [Message (U ''d'') (Some (U ''c'')) [] (user_says (U ''3''))]))
   = [CompactionSummaryMsg \<lparr>cs_summary = U ''S'', cs_tokens_before = 9, cs_tokens_after = None,
        cs_timestamp = 0, cs_mission_range = None\<rparr>, user_says (U ''2''), user_says (U ''3'')]"
  by (subst compaction_replaces_prefix [OF refl])
    (simp_all add: parse_timestamp_def messages_of_def message_of_def from_id_def)

fun level_set :: "file_entry \<Rightarrow> ustr option" where
  "level_set (ThinkingLevelChange _ _ _ level) = Some level"
| "level_set _ = None"

fun model_set :: "file_entry \<Rightarrow> model_ref option" where
  "model_set (ModelChange _ _ _ provider model) = Some \<lparr>mr_provider = provider, mr_model_id = model\<rparr>"
| "model_set (Message _ _ _ (AssistantMsg a)) =
     Some \<lparr>mr_provider = am_provider a, mr_model_id = am_model a\<rparr>"
| "model_set _ = None"

fun last_set :: "(file_entry \<Rightarrow> 'a option) \<Rightarrow> file_entry list \<Rightarrow> 'a option" where
  "last_set f [] = None"
| "last_set f (e # es) = (case last_set f es of Some x \<Rightarrow> Some x | None \<Rightarrow> f e)"

lemma scan_entry_settings:
  "sn_level (scan_entry k e s) = (case level_set e of Some l \<Rightarrow> l | None \<Rightarrow> sn_level s)"
  "sn_model (scan_entry k e s) = (case model_set e of Some m \<Rightarrow> Some m | None \<Rightarrow> sn_model s)"
  by (cases "(k, e, s)" rule: scan_entry.cases; simp)+

lemma scan_settings:
  "sn_level (scan_entries k es s) = (case last_set level_set es of Some l \<Rightarrow> l | None \<Rightarrow> sn_level s)"
  "sn_model (scan_entries k es s) = (case last_set model_set es of Some m \<Rightarrow> Some m | None \<Rightarrow> sn_model s)"
  by (induction es arbitrary: k s) (auto simp: scan_entry_settings split: option.splits)

text \<open>
  Settings outlive compaction. The thinking level and the model of the context are those
  of the last entry of the whole branch that sets them: a level change, and a model change or
  an assistant message; a branch with none is \<^verbatim>\<open>off\<close> with no model.
\<close>

theorem settings_from_whole_branch:
  "sc_thinking_level (build_session_context ts es)
     = (case last_set level_set es of Some l \<Rightarrow> l | None \<Rightarrow> U ''off'')
   \<and> sc_model (build_session_context ts es) = last_set model_set es"
  by (simp add: build_session_context_def Let_def scan_settings split: option.splits)

end
