(* ===== verification/Compaction.thy ===== *)
theory Compaction
  imports Complex_Main Session_Context "HOL-Library.List_Lexorder"
begin

text \<open>
  \<^verbatim>\<open>hoocode-agent-compaction/src/compaction.rs\<close> and \<^verbatim>\<open>utils.rs\<close>: the token estimate, the cut
  point, what a compaction summarises and keeps, and the file lists of its summary. Token
  counts are naturals (the code's \<^verbatim>\<open>u64\<close> sums are assumed below \<open>2^63\<close>). Parameters:
  \<open>ts\<close>, the RFC 3339 parser; \<open>js\<close>, the text \<^verbatim>\<open>serde_json\<close> prints for a value; \<open>rnd\<close>, rounding
  to the nearest \<^verbatim>\<open>f64\<close>; and the responses of the summarising model. A \<^verbatim>\<open>HashSet\<close> of paths is
  a list without duplicates, whose order the code removes by sorting.
\<close>

section \<open>Sizes\<close>

definition calculate_context_tokens :: "usage \<Rightarrow> nat" where
  "calculate_context_tokens u =
     (if u_total_tokens u > 0 then u_total_tokens u
      else u_input u + u_output u + u_cache_read u + u_cache_write u)"

fun get_assistant_usage :: "agent_message \<Rightarrow> usage option" where
  "get_assistant_usage (AssistantMsg a) =
     (if am_stop_reason a = Aborted \<or> am_stop_reason a = ErrorStop then None else Some (am_usage a))"
| "get_assistant_usage _ = None"

fun get_last_assistant_usage :: "file_entry list \<Rightarrow> usage option" where
  "get_last_assistant_usage [] = None"
| "get_last_assistant_usage (e # es) =
     (case get_last_assistant_usage es of
        Some u \<Rightarrow> Some u
      | None \<Rightarrow> (case e of Message _ _ _ m \<Rightarrow> get_assistant_usage m | _ \<Rightarrow> None))"

definition ceil_div4 :: "nat \<Rightarrow> nat" where
  "ceil_div4 chars = (chars + 3) div 4"

fun block_chars :: "bool \<Rightarrow> content \<Rightarrow> nat" where
  "block_chars images (CText t) = utf16_len (tx_text t)"
| "block_chars images (CImage _) = (if images then 4800 else 0)"
| "block_chars images _ = 0"

definition blocks_chars :: "content list \<Rightarrow> bool \<Rightarrow> nat" where
  "blocks_chars bs images = sum_list (map (block_chars images) bs)"

fun content_chars :: "user_content \<Rightarrow> bool \<Rightarrow> nat" where
  "content_chars (UText s) images = utf16_len s"
| "content_chars (UBlocks bs) images = blocks_chars bs images"

fun assistant_block_chars :: "(json \<Rightarrow> ustr) \<Rightarrow> content \<Rightarrow> nat" where
  "assistant_block_chars js (CText t) = utf16_len (tx_text t)"
| "assistant_block_chars js (CThinking t) = utf16_len (th_thinking t)"
| "assistant_block_chars js (CToolCall c) = utf16_len (call_name c) + utf16_len (js (call_arguments c))"
| "assistant_block_chars js (CImage _) = 0"

fun message_chars :: "(json \<Rightarrow> ustr) \<Rightarrow> agent_message \<Rightarrow> nat" where
  "message_chars js (UserMsg u) = content_chars (um_content u) False"
| "message_chars js (AssistantMsg a) = sum_list (map (assistant_block_chars js) (am_content a))"
| "message_chars js (CustomMsg c) = content_chars (cm_content c) True"
| "message_chars js (ToolResultMsg t) = blocks_chars (tr_content t) True"
| "message_chars js (BashExecutionMsg b) = utf16_len (be_command b) + utf16_len (be_output b)"
| "message_chars js (BranchSummaryMsg b) = utf16_len (bs_summary b)"
| "message_chars js (CompactionSummaryMsg c) = utf16_len (cs_summary c)"

definition estimate_tokens :: "(json \<Rightarrow> ustr) \<Rightarrow> agent_message \<Rightarrow> nat" where
  "estimate_tokens js m = ceil_div4 (message_chars js m)"

record context_usage_estimate =
  ce_tokens :: nat
  ce_usage_tokens :: nat
  ce_trailing_tokens :: nat
  ce_last_usage_index :: "nat option"

text \<open>The last usage of the messages, with its index.\<close>

fun last_usage :: "nat \<Rightarrow> agent_message list \<Rightarrow> (usage \<times> nat) option" where
  "last_usage k [] = None"
| "last_usage k (m # ms) =
     (case last_usage (Suc k) ms of
        Some r \<Rightarrow> Some r
      | None \<Rightarrow> map_option (\<lambda>u. (u, k)) (get_assistant_usage m))"

definition estimate_context_tokens ::
  "(json \<Rightarrow> ustr) \<Rightarrow> agent_message list \<Rightarrow> context_usage_estimate" where
  "estimate_context_tokens js ms =
     (case last_usage 0 ms of
        None \<Rightarrow>
          (let e = sum_list (map (estimate_tokens js) ms)
           in \<lparr>ce_tokens = e, ce_usage_tokens = 0, ce_trailing_tokens = e, ce_last_usage_index = None\<rparr>)
      | Some (u, k) \<Rightarrow>
          (let used = calculate_context_tokens u;
               trailing = sum_list (map (estimate_tokens js) (drop (k + 1) ms))
           in \<lparr>ce_tokens = used + trailing, ce_usage_tokens = used, ce_trailing_tokens = trailing,
               ce_last_usage_index = Some k\<rparr>))"

section \<open>The trigger\<close>

record compaction_settings =
  enabled :: bool
  reserve_tokens :: nat
  keep_recent_tokens :: nat
  max_context_ratio :: "real option"

definition default_compaction_settings :: compaction_settings where
  "default_compaction_settings =
     \<lparr>enabled = True, reserve_tokens = 16384, keep_recent_tokens = 20000, max_context_ratio = None\<rparr>"

definition should_compact :: "(real \<Rightarrow> real) \<Rightarrow> nat \<Rightarrow> nat \<Rightarrow> compaction_settings \<Rightarrow> bool" where
  "should_compact rnd tokens window st =
     (if \<not> enabled st then False
      else let trigger = int window - int (reserve_tokens st);
               trigger = (case max_context_ratio st of
                            Some r \<Rightarrow> if r > 0 \<and> r < 1
                                      then min trigger \<lfloor>rnd (r * rnd (real window))\<rfloor> else trigger
                          | None \<Rightarrow> trigger)
           in int tokens > trigger)"

section \<open>The cut\<close>

fun is_user_role_entry :: "file_entry \<Rightarrow> bool \<Rightarrow> bool" where
  "is_user_role_entry (BranchSummary _ _ _ _ _ _ _) bash = True"
| "is_user_role_entry (CustomMessage _ _ _ _ _ _ _) bash = True"
| "is_user_role_entry (Message _ _ _ m) bash = (is_user_msg m \<or> (bash \<and> is_bash_execution m))"
| "is_user_role_entry _ bash = False"

fun valid_cut :: "file_entry \<Rightarrow> bool" where
  "valid_cut (Message _ _ _ m) = (\<not> is_tool_result m)"
| "valid_cut (BranchSummary _ _ _ _ _ _ _) = True"
| "valid_cut (CustomMessage _ _ _ _ _ _ _) = True"
| "valid_cut _ = False"

definition find_valid_cut_points :: "file_entry list \<Rightarrow> nat \<Rightarrow> nat \<Rightarrow> nat list" where
  "find_valid_cut_points es start fin = filter (\<lambda>i. valid_cut (es ! i)) [start..<fin]"

definition find_turn_start_index :: "file_entry list \<Rightarrow> nat \<Rightarrow> nat \<Rightarrow> nat option" where
  "find_turn_start_index es k start =
     find (\<lambda>i. is_user_role_entry (es ! i) True) (rev [start..<Suc k])"

record cut_point_result =
  first_kept_entry_index :: nat
  turn_start_index :: "nat option"
  is_split_turn :: bool

text \<open>Walk back from the newest entry until enough tokens are kept.\<close>

fun cut_walk ::
  "(json \<Rightarrow> ustr) \<Rightarrow> file_entry list \<Rightarrow> nat list \<Rightarrow> nat \<Rightarrow> nat \<Rightarrow> nat list \<Rightarrow> nat \<Rightarrow> nat" where
  "cut_walk js es cuts keep best [] acc = best"
| "cut_walk js es cuts keep best (i # is) acc =
     (case es ! i of
        Message _ _ _ m \<Rightarrow>
          (let acc = acc + estimate_tokens js m in
           if acc \<ge> keep then (case find (\<lambda>c. c \<ge> i) cuts of Some c \<Rightarrow> c | None \<Rightarrow> best)
           else cut_walk js es cuts keep best is acc)
      | _ \<Rightarrow> cut_walk js es cuts keep best is acc)"

text \<open>Keep the non-message entries just before the cut.\<close>

fun back_up :: "file_entry list \<Rightarrow> nat \<Rightarrow> nat \<Rightarrow> nat" where
  "back_up es start 0 = 0"
| "back_up es start (Suc k) =
     (if Suc k > start
      then (if is_compaction (es ! k) \<or> is_message (es ! k) then Suc k else back_up es start k)
      else Suc k)"

fun is_user_message_entry :: "file_entry \<Rightarrow> bool" where
  "is_user_message_entry (Message _ _ _ m) = is_user_msg m"
| "is_user_message_entry _ = False"

definition find_cut_point ::
  "(json \<Rightarrow> ustr) \<Rightarrow> file_entry list \<Rightarrow> nat \<Rightarrow> nat \<Rightarrow> nat \<Rightarrow> cut_point_result" where
  "find_cut_point js es start fin keep =
     (case find_valid_cut_points es start fin of
        [] \<Rightarrow> \<lparr>first_kept_entry_index = start, turn_start_index = None, is_split_turn = False\<rparr>
      | first # rest \<Rightarrow>
          (let cut = back_up es start
                       (cut_walk js es (first # rest) keep first (rev [start..<fin]) 0);
               user = is_user_message_entry (es ! cut);
               turn = (if user then None else find_turn_start_index es cut start)
           in \<lparr>first_kept_entry_index = cut, turn_start_index = turn,
               is_split_turn = (\<not> user \<and> turn \<noteq> None)\<rparr>))"

section \<open>Files\<close>

record file_operations =
  fo_read :: "ustr list"
  fo_written :: "ustr list"
  fo_edited :: "ustr list"

definition create_file_ops :: file_operations where
  "create_file_ops = \<lparr>fo_read = [], fo_written = [], fo_edited = []\<rparr>"

definition block_file_op :: "content \<Rightarrow> file_operations \<Rightarrow> file_operations" where
  "block_file_op b ops =
     (case b of
        CToolCall call \<Rightarrow>
          (case Option.bind (jget (call_arguments call) (U ''path'')) as_str of
             Some p \<Rightarrow>
               (if p = [] then ops
                else if call_name call = U ''Read'' then ops\<lparr>fo_read := List.insert p (fo_read ops)\<rparr>
                else if call_name call = U ''Write'' then ops\<lparr>fo_written := List.insert p (fo_written ops)\<rparr>
                else if call_name call = U ''Edit'' then ops\<lparr>fo_edited := List.insert p (fo_edited ops)\<rparr>
                else ops)
           | None \<Rightarrow> ops)
      | _ \<Rightarrow> ops)"

fun extract_file_ops_from_message :: "agent_message \<Rightarrow> file_operations \<Rightarrow> file_operations" where
  "extract_file_ops_from_message (AssistantMsg a) ops = foldl (\<lambda>ops b. block_file_op b ops) ops (am_content a)"
| "extract_file_ops_from_message _ ops = ops"

definition js_sort :: "ustr list \<Rightarrow> ustr list" where
  "js_sort xs = sort_key encode_utf16 xs"

definition compute_file_lists :: "file_operations \<Rightarrow> ustr list \<times> ustr list" where
  "compute_file_lists ops =
     (let modified = fold List.insert (fo_edited ops @ fo_written ops) []
      in (js_sort (filter (\<lambda>f. f \<notin> set modified) (fo_read ops)), js_sort modified))"

definition format_file_operations :: "ustr list \<Rightarrow> ustr list \<Rightarrow> ustr" where
  "format_file_operations rs ms =
     (let sections =
            (if rs \<noteq> [] then [U ''<read-files>'' @ [10] @ join [10] rs @ [10] @ U ''</read-files>''] else [])
          @ (if ms \<noteq> [] then [U ''<modified-files>'' @ [10] @ join [10] ms @ [10] @ U ''</modified-files>''] else [])
      in if sections = [] then [] else [10, 10] @ join [10, 10] sections)"

definition detail_strings :: "json \<Rightarrow> ustr \<Rightarrow> ustr list" where
  "detail_strings d key =
     (case Option.bind (jget d key) as_array of None \<Rightarrow> [] | Some xs \<Rightarrow> List.map_filter as_str xs)"

definition extract_file_operations ::
  "agent_message list \<Rightarrow> file_entry list \<Rightarrow> nat option \<Rightarrow> file_operations" where
  "extract_file_operations ms es prev =
     (let ops = create_file_ops;
          ops = (case map_option (\<lambda>i. es ! i) prev of
                   Some (Compaction _ _ _ _ _ _ _ (Some d) hook _) \<Rightarrow>
                     (if hook \<noteq> Some True
                      then ops\<lparr>fo_read := fold List.insert (detail_strings d (U ''readFiles'')) (fo_read ops),
                               fo_edited := fold List.insert (detail_strings d (U ''modifiedFiles'')) (fo_edited ops)\<rparr>
                      else ops)
                 | _ \<Rightarrow> ops)
      in foldl (\<lambda>ops m. extract_file_ops_from_message m ops) ops ms)"

section \<open>Preparing a compaction\<close>

fun get_message_from_entry :: "(ustr \<Rightarrow> int option) \<Rightarrow> file_entry \<Rightarrow> agent_message option" where
  "get_message_from_entry ts (Message _ _ _ m) = Some m"
| "get_message_from_entry ts (CustomMessage _ _ t ty content display details) =
     Some (CustomMsg \<lparr>cm_custom_type = ty, cm_content = content, cm_display = display,
                      cm_details = details, cm_timestamp = parse_timestamp ts t\<rparr>)"
| "get_message_from_entry ts (BranchSummary _ _ t from summary _ _) =
     Some (BranchSummaryMsg \<lparr>bs_summary = summary, bs_from_id = from, bs_timestamp = parse_timestamp ts t\<rparr>)"
| "get_message_from_entry ts (Compaction _ _ t summary _ before after _ _ _) =
     Some (CompactionSummaryMsg \<lparr>cs_summary = summary, cs_tokens_before = before,
        cs_tokens_after = after, cs_timestamp = parse_timestamp ts t, cs_mission_range = None\<rparr>)"
| "get_message_from_entry ts _ = None"

definition get_message_from_entry_for_compaction ::
  "(ustr \<Rightarrow> int option) \<Rightarrow> file_entry \<Rightarrow> agent_message option" where
  "get_message_from_entry_for_compaction ts e =
     (if is_compaction e then None else get_message_from_entry ts e)"

record compaction_preparation =
  pr_first_kept_entry_id :: ustr
  pr_messages_to_summarize :: "agent_message list"
  pr_turn_prefix_messages :: "agent_message list"
  pr_is_split_turn :: bool
  pr_tokens_before :: nat
  pr_previous_summary :: "ustr option"
  pr_file_ops :: file_operations
  pr_settings :: compaction_settings

definition index_where :: "('a \<Rightarrow> bool) \<Rightarrow> 'a list \<Rightarrow> nat option" where
  "index_where p xs = find (\<lambda>i. p (xs ! i)) [0..<length xs]"

definition rindex_where :: "('a \<Rightarrow> bool) \<Rightarrow> 'a list \<Rightarrow> nat option" where
  "rindex_where p xs = find (\<lambda>i. p (xs ! i)) (rev [0..<length xs])"

definition slice :: "nat \<Rightarrow> nat \<Rightarrow> 'a list \<Rightarrow> 'a list" where
  "slice a b xs = take (b - a) (drop a xs)"

text \<open>
  The previous compaction's summary and where the entries it kept begin.
\<close>

definition boundary :: "file_entry list \<Rightarrow> nat option \<Rightarrow> ustr option \<times> nat" where
  "boundary es prev =
     (case prev of
        Some k \<Rightarrow>
          (case es ! k of
             Compaction _ _ _ summary first _ _ _ _ _ \<Rightarrow>
               (Some summary,
                (case index_where (\<lambda>e. entry_id e = Some first) es of Some i \<Rightarrow> i | None \<Rightarrow> k + 1))
           | _ \<Rightarrow> (None, 0))
      | None \<Rightarrow> (None, 0))"

definition prepare_compaction ::
  "(ustr \<Rightarrow> int option) \<Rightarrow> (json \<Rightarrow> ustr) \<Rightarrow> file_entry list \<Rightarrow> compaction_settings
    \<Rightarrow> compaction_preparation option" where
  "prepare_compaction ts js es st =
     (if es \<noteq> [] \<and> is_compaction (last es) then None
      else
        let prev = rindex_where is_compaction es;
            (previous, start) = boundary es prev;
            before = ce_tokens (estimate_context_tokens js (sc_messages (build_session_context ts es)));
            cut = find_cut_point js es start (length es) (keep_recent_tokens st);
            k = first_kept_entry_index cut
        in if k \<ge> length es then None
           else case entry_id (es ! k) of
             None \<Rightarrow> None
           | Some i \<Rightarrow>
               if i = [] then None
               else
                 let msgs = (\<lambda>a b. List.map_filter (get_message_from_entry_for_compaction ts) (slice a b es));
                     split = (if is_split_turn cut then turn_start_index cut else None);
                     fin = (case split of Some t \<Rightarrow> t | None \<Rightarrow> k);
                     summarize = msgs start fin;
                     prefix_msgs = (case split of Some t \<Rightarrow> msgs t k | None \<Rightarrow> []);
                     ops = foldl (\<lambda>ops m. extract_file_ops_from_message m ops)
                             (extract_file_operations summarize es prev) prefix_msgs
                 in Some \<lparr>pr_first_kept_entry_id = i, pr_messages_to_summarize = summarize,
                      pr_turn_prefix_messages = prefix_msgs, pr_is_split_turn = is_split_turn cut,
                      pr_tokens_before = before, pr_previous_summary = previous,
                      pr_file_ops = ops, pr_settings = st\<rparr>)"

section \<open>Compacting\<close>

record compaction_result =
  cr_summary :: ustr
  cr_first_kept_entry_id :: ustr
  cr_tokens_before :: nat
  cr_tokens_after :: "nat option"
  cr_details :: "json option"

text \<open>
  A summarisation request: which of the three prompt texts it carries, the extra focus, and
  its budget. The answer \<open>ask\<close> is the model's response, or the transport's error text.
\<close>

datatype prompt = SummarizationPrompt | UpdateSummarizationPrompt | TurnPrefixPrompt

record request =
  rq_messages :: "agent_message list"
  rq_max_tokens :: int
  rq_previous :: "ustr option"
  rq_prompt :: prompt
  rq_focus :: "ustr option"

type_synonym asker = "request \<Rightarrow> ustr + assistant_message"

definition response_text :: "assistant_message \<Rightarrow> ustr" where
  "response_text r = join [10] (List.map_filter (\<lambda>c. case c of CText t \<Rightarrow> Some (tx_text t) | _ \<Rightarrow> None) (am_content r))"

definition error_text :: "assistant_message \<Rightarrow> ustr" where
  "error_text r = (case am_error_message r of
     Some m \<Rightarrow> if m \<noteq> [] then m else U ''Unknown error'' | None \<Rightarrow> U ''Unknown error'')"

definition nonempty :: "ustr option \<Rightarrow> ustr option" where
  "nonempty x = (case x of Some s \<Rightarrow> if s \<noteq> [] then Some s else None | None \<Rightarrow> None)"

definition generate_summary ::
  "(real \<Rightarrow> real) \<Rightarrow> asker \<Rightarrow> agent_message list \<Rightarrow> nat \<Rightarrow> ustr option \<Rightarrow> ustr option \<Rightarrow> ustr + ustr" where
  "generate_summary rnd ask ms reserve focus previous =
     (let previous = nonempty previous in
      case ask \<lparr>rq_messages = ms, rq_max_tokens = \<lfloor>rnd (rnd (8 / 10) * rnd (real reserve))\<rfloor>,
                rq_previous = previous,
                rq_prompt = (if previous \<noteq> None then UpdateSummarizationPrompt else SummarizationPrompt),
                rq_focus = nonempty focus\<rparr> of
        Inl e \<Rightarrow> Inl e
      | Inr r \<Rightarrow>
          if am_stop_reason r = ErrorStop then Inl (U ''Summarization failed: '' @ error_text r)
          else if trim (response_text r) = [] then Inl (U ''Summarization produced an empty summary'')
          else Inr (response_text r))"

definition generate_turn_prefix_summary ::
  "(real \<Rightarrow> real) \<Rightarrow> asker \<Rightarrow> agent_message list \<Rightarrow> nat \<Rightarrow> ustr + ustr" where
  "generate_turn_prefix_summary rnd ask ms reserve =
     (case ask \<lparr>rq_messages = ms, rq_max_tokens = \<lfloor>rnd (rnd (1 / 2) * rnd (real reserve))\<rfloor>,
                rq_previous = None, rq_prompt = TurnPrefixPrompt, rq_focus = None\<rparr> of
        Inl e \<Rightarrow> Inl e
      | Inr r \<Rightarrow>
          if am_stop_reason r = ErrorStop then Inl (U ''Turn prefix summarization failed: '' @ error_text r)
          else if trim (response_text r) = [] then Inl (U ''Turn prefix summarization produced an empty summary'')
          else Inr (response_text r))"

definition compact_summary ::
  "(real \<Rightarrow> real) \<Rightarrow> asker \<Rightarrow> compaction_preparation \<Rightarrow> ustr option \<Rightarrow> ustr + ustr" where
  "compact_summary rnd ask pr focus =
     (let reserve = reserve_tokens (pr_settings pr);
          generated = generate_summary rnd ask (pr_messages_to_summarize pr) reserve focus (pr_previous_summary pr)
      in if pr_is_split_turn pr \<and> pr_turn_prefix_messages pr \<noteq> []
         then
           (case (if pr_messages_to_summarize pr = [] \<and> pr_is_split_turn pr
                  then Inr (U ''No prior history.'') else generated) of
              Inl e \<Rightarrow> Inl e
            | Inr h \<Rightarrow>
                (case generate_turn_prefix_summary rnd ask (pr_turn_prefix_messages pr) reserve of
                   Inl e \<Rightarrow> Inl e
                 | Inr p \<Rightarrow> Inr (h @ [10, 10] @ U ''---'' @ [10, 10]
                              @ U ''**Turn Context (split turn):**'' @ [10, 10] @ p)))
         else generated)"

definition compact ::
  "(real \<Rightarrow> real) \<Rightarrow> (json \<Rightarrow> ustr) \<Rightarrow> asker \<Rightarrow> compaction_preparation \<Rightarrow> ustr option
    \<Rightarrow> ustr + compaction_result" where
  "compact rnd js ask pr focus =
     (case compact_summary rnd ask pr focus of
        Inl e \<Rightarrow> Inl e
      | Inr s \<Rightarrow>
          (let (rs, ms) = compute_file_lists (pr_file_ops pr);
               summary = s @ format_file_operations rs ms
           in if pr_first_kept_entry_id pr = [] then Inl (U ''First kept entry has no UUID'')
              else
                let discarded = sum_list (map (estimate_tokens js)
                                  (pr_messages_to_summarize pr @ pr_turn_prefix_messages pr));
                    summary_tokens = ceil_div4 (utf16_len summary)
                in Inr \<lparr>cr_summary = summary, cr_first_kept_entry_id = pr_first_kept_entry_id pr,
                     cr_tokens_before = pr_tokens_before pr,
                     cr_tokens_after = Some (nat (max 0
                       (int (pr_tokens_before pr) - int discarded + int summary_tokens))),
                     cr_details = Some (JObj [(U ''readFiles'', JArr (map JStr rs)),
                                              (U ''modifiedFiles'', JArr (map JStr ms))])\<rparr>))"

end
