(* ===== verification/Compaction_Properties.thy ===== *)
theory Compaction_Properties
  imports Compaction
begin

text \<open>
  What compaction promises: the entries it drops are exactly the ones it summarises, the
  context it leaves is the summary and the untouched suffix, a kept suffix never starts with
  a tool result, and the file lists survive from one compaction to the next.
\<close>

section \<open>Searching indices\<close>

lemma find_Some_mem: "find p xs = Some x \<Longrightarrow> x \<in> set xs \<and> p x"
  by (induction xs) (auto split: if_splits)

lemma turn_start_bounds:
  "find_turn_start_index es k start = Some t \<Longrightarrow> start \<le> t \<and> t \<le> k"
  unfolding find_turn_start_index_def by (drule find_Some_mem) auto

lemma slice_append:
  "a \<le> b \<Longrightarrow> b \<le> c \<Longrightarrow> slice a b xs @ slice b c xs = slice a c xs"
proof -
  assume "a \<le> b" "b \<le> c"
  then obtain m n where "b = a + m" "c = b + n" by (auto simp: le_iff_add)
  then show ?thesis by (simp add: slice_def take_add drop_drop add.commute)
qed

lemma map_filter_append: "List.map_filter f (xs @ ys) = List.map_filter f xs @ List.map_filter f ys"
  by (induction xs) (simp_all add: map_filter_simps split: option.splits)

section \<open>The cut\<close>

lemma cut_walk_in:
  "best \<in> set cuts \<Longrightarrow> cut_walk js es cuts keep best is acc \<in> set cuts"
  by (induction js es cuts keep best "is" acc rule: cut_walk.induct)
    (auto simp: Let_def dest: find_Some_mem split: file_entry.splits option.splits)

lemma back_up_bounds:
  "back_up es start c \<le> c \<and> (start \<le> c \<longrightarrow> start \<le> back_up es start c)"
  by (induction es start c rule: back_up.induct) auto

lemma back_up_skips:
  "back_up es start c \<le> j \<Longrightarrow> j < c \<Longrightarrow> \<not> is_message (es ! j) \<and> \<not> is_compaction (es ! j)"
proof (induction es start c rule: back_up.induct)
  case (2 es start k)
  then show ?case
    by (cases "j = k") (auto split: if_splits)
qed simp

lemma cut_points_mem:
  "c \<in> set (find_valid_cut_points es start fin) \<longleftrightarrow> start \<le> c \<and> c < fin \<and> valid_cut (es ! c)"
  by (auto simp: find_valid_cut_points_def)

text \<open>
  A cut never separates a tool result from its call. When the range has any valid cut
  point, the cut stays in the range, and from it on the kept entries are settings and other
  non-messages up to the first one that may start a context: a message that is not a tool
  result, a branch summary or a custom message.
\<close>

theorem cut_never_at_tool_result:
  assumes "\<exists>i. start \<le> i \<and> i < fin \<and> valid_cut (es ! i)"
  shows "\<exists>c. start \<le> first_kept_entry_index (find_cut_point js es start fin keep)
    \<and> first_kept_entry_index (find_cut_point js es start fin keep) \<le> c \<and> c < fin
    \<and> valid_cut (es ! c)
    \<and> (\<forall>j. first_kept_entry_index (find_cut_point js es start fin keep) \<le> j \<and> j < c
         \<longrightarrow> \<not> is_message (es ! j) \<and> \<not> is_compaction (es ! j))"
proof -
  let ?cuts = "find_valid_cut_points es start fin"
  from assms cut_points_mem have "?cuts \<noteq> []" by (metis empty_iff list.set(1))
  then obtain f r where fr: "?cuts = f # r" by (cases ?cuts) auto
  let ?c = "cut_walk js es (f # r) keep f (rev [start..<fin]) 0"
  have "?c \<in> set ?cuts" using cut_walk_in [of f "f # r"] by (simp add: fr)
  then have c: "start \<le> ?c" "?c < fin" "valid_cut (es ! ?c)" by (simp_all only: cut_points_mem)
  have k: "first_kept_entry_index (find_cut_point js es start fin keep) = back_up es start ?c"
    by (simp add: find_cut_point_def fr Let_def)
  show ?thesis
    unfolding k using back_up_bounds [of es start ?c] back_up_skips [of es start ?c] c by blast
qed

theorem cut_never_at_tool_result_witness:
  "\<exists>c. first_kept_entry_index (find_cut_point (\<lambda>_. []) [Message (U ''a'') None [] (user_says (U ''q'')),
         Message (U ''b'') (Some (U ''a'')) [] (tool_says (U ''x'') (U ''out''))] 0 2 1) \<le> c
     \<and> valid_cut ([Message (U ''a'') None [] (user_says (U ''q'')),
         Message (U ''b'') (Some (U ''a'')) [] (tool_says (U ''x'') (U ''out''))] ! c)"
proof -
  let ?es = "[Message (U ''a'') None [] (user_says (U ''q'')),
    Message (U ''b'') (Some (U ''a'')) [] (tool_says (U ''x'') (U ''out''))]"
  have "\<exists>i. 0 \<le> i \<and> i < 2 \<and> valid_cut (?es ! i)"
    by (rule exI [of _ 0]) (simp add: user_says_def)
  from cut_never_at_tool_result [OF this, of "\<lambda>_. []" 1] show ?thesis by blast
qed

lemma cut_in_range:
  assumes "start \<le> fin"
  shows "start \<le> first_kept_entry_index (find_cut_point js es start fin keep)"
    and "turn_start_index (find_cut_point js es start fin keep) = Some t \<Longrightarrow>
      start \<le> t \<and> t \<le> first_kept_entry_index (find_cut_point js es start fin keep)"
    and "is_split_turn (find_cut_point js es start fin keep) \<Longrightarrow>
      turn_start_index (find_cut_point js es start fin keep) \<noteq> None"
proof -
  let ?cuts = "find_valid_cut_points es start fin"
  let ?r = "find_cut_point js es start fin keep"
  show "start \<le> first_kept_entry_index ?r"
  proof (cases ?cuts)
    case Nil
    then show ?thesis by (simp add: find_cut_point_def)
  next
    case (Cons f r)
    let ?c = "cut_walk js es (f # r) keep f (rev [start..<fin]) 0"
    have "?c \<in> set ?cuts" using cut_walk_in [of f "f # r"] by (simp add: Cons)
    then have "start \<le> ?c" by (simp only: cut_points_mem)
    with back_up_bounds [of es start ?c] have "start \<le> back_up es start ?c" by blast
    moreover have "first_kept_entry_index ?r = back_up es start ?c"
      by (simp add: find_cut_point_def Cons Let_def)
    ultimately show ?thesis by simp
  qed
  show "turn_start_index ?r = Some t \<Longrightarrow> start \<le> t \<and> t \<le> first_kept_entry_index ?r"
    by (cases ?cuts) (auto simp: find_cut_point_def Let_def dest: turn_start_bounds split: if_splits)
  show "is_split_turn ?r \<Longrightarrow> turn_start_index ?r \<noteq> None"
    by (cases ?cuts) (auto simp: find_cut_point_def Let_def)
qed

section \<open>What is summarised and what is kept\<close>

lemma prepare_compaction_parts:
  assumes "prepare_compaction ts js es st = Some pr"
  obtains start k where
    "start = snd (boundary es (rindex_where is_compaction es))"
    "k = first_kept_entry_index (find_cut_point js es start (length es) (keep_recent_tokens st))"
    "k < length es" "entry_id (es ! k) = Some (pr_first_kept_entry_id pr)"
    "pr_first_kept_entry_id pr \<noteq> []"
    "start \<le> k \<longrightarrow> pr_messages_to_summarize pr @ pr_turn_prefix_messages pr
       = List.map_filter (get_message_from_entry_for_compaction ts) (slice start k es)"
proof -
  obtain previous start where b: "boundary es (rindex_where is_compaction es) = (previous, start)"
    by (cases "boundary es (rindex_where is_compaction es)")
  let ?cut = "find_cut_point js es start (length es) (keep_recent_tokens st)"
  let ?k = "first_kept_entry_index ?cut"
  let ?msgs = "\<lambda>a b. List.map_filter (get_message_from_entry_for_compaction ts) (slice a b es)"
  let ?split = "if is_split_turn ?cut then turn_start_index ?cut else None"
  from assms have k: "?k < length es" and i: "entry_id (es ! ?k) = Some (pr_first_kept_entry_id pr)"
    "pr_first_kept_entry_id pr \<noteq> []"
    and ms: "pr_messages_to_summarize pr = ?msgs start (case ?split of Some t \<Rightarrow> t | None \<Rightarrow> ?k)"
      "pr_turn_prefix_messages pr = (case ?split of Some t \<Rightarrow> ?msgs t ?k | None \<Rightarrow> [])"
    by (auto simp: prepare_compaction_def Let_def b split: if_splits option.splits)
  have "pr_messages_to_summarize pr @ pr_turn_prefix_messages pr = ?msgs start ?k" if "start \<le> ?k"
  proof (cases ?split)
    case None
    then show ?thesis by (simp add: ms)
  next
    case (Some t)
    then have "turn_start_index ?cut = Some t" by (simp split: if_splits)
    moreover have "start \<le> length es" using that k by simp
    ultimately have "start \<le> t" "t \<le> ?k" using cut_in_range(2) by blast+
    then show ?thesis
      by (simp add: ms Some map_filter_append [symmetric] slice_append)
  qed
  with that [of start ?k] b k i show ?thesis by simp
qed

lemma boundary_in_range: "snd (boundary es (rindex_where is_compaction es)) \<le> length es"
proof (cases "rindex_where is_compaction es")
  case None
  then show ?thesis by (simp add: boundary_def)
next
  case (Some k)
  then have "k < length es" unfolding rindex_where_def by (auto dest: find_Some_mem)
  with Some show ?thesis
    by (auto simp: boundary_def index_where_def dest!: find_Some_mem
        split: file_entry.splits option.splits)
qed

text \<open>
  C16: A compaction drops nothing it does not summarise. Let the boundary be where the entries
  the previous compaction kept begin (the start of the branch without one). The history and
  the split turn's prefix handed to the summariser are together exactly the messages of the
  entries from the boundary up to the first kept entry, in order.
\<close>

theorem compaction_summarises_what_it_drops:
  assumes "prepare_compaction ts js es st = Some pr"
  shows "\<exists>k < length es. snd (boundary es (rindex_where is_compaction es)) \<le> k
    \<and> entry_id (es ! k) = Some (pr_first_kept_entry_id pr)
    \<and> pr_messages_to_summarize pr @ pr_turn_prefix_messages pr
        = List.map_filter (get_message_from_entry_for_compaction ts)
            (slice (snd (boundary es (rindex_where is_compaction es))) k es)"
  using prepare_compaction_parts [OF assms] cut_in_range(1) [OF boundary_in_range] by metis

definition demo_branch :: "file_entry list" where
  "demo_branch = [Message (U ''a'') None [] (user_says (U ''first'')),
     Message (U ''b'') (Some (U ''a'')) [] (user_says (U ''second''))]"

definition demo_settings :: compaction_settings where
  "demo_settings = \<lparr>enabled = True, reserve_tokens = 10, keep_recent_tokens = 1, max_context_ratio = None\<rparr>"

lemmas demo_eval = demo_branch_def demo_settings_def user_says_def prepare_compaction_def
  rindex_where_def boundary_def find_cut_point_def find_valid_cut_points_def
  estimate_tokens_def ceil_div4_def utf16_len_def slice_def upt_rec map_filter_simps
  get_message_from_entry_for_compaction_def Let_def ustr_eval

lemma demo_prepared: "\<exists>pr. prepare_compaction (\<lambda>_. None) (\<lambda>_. []) demo_branch demo_settings = Some pr
    \<and> pr_first_kept_entry_id pr = U ''b'' \<and> pr_messages_to_summarize pr = [user_says (U ''first'')]
    \<and> pr_turn_prefix_messages pr = []"
  by (simp add: demo_eval)

theorem compaction_summarises_what_it_drops_witness:
  "\<exists>pr. prepare_compaction (\<lambda>_. None) (\<lambda>_. []) demo_branch demo_settings = Some pr
    \<and> (\<exists>k < length demo_branch. entry_id (demo_branch ! k) = Some (pr_first_kept_entry_id pr))"
  using demo_prepared compaction_summarises_what_it_drops by meson

text \<open>
  C15: The context after a compaction is its summary and the untouched suffix. When the
  entry ids of the branch are distinct and a compaction made from the preparation is appended,
  the model is sent the summary and then the messages of every entry from the first kept
  one on.
\<close>

theorem context_after_compaction:
  assumes "prepare_compaction ts js es st = Some pr" and "distinct (map entry_id es)"
    and "es' = es @ [Compaction i p t summary (pr_first_kept_entry_id pr) before after details hook missions]"
  shows "\<exists>k < length es. entry_id (es ! k) = Some (pr_first_kept_entry_id pr)
    \<and> sc_messages (build_session_context ts es') =
        CompactionSummaryMsg \<lparr>cs_summary = summary, cs_tokens_before = before, cs_tokens_after = after,
          cs_timestamp = parse_timestamp ts t, cs_mission_range = missions\<rparr>
        # messages_of ts (drop k es)"
proof -
  from prepare_compaction_parts [OF assms(1)] obtain k where
    k: "k < length es" "entry_id (es ! k) = Some (pr_first_kept_entry_id pr)" by metis
  have "from_id (pr_first_kept_entry_id pr) es = drop k es"
    using from_id_nth [OF assms(2) k] .
  moreover have "sc_messages (build_session_context ts es') =
      CompactionSummaryMsg \<lparr>cs_summary = summary, cs_tokens_before = before, cs_tokens_after = after,
          cs_timestamp = parse_timestamp ts t, cs_mission_range = missions\<rparr>
        # messages_of ts (from_id (pr_first_kept_entry_id pr) es) @ messages_of ts []"
    by (rule compaction_context [OF assms(3)]) simp
  ultimately show ?thesis using k by (auto simp: messages_of_def)
qed

theorem context_after_compaction_witness:
  "\<exists>pr. prepare_compaction (\<lambda>_. None) (\<lambda>_. []) demo_branch demo_settings = Some pr
    \<and> (\<exists>k < 2. sc_messages (build_session_context (\<lambda>_. None)
          (demo_branch @ [Compaction (U ''c'') (Some (U ''b'')) [] (U ''S'') (pr_first_kept_entry_id pr)
             9 None None None None]))
        = CompactionSummaryMsg \<lparr>cs_summary = U ''S'', cs_tokens_before = 9, cs_tokens_after = None,
            cs_timestamp = 0, cs_mission_range = None\<rparr>
          # messages_of (\<lambda>_. None) (drop k demo_branch))"
proof -
  from demo_prepared obtain pr where pr: "prepare_compaction (\<lambda>_. None) (\<lambda>_. []) demo_branch demo_settings = Some pr"
    by blast
  have "distinct (map entry_id demo_branch)" "length demo_branch = 2" by (simp_all add: demo_branch_def)
  with context_after_compaction [OF pr _ refl, of "U ''c''" "Some (U ''b'')" "[]" "U ''S''" 9 None None None None] pr
  show ?thesis by (auto simp: parse_timestamp_def)
qed

section \<open>The files of a summary\<close>

lemma set_fold_insert [simp]: "set (fold List.insert xs ys) = set xs \<union> set ys"
  by (induction xs arbitrary: ys) auto

lemma distinct_fold_insert: "distinct ys \<Longrightarrow> distinct (fold List.insert xs ys)"
  by (induction xs arbitrary: ys) auto

lemma set_js_sort [simp]: "set (js_sort xs) = set xs"
  by (simp add: js_sort_def)

lemma file_lists_sets:
  "set (snd (compute_file_lists ops)) = set (fo_edited ops) \<union> set (fo_written ops)"
  "set (fst (compute_file_lists ops)) = set (fo_read ops) - (set (fo_edited ops) \<union> set (fo_written ops))"
  by (auto simp: compute_file_lists_def Let_def)

text \<open>
  The file lists of a summary are exact: every edited or written path is a modified file,
  every other path read is a read file, no path is in both, and both lists are in the order
  of their UTF-16 code units.
\<close>

theorem file_lists_exact:
  "set (snd (compute_file_lists ops)) = set (fo_edited ops) \<union> set (fo_written ops)
   \<and> set (fst (compute_file_lists ops)) = set (fo_read ops) - set (snd (compute_file_lists ops))
   \<and> sorted (map encode_utf16 (fst (compute_file_lists ops)))
   \<and> sorted (map encode_utf16 (snd (compute_file_lists ops)))
   \<and> distinct (snd (compute_file_lists ops))"
  unfolding file_lists_sets
  by (simp add: compute_file_lists_def Let_def js_sort_def distinct_fold_insert)

lemma map_filter_as_str [simp]: "List.map_filter as_str (map JStr xs) = xs"
  by (induction xs) (simp_all add: map_filter_simps)

text \<open>
  The file lists survive compaction. The details a compaction stores, read by the next
  compaction from its entry, give back the same read files and the same modified files,
  unless a hook made the entry.
\<close>

theorem file_lists_carry_over:
  assumes "compact rnd js ask pr focus = Inr r"
    and "es ! k = Compaction i p t (cr_summary r) first before after (cr_details r) hook missions"
    and "hook \<noteq> Some True"
  shows "set (fst (compute_file_lists (extract_file_operations [] es (Some k))))
      = set (fst (compute_file_lists (pr_file_ops pr)))
    \<and> set (snd (compute_file_lists (extract_file_operations [] es (Some k))))
      = set (snd (compute_file_lists (pr_file_ops pr)))"
proof -
  obtain rs ms where fl: "compute_file_lists (pr_file_ops pr) = (rs, ms)"
    by (cases "compute_file_lists (pr_file_ops pr)")
  with assms(1) have d: "cr_details r = Some (JObj [(U ''readFiles'', JArr (map JStr rs)),
      (U ''modifiedFiles'', JArr (map JStr ms))])"
    by (auto simp: compact_def Let_def split: sum.splits if_splits)
  have disj: "set rs - set ms = set rs"
    using file_lists_sets [of "pr_file_ops pr"] fl by auto
  show ?thesis
    using assms(2,3) disj
    by (simp add: file_lists_sets fl d extract_file_operations_def create_file_ops_def detail_strings_def
        Let_def)
qed

definition demo_prep :: compaction_preparation where
  "demo_prep = \<lparr>pr_first_kept_entry_id = U ''b'', pr_messages_to_summarize = [],
     pr_turn_prefix_messages = [], pr_is_split_turn = False, pr_tokens_before = 7,
     pr_previous_summary = None,
     pr_file_ops = \<lparr>fo_read = [U ''x'', U ''y''], fo_written = [U ''y''], fo_edited = []\<rparr>,
     pr_settings = demo_settings\<rparr>"

definition demo_ask :: asker where
  "demo_ask q = Inr \<lparr>am_content = [text_block (U ''S'')], am_api = [], am_provider = [], am_model = [],
     am_usage = no_usage, am_stop_reason = Stop, am_timestamp = 0, am_response_id = None,
     am_response_model = None, am_error_message = None, am_diagnostics = None\<rparr>"

lemma demo_compact: "\<exists>r. compact (\<lambda>x. x) (\<lambda>_. []) demo_ask demo_prep None = Inr r"
  by (simp add: compact_def compact_summary_def generate_summary_def demo_prep_def demo_ask_def
      response_text_def map_filter_simps text_block_def nonempty_def trim_def trim_end_def trim_start_def
      is_ws_def Let_def ustr_eval split: prod.split)

theorem file_lists_carry_over_witness:
  "\<exists>r. compact (\<lambda>x. x) (\<lambda>_. []) demo_ask demo_prep None = Inr r
    \<and> set (fst (compute_file_lists (extract_file_operations []
         [Compaction (U ''c'') None [] (cr_summary r) [] 0 None (cr_details r) None None] (Some 0))))
      = {U ''x''}"
proof -
  from demo_compact obtain r where r: "compact (\<lambda>x. x) (\<lambda>_. []) demo_ask demo_prep None = Inr r" by blast
  let ?es = "[Compaction (U ''c'') None [] (cr_summary r) [] 0 None (cr_details r) None None]"
  have "?es ! 0 = Compaction (U ''c'') None [] (cr_summary r) [] 0 None (cr_details r) None None" by simp
  from file_lists_carry_over [OF r this]
  have "set (fst (compute_file_lists (extract_file_operations [] ?es (Some 0))))
      = set (fst (compute_file_lists (pr_file_ops demo_prep)))" by simp
  moreover have "set (fst (compute_file_lists (pr_file_ops demo_prep))) = {U ''x''}"
    unfolding file_lists_sets by (auto simp: demo_prep_def)
  ultimately show ?thesis using r by blast
qed

text \<open>
  A failed or empty summary never replaces history: when the model reports an error, or
  answers with nothing but blanks, compacting a whole-turn history is an error.
\<close>

theorem empty_summary_refused:
  assumes "\<forall>q. ask q = Inr a" and "am_stop_reason a = ErrorStop \<or> trim (response_text a) = []"
    and "\<not> (pr_is_split_turn pr \<and> pr_turn_prefix_messages pr \<noteq> [])"
  shows "\<exists>e. compact rnd js ask pr focus = Inl e"
  using assms by (auto simp: compact_def compact_summary_def generate_summary_def Let_def)

definition blank_answer :: assistant_message where
  "blank_answer = \<lparr>am_content = [text_block (U ''  '')], am_api = [], am_provider = [], am_model = [],
     am_usage = no_usage, am_stop_reason = Stop, am_timestamp = 0, am_response_id = None,
     am_response_model = None, am_error_message = None, am_diagnostics = None\<rparr>"

lemma blank_answer_text: "trim (response_text blank_answer) = []"
  by (simp add: blank_answer_def response_text_def text_block_def map_filter_simps trim_def trim_end_def
      trim_start_def is_ws_def ustr_eval)

theorem empty_summary_refused_witness:
  "\<exists>e. compact (\<lambda>x. x) (\<lambda>_. []) (\<lambda>_. Inr blank_answer) demo_prep None = Inl e"
  using empty_summary_refused [of "\<lambda>_. Inr blank_answer" blank_answer demo_prep] blank_answer_text
  by (simp add: demo_prep_def)

section \<open>A settings entry makes a whole turn look split\<close>

text \<open>
  The cut backs up over the settings entries before the user message it chose, and the test
  for a user message then looks at a settings entry: the turn before it, which ends exactly
  at the cut, is reported as split and its messages go to the turn-prefix summary. Without
  the model change the same cut is reported whole.
\<close>

definition quiet_branch :: "file_entry list \<Rightarrow> file_entry list" where
  "quiet_branch settings =
     [Message (U ''a'') None [] (user_says (U ''first'')),
      Message (U ''b'') (Some (U ''a'')) [] (tool_says (U ''x'') (U ''done''))]
     @ settings @ [Message (U ''d'') (Some (U ''b'')) [] (user_says (U ''second''))]"

lemma settings_entry_splits_turn:
  "is_split_turn (find_cut_point (\<lambda>_. []) (quiet_branch [ModelChange (U ''c'') (Some (U ''b'')) [] [] []]) 0 4 1)"
  "\<not> is_split_turn (find_cut_point (\<lambda>_. []) (quiet_branch []) 0 3 1)"
  by code_simp+

end
