(* ===== verification/Agent_Tools.thy ===== *)
theory Agent_Tools
  imports Messages
begin

text \<open>
  One batch of tool calls of the agent loop (\<^verbatim>\<open>crates/hoocode-agent-loop/src/lib.rs\<close>): the
  preparation of a call (argument hook, validation, permission gate, \<open>beforeToolCall\<close>), the
  sequential and the parallel execution with abort, slots and ordered starts, background
  dispatch, and the merge of the results.

  What surrounds the loop is the world \<open>'w\<close>: hooks, the gate, the abort signal, the clock and
  the tools read it and move it on. The hooks receive the conversation through the world.
\<close>

section \<open>Data\<close>

record agent_tool_call =
  tc_id :: ustr
  tc_name :: ustr
  tc_arguments :: json

datatype execution_mode = Sequential | Parallel

record agent_tool_result =
  r_content :: "content list"
  r_details :: json
  r_terminate :: bool

record agent_tool =
  t_name :: ustr
  t_parameters :: json
  t_prepare_arguments :: "(json \<Rightarrow> json) option"
  t_background :: bool
  t_background_when :: "(agent_tool_call \<Rightarrow> bool) option"
  t_background_placeholder :: "(agent_tool_call \<Rightarrow> ustr option) option"
  t_execution_mode :: "execution_mode option"
  t_plain_json_schema :: bool
  t_ordered_start :: bool
  t_abort_grace :: "nat option"

definition find_tool :: "agent_tool list \<Rightarrow> ustr \<Rightarrow> agent_tool option" where
  "find_tool tools name = List.find (\<lambda>t. t_name t = name) tools"

definition is_background :: "agent_tool \<Rightarrow> agent_tool_call \<Rightarrow> bool" where
  "is_background t tc = (case t_background_when t of Some p \<Rightarrow> p tc | None \<Rightarrow> t_background t)"

record before_result =
  br_block :: bool
  br_reason :: "ustr option"

record after_result =
  ar_content :: "content list option"
  ar_details :: "json option"
  ar_is_error :: "bool option"
  ar_terminate :: "bool option"

record prepared_call =
  p_call :: agent_tool_call
  p_tool :: agent_tool
  p_args :: json

datatype preparation = Prepared prepared_call | Immediate agent_tool_result bool

record executed_outcome =
  ex_result :: agent_tool_result
  ex_is_error :: bool

record finalized_outcome =
  f_call :: agent_tool_call
  f_result :: agent_tool_result
  f_is_error :: bool
  f_duration :: "nat option"

datatype agent_event =
  AgentStart
| TurnStart
| MessageStart agent_message
| MessageUpdate assistant_message
| MessageEnd agent_message
| ToolExecutionStart ustr ustr json
| ToolExecutionUpdate ustr ustr json agent_tool_result
| ToolExecutionEnd ustr ustr agent_tool_result bool
| TurnEnd assistant_message "tool_result_message list"
| AgentEnd "agent_message list"

text \<open>
  The callbacks of a run and the outside it polls. \<open>env_run\<close> is a tool's \<open>execute\<close> with the
  abort grace: its updates, and its outcome unless the grace elapsed first.
\<close>

record 'w loop_env =
  env_aborted :: "'w \<Rightarrow> bool \<times> 'w"
  env_session_ending :: "'w \<Rightarrow> bool"
  env_gate :: "('w \<Rightarrow> agent_tool_call \<Rightarrow> permission_decision \<times> 'w) option"
  env_before :: "('w \<Rightarrow> assistant_message \<Rightarrow> agent_tool_call \<Rightarrow> json
       \<Rightarrow> (ustr + before_result option) \<times> json \<times> 'w) option"
  env_after :: "('w \<Rightarrow> assistant_message \<Rightarrow> prepared_call \<Rightarrow> executed_outcome
       \<Rightarrow> (ustr + after_result option) \<times> 'w) option"
  env_validate :: "agent_tool \<Rightarrow> json \<Rightarrow> ustr + json"
  env_run :: "'w \<Rightarrow> prepared_call \<Rightarrow> agent_tool_result list \<times> executed_outcome option \<times> 'w"
  env_elapsed :: "'w \<Rightarrow> nat \<times> 'w"
  env_now :: "'w \<Rightarrow> int \<times> 'w"
  env_placeholder :: "('w \<Rightarrow> agent_tool_call \<Rightarrow> ustr option \<times> 'w) option"
  env_shedding :: "'w \<Rightarrow> bool \<times> 'w"

section \<open>Tool calls and results\<close>

definition tool_calls_of :: "assistant_message \<Rightarrow> agent_tool_call list" where
  "tool_calls_of m =
     List.map_filter (\<lambda>c. case c of
         CToolCall t \<Rightarrow> Some \<lparr>tc_id = call_id t, tc_name = call_name t, tc_arguments = call_arguments t\<rparr>
       | _ \<Rightarrow> None) (am_content m)"

definition start_event :: "agent_tool_call \<Rightarrow> agent_event" where
  "start_event tc = ToolExecutionStart (tc_id tc) (tc_name tc) (tc_arguments tc)"

definition end_event :: "finalized_outcome \<Rightarrow> agent_event" where
  "end_event f = ToolExecutionEnd (tc_id (f_call f)) (tc_name (f_call f)) (f_result f) (f_is_error f)"

definition update_event :: "agent_tool_call \<Rightarrow> agent_tool_result \<Rightarrow> agent_event" where
  "update_event tc r = ToolExecutionUpdate (tc_id tc) (tc_name tc) (tc_arguments tc) r"

definition message_events :: "tool_result_message \<Rightarrow> agent_event list" where
  "message_events m = [MessageStart (ToolResultMsg m), MessageEnd (ToolResultMsg m)]"

definition create_tool_result_message :: "finalized_outcome \<Rightarrow> int \<Rightarrow> tool_result_message" where
  "create_tool_result_message f now =
     \<lparr>tr_call_id = tc_id (f_call f), tr_tool_name = tc_name (f_call f),
      tr_content = r_content (f_result f),
      tr_details = (if r_details (f_result f) = JNull then None else Some (r_details (f_result f))),
      tr_is_error = f_is_error f, tr_timestamp = now, tr_duration_ms = f_duration f\<rparr>"

definition create_error_tool_result :: "ustr \<Rightarrow> agent_tool_result" where
  "create_error_tool_result s = \<lparr>r_content = [text_block s], r_details = JObj [], r_terminate = False\<rparr>"

definition immediate_outcome :: "agent_tool_call \<Rightarrow> agent_tool_result \<Rightarrow> bool \<Rightarrow> finalized_outcome" where
  "immediate_outcome tc r e = \<lparr>f_call = tc, f_result = r, f_is_error = e, f_duration = None\<rparr>"

datatype cut_short = Unfinished | NotRun

definition abort_text :: "cut_short \<Rightarrow> bool \<Rightarrow> ustr" where
  "abort_text why ending =
     (case (why, ending) of
        (Unfinished, False) \<Rightarrow>
          U ''Aborted by the user before this call finished; it may still complete in the background''
      | (Unfinished, True) \<Rightarrow>
          U ''Session ended before this call finished; it may still complete in the background''
      | (NotRun, False) \<Rightarrow> U ''Not run: the turn was aborted''
      | (NotRun, True) \<Rightarrow> U ''Not run: the session ended'')"

definition aborted_outcome :: "'w loop_env \<Rightarrow> 'w \<Rightarrow> agent_tool_call \<Rightarrow> cut_short \<Rightarrow> finalized_outcome" where
  "aborted_outcome env w tc why =
     immediate_outcome tc (create_error_tool_result (abort_text why (env_session_ending env w))) True"

definition should_terminate_tool_batch :: "finalized_outcome list \<Rightarrow> bool" where
  "should_terminate_tool_batch fs \<longleftrightarrow> fs \<noteq> [] \<and> (\<forall>f \<in> set fs. r_terminate (f_result f))"

section \<open>Preparing a call\<close>

definition immediate_error :: "ustr \<Rightarrow> preparation" where
  "immediate_error s = Immediate (create_error_tool_result s) True"

text \<open>The permission gate: the reason when it denies.\<close>

definition ask_gate :: "'w loop_env \<Rightarrow> 'w \<Rightarrow> agent_tool_call \<Rightarrow> ustr option \<times> 'w" where
  "ask_gate env w tc =
     (case env_gate env of
        None \<Rightarrow> (None, w)
      | Some gate \<Rightarrow>
          (case gate w tc of (d, w) \<Rightarrow> (case d of Deny reason \<Rightarrow> (Some reason, w) | _ \<Rightarrow> (None, w))))"

text \<open>The \<open>beforeToolCall\<close> hook: an error text, or the arguments it leaves.\<close>

definition call_before ::
  "'w loop_env \<Rightarrow> 'w \<Rightarrow> assistant_message \<Rightarrow> agent_tool_call \<Rightarrow> json \<Rightarrow> (ustr + json) \<times> 'w" where
  "call_before env w am tc args =
     (case env_before env of
        None \<Rightarrow> (Inr args, w)
      | Some before \<Rightarrow>
          (case before w am tc args of
             (r, args, w) \<Rightarrow>
               (case r of
                  Inl e \<Rightarrow> (Inl e, w)
                | Inr None \<Rightarrow> (Inr args, w)
                | Inr (Some b) \<Rightarrow>
                    (if br_block b then
                       (Inl (case br_reason b of
                               Some s \<Rightarrow> (if s = [] then U ''Tool execution was blocked'' else s)
                             | None \<Rightarrow> U ''Tool execution was blocked''), w)
                     else (Inr args, w)))))"

definition prepare_tool_call ::
  "'w loop_env \<Rightarrow> agent_tool list \<Rightarrow> assistant_message \<Rightarrow> agent_tool_call \<Rightarrow> 'w \<Rightarrow> preparation \<times> 'w" where
  "prepare_tool_call env tools am tc w =
     (case find_tool tools (tc_name tc) of
        None \<Rightarrow> (immediate_error (U ''Tool '' @ tc_name tc @ U '' not found''), w)
      | Some tool \<Rightarrow>
          (let prepared_args =
                 (case t_prepare_arguments tool of Some f \<Rightarrow> f (tc_arguments tc) | None \<Rightarrow> tc_arguments tc)
           in case env_validate env tool prepared_args of
                Inl message \<Rightarrow> (immediate_error message, w)
              | Inr args \<Rightarrow>
                  (case ask_gate env w tc of
                     (Some reason, w) \<Rightarrow> (immediate_error reason, w)
                   | (None, w) \<Rightarrow>
                       (case call_before env w am tc args of
                          (Inl e, w) \<Rightarrow> (immediate_error e, w)
                        | (Inr args, w) \<Rightarrow> (Prepared \<lparr>p_call = tc, p_tool = tool, p_args = args\<rparr>, w)))))"

text \<open>The \<open>afterToolCall\<close> hook over an executed call.\<close>

definition finalize_executed_tool_call ::
  "'w loop_env \<Rightarrow> assistant_message \<Rightarrow> prepared_call \<Rightarrow> executed_outcome \<Rightarrow> 'w \<Rightarrow> finalized_outcome \<times> 'w" where
  "finalize_executed_tool_call env am p ex w =
     (let keep = immediate_outcome (p_call p) (ex_result ex) (ex_is_error ex) in
      case env_after env of
        None \<Rightarrow> (keep, w)
      | Some after \<Rightarrow>
          (case after w am p ex of
             (Inl e, w) \<Rightarrow> (immediate_outcome (p_call p) (create_error_tool_result e) True, w)
           | (Inr None, w) \<Rightarrow> (keep, w)
           | (Inr (Some ar), w) \<Rightarrow>
               (immediate_outcome (p_call p)
                  \<lparr>r_content = case_option (r_content (ex_result ex)) id (ar_content ar),
                   r_details = case_option (r_details (ex_result ex)) id (ar_details ar),
                   r_terminate = case_option (r_terminate (ex_result ex)) id (ar_terminate ar)\<rparr>
                  (case_option (ex_is_error ex) id (ar_is_error ar)), w)))"

section \<open>Sequential execution\<close>

text \<open>One call: its outcome without duration, the events of its run.\<close>

definition run_one ::
  "'w loop_env \<Rightarrow> agent_tool list \<Rightarrow> assistant_message \<Rightarrow> agent_tool_call \<Rightarrow> 'w
     \<Rightarrow> finalized_outcome \<times> agent_event list \<times> 'w" where
  "run_one env tools am tc w =
     (case env_aborted env w of
        (True, w) \<Rightarrow> (aborted_outcome env w tc NotRun, [], w)
      | (False, w) \<Rightarrow>
          (case prepare_tool_call env tools am tc w of
             (Immediate r e, w) \<Rightarrow> (immediate_outcome tc r e, [], w)
           | (Prepared p, w) \<Rightarrow>
               (case env_run env w p of
                  (updates, executed, w) \<Rightarrow>
                    (case executed of
                       Some ex \<Rightarrow>
                         (case finalize_executed_tool_call env am p ex w of
                            (f, w) \<Rightarrow> (f, map (update_event tc) updates, w))
                     | None \<Rightarrow> (aborted_outcome env w tc Unfinished, map (update_event tc) updates, w)))))"

fun execute_tool_calls_sequential ::
  "'w loop_env \<Rightarrow> agent_tool list \<Rightarrow> assistant_message \<Rightarrow> agent_tool_call list \<Rightarrow> 'w
     \<Rightarrow> finalized_outcome list \<times> tool_result_message list \<times> agent_event list \<times> 'w" where
  "execute_tool_calls_sequential env tools am [] w = ([], [], [], w)"
| "execute_tool_calls_sequential env tools am (tc # tcs) w =
     (case run_one env tools am tc w of
        (f, evs, w) \<Rightarrow>
          (case env_elapsed env w of
             (d, w) \<Rightarrow>
               (case env_now env w of
                  (now, w) \<Rightarrow>
                    (let f = f\<lparr>f_duration := Some d\<rparr>;
                         m = create_tool_result_message f now
                     in case execute_tool_calls_sequential env tools am tcs w of
                          (fs, ms, log, w) \<Rightarrow>
                            (f # fs, m # ms,
                             start_event tc # evs @ end_event f # message_events m @ log, w)))))"

end
