(* ===== verification/Agent_Batch.thy ===== *)
theory Agent_Batch
  imports Agent_Tools
begin

text \<open>
  The parallel batch of \<^verbatim>\<open>crates/hoocode-agent-loop/src/lib.rs\<close> as a step relation (calls settle
  in any order, updates arrive, the world moves on), the slots of
  \<^verbatim>\<open>crates/hoocode-runtime/src/limits.rs\<close>, the turnstile of ordered starts, background
  dispatch, and \<open>execute_tool_calls\<close>.
\<close>

section \<open>Slots\<close>

definition MIN_PARALLEL_TOOLS :: nat where "MIN_PARALLEL_TOOLS = 1"
definition MAX_PARALLEL_TOOLS :: nat where "MAX_PARALLEL_TOOLS = 32"

text \<open>Free permits, and whether the one-slot shedding gate is free.\<close>

record tool_limit =
  tl_permits :: nat
  tl_gate :: bool

definition clamp_limit :: "nat \<Rightarrow> nat" where
  "clamp_limit n = max MIN_PARALLEL_TOOLS (min MAX_PARALLEL_TOOLS n)"

definition new_limit :: "nat \<Rightarrow> tool_limit" where
  "new_limit n = \<lparr>tl_permits = clamp_limit n, tl_gate = True\<rparr>"

text \<open>A slot is told by whether it holds the gate.\<close>

definition try_acquire :: "bool \<Rightarrow> tool_limit \<Rightarrow> (bool \<times> tool_limit) option" where
  "try_acquire shedding l =
     (if shedding \<and> \<not> tl_gate l then None
      else if tl_permits l = 0 then None
      else Some (shedding, \<lparr>tl_permits = tl_permits l - 1, tl_gate = tl_gate l \<and> \<not> shedding\<rparr>))"

definition release_slot :: "bool \<Rightarrow> tool_limit \<Rightarrow> tool_limit" where
  "release_slot holds_gate l = \<lparr>tl_permits = tl_permits l + 1, tl_gate = tl_gate l \<or> holds_gate\<rparr>"

section \<open>The parallel batch\<close>

text \<open>
  \<open>b_started\<close> records the started calls in order, each with the turn it got on the turnstile;
  \<open>b_abort_seen\<close> that a poll of the abort signal was positive.
\<close>

record 'w tool_batch =
  b_world :: 'w
  b_log :: "agent_event list"
  b_final :: "finalized_outcome option list"
  b_waiting :: "nat list"
  b_running :: "(nat \<times> bool) list"
  b_limit :: tool_limit
  b_ordered :: nat
  b_started :: "(nat \<times> nat option) list"
  b_abort_seen :: bool

text \<open>The preparation pass: per call an outcome or a prepared call.\<close>

fun prepare_all ::
  "'w loop_env \<Rightarrow> agent_tool list \<Rightarrow> assistant_message \<Rightarrow> agent_tool_call list \<Rightarrow> 'w
     \<Rightarrow> (finalized_outcome + prepared_call) list \<times> agent_event list \<times> 'w" where
  "prepare_all env tools am [] w = ([], [], w)"
| "prepare_all env tools am (tc # tcs) w =
     (case env_aborted env w of
        (True, w) \<Rightarrow>
          (let f = aborted_outcome env w tc NotRun in
           case prepare_all env tools am tcs w of
             (rs, log, w) \<Rightarrow> (Inl f # rs, start_event tc # end_event f # log, w))
      | (False, w) \<Rightarrow>
          (case prepare_tool_call env tools am tc w of
             (Immediate r e, w) \<Rightarrow>
               (let f = immediate_outcome tc r e in
                case prepare_all env tools am tcs w of
                  (rs, log, w) \<Rightarrow> (Inl f # rs, start_event tc # end_event f # log, w))
           | (Prepared p, w) \<Rightarrow>
               (case prepare_all env tools am tcs w of
                  (rs, log, w) \<Rightarrow> (Inr p # rs, start_event tc # log, w))))"

type_synonym prepared_calls = "(finalized_outcome + prepared_call) list"

definition final_of :: "finalized_outcome + prepared_call \<Rightarrow> finalized_outcome option" where
  "final_of x = (case x of Inl f \<Rightarrow> Some f | Inr _ \<Rightarrow> None)"

definition prepared_indices :: "prepared_calls \<Rightarrow> nat list" where
  "prepared_indices ps = filter (\<lambda>i. \<not> isl (ps ! i)) [0 ..< length ps]"

text \<open>\<open>SlotLauncher.fill\<close>: waiting calls start in order until no slot is free.\<close>

fun fill :: "'w loop_env \<Rightarrow> prepared_calls \<Rightarrow> nat list \<Rightarrow> 'w tool_batch \<Rightarrow> 'w tool_batch" where
  "fill env ps [] b = b\<lparr>b_waiting := []\<rparr>"
| "fill env ps (i # is) b =
     (case env_shedding env (b_world b) of
        (shed, w) \<Rightarrow>
          (case try_acquire shed (b_limit b) of
             None \<Rightarrow> b\<lparr>b_world := w, b_waiting := i # is\<rparr>
           | Some (slot, l) \<Rightarrow>
               (let ordered = t_ordered_start (p_tool (projr (ps ! i)))
                in fill env ps is
                     (b\<lparr>b_world := w, b_limit := l, b_running := b_running b @ [(i, slot)],
                        b_ordered := (if ordered then b_ordered b + 1 else b_ordered b),
                        b_started := b_started b @ [(i, if ordered then Some (b_ordered b) else None)]\<rparr>))))"

text \<open>Polls the abort signal; fills free slots unless it was aborted.\<close>

definition fill_unless_aborted :: "'w loop_env \<Rightarrow> prepared_calls \<Rightarrow> 'w tool_batch \<Rightarrow> 'w tool_batch" where
  "fill_unless_aborted env ps b =
     (case env_aborted env (b_world b) of
        (True, w) \<Rightarrow> b\<lparr>b_world := w, b_abort_seen := True\<rparr>
      | (False, w) \<Rightarrow> fill env ps (b_waiting b) (b\<lparr>b_world := w\<rparr>))"

definition batch_start ::
  "'w loop_env \<Rightarrow> nat \<Rightarrow> prepared_calls \<Rightarrow> agent_event list \<Rightarrow> 'w \<Rightarrow> 'w tool_batch" where
  "batch_start env max_parallel ps log w =
     fill_unless_aborted env ps
       \<lparr>b_world = w, b_log = log, b_final = map final_of ps, b_waiting = prepared_indices ps,
        b_running = [], b_limit = new_limit max_parallel, b_ordered = 0, b_started = [],
        b_abort_seen = False\<rparr>"

text \<open>Call \<open>i\<close> settles with an outcome: finalized, announced, its slot refilled.\<close>

definition settle ::
  "'w loop_env \<Rightarrow> assistant_message \<Rightarrow> prepared_calls \<Rightarrow> nat \<Rightarrow> bool \<Rightarrow> executed_outcome \<Rightarrow> nat \<Rightarrow> 'w tool_batch \<Rightarrow> 'w tool_batch" where
  "settle env am ps i slot ex elapsed b =
     (case finalize_executed_tool_call env am (projr (ps ! i)) ex (b_world b) of
        (f, w) \<Rightarrow>
          (let f = f\<lparr>f_duration := Some elapsed\<rparr>
           in fill_unless_aborted env ps
                (b\<lparr>b_world := w, b_log := b_log b @ [end_event f], b_final := (b_final b)[i := Some f],
                   b_running := remove1 (i, slot) (b_running b),
                   b_limit := release_slot slot (b_limit b)\<rparr>)))"

inductive batch_step ::
  "'w loop_env \<Rightarrow> assistant_message \<Rightarrow> prepared_calls \<Rightarrow> 'w tool_batch \<Rightarrow> 'w tool_batch \<Rightarrow> bool"
  for env am ps where
  world_moves: "batch_step env am ps b (b\<lparr>b_world := w\<rparr>)"
| update_arrives: "(i, slot) \<in> set (b_running b) \<Longrightarrow>
    batch_step env am ps b (b\<lparr>b_log := b_log b @ [update_event (p_call (projr (ps ! i))) r]\<rparr>)"
| call_settles: "(i, slot) \<in> set (b_running b) \<Longrightarrow>
    batch_step env am ps b (settle env am ps i slot ex elapsed b)"

definition batch_run ::
  "'w loop_env \<Rightarrow> assistant_message \<Rightarrow> prepared_calls \<Rightarrow> 'w tool_batch \<Rightarrow> 'w tool_batch \<Rightarrow> bool" where
  "batch_run env am ps = (batch_step env am ps)\<^sup>*\<^sup>*"

text \<open>
  When no call runs any more, or the abort grace is over: every call without an outcome is
  answered, told apart by whether it was still waiting.
\<close>

definition answer :: "'w loop_env \<Rightarrow> 'w tool_batch \<Rightarrow> nat \<Rightarrow> agent_tool_call \<Rightarrow> finalized_outcome" where
  "answer env b i tc =
     (case b_final b ! i of
        Some f \<Rightarrow> f
      | None \<Rightarrow> aborted_outcome env (b_world b) tc (if i \<in> set (b_waiting b) then NotRun else Unfinished))"

definition answers :: "'w loop_env \<Rightarrow> agent_tool_call list \<Rightarrow> 'w tool_batch \<Rightarrow> finalized_outcome list" where
  "answers env tcs b = map (\<lambda>i. answer env b i (tcs ! i)) [0 ..< length tcs]"

definition late_events :: "'w loop_env \<Rightarrow> agent_tool_call list \<Rightarrow> 'w tool_batch \<Rightarrow> agent_event list" where
  "late_events env tcs b =
     map (\<lambda>i. end_event (answer env b i (tcs ! i)))
         (filter (\<lambda>i. b_final b ! i = None) [0 ..< length tcs])"

fun result_messages ::
  "'w loop_env \<Rightarrow> finalized_outcome list \<Rightarrow> 'w \<Rightarrow> tool_result_message list \<times> 'w" where
  "result_messages env [] w = ([], w)"
| "result_messages env (f # fs) w =
     (case env_now env w of
        (now, w) \<Rightarrow>
          (case result_messages env fs w of
             (ms, w) \<Rightarrow> (create_tool_result_message f now # ms, w)))"

record executed_batch =
  eb_messages :: "tool_result_message list"
  eb_terminate :: bool

definition batch_result ::
  "'w loop_env \<Rightarrow> agent_tool_call list \<Rightarrow> 'w tool_batch \<Rightarrow> executed_batch \<times> agent_event list \<times> 'w" where
  "batch_result env tcs b =
     (let fs = answers env tcs b in
      case result_messages env fs (b_world b) of
        (ms, w) \<Rightarrow>
          (\<lparr>eb_messages = ms, eb_terminate = should_terminate_tool_batch fs\<rparr>,
           b_log b @ late_events env tcs b @ concat (map message_events ms), w))"

section \<open>The turnstile\<close>

text \<open>
  \<open>next\<close> is the turn that may begin; a call that holds turn \<open>s\<close> begins when \<open>next = s\<close> and
  moves it on at its dispatch point or its end.
\<close>

record turnstile =
  ts_next :: nat
  ts_begun :: "nat list"
  ts_released :: "nat list"

definition turnstile_start :: turnstile where
  "turnstile_start = \<lparr>ts_next = 0, ts_begun = [], ts_released = []\<rparr>"

inductive turnstile_step :: "nat set \<Rightarrow> turnstile \<Rightarrow> turnstile \<Rightarrow> bool" for holders where
  wait_for: "s \<in> holders \<Longrightarrow> s \<notin> set (ts_begun t) \<Longrightarrow> ts_next t = s \<Longrightarrow>
    turnstile_step holders t (t\<lparr>ts_begun := ts_begun t @ [s]\<rparr>)"
| release: "s \<in> set (ts_begun t) \<Longrightarrow> s \<notin> set (ts_released t) \<Longrightarrow>
    turnstile_step holders t (t\<lparr>ts_next := s + 1, ts_released := ts_released t @ [s]\<rparr>)"

section \<open>Background calls\<close>

definition background_text :: "agent_tool_call \<Rightarrow> ustr" where
  "background_text tc =
     U ''Started '' @ [34] @ tc_name tc @ [34]
       @ U '' in the background. Its result will arrive as a follow-up message once it finishes ''
       @ [8212] @ U '' keep working in the meantime.''"

definition create_background_placeholder_outcome ::
  "'w loop_env \<Rightarrow> agent_tool_call \<Rightarrow> agent_tool \<Rightarrow> 'w \<Rightarrow> finalized_outcome \<times> 'w" where
  "create_background_placeholder_outcome env tc tool w =
     (let out = (\<lambda>text. \<lparr>f_call = tc,
                    f_result = \<lparr>r_content = [text_block text],
                      r_details = JObj [(U ''background'', JBool True), (U ''status'', JStr (U ''running''))],
                      r_terminate = False\<rparr>,
                    f_is_error = False, f_duration = None\<rparr>) in
      case Option.bind (t_background_placeholder tool) (\<lambda>mk. mk tc) of
        Some text \<Rightarrow> (out text, w)
      | None \<Rightarrow>
          (case env_placeholder env of
             None \<Rightarrow> (out (background_text tc), w)
           | Some mk \<Rightarrow>
               (case mk w tc of
                  (Some text, w) \<Rightarrow> (out text, w)
                | (None, w) \<Rightarrow> (out (background_text tc), w))))"

text \<open>One background call: its answer now, and the call to spawn when it was prepared.\<close>

definition dispatch_one ::
  "'w loop_env \<Rightarrow> agent_tool list \<Rightarrow> assistant_message \<Rightarrow> agent_tool_call \<Rightarrow> 'w
     \<Rightarrow> finalized_outcome \<times> prepared_call list \<times> 'w" where
  "dispatch_one env tools am tc w =
     (case env_aborted env w of
        (True, w) \<Rightarrow> (aborted_outcome env w tc NotRun, [], w)
      | (False, w) \<Rightarrow>
          (case prepare_tool_call env tools am tc w of
             (Immediate r e, w) \<Rightarrow> (immediate_outcome tc r e, [], w)
           | (Prepared p, w) \<Rightarrow>
               (case create_background_placeholder_outcome env tc (p_tool p) w of
                  (f, w) \<Rightarrow> (f, [p], w))))"

fun dispatch_background_tool_calls ::
  "'w loop_env \<Rightarrow> agent_tool list \<Rightarrow> assistant_message \<Rightarrow> agent_tool_call list \<Rightarrow> 'w
     \<Rightarrow> tool_result_message list \<times> prepared_call list \<times> agent_event list \<times> 'w" where
  "dispatch_background_tool_calls env tools am [] w = ([], [], [], w)"
| "dispatch_background_tool_calls env tools am (tc # tcs) w =
     (case dispatch_one env tools am tc w of
        (f, spawned, w) \<Rightarrow>
          (case env_now env w of
             (now, w) \<Rightarrow>
               (let m = create_tool_result_message f now in
                case dispatch_background_tool_calls env tools am tcs w of
                  (ms, ps, log, w) \<Rightarrow>
                    (m # ms, spawned @ ps, start_event tc # end_event f # message_events m @ log, w))))"

section \<open>A whole batch\<close>

definition is_background_call :: "agent_tool list \<Rightarrow> agent_tool_call \<Rightarrow> bool" where
  "is_background_call tools tc =
     (case find_tool tools (tc_name tc) of Some t \<Rightarrow> is_background t tc | None \<Rightarrow> False)"

definition wants_sequential :: "agent_tool list \<Rightarrow> agent_tool_call \<Rightarrow> bool" where
  "wants_sequential tools tc =
     (case find_tool tools (tc_name tc) of
        Some t \<Rightarrow> t_execution_mode t = Some Sequential | None \<Rightarrow> False)"

text \<open>The map by id (a later entry replaces an earlier one), emptied in call order.\<close>

definition by_id :: "tool_result_message list \<Rightarrow> (ustr \<times> tool_result_message) list" where
  "by_id ms = foldl (\<lambda>m r. aput (tr_call_id r) r m) [] ms"

fun take_results :: "agent_tool_call list \<Rightarrow> (ustr \<times> tool_result_message) list \<Rightarrow> tool_result_message list" where
  "take_results [] m = []"
| "take_results (tc # tcs) m =
     (case aget m (tc_id tc) of
        Some r \<Rightarrow> r # take_results tcs (adel (tc_id tc) m)
      | None \<Rightarrow> take_results tcs m)"

text \<open>The foreground calls: sequential, or one of the runs of the parallel batch.\<close>

inductive run_foreground ::
  "'w loop_env \<Rightarrow> agent_tool list \<Rightarrow> assistant_message \<Rightarrow> execution_mode \<Rightarrow> nat \<Rightarrow> agent_tool_call list \<Rightarrow> 'w
     \<Rightarrow> executed_batch \<times> agent_event list \<times> 'w \<Rightarrow> bool"
  for env tools am mode max_parallel where
  no_calls: "run_foreground env tools am mode max_parallel [] w
     (\<lparr>eb_messages = [], eb_terminate = False\<rparr>, [], w)"
| one_by_one: "tcs \<noteq> [] \<Longrightarrow> mode = Sequential \<or> (\<exists>tc \<in> set tcs. wants_sequential tools tc) \<Longrightarrow>
    execute_tool_calls_sequential env tools am tcs w = (fs, ms, log, w') \<Longrightarrow>
    run_foreground env tools am mode max_parallel tcs w
      (\<lparr>eb_messages = ms, eb_terminate = should_terminate_tool_batch fs\<rparr>, log, w')"
| together: "tcs \<noteq> [] \<Longrightarrow> mode = Parallel \<Longrightarrow> \<forall>tc \<in> set tcs. \<not> wants_sequential tools tc \<Longrightarrow>
    prepare_all env tools am tcs w = (ps, log, w') \<Longrightarrow>
    batch_run env am ps (batch_start env max_parallel ps log w') b \<Longrightarrow>
    b_running b = [] \<or> grace_over \<Longrightarrow>
    run_foreground env tools am mode max_parallel tcs w (batch_result env tcs b)"

inductive execute_tool_calls ::
  "'w loop_env \<Rightarrow> agent_tool list \<Rightarrow> execution_mode \<Rightarrow> nat \<Rightarrow> assistant_message \<Rightarrow> 'w
     \<Rightarrow> executed_batch \<times> prepared_call list \<times> agent_event list \<times> 'w \<Rightarrow> bool"
  for env tools mode max_parallel where
  "dispatch_background_tool_calls env tools am (filter (is_background_call tools) (tool_calls_of am)) w
     = (bms, spawned, blog, w1) \<Longrightarrow>
   run_foreground env tools am mode max_parallel
     (filter (\<lambda>tc. \<not> is_background_call tools tc) (tool_calls_of am)) w1 (fg, flog, w2) \<Longrightarrow>
   execute_tool_calls env tools mode max_parallel am w
     (\<lparr>eb_messages = take_results (tool_calls_of am) (by_id (bms @ eb_messages fg)),
       eb_terminate = eb_terminate fg\<rparr>, spawned, blog @ flog, w2)"

end
