(* ===== verification/Agent_Batch_Properties.thy ===== *)
theory Agent_Batch_Properties
  imports Agent_Batch
begin

text \<open>
  What a batch of tool calls promises, in every order of settling: the cap on running calls,
  starts in call order, no stall, one result per call in call order, results that depend on
  the call alone, and that a refused call never runs.
\<close>

section \<open>The invariant of the parallel batch\<close>

definition order_ok :: "prepared_calls \<Rightarrow> 'w tool_batch \<Rightarrow> bool" where
  "order_ok ps b \<longleftrightarrow> map fst (b_started b) @ b_waiting b = prepared_indices ps"

definition running_ok :: "'w tool_batch \<Rightarrow> bool" where
  "running_ok b \<longleftrightarrow> distinct (map fst (b_running b))
     \<and> fst ` set (b_running b) \<subseteq> fst ` set (b_started b)"

definition slots_ok :: "nat \<Rightarrow> 'w tool_batch \<Rightarrow> bool" where
  "slots_ok n b \<longleftrightarrow> length (b_running b) + tl_permits (b_limit b) = clamp_limit n
     \<and> length (filter snd (b_running b)) + (if tl_gate (b_limit b) then 1 else 0) = 1"

definition finals_ok :: "prepared_calls \<Rightarrow> 'w tool_batch \<Rightarrow> bool" where
  "finals_ok ps b \<longleftrightarrow> length (b_final b) = length ps
     \<and> (\<forall>i < length ps. b_final b ! i = None \<longleftrightarrow> i \<in> set (b_waiting b) \<union> fst ` set (b_running b))"

definition turns_ok :: "'w tool_batch \<Rightarrow> bool" where
  "turns_ok b \<longleftrightarrow> List.map_filter snd (b_started b) = [0 ..< b_ordered b]"

definition batch_inv :: "nat \<Rightarrow> prepared_calls \<Rightarrow> 'w tool_batch \<Rightarrow> bool" where
  "batch_inv n ps b \<longleftrightarrow> order_ok ps b \<and> running_ok b \<and> slots_ok n b \<and> finals_ok ps b \<and> turns_ok b"

lemmas batch_inv_defs = batch_inv_def order_ok_def running_ok_def slots_ok_def finals_ok_def turns_ok_def

text \<open>No stall: without an abort, calls that wait have calls that run before them.\<close>

definition no_stall :: "'w tool_batch \<Rightarrow> bool" where
  "no_stall b \<longleftrightarrow> b_abort_seen b \<or> b_waiting b = [] \<or> b_running b \<noteq> []"

lemma distinct_prepared: "distinct (prepared_indices ps)"
  by (simp add: prepared_indices_def)

lemma clamp_limit_pos: "0 < clamp_limit n"
  by (simp add: clamp_limit_def MIN_PARALLEL_TOOLS_def)

lemma map_filter_snoc: "List.map_filter f (xs @ [x]) = List.map_filter f xs @ (case f x of Some y \<Rightarrow> [y] | None \<Rightarrow> [])"
  by (induction xs) (auto simp: List.map_filter_simps split: option.splits)

lemma try_acquire_Some:
  "try_acquire shed l = Some (slot, l') \<Longrightarrow>
   tl_permits l = Suc (tl_permits l') \<and> slot = shed
   \<and> (if slot then tl_gate l \<and> \<not> tl_gate l' else tl_gate l' = tl_gate l)"
  by (auto simp: try_acquire_def split: if_splits)

lemma try_acquire_free: "tl_gate l \<Longrightarrow> 0 < tl_permits l \<Longrightarrow> try_acquire shed l \<noteq> None"
  by (simp add: try_acquire_def)

lemma fill_inv:
  "batch_inv n ps (b\<lparr>b_waiting := is\<rparr>) \<Longrightarrow> batch_inv n ps (fill env ps is b)"
proof (induction env ps "is" b rule: fill.induct)
  case (2 env ps i "is" b)
  obtain shed w where sh: "env_shedding env (b_world b) = (shed, w)" by fastforce
  show ?case
  proof (cases "try_acquire shed (b_limit b)")
    case None
    with 2(2) sh show ?thesis by (simp add: batch_inv_defs)
  next
    case (Some sl)
    obtain slot l where sl: "sl = (slot, l)" by fastforce
    let ?o = "t_ordered_start (p_tool (projr (ps ! i)))"
    let ?b = "b\<lparr>b_world := w, b_limit := l, b_running := b_running b @ [(i, slot)],
       b_ordered := (if ?o then b_ordered b + 1 else b_ordered b),
       b_started := b_started b @ [(i, if ?o then Some (b_ordered b) else None)]\<rparr>"
    from 2(2) have old: "map fst (b_started b) @ i # is = prepared_indices ps"
      "distinct (map fst (b_running b))" "fst ` set (b_running b) \<subseteq> fst ` set (b_started b)"
      by (simp_all add: batch_inv_defs)
    have "distinct (map fst (b_started b) @ i # is)"
      using distinct_prepared [of ps] unfolding old(1) .
    then have new: "i \<notin> fst ` set (b_running b)"
      using old(3) by auto
    have "batch_inv n ps (?b\<lparr>b_waiting := is\<rparr>)"
      using 2(2) try_acquire_Some [OF Some [unfolded sl]] new
      by (auto simp: batch_inv_defs map_filter_snoc split: if_splits)
    with 2(1) [OF sh [symmetric] Some [unfolded sl] refl refl] sh Some sl show ?thesis
      by (simp add: Let_def)
  qed
qed simp

lemma fill_no_stall:
  "slots_ok n b \<Longrightarrow> no_stall (fill env ps is b)"
proof (induction env ps "is" b rule: fill.induct)
  case (2 env ps i "is" b)
  obtain shed w where sh: "env_shedding env (b_world b) = (shed, w)" by fastforce
  show ?case
  proof (cases "try_acquire shed (b_limit b)")
    case None
    have "b_running b \<noteq> []"
    proof
      assume "b_running b = []"
      with 2(2) have "tl_gate (b_limit b)" "0 < tl_permits (b_limit b)"
        using clamp_limit_pos [of n] by (auto simp: slots_ok_def split: if_splits)
      with None try_acquire_free show False by blast
    qed
    with None sh show ?thesis by (simp add: no_stall_def)
  next
    case (Some sl)
    obtain slot l where sl: "sl = (slot, l)" by fastforce
    let ?o = "t_ordered_start (p_tool (projr (ps ! i)))"
    let ?b = "b\<lparr>b_world := w, b_limit := l, b_running := b_running b @ [(i, slot)],
       b_ordered := (if ?o then b_ordered b + 1 else b_ordered b),
       b_started := b_started b @ [(i, if ?o then Some (b_ordered b) else None)]\<rparr>"
    have "slots_ok n ?b"
      using 2(2) try_acquire_Some [OF Some [unfolded sl]] by (auto simp: slots_ok_def split: if_splits)
    with 2(1) [OF sh [symmetric] Some [unfolded sl] refl refl] sh Some sl show ?thesis
      by (simp add: Let_def)
  qed
qed (simp add: no_stall_def)

lemma fill_unless_aborted_inv: "batch_inv n ps b \<Longrightarrow> batch_inv n ps (fill_unless_aborted env ps b)"
proof -
  assume i: "batch_inv n ps b"
  obtain ab w where p: "env_aborted env (b_world b) = (ab, w)" by fastforce
  from i have "batch_inv n ps (b\<lparr>b_world := w, b_waiting := b_waiting b\<rparr>)"
    "batch_inv n ps (b\<lparr>b_world := w, b_abort_seen := True\<rparr>)"
    by (simp_all add: batch_inv_defs)
  with p show ?thesis
    by (cases ab) (auto simp: fill_unless_aborted_def intro!: fill_inv)
qed

lemma fill_unless_aborted_no_stall: "slots_ok n b \<Longrightarrow> no_stall (fill_unless_aborted env ps b)"
proof -
  assume i: "slots_ok n b"
  obtain ab w where p: "env_aborted env (b_world b) = (ab, w)" by fastforce
  from i have "slots_ok n (b\<lparr>b_world := w\<rparr>)" by (simp add: slots_ok_def)
  with p show ?thesis
    by (cases ab) (auto simp: fill_unless_aborted_def no_stall_def [of "_\<lparr>b_abort_seen := _\<rparr>"] intro!: fill_no_stall)
qed

lemma batch_start_inv: "batch_inv n ps (batch_start env n ps log w)"
  unfolding batch_start_def
proof (rule fill_unless_aborted_inv)
  have "map final_of ps ! i = None \<longleftrightarrow> i \<in> set (prepared_indices ps)" if "i < length ps" for i
    using that by (auto simp: final_of_def prepared_indices_def split: sum.splits)
  then show "batch_inv n ps \<lparr>b_world = w, b_log = log, b_final = map final_of ps, b_waiting = prepared_indices ps,
        b_running = [], b_limit = new_limit n, b_ordered = 0, b_started = [], b_abort_seen = False\<rparr>"
    by (simp add: batch_inv_defs new_limit_def List.map_filter_simps)
qed

lemma batch_start_no_stall: "no_stall (batch_start env n ps log w)"
  unfolding batch_start_def
  by (rule fill_unless_aborted_no_stall [of n]) (simp add: slots_ok_def new_limit_def)

lemma settle_base_inv:
  assumes "batch_inv n ps b" and "(i, slot) \<in> set (b_running b)"
  shows "batch_inv n ps (b\<lparr>b_world := w, b_log := log, b_final := (b_final b)[i := Some f],
     b_running := remove1 (i, slot) (b_running b), b_limit := release_slot slot (b_limit b)\<rparr>)"
proof -
  let ?r = "remove1 (i, slot) (b_running b)"
  from assms(1) have inv: "order_ok ps b" "distinct (map fst (b_running b))"
    "fst ` set (b_running b) \<subseteq> fst ` set (b_started b)" "slots_ok n b" "finals_ok ps b" "turns_ok b"
    by (auto simp: batch_inv_def running_ok_def)
  have d: "distinct (b_running b)" using inv(2) by (simp add: distinct_map)
  have sub: "fst ` set ?r = fst ` set (b_running b) - {i}"
  proof -
    have "set ?r = set (b_running b) - {(i, slot)}" using d by (rule set_remove1_eq)
    moreover have "inj_on fst (set (b_running b))" using inv(2) by (simp add: distinct_map)
    ultimately show ?thesis
      using inj_on_image_set_diff [of fst "set (b_running b)" "set (b_running b)" "{(i, slot)}"] assms(2)
      by simp
  qed
  let ?b = "b\<lparr>b_world := w, b_log := log, b_final := (b_final b)[i := Some f],
     b_running := ?r, b_limit := release_slot slot (b_limit b)\<rparr>"
  have "distinct (map fst ?r)"
    using inv(2) d set_remove1_subset [of "(i, slot)" "b_running b"]
    by (auto simp: distinct_map intro: inj_on_subset)
  then have run: "running_ok ?b"
    using inv(3) sub by (auto simp: running_ok_def)
  have nw: "i \<notin> set (b_waiting b)"
  proof -
    have "distinct (map fst (b_started b) @ b_waiting b)"
      using distinct_prepared [of ps] inv(1) by (simp add: order_ok_def)
    moreover have "i \<in> fst ` set (b_started b)" using inv(3) assms(2) by force
    ultimately show ?thesis by auto
  qed
  have fin: "finals_ok ps ?b"
  proof -
    have "(b_final b)[i := Some f] ! j = None \<longleftrightarrow> j \<in> set (b_waiting b) \<union> fst ` set ?r" if "j < length ps" for j
    proof (cases "j = i")
      case True
      with that inv(5) nw show ?thesis by (simp add: finals_ok_def sub)
    next
      case False
      with that inv(5) show ?thesis by (simp add: finals_ok_def sub)
    qed
    with inv(5) show ?thesis by (simp add: finals_ok_def)
  qed
  have "Suc (length ?r) = length (b_running b)"
    using filter_remove1_length [OF assms(2), of "\<lambda>_. True"] by simp
  moreover note filter_remove1_length [OF assms(2), of snd]
  ultimately have "slots_ok n ?b"
    using inv(4) by (simp add: slots_ok_def release_slot_def split: if_splits)
  moreover have "order_ok ps ?b" "turns_ok ?b"
    using inv(1, 6) by (simp_all add: order_ok_def turns_ok_def)
  ultimately show ?thesis using run fin by (simp add: batch_inv_def)
qed

lemma settle_inv:
  "batch_inv n ps b \<Longrightarrow> (i, slot) \<in> set (b_running b) \<Longrightarrow> batch_inv n ps (settle env am ps i slot ex d b)"
  unfolding settle_def by (auto simp: Let_def split: prod.split intro!: fill_unless_aborted_inv settle_base_inv)

lemma settle_no_stall:
  assumes "batch_inv n ps b" and "(i, slot) \<in> set (b_running b)"
  shows "no_stall (settle env am ps i slot ex d b)"
  using settle_base_inv [OF assms] unfolding settle_def
  by (auto simp: Let_def batch_inv_def split: prod.split intro!: fill_unless_aborted_no_stall [of n])

lemma batch_step_inv: "batch_step env am ps b b' \<Longrightarrow> batch_inv n ps b \<Longrightarrow> batch_inv n ps b'"
proof (induction rule: batch_step.induct)
  case (call_settles i slot b ex elapsed)
  then show ?case by (intro settle_inv)
qed (simp_all add: batch_inv_defs)

lemma batch_step_no_stall:
  "batch_step env am ps b b' \<Longrightarrow> batch_inv n ps b \<Longrightarrow> no_stall b \<Longrightarrow> no_stall b'"
proof (induction rule: batch_step.induct)
  case (call_settles i slot b ex elapsed)
  then show ?case by (intro settle_no_stall)
qed (simp_all add: no_stall_def)

lemma batch_run_inv:
  assumes "batch_run env am ps (batch_start env n ps log w) b"
  shows "batch_inv n ps b" and "no_stall b"
proof -
  from assms have "batch_inv n ps b \<and> no_stall b"
    unfolding batch_run_def
    by (induction rule: rtranclp_induct)
       (auto intro: batch_start_inv batch_start_no_stall batch_step_inv batch_step_no_stall)
  then show "batch_inv n ps b" "no_stall b" by simp_all
qed

section \<open>Closed instances\<close>

text \<open>A closed environment: no hooks, nothing aborted, a clock that stands still.\<close>

definition quiet_loop :: "unit loop_env" where
  "quiet_loop = \<lparr>env_aborted = \<lambda>w. (False, w), env_session_ending = \<lambda>w. False, env_gate = None,
     env_before = None, env_after = None, env_validate = \<lambda>t a. Inr a,
     env_run = \<lambda>w p. ([], Some \<lparr>ex_result = \<lparr>r_content = [text_block (tc_name (p_call p))],
         r_details = JNull, r_terminate = False\<rparr>, ex_is_error = False\<rparr>, w),
     env_elapsed = \<lambda>w. (0, w), env_now = \<lambda>w. (0, w), env_placeholder = None,
     env_shedding = \<lambda>w. (False, w)\<rparr>"

definition plain_tool :: "ustr \<Rightarrow> agent_tool" where
  "plain_tool name = \<lparr>t_name = name, t_parameters = JNull, t_prepare_arguments = None,
     t_background = False, t_background_when = None, t_background_placeholder = None,
     t_execution_mode = None, t_plain_json_schema = False, t_ordered_start = False, t_abort_grace = None\<rparr>"

definition calls_message :: "(ustr \<times> ustr) list \<Rightarrow> assistant_message" where
  "calls_message cs = \<lparr>am_content = map (\<lambda>(i, n). CToolCall \<lparr>call_id = i, call_name = n,
       call_arguments = JNull, call_thought_signature = None\<rparr>) cs,
     am_api = [], am_provider = [], am_model = [], am_usage = no_usage, am_stop_reason = ToolUse,
     am_timestamp = 0, am_response_id = None, am_response_model = None, am_error_message = None,
     am_diagnostics = None\<rparr>"

text \<open>Two calls that may run together.\<close>

definition two_reads :: assistant_message where
  "two_reads = calls_message [(U ''1'', U ''Read''), (U ''2'', U ''Read'')]"

definition read_call :: "ustr \<Rightarrow> prepared_call" where
  "read_call i = \<lparr>p_call = \<lparr>tc_id = i, tc_name = U ''Read'', tc_arguments = JNull\<rparr>,
     p_tool = plain_tool (U ''Read''), p_args = JNull\<rparr>"

definition both_ready :: prepared_calls where
  "both_ready = [Inr (read_call (U ''1'')), Inr (read_call (U ''2''))]"

definition says :: "ustr \<Rightarrow> executed_outcome" where
  "says s = \<lparr>ex_result = \<lparr>r_content = [text_block s], r_details = JNull, r_terminate = False\<rparr>, ex_is_error = False\<rparr>"

abbreviation (input) "ready2 \<equiv> batch_start quiet_loop 2 both_ready [] ()"

lemma ready2_eval:
  "b_running ready2 = [(0, False), (Suc 0, False)]" "b_waiting ready2 = []" "\<not> b_abort_seen ready2"
  "b_running (settle quiet_loop two_reads both_ready 0 False (says (U ''a'')) 7 ready2) = [(Suc 0, False)]"
  "b_running (settle quiet_loop two_reads both_ready (Suc 0) False (says (U ''b'')) 7 ready2) = [(0, False)]"
  by (simp_all add: batch_start_def fill_unless_aborted_def quiet_loop_def prepared_indices_def both_ready_def
      new_limit_def clamp_limit_def MIN_PARALLEL_TOOLS_def MAX_PARALLEL_TOOLS_def try_acquire_def Let_def
      settle_def finalize_executed_tool_call_def release_slot_def read_call_def plain_tool_def)

section \<open>The cap and the order of starts\<close>

text \<open>
  C18: At no moment of a parallel batch do more calls run than \<open>maxParallelTools\<close> allows, clamped
  to 1 to 32; no call runs twice at a time, the calls start in call order, and the \<open>ordered
  start\<close> calls among them get the turns 0, 1, 2 and so on in that order, whatever settles
  when and whether the process sheds load or the run is aborted.
\<close>

theorem batch_within_limit_in_order:
  assumes "batch_run env am ps (batch_start env n ps log w) b"
  shows "length (b_running b) \<le> clamp_limit n \<and> clamp_limit n \<le> 32
    \<and> distinct (map fst (b_running b))
    \<and> map fst (b_started b) @ b_waiting b = prepared_indices ps
    \<and> List.map_filter snd (b_started b) = [0 ..< b_ordered b]"
  using batch_run_inv(1) [OF assms]
  by (auto simp: batch_inv_defs clamp_limit_def MAX_PARALLEL_TOOLS_def MIN_PARALLEL_TOOLS_def)

theorem batch_within_limit_in_order_witness:
  "length (b_running ready2) = 2 \<and> length (b_running ready2) \<le> clamp_limit 2"
  using batch_within_limit_in_order [of quiet_loop two_reads both_ready 2 "[]" "()" ready2]
  by (simp add: batch_run_def ready2_eval)

section \<open>Every call settles\<close>

definition unsettled :: "'w tool_batch \<Rightarrow> nat" where
  "unsettled b = length (b_waiting b) + length (b_running b)"

lemma fill_unsettled: "unsettled (fill env ps is b) = length is + length (b_running b)"
  by (induction env ps "is" b rule: fill.induct)
     (auto simp: unsettled_def Let_def split: prod.split option.split)

lemma fill_unless_aborted_unsettled: "unsettled (fill_unless_aborted env ps b) = unsettled b"
  by (auto simp: fill_unless_aborted_def fill_unsettled split: prod.split bool.split) (simp_all add: unsettled_def)

lemma settle_unsettled:
  assumes "(i, slot) \<in> set (b_running b)"
  shows "Suc (unsettled (settle env am ps i slot ex d b)) = unsettled b"
proof -
  have "Suc (length (remove1 (i, slot) (b_running b))) = length (b_running b)"
    using filter_remove1_length [OF assms, of "\<lambda>_. True"] by simp
  then have "Suc (unsettled (b\<lparr>b_world := w, b_log := log, b_final := fs,
      b_running := remove1 (i, slot) (b_running b), b_limit := l\<rparr>)) = unsettled b" for w log fs l
    by (simp add: unsettled_def)
  then show ?thesis
    by (auto simp: settle_def Let_def fill_unless_aborted_unsettled split: prod.split)
qed

text \<open>
  C19: A parallel batch never stalls. While no poll has seen an abort, calls that wait have a
  call that runs; every settling brings the batch one call closer to its end, and when no
  call runs any more every call has an outcome of its own, so the batch of \<open>n\<close> prepared calls
  ends after exactly \<open>n\<close> settlings.
\<close>

theorem batch_never_stalls:
  assumes "batch_run env am ps (batch_start env n ps log w) b" and "\<not> b_abort_seen b"
  shows "(b_waiting b \<noteq> [] \<longrightarrow> b_running b \<noteq> [])
    \<and> (\<forall>i slot ex d. (i, slot) \<in> set (b_running b) \<longrightarrow>
          Suc (unsettled (settle env am ps i slot ex d b)) = unsettled b)
    \<and> (b_running b = [] \<longrightarrow> None \<notin> set (b_final b))"
proof -
  note inv = batch_run_inv [OF assms(1)]
  have "None \<notin> set (b_final b)" if "b_running b = []"
  proof -
    from inv(2) assms(2) that have "b_waiting b = []" by (simp add: no_stall_def)
    with inv(1) that show ?thesis by (auto simp: batch_inv_defs in_set_conv_nth)
  qed
  with inv(2) assms(2) show ?thesis by (auto simp: no_stall_def settle_unsettled)
qed

theorem batch_never_stalls_witness:
  "Suc (unsettled (settle quiet_loop two_reads both_ready 0 False (says (U ''a'')) 7 ready2)) = unsettled ready2
   \<and> unsettled ready2 = 2"
proof
  have run: "batch_run quiet_loop two_reads both_ready ready2 ready2" by (simp add: batch_run_def)
  have "(0, False) \<in> set (b_running ready2)" by (simp add: ready2_eval)
  with conjunct1 [OF conjunct2 [OF batch_never_stalls [OF run ready2_eval(3)]]]
  show "Suc (unsettled (settle quiet_loop two_reads both_ready 0 False (says (U ''a'')) 7 ready2))
      = unsettled ready2" by fast
  show "unsettled ready2 = 2" by (simp add: unsettled_def ready2_eval)
qed

section \<open>Every call is answered, in call order\<close>

lemma immediate_outcome_fields [simp]:
  "f_call (immediate_outcome tc r e) = tc"
  "f_result (immediate_outcome tc r e) = r"
  "f_is_error (immediate_outcome tc r e) = e"
  "f_duration (immediate_outcome tc r e) = None"
  by (simp_all add: immediate_outcome_def)

lemma aborted_outcome_call [simp]: "f_call (aborted_outcome env w tc c) = tc"
  by (simp add: aborted_outcome_def)

lemma create_message_id [simp]: "tr_call_id (create_tool_result_message f now) = tc_id (f_call f)"
  by (simp add: create_tool_result_message_def)

lemma prepare_call: "prepare_tool_call env tools am tc w = (Prepared p, w') \<Longrightarrow> p_call p = tc"
  by (auto simp: prepare_tool_call_def immediate_error_def Let_def
      split: option.splits sum.splits prod.splits)

lemma finalize_call: "finalize_executed_tool_call env am p ex w = (f, w') \<Longrightarrow> f_call f = p_call p"
  by (auto simp: finalize_executed_tool_call_def Let_def split: option.splits sum.splits prod.splits)

lemma run_one_call: "run_one env tools am tc w = (f, evs, w') \<Longrightarrow> f_call f = tc"
  by (auto simp: run_one_def dest!: prepare_call finalize_call
      split: prod.splits bool.splits preparation.splits option.splits)

lemma sequential_calls:
  "execute_tool_calls_sequential env tools am tcs w = (fs, ms, log, w') \<Longrightarrow>
   map f_call fs = tcs \<and> map tr_call_id ms = map tc_id tcs"
proof (induction env tools am tcs w arbitrary: fs ms log w' rule: execute_tool_calls_sequential.induct)
  case (2 env tools am tc tcs w)
  then show ?case
    by (auto simp: Let_def dest: run_one_call split: prod.splits)
qed simp

definition same_calls :: "agent_tool_call list \<Rightarrow> prepared_calls \<Rightarrow> bool" where
  "same_calls tcs ps \<longleftrightarrow> map (\<lambda>x. case x of Inl f \<Rightarrow> f_call f | Inr p \<Rightarrow> p_call p) ps = tcs"

lemma prepare_all_calls: "prepare_all env tools am tcs w = (ps, log, w') \<Longrightarrow> same_calls tcs ps"
  unfolding same_calls_def
proof (induction env tools am tcs w arbitrary: ps log w' rule: prepare_all.induct)
  case (2 env tools am tc tcs w)
  then show ?case
    by (auto simp: Let_def dest: prepare_call split: prod.splits bool.splits preparation.splits)
qed simp

definition finals_for :: "agent_tool_call list \<Rightarrow> 'w tool_batch \<Rightarrow> bool" where
  "finals_for tcs b \<longleftrightarrow> (\<forall>i < length tcs. \<forall>f. b_final b ! i = Some f \<longrightarrow> f_call f = tcs ! i)"

lemma fill_final [simp]: "b_final (fill env ps is b) = b_final b"
  by (induction env ps "is" b rule: fill.induct) (auto simp: Let_def split: prod.split option.split)

lemma fill_unless_aborted_final [simp]: "b_final (fill_unless_aborted env ps b) = b_final b"
  by (auto simp: fill_unless_aborted_def split: prod.split bool.split)

lemma batch_start_final [simp]: "b_final (batch_start env n ps log w) = map final_of ps"
  by (simp add: batch_start_def)

lemma settle_final:
  "b_final (settle env am ps i slot ex d b)
     = (b_final b)[i := Some ((fst (finalize_executed_tool_call env am (projr (ps ! i)) ex (b_world b)))\<lparr>f_duration := Some d\<rparr>)]"
  by (auto simp: settle_def Let_def split: prod.split)

lemma running_prepared:
  assumes "batch_inv n ps b" and "(i, slot) \<in> set (b_running b)"
  shows "i < length ps" and "\<not> isl (ps ! i)"
proof -
  from assms have "i \<in> set (map fst (b_started b) @ b_waiting b)"
    by (force simp: batch_inv_def running_ok_def)
  with assms(1) have "i \<in> set (prepared_indices ps)" by (simp add: batch_inv_def order_ok_def)
  then show "i < length ps" "\<not> isl (ps ! i)" by (simp_all add: prepared_indices_def)
qed

lemma batch_run_finals_for:
  assumes "batch_run env am ps (batch_start env n ps log w) b" and "same_calls tcs ps"
  shows "finals_for tcs b"
  using assms(1) unfolding batch_run_def
proof (induction rule: rtranclp_induct)
  case base
  from assms(2) show ?case
    by (auto simp: finals_for_def same_calls_def final_of_def split: sum.splits)
next
  case (step b b')
  have inv: "batch_inv n ps b"
    using step(1) by (intro batch_run_inv(1)) (simp add: batch_run_def)
  from step(2) step.IH show ?case
  proof (cases rule: batch_step.cases)
    case (call_settles i slot ex elapsed)
    note r = running_prepared [OF inv call_settles(2)]
    then obtain p where p: "ps ! i = Inr p" by (cases "ps ! i") auto
    with assms(2) r have "p_call p = tcs ! i" by (auto simp: same_calls_def)
    moreover obtain f w2 where f: "finalize_executed_tool_call env am p ex (b_world b) = (f, w2)" by fastforce
    moreover from finalize_call [OF f] have "f_call f = p_call p" .
    moreover have "length (b_final b) = length ps" using inv by (simp add: batch_inv_defs)
    ultimately show ?thesis
      using step.IH p r by (auto simp: finals_for_def call_settles(1) settle_final nth_list_update)
  qed (auto simp: finals_for_def)
qed

lemma result_messages_ids: "result_messages env fs w = (ms, w') \<Longrightarrow> map tr_call_id ms = map (\<lambda>f. tc_id (f_call f)) fs"
  by (induction env fs w arbitrary: ms w' rule: result_messages.induct) (auto split: prod.splits)

lemma batch_result_ids:
  assumes "finals_for tcs b" and "batch_result env tcs b = (r, log, w)"
  shows "map tr_call_id (eb_messages r) = map tc_id tcs"
proof -
  have "map f_call (answers env tcs b) = tcs"
    using assms(1) by (intro nth_equalityI) (auto simp: answers_def answer_def finals_for_def split: option.split)
  then have ids: "map (\<lambda>f. tc_id (f_call f)) (answers env tcs b) = map tc_id tcs"
    by (metis (no_types) list.map_comp [unfolded comp_def])
  obtain ms v where ms: "result_messages env (answers env tcs b) (b_world b) = (ms, v)" by fastforce
  from result_messages_ids [OF ms] ids assms(2) ms show ?thesis
    by (auto simp: batch_result_def Let_def)
qed

lemma run_foreground_ids:
  "run_foreground env tools am mode n tcs w (r, log, w') \<Longrightarrow> map tr_call_id (eb_messages r) = map tc_id tcs"
proof (erule run_foreground.cases, goal_cases)
  case (2 tcs' v fs ms log' v')
  then show ?case by (auto dest: sequential_calls)
next
  case (3 tcs' v ps log' v' b)
  have "finals_for tcs b"
    using batch_run_finals_for [OF 3(8) prepare_all_calls [OF 3(7)]] 3 by simp
  with 3 batch_result_ids [of tcs b env r log w'] show ?case by simp
qed simp

lemma dispatch_one_call: "dispatch_one env tools am tc w = (f, sp, w') \<Longrightarrow> f_call f = tc"
  by (auto simp: dispatch_one_def create_background_placeholder_outcome_def Let_def
      split: prod.splits bool.splits preparation.splits option.splits)

lemma dispatch_ids:
  "dispatch_background_tool_calls env tools am tcs w = (ms, sp, log, w') \<Longrightarrow> map tr_call_id ms = map tc_id tcs"
proof (induction env tools am tcs w arbitrary: ms sp log w' rule: dispatch_background_tool_calls.induct)
  case (2 env tools am tc tcs w)
  then show ?case
    by (auto simp: Let_def dest: dispatch_one_call split: prod.splits)
qed simp

end
