(* ===== verification/Agent_Properties.thy ===== *)
theory Agent_Properties
  imports Gate_Properties Agent_Batch_Properties "HOL-Library.Multiset"
begin

text \<open>
  Properties of whole batches: every tool call gets exactly its one result, a refused call
  never runs, results do not depend on the order in which calls settle, and ordered starts
  happen in turn.
\<close>

section \<open>The merge of the results\<close>

lemma aget_by_id:
  "distinct (map tr_call_id ms) \<Longrightarrow> m \<in> set ms \<Longrightarrow> aget (by_id ms) (tr_call_id m) = Some m"
proof -
  have go: "distinct (map tr_call_id ms) \<Longrightarrow>
      aget (foldl (\<lambda>m r. aput (tr_call_id r) r m) acc ms) k
        = (case List.find (\<lambda>m. tr_call_id m = k) ms of Some m \<Rightarrow> Some m | None \<Rightarrow> aget acc k)" for acc k
  proof (induction ms arbitrary: acc)
    case (Cons x ms)
    have none: "List.find (\<lambda>m. tr_call_id m = tr_call_id x) ms = None"
      using Cons.prems by (auto simp: find_None_iff image_iff)
    show ?case
      using Cons.IH [of "aput (tr_call_id x) x acc"] Cons.prems none
      by (auto simp: amap.get_put split: option.splits)
  qed simp
  assume d: "distinct (map tr_call_id ms)" and m: "m \<in> set ms"
  then have "List.find (\<lambda>x. tr_call_id x = tr_call_id m) ms = Some m"
  proof (induction ms)
    case (Cons x ms)
    then show ?case by (cases "x = m") (auto simp: image_iff)
  qed simp
  with go [OF d, of "[]" "tr_call_id m"] show ?thesis by (simp add: by_id_def)
qed

lemma by_id_ids:
  "distinct (map tr_call_id ms) \<Longrightarrow> aget (by_id ms) k = Some m \<Longrightarrow> tr_call_id m = k \<and> m \<in> set ms"
proof -
  have "aget (foldl (\<lambda>m r. aput (tr_call_id r) r m) acc ms) k = Some m \<Longrightarrow>
      (tr_call_id m = k \<and> m \<in> set ms) \<or> aget acc k = Some m" for acc
  proof (induction ms arbitrary: acc)
    case (Cons x ms)
    from Cons.IH [of "aput (tr_call_id x) x acc"] Cons.prems show ?case
      by (auto simp: amap.get_put split: if_splits)
  qed simp
  then show "aget (by_id ms) k = Some m \<Longrightarrow> tr_call_id m = k \<and> m \<in> set ms"
    by (fastforce simp: by_id_def)
qed

lemma take_results_ids:
  "distinct (map tc_id tcs) \<Longrightarrow> \<forall>tc \<in> set tcs. \<exists>m. aget mp (tc_id tc) = Some m \<and> tr_call_id m = tc_id tc \<Longrightarrow>
   map tr_call_id (take_results tcs mp) = map tc_id tcs"
proof (induction tcs arbitrary: mp)
  case (Cons tc tcs)
  then obtain m where "aget mp (tc_id tc) = Some m" "tr_call_id m = tc_id tc" by auto
  moreover have "map tr_call_id (take_results tcs (adel (tc_id tc) mp)) = map tc_id tcs"
    by (rule Cons.IH) (use Cons.prems in \<open>auto simp: aget_adel image_iff\<close>)
  ultimately show ?case by simp
qed simp

lemma execute_answers_ids:
  assumes "execute_tool_calls env tools mode n am w (r, spawned, log, w')"
    and "distinct (map tc_id (tool_calls_of am))"
  shows "map tr_call_id (eb_messages r) = map tc_id (tool_calls_of am)"
  using assms(1)
proof (rule execute_tool_calls.cases, goal_cases)
  case (1 am' v bms sp blog w1 fg flog w2)
  let ?tcs = "tool_calls_of am"
  let ?bg = "filter (is_background_call tools) ?tcs"
  let ?fg = "filter (\<lambda>tc. \<not> is_background_call tools tc) ?tcs"
  from 1 have b: "map tr_call_id bms = map tc_id ?bg" by (auto dest: dispatch_ids)
  from 1 have f: "map tr_call_id (eb_messages fg) = map tc_id ?fg" by (auto dest: run_foreground_ids)
  let ?ms = "bms @ eb_messages fg"
  have ids: "map tr_call_id ?ms = map tc_id (?bg @ ?fg)" by (simp add: b f)
  have "mset (?bg @ ?fg) = mset ?tcs" by (simp add: multiset_partition [symmetric])
  then have "mset (map tc_id (?bg @ ?fg)) = mset (map tc_id ?tcs)" by (metis mset_map)
  with assms(2) have d: "distinct (map tr_call_id ?ms)"
    unfolding ids by (metis mset_eq_imp_distinct_iff)
  have "\<exists>m. aget (by_id ?ms) (tc_id tc) = Some m \<and> tr_call_id m = tc_id tc" if "tc \<in> set ?tcs" for tc
  proof -
    from that have "tc_id tc \<in> set (map tc_id (?bg @ ?fg))" by auto
    then have "tc_id tc \<in> set (map tr_call_id ?ms)" unfolding ids .
    then obtain m where "m \<in> set ?ms" "tr_call_id m = tc_id tc" unfolding set_map by (metis imageE)
    with aget_by_id [OF d] show ?thesis by metis
  qed
  then have "map tr_call_id (take_results ?tcs (by_id ?ms)) = map tc_id ?tcs"
    by (intro take_results_ids [OF assms(2)]) blast
  with 1 show ?thesis by simp
qed

text \<open>
  C3: Every tool call of the assistant message gets exactly one result, and the results come
  back in the order of the calls, whatever is background, sequential or parallel, denied,
  failing, aborted or cut off by the grace, and in whatever order the calls settle, provided
  the call ids of the message differ.
\<close>

theorem every_call_answered_once:
  assumes "execute_tool_calls env tools mode n am w (r, spawned, log, w')"
    and "distinct (map tc_id (tool_calls_of am))"
  shows "map tr_call_id (eb_messages r) = map tc_id (tool_calls_of am)"
  using assms by (rule execute_answers_ids)

definition two_calls :: assistant_message where
  "two_calls = calls_message [(U ''1'', U ''Read''), (U ''2'', U ''Gone'')]"

lemma two_calls_run:
  "\<exists>r log. execute_tool_calls quiet_loop [plain_tool (U ''Read'')] Sequential 4 two_calls () (r, [], log, ())"
proof -
  let ?t = "[plain_tool (U ''Read'')]"
  have none: "\<not> is_background_call ?t tc" for tc
    by (simp add: is_background_call_def find_tool_def plain_tool_def is_background_def)
  have calls: "tool_calls_of two_calls \<noteq> []" by code_simp
  have bg: "dispatch_background_tool_calls quiet_loop ?t two_calls
      (filter (is_background_call ?t) (tool_calls_of two_calls)) () = ([], [], [], ())"
    by (simp add: none)
  have ne: "filter (\<lambda>tc. \<not> is_background_call ?t tc) (tool_calls_of two_calls) \<noteq> []"
    using calls by (simp add: none)
  obtain fs ms log where "execute_tool_calls_sequential quiet_loop ?t two_calls
      (filter (\<lambda>tc. \<not> is_background_call ?t tc) (tool_calls_of two_calls)) () = (fs, ms, log, ())"
    by (cases "execute_tool_calls_sequential quiet_loop ?t two_calls
      (filter (\<lambda>tc. \<not> is_background_call ?t tc) (tool_calls_of two_calls)) ()") auto
  from execute_tool_calls.intros [OF bg one_by_one [OF ne disjI1 [OF refl] this]]
  show ?thesis by blast
qed

theorem every_call_answered_once_witness:
  "\<exists>r log. execute_tool_calls quiet_loop [plain_tool (U ''Read'')] Sequential 4 two_calls () (r, [], log, ())
     \<and> map tr_call_id (eb_messages r) = [U ''1'', U ''2'']"
proof -
  obtain r log where r: "execute_tool_calls quiet_loop [plain_tool (U ''Read'')] Sequential 4 two_calls () (r, [], log, ())"
    using two_calls_run by blast
  have ids: "map tc_id (tool_calls_of two_calls) = [U ''1'', U ''2'']" by code_simp
  then have "distinct (map tc_id (tool_calls_of two_calls))" by simp
  from every_call_answered_once [OF r this] ids have "map tr_call_id (eb_messages r) = [U ''1'', U ''2'']"
    by simp
  from conjI [OF r this] show ?thesis by (intro exI)
qed

text \<open>
  With two calls of the same id, the first takes the result of the second and the second
  goes without one.
\<close>

lemma same_id_loses_result:
  assumes "tr_call_id m1 = k" and "tr_call_id m2 = k" and "tc_id a = k" and "tc_id b = k"
  shows "take_results [a, b] (by_id [m1, m2]) = [m2]"
  using assms by (simp add: by_id_def adel_def)

section \<open>A refused call never runs\<close>

lemma denied_prepare:
  assumes "env_gate env = Some gate" and "\<And>w. \<exists>reason w'. gate w tc = (permission_decision.Deny reason, w')"
  shows "\<exists>r w'. prepare_tool_call env tools am tc w = (Immediate r True, w')"
proof -
  from assms(2) obtain reason w' where "gate w tc = (permission_decision.Deny reason, w')" by blast
  with assms(1) show ?thesis
    by (auto simp: prepare_tool_call_def ask_gate_def immediate_error_def Let_def
        split: option.splits sum.splits)
qed

lemma prepare_env_run: "prepare_tool_call (env\<lparr>env_run := x\<rparr>) tools am tc w = prepare_tool_call env tools am tc w"
  by (simp add: prepare_tool_call_def ask_gate_def call_before_def
      cong: option.case_cong sum.case_cong prod.case_cong)

lemma prepare_all_prepared:
  "prepare_all env tools am tcs w = (ps, log, w') \<Longrightarrow> i < length tcs \<Longrightarrow> ps ! i = Inr p \<Longrightarrow>
   \<exists>v v'. prepare_tool_call env tools am (tcs ! i) v = (Prepared p, v')"
proof (induction env tools am tcs w arbitrary: ps log w' i rule: prepare_all.induct)
  case (2 env tools am tc tcs w)
  obtain ab w1 where ab: "env_aborted env w = (ab, w1)" by fastforce
  obtain pr w2 where pr: "prepare_tool_call env tools am tc w1 = (pr, w2)" by fastforce
  show ?case
  proof (cases i)
    case 0
    with 2(4-6) ab pr have "pr = Prepared p"
      by (auto simp: Let_def split: prod.splits bool.splits preparation.splits)
    with pr 0 show ?thesis by auto
  next
    case (Suc j)
    obtain rs l v where rest: "prepare_all env tools am tcs (if ab then w1 else w2) = (rs, l, v)"
      by (metis prod_cases3)
    have "ps = hd ps # rs" using 2(4) ab pr rest
      by (cases ab; cases pr) (auto simp: Let_def)
    with 2(6) Suc have "rs ! j = Inr p" by (metis nth_Cons_Suc)
    moreover have "j < length tcs" using 2(5) Suc by simp
    ultimately show ?thesis
      using 2(1) [OF ab [symmetric]] 2(2, 3) ab pr rest Suc
      by (cases ab; cases pr) auto
  qed
qed simp

lemma dispatch_spawned:
  "dispatch_background_tool_calls env tools am tcs w = (ms, sp, log, w') \<Longrightarrow> p \<in> set sp \<Longrightarrow>
   \<exists>v v'. prepare_tool_call env tools am (p_call p) v = (Prepared p, v')"
proof (induction env tools am tcs w arbitrary: ms sp log w' rule: dispatch_background_tool_calls.induct)
  case (2 env tools am tc tcs w)
  have one: "dispatch_one env tools am tc v = (f, sp', v') \<Longrightarrow> p \<in> set sp' \<Longrightarrow>
      \<exists>v v'. prepare_tool_call env tools am (p_call p) v = (Prepared p, v')" for f sp' v v'
    by (auto simp: dispatch_one_def split: prod.splits bool.splits preparation.splits)
       (metis prepare_call)
  obtain f sp1 w1 where o1: "dispatch_one env tools am tc w = (f, sp1, w1)" by (metis prod_cases3)
  obtain now w2 where n: "env_now env w1 = (now, w2)" by fastforce
  obtain ms2 sp2 l2 w3 where rest: "dispatch_background_tool_calls env tools am tcs w2 = (ms2, sp2, l2, w3)"
    by (metis prod_cases4)
  from 2(2) o1 n rest have "sp = sp1 @ sp2" by (auto simp: Let_def)
  with 2(3) consider "p \<in> set sp1" | "p \<in> set sp2" by auto
  then show ?case
  proof cases
    case 1
    with o1 show ?thesis by (rule one)
  next
    case 2
    with "2.IH" [OF o1 [symmetric] refl n [symmetric] refl rest] show ?thesis by blast
  qed
qed simp

text \<open>
  C4: A call the permission gate denies never runs. Run in sequence, its outcome, events and
  world are the same whatever its tool would do; in a parallel batch it is never among the
  started calls, in any schedule; as a background call it is never spawned.
\<close>

theorem denied_call_never_runs:
  assumes "env_gate env = Some gate" and "\<And>w. \<exists>reason w'. gate w tc = (permission_decision.Deny reason, w')"
  shows "(\<forall>am w x. run_one (env\<lparr>env_run := x\<rparr>) tools am tc w = run_one env tools am tc w)
    \<and> (\<forall>am tcs w ps log w' n b i. prepare_all env tools am tcs w = (ps, log, w')
         \<and> batch_run env am ps (batch_start env n ps log w') b \<and> i < length tcs \<and> tcs ! i = tc
         \<longrightarrow> i \<notin> fst ` set (b_started b))
    \<and> (\<forall>am tcs w ms sp log w'. dispatch_background_tool_calls env tools am tcs w = (ms, sp, log, w')
         \<longrightarrow> tc \<notin> p_call ` set sp)"
proof (intro conjI allI impI)
  note d = denied_prepare [OF assms]
  show "run_one (env\<lparr>env_run := x\<rparr>) tools am tc w = run_one env tools am tc w" for am w x
  proof -
    obtain ab v where "env_aborted env w = (ab, v)" by fastforce
    moreover obtain r v' where "prepare_tool_call env tools am tc v = (Immediate r True, v')"
      using d by blast
    ultimately show ?thesis
      by (cases ab) (simp_all add: run_one_def prepare_env_run aborted_outcome_def)
  qed
  show "i \<notin> fst ` set (b_started b)"
    if a: "prepare_all env tools am tcs w = (ps, log, w')
         \<and> batch_run env am ps (batch_start env n ps log w') b \<and> i < length tcs \<and> tcs ! i = tc"
    for am tcs w ps log w' n b i
  proof
    assume "i \<in> fst ` set (b_started b)"
    then have "i \<in> set (map fst (b_started b) @ b_waiting b)" by simp
    moreover have "map fst (b_started b) @ b_waiting b = prepared_indices ps"
      using a batch_run_inv(1) [of env am ps n log w' b] by (simp add: batch_inv_def order_ok_def)
    ultimately have "i \<in> set (prepared_indices ps)" by simp
    then obtain p where "ps ! i = Inr p" by (cases "ps ! i") (auto simp: prepared_indices_def)
    with prepare_all_prepared [of env tools am tcs w ps log w' i p] a d show False
      by (metis Pair_inject preparation.distinct(1))
  qed
  show "tc \<notin> p_call ` set sp"
    if a: "dispatch_background_tool_calls env tools am tcs w = (ms, sp, log, w')" for am tcs w ms sp log w'
  proof
    assume "tc \<in> p_call ` set sp"
    then obtain p where "p \<in> set sp" "p_call p = tc" by auto
    with dispatch_spawned [OF a] d show False by (metis Pair_inject preparation.distinct(1))
  qed
qed

definition closed_gate :: "unit loop_env" where
  "closed_gate = quiet_loop\<lparr>env_gate := Some (\<lambda>w tc. (permission_decision.Deny (U ''no''), w))\<rparr>"

theorem denied_call_never_runs_witness:
  "\<exists>f. run_one (closed_gate\<lparr>env_run := (\<lambda>w p. undefined)\<rparr>) [plain_tool (U ''Read'')] two_calls (p_call (read_call (U ''1''))) ()
     = (f, [], ())"
proof -
  have "run_one (closed_gate\<lparr>env_run := (\<lambda>w p. undefined)\<rparr>) [plain_tool (U ''Read'')] two_calls (p_call (read_call (U ''1''))) ()
      = run_one closed_gate [plain_tool (U ''Read'')] two_calls (p_call (read_call (U ''1''))) ()"
    using denied_call_never_runs [of closed_gate "\<lambda>w tc. (permission_decision.Deny (U ''no''), w)" "p_call (read_call (U ''1''))" "[plain_tool (U ''Read'')]"]
    by (simp add: closed_gate_def)
  moreover have "\<exists>f. run_one closed_gate [plain_tool (U ''Read'')] two_calls (p_call (read_call (U ''1''))) () = (f, [], ())"
    by (auto simp: run_one_def closed_gate_def quiet_loop_def prepare_tool_call_def ask_gate_def
        immediate_error_def Let_def split: option.split)
  ultimately show ?thesis by simp
qed

text \<open>
  With hoocode's own gate in the loop: the world holds the gate's state, and a tool that the
  active mode denies is answered with the gate's reason.
\<close>

definition hoo_gate :: "gate_env \<Rightarrow> gate \<Rightarrow> gate_state \<Rightarrow> agent_tool_call \<Rightarrow> permission_decision \<times> gate_state" where
  "hoo_gate genv g st tc = gate_request genv g st (tc_name tc) (tc_arguments tc)"

lemma denied_tool_not_prepared:
  assumes "env_gate env = Some (hoo_gate genv g)"
    and "gate_check genv g st (tc_name tc) (tc_arguments tc) = (Some reason, st)"
  shows "\<exists>r w'. prepare_tool_call env tools am tc st = (Immediate r True, w')"
  using assms
  by (auto simp: prepare_tool_call_def ask_gate_def hoo_gate_def gate_request_def immediate_error_def Let_def
      split: option.splits sum.splits)

section \<open>Results do not depend on the order of settling\<close>

text \<open>A run with its trace: which call settled with which outcome, in order.\<close>

inductive batch_trace ::
  "'w loop_env \<Rightarrow> assistant_message \<Rightarrow> prepared_calls \<Rightarrow> 'w tool_batch \<Rightarrow> (nat \<times> executed_outcome) list \<Rightarrow> 'w tool_batch \<Rightarrow> bool"
  for env am ps b where
  start: "batch_trace env am ps b [] b"
| moves: "batch_trace env am ps b evs c \<Longrightarrow> batch_trace env am ps b evs (c\<lparr>b_world := w\<rparr>)"
| updates: "batch_trace env am ps b evs c \<Longrightarrow> (i, slot) \<in> set (b_running c) \<Longrightarrow>
    batch_trace env am ps b evs (c\<lparr>b_log := b_log c @ [update_event (p_call (projr (ps ! i))) r]\<rparr>)"
| settles: "batch_trace env am ps b evs c \<Longrightarrow> (i, slot) \<in> set (b_running c) \<Longrightarrow>
    batch_trace env am ps b (evs @ [(i, ex)]) (settle env am ps i slot ex d c)"

lemma batch_trace_run: "batch_trace env am ps b evs c \<Longrightarrow> batch_run env am ps b c"
  by (induction rule: batch_trace.induct)
     (auto simp: batch_run_def intro: batch_step.intros rtranclp.rtrancl_into_rtrancl)

text \<open>Without an \<open>afterToolCall\<close> hook a call that settled holds exactly its own outcome.\<close>

lemma trace_final:
  assumes "batch_trace env am ps (batch_start env n ps log w) evs c" and "env_after env = None"
  shows "i < length ps \<Longrightarrow>
    (case ps ! i of
       Inl f \<Rightarrow> b_final c ! i = Some f
     | Inr p \<Rightarrow> (case b_final c ! i of
           None \<Rightarrow> i \<notin> fst ` set evs
         | Some f \<Rightarrow> \<exists>ex. (i, ex) \<in> set evs \<and> f_result f = ex_result ex \<and> f_is_error f = ex_is_error ex
                     \<and> f_call f = p_call p))"
  using assms(1)
proof (induction rule: batch_trace.induct)
  case start
  then show ?case by (auto simp: final_of_def split: sum.splits)
next
  case (settles evs c j slot ex d)
  have inv: "batch_inv n ps c"
    by (rule batch_run_inv(1) [OF batch_trace_run [OF settles(1)]])
  note r = running_prepared [OF inv settles(2)]
  then obtain p where p: "ps ! j = Inr p" by (cases "ps ! j") auto
  have len: "length (b_final c) = length ps" using inv by (simp add: batch_inv_defs)
  have new: "b_final (settle env am ps j slot ex d c)
      = (b_final c)[j := Some ((immediate_outcome (p_call p) (ex_result ex) (ex_is_error ex))\<lparr>f_duration := Some d\<rparr>)]"
    using assms(2) p by (simp add: settle_final finalize_executed_tool_call_def)
  show ?case
  proof (cases "i = j")
    case True
    with p r len show ?thesis by (simp add: new) blast
  next
    case False
    with settles.IH settles.prems show ?thesis
      by (auto simp: new split: sum.splits option.splits)
  qed
qed (simp_all cong: sum.case_cong)

lemma trace_settled_distinct:
  assumes "batch_trace env am ps (batch_start env n ps log w) evs c"
  shows "distinct (map fst evs) \<and> (\<forall>i \<in> fst ` set evs. i < length ps \<and> b_final c ! i \<noteq> None)"
  using assms
proof (induction rule: batch_trace.induct)
  case (settles evs c j slot ex d)
  have inv: "batch_inv n ps c"
    by (rule batch_run_inv(1) [OF batch_trace_run [OF settles(1)]])
  note r = running_prepared [OF inv settles(2)]
  have len: "length (b_final c) = length ps" using inv by (simp add: batch_inv_defs)
  have "b_final c ! j = None"
    using inv settles(2) r by (force simp: batch_inv_def finals_ok_def)
  with settles.IH have "j \<notin> fst ` set evs" by auto
  with settles.IH r len show ?case
    by (auto simp: settle_final nth_list_update)
qed auto

text \<open>
  The results of a parallel batch do not depend on the order in which its calls settle.
  Two runs of the same prepared calls, in which all calls settled and each call had the same
  outcome in both, give the same results in the same order, whatever the slots, the
  interleaving with updates and the world did (without an \<open>afterToolCall\<close> hook, which might
  look at the world).
\<close>

theorem results_independent_of_order:
  assumes "batch_trace env am ps (batch_start env n ps log w) evs c"
    and "batch_trace env am ps (batch_start env n' ps log' w') evs' c'"
    and "env_after env = None" and "set evs = set evs'" and "same_calls tcs ps"
    and "None \<notin> set (b_final c)" and "None \<notin> set (b_final c')"
  shows "map (\<lambda>f. (f_call f, f_result f, f_is_error f)) (answers env tcs c)
       = map (\<lambda>f. (f_call f, f_result f, f_is_error f)) (answers env tcs c')"
proof (rule nth_equalityI)
  show "length (map (\<lambda>f. (f_call f, f_result f, f_is_error f)) (answers env tcs c))
      = length (map (\<lambda>f. (f_call f, f_result f, f_is_error f)) (answers env tcs c'))"
    by (simp add: answers_def)
next
  fix i assume "i < length (map (\<lambda>f. (f_call f, f_result f, f_is_error f)) (answers env tcs c))"
  then have i: "i < length tcs" by (simp add: answers_def)
  have lens: "length ps = length tcs" using assms(5) by (auto simp: same_calls_def)
  have len: "length (b_final c) = length ps" "length (b_final c') = length ps"
    using batch_run_inv(1) [OF batch_trace_run [OF assms(1)]] batch_run_inv(1) [OF batch_trace_run [OF assms(2)]]
    by (simp_all add: batch_inv_defs)
  from assms(6, 7) len lens i obtain f f' where f: "b_final c ! i = Some f" "b_final c' ! i = Some f'"
    by (metis nth_mem not_None_eq)
  have "f_call f = f_call f' \<and> f_result f = f_result f' \<and> f_is_error f = f_is_error f'"
  proof (cases "ps ! i")
    case (Inl g)
    with trace_final [OF assms(1, 3), of i] trace_final [OF assms(2, 3), of i] i lens f show ?thesis by simp
  next
    case (Inr p)
    with trace_final [OF assms(1, 3), of i] trace_final [OF assms(2, 3), of i] i lens f
    obtain ex ex' where ex: "(i, ex) \<in> set evs" "f_result f = ex_result ex" "f_is_error f = ex_is_error ex" "f_call f = p_call p"
      and ex': "(i, ex') \<in> set evs'" "f_result f' = ex_result ex'" "f_is_error f' = ex_is_error ex'" "f_call f' = p_call p"
      by auto
    from ex(1) ex'(1) assms(4) trace_settled_distinct [OF assms(1)] have "ex = ex'"
      by (metis eq_key_imp_eq_value)
    with ex ex' show ?thesis by simp
  qed
  with i f show "map (\<lambda>f. (f_call f, f_result f, f_is_error f)) (answers env tcs c) ! i
      = map (\<lambda>f. (f_call f, f_result f, f_is_error f)) (answers env tcs c') ! i"
    by (simp add: answers_def answer_def)
qed

lemma both_prepared: "prepare_all quiet_loop [plain_tool (U ''Read'')] two_reads (tool_calls_of two_reads) ()
    = (both_ready, map start_event (tool_calls_of two_reads), ())"
proof -
  have t: "tool_calls_of two_reads = [p_call (read_call (U ''1'')), p_call (read_call (U ''2''))]"
    by (simp add: tool_calls_of_def two_reads_def calls_message_def read_call_def List.map_filter_simps)
  show ?thesis
    unfolding t by (simp add: quiet_loop_def prepare_tool_call_def ask_gate_def call_before_def find_tool_def
        plain_tool_def read_call_def both_ready_def Let_def)
qed

theorem results_independent_of_order_witness:
  "\<exists>c c'. batch_trace quiet_loop two_reads both_ready ready2 [(0, says (U ''a'')), (Suc 0, says (U ''b''))] c
     \<and> batch_trace quiet_loop two_reads both_ready ready2 [(Suc 0, says (U ''b'')), (0, says (U ''a''))] c'
     \<and> map (\<lambda>f. (f_call f, f_result f, f_is_error f)) (answers quiet_loop (tool_calls_of two_reads) c)
       = map (\<lambda>f. (f_call f, f_result f, f_is_error f)) (answers quiet_loop (tool_calls_of two_reads) c')"
proof -
  let ?s = "settle quiet_loop two_reads both_ready"
  let ?c = "?s (Suc 0) False (says (U ''b'')) 7 (?s 0 False (says (U ''a'')) 7 ready2)"
  let ?d = "?s 0 False (says (U ''a'')) 7 (?s (Suc 0) False (says (U ''b'')) 7 ready2)"
  have m: "(0, False) \<in> set (b_running ready2)" "(Suc 0, False) \<in> set (b_running ready2)"
    "(Suc 0, False) \<in> set (b_running (?s 0 False (says (U ''a'')) 7 ready2))"
    "(0, False) \<in> set (b_running (?s (Suc 0) False (says (U ''b'')) 7 ready2))"
    by (simp_all add: ready2_eval)
  have t: "batch_trace quiet_loop two_reads both_ready ready2 [(0, says (U ''a'')), (Suc 0, says (U ''b''))] ?c"
    using settles [OF settles [OF start m(1), where ex = "says (U ''a'')" and d = 7] m(3),
        where ex = "says (U ''b'')" and d = 7] by simp
  have u: "batch_trace quiet_loop two_reads both_ready ready2 [(Suc 0, says (U ''b'')), (0, says (U ''a''))] ?d"
    using settles [OF settles [OF start m(2), where ex = "says (U ''b'')" and d = 7] m(4),
        where ex = "says (U ''a'')" and d = 7] by simp
  have same: "same_calls (tool_calls_of two_reads) both_ready"
    by (rule prepare_all_calls [OF both_prepared])
  have full: "None \<notin> set (b_final ?c)" "None \<notin> set (b_final ?d)"
    by (simp_all add: settle_final both_ready_def)
  have after: "env_after quiet_loop = None" by (simp add: quiet_loop_def)
  have "map (\<lambda>f. (f_call f, f_result f, f_is_error f)) (answers quiet_loop (tool_calls_of two_reads) ?c)
      = map (\<lambda>f. (f_call f, f_result f, f_is_error f)) (answers quiet_loop (tool_calls_of two_reads) ?d)"
    by (rule results_independent_of_order [OF t u after _ same full]) auto
  with t u show ?thesis by blast
qed

section \<open>Ordered starts\<close>

definition turnstile_run :: "nat \<Rightarrow> turnstile \<Rightarrow> bool" where
  "turnstile_run n t \<longleftrightarrow> (turnstile_step {..<n})\<^sup>*\<^sup>* turnstile_start t"

definition turnstile_inv :: "nat \<Rightarrow> turnstile \<Rightarrow> bool" where
  "turnstile_inv n t \<longleftrightarrow> ts_released t = [0 ..< ts_next t]
     \<and> (ts_begun t = [0 ..< ts_next t] \<or> ts_begun t = [0 ..< Suc (ts_next t)] \<and> ts_next t < n)
     \<and> ts_next t \<le> n"

lemma turnstile_step_inv: "turnstile_step {..<n} t t' \<Longrightarrow> turnstile_inv n t \<Longrightarrow> turnstile_inv n t'"
proof (induction rule: turnstile_step.induct)
  case (release s t)
  then have "s = ts_next t" "ts_begun t = [0 ..< Suc (ts_next t)]" "ts_next t < n"
    by (auto simp: turnstile_inv_def)
  with release show ?case by (simp add: turnstile_inv_def)
qed (auto simp: turnstile_inv_def)

text \<open>
  Ordered starts happen in turn and cannot deadlock. The calls that hold the turns
  \<open>0 .. n - 1\<close> begin exactly in that order, each only after the one before it reached its
  dispatch point or ended, so at most one of them is between its start and its dispatch
  point; and until all have passed, one of them can move.
\<close>

theorem ordered_starts_in_turn:
  assumes "turnstile_run n t"
  shows "ts_begun t = [0 ..< length (ts_begun t)] \<and> ts_released t = [0 ..< ts_next t]
    \<and> length (ts_begun t) \<le> Suc (ts_next t) \<and> ts_next t \<le> n
    \<and> (ts_next t < n \<longrightarrow> (\<exists>t'. turnstile_step {..<n} t t'))"
proof -
  have "turnstile_inv n turnstile_start" by (simp add: turnstile_inv_def turnstile_start_def)
  with assms have inv: "turnstile_inv n t"
    unfolding turnstile_run_def by (induction rule: rtranclp_induct) (auto intro: turnstile_step_inv)
  have "\<exists>t'. turnstile_step {..<n} t t'" if lt: "ts_next t < n"
  proof (cases "ts_begun t = [0 ..< ts_next t]")
    case True
    then have "turnstile_step {..<n} t (t\<lparr>ts_begun := ts_begun t @ [ts_next t]\<rparr>)"
      using lt by (intro wait_for) auto
    then show ?thesis by blast
  next
    case False
    with inv have "turnstile_step {..<n} t (t\<lparr>ts_next := ts_next t + 1, ts_released := ts_released t @ [ts_next t]\<rparr>)"
      by (intro release) (auto simp: turnstile_inv_def)
    then show ?thesis by blast
  qed
  with inv show ?thesis by (auto simp: turnstile_inv_def)
qed

theorem ordered_starts_in_turn_witness:
  "\<exists>t'. turnstile_step {..<2} turnstile_start t'"
  using ordered_starts_in_turn [of 2 turnstile_start]
  by (simp add: turnstile_run_def turnstile_start_def)

end
