(* ===== verification/Agent_Loop.thy ===== *)
theory Agent_Loop
  imports Agent_Batch
begin

text \<open>
  The run of the agent (\<^verbatim>\<open>crates/hoocode-agent-loop/src/lib.rs\<close>): \<open>run_agent_loop\<close> and
  \<open>run_loop_with_background\<close> as a step relation over the program points of the two nested
  loops, \<open>stream_assistant_response\<close>, the background task manager a run shares with the other
  runs of its session, and the registry of these managers.
\<close>

section \<open>The background task manager\<close>

datatype settled_task =
  ExecutedTask prepared_call assistant_message executed_outcome
| FailedTask ustr

text \<open>The calls in flight, each with its assistant message, and the results not yet collected.\<close>

record background =
  bg_inflight :: "(prepared_call \<times> assistant_message) list"
  bg_results :: "settled_task list"

definition no_background :: background where
  "no_background = \<lparr>bg_inflight = [], bg_results = []\<rparr>"

definition pending_count :: "background \<Rightarrow> nat" where
  "pending_count b = length (bg_inflight b)"

definition has_work :: "background \<Rightarrow> bool" where
  "has_work b \<longleftrightarrow> 0 < pending_count b \<or> bg_results b \<noteq> []"

definition drain_results :: "background \<Rightarrow> settled_task list \<times> background" where
  "drain_results b = (bg_results b, b\<lparr>bg_results := []\<rparr>)"

definition spawn :: "assistant_message \<Rightarrow> prepared_call \<Rightarrow> background \<Rightarrow> background" where
  "spawn am p b = b\<lparr>bg_inflight := bg_inflight b @ [(p, am)]\<rparr>"

text \<open>The end of a detached task: executed, or failed with a panic.\<close>

definition task_ends :: "nat \<Rightarrow> ustr + executed_outcome \<Rightarrow> background \<Rightarrow> background" where
  "task_ends k out b =
     (case bg_inflight b ! k of
        (p, am) \<Rightarrow>
          b\<lparr>bg_inflight := take k (bg_inflight b) @ drop (Suc k) (bg_inflight b),
            bg_results := bg_results b @ [case out of Inl e \<Rightarrow> FailedTask e | Inr ex \<Rightarrow> ExecutedTask p am ex]\<rparr>)"

definition create_default_background_result_message :: "finalized_outcome \<Rightarrow> int \<Rightarrow> agent_message" where
  "create_default_background_result_message f now =
     UserMsg \<lparr>um_content = UBlocks (text_block
         (U ''Background tool '' @ [34] @ tc_name (f_call f) @ [34] @ U '' (id '' @ tc_id (f_call f) @ U '') ''
          @ (if f_is_error f then U ''failed'' else U ''finished'') @ U '':'')
       # r_content (f_result f)), um_timestamp = now\<rparr>"

section \<open>The environment of a run\<close>

datatype thinking_level = Off | Minimal | Low | Medium | High | XHigh

record turn_settings =
  ts_model :: json
  ts_reasoning :: "thinking_level option"

record turn_context =
  turn_message :: assistant_message
  turn_results :: "tool_result_message list"
  turn_messages :: "agent_message list"
  turn_new :: "agent_message list"

record turn_update =
  up_context :: "(agent_message list \<times> agent_tool list) option"
  up_model :: "json option"
  up_thinking :: "thinking_level option"

text \<open>What the provider stream yields before its final message.\<close>

datatype stream_event = StreamStart assistant_message | StreamUpdate assistant_message | StreamDone

text \<open>
  \<open>rn_stream\<close> is the request: the context transform and conversion, the key, the provider. It
  fails, or gives the events and the final message.
\<close>

record 'w run_env = "'w loop_env" +
  rn_mode :: execution_mode
  rn_max_parallel :: nat
  rn_steering :: "('w \<Rightarrow> (ustr + agent_message list) \<times> 'w) option"
  rn_follow_up :: "('w \<Rightarrow> (ustr + agent_message list) \<times> 'w) option"
  rn_background_message :: "('w \<Rightarrow> finalized_outcome \<Rightarrow> agent_message \<times> 'w) option"
  rn_stream :: "'w \<Rightarrow> turn_settings \<Rightarrow> agent_message list \<Rightarrow> agent_tool list
       \<Rightarrow> (ustr + stream_event list \<times> assistant_message) \<times> 'w"
  rn_prepare_next :: "('w \<Rightarrow> turn_context \<Rightarrow> (ustr + turn_update option) \<times> 'w) option"
  rn_should_stop :: "('w \<Rightarrow> turn_context \<Rightarrow> (ustr + bool) \<times> 'w) option"

text \<open>The state of a run; \<open>ls_fault\<close> holds the error that ended it.\<close>

datatype point = Test bool | Waiting | Turn | Collect bool | FollowUp | Done | Fault ustr

record 'w run_state =
  ls_point :: point
  ls_world :: 'w
  ls_messages :: "agent_message list"
  ls_tools :: "agent_tool list"
  ls_new :: "agent_message list"
  ls_pending :: "agent_message list"
  ls_settings :: turn_settings
  ls_first :: bool
  ls_background :: background
  ls_log :: "agent_event list"

section \<open>Steps\<close>

definition loop_env_of :: "'w run_env \<Rightarrow> 'w loop_env" where
  "loop_env_of env = loop_env.truncate env"

definition background_result_message ::
  "'w run_env \<Rightarrow> settled_task \<Rightarrow> 'w \<Rightarrow> agent_message \<times> 'w" where
  "background_result_message env settled w =
     (case settled of
        FailedTask e \<Rightarrow>
          (case env_now env w of
             (now, w) \<Rightarrow>
               (UserMsg \<lparr>um_content = UBlocks [text_block (U ''A background tool failed unexpectedly: '' @ e)],
                  um_timestamp = now\<rparr>, w))
      | ExecutedTask p am ex \<Rightarrow>
          (case finalize_executed_tool_call (loop_env_of env) am p ex w of
             (f, w) \<Rightarrow>
               (case rn_background_message env of
                  Some mk \<Rightarrow> mk w f
                | None \<Rightarrow>
                    (case env_now env w of
                       (now, w) \<Rightarrow> (create_default_background_result_message f now, w)))))"

fun background_messages :: "'w run_env \<Rightarrow> settled_task list \<Rightarrow> 'w \<Rightarrow> agent_message list \<times> 'w" where
  "background_messages env [] w = ([], w)"
| "background_messages env (t # ts) w =
     (case background_result_message env t w of
        (m, w) \<Rightarrow> (case background_messages env ts w of (ms, w) \<Rightarrow> (m # ms, w)))"

text \<open>Finished background results first, then steering; a failing callback ends the run.\<close>

definition collect_pending_messages :: "'w run_env \<Rightarrow> 'w run_state \<Rightarrow> (ustr + agent_message list) \<times> 'w run_state" where
  "collect_pending_messages env s =
     (case drain_results (ls_background s) of
        (settled, b) \<Rightarrow>
          (case background_messages env settled (ls_world s) of
             (ms, w) \<Rightarrow>
               (case rn_steering env of
                  None \<Rightarrow> (Inr ms, s\<lparr>ls_background := b, ls_world := w\<rparr>)
                | Some get \<Rightarrow>
                    (case get w of
                       (Inl e, w) \<Rightarrow> (Inl e, s\<lparr>ls_background := b, ls_world := w\<rparr>)
                     | (Inr steer, w) \<Rightarrow> (Inr (ms @ steer), s\<lparr>ls_background := b, ls_world := w\<rparr>)))))"

definition get_follow_ups :: "'w run_env \<Rightarrow> 'w \<Rightarrow> (ustr + agent_message list) \<times> 'w" where
  "get_follow_ups env w = (case rn_follow_up env of None \<Rightarrow> (Inr [], w) | Some get \<Rightarrow> get w)"

text \<open>\<open>collect\<close>, then go on at a point, or end with the error.\<close>

definition collect_to :: "'w run_env \<Rightarrow> point \<Rightarrow> 'w run_state \<Rightarrow> 'w run_state" where
  "collect_to env p s =
     (case collect_pending_messages env s of
        (Inl e, s) \<Rightarrow> s\<lparr>ls_point := Fault e\<rparr>
      | (Inr ms, s) \<Rightarrow> s\<lparr>ls_point := p, ls_pending := ms\<rparr>)"

definition emit_all :: "agent_event list \<Rightarrow> 'w run_state \<Rightarrow> 'w run_state" where
  "emit_all evs s = s\<lparr>ls_log := ls_log s @ evs\<rparr>"

definition announce :: "agent_message \<Rightarrow> agent_event list" where
  "announce m = [MessageStart m, MessageEnd m]"

text \<open>Each pending message is announced and joins the context and the new messages.\<close>

definition take_pending :: "'w run_state \<Rightarrow> 'w run_state" where
  "take_pending s =
     s\<lparr>ls_log := ls_log s @ concat (map announce (ls_pending s)),
       ls_messages := ls_messages s @ ls_pending s, ls_new := ls_new s @ ls_pending s, ls_pending := []\<rparr>"

text \<open>The stream: the events up to the end, and whether a partial message was added.\<close>

fun stream_events :: "stream_event list \<Rightarrow> agent_message list \<Rightarrow> bool \<Rightarrow> agent_event list
     \<Rightarrow> agent_message list \<times> bool \<times> agent_event list" where
  "stream_events [] msgs added log = (msgs, added, log)"
| "stream_events (StreamStart m # evs) msgs added log =
     stream_events evs (msgs @ [AssistantMsg m]) True (log @ [MessageStart (AssistantMsg m)])"
| "stream_events (StreamUpdate m # evs) msgs added log =
     stream_events evs msgs added (if added then log @ [MessageUpdate m] else log)"
| "stream_events (StreamDone # evs) msgs added log = (msgs, added, log)"

definition finish_response ::
  "assistant_message \<Rightarrow> agent_message list \<times> bool \<times> agent_event list \<Rightarrow> agent_message list \<times> agent_event list" where
  "finish_response m r =
     (case r of
        (msgs, added, log) \<Rightarrow>
          if added then
            ((if msgs = [] then [] else butlast msgs @ [AssistantMsg m]), log @ [MessageEnd (AssistantMsg m)])
          else (msgs @ [AssistantMsg m], log @ announce (AssistantMsg m)))"

definition stream_assistant_response ::
  "'w run_env \<Rightarrow> 'w run_state \<Rightarrow> (ustr + assistant_message) \<times> 'w run_state" where
  "stream_assistant_response env s =
     (case rn_stream env (ls_world s) (ls_settings s) (ls_messages s) (ls_tools s) of
        (Inl e, w) \<Rightarrow> (Inl e, s\<lparr>ls_world := w\<rparr>)
      | (Inr (evs, m), w) \<Rightarrow>
          (case finish_response m (stream_events evs (ls_messages s) False []) of
             (msgs, log) \<Rightarrow> (Inr m, s\<lparr>ls_world := w, ls_messages := msgs, ls_log := ls_log s @ log\<rparr>)))"

definition apply_turn_update :: "turn_update \<Rightarrow> 'w run_state \<Rightarrow> 'w run_state" where
  "apply_turn_update u s =
     (let s = (case up_context u of None \<Rightarrow> s | Some (ms, ts) \<Rightarrow> s\<lparr>ls_messages := ms, ls_tools := ts\<rparr>);
          s = (case up_model u of None \<Rightarrow> s | Some m \<Rightarrow> s\<lparr>ls_settings := (ls_settings s)\<lparr>ts_model := m\<rparr>\<rparr>)
      in case up_thinking u of
           None \<Rightarrow> s
         | Some Off \<Rightarrow> s\<lparr>ls_settings := (ls_settings s)\<lparr>ts_reasoning := None\<rparr>\<rparr>
         | Some l \<Rightarrow> s\<lparr>ls_settings := (ls_settings s)\<lparr>ts_reasoning := Some l\<rparr>\<rparr>)"

text \<open>The end of a turn: \<open>TurnEnd\<close>, \<open>prepareNextTurn\<close>, \<open>shouldStopAfterTurn\<close>.\<close>

definition end_turn ::
  "'w run_env \<Rightarrow> assistant_message \<Rightarrow> tool_result_message list \<Rightarrow> bool \<Rightarrow> 'w run_state \<Rightarrow> 'w run_state" where
  "end_turn env m results has_more s =
     (let s = emit_all [TurnEnd m results] s;
          turn = (\<lambda>s. \<lparr>turn_message = m, turn_results = results, turn_messages = ls_messages s, turn_new = ls_new s\<rparr>);
          prepared =
            (case rn_prepare_next env of
               None \<Rightarrow> Inr s
             | Some prepare \<Rightarrow>
                 (case prepare (ls_world s) (turn s) of
                    (Inl e, w) \<Rightarrow> Inl (s\<lparr>ls_world := w, ls_point := Fault e\<rparr>)
                  | (Inr None, w) \<Rightarrow> Inr (s\<lparr>ls_world := w\<rparr>)
                  | (Inr (Some u), w) \<Rightarrow> Inr (apply_turn_update u (s\<lparr>ls_world := w\<rparr>))))
      in case prepared of
           Inl s \<Rightarrow> s
         | Inr s \<Rightarrow>
             (case rn_should_stop env of
                None \<Rightarrow> s\<lparr>ls_point := Collect has_more\<rparr>
              | Some stop \<Rightarrow>
                  (case stop (ls_world s) (turn s) of
                     (Inl e, w) \<Rightarrow> s\<lparr>ls_world := w, ls_point := Fault e\<rparr>
                   | (Inr True, w) \<Rightarrow> s\<lparr>ls_world := w, ls_point := Done\<rparr>
                   | (Inr False, w) \<Rightarrow> s\<lparr>ls_world := w, ls_point := Collect has_more\<rparr>)))"

text \<open>The batch's results join the context and the new messages; its background calls are in flight.\<close>

definition add_results ::
  "assistant_message \<Rightarrow> executed_batch \<Rightarrow> prepared_call list \<Rightarrow> agent_event list \<Rightarrow> 'w \<Rightarrow> 'w run_state \<Rightarrow> 'w run_state" where
  "add_results am batch spawned log w s =
     s\<lparr>ls_world := w, ls_log := ls_log s @ log,
       ls_messages := ls_messages s @ map ToolResultMsg (eb_messages batch),
       ls_new := ls_new s @ map ToolResultMsg (eb_messages batch),
       ls_background := foldl (\<lambda>b p. spawn am p b) (ls_background s) spawned\<rparr>"

definition has_tool_calls :: "assistant_message \<Rightarrow> bool" where
  "has_tool_calls m \<longleftrightarrow> (\<exists>c \<in> set (am_content m). case c of CToolCall _ \<Rightarrow> True | _ \<Rightarrow> False)"

definition stopped :: "assistant_message \<Rightarrow> bool" where
  "stopped m \<longleftrightarrow> am_stop_reason m = ErrorStop \<or> am_stop_reason m = Aborted"

text \<open>The start of a turn: \<open>TurnStart\<close> unless it is the first, the pending messages, the response.\<close>

definition open_turn :: "'w run_env \<Rightarrow> 'w run_state \<Rightarrow> (ustr + assistant_message) \<times> 'w run_state" where
  "open_turn env s =
     stream_assistant_response env
       (take_pending (emit_all (if ls_first s then [] else [TurnStart]) (s\<lparr>ls_first := False\<rparr>)))"

inductive run_step :: "'w run_env \<Rightarrow> 'w run_state \<Rightarrow> 'w run_state \<Rightarrow> bool" for env where
  world_moves: "run_step env s (s\<lparr>ls_world := w\<rparr>)"
| task_settles: "k < length (bg_inflight (ls_background s)) \<Longrightarrow>
    run_step env s (s\<lparr>ls_background := task_ends k out (ls_background s)\<rparr>)"
| test_wait: "ls_point s = Test False \<Longrightarrow> ls_pending s = [] \<Longrightarrow> has_work (ls_background s) \<Longrightarrow>
    run_step env s (s\<lparr>ls_point := Waiting\<rparr>)"
| test_turn: "ls_point s = Test m \<Longrightarrow> m \<or> ls_pending s \<noteq> [] \<Longrightarrow> run_step env s (s\<lparr>ls_point := Turn\<rparr>)"
| test_leave: "ls_point s = Test False \<Longrightarrow> ls_pending s = [] \<Longrightarrow> \<not> has_work (ls_background s) \<Longrightarrow>
    run_step env s (s\<lparr>ls_point := FollowUp\<rparr>)"
| wait_over: "ls_point s = Waiting \<Longrightarrow> collect_to env Turn s = s1 \<Longrightarrow> ls_point s1 = Turn \<Longrightarrow> ls_pending s1 \<noteq> [] \<Longrightarrow>
    run_step env s s1"
| wait_fault: "ls_point s = Waiting \<Longrightarrow> collect_to env Turn s = s1 \<Longrightarrow> ls_point s1 = Fault e \<Longrightarrow> run_step env s s1"
| wait_follow_up: "ls_point s = Waiting \<Longrightarrow> collect_to env Turn s = s1 \<Longrightarrow> ls_point s1 = Turn \<Longrightarrow> ls_pending s1 = [] \<Longrightarrow>
    get_follow_ups env (ls_world s1) = (Inr ms, w) \<Longrightarrow>
    run_step env s (s1\<lparr>ls_world := w, ls_pending := ms, ls_point := (if ms = [] then Test False else Turn)\<rparr>)"
| wait_follow_up_fault: "ls_point s = Waiting \<Longrightarrow> collect_to env Turn s = s1 \<Longrightarrow> ls_point s1 = Turn \<Longrightarrow> ls_pending s1 = [] \<Longrightarrow>
    get_follow_ups env (ls_world s1) = (Inl e, w) \<Longrightarrow>
    run_step env s (s1\<lparr>ls_world := w, ls_point := Fault e\<rparr>)"
| turn_fault: "ls_point s = Turn \<Longrightarrow> open_turn env s = (Inl e, s1) \<Longrightarrow> run_step env s (s1\<lparr>ls_point := Fault e\<rparr>)"
| turn_stopped: "ls_point s = Turn \<Longrightarrow> open_turn env s = (Inr m, s1) \<Longrightarrow> stopped m \<Longrightarrow>
    run_step env s ((emit_all [TurnEnd m []] (s1\<lparr>ls_new := ls_new s1 @ [AssistantMsg m]\<rparr>))\<lparr>ls_point := Done\<rparr>)"
| turn_plain: "ls_point s = Turn \<Longrightarrow> open_turn env s = (Inr m, s1) \<Longrightarrow> \<not> stopped m \<Longrightarrow> \<not> has_tool_calls m \<Longrightarrow>
    run_step env s (end_turn env m [] False (s1\<lparr>ls_new := ls_new s1 @ [AssistantMsg m]\<rparr>))"
| turn_tools: "ls_point s = Turn \<Longrightarrow> open_turn env s = (Inr m, s1) \<Longrightarrow> \<not> stopped m \<Longrightarrow> has_tool_calls m \<Longrightarrow>
    execute_tool_calls (loop_env_of env) (ls_tools s1) (rn_mode env) (rn_max_parallel env) m (ls_world s1)
      (batch, spawned, log, w) \<Longrightarrow>
    run_step env s (end_turn env m (eb_messages batch) (\<not> eb_terminate batch)
      (add_results m batch spawned log w (s1\<lparr>ls_new := ls_new s1 @ [AssistantMsg m]\<rparr>)))"
| collect: "ls_point s = Collect m \<Longrightarrow> run_step env s (collect_to env (Test m) s)"
| follow_up: "ls_point s = FollowUp \<Longrightarrow> get_follow_ups env (ls_world s) = (Inr ms, w) \<Longrightarrow>
    run_step env s (s\<lparr>ls_world := w, ls_pending := ms, ls_point := (if ms = [] then Done else Test True)\<rparr>)"
| follow_up_fault: "ls_point s = FollowUp \<Longrightarrow> get_follow_ups env (ls_world s) = (Inl e, w) \<Longrightarrow>
    run_step env s (s\<lparr>ls_world := w, ls_point := Fault e\<rparr>)"

text \<open>
  \<open>run_agent_loop\<close>: the prompts are announced and join the context, then the first messages
  are collected. \<open>run_agent_loop_continue\<close> is the same without prompts.
\<close>

definition run_start ::
  "'w run_env \<Rightarrow> turn_settings \<Rightarrow> agent_tool list \<Rightarrow> agent_message list \<Rightarrow> agent_message list \<Rightarrow> background \<Rightarrow> 'w \<Rightarrow> 'w run_state" where
  "run_start env settings tools messages prompts b w =
     collect_to env (Test True)
       \<lparr>ls_point = Test True, ls_world = w, ls_messages = messages @ prompts, ls_tools = tools,
        ls_new = prompts, ls_pending = [], ls_settings = settings, ls_first = True, ls_background = b,
        ls_log = [AgentStart, TurnStart] @ concat (map announce prompts)\<rparr>"

definition check_continuable :: "agent_message list \<Rightarrow> ustr option" where
  "check_continuable messages =
     (if messages = [] then Some (U ''Cannot continue: no messages in context'')
      else (case last messages of
              AssistantMsg _ \<Rightarrow> Some (U ''Cannot continue from message role: assistant'')
            | _ \<Rightarrow> None))"

definition run_to :: "'w run_env \<Rightarrow> 'w run_state \<Rightarrow> 'w run_state \<Rightarrow> bool" where
  "run_to env = (run_step env)\<^sup>*\<^sup>*"

text \<open>\<open>run_loop\<close> ends with \<open>AgentEnd\<close>, unless the run failed.\<close>

definition final_log :: "'w run_state \<Rightarrow> agent_event list" where
  "final_log s = (if ls_point s = Done then ls_log s @ [AgentEnd (ls_new s)] else ls_log s)"

end
