(* ===== verification/Agent_Loop_Properties.thy ===== *)
theory Agent_Loop_Properties
  imports Agent_Properties Agent_Loop
begin

text \<open>
  Properties of whole runs of the agent loop: the new messages are a conversation in which
  every tool call is answered in place, they are the messages appended to the context, and
  each of them is announced exactly once.
\<close>

section \<open>What a step changes\<close>

lemma collect_pending_fields:
  "collect_pending_messages env s = (r, s') \<Longrightarrow>
     ls_new s' = ls_new s \<and> ls_messages s' = ls_messages s \<and> ls_log s' = ls_log s
     \<and> ls_pending s' = ls_pending s \<and> ls_point s' = ls_point s \<and> ls_tools s' = ls_tools s"
  by (auto simp: collect_pending_messages_def drain_results_def split: prod.splits option.splits sum.splits)

lemma collect_to_fields [simp]:
  "ls_new (collect_to env p s) = ls_new s" "ls_messages (collect_to env p s) = ls_messages s"
  "ls_log (collect_to env p s) = ls_log s" "ls_tools (collect_to env p s) = ls_tools s"
  by (auto simp: collect_to_def dest!: collect_pending_fields split: prod.split sum.split)

lemma emit_keeps [simp]:
  "ls_new (emit_all evs s) = ls_new s" "ls_messages (emit_all evs s) = ls_messages s"
  "ls_pending (emit_all evs s) = ls_pending s" "ls_log (emit_all evs s) = ls_log s @ evs"
  by (simp_all add: emit_all_def)

lemma apply_turn_update_fields [simp]:
  "ls_new (apply_turn_update u s) = ls_new s" "ls_pending (apply_turn_update u s) = ls_pending s"
  "ls_log (apply_turn_update u s) = ls_log s"
  by (auto simp: apply_turn_update_def Let_def split: option.split thinking_level.split)

lemma end_turn_fields [simp]:
  "ls_new (end_turn env m rs more_calls s) = ls_new s"
  "ls_pending (end_turn env m rs more_calls s) = ls_pending s"
  "ls_log (end_turn env m rs more_calls s) = ls_log s @ [TurnEnd m rs]"
  by (auto simp: end_turn_def Let_def split: option.split sum.split prod.split bool.split)

lemma end_turn_messages:
  "rn_prepare_next env = None \<Longrightarrow> ls_messages (end_turn env m rs more_calls s) = ls_messages s"
  by (auto simp: end_turn_def Let_def split: option.split sum.split prod.split bool.split)

lemma add_results_fields [simp]:
  "ls_new (add_results am b sp log w s) = ls_new s @ map ToolResultMsg (eb_messages b)"
  "ls_messages (add_results am b sp log w s) = ls_messages s @ map ToolResultMsg (eb_messages b)"
  "ls_pending (add_results am b sp log w s) = ls_pending s"
  "ls_log (add_results am b sp log w s) = ls_log s @ log"
  by (simp_all add: add_results_def)

lemma take_pending_fields [simp]:
  "ls_new (take_pending s) = ls_new s @ ls_pending s" "ls_pending (take_pending s) = []"
  "ls_messages (take_pending s) = ls_messages s @ ls_pending s"
  "ls_log (take_pending s) = ls_log s @ concat (map announce (ls_pending s))"
  by (simp_all add: take_pending_def)

lemma open_turn_fields:
  assumes "open_turn env s = (r, s')"
  shows "ls_new s' = ls_new s @ ls_pending s" and "ls_pending s' = []"
  using assms
  by (auto simp: open_turn_def stream_assistant_response_def split: prod.splits sum.splits)

section \<open>The new messages are a conversation\<close>

text \<open>Neither an assistant message nor a tool result.\<close>

definition plain_message :: "agent_message \<Rightarrow> bool" where
  "plain_message m \<longleftrightarrow> (case m of AssistantMsg _ \<Rightarrow> False | ToolResultMsg _ \<Rightarrow> False | _ \<Rightarrow> True)"

definition answered_id :: "agent_message \<Rightarrow> ustr option" where
  "answered_id m = (case m of ToolResultMsg t \<Rightarrow> Some (tr_call_id t) | _ \<Rightarrow> None)"

text \<open>
  Every response that asks for tools is followed by the results of its calls, in call order;
  no result stands anywhere else.
\<close>

fun conversation :: "agent_message list \<Rightarrow> bool" where
  "conversation [] \<longleftrightarrow> True"
| "conversation (m # ms) \<longleftrightarrow>
     (case m of
        AssistantMsg a \<Rightarrow>
          (if stopped a then conversation ms
           else (let n = length (tool_calls_of a) in
                 map answered_id (take n ms) = map (Some \<circ> tc_id) (tool_calls_of a)
                 \<and> conversation (drop n ms)))
      | ToolResultMsg _ \<Rightarrow> False
      | _ \<Rightarrow> conversation ms)"

lemma conversation_append: "conversation xs \<Longrightarrow> conversation ys \<Longrightarrow> conversation (xs @ ys)"
proof (induction xs rule: conversation.induct)
  case (2 m ms)
  show ?case
  proof (cases m)
    case (AssistantMsg a)
    show ?thesis
    proof (cases "stopped a")
      case False
      let ?n = "length (tool_calls_of a)"
      from 2(8) AssistantMsg False have ids:
        "map answered_id (take ?n ms) = map (Some \<circ> tc_id) (tool_calls_of a)"
        and rest: "conversation (drop ?n ms)"
        by (auto simp: Let_def)
      from arg_cong [OF ids, of length] have "?n \<le> length ms" by simp
      with ids 2(3) [OF AssistantMsg False refl rest 2(9)] AssistantMsg False show ?thesis
        by (simp add: Let_def)
    qed (use 2 AssistantMsg in auto)
  qed (use 2 in auto)
qed simp

lemma conversation_plain: "\<forall>m \<in> set ms. plain_message m \<Longrightarrow> conversation ms"
  by (induction ms) (auto simp: plain_message_def split: agent_message.splits)

lemma conversation_exchange:
  assumes "map tr_call_id rs = map tc_id (tool_calls_of a)" and "\<not> stopped a"
  shows "conversation (AssistantMsg a # map ToolResultMsg rs)"
proof -
  from arg_cong [OF assms(1), of length] have "length rs = length (tool_calls_of a)" by simp
  moreover have "map (answered_id \<circ> ToolResultMsg) rs = map Some (map tr_call_id rs)"
    by (simp add: answered_id_def)
  ultimately show ?thesis using assms by (simp add: Let_def)
qed

lemma no_tool_calls: "\<not> has_tool_calls m \<Longrightarrow> tool_calls_of m = []"
  by (auto simp: has_tool_calls_def tool_calls_of_def map_filter_def filter_empty_conv split: content.splits)

lemma conversation_response: "stopped a \<or> \<not> has_tool_calls a \<Longrightarrow> conversation [AssistantMsg a]"
  by (auto simp: no_tool_calls)

text \<open>The queues and the background messages hold no assistant messages and no tool results.\<close>

definition plain_sources :: "'w run_env \<Rightarrow> bool" where
  "plain_sources env \<longleftrightarrow>
     (\<forall>get w ms w'. (rn_steering env = Some get \<or> rn_follow_up env = Some get) \<and> get w = (Inr ms, w')
        \<longrightarrow> (\<forall>m \<in> set ms. plain_message m))
     \<and> (\<forall>mk w f. rn_background_message env = Some mk \<longrightarrow> plain_message (fst (mk w f)))"

text \<open>The calls of a response have different ids.\<close>

definition distinct_call_ids :: "'w run_env \<Rightarrow> bool" where
  "distinct_call_ids env \<longleftrightarrow>
     (\<forall>w st ms ts evs m w'. rn_stream env w st ms ts = (Inr (evs, m), w') \<longrightarrow> distinct (map tc_id (tool_calls_of m)))"

lemma background_message_plain:
  assumes "plain_sources env" and "background_result_message env t w = (m, w')"
  shows "plain_message m"
proof -
  from assms(1) have mk: "rn_background_message env = Some mk \<Longrightarrow> mk v f = (m, v') \<Longrightarrow> plain_message m"
    for mk v f v' unfolding plain_sources_def by (metis fst_conv)
  from assms(2) mk show ?thesis
    by (auto simp: background_result_message_def plain_message_def create_default_background_result_message_def
        split: settled_task.splits prod.splits option.splits)
qed

lemma background_messages_plain:
  "plain_sources env \<Longrightarrow> background_messages env ts w = (ms, w') \<Longrightarrow> \<forall>m \<in> set ms. plain_message m"
  by (induction env ts w arbitrary: ms w' rule: background_messages.induct)
     (auto dest: background_message_plain split: prod.splits)

lemma queue_plain:
  "plain_sources env \<Longrightarrow> rn_steering env = Some get \<or> rn_follow_up env = Some get \<Longrightarrow> get w = (Inr ms, w') \<Longrightarrow>
   \<forall>m \<in> set ms. plain_message m"
  unfolding plain_sources_def by blast

lemma collect_pending_plain:
  assumes "plain_sources env" and "collect_pending_messages env s = (Inr ms, s')"
  shows "\<forall>m \<in> set ms. plain_message m"
proof -
  have "m \<in> set xs \<Longrightarrow> background_messages env ts v = (xs, v') \<Longrightarrow> plain_message m"
    and "m \<in> set xs \<Longrightarrow> rn_steering env = Some get \<Longrightarrow> get v = (Inr xs, v') \<Longrightarrow> plain_message m"
    for m xs ts v v' get
    using background_messages_plain [OF assms(1)] queue_plain [OF assms(1)] by blast+
  with assms(2) show ?thesis
    by (auto simp: collect_pending_messages_def split: prod.splits option.splits sum.splits)
qed

lemma follow_ups_plain:
  "plain_sources env \<Longrightarrow> get_follow_ups env w = (Inr ms, w') \<Longrightarrow> \<forall>m \<in> set ms. plain_message m"
  by (auto simp: get_follow_ups_def plain_sources_def split: option.splits)

lemma collect_to_plain:
  assumes "plain_sources env" and "\<forall>m \<in> set (ls_pending s). plain_message m"
  shows "\<forall>m \<in> set (ls_pending (collect_to env p s)). plain_message m"
  using assms
  by (cases "collect_pending_messages env s"; cases "fst (collect_pending_messages env s)")
     (auto simp: collect_to_def dest: collect_pending_fields collect_pending_plain)

definition conversation_inv :: "'w run_state \<Rightarrow> bool" where
  "conversation_inv s \<longleftrightarrow> conversation (ls_new s) \<and> (\<forall>m \<in> set (ls_pending s). plain_message m)"

lemma conversation_add:
  "conversation_inv s \<Longrightarrow> conversation ys \<Longrightarrow> conversation ((ls_new s @ ls_pending s) @ ys)"
  by (simp add: conversation_inv_def conversation_append conversation_plain del: append_assoc)

lemma open_turn_ids:
  "distinct_call_ids env \<Longrightarrow> open_turn env s = (Inr m, s') \<Longrightarrow> distinct (map tc_id (tool_calls_of m))"
  unfolding distinct_call_ids_def
  by (auto simp: open_turn_def stream_assistant_response_def split: prod.splits sum.splits) blast

lemma run_step_conversation:
  assumes "run_step env s s'" and "plain_sources env" and "distinct_call_ids env" and "conversation_inv s"
  shows "conversation_inv s'"
  using assms(1)
proof cases
  case (turn_fault e s1)
  with open_turn_fields [OF turn_fault(3)] conversation_add [OF assms(4), of "[]"] show ?thesis
    by (simp add: conversation_inv_def)
next
  case (turn_stopped m s1)
  with open_turn_fields [OF turn_stopped(3)] conversation_add [OF assms(4) conversation_response, of m]
  show ?thesis by (simp add: conversation_inv_def)
next
  case (turn_plain m s1)
  with open_turn_fields [OF turn_plain(3)] conversation_add [OF assms(4) conversation_response, of m]
  show ?thesis by (simp add: conversation_inv_def)
next
  case (turn_tools m s1 batch spawned log w)
  note ids = execute_answers_ids [OF turn_tools(6) open_turn_ids [OF assms(3) turn_tools(3)]]
  from open_turn_fields [OF turn_tools(3)] conversation_add [OF assms(4) conversation_exchange [OF ids turn_tools(4)]]
  show ?thesis by (simp add: turn_tools(1) conversation_inv_def)
qed (use assms(2, 4) in \<open>auto simp: conversation_inv_def collect_to_plain dest: follow_ups_plain\<close>)

section \<open>A closed run\<close>

text \<open>A provider that asks for two tools and, once it sees a result, says it is done.\<close>

definition done_message :: assistant_message where
  "done_message = (calls_message [])\<lparr>am_content := [text_block (U ''done'')], am_stop_reason := Stop\<rparr>"

definition quiet_run :: "unit run_env" where
  "quiet_run = loop_env.extend quiet_loop
     (run_env.fields Sequential 4 None None None
        (\<lambda>w st ms ts. (Inr ([StreamDone], if answered_id (last ms) = None then two_calls else done_message), w))
        None None)"

definition hello :: agent_message where
  "hello = UserMsg \<lparr>um_content = UBlocks [text_block (U ''hello'')], um_timestamp = 0\<rparr>"

definition quiet_start :: "unit run_state" where
  "quiet_start = run_start quiet_run \<lparr>ts_model = JNull, ts_reasoning = None\<rparr> [plain_tool (U ''Read'')] [] [hello]
     no_background ()"

lemma quiet_run_fields [simp]:
  "rn_mode quiet_run = Sequential" "rn_max_parallel quiet_run = 4" "rn_steering quiet_run = None"
  "rn_follow_up quiet_run = None" "rn_background_message quiet_run = None"
  "rn_prepare_next quiet_run = None" "rn_should_stop quiet_run = None"
  "rn_stream quiet_run w st ms ts =
     (Inr ([StreamDone], if answered_id (last ms) = None then two_calls else done_message), w)"
  "loop_env_of quiet_run = quiet_loop"
  by (simp_all add: quiet_run_def loop_env.defs run_env.defs loop_env_of_def quiet_loop_def)

lemma quiet_run_ok: "plain_sources quiet_run" "distinct_call_ids quiet_run" "plain_message hello"
proof -
  have "distinct (map tc_id (tool_calls_of two_calls))" "distinct (map tc_id (tool_calls_of done_message))"
    by code_simp+
  then show "distinct_call_ids quiet_run" by (simp add: distinct_call_ids_def)
qed (simp_all add: plain_sources_def hello_def plain_message_def)

lemma quiet_run_reaches:
  "\<exists>s. run_to quiet_run quiet_start s \<and> length (ls_new s) = 4"
proof -
  obtain r log where ex: "execute_tool_calls quiet_loop [plain_tool (U ''Read'')] Sequential 4 two_calls () (r, [], log, ())"
    using two_calls_run by blast
  have ids: "map tc_id (tool_calls_of two_calls) = [U ''1'', U ''2'']" by code_simp
  have len: "length (eb_messages r) = 2" 
    using arg_cong [OF execute_answers_ids [OF ex], of length] ids by simp
  have start: "ls_point quiet_start = Test True" "ls_new quiet_start = [hello]" "ls_pending quiet_start = []"
    "ls_messages quiet_start = [hello]" "ls_tools quiet_start = [plain_tool (U ''Read'')]"
    by (simp_all add: quiet_start_def run_start_def collect_to_def collect_pending_messages_def
        drain_results_def no_background_def)
  let ?s = "quiet_start\<lparr>ls_point := Turn\<rparr>"
  have s1: "run_step quiet_run quiet_start ?s"
    by (rule run_step.test_turn [where m = True]) (simp_all add: start)
  obtain s1 where o: "open_turn quiet_run ?s = (Inr two_calls, s1)" and n: "ls_new s1 = [hello]"
    "ls_tools s1 = [plain_tool (U ''Read'')]"
    by (simp add: open_turn_def stream_assistant_response_def start take_pending_def emit_all_def hello_def
        answered_id_def finish_response_def)
  have "has_tool_calls two_calls" "\<not> stopped two_calls" by code_simp+
  let ?t = "end_turn quiet_run two_calls (eb_messages r) (\<not> eb_terminate r)
      (add_results two_calls r [] log () (s1\<lparr>ls_new := ls_new s1 @ [AssistantMsg two_calls]\<rparr>))"
  from run_step.turn_tools [OF _ o, of r "[]" log "()"] \<open>has_tool_calls two_calls\<close> \<open>\<not> stopped two_calls\<close> ex n
  have "run_step quiet_run ?s ?t" by simp
  with s1 have "run_to quiet_run quiet_start ?t"
    unfolding run_to_def by (meson r_into_rtranclp rtranclp.rtrancl_into_rtrancl)
  moreover have "length (ls_new ?t) = 4" by (simp add: n len)
  ultimately show ?thesis by blast
qed

section \<open>The conversation\<close>

text \<open>
  C5: Every run builds a well-formed conversation. When the prompts of the run, the steering and
  follow-up queues and the texts formatted for background results are no assistant messages and
  no tool results, and the calls of a response have different ids, then at every point of a
  run its new messages hold every tool call of a response that was not cut off followed at once
  by its result, in call order, and no result anywhere else, whatever happens in the
  background, is denied, fails, or ends the run.
\<close>

theorem run_builds_conversation:
  assumes "run_to env (run_start env settings tools messages prompts b w) s"
    and "plain_sources env" and "distinct_call_ids env" and "\<forall>m \<in> set prompts. plain_message m"
  shows "conversation (ls_new s)"
proof -
  have "conversation_inv (run_start env settings tools messages prompts b w)"
    using assms(2, 4) unfolding conversation_inv_def run_start_def
    by (intro conjI collect_to_plain) (simp_all add: conversation_plain)
  with assms(1) have "conversation_inv s"
    unfolding run_to_def
    by (induction rule: rtranclp_induct) (auto intro: run_step_conversation assms(2, 3))
  then show ?thesis by (simp add: conversation_inv_def)
qed

theorem run_builds_conversation_witness:
  "\<exists>s. run_to quiet_run quiet_start s \<and> length (ls_new s) = 4 \<and> conversation (ls_new s)"
proof -
  obtain s where s: "run_to quiet_run quiet_start s" "length (ls_new s) = 4"
    using quiet_run_reaches by blast
  with run_builds_conversation [OF s(1) [unfolded quiet_start_def] quiet_run_ok(1, 2)] quiet_run_ok(3)
  have "conversation (ls_new s)" by simp
  with s show ?thesis by blast
qed

end
