(* ===== verification/Agent_Registry.thy ===== *)
theory Agent_Registry
  imports Agent_Loop
begin

text \<open>
  The registry of background task managers by session
  (\<^verbatim>\<open>crates/hoocode-agent-loop/src/lib.rs\<close>, \<open>SessionRegistry\<close>): lookup with eviction of the least
  recently used entry no run holds, and the release at the end of a run.
\<close>

section \<open>State\<close>

text \<open>A manager is an identity (the \<open>Arc\<close> of the code), its state is \<open>rg_managers\<close>.\<close>

record registry_entry =
  re_manager :: nat
  re_last_used :: nat

text \<open>
  \<open>rg_runs\<close>: the live runs, each with its session and the manager it holds; \<open>rg_leaving\<close>: the
  managers that runs past their release still hold. \<open>rg_next\<close> is the identity of the next
  manager made.
\<close>

record registry =
  rg_map :: "(ustr \<times> registry_entry) list"
  rg_clock :: nat
  rg_runs :: "(ustr \<times> nat) list"
  rg_leaving :: "nat list"
  rg_managers :: "nat \<Rightarrow> background"
  rg_next :: nat

definition empty_registry :: registry where
  "empty_registry = \<lparr>rg_map = [], rg_clock = 0, rg_runs = [], rg_leaving = [], rg_managers = (\<lambda>_. no_background), rg_next = 0\<rparr>"

definition MAX_SESSION_BACKGROUND_MANAGERS :: nat where "MAX_SESSION_BACKGROUND_MANAGERS = 64"

definition strong_count :: "registry \<Rightarrow> nat \<Rightarrow> nat" where
  "strong_count r i =
     length (filter (\<lambda>x. re_manager (snd x) = i) (rg_map r)) + length (filter (\<lambda>x. snd x = i) (rg_runs r))
     + length (filter (\<lambda>j. j = i) (rg_leaving r))"

section \<open>Operations\<close>

definition evictable :: "bool \<Rightarrow> registry \<Rightarrow> ustr \<times> registry_entry \<Rightarrow> bool" where
  "evictable idle_only r x \<longleftrightarrow>
     strong_count r (re_manager (snd x)) = 1
     \<and> (\<not> idle_only \<or> \<not> has_work (rg_managers r (re_manager (snd x))))"

fun least_recently_used :: "(ustr \<times> registry_entry) list \<Rightarrow> (ustr \<times> registry_entry) option" where
  "least_recently_used [] = None"
| "least_recently_used (x # xs) =
     (case least_recently_used xs of
        None \<Rightarrow> Some x
      | Some y \<Rightarrow> if re_last_used (snd y) < re_last_used (snd x) then Some y else Some x)"

definition evict_one :: "bool \<Rightarrow> registry \<Rightarrow> bool \<times> registry" where
  "evict_one idle_only r =
     (case least_recently_used (filter (evictable idle_only r) (rg_map r)) of
        Some (sid, _) \<Rightarrow> (True, r\<lparr>rg_map := adel sid (rg_map r)\<rparr>)
      | None \<Rightarrow> (False, r))"

lemma lru_in: "least_recently_used xs = Some x \<Longrightarrow> x \<in> set xs"
  by (induction xs arbitrary: x) (auto split: option.splits if_splits)

lemma lru_None: "least_recently_used xs = None \<longleftrightarrow> xs = []"
  by (cases xs) (auto split: option.splits)

lemma lru_least: "least_recently_used xs = Some x \<Longrightarrow> y \<in> set xs \<Longrightarrow> re_last_used (snd x) \<le> re_last_used (snd y)"
  by (induction xs arbitrary: x) (fastforce simp: lru_None split: option.splits if_splits)+

lemma evict_one_True:
  assumes "evict_one idle_only r = (True, r')"
  shows "\<exists>sid e. (sid, e) \<in> set (rg_map r) \<and> evictable idle_only r (sid, e)
    \<and> (\<forall>y \<in> set (rg_map r). evictable idle_only r y \<longrightarrow> re_last_used e \<le> re_last_used (snd y))
    \<and> r' = r\<lparr>rg_map := adel sid (rg_map r)\<rparr>"
proof (cases "least_recently_used (filter (evictable idle_only r) (rg_map r))")
  case (Some x)
  obtain sid e where x: "x = (sid, e)" by fastforce
  from lru_in [OF Some] lru_least [OF Some] assms Some show ?thesis
    unfolding x by (intro exI [of _ sid] exI [of _ e]) (auto simp: evict_one_def)
qed (use assms in \<open>simp add: evict_one_def\<close>)

lemma evict_one_False:
  "evict_one idle_only r = (False, r') \<Longrightarrow> r' = r \<and> (\<forall>y \<in> set (rg_map r). \<not> evictable idle_only r y)"
  by (auto simp: evict_one_def lru_None filter_empty_conv split: option.splits)

lemma adel_shorter: "(k, v) \<in> set m \<Longrightarrow> length (adel k m) < length m"
  unfolding adel_def by (rule length_filter_less [of "(k, v)"]) simp_all

lemma evict_one_shorter: "evict_one idle_only r = (True, r') \<Longrightarrow> length (rg_map r') < length (rg_map r)"
  by (auto dest!: evict_one_True intro: adel_shorter)

function make_room :: "nat \<Rightarrow> registry \<Rightarrow> registry" where
  "make_room cap r =
     (if length (rg_map r) < cap then r
      else case evict_one True r of
        (True, r') \<Rightarrow> make_room cap r'
      | (False, _) \<Rightarrow>
          (case evict_one False r of
             (True, r') \<Rightarrow> make_room cap r'
           | (False, _) \<Rightarrow> r))"
  by auto
termination
  by (relation "measure (\<lambda>(_, r). length (rg_map r))") (auto dest!: sym [of "(_, _)"] intro: evict_one_shorter)

declare make_room.simps [simp del]

definition manager_for :: "ustr \<Rightarrow> nat \<Rightarrow> registry \<Rightarrow> nat \<times> registry" where
  "manager_for sid cap r =
     (let now = rg_clock r + 1; r = r\<lparr>rg_clock := now\<rparr> in
      case aget (rg_map r) sid of
        Some e \<Rightarrow> (re_manager e, r\<lparr>rg_map := aput sid (e\<lparr>re_last_used := now\<rparr>) (rg_map r)\<rparr>)
      | None \<Rightarrow>
          (let r = make_room cap r; i = rg_next r in
           (i, r\<lparr>rg_map := aput sid \<lparr>re_manager = i, re_last_used = now\<rparr> (rg_map r),
                 rg_managers := (rg_managers r)(i := no_background), rg_next := i + 1\<rparr>)))"

definition release_manager :: "ustr \<Rightarrow> nat \<Rightarrow> registry \<Rightarrow> registry" where
  "release_manager sid i r =
     (let ours = (case aget (rg_map r) sid of Some e \<Rightarrow> re_manager e = i | None \<Rightarrow> False) in
      if ours \<and> \<not> has_work (rg_managers r i) \<and> strong_count r i = 2
      then r\<lparr>rg_map := adel sid (rg_map r)\<rparr> else r)"

section \<open>Histories\<close>

text \<open>
  A run begins with the lookup, and ends by releasing the entry and then letting its own hold
  go; between these the tasks of the managers come and go.
\<close>

inductive registry_step :: "nat \<Rightarrow> registry \<Rightarrow> registry \<Rightarrow> bool" for cap where
  run_begins: "manager_for sid cap r = (i, r') \<Longrightarrow>
    registry_step cap r (r'\<lparr>rg_runs := rg_runs r' @ [(sid, i)]\<rparr>)"
| work_changes: "registry_step cap r (r\<lparr>rg_managers := (rg_managers r)(i := b)\<rparr>)"
| releases: "(sid, i) \<in> set (rg_runs r) \<Longrightarrow> release_manager sid i r = r' \<Longrightarrow>
    registry_step cap r (r'\<lparr>rg_runs := remove1 (sid, i) (rg_runs r'), rg_leaving := rg_leaving r' @ [i]\<rparr>)"
| hold_goes: "i \<in> set (rg_leaving r) \<Longrightarrow> registry_step cap r (r\<lparr>rg_leaving := remove1 i (rg_leaving r)\<rparr>)"
| run_dropped: "(sid, i) \<in> set (rg_runs r) \<Longrightarrow> registry_step cap r (r\<lparr>rg_runs := remove1 (sid, i) (rg_runs r)\<rparr>)"

definition registry_run :: "nat \<Rightarrow> registry \<Rightarrow> bool" where
  "registry_run cap = (registry_step cap)\<^sup>*\<^sup>* empty_registry"

section \<open>A live run's manager stays registered\<close>

definition registry_inv :: "registry \<Rightarrow> bool" where
  "registry_inv r \<longleftrightarrow>
     distinct (map fst (rg_map r))
     \<and> (\<forall>x \<in> set (rg_map r). re_manager (snd x) < rg_next r \<and> re_last_used (snd x) \<le> rg_clock r)
     \<and> distinct (map (re_manager \<circ> snd) (rg_map r)) \<and> distinct (map (re_last_used \<circ> snd) (rg_map r))
     \<and> (\<forall>x \<in> set (rg_runs r). \<exists>e. aget (rg_map r) (fst x) = Some e \<and> re_manager e = snd x)"

lemma held_more:
  assumes "(sid, e) \<in> set (rg_map r)" and "(sid', re_manager e) \<in> set (rg_runs r)"
  shows "2 \<le> strong_count r (re_manager e)"
proof -
  have "0 < length (filter (\<lambda>x. re_manager (snd x) = re_manager e) (rg_map r))"
    using assms(1) by (force simp: filter_empty_conv)
  moreover have "0 < length (filter (\<lambda>x. snd x = re_manager e) (rg_runs r))"
    using assms(2) by (force simp: filter_empty_conv)
  ultimately show ?thesis unfolding strong_count_def by linarith
qed

lemma adel_map_subset: "set (adel k m) \<subseteq> set m" "distinct (map f m) \<Longrightarrow> distinct (map f (adel k m))"
  by (auto simp: adel_def distinct_map_filter)

lemma remove_entry_inv:
  assumes "registry_inv r" and "\<forall>s e. aget (rg_map r) sid = Some e \<longrightarrow> (s, re_manager e) \<notin> set (rg_runs r)"
  shows "registry_inv (r\<lparr>rg_map := adel sid (rg_map r)\<rparr>)"
proof -
  have "\<exists>e. aget (adel sid (rg_map r)) s = Some e \<and> re_manager e = i" if "(s, i) \<in> set (rg_runs r)" for s i
  proof -
    from assms(1) that obtain e where e: "aget (rg_map r) s = Some e" "re_manager e = i"
      by (auto simp: registry_inv_def)
    with assms(2) that have "s \<noteq> sid" by auto
    with e show ?thesis by (simp add: aget_adel)
  qed
  with assms(1) show ?thesis
    using adel_map_subset(1) [of sid "rg_map r"] by (auto simp: registry_inv_def adel_map_subset(2))
qed

lemma evict_one_inv:
  assumes "registry_inv r" and "evict_one idle_only r = (True, r')"
  shows "registry_inv r'"
proof -
  from evict_one_True [OF assms(2)] obtain sid e where e: "(sid, e) \<in> set (rg_map r)"
    "strong_count r (re_manager e) = 1" "r' = r\<lparr>rg_map := adel sid (rg_map r)\<rparr>"
    by (auto simp: evictable_def)
  moreover from assms(1) e(1) have "aget (rg_map r) sid = Some e"
    by (auto simp: registry_inv_def intro: aget_distinct)
  ultimately show ?thesis
    using remove_entry_inv [OF assms(1), of sid] held_more [OF e(1)] by force
qed

lemma make_room_induct:
  assumes "P r" and "\<And>idle_only a b. P a \<Longrightarrow> evict_one idle_only a = (True, b) \<Longrightarrow> P b"
  shows "P (make_room cap r)"
  using assms(1)
proof (induction cap r rule: make_room.induct)
  case (1 cap r)
  obtain ok1 r1 ok2 r2 where e: "evict_one True r = (ok1, r1)" "evict_one False r = (ok2, r2)"
    by (metis surj_pair)
  show ?case
    using 1(1) [OF _ e(1) [symmetric]] 1(2) [OF _ e(1) [symmetric] _ e(2) [symmetric]] 1(3) assms(2) [OF 1(3)] e
    by (subst make_room.simps) (auto split: bool.split)
qed

lemma make_room_fields [simp]:
  "rg_runs (make_room cap r) = rg_runs r" "rg_leaving (make_room cap r) = rg_leaving r"
  "rg_managers (make_room cap r) = rg_managers r" "rg_next (make_room cap r) = rg_next r"
  "rg_clock (make_room cap r) = rg_clock r" "set (rg_map (make_room cap r)) \<subseteq> set (rg_map r)"
proof -
  let ?P = "\<lambda>x. rg_runs x = rg_runs r \<and> rg_leaving x = rg_leaving r
      \<and> rg_managers x = rg_managers r \<and> rg_next x = rg_next r \<and> rg_clock x = rg_clock r
      \<and> set (rg_map x) \<subseteq> set (rg_map r)"
  have "?P (make_room cap r)"
  proof (rule make_room_induct [of ?P])
    fix idle_only a b
    assume a: "?P a" and "evict_one idle_only a = (True, b)"
    from evict_one_True [OF this(2)] obtain sid where "b = a\<lparr>rg_map := adel sid (rg_map a)\<rparr>" by blast
    with a adel_map_subset(1) [of sid "rg_map a"] show "?P b" by auto
  qed simp
  then show "rg_runs (make_room cap r) = rg_runs r" "rg_leaving (make_room cap r) = rg_leaving r"
    "rg_managers (make_room cap r) = rg_managers r" "rg_next (make_room cap r) = rg_next r"
    "rg_clock (make_room cap r) = rg_clock r" "set (rg_map (make_room cap r)) \<subseteq> set (rg_map r)"
    by simp_all
qed

text \<open>Room is made, unless every entry left is held by a run.\<close>

lemma make_room_done:
  "length (rg_map (make_room cap r)) < cap
   \<or> (\<forall>x \<in> set (rg_map (make_room cap r)). strong_count (make_room cap r) (re_manager (snd x)) \<noteq> 1)"
proof (induction cap r rule: make_room.induct)
  case (1 cap r)
  obtain ok1 r1 ok2 r2 where e: "evict_one True r = (ok1, r1)" "evict_one False r = (ok2, r2)"
    by (metis surj_pair)
  show ?case
    using 1(1) [OF _ e(1) [symmetric]] 1(2) [OF _ e(1) [symmetric] _ e(2) [symmetric]] e
      evict_one_False [of False r r2]
    by (cases "length (rg_map r) < cap"; cases ok1; cases ok2)
       (auto simp: make_room.simps [of cap r] evictable_def)
qed

lemma aput_new: "aget m k = None \<Longrightarrow> aput k v m = m @ [(k, v)]"
  by (induction k v m rule: aput.induct) (auto split: if_splits)

lemma aput_present: "aget m k = Some e \<Longrightarrow> f v = f e \<Longrightarrow> map (f \<circ> snd) (aput k v m) = map (f \<circ> snd) m"
  by (induction k v m rule: aput.induct) (auto split: if_splits)

lemma aput_keys: "aget m k = Some e \<Longrightarrow> map fst (aput k v m) = map fst m"
  by (induction k v m rule: aput.induct) (auto split: if_splits)

lemma aput_subset: "x \<in> set (aput k v m) \<Longrightarrow> x = (k, v) \<or> x \<in> set m"
  by (induction k v m rule: aput.induct) (auto split: if_splits)

lemma aput_distinct:
  fixes f :: "'v \<Rightarrow> nat"
  shows "aget m k = Some e \<Longrightarrow> distinct (map (f \<circ> snd) m) \<Longrightarrow> \<forall>x \<in> set m. f (snd x) < f v \<Longrightarrow>
   distinct (map (f \<circ> snd) (aput k v m))"
proof (induction k v m rule: aput.induct)
  case (2 k v x w m)
  have "f u \<noteq> f v" if "(y, u) \<in> set m" for y u using 2(4) that by force
  with 2 show ?case by (force dest!: aput_subset)
qed simp

lemma manager_for_inv:
  assumes "registry_inv r" and "manager_for sid cap r = (i, r')"
  shows "registry_inv (r'\<lparr>rg_runs := rg_runs r' @ [(sid, i)]\<rparr>)"
proof (cases "aget (rg_map r) sid")
  case (Some e)
  let ?e = "e\<lparr>re_last_used := Suc (rg_clock r)\<rparr>"
  let ?m = "aput sid ?e (rg_map r)"
  have r': "i = re_manager e" "r' = r\<lparr>rg_clock := Suc (rg_clock r), rg_map := ?m\<rparr>"
    using assms(2) Some by (simp_all add: manager_for_def Let_def)
  have "re_manager e < rg_next r"
    using assms(1) aget_in_set [OF Some] by (auto simp: registry_inv_def)
  then have old: "\<forall>x \<in> set ?m. re_manager (snd x) < rg_next r \<and> re_last_used (snd x) \<le> Suc (rg_clock r)"
    using assms(1) by (auto simp: registry_inv_def dest!: aput_subset)
  have "\<forall>x \<in> set (rg_map r). re_last_used (snd x) < re_last_used ?e"
    using assms(1) by (auto simp: registry_inv_def)
  then have used: "distinct (map (re_last_used \<circ> snd) ?m)"
    using assms(1) by (intro aput_distinct [OF Some]) (simp_all add: registry_inv_def)
  have runs: "\<exists>d. aget ?m s = Some d \<and> re_manager d = k" if "(s, k) \<in> set (rg_runs r)" for s k
    using assms(1) that Some by (fastforce simp: registry_inv_def aget_aput)
  have "aget ?m sid = Some ?e" by (simp add: aget_aput)
  with assms(1) old used runs show ?thesis
    unfolding registry_inv_def r'
    by (auto simp: aput_keys [OF Some] aput_present [OF Some, of re_manager])
next
  case None
  let ?m = "make_room cap (r\<lparr>rg_clock := Suc (rg_clock r)\<rparr>)"
  have inv: "registry_inv (r\<lparr>rg_clock := Suc (rg_clock r)\<rparr>)"
    using assms(1) by (auto simp: registry_inv_def)
  have m: "registry_inv ?m" using inv by (rule make_room_induct [of registry_inv]) (rule evict_one_inv)
  have new: "aget (rg_map ?m) sid = None"
    using None make_room_fields(6) [of cap "r\<lparr>rg_clock := Suc (rg_clock r)\<rparr>"]
    by (auto simp: aget_None_iff)
  have old: "\<forall>x \<in> set (rg_map ?m). re_manager (snd x) < rg_next r \<and> re_last_used (snd x) \<le> rg_clock r"
    using assms(1) make_room_fields(6) [of cap "r\<lparr>rg_clock := Suc (rg_clock r)\<rparr>"]
    by (auto simp: registry_inv_def)
  from assms(2) None have r': "i = rg_next r"
    "r' = ?m\<lparr>rg_map := rg_map ?m @ [(sid, \<lparr>re_manager = i, re_last_used = Suc (rg_clock r)\<rparr>)],
        rg_managers := (rg_managers r)(i := no_background), rg_next := Suc i\<rparr>"
    by (auto simp: manager_for_def Let_def aput_new [OF new])
  have get: "aget m sid = None \<Longrightarrow> aget (m @ [(sid, v)]) sid = Some v"
    "aget m s = Some d \<Longrightarrow> aget (m @ [(sid, v)]) s = Some d" for m s v d
    by (induction m) (auto split: if_splits)
  have "sid \<notin> fst ` set (rg_map ?m)" using new by (simp add: aget_None_iff)
  with m have keys: "distinct (map fst (rg_map ?m) @ [sid])" by (simp add: registry_inv_def)
  from m old have managers: "distinct (map (re_manager \<circ> snd) (rg_map ?m) @ [rg_next r])"
    and used: "distinct (map (re_last_used \<circ> snd) (rg_map ?m) @ [Suc (rg_clock r)])"
    by (auto simp: registry_inv_def)
  have runs: "\<exists>e. aget (rg_map ?m @ [(sid, v)]) s = Some e \<and> re_manager e = k" if "(s, k) \<in> set (rg_runs r)" for s k v
    using m that get(2) by (fastforce simp: registry_inv_def)
  have all: "\<forall>x \<in> set (rg_map ?m). re_manager (snd x) < Suc (rg_next r) \<and> re_last_used (snd x) \<le> Suc (rg_clock r)"
    using old by auto
  show ?thesis
    unfolding registry_inv_def r'
    using keys managers used runs all by (auto simp: get(1) [OF new])
qed

lemma release_inv:
  assumes "registry_inv r" and "(sid, i) \<in> set (rg_runs r)" and "release_manager sid i r = r'"
  shows "registry_inv (r'\<lparr>rg_runs := remove1 (sid, i) (rg_runs r'), rg_leaving := rg_leaving r' @ [i]\<rparr>)"
proof -
  let ?r = "r\<lparr>rg_runs := remove1 (sid, i) (rg_runs r)\<rparr>"
  have inv: "registry_inv ?r"
    using assms(1) set_remove1_subset [of "(sid, i)" "rg_runs r"] by (auto simp: registry_inv_def)
  show ?thesis
  proof (cases "r' = r")
    case True
    with inv show ?thesis by (simp add: registry_inv_def)
  next
    case False
    obtain e where e: "aget (rg_map r) sid = Some e" "re_manager e = i" "strong_count r i = 2"
      "r' = r\<lparr>rg_map := adel sid (rg_map r)\<rparr>"
    proof (cases "aget (rg_map r) sid")
      case None
      with assms(3) False show ?thesis unfolding release_manager_def by simp
    next
      case (Some e)
      then have "release_manager sid i r =
          (if re_manager e = i \<and> \<not> has_work (rg_managers r i) \<and> strong_count r i = 2
           then r\<lparr>rg_map := adel sid (rg_map r)\<rparr> else r)"
        by (simp add: release_manager_def)
      with assms(3) False that [OF Some] show ?thesis by metis
    qed
    have "(s, i) \<notin> set (remove1 (sid, i) (rg_runs r))" for s
    proof
      assume s: "(s, i) \<in> set (remove1 (sid, i) (rg_runs r))"
      then have "0 < length (filter (\<lambda>x. snd x = i) (remove1 (sid, i) (rg_runs r)))"
        by (force simp: filter_empty_conv)
      moreover have "length (filter (\<lambda>x. snd x = i) (rg_runs r))
          = Suc (length (filter (\<lambda>x. snd x = i) (remove1 (sid, i) (rg_runs r))))"
        using filter_remove1_length [OF assms(2), of "\<lambda>x. snd x = i"] by simp
      moreover have "0 < length (filter (\<lambda>x. re_manager (snd x) = i) (rg_map r))"
        using aget_in_set [OF e(1)] e(2) by (force simp: filter_empty_conv)
      ultimately show False using e(3) unfolding strong_count_def by linarith
    qed
    with remove_entry_inv [OF inv, of sid] e show ?thesis by (simp add: registry_inv_def)
  qed
qed

lemma registry_step_inv: "registry_step cap r r' \<Longrightarrow> registry_inv r \<Longrightarrow> registry_inv r'"
proof (induction rule: registry_step.induct)
  case (run_begins sid r i r')
  then show ?case by (intro manager_for_inv)
next
  case (releases sid i r r')
  then show ?case by (intro release_inv)
next
  case (run_dropped sid i r)
  then show ?case
    using set_remove1_subset [of "(sid, i)" "rg_runs r"] by (auto simp: registry_inv_def)
qed (auto simp: registry_inv_def)

lemma registry_run_inv: "registry_run cap r \<Longrightarrow> registry_inv r"
  unfolding registry_run_def
proof (induction rule: rtranclp_induct)
  case base
  show ?case by (simp add: registry_inv_def empty_registry_def)
qed (rule registry_step_inv)

lemma same_manager:
  "distinct (map (re_manager \<circ> snd) m) \<Longrightarrow> (s, d) \<in> set m \<Longrightarrow> (s', e) \<in> set m \<Longrightarrow>
   re_manager d = re_manager e \<Longrightarrow> s = s'"
  by (force simp: distinct_map inj_on_def)

text \<open>
  While a run of a session is live, the registry keeps the manager it holds under its
  session, however many other sessions begin and are evicted meanwhile; so all live runs of a
  session share one manager and no two sessions ever share one.
\<close>

theorem live_manager_stays:
  assumes "registry_run cap r" and "(sid, i) \<in> set (rg_runs r)"
  shows "(\<exists>e. aget (rg_map r) sid = Some e \<and> re_manager e = i)
    \<and> (\<forall>sid' j. (sid', j) \<in> set (rg_runs r) \<longrightarrow> (i = j \<longleftrightarrow> sid = sid'))"
proof -
  note inv = registry_run_inv [OF assms(1)]
  from inv have held: "(s, k) \<in> set (rg_runs r) \<Longrightarrow> \<exists>e. aget (rg_map r) s = Some e \<and> re_manager e = k" for s k
    by (auto simp: registry_inv_def)
  have "i = j \<longleftrightarrow> sid = sid'" if "(sid', j) \<in> set (rg_runs r)" for sid' j
  proof -
    from held [OF assms(2)] held [OF that] obtain d e where
      "aget (rg_map r) sid = Some d" "re_manager d = i" "aget (rg_map r) sid' = Some e" "re_manager e = j"
      by blast
    note e = this
    from inv have "distinct (map (re_manager \<circ> snd) (rg_map r))" by (simp add: registry_inv_def)
    from same_manager [OF this aget_in_set [OF e(1)] aget_in_set [OF e(3)]] e show ?thesis by auto
  qed
  with held [OF assms(2)] show ?thesis by blast
qed

text \<open>Two sessions run at once, then the first ends; a cap of one.\<close>

definition two_sessions :: registry where
  "two_sessions =
     (let (i, r) = manager_for (U ''a'') 1 empty_registry; r = r\<lparr>rg_runs := rg_runs r @ [(U ''a'', i)]\<rparr>;
          (j, r) = manager_for (U ''b'') 1 r
      in r\<lparr>rg_runs := rg_runs r @ [(U ''b'', j)]\<rparr>)"

lemma two_sessions_eval:
  "rg_runs two_sessions = [(U ''a'', 0), (U ''b'', 1)]" "length (rg_map two_sessions) = 2"
  by (simp_all add: two_sessions_def manager_for_def empty_registry_def make_room.simps evict_one_def
      evictable_def strong_count_def)

lemma two_sessions_run: "registry_run 1 two_sessions"
proof -
  obtain i r where m: "manager_for (U ''a'') 1 empty_registry = (i, r)" by fastforce
  let ?r = "r\<lparr>rg_runs := rg_runs r @ [(U ''a'', i)]\<rparr>"
  obtain j q where q: "manager_for (U ''b'') 1 ?r = (j, q)" by fastforce
  have "registry_step 1 empty_registry ?r" by (rule registry_step.run_begins [OF m])
  moreover have "registry_step 1 ?r (q\<lparr>rg_runs := rg_runs q @ [(U ''b'', j)]\<rparr>)"
    by (rule registry_step.run_begins [OF q])
  ultimately show ?thesis
    unfolding registry_run_def two_sessions_def m q Let_def prod.case
    by (meson r_into_rtranclp rtranclp.rtrancl_into_rtrancl)
qed

theorem live_manager_stays_witness:
  "\<exists>e. aget (rg_map two_sessions) (U ''a'') = Some e \<and> re_manager e = 0"
  using live_manager_stays [OF two_sessions_run, of "U ''a''" 0] by (simp add: two_sessions_eval)

text \<open>
  Two runs at once, with a cap of one, each with a result still to deliver when it ends: both
  entries stay although no run is live any more.
\<close>

definition undelivered :: background where
  "undelivered = \<lparr>bg_inflight = [], bg_results = [FailedTask []]\<rparr>"

definition leave :: "ustr \<Rightarrow> nat \<Rightarrow> registry \<Rightarrow> registry" where
  "leave sid i r =
     (let q = release_manager sid i r
      in q\<lparr>rg_runs := remove1 (sid, i) (rg_runs q), rg_leaving := rg_leaving q @ [i]\<rparr>)"

definition both_ended :: registry where
  "both_ended =
     leave (U ''b'') 1 (leave (U ''a'') 0
       (two_sessions\<lparr>rg_managers := (rg_managers two_sessions)(0 := undelivered, 1 := undelivered)\<rparr>))"

lemma leave_step: "(sid, i) \<in> set (rg_runs r) \<Longrightarrow> registry_step cap r (leave sid i r)"
  unfolding leave_def Let_def by (rule registry_step.releases) simp_all

lemma cap_exceeded_without_runs:
  "registry_run 1 both_ended \<and> length (rg_map both_ended) = 2 \<and> rg_runs both_ended = []"
proof -
  let ?a = "two_sessions\<lparr>rg_managers := (rg_managers two_sessions)(0 := undelivered)\<rparr>"
  let ?b = "?a\<lparr>rg_managers := (rg_managers ?a)(1 := undelivered)\<rparr>"
  have keep: "release_manager (U ''a'') 0 ?b = ?b"
    "release_manager (U ''b'') 1 (leave (U ''a'') 0 ?b) = leave (U ''a'') 0 ?b"
    by (simp_all add: leave_def release_manager_def undelivered_def has_work_def)
  have runs: "rg_runs (leave (U ''a'') 0 ?b) = [(U ''b'', 1)]"
    unfolding leave_def Let_def keep(1) by (simp add: two_sessions_eval)
  have "registry_step 1 two_sessions ?a" "registry_step 1 ?a ?b" by (rule registry_step.work_changes)+
  moreover have "registry_step 1 ?b (leave (U ''a'') 0 ?b)"
    by (rule leave_step) (simp add: two_sessions_eval)
  moreover have "registry_step 1 (leave (U ''a'') 0 ?b) (leave (U ''b'') 1 (leave (U ''a'') 0 ?b))"
    by (rule leave_step) (simp only: runs list.set insertI1)
  ultimately have "registry_run 1 (leave (U ''b'') 1 (leave (U ''a'') 0 ?b))"
    using two_sessions_run unfolding registry_run_def by (meson rtranclp.rtrancl_into_rtrancl)
  moreover have "both_ended = leave (U ''b'') 1 (leave (U ''a'') 0 ?b)"
    by (simp add: both_ended_def)
  moreover have "length (rg_map (leave (U ''b'') 1 (leave (U ''a'') 0 ?b))) = 2"
    unfolding leave_def [of "U ''b''"] Let_def keep(2) unfolding leave_def Let_def keep(1)
    by (simp add: two_sessions_eval)
  moreover have "rg_runs (leave (U ''b'') 1 (leave (U ''a'') 0 ?b)) = []"
    unfolding leave_def [of "U ''b''"] Let_def keep(2) by (simp only: registry.simps runs) simp
  ultimately show ?thesis by simp
qed

end
