(* ===== verification/Edit_Text.thy ===== *)
theory Edit_Text
  imports Utf16
begin

text \<open>
  The text side of the edit tool (\<^verbatim>\<open>crates/hoocode-code-tools-fs/src/edit_diff.rs\<close>): search
  on UTF-16 units, line endings and the byte order mark, and the two versions of the fuzzy
  normalisation, the plain one and the one that carries, per unit, the source index it came
  from. Two parameters stand for third-party code: \<open>nf\<close> is \<^verbatim>\<open>UnicodeNormalization::nfkc\<close> on a
  string and \<open>mk\<close> tells whether a scalar is in \<^verbatim>\<open>\p{Mn}\<close> (the regex crate).
\<close>

abbreviation (input) LF :: int where "LF \<equiv> 10"
abbreviation (input) CR :: int where "CR \<equiv> 13"
abbreviation (input) TAB :: int where "TAB \<equiv> 9"
abbreviation (input) SPACE :: int where "SPACE \<equiv> 32"

section \<open>Units\<close>

text \<open>\<open>haystack.indexOf(needle, from)\<close>: the least index of an occurrence at or after \<open>from\<close>.\<close>

definition index_of :: "units \<Rightarrow> units \<Rightarrow> nat \<Rightarrow> nat option" where
  "index_of hay needle from =
     (if needle = [] then (if from \<le> length hay then Some from else None)
      else if length needle > length hay then None
      else List.find (\<lambda>i. hay ! i = needle ! 0 \<and> take (length needle) (drop i hay) = needle)
             [from ..< Suc (length hay - length needle)])"

definition split_lines :: "units \<Rightarrow> units list" where
  "split_lines t = split_on LF t"

definition join_lines :: "units list \<Rightarrow> units" where
  "join_lines ls = join [LF] ls"

definition is_indent :: "int \<Rightarrow> bool" where
  "is_indent u \<longleftrightarrow> u = SPACE \<or> u = TAB"

definition indent_len :: "units \<Rightarrow> nat" where
  "indent_len line = length (takeWhile is_indent line)"

text \<open>The code point at an index and its length in units.\<close>

definition code_point_at :: "units \<Rightarrow> nat \<Rightarrow> int \<times> nat" where
  "code_point_at t i =
     (let u = t ! i in
      if high_surrogate u \<and> i + 1 < length t \<and> low_surrogate (t ! (i + 1))
      then (65536 + (u - 55296) * 1024 + (t ! (i + 1) - 56320), 2)
      else (u, 1))"

definition nfkc :: "(ustr \<Rightarrow> ustr) \<Rightarrow> units \<Rightarrow> units" where
  "nfkc nf t = (case from_utf16 t of Some s \<Rightarrow> encode_utf16 (nf s) | None \<Rightarrow> t)"

definition is_combining_mark :: "(int \<Rightarrow> bool) \<Rightarrow> int \<Rightarrow> bool" where
  "is_combining_mark mk cp \<longleftrightarrow> scalar cp \<and> mk cp"

section \<open>Line endings and the byte order mark\<close>

datatype line_ending = LineFeed | CarriageReturnLineFeed

definition detect_line_ending :: "ustr \<Rightarrow> line_ending" where
  "detect_line_ending s =
     (case (find_str s [CR, LF], find_str s [LF]) of
        (Some crlf, Some lf) \<Rightarrow> if crlf < lf then CarriageReturnLineFeed else LineFeed
      | _ \<Rightarrow> LineFeed)"

text \<open>\<^verbatim>\<open>replace("\r\n", "\n")\<close>, then \<^verbatim>\<open>replace('\r', "\n")\<close>.\<close>

fun replace_crlf :: "ustr \<Rightarrow> ustr" where
  "replace_crlf (a # b # s) = (if a = CR \<and> b = LF then LF # replace_crlf s else a # replace_crlf (b # s))"
| "replace_crlf s = s"

definition normalize_to_lf :: "ustr \<Rightarrow> ustr" where
  "normalize_to_lf s = map (\<lambda>c. if c = CR then LF else c) (replace_crlf s)"

definition restore_line_endings :: "ustr \<Rightarrow> line_ending \<Rightarrow> ustr" where
  "restore_line_endings s e =
     (if e = CarriageReturnLineFeed then concat (map (\<lambda>c. if c = LF then [CR, LF] else [c]) s) else s)"

definition strip_bom :: "ustr \<Rightarrow> ustr \<times> ustr" where
  "strip_bom s = (case strip_prefix s [65279] of Some t \<Rightarrow> ([65279], t) | None \<Rightarrow> ([], s))"

section \<open>Normalisation with its map\<close>

text \<open>
  A normalized text and, per unit, the source index that produced it, with one trailing entry
  for the end.
\<close>

record norm_map =
  nm_text :: units
  nm_map :: "nat list"

text \<open>
  The loops below push to the text and to the map side by side: their state is the list of
  pushed pairs, \<open>with_end\<close> pushes the trailing entry.
\<close>

definition with_end :: "nat \<Rightarrow> (int \<times> nat) list \<Rightarrow> norm_map" where
  "with_end n ps = \<lparr>nm_text = map fst ps, nm_map = map snd ps @ [n]\<rparr>"

text \<open>The end of the run of combining marks from \<open>i\<close> on.\<close>

function skip_marks :: "(int \<Rightarrow> bool) \<Rightarrow> units \<Rightarrow> nat \<Rightarrow> nat" where
  "skip_marks mk t i =
     (if i < length t then
        (case code_point_at t i of (cp, len) \<Rightarrow>
           if is_combining_mark mk cp then skip_marks mk t (i + len) else i)
      else i)"
  by pat_completeness auto
termination
  by (relation "measure (\<lambda>(mk, t, i). length t - i)")
     (auto simp: code_point_at_def Let_def split: if_splits)

declare skip_marks.simps [simp del]

lemma skip_marks_ge: "i \<le> skip_marks mk t i"
  by (induction mk t i rule: skip_marks.induct)
     (subst skip_marks.simps, auto split: prod.splits intro: le_trans [OF le_add1])

lemma code_point_at_len: "0 < snd (code_point_at t i)"
  by (simp add: code_point_at_def Let_def)

function nfkc_pairs :: "(ustr \<Rightarrow> ustr) \<Rightarrow> (int \<Rightarrow> bool) \<Rightarrow> units \<Rightarrow> nat \<Rightarrow> (int \<times> nat) list" where
  "nfkc_pairs nf mk t i =
     (if i < length t then
        (let e = skip_marks mk t (i + snd (code_point_at t i));
             composed = nfkc nf (take (e - i) (drop i t))
         in map (\<lambda>u. (u, i)) composed @ nfkc_pairs nf mk t e)
      else [])"
  by pat_completeness auto
termination
proof (relation "measure (\<lambda>(nf, mk, t, i). length t - i)", goal_cases)
  case (2 nf mk t i x xa)
  have "i < i + snd (code_point_at t i)"
    using code_point_at_len by simp
  also have "\<dots> \<le> x" unfolding 2 by (rule skip_marks_ge)
  finally show ?case using 2 by simp
qed simp

declare nfkc_pairs.simps [simp del]

definition nfkc_with_map :: "(ustr \<Rightarrow> ustr) \<Rightarrow> (int \<Rightarrow> bool) \<Rightarrow> units \<Rightarrow> norm_map" where
  "nfkc_with_map nf mk t = with_end (length t) (nfkc_pairs nf mk t 0)"

text \<open>CRLF and lone CR collapse to LF; the position is the index of the next unit.\<close>

fun lf_pairs :: "nat \<Rightarrow> units \<Rightarrow> (int \<times> nat) list" where
  "lf_pairs i [] = []"
| "lf_pairs i [u] = [(if u = CR then LF else u, i)]"
| "lf_pairs i (u # v # us) =
     (if u = CR \<and> v = LF then (LF, i) # lf_pairs (i + 2) us
      else (if u = CR then LF else u, i) # lf_pairs (i + 1) (v # us))"

definition to_lf_with_map :: "units \<Rightarrow> norm_map" where
  "to_lf_with_map t = with_end (length t) (lf_pairs 0 t)"

text \<open>One line: tabs widen to two spaces, \<dots>\<close>

definition expand_tabs :: "(int \<times> nat) list \<Rightarrow> (int \<times> nat) list" where
  "expand_tabs ps = concat (map (\<lambda>(u, i). if u = TAB then [(SPACE, i), (SPACE, i)] else [(u, i)]) ps)"

text \<open>\<dots> a space after an emitted space past the indentation is dropped, \<dots>\<close>

fun emit_units :: "nat \<Rightarrow> nat \<Rightarrow> (int \<times> nat) list \<Rightarrow> (int \<times> nat) list \<Rightarrow> (int \<times> nat) list" where
  "emit_units leading i emitted [] = emitted"
| "emit_units leading i emitted (p # ps) =
     (if leading \<le> i \<and> fst p = SPACE \<and> emitted \<noteq> [] \<and> fst (last emitted) = SPACE
         \<and> leading < length emitted
      then emit_units leading (i + 1) emitted ps
      else emit_units leading (i + 1) (emitted @ [p]) ps)"

text \<open>\<dots> and trailing white space goes.\<close>

definition line_pairs :: "(int \<times> nat) list \<Rightarrow> (int \<times> nat) list" where
  "line_pairs ps =
     (let expanded = expand_tabs ps;
          leading = length (takeWhile (\<lambda>p. is_js_space_unit (fst p)) expanded)
      in drop_trailing (\<lambda>p. is_js_space_unit (fst p)) (emit_units leading 0 [] expanded))"

lemma index_of_bounds:
  "index_of hay needle from = Some i \<Longrightarrow> from \<le> i \<and> i + length needle \<le> length hay"
  by (auto simp: index_of_def find_upt_Some simp del: upt_Suc split: if_splits)

function ws_pairs :: "units \<Rightarrow> nat \<Rightarrow> (int \<times> nat) list" where
  "ws_pairs t s =
     (let (line_end, has_newline) =
            (case index_of t [LF] s of Some e \<Rightarrow> (e, True) | None \<Rightarrow> (length t, False));
          line = line_pairs (map (\<lambda>i. (t ! i, i)) [s ..< line_end])
      in if has_newline then line @ (LF, line_end) # ws_pairs t (line_end + 1) else line)"
  by pat_completeness auto
termination
proof (relation "measure (\<lambda>(t, s). Suc (length t) - s)", goal_cases)
  case (2 t s x e b y)
  then have "index_of t [LF] s = Some e" by (auto split: option.splits)
  from index_of_bounds [OF this] have "s \<le> e" "e < length t" by simp_all
  with 2 show ?case by (auto split: option.splits)
qed simp

declare ws_pairs.simps [simp del]

definition normalize_line_whitespace_with_map :: "units \<Rightarrow> norm_map" where
  "normalize_line_whitespace_with_map t = with_end (length t) (ws_pairs t 0)"

definition compose_maps :: "nat list \<Rightarrow> nat list \<Rightarrow> nat list" where
  "compose_maps outer inner =
     (let final = (if inner = [] then 0 else last inner)
      in map (\<lambda>i. if i < length inner then inner ! i else final) outer)"

definition substitute_char :: "int \<Rightarrow> int" where
  "substitute_char u =
     (if 8216 \<le> u \<and> u \<le> 8219 then 39
      else if 8220 \<le> u \<and> u \<le> 8223 then 34
      else if (8208 \<le> u \<and> u \<le> 8213) \<or> u = 8722 then 45
      else if u = 160 \<or> (8194 \<le> u \<and> u \<le> 8202) \<or> u = 8239 \<or> u = 8287 \<or> u = 12288 then SPACE
      else u)"

definition apply_char_substitutions :: "units \<Rightarrow> units" where
  "apply_char_substitutions t = map substitute_char t"

definition normalize_for_fuzzy_match_with_map ::
  "(ustr \<Rightarrow> ustr) \<Rightarrow> (int \<Rightarrow> bool) \<Rightarrow> units \<Rightarrow> norm_map" where
  "normalize_for_fuzzy_match_with_map nf mk t =
     (let nk = nfkc_with_map nf mk t;
          lf = to_lf_with_map (nm_text nk);
          ls = normalize_line_whitespace_with_map (nm_text lf)
      in \<lparr>nm_text = apply_char_substitutions (nm_text ls),
          nm_map = compose_maps (compose_maps (nm_map ls) (nm_map lf)) (nm_map nk)\<rparr>)"

section \<open>Normalisation without the map\<close>

fun lf_units :: "units \<Rightarrow> units" where
  "lf_units [] = []"
| "lf_units [u] = [if u = CR then LF else u]"
| "lf_units (u # v # us) =
     (if u = CR \<and> v = LF then LF # lf_units us
      else (if u = CR then LF else u) # lf_units (v # us))"

text \<open>The loop over the rest of a line: \<^verbatim>\<open>rest.replace(/ {2,}/g, " ")\<close>.\<close>

fun squeeze :: "nat \<Rightarrow> units \<Rightarrow> units \<Rightarrow> units" where
  "squeeze leading acc [] = acc"
| "squeeze leading acc (u # us) =
     (if u = SPACE \<and> leading < length acc \<and> acc \<noteq> [] \<and> last acc = SPACE
      then squeeze leading acc us else squeeze leading (acc @ [u]) us)"

definition normalize_line :: "units \<Rightarrow> units" where
  "normalize_line line =
     (let expanded = concat (map (\<lambda>u. if u = TAB then [SPACE, SPACE] else [u]) line);
          leading = length (takeWhile is_js_space_unit expanded);
          normalized = squeeze leading (take leading expanded) (drop leading expanded)
      in drop_trailing is_js_space_unit normalized)"

definition normalize_for_fuzzy_match :: "(ustr \<Rightarrow> ustr) \<Rightarrow> units \<Rightarrow> units" where
  "normalize_for_fuzzy_match nf t =
     apply_char_substitutions
       (join_lines (map normalize_line (split_lines (lf_units (nfkc nf t)))))"

definition is_at_line_start :: "units \<Rightarrow> nat \<Rightarrow> bool" where
  "is_at_line_start t i \<longleftrightarrow> i = 0 \<or> t ! (i - 1) = LF"

definition normalized_indent :: "units \<Rightarrow> units" where
  "normalized_indent line =
     concat (map (\<lambda>u. if u = TAB then [SPACE, SPACE] else [u]) (take (indent_len line) line))"

definition block_normalize_line :: "(ustr \<Rightarrow> ustr) \<Rightarrow> units \<Rightarrow> units" where
  "block_normalize_line nf line = js_trim_units (normalize_for_fuzzy_match nf line)"

end
