(* ===== verification/Edit_Match.thy ===== *)
theory Edit_Match
  imports Edit_Text
begin

text \<open>
  Matching and applying edits (\<^verbatim>\<open>crates/hoocode-code-tools-fs/src/edit_diff.rs\<close>): the three
  tiers of \<open>find_edit_spans\<close> (exact, fuzzy through the map, indentation-tolerant line blocks)
  and \<open>apply_edits_to_normalized_content\<close>, with its errors as values.
\<close>

section \<open>Data\<close>

record edit =
  old_text :: ustr
  new_text :: ustr
  replace_all :: bool

record edit_u16 =
  old_u16 :: units
  new_u16 :: units
  all_u16 :: bool

record resolved_span =
  match_index :: nat
  match_length :: nat
  replacement :: units

record matched_edit = resolved_span +
  edit_index :: nat

record found_spans =
  spans :: "resolved_span list"
  occurrences :: nat
  noop_fuzzy_span :: "resolved_span option"

record applied_edits =
  base_content :: ustr
  new_content :: ustr

datatype edit_error =
  Empty_Old_Text (err_edit: nat) (err_total: nat)
| Not_Found (err_edit: nat) (err_total: nat) units units
| Fuzzy_Noop (err_edit: nat) (err_total: nat) units resolved_span
| Duplicate (err_edit: nat) (err_total: nat) nat
| Overlap (err_edit: nat) nat
| No_Change (err_total: nat)

section \<open>Matching\<close>

text \<open>Every non-overlapping occurrence.\<close>

function collect_from :: "units \<Rightarrow> units \<Rightarrow> nat \<Rightarrow> nat list" where
  "collect_from hay needle from =
     (if needle = [] then []
      else (case index_of hay needle from of
              None \<Rightarrow> []
            | Some i \<Rightarrow> i # collect_from hay needle (i + length needle)))"
  by pat_completeness auto
termination
proof (relation "measure (\<lambda>(hay, needle, from). Suc (length hay) - from)", goal_cases)
  case (2 hay needle s i)
  from index_of_bounds [OF 2(2)] 2(1) show ?case
    by (cases needle) auto
qed simp

declare collect_from.simps [simp del]

definition collect_match_indices :: "units \<Rightarrow> units \<Rightarrow> nat list" where
  "collect_match_indices hay needle = collect_from hay needle 0"

definition slice :: "'a list \<Rightarrow> nat \<Rightarrow> nat \<Rightarrow> 'a list" where
  "slice t a b = take (b - a) (drop a t)"

text \<open>An old text that opens with indentation claims a whole line.\<close>

definition anchored :: "units \<Rightarrow> bool" where
  "anchored old = (case old of [] \<Rightarrow> False | u # _ \<Rightarrow> is_indent u)"

definition exact_matches :: "units \<Rightarrow> units \<Rightarrow> nat list" where
  "exact_matches content old =
     filter (\<lambda>i. \<not> anchored old \<or> is_at_line_start content i) (collect_match_indices content old)"

text \<open>The closures \<open>bounds\<close> and \<open>replacement_for\<close> of the fuzzy tier.\<close>

definition fuzzy_bounds :: "norm_map \<Rightarrow> nat \<Rightarrow> nat \<Rightarrow> nat \<times> nat" where
  "fuzzy_bounds nm n i = (nm_map nm ! i, nm_map nm ! (i + n))"

definition reindent_line :: "units \<Rightarrow> units \<Rightarrow> units \<Rightarrow> units" where
  "reindent_line original old line =
     (if normalized_indent (take (indent_len line) line)
           \<noteq> normalized_indent (take (indent_len old) old)
      then line
      else take (indent_len original) original @ drop (indent_len line) line)"

definition replacement_for :: "units \<Rightarrow> edit_u16 \<Rightarrow> nat \<Rightarrow> nat \<Rightarrow> units" where
  "replacement_for content e start stop =
     (if \<not> is_at_line_start content start then new_u16 e
      else
        let original_lines = split_lines (slice content start stop);
            new_lines = split_lines (new_u16 e);
            old_lines = split_lines (old_u16 e)
        in if length original_lines \<noteq> length new_lines \<or> length old_lines \<noteq> length new_lines
           then new_u16 e
           else join_lines (map (\<lambda>i. reindent_line (original_lines ! i) (old_lines ! i) (new_lines ! i))
                                [0 ..< length new_lines]))"

definition fuzzy_matches :: "norm_map \<Rightarrow> units \<Rightarrow> units \<Rightarrow> nat list" where
  "fuzzy_matches nm old fuzzy_old =
     filter (\<lambda>i. \<not> anchored old \<or> is_at_line_start (nm_text nm) i)
            (collect_match_indices (nm_text nm) fuzzy_old)"

definition fuzzy_span :: "units \<Rightarrow> norm_map \<Rightarrow> nat \<Rightarrow> (nat \<Rightarrow> nat \<Rightarrow> units) \<Rightarrow> nat \<Rightarrow> resolved_span" where
  "fuzzy_span content nm n repl i =
     (case fuzzy_bounds nm n i of
        (s, e) \<Rightarrow> \<lparr>match_index = s, match_length = e - s, replacement = repl s e\<rparr>)"

definition fuzzy_tier :: "(ustr \<Rightarrow> ustr) \<Rightarrow> units \<Rightarrow> edit_u16 \<Rightarrow> norm_map \<Rightarrow> found_spans option" where
  "fuzzy_tier nf content e nm =
     (let fuzzy_old = normalize_for_fuzzy_match nf (old_u16 e);
          fz = fuzzy_matches nm (old_u16 e) fuzzy_old
      in if fz = [] then None
         else if normalize_for_fuzzy_match nf (new_u16 e) = fuzzy_old then
           (let untouched = map (fuzzy_span content nm (length fuzzy_old) (slice content)) fz
            in Some \<lparr>spans = untouched, occurrences = length fz,
                     noop_fuzzy_span = (case untouched of [] \<Rightarrow> None | s # _ \<Rightarrow> Some s)\<rparr>)
         else Some \<lparr>spans = map (fuzzy_span content nm (length fuzzy_old) (replacement_for content e)) fz,
                    occurrences = length fz, noop_fuzzy_span = None\<rparr>)"

text \<open>Whether old line \<open>j\<close> matches the content line: the body of the inner loop.\<close>

definition block_line_ok :: "(ustr \<Rightarrow> ustr) \<Rightarrow> bool \<Rightarrow> units \<Rightarrow> units \<Rightarrow> bool" where
  "block_line_ok nf anch content_line old_line \<longleftrightarrow>
     block_normalize_line nf content_line = block_normalize_line nf old_line
     \<and> \<not> (anch \<and> normalized_indent content_line \<noteq> normalized_indent old_line)"

definition line_offsets :: "units list \<Rightarrow> nat list" where
  "line_offsets ls = map (\<lambda>i. sum_list (map (\<lambda>l. length l + 1) (take i ls))) [0 ..< length ls]"

definition ends_with_lf :: "units \<Rightarrow> bool" where
  "ends_with_lf t \<longleftrightarrow> t \<noteq> [] \<and> last t = LF"

definition block_old_lines :: "units \<Rightarrow> units list" where
  "block_old_lines old = (if ends_with_lf old then butlast (split_lines old) else split_lines old)"

definition block_span :: "units list \<Rightarrow> nat \<Rightarrow> bool \<Rightarrow> nat \<Rightarrow> nat \<times> nat" where
  "block_span content_lines k trailing i =
     (line_offsets content_lines ! i,
      sum_list (map (\<lambda>j. length (content_lines ! (i + j)) + (if j < k - 1 then 1 else 0)) [0 ..< k])
      + (if trailing \<and> i + k < length content_lines then 1 else 0))"

definition find_line_block_matches ::
  "(ustr \<Rightarrow> ustr) \<Rightarrow> units \<Rightarrow> units \<Rightarrow> bool \<Rightarrow> (nat \<times> nat) list" where
  "find_line_block_matches nf content old anch =
     (let old_lines = block_old_lines old;
          content_lines = split_lines content;
          k = length old_lines
      in if old_lines = [] \<or> length content_lines < k then []
         else map (block_span content_lines k (ends_with_lf old))
               (filter (\<lambda>i. \<forall>j \<in> set [0 ..< k]. block_line_ok nf anch (content_lines ! (i + j)) (old_lines ! j))
                  [0 ..< Suc (length content_lines - k)]))"

definition find_edit_spans ::
  "(ustr \<Rightarrow> ustr) \<Rightarrow> units \<Rightarrow> edit_u16 \<Rightarrow> norm_map option \<Rightarrow> found_spans" where
  "find_edit_spans nf content e fuzzy_index =
     (let exact = exact_matches content (old_u16 e) in
      if exact \<noteq> [] then
        \<lparr>spans = map (\<lambda>i. \<lparr>match_index = i, match_length = length (old_u16 e),
                            replacement = new_u16 e\<rparr>) exact,
         occurrences = length exact, noop_fuzzy_span = None\<rparr>
      else
        (case Option.bind fuzzy_index (fuzzy_tier nf content e) of
           Some found \<Rightarrow> found
         | None \<Rightarrow>
             (let bs = map (\<lambda>(i, n). \<lparr>match_index = i, match_length = n, replacement = new_u16 e\<rparr>)
                         (find_line_block_matches nf content (old_u16 e) (anchored (old_u16 e)))
              in \<lparr>spans = bs, occurrences = length bs, noop_fuzzy_span = None\<rparr>)))"

section \<open>Applying\<close>

definition to_u16 :: "edit \<Rightarrow> edit_u16" where
  "to_u16 e = \<lparr>old_u16 = encode_utf16 (normalize_to_lf (old_text e)),
               new_u16 = encode_utf16 (normalize_to_lf (new_text e)), all_u16 = replace_all e\<rparr>"

text \<open>The lazily built index; it is kept only when map and text agree in length.\<close>

definition fuzzy_index :: "(ustr \<Rightarrow> ustr) \<Rightarrow> (int \<Rightarrow> bool) \<Rightarrow> units \<Rightarrow> norm_map option" where
  "fuzzy_index nf mk base =
     (let built = normalize_for_fuzzy_match_with_map nf mk base
      in if length (nm_map built) = length (nm_text built) + 1 then Some built else None)"

definition as_matched :: "nat \<Rightarrow> resolved_span \<Rightarrow> matched_edit" where
  "as_matched i s = resolved_span.extend s \<lparr>edit_index = i\<rparr>"

text \<open>One round of the matching loop.\<close>

definition match_edit ::
  "(ustr \<Rightarrow> ustr) \<Rightarrow> units \<Rightarrow> norm_map option \<Rightarrow> nat \<Rightarrow> nat \<Rightarrow> edit_u16 \<Rightarrow> edit_error + matched_edit list" where
  "match_edit nf base fz tot i e =
     (let found = find_edit_spans nf base e fz in
      if spans found = [] then Inl (Not_Found i tot base (old_u16 e))
      else
        (case noop_fuzzy_span found of
           Some s \<Rightarrow> Inl (Fuzzy_Noop i tot base s)
         | None \<Rightarrow>
             if all_u16 e then Inr (map (as_matched i) (spans found))
             else if 1 < occurrences found then Inl (Duplicate i tot (occurrences found))
             else Inr [as_matched i (hd (spans found))]))"

fun match_edits ::
  "(ustr \<Rightarrow> ustr) \<Rightarrow> units \<Rightarrow> norm_map option \<Rightarrow> nat \<Rightarrow> nat \<Rightarrow> edit_u16 list \<Rightarrow> matched_edit list
     \<Rightarrow> edit_error + matched_edit list" where
  "match_edits nf base fz tot i [] matched = Inr matched"
| "match_edits nf base fz tot i (e # es) matched =
     (case match_edit nf base fz tot i e of
        Inl err \<Rightarrow> Inl err
      | Inr ms \<Rightarrow> match_edits nf base fz tot (i + 1) es (matched @ ms))"

fun find_overlap :: "matched_edit list \<Rightarrow> edit_error option" where
  "find_overlap (p # c # ms) =
     (if match_index c < match_index p + match_length p
      then Some (Overlap (edit_index p) (edit_index c)) else find_overlap (c # ms))"
| "find_overlap _ = None"

definition splice :: "units \<Rightarrow> matched_edit \<Rightarrow> units" where
  "splice content m =
     take (match_index m) content @ replacement m @ drop (match_index m + match_length m) content"

text \<open>The matched edits, sorted and free of overlaps, or the error.\<close>

definition resolve_edits ::
  "(ustr \<Rightarrow> ustr) \<Rightarrow> (int \<Rightarrow> bool) \<Rightarrow> units \<Rightarrow> edit_u16 list \<Rightarrow> edit_error + matched_edit list" where
  "resolve_edits nf mk base es =
     (case List.find (\<lambda>i. old_u16 (es ! i) = []) [0 ..< length es] of
        Some i \<Rightarrow> Inl (Empty_Old_Text i (length es))
      | None \<Rightarrow>
          (case match_edits nf base (fuzzy_index nf mk base) (length es) 0 es [] of
             Inl err \<Rightarrow> Inl err
           | Inr matched \<Rightarrow>
               (let ms = sort_key match_index matched in
                case find_overlap ms of Some err \<Rightarrow> Inl err | None \<Rightarrow> Inr ms)))"

definition apply_edits_to_normalized_content ::
  "(ustr \<Rightarrow> ustr) \<Rightarrow> (int \<Rightarrow> bool) \<Rightarrow> ustr \<Rightarrow> edit list \<Rightarrow> edit_error + applied_edits" where
  "apply_edits_to_normalized_content nf mk normalized_content edits =
     (let base = encode_utf16 normalized_content in
      case resolve_edits nf mk base (map to_u16 edits) of
        Inl err \<Rightarrow> Inl err
      | Inr ms \<Rightarrow>
          (let result = foldl splice base (rev ms) in
           if base = result then Inl (No_Change (length edits))
           else Inr \<lparr>base_content = normalized_content, new_content = from_utf16_lossy result\<rparr>))"

end
