(* ===== verification/Edit_Text_Properties.thy ===== *)
theory Edit_Text_Properties
  imports Edit_Text
begin

text \<open>
  What the text side promises: the search finds the first occurrence, line endings and the
  byte order mark round trip, the map of the fuzzy normalisation is monotone and inside the
  source, and the normalisation that carries the map produces the text of the plain one.
\<close>

section \<open>Search\<close>

definition occurs_at :: "units \<Rightarrow> units \<Rightarrow> nat \<Rightarrow> bool" where
  "occurs_at hay needle i \<longleftrightarrow> i + length needle \<le> length hay \<and> take (length needle) (drop i hay) = needle"

lemma occurs_at_head: "occurs_at hay needle i \<Longrightarrow> needle \<noteq> [] \<Longrightarrow> hay ! i = needle ! 0"
  by (cases needle) (auto simp: occurs_at_def nth_via_drop hd_drop_conv_nth dest: arg_cong [of _ _ hd])

lemma index_of_Some:
  assumes "needle \<noteq> []"
  shows "index_of hay needle from = Some i \<longleftrightarrow>
    from \<le> i \<and> occurs_at hay needle i \<and> (\<forall>j. from \<le> j \<and> j < i \<longrightarrow> \<not> occurs_at hay needle j)"
  using assms occurs_at_head [of hay needle]
  by (auto simp: index_of_def find_upt_Some occurs_at_def simp del: upt_Suc)

lemma index_of_None:
  assumes "needle \<noteq> []"
  shows "index_of hay needle from = None \<longleftrightarrow> (\<forall>j \<ge> from. \<not> occurs_at hay needle j)"
  using assms occurs_at_head [of hay needle]
  by (auto simp: index_of_def find_upt_None occurs_at_def simp del: upt_Suc)

section \<open>Line endings\<close>

lemma normalize_no_cr: "CR \<notin> set s \<Longrightarrow> normalize_to_lf s = s"
proof -
  assume "CR \<notin> set s"
  moreover from this have "replace_crlf s = s"
    by (induction s rule: replace_crlf.induct) auto
  ultimately show ?thesis by (auto simp: normalize_to_lf_def intro!: map_idI)
qed

lemma normalize_has_no_cr: "CR \<notin> set (normalize_to_lf s)"
  by (auto simp: normalize_to_lf_def)

lemma normalize_twice [simp]: "normalize_to_lf (normalize_to_lf s) = normalize_to_lf s"
  by (rule normalize_no_cr [OF normalize_has_no_cr])

lemma replace_crlf_subset: "set (replace_crlf s) \<subseteq> set s"
  by (induction s rule: replace_crlf.induct) auto

lemma normalize_subset: "set (normalize_to_lf s) \<subseteq> insert LF (set s)"
  using replace_crlf_subset [of s] by (auto simp: normalize_to_lf_def)

text \<open>A file whose every line break is CRLF: its characters, line breaks written as one unit.\<close>

fun all_crlf :: "ustr \<Rightarrow> bool" where
  "all_crlf [] = True"
| "all_crlf [c] = (c \<noteq> CR \<and> c \<noteq> LF)"
| "all_crlf (a # b # s) = (if a = CR then b = LF \<and> all_crlf s else a \<noteq> LF \<and> all_crlf (b # s))"

lemma restore_normalize_crlf:
  "all_crlf s \<Longrightarrow> restore_line_endings (normalize_to_lf s) CarriageReturnLineFeed = s"
  by (induction s rule: all_crlf.induct)
     (auto simp: restore_line_endings_def normalize_to_lf_def split: if_splits)

lemma find_str_lf: "find_str s [LF] = Some i \<Longrightarrow> i < length s \<and> s ! i = LF \<and> (\<forall>j < i. s ! j \<noteq> LF)"
proof -
  assume a: "find_str s [LF] = Some i"
  then have t: "take 1 (drop i s) = [LF]" and n: "\<forall>j < i. take 1 (drop j s) \<noteq> [LF]"
    by (auto simp: find_str_Some)
  from t have i: "i < length s" by (cases "i < length s") auto
  have "s ! j \<noteq> LF" if "j < i" for j
    using n that i by (auto simp: take_Suc_conv_app_nth hd_drop_conv_nth take_Suc)
  with t i show ?thesis by (auto simp: take_Suc hd_drop_conv_nth)
qed

lemma all_crlf_lf_after_cr: "all_crlf s \<Longrightarrow> i < length s \<Longrightarrow> s ! i = LF \<Longrightarrow> 0 < i \<and> s ! (i - 1) = CR"
proof (induction s arbitrary: i rule: all_crlf.induct)
  case (3 a b s)
  show ?case
  proof (cases "a = CR")
    case True
    with 3 have "i \<noteq> 0" by (cases i) auto
    then consider "i = 1" | k where "i = Suc (Suc k)" by (metis One_nat_def not0_implies_Suc)
    then show ?thesis
    proof cases
      case 2
      with "3.IH"(1) [of k] "3.prems" True have "0 < k \<and> s ! (k - 1) = CR" by simp
      with 2 show ?thesis by (cases k) simp_all
    qed (use True in simp)
  next
    case False
    with "3.prems" have s: "all_crlf (b # s)" "a \<noteq> LF" by simp_all
    with "3.prems"(3) obtain j where j: "i = Suc j" by (cases i) simp_all
    have "0 < j \<and> (b # s) ! (j - 1) = CR"
      by (rule "3.IH"(2) [OF False s(1)]) (use "3.prems"(2, 3) j in simp_all)
    then obtain m where "j = Suc m" "(b # s) ! m = CR" by (cases j) auto
    then show ?thesis unfolding j by simp
  qed
qed auto

lemma all_crlf_cr_lf: "all_crlf s \<Longrightarrow> CR \<in> set s \<Longrightarrow> LF \<in> set s"
  by (induction s rule: all_crlf.induct) (auto split: if_splits)

lemma detect_crlf:
  assumes "all_crlf s" and "LF \<in> set s"
  shows "detect_line_ending s = CarriageReturnLineFeed"
proof -
  from assms(2) obtain k where k: "k < length s" "s ! k = LF" by (auto simp: in_set_conv_nth)
  have "find_str s [LF] \<noteq> None"
    using k by (auto simp: find_str_def find_upt_None take_Suc hd_drop_conv_nth simp del: upt_Suc
      intro!: exI [of _ k])
  then obtain i where i: "find_str s [LF] = Some i" by auto
  from find_str_lf [OF i] have il: "i < length s" "s ! i = LF" by auto
  from all_crlf_lf_after_cr [OF assms(1) il] have p: "0 < i" "s ! (i - 1) = CR" by auto
  then have occ: "take 2 (drop (i - 1) s) = [CR, LF]"
    using il by (cases i) (auto simp: numeral_2_eq_2 take_Suc hd_drop_conv_nth tl_drop drop_Suc [symmetric])
  then have "find_str s [CR, LF] \<noteq> None"
    using il p by (auto simp: find_str_def find_upt_None numeral_2_eq_2 simp del: upt_Suc
      intro!: exI [of _ "i - 1"])
  then obtain j where j: "find_str s [CR, LF] = Some j" by auto
  have "j \<le> i - 1"
    using j occ by (auto simp: find_str_Some numeral_2_eq_2 not_le [symmetric])
  with p have "j < i" by simp
  with i j show ?thesis by (simp add: detect_line_ending_def)
qed

text \<open>
  Reading a file for an edit and writing it back changes nothing by itself: with the byte
  order mark taken off, its line breaks turned to LF, restored as detected and the mark put
  back, a file whose line breaks are all CRLF, or that has no CR at all, is the file that was
  read.
\<close>

theorem file_text_roundtrip:
  assumes "all_crlf (snd (strip_bom s)) \<or> CR \<notin> set (snd (strip_bom s))"
  shows "fst (strip_bom s)
       @ restore_line_endings (normalize_to_lf (snd (strip_bom s)))
           (detect_line_ending (snd (strip_bom s))) = s"
proof -
  let ?t = "snd (strip_bom s)"
  have split: "fst (strip_bom s) @ ?t = s"
    by (auto simp: strip_bom_def strip_prefix_def prefix_def split: option.splits)
  have no_cr: "restore_line_endings (normalize_to_lf ?t) (detect_line_ending ?t) = ?t" if "CR \<notin> set ?t"
  proof -
    have "find_str ?t [CR, LF] = None"
    proof (rule ccontr)
      assume "find_str ?t [CR, LF] \<noteq> None"
      then obtain i where "take 2 (drop i ?t) = [CR, LF]" by (auto simp: find_str_Some numeral_2_eq_2)
      then have "CR \<in> set (take 2 (drop i ?t))" by simp
      with that show False by (meson in_set_dropD in_set_takeD)
    qed
    then have "detect_line_ending ?t = LineFeed" by (simp add: detect_line_ending_def)
    with that show ?thesis by (simp add: normalize_no_cr restore_line_endings_def)
  qed
  have crlf: "restore_line_endings (normalize_to_lf ?t) (detect_line_ending ?t) = ?t" if "all_crlf ?t"
  proof (cases "LF \<in> set ?t")
    case True
    with that show ?thesis by (simp add: detect_crlf restore_normalize_crlf)
  next
    case False
    with that have "CR \<notin> set ?t" using all_crlf_cr_lf by blast
    then show ?thesis by (rule no_cr)
  qed
  from assms no_cr crlf split show ?thesis by auto
qed

theorem file_text_roundtrip_witness:
  "restore_line_endings (normalize_to_lf [97, CR, LF, 98]) (detect_line_ending [97, CR, LF, 98])
     = [97, CR, LF, 98]"
proof -
  have s: "strip_bom [65279, 97, CR, LF, 98] = ([65279], [97, CR, LF, 98])"
    by (simp add: strip_bom_def strip_prefix_def)
  have "all_crlf [97, CR, LF, 98]" by simp
  with file_text_roundtrip [of "[65279, 97, CR, LF, 98]"] show ?thesis by (simp add: s)
qed

section \<open>The map\<close>

text \<open>Pairs whose source indices grow and stay in an interval.\<close>

definition mapped_in :: "nat \<Rightarrow> nat \<Rightarrow> (int \<times> nat) list \<Rightarrow> bool" where
  "mapped_in a b ps \<longleftrightarrow> sorted (map snd ps) \<and> (\<forall>p \<in> set ps. a \<le> snd p \<and> snd p < b)"

lemma mapped_in_Nil [simp]: "mapped_in a b []"
  by (simp add: mapped_in_def)

lemma mapped_in_append:
  "mapped_in a m ps \<Longrightarrow> mapped_in m b qs \<Longrightarrow> a \<le> m \<Longrightarrow> m \<le> b \<Longrightarrow> mapped_in a b (ps @ qs)"
  by (fastforce simp: mapped_in_def sorted_append)

lemma mapped_in_Cons:
  "a \<le> i \<Longrightarrow> i < b \<Longrightarrow> mapped_in i b ps \<Longrightarrow> mapped_in a b ((u, i) # ps)"
  by (auto simp: mapped_in_def)

lemma mapped_in_step:
  "a \<le> i \<Longrightarrow> i < j \<Longrightarrow> j \<le> b \<Longrightarrow> mapped_in j b ps \<Longrightarrow> mapped_in a b ((u, i) # ps)"
  by (auto simp: mapped_in_def)

lemma mapped_in_mono: "mapped_in a b ps \<Longrightarrow> a' \<le> a \<Longrightarrow> b \<le> b' \<Longrightarrow> mapped_in a' b' ps"
  by (force simp: mapped_in_def)

lemma mapped_in_tl: "mapped_in a b (p # ps) \<Longrightarrow> mapped_in a b ps"
  by (simp add: mapped_in_def)

lemma mapped_in_hd: "mapped_in a b (p # ps) \<Longrightarrow> a \<le> snd p \<and> snd p < b \<and> mapped_in (snd p) b ps"
  by (simp add: mapped_in_def)

lemma subseq_mapped_in: "subseq qs ps \<Longrightarrow> mapped_in a b ps \<Longrightarrow> mapped_in a b qs"
proof (induction arbitrary: a rule: list_emb.induct)
  case (list_emb_Cons xs ys y)
  then show ?case by (blast dest: mapped_in_tl)
next
  case (list_emb_Cons2 x y xs ys)
  from mapped_in_hd [OF list_emb_Cons2.prems] have q: "a \<le> snd y" "snd y < b" "mapped_in (snd y) b ys"
    by simp_all
  from mapped_in_Cons [OF q(1, 2) list_emb_Cons2.IH [OF q(3)], of "fst y"] list_emb_Cons2.hyps
  show ?case by simp
qed simp

lemma mapped_in_subseq: "mapped_in a b ps \<Longrightarrow> subseq qs ps \<Longrightarrow> mapped_in a b qs"
  by (rule subseq_mapped_in)

text \<open>A map that fits its text and a source of \<open>n\<close> units.\<close>

definition map_ok :: "nat \<Rightarrow> norm_map \<Rightarrow> bool" where
  "map_ok n nm \<longleftrightarrow> length (nm_map nm) = length (nm_text nm) + 1 \<and> sorted (nm_map nm)
     \<and> (\<forall>i \<in> set (nm_map nm). i \<le> n)"

lemma with_end_ok: "mapped_in 0 n ps \<Longrightarrow> map_ok n (with_end n ps)"
  by (auto simp: map_ok_def with_end_def mapped_in_def sorted_append less_imp_le)

lemma skip_marks_le: "i \<le> length t \<Longrightarrow> skip_marks mk t i \<le> length t"
proof (induction mk t i rule: skip_marks.induct)
  case (1 mk t i)
  have len: "i + snd (code_point_at t i) \<le> length t" if "i < length t"
    using that by (auto simp: code_point_at_def Let_def)
  show ?case
    by (subst skip_marks.simps) (use 1 len in \<open>auto split: prod.splits\<close>)
qed

lemma cluster_bounds:
  fixes mk :: "int \<Rightarrow> bool"
  assumes "i < length t"
  shows "i < skip_marks mk t (i + snd (code_point_at t i))"
    and "skip_marks mk t (i + snd (code_point_at t i)) \<le> length t"
proof -
  have "i + snd (code_point_at t i) \<le> length t"
    using assms by (auto simp: code_point_at_def Let_def)
  then show "skip_marks mk t (i + snd (code_point_at t i)) \<le> length t" by (rule skip_marks_le)
  show "i < skip_marks mk t (i + snd (code_point_at t i))"
    using code_point_at_len [of t i] skip_marks_ge [of "i + snd (code_point_at t i)" mk t]
    by linarith
qed

lemma nfkc_pairs_mapped: "i \<le> length t \<Longrightarrow> mapped_in i (length t) (nfkc_pairs nf mk t i)"
proof (induction nf mk t i rule: nfkc_pairs.induct)
  case (1 nf mk t i)
  show ?case
  proof (cases "i < length t")
    case True
    let ?e = "skip_marks mk t (i + snd (code_point_at t i))"
    note b = cluster_bounds [OF True, of mk]
    have "mapped_in i ?e (map (\<lambda>u. (u, i)) xs)" for xs :: units
      using b(1) by (auto simp: mapped_in_def sorted_wrt_map comp_def sorted_iff_nth_mono)
    moreover have "mapped_in ?e (length t) (nfkc_pairs nf mk t ?e)"
      using 1 True b by simp
    ultimately show ?thesis
      using True b by (subst nfkc_pairs.simps) (auto simp: Let_def intro!: mapped_in_append [of i ?e])
  qed (simp add: nfkc_pairs.simps)
qed

lemma lf_pairs_mapped: "mapped_in i (i + length t) (lf_pairs i t)"
proof (induction i t rule: lf_pairs.induct)
  case (3 i u v us)
  show ?case
  proof (cases "u = CR \<and> v = LF")
    case True
    with 3(1) show ?thesis by (auto intro: mapped_in_step [of i i "i + 2"])
  next
    case False
    with 3(2) have "mapped_in (i + 1) (i + length (u # v # us)) (lf_pairs (i + 1) (v # us))" by simp
    then have "mapped_in i (i + length (u # v # us)) ((w, i) # lf_pairs (i + 1) (v # us))" for w
      by (intro mapped_in_step [of i i "i + 1"]) simp_all
    with False show ?thesis by auto
  qed
qed (simp_all add: mapped_in_def)

lemma expand_tabs_mapped: "mapped_in a b ps \<Longrightarrow> mapped_in a b (expand_tabs ps)"
proof (induction ps arbitrary: a)
  case (Cons p ps)
  obtain u i where p: "p = (u, i)" by fastforce
  from Cons.prems have i: "a \<le> i" "i < b" "mapped_in i b ps" by (auto simp: p mapped_in_def)
  from Cons.IH [OF i(3)] i show ?case
    by (auto simp: p expand_tabs_def intro!: mapped_in_Cons)
qed (simp add: expand_tabs_def)

lemma emit_units_subseq: "\<exists>qs. emit_units n i acc ps = acc @ qs \<and> subseq qs ps"
proof (induction n i acc ps rule: emit_units.induct)
  case (2 n i acc p ps)
  show ?case
  proof (cases "n \<le> i \<and> fst p = SPACE \<and> acc \<noteq> [] \<and> fst (last acc) = SPACE \<and> n < length acc")
    case True
    with 2(1) show ?thesis by (auto simp: subseq_Cons')
  next
    case False
    with 2(2) obtain qs where "emit_units n (i + 1) (acc @ [p]) ps = (acc @ [p]) @ qs" "subseq qs ps"
      by blast
    with False show ?thesis by (intro exI [of _ "p # qs"]) auto
  qed
qed simp

lemma subseq_drop_trailing: "subseq (drop_trailing P xs) xs"
  by (simp add: drop_trailing_def prefix_imp_subseq take_is_prefix)

lemma line_pairs_mapped: "mapped_in a b ps \<Longrightarrow> mapped_in a b (line_pairs ps)"
proof -
  assume "mapped_in a b ps"
  then have m: "mapped_in a b (expand_tabs ps)" by (rule expand_tabs_mapped)
  have "subseq (line_pairs ps) (expand_tabs ps)"
    using emit_units_subseq [of _ 0 "[]" "expand_tabs ps"]
    by (auto simp: line_pairs_def Let_def intro: subseq_order.order_trans [OF subseq_drop_trailing])
  with m show ?thesis by (rule mapped_in_subseq)
qed

lemma ws_pairs_mapped: "s \<le> length t \<Longrightarrow> mapped_in s (length t) (ws_pairs t s)"
proof (induction t s rule: ws_pairs.induct)
  case (1 t s)
  have line: "mapped_in s e (line_pairs (map (\<lambda>i. (t ! i, i)) [s ..< e]))" for e
    by (rule line_pairs_mapped) (auto simp: mapped_in_def comp_def)
  show ?case
  proof (cases "index_of t [LF] s")
    case None
    then show ?thesis by (subst ws_pairs.simps) (simp add: line)
  next
    case (Some e)
    from index_of_bounds [OF Some] have e: "s \<le> e" "e < length t" by simp_all
    have "mapped_in (e + 1) (length t) (ws_pairs t (e + 1))"
      using 1(1) [OF _ refl] Some e by simp
    then have "mapped_in e (length t) ((LF, e) # ws_pairs t (e + 1))"
      by (intro mapped_in_Cons) (use e in \<open>auto elim: mapped_in_mono\<close>)
    with line [of e] have "mapped_in s (length t) (line_pairs (map (\<lambda>i. (t ! i, i)) [s ..< e])
        @ (LF, e) # ws_pairs t (e + 1))"
      by (rule mapped_in_append) (use e in simp_all)
    then show ?thesis by (subst ws_pairs.simps) (simp add: Some)
  qed
qed

lemma compose_maps_ok:
  assumes "map_ok (length (nm_text inner)) outer" and "map_ok n inner"
  shows "map_ok n \<lparr>nm_text = nm_text outer, nm_map = compose_maps (nm_map outer) (nm_map inner)\<rparr>"
proof -
  let ?f = "\<lambda>i. if i < length (nm_map inner) then nm_map inner ! i else last (nm_map inner)"
  have lt: "i < length (nm_map inner)" if "i \<in> set (nm_map outer)" for i
    using that assms by (force simp: map_ok_def)
  have mono: "?f i \<le> ?f j" if "i \<in> set (nm_map outer)" "j \<in> set (nm_map outer)" "i \<le> j" for i j
    using that lt assms(2) by (simp add: map_ok_def sorted_nth_mono)
  have "nm_map inner \<noteq> []" using assms(2) by (auto simp: map_ok_def)
  then have c: "compose_maps (nm_map outer) (nm_map inner) = map ?f (nm_map outer)"
    by (simp add: compose_maps_def)
  have "sorted (map ?f (nm_map outer))"
    unfolding sorted_wrt_map
    by (rule sorted_wrt_mono_rel [of _ "(\<le>)"]) (use assms(1) mono in \<open>auto simp: map_ok_def\<close>)
  moreover have "\<forall>i \<in> set (map ?f (nm_map outer)). i \<le> n"
    using assms(2) lt by (auto simp: map_ok_def)
  ultimately show ?thesis using assms(1) by (simp add: map_ok_def c)
qed

lemma subst_map_ok: "map_ok n \<lparr>nm_text = map f t, nm_map = m\<rparr> \<longleftrightarrow> map_ok n \<lparr>nm_text = t, nm_map = m\<rparr>"
  by (simp add: map_ok_def)

text \<open>
  The fuzzy index always fits: whatever NFKC returns for a cluster, the map of the
  normalized text has one entry per unit and one for the end, its entries never decrease, and
  none lies past the end of the file. So the length check of the edit tool always succeeds and
  the spans read through the map are proper slices of the file.
\<close>

theorem fuzzy_map_in_source:
  "length (nm_map (normalize_for_fuzzy_match_with_map nf mk t))
     = length (nm_text (normalize_for_fuzzy_match_with_map nf mk t)) + 1
   \<and> sorted (nm_map (normalize_for_fuzzy_match_with_map nf mk t))
   \<and> set (nm_map (normalize_for_fuzzy_match_with_map nf mk t)) \<subseteq> {..length t}"
proof -
  let ?nk = "nfkc_with_map nf mk t"
  let ?lf = "to_lf_with_map (nm_text ?nk)"
  let ?ls = "normalize_line_whitespace_with_map (nm_text ?lf)"
  have nk: "map_ok (length t) ?nk"
    unfolding nfkc_with_map_def by (rule with_end_ok) (simp add: nfkc_pairs_mapped)
  have lf: "map_ok (length (nm_text ?nk)) ?lf"
    unfolding to_lf_with_map_def using lf_pairs_mapped [of 0] by (intro with_end_ok) simp
  have ls: "map_ok (length (nm_text ?lf)) ?ls"
    unfolding normalize_line_whitespace_with_map_def by (rule with_end_ok) (simp add: ws_pairs_mapped)
  from compose_maps_ok [OF compose_maps_ok [OF ls lf] nk]
  have "map_ok (length t) (normalize_for_fuzzy_match_with_map nf mk t)"
    by (simp add: normalize_for_fuzzy_match_with_map_def Let_def apply_char_substitutions_def subst_map_ok)
  then show ?thesis by (auto simp: map_ok_def)
qed

section \<open>Both normalisers agree\<close>

lemma lf_pairs_units: "map fst (lf_pairs i t) = lf_units t"
  by (induction i t rule: lf_pairs.induct) auto

lemma expand_tabs_units:
  "map fst (expand_tabs ps) = concat (map (\<lambda>u. if u = TAB then [SPACE, SPACE] else [u]) (map fst ps))"
  by (induction ps) (auto simp: expand_tabs_def)

lemma takeWhile_map_length: "length (takeWhile (\<lambda>p. P (f p)) xs) = length (takeWhile P (map f xs))"
  by (simp add: takeWhile_map comp_def)

lemma drop_trailing_map: "map f (drop_trailing (\<lambda>p. P (f p)) xs) = drop_trailing P (map f xs)"
  by (simp add: drop_trailing_def take_map [symmetric] rev_map [symmetric] takeWhile_map_length)

lemma emit_units_indent:
  "length acc = i \<Longrightarrow> i + length ps \<le> n \<Longrightarrow> emit_units n i acc (ps @ qs) = emit_units n (i + length ps) (acc @ ps) qs"
proof (induction ps arbitrary: i acc)
  case (Cons p ps)
  then have "emit_units n (Suc i) (acc @ [p]) (ps @ qs) = emit_units n (Suc i + length ps) ((acc @ [p]) @ ps) qs"
    by (intro Cons.IH) simp_all
  with Cons.prems show ?case by simp
qed simp

lemma emit_units_squeeze:
  "n \<le> i \<Longrightarrow> map fst (emit_units n i acc ps) = squeeze n (map fst acc) (map fst ps)"
  by (induction n i acc ps rule: emit_units.induct) (auto simp: last_map)

lemma line_pairs_units: "map fst (line_pairs ps) = normalize_line (map fst ps)"
proof -
  let ?e = "expand_tabs ps"
  let ?n = "length (takeWhile (\<lambda>p. is_js_space_unit (fst p)) ?e)"
  have n: "?n = length (takeWhile is_js_space_unit (map fst ?e))"
    by (rule takeWhile_map_length)
  have "?n \<le> length ?e" by (rule length_takeWhile_le)
  then have "emit_units ?n 0 [] (take ?n ?e @ drop ?n ?e) = emit_units ?n ?n (take ?n ?e) (drop ?n ?e)"
    by (subst emit_units_indent) simp_all
  then have "map fst (emit_units ?n 0 [] ?e) = squeeze ?n (take ?n (map fst ?e)) (drop ?n (map fst ?e))"
    by (simp add: emit_units_squeeze take_map drop_map)
  then show ?thesis
    by (simp add: line_pairs_def normalize_line_def Let_def drop_trailing_map n expand_tabs_units)
qed

lemma split_on_first: "x \<notin> set a \<Longrightarrow> split_on x (a @ x # b) = a # split_on x b"
  by (induction a) auto

lemma join_first_line: "ls \<noteq> [] \<Longrightarrow> join sep (l # ls) = l @ sep @ join sep ls"
  by (cases ls) auto

lemma index_of_lf:
  "index_of t [LF] s = Some e \<longleftrightarrow> s \<le> e \<and> e < length t \<and> t ! e = LF \<and> (\<forall>j. s \<le> j \<and> j < e \<longrightarrow> t ! j \<noteq> LF)"
  by (auto simp: index_of_def find_upt_Some take_Suc hd_drop_conv_nth simp del: upt_Suc)

lemma ws_pairs_units:
  "s \<le> length t \<Longrightarrow> map fst (ws_pairs t s) = join_lines (map normalize_line (split_lines (drop s t)))"
proof (induction t s rule: ws_pairs.induct)
  case (1 t s)
  have seg: "map fst (line_pairs (map (\<lambda>i. (t ! i, i)) [s ..< e])) = normalize_line (take (e - s) (drop s t))"
    if "e \<le> length t" for e
  proof -
    have "map (\<lambda>i. t ! i) [s ..< e] = take (e - s) (drop s t)"
      using that by (intro nth_equalityI) auto
    then show ?thesis by (simp add: line_pairs_units comp_def)
  qed
  show ?case
  proof (cases "index_of t [LF] s")
    case None
    then have "LF \<notin> set (drop s t)"
      by (auto simp: index_of_None occurs_at_def in_set_conv_nth take_Suc hd_drop_conv_nth)
    then have "split_lines (drop s t) = [drop s t]"
      by (simp add: split_lines_def split_on_single)
    with None 1(2) seg [of "length t"] show ?thesis
      by (subst ws_pairs.simps) (simp add: join_lines_def)
  next
    case (Some e)
    then have e: "s \<le> e" "e < length t" "t ! e = LF" and nolf: "\<forall>j. s \<le> j \<and> j < e \<longrightarrow> t ! j \<noteq> LF"
      by (auto simp: index_of_lf)
    let ?a = "take (e - s) (drop s t)"
    have "drop (e - s) (drop s t) = drop e t" using e by simp
    also have "\<dots> = LF # drop (e + 1) t"
      using Cons_nth_drop_Suc [OF e(2)] e(3) by simp
    finally have "drop (e - s) (drop s t) = LF # drop (e + 1) t" .
    then have "drop s t = ?a @ LF # drop (e + 1) t"
      by (metis append_take_drop_id)
    moreover have "LF \<notin> set ?a"
      using nolf e by (auto simp: in_set_conv_nth)
    ultimately have sp: "split_lines (drop s t) = ?a # split_lines (drop (e + 1) t)"
      unfolding split_lines_def using split_on_first by metis
    have "map fst (ws_pairs t (e + 1)) = join_lines (map normalize_line (split_lines (drop (e + 1) t)))"
      using 1(1) [OF _ refl] Some e by simp
    then show ?thesis
      by (subst ws_pairs.simps)
         (use e seg [of e] in \<open>simp add: Some sp [unfolded split_lines_def] join_lines_def split_lines_def join_first_line\<close>)
  qed
qed

text \<open>Both normalisers give the same text when NFKC of the whole is NFKC cluster by cluster.\<close>

lemma normalisers_agree:
  assumes "map fst (nfkc_pairs nf mk t 0) = nfkc nf t"
  shows "nm_text (normalize_for_fuzzy_match_with_map nf mk t) = normalize_for_fuzzy_match nf t"
  using assms
  by (simp add: normalize_for_fuzzy_match_with_map_def normalize_for_fuzzy_match_def Let_def
      nfkc_with_map_def to_lf_with_map_def normalize_line_whitespace_with_map_def with_end_def
      ws_pairs_units lf_pairs_units)

text \<open>Units that are code points of their own.\<close>

lemma from_utf16_plain: "\<forall>u \<in> set t. 0 \<le> u \<and> u < 55296 \<Longrightarrow> from_utf16 t = Some t"
  by (induction t rule: from_utf16.induct) (auto simp: high_surrogate_def low_surrogate_def)

lemma encode_utf16_plain: "\<forall>u \<in> set t. 0 \<le> u \<and> u < 55296 \<Longrightarrow> encode_utf16 t = t"
  by (induction t) (auto simp: encode_utf16_Cons)

lemma nfkc_stable:
  assumes "\<forall>s. set s \<subseteq> A \<longrightarrow> nf s = s" and "A \<subseteq> {0..<55296}" and "set t \<subseteq> A"
  shows "nfkc nf t = t"
proof -
  from assms have "\<forall>u \<in> set t. 0 \<le> u \<and> u < 55296" by auto
  with assms show ?thesis by (simp add: nfkc_def from_utf16_plain encode_utf16_plain)
qed

lemma nfkc_pairs_stable:
  assumes "\<forall>s. set s \<subseteq> A \<longrightarrow> nf s = s" and "A \<subseteq> {0..<55296}" and "set t \<subseteq> A"
  shows "i \<le> length t \<Longrightarrow> map fst (nfkc_pairs nf mk t i) = drop i t"
  using assms
proof (induction nf mk t i rule: nfkc_pairs.induct)
  case (1 nf mk t i)
  show ?case
  proof (cases "i < length t")
    case True
    let ?e = "skip_marks mk t (i + snd (code_point_at t i))"
    note b = cluster_bounds [OF True, of mk]
    have "set (take (?e - i) (drop i t)) \<subseteq> A"
      using 1(5) by (meson order_trans set_drop_subset set_take_subset)
    then have "nfkc nf (take (?e - i) (drop i t)) = take (?e - i) (drop i t)"
      by (rule nfkc_stable [OF 1(3, 4)])
    moreover have "map fst (nfkc_pairs nf mk t ?e) = drop ?e t"
      using 1 True b by simp
    moreover have "take (?e - i) (drop i t) @ drop ?e t = drop i t"
      using b by (metis append_take_drop_id drop_drop le_add_diff_inverse2 less_imp_le)
    ultimately show ?thesis
      using True by (subst nfkc_pairs.simps) (simp add: Let_def comp_def)
  qed (simp add: nfkc_pairs.simps)
qed

text \<open>
  The normaliser that builds the map, a loop over clusters, units and lines, produces the
  text of the plain normaliser that splits and joins lines: for every text over characters
  that NFKC leaves alone (ASCII text, for one), tabs, indentation, runs of spaces, trailing
  white space, line endings, quotes and dashes come out the same.
\<close>

theorem fuzzy_normalisers_agree:
  assumes "\<forall>s. set s \<subseteq> A \<longrightarrow> nf s = s" and "A \<subseteq> {0..<55296}" and "set t \<subseteq> A"
  shows "nm_text (normalize_for_fuzzy_match_with_map nf mk t) = normalize_for_fuzzy_match nf t"
  using nfkc_pairs_stable [OF assms, of 0 mk] nfkc_stable [OF assms] by (intro normalisers_agree) simp

theorem fuzzy_normalisers_agree_witness:
  "nm_text (normalize_for_fuzzy_match_with_map (\<lambda>s. s) (\<lambda>_. False) (U ''a  b '' @ [CR, LF, TAB, 99]))
     = normalize_for_fuzzy_match (\<lambda>s. s) (U ''a  b '' @ [CR, LF, TAB, 99])"
  by (rule fuzzy_normalisers_agree [of "{0..<55296}"]) (auto simp: ustr_eval)

end
