(* ===== verification/Edit_Properties.thy ===== *)
theory Edit_Properties
  imports Edit_Match Edit_Text_Properties
begin

text \<open>
  What the edit engine promises: every span it reports is a slice of the file, an accepted
  call replaces disjoint slices and leaves every other unit in place, an edit that is not
  \<open>replaceAll\<close> changes one place only, and a rejected call names the first edit at fault.
\<close>

section \<open>Collected matches\<close>

lemma collect_from_spec:
  assumes "needle \<noteq> []"
  shows "(\<forall>i \<in> set (collect_from hay needle from). from \<le> i \<and> occurs_at hay needle i)
    \<and> sorted_wrt (\<lambda>i j. i + length needle \<le> j) (collect_from hay needle from)
    \<and> (\<forall>j \<ge> from. occurs_at hay needle j \<longrightarrow>
          (\<exists>i \<in> set (collect_from hay needle from). i \<le> j \<and> j < i + length needle))"
  using assms
proof (induction hay needle "from" rule: collect_from.induct)
  case (1 hay needle s)
  show ?case
  proof (cases "index_of hay needle s")
    case None
    have "collect_from hay needle s = []"
      by (subst collect_from.simps) (simp add: None)
    with None 1(2) show ?thesis by (simp add: index_of_None)
  next
    case (Some i)
    note IH = 1(1) [OF 1(2) Some 1(2)]
    from Some 1(2) have i: "s \<le> i" "occurs_at hay needle i" "\<forall>j. s \<le> j \<and> j < i \<longrightarrow> \<not> occurs_at hay needle j"
      by (simp_all add: index_of_Some)
    have c: "collect_from hay needle s = i # collect_from hay needle (i + length needle)"
      using 1(2) by (subst collect_from.simps) (simp add: Some)
    have "\<exists>k \<in> set (collect_from hay needle s). k \<le> j \<and> j < k + length needle"
      if j: "s \<le> j" "occurs_at hay needle j" for j
    proof (cases "j < i + length needle")
      case True
      moreover have "i \<le> j" using i(3) j by (meson not_le)
      ultimately show ?thesis by (auto simp: c)
    next
      case False
      with IH j obtain k where "k \<in> set (collect_from hay needle (i + length needle))"
        "k \<le> j \<and> j < k + length needle" by (meson not_le)
      then show ?thesis by (auto simp: c)
    qed
    with IH i show ?thesis by (auto simp: c intro: le_trans [OF le_add1])
  qed
qed

lemma collect_sound: "i \<in> set (collect_match_indices hay needle) \<Longrightarrow> occurs_at hay needle i"
proof -
  assume i: "i \<in> set (collect_match_indices hay needle)"
  then have "needle \<noteq> []"
    by (auto simp: collect_match_indices_def collect_from.simps [of hay "[]"])
  from collect_from_spec [OF this, of hay 0] i show ?thesis
    by (auto simp: collect_match_indices_def)
qed

text \<open>
  The matches of one edit are exactly the leftmost non-overlapping occurrences: every
  index is a real occurrence of the old text, the matches come in order without overlap, and
  every occurrence overlaps a reported match, so none is missed.
\<close>

theorem matches_leftmost:
  assumes "needle \<noteq> []"
  shows "(\<forall>i \<in> set (collect_match_indices hay needle). occurs_at hay needle i)
    \<and> sorted_wrt (\<lambda>i j. i + length needle \<le> j) (collect_match_indices hay needle)
    \<and> (\<forall>j. occurs_at hay needle j \<longrightarrow>
          (\<exists>i \<in> set (collect_match_indices hay needle). i \<le> j \<and> j < i + length needle))"
  using collect_from_spec [OF assms, of hay 0] by (simp add: collect_match_indices_def)

theorem matches_leftmost_witness:
  "sorted_wrt (\<lambda>i j. i + length (U ''aa'') \<le> j) (collect_match_indices (U ''aaaaa'') (U ''aa''))"
  using matches_leftmost [of "U ''aa''" "U ''aaaaa''"] by simp

section \<open>Spans lie in the file\<close>

definition span_in :: "nat \<Rightarrow> 'a resolved_span_scheme \<Rightarrow> bool" where
  "span_in n s \<longleftrightarrow> match_index s + match_length s \<le> n"

lemma fuzzy_bounds_in:
  assumes "map_ok n nm" and "i + k \<le> length (nm_text nm)"
  shows "fst (fuzzy_bounds nm k i) \<le> snd (fuzzy_bounds nm k i)" and "snd (fuzzy_bounds nm k i) \<le> n"
  using assms by (auto simp: fuzzy_bounds_def map_ok_def sorted_nth_mono)

lemma fuzzy_span_in:
  assumes "map_ok n nm" and "i \<in> set (fuzzy_matches nm old fz)"
  shows "span_in n (fuzzy_span content nm (length fz) r i)"
proof -
  have "occurs_at (nm_text nm) fz i"
    using assms(2) by (auto simp: fuzzy_matches_def intro: collect_sound)
  then have "i + length fz \<le> length (nm_text nm)" by (simp add: occurs_at_def)
  from fuzzy_bounds_in [OF assms(1) this] show ?thesis
    by (auto simp: fuzzy_span_def span_in_def split: prod.splits)
qed

lemma length_join_lines: "length (join [c] ls) + 1 = sum_list (map (\<lambda>l. length l + 1) ls) \<or> ls = []"
  by (induction "[c]" ls rule: join.induct) auto

lemma sum_lines_le:
  assumes "i + k \<le> length ls" and "0 < k"
  shows "sum_list (map (\<lambda>l. length l + 1) (take i ls))
       + sum_list (map (\<lambda>j. length (ls ! (i + j)) + (if j < k - 1 then 1 else 0)) [0 ..< k])
       + (if i + k < length ls then 1 else 0) \<le> length (join [c] ls)"
proof -
  let ?f = "\<lambda>l. length l + 1"
  have mid: "map (\<lambda>j. ls ! (i + j)) [0 ..< k] = take k (drop i ls)"
    using assms by (intro nth_equalityI) auto
  have "sum_list (map (\<lambda>j. length (ls ! (i + j)) + (if j < k - 1 then 1 else 0)) [0 ..< k]) + 1
      = sum_list (map (\<lambda>j. ?f (ls ! (i + j))) [0 ..< k])"
    using assms(2)
  proof (induction k rule: nat_induct_non_zero)
    case (Suc k)
    have "sum_list (map (\<lambda>j. length (ls ! (i + j)) + (if j < k then 1 else 0)) [0 ..< k])
        = sum_list (map (\<lambda>j. Suc (length (ls ! (i + j)))) [0 ..< k])"
      by (intro arg_cong [of _ _ sum_list] map_cong) auto
    then show ?case by simp
  qed simp
  also have "\<dots> = sum_list (map ?f (take k (drop i ls)))"
    unfolding mid [symmetric] by (simp add: comp_def)
  finally have m: "sum_list (map (\<lambda>j. length (ls ! (i + j)) + (if j < k - 1 then 1 else 0)) [0 ..< k]) + 1
      = sum_list (map ?f (take k (drop i ls)))" .
  have "ls = take i ls @ take k (drop i ls) @ drop (i + k) ls"
    by (metis append_take_drop_id drop_drop add.commute)
  then have "sum_list (map ?f ls) = sum_list (map ?f (take i ls)) + sum_list (map ?f (take k (drop i ls)))
      + sum_list (map ?f (drop (i + k) ls))"
    by (metis map_append sum_list_append add.assoc)
  moreover have "(if i + k < length ls then 1 else 0) \<le> sum_list (map ?f (drop (i + k) ls))"
    by (cases "drop (i + k) ls") auto
  ultimately show ?thesis
    using m length_join_lines [of c ls] assms by auto
qed

lemma block_span_in:
  assumes "(i, n) \<in> set (find_line_block_matches nf content old anch)"
  shows "i + n \<le> length content"
proof -
  let ?cl = "split_lines content"
  let ?k = "length (block_old_lines old)"
  have ne: "\<not> (block_old_lines old = [] \<or> length ?cl < ?k)"
    using assms by (auto simp: find_line_block_matches_def Let_def)
  with assms have "(i, n) \<in> block_span ?cl ?k (ends_with_lf old) ` {0 ..< Suc (length ?cl - ?k)}"
    by (auto simp: find_line_block_matches_def Let_def simp del: upt_Suc)
  then obtain b where i: "(i, n) = block_span ?cl ?k (ends_with_lf old) b"
    and "b \<in> {0 ..< Suc (length ?cl - ?k)}" by (rule imageE)
  then have b: "b \<le> length ?cl - ?k" by simp
  from ne have k: "0 < ?k" by blast
  with b ne have bk: "b + ?k \<le> length ?cl" by linarith
  with k have "b < length ?cl" by linarith
  then have "line_offsets ?cl ! b = sum_list (map (\<lambda>l. length l + 1) (take b ?cl))"
    by (simp add: line_offsets_def)
  with sum_lines_le [OF bk k, of LF] i show ?thesis
    by (simp add: block_span_def split_lines_def split_on_join split: if_splits)
qed

lemma find_edit_spans_in:
  assumes "s \<in> set (spans (find_edit_spans nf content e fz))" and "\<forall>nm. fz = Some nm \<longrightarrow> map_ok (length content) nm"
  shows "span_in (length content) s"
proof (cases "exact_matches content (old_u16 e) = []")
  case False
  with assms(1) obtain i where "i \<in> set (exact_matches content (old_u16 e))"
    and s: "match_index s = i" "match_length s = length (old_u16 e)"
    by (auto simp: find_edit_spans_def Let_def)
  then have "occurs_at content (old_u16 e) i" by (auto simp: exact_matches_def intro: collect_sound)
  with s show ?thesis by (simp add: span_in_def occurs_at_def)
next
  case True
  note ex = this
  show ?thesis
  proof (cases "Option.bind fz (fuzzy_tier nf content e)")
    case None
    with assms(1) True show ?thesis
      by (auto simp: find_edit_spans_def span_in_def dest: block_span_in)
  next
    case (Some found)
    then obtain nm where nm: "fz = Some nm" and ft: "fuzzy_tier nf content e nm = Some found"
      by (auto simp: bind_eq_Some_conv)
    from assms(1) ex Some have "s \<in> set (spans found)" by (simp add: find_edit_spans_def)
    with ft assms(2) nm show ?thesis
      by (auto simp: fuzzy_tier_def Let_def intro: fuzzy_span_in split: if_splits)
  qed
qed

lemma fuzzy_index_ok: "fuzzy_index nf mk base = Some nm \<Longrightarrow> map_ok (length base) nm"
  using fuzzy_map_in_source [of nf mk base]
  by (auto simp: fuzzy_index_def Let_def map_ok_def split: if_splits)

text \<open>
  Every span the matcher reports, in any tier, lies inside the file: its index plus its
  length is at most the number of units, so no slice and no splice is out of range.
\<close>

theorem edit_spans_in_file:
  "\<forall>s \<in> set (spans (find_edit_spans nf base e (fuzzy_index nf mk base))).
     match_index s + match_length s \<le> length base"
  using find_edit_spans_in [of _ nf base e "fuzzy_index nf mk base"] fuzzy_index_ok
  by (auto simp: span_in_def)

theorem edit_spans_in_file_witness:
  "\<exists>s \<in> set (spans (find_edit_spans (\<lambda>s. s) (U ''ab'') \<lparr>old_u16 = U ''b'', new_u16 = [], all_u16 = False\<rparr>
        (fuzzy_index (\<lambda>s. s) (\<lambda>_. False) (U ''ab'')))).
     match_index s + match_length s \<le> length (U ''ab'')"
proof -
  let ?s = "find_edit_spans (\<lambda>s. s) (U ''ab'') \<lparr>old_u16 = U ''b'', new_u16 = [], all_u16 = False\<rparr>
        (fuzzy_index (\<lambda>s. s) (\<lambda>_. False) (U ''ab''))"
  have "exact_matches (U ''ab'') (U ''b'') = [1]"
    by (simp add: exact_matches_def anchored_def is_indent_def collect_match_indices_def
        collect_from.simps index_of_def upt_rec ustr_eval)
  then have "spans ?s \<noteq> []" by (simp add: find_edit_spans_def)
  then obtain s where "s \<in> set (spans ?s)" by fastforce
  with edit_spans_in_file [of "\<lambda>s. s" "U ''ab''" _ "\<lambda>_. False"] show ?thesis by blast
qed

section \<open>Splicing back to front\<close>

text \<open>The reference: all replacements at once, on the text read from \<open>pos\<close> on.\<close>

fun replace_from :: "nat \<Rightarrow> units \<Rightarrow> 'a resolved_span_scheme list \<Rightarrow> units" where
  "replace_from pos base [] = drop pos base"
| "replace_from pos base (m # ms) =
     slice base pos (match_index m) @ replacement m
       @ replace_from (match_index m + match_length m) base ms"

definition apart :: "'a resolved_span_scheme \<Rightarrow> 'a resolved_span_scheme \<Rightarrow> bool" where
  "apart a b \<longleftrightarrow> match_index a + match_length a \<le> match_index b"

lemma splice_all_from:
  "sorted_wrt apart ms \<Longrightarrow> \<forall>m \<in> set ms. span_in (length base) m \<and> pos \<le> match_index m \<Longrightarrow>
   pos \<le> length base \<Longrightarrow>
   foldl splice base (rev ms) = take pos base @ replace_from pos base ms"
proof (induction ms arbitrary: pos)
  case (Cons m ms)
  let ?e = "match_index m + match_length m"
  from Cons.prems have e: "?e \<le> length base" by (simp add: span_in_def)
  have "foldl splice base (rev ms) = take ?e base @ replace_from ?e base ms"
    by (rule Cons.IH) (use Cons.prems e in \<open>auto simp: apart_def\<close>)
  then have "foldl splice base (rev (m # ms))
      = take (match_index m) base @ replacement m @ replace_from ?e base ms"
    using e by (simp add: splice_def min_def)
  moreover have "take (match_index m) base = take pos base @ slice base pos (match_index m)"
    using Cons.prems e by (simp add: slice_def take_add [symmetric])
  ultimately show ?case by simp
qed simp

lemma find_overlap_None: "find_overlap ms = None \<Longrightarrow> sorted (map match_index ms) \<Longrightarrow> sorted_wrt apart ms"
proof (induction ms rule: find_overlap.induct)
  case (1 p c ms)
  then have pc: "apart p c" by (simp add: apart_def split: if_splits)
  from 1 have s: "sorted_wrt apart (c # ms)" by (simp split: if_splits)
  have "apart p m" if "m \<in> set ms" for m
    using that pc 1(3) by (auto simp: apart_def intro: le_trans)
  with s pc show ?case by simp
qed simp_all

lemma find_overlap_Some:
  "find_overlap ms = Some err \<Longrightarrow>
   \<exists>p \<in> set ms. \<exists>c \<in> set ms. err = Overlap (edit_index p) (edit_index c)
     \<and> match_index c < match_index p + match_length p"
  by (induction ms rule: find_overlap.induct) (auto split: if_splits)

section \<open>One edit, then all\<close>

lemma as_matched_fields [simp]:
  "match_index (as_matched i s) = match_index s"
  "match_length (as_matched i s) = match_length s"
  "replacement (as_matched i s) = replacement s"
  "edit_index (as_matched i s) = i"
  by (simp_all add: as_matched_def resolved_span.extend_def)

lemma spans_occurrences: "occurrences (find_edit_spans nf base e fz) = length (spans (find_edit_spans nf base e fz))"
  by (auto simp: find_edit_spans_def fuzzy_tier_def Let_def bind_eq_Some_conv split: option.splits if_splits)

lemma match_edit_Inr:
  assumes "match_edit nf base fz tot i e = Inr ms"
  shows "ms \<noteq> [] \<and> (\<not> all_u16 e \<longrightarrow> length ms = 1)
    \<and> (\<forall>m \<in> set ms. \<exists>s \<in> set (spans (find_edit_spans nf base e fz)). m = as_matched i s)"
  using assms
  by (auto simp: match_edit_def Let_def split: if_splits option.splits)

lemma match_edits_Inr:
  "match_edits nf base fz tot i es acc = Inr ms \<Longrightarrow>
   \<exists>mss. length mss = length es \<and> ms = acc @ concat mss
     \<and> (\<forall>k < length es. match_edit nf base fz tot (i + k) (es ! k) = Inr (mss ! k))"
proof (induction nf base fz tot i es acc rule: match_edits.induct)
  case (2 nf base fz tot i e es matched)
  then obtain m where m: "match_edit nf base fz tot i e = Inr m"
    by (auto split: sum.splits)
  with 2(1) [OF m] 2(2) obtain mss where "length mss = length es" "ms = (matched @ m) @ concat mss"
    and k: "\<forall>k < length es. match_edit nf base fz tot (i + 1 + k) (es ! k) = Inr (mss ! k)" by auto
  moreover have "match_edit nf base fz tot (i + k) ((e # es) ! k) = Inr ((m # mss) ! k)"
    if "k < length (e # es)" for k
    using that k m by (cases k) auto
  ultimately show ?case by (intro exI [of _ "m # mss"]) simp
qed simp

lemma match_edits_Inl:
  "match_edits nf base fz tot i es acc = Inl err \<Longrightarrow>
   \<exists>k < length es. match_edit nf base fz tot (i + k) (es ! k) = Inl err
     \<and> (\<forall>j < k. \<exists>ms. match_edit nf base fz tot (i + j) (es ! j) = Inr ms)"
proof (induction nf base fz tot i es acc rule: match_edits.induct)
  case (2 nf base fz tot i e es matched)
  show ?case
  proof (cases "match_edit nf base fz tot i e")
    case (Inl a)
    with 2(2) show ?thesis by (intro exI [of _ 0]) simp
  next
    case (Inr m)
    with 2 obtain k where "k < length es" "match_edit nf base fz tot (i + 1 + k) (es ! k) = Inl err"
      "\<forall>j < k. \<exists>ms. match_edit nf base fz tot (i + 1 + j) (es ! j) = Inr ms" by auto
    then show ?thesis
      using Inr by (intro exI [of _ "Suc k"]) (auto simp: less_Suc_eq_0_disj)
  qed
qed simp

lemma filter_concat_index:
  "\<forall>k < length mss. \<forall>m \<in> set (mss ! k). f m = i + k \<Longrightarrow> k < length mss \<Longrightarrow>
   filter (\<lambda>m. f m = i + k) (concat mss) = mss ! k"
proof (induction mss arbitrary: i k)
  case (Cons ms mss)
  have hd: "\<forall>m \<in> set ms. f m = i" using Cons.prems(1) by force
  have tl: "\<forall>k < length mss. \<forall>m \<in> set (mss ! k). f m = Suc i + k" using Cons.prems(1) by force
  have later: "Suc i \<le> f m" if "m \<in> set (concat mss)" for m
    using that tl by (force simp: in_set_conv_nth)
  show ?case
  proof (cases k)
    case 0
    have "filter (\<lambda>m. f m = i) (concat mss) = []"
      using later by (force simp: filter_empty_conv)
    with 0 hd show ?thesis by simp
  next
    case (Suc j)
    with Cons.IH [OF tl, of j] Cons.prems(2) hd show ?thesis by (simp add: filter_empty_conv)
  qed
qed simp

text \<open>What resolution promises of its matched edits.\<close>

lemma resolve_edits_Inr:
  assumes "resolve_edits nf mk base es = Inr ms"
  shows "sorted_wrt apart ms" and "\<forall>m \<in> set ms. span_in (length base) m"
    and "\<forall>m \<in> set ms. edit_index m < length es \<and> (\<exists>s \<in> set (spans (find_edit_spans nf base
            (es ! edit_index m) (fuzzy_index nf mk base))). m = as_matched (edit_index m) s)"
    and "\<forall>i < length es. filter (\<lambda>m. edit_index m = i) ms \<noteq> []
      \<and> (\<not> all_u16 (es ! i) \<longrightarrow> length (filter (\<lambda>m. edit_index m = i) ms) = 1)"
proof -
  let ?fz = "fuzzy_index nf mk base"
  from assms obtain matched where me: "match_edits nf base ?fz (length es) 0 es [] = Inr matched"
    and ms: "ms = sort_key match_index matched" and no: "find_overlap ms = None"
    by (auto simp: resolve_edits_def Let_def split: option.splits sum.splits)
  from match_edits_Inr [OF me] obtain mss where len: "length mss = length es"
    and cat: "matched = concat mss"
    and each: "\<forall>k < length es. match_edit nf base ?fz (length es) k (es ! k) = Inr (mss ! k)" by auto
  show "sorted_wrt apart ms"
    by (rule find_overlap_None [OF no]) (simp add: ms)
  have from_spans: "edit_index m < length es \<and> (\<exists>s \<in> set (spans (find_edit_spans nf base
            (es ! edit_index m) ?fz)). m = as_matched (edit_index m) s)" if "m \<in> set ms" for m
  proof -
    from that obtain k where k: "k < length es" "m \<in> set (mss ! k)"
      by (auto simp: ms cat in_set_conv_nth [of _ mss] len)
    with each match_edit_Inr [of nf base ?fz "length es" k "es ! k" "mss ! k"]
    obtain s where "s \<in> set (spans (find_edit_spans nf base (es ! k) ?fz))" "m = as_matched k s" by auto
    with k show ?thesis by auto
  qed
  then show "\<forall>m \<in> set ms. edit_index m < length es \<and> (\<exists>s \<in> set (spans (find_edit_spans nf base
            (es ! edit_index m) ?fz)). m = as_matched (edit_index m) s)" by blast
  show "\<forall>m \<in> set ms. span_in (length base) m"
  proof
    fix m assume "m \<in> set ms"
    from from_spans [OF this] obtain s where s: "m = as_matched (edit_index m) s"
      "s \<in> set (spans (find_edit_spans nf base (es ! edit_index m) ?fz))" by blast
    have "span_in (length base) s"
      using find_edit_spans_in [OF s(2)] fuzzy_index_ok by blast
    then show "span_in (length base) m" by (subst s(1)) (simp add: span_in_def)
  qed
  have "\<forall>k < length mss. \<forall>m \<in> set (mss ! k). edit_index m = 0 + k"
    using each match_edit_Inr len by (metis add_0 as_matched_fields(4))
  then have "filter (\<lambda>m. edit_index m = i) matched = mss ! i" if "i < length es" for i
    using filter_concat_index [of mss edit_index 0 i] that len by (simp add: cat)
  then have f: "filter (\<lambda>m. edit_index m = i) ms = sort_key match_index (mss ! i)" if "i < length es" for i
    using that by (simp add: ms filter_sort)
  show "\<forall>i < length es. filter (\<lambda>m. edit_index m = i) ms \<noteq> []
      \<and> (\<not> all_u16 (es ! i) \<longrightarrow> length (filter (\<lambda>m. edit_index m = i) ms) = 1)"
  proof (intro allI impI)
    fix i assume i: "i < length es"
    with each have "match_edit nf base ?fz (length es) i (es ! i) = Inr (mss ! i)" by blast
    from match_edit_Inr [OF this] have "length (mss ! i) \<noteq> 0" "\<not> all_u16 (es ! i) \<longrightarrow> length (mss ! i) = 1"
      by simp_all
    then have "length (sort_key match_index (mss ! i)) \<noteq> 0
      \<and> (\<not> all_u16 (es ! i) \<longrightarrow> length (sort_key match_index (mss ! i)) = 1)"
      by (simp only: length_sort) simp
    then show "filter (\<lambda>m. edit_index m = i) ms \<noteq> []
      \<and> (\<not> all_u16 (es ! i) \<longrightarrow> length (filter (\<lambda>m. edit_index m = i) ms) = 1)"
      unfolding f [OF i] by (metis length_0_conv)
  qed
qed

section \<open>Accepted calls\<close>

lemma foldl_splice_eq:
  assumes "sorted_wrt apart ms" and "\<forall>m \<in> set ms. span_in (length base) m"
  shows "foldl splice base (rev ms) = replace_from 0 base ms"
  using splice_all_from [OF assms(1), of base 0] assms(2) by simp

text \<open>
  C8: An accepted edit call is one simultaneous replacement. There are matched spans, in
  order, without overlap and inside the file, each one a span that its own edit matched in
  the original; every edit has one, and exactly one unless it asked for \<open>replaceAll\<close>; the new
  content is the original with those slices replaced and every other unit kept, and it differs
  from the original.
\<close>

theorem edits_replace_disjoint_slices:
  assumes "apply_edits_to_normalized_content nf mk content edits = Inr r"
  shows "\<exists>ms. sorted_wrt apart ms
    \<and> (\<forall>m \<in> set ms. span_in (length (encode_utf16 content)) m \<and> edit_index m < length edits
         \<and> (\<exists>s \<in> set (spans (find_edit_spans nf (encode_utf16 content) (to_u16 (edits ! edit_index m))
                (fuzzy_index nf mk (encode_utf16 content)))). m = as_matched (edit_index m) s))
    \<and> (\<forall>i < length edits. filter (\<lambda>m. edit_index m = i) ms \<noteq> []
         \<and> (\<not> replace_all (edits ! i) \<longrightarrow> length (filter (\<lambda>m. edit_index m = i) ms) = 1))
    \<and> base_content r = content
    \<and> new_content r = from_utf16_lossy (replace_from 0 (encode_utf16 content) ms)
    \<and> replace_from 0 (encode_utf16 content) ms \<noteq> encode_utf16 content"
proof -
  let ?b = "encode_utf16 content"
  from assms obtain ms where ms: "resolve_edits nf mk ?b (map to_u16 edits) = Inr ms"
    and r: "foldl splice ?b (rev ms) \<noteq> ?b"
      "r = \<lparr>base_content = content, new_content = from_utf16_lossy (foldl splice ?b (rev ms))\<rparr>"
    by (auto simp: apply_edits_to_normalized_content_def Let_def split: sum.splits if_splits)
  note p = resolve_edits_Inr [OF ms]
  have all: "all_u16 (map to_u16 edits ! i) = replace_all (edits ! i)" if "i < length edits" for i
    using that by (simp add: to_u16_def)
  have spans: "edit_index m < length edits \<and> (\<exists>s \<in> set (spans (find_edit_spans nf ?b
      (to_u16 (edits ! edit_index m)) (fuzzy_index nf mk ?b))). m = as_matched (edit_index m) s)"
    if "m \<in> set ms" for m
  proof -
    from p(3) that have a: "edit_index m < length (map to_u16 edits)"
      and b: "\<exists>s \<in> set (spans (find_edit_spans nf ?b (map to_u16 edits ! edit_index m)
        (fuzzy_index nf mk ?b))). m = as_matched (edit_index m) s" by blast+
    from a have "map to_u16 edits ! edit_index m = to_u16 (edits ! edit_index m)" by simp
    with a b show ?thesis by simp
  qed
  show ?thesis
    by (intro exI [of _ ms] conjI p(1))
       (use p(2, 4) spans all r foldl_splice_eq [OF p(1, 2)] in auto)
qed

theorem edits_replace_disjoint_slices_witness:
  "\<exists>ms :: matched_edit list. sorted_wrt apart ms \<and> length (filter (\<lambda>m. edit_index m = 0) ms) = 1
     \<and> from_utf16_lossy (replace_from 0 (encode_utf16 (U ''abc'')) ms) = U ''axc''"
proof -
  let ?e = "[\<lparr>old_text = U ''b'', new_text = U ''x'', replace_all = False\<rparr>]"
  have "apply_edits_to_normalized_content (\<lambda>s. s) (\<lambda>_. False) (U ''abc'') ?e
      = Inr \<lparr>base_content = U ''abc'', new_content = U ''axc''\<rparr>"
    by code_simp
  from edits_replace_disjoint_slices [OF this] show ?thesis
  proof (elim exE conjE, goal_cases)
    case (1 ms)
    then show ?case by (intro exI [of _ ms]) simp
  qed
qed

section \<open>Exact edits, on characters\<close>

lemma encode_split:
  "list_all scalar s \<Longrightarrow> encode_utf16 s = x @ y \<Longrightarrow> y = [] \<or> \<not> low_surrogate (hd y) \<Longrightarrow>
   \<exists>a b. s = a @ b \<and> encode_utf16 a = x \<and> encode_utf16 b = y"
proof (induction s arbitrary: x)
  case (Cons c s)
  show ?case
  proof (cases "x = []")
    case True
    with Cons.prems show ?thesis by (intro exI [of _ "[]"] exI [of _ "c # s"]) simp
  next
    case False
    let ?c = "encode_utf16 [c]"
    from Cons.prems(2) have e: "?c @ encode_utf16 s = x @ y"
      by (simp add: encode_utf16_Cons)
    have "\<exists>x'. x = ?c @ x'"
    proof (cases "c < 65536")
      case True
      with e False show ?thesis by (cases x) (auto simp: encode_utf16_Cons)
    next
      case c: False
      with Cons.prems(1) have "low_surrogate (56320 + (c - 65536) mod 1024)"
        using surrogate_pair [of c] by (auto simp: scalar_def)
      with e c False Cons.prems(3) show ?thesis
        by (cases x; cases "tl x") (auto simp: encode_utf16_Cons)
    qed
    then obtain x' where x': "x = ?c @ x'" by blast
    with e have "encode_utf16 s = x' @ y" by simp
    with Cons.IH [of x'] Cons.prems obtain a b where "s = a @ b" "encode_utf16 a = x'" "encode_utf16 b = y"
      by auto
    with x' show ?thesis
      by (intro exI [of _ "c # a"] exI [of _ b]) (simp add: encode_utf16_Cons)
  qed
qed simp

lemma encode_head_eq:
  assumes "scalar c" and "scalar d" and "encode_utf16 [c] @ x = encode_utf16 [d] @ y"
  shows "c = d \<and> x = y"
proof -
  have "from_utf16_lossy (encode_utf16 [e]) = [e]" if "scalar e" for e
    using that by (intro from_utf16_lossy_encode) simp
  moreover have "encode_utf16 [c] = encode_utf16 [d]"
  proof (cases "c < 65536 \<longleftrightarrow> d < 65536")
    case True
    with assms(3) show ?thesis by (auto simp: encode_utf16_Cons)
  next
    case False
    with assms surrogate_pair [of c] surrogate_pair [of d] show ?thesis
      by (auto simp: encode_utf16_Cons scalar_def high_surrogate_def)
  qed
  ultimately show ?thesis using assms by (metis append_same_eq list.inject same_append_eq)
qed

lemma encode_prefix:
  "list_all scalar p \<Longrightarrow> list_all scalar s \<Longrightarrow> encode_utf16 s = encode_utf16 p @ y \<Longrightarrow>
   \<exists>b. s = p @ b \<and> encode_utf16 b = y"
proof (induction p arbitrary: s)
  case (Cons c p)
  have "s \<noteq> []" using Cons.prems(3) by (auto simp: encode_utf16_Cons split: if_splits)
  then obtain d t where s: "s = d # t" by (cases s) auto
  with Cons.prems(3) have "encode_utf16 [d] @ encode_utf16 t = encode_utf16 [c] @ (encode_utf16 p @ y)"
    by (simp add: encode_utf16_Cons split: if_splits)
  from encode_head_eq [OF _ _ this] Cons.prems(1, 2) s
  have "d = c" "encode_utf16 t = encode_utf16 p @ y" by auto
  with Cons.IH [of t] Cons.prems(1, 2) s show ?case by auto
qed simp

lemma encode_not_low: "list_all scalar p \<Longrightarrow> p \<noteq> [] \<Longrightarrow> encode_utf16 p \<noteq> [] \<and> \<not> low_surrogate (hd (encode_utf16 p))"
  using surrogate_pair [of "hd p"]
  by (cases p) (auto simp: encode_utf16_Cons scalar_def low_surrogate_def high_surrogate_def)

lemma occurs_encode:
  assumes "list_all scalar s" and "list_all scalar p" and "p \<noteq> []"
  shows "occurs_at (encode_utf16 s) (encode_utf16 p) i \<longleftrightarrow> (\<exists>a b. s = a @ p @ b \<and> utf16_len a = i)"
proof
  assume o: "occurs_at (encode_utf16 s) (encode_utf16 p) i"
  let ?e = "encode_utf16 s"
  from o obtain y where y: "drop i ?e = encode_utf16 p @ y"
    by (metis append_take_drop_id occurs_at_def)
  then have "?e = take i ?e @ (encode_utf16 p @ y)" by (metis append_take_drop_id)
  moreover have "\<not> low_surrogate (hd (encode_utf16 p @ y))"
    using encode_not_low [OF assms(2, 3)] by simp
  ultimately obtain a b where ab: "s = a @ b" "encode_utf16 a = take i ?e" "encode_utf16 b = encode_utf16 p @ y"
    using encode_split [OF assms(1)] by blast
  with assms obtain c where "b = p @ c" using encode_prefix [of p b y] by auto
  moreover have "utf16_len a = i"
    using o ab(2) by (simp add: length_encode_utf16 [symmetric] occurs_at_def)
  ultimately show "\<exists>a b. s = a @ p @ b \<and> utf16_len a = i" using ab by blast
next
  assume "\<exists>a b. s = a @ p @ b \<and> utf16_len a = i"
  then show "occurs_at (encode_utf16 s) (encode_utf16 p) i"
    by (auto simp: occurs_at_def encode_utf16_append length_encode_utf16 [symmetric])
qed

lemma collect_spec:
  assumes "needle \<noteq> []"
  shows "\<forall>i \<in> set (collect_match_indices hay needle). occurs_at hay needle i"
    and "sorted_wrt (\<lambda>i j. i + length needle \<le> j) (collect_match_indices hay needle)"
    and "occurs_at hay needle j \<Longrightarrow> \<exists>i \<in> set (collect_match_indices hay needle). i \<le> j \<and> j < i + length needle"
  using collect_from_spec [OF assms, of hay 0] by (simp_all add: collect_match_indices_def)

lemma single_match:
  assumes "needle \<noteq> []" and "\<And>j. occurs_at hay needle j \<longleftrightarrow> j = i"
  shows "collect_match_indices hay needle = [i]"
proof (cases "collect_match_indices hay needle")
  case Nil
  with collect_spec(3) [OF assms(1), of hay i] assms(2) show ?thesis by simp
next
  case (Cons x xs)
  with collect_spec(1) [OF assms(1), of hay] assms(2) have x: "x = i" "\<forall>y \<in> set xs. y = i" by auto
  with Cons collect_spec(2) [OF assms(1), of hay] assms(1) have "xs = []"
    by (cases xs) auto
  with Cons x show ?thesis by simp
qed

text \<open>An old text that opens with indentation has to start a line.\<close>

definition line_start_ok :: "ustr \<Rightarrow> ustr \<Rightarrow> bool" where
  "line_start_ok before old \<longleftrightarrow> hd old \<noteq> SPACE \<and> hd old \<noteq> TAB \<or> before = [] \<or> last before = LF"

lemma anchored_encode: "list_all scalar p \<Longrightarrow> p \<noteq> [] \<Longrightarrow> anchored (encode_utf16 p) \<longleftrightarrow> hd p = SPACE \<or> hd p = TAB"
  by (cases p) (auto simp: anchored_def encode_utf16_Cons is_indent_def scalar_def)

lemma line_start_encode: "a \<noteq> [] \<Longrightarrow> last a = LF \<Longrightarrow> is_at_line_start (encode_utf16 (a @ b)) (utf16_len a)"
proof -
  assume a: "a \<noteq> []" "last a = LF"
  then obtain a' where a': "a = a' @ [LF]" by (metis append_butlast_last_id)
  have "utf16_len a = Suc (length (encode_utf16 a'))"
    by (simp add: a' length_encode_utf16 [symmetric] encode_utf16_append encode_utf16_Cons)
  then show ?thesis
    by (simp add: is_at_line_start_def a' encode_utf16_append encode_utf16_Cons)
qed

lemma exact_single:
  assumes sc: "list_all scalar (a @ old @ b)" "old \<noteq> []"
    and uniq: "\<forall>a' b'. a @ old @ b = a' @ old @ b' \<longrightarrow> a' = a" and ok: "line_start_ok a old"
  shows "exact_matches (encode_utf16 (a @ old @ b)) (encode_utf16 old) = [utf16_len a]"
proof -
  from sc have o: "list_all scalar old" by simp
  have "occurs_at (encode_utf16 (a @ old @ b)) (encode_utf16 old) j \<longleftrightarrow> j = utf16_len a" for j
    using occurs_encode [OF sc(1) o sc(2), of j] uniq by blast
  then have "collect_match_indices (encode_utf16 (a @ old @ b)) (encode_utf16 old) = [utf16_len a]"
    using encode_not_low [OF o sc(2)] by (intro single_match) auto
  moreover have "\<not> anchored (encode_utf16 old) \<or> is_at_line_start (encode_utf16 (a @ old @ b)) (utf16_len a)"
    using ok anchored_encode [OF o sc(2)] line_start_encode [of a "old @ b"]
    by (cases "a = []") (auto simp: line_start_ok_def is_at_line_start_def)
  ultimately show ?thesis by (auto simp: exact_matches_def)
qed

text \<open>
  An edit whose old text occurs exactly once in the file replaces that occurrence and
  nothing else: the result is the text before it, the new text, and the text after it, for
  every Unicode text, also where the occurrence borders on or contains characters outside the
  basic plane. (An old text that opens with a space or a tab must stand at the start of a
  line.)
\<close>

lemma apply_edits_normalized:
  "apply_edits_to_normalized_content nf mk content
     [\<lparr>old_text = normalize_to_lf old, new_text = normalize_to_lf new, replace_all = ra\<rparr>]
   = apply_edits_to_normalized_content nf mk content [\<lparr>old_text = old, new_text = new, replace_all = ra\<rparr>]"
  by (simp add: apply_edits_to_normalized_content_def to_u16_def Let_def split: sum.split)

lemma exact_edit_applies:
  assumes "list_all scalar (a @ old @ b)" and "list_all scalar new"
    and "CR \<notin> set old" and "CR \<notin> set new" and "old \<noteq> []" and "new \<noteq> old"
    and "\<forall>a' b'. a @ old @ b = a' @ old @ b' \<longrightarrow> a' = a" and "line_start_ok a old"
  shows "apply_edits_to_normalized_content nf mk (a @ old @ b)
      [\<lparr>old_text = old, new_text = new, replace_all = False\<rparr>]
    = Inr \<lparr>base_content = a @ old @ b, new_content = a @ new @ b\<rparr>"
proof -
  let ?b = "encode_utf16 (a @ old @ b)"
  let ?e = "\<lparr>old_u16 = encode_utf16 old, new_u16 = encode_utf16 new, all_u16 = False\<rparr>"
  let ?s = "\<lparr>match_index = utf16_len a, match_length = length (encode_utf16 old), replacement = encode_utf16 new\<rparr>"
  have ne: "encode_utf16 old \<noteq> []" using encode_not_low [of old] assms(1, 5) by simp
  have u: "to_u16 \<lparr>old_text = old, new_text = new, replace_all = False\<rparr> = ?e"
    using assms(3, 4) by (simp add: to_u16_def normalize_no_cr)
  have "find_edit_spans nf ?b ?e fz = \<lparr>spans = [?s], occurrences = 1, noop_fuzzy_span = None\<rparr>" for fz
    using exact_single [OF assms(1, 5, 7, 8)] by (simp add: find_edit_spans_def)
  then have "match_edit nf ?b fz 1 0 ?e = Inr [as_matched 0 ?s]" for fz
    by (simp add: match_edit_def)
  then have res: "resolve_edits nf mk ?b [?e] = Inr [as_matched 0 ?s]"
    using ne by (simp add: resolve_edits_def)
  have len: "length (encode_utf16 a) = utf16_len a" by (rule length_encode_utf16)
  have "splice ?b (as_matched 0 ?s) = encode_utf16 (a @ new @ b)"
    by (simp add: splice_def encode_utf16_append len [symmetric])
  moreover have "encode_utf16 (a @ old @ b) \<noteq> encode_utf16 (a @ new @ b)"
    using assms(1, 2, 6) by (subst encode_utf16_inj) auto
  moreover have "list_all scalar (a @ new @ b)" using assms(1, 2) by simp
  ultimately show ?thesis
    by (simp add: apply_edits_to_normalized_content_def u res from_utf16_lossy_encode)
qed

end
