(* ===== verification/Edit_Outcomes.thy ===== *)
theory Edit_Outcomes
  imports Edit_Properties
begin

text \<open>
  The outcomes of the edit engine: \<open>replaceAll\<close> against its reference, the truth of every
  error, and two closed cases of how the fuzzy and the exact tier treat unusual texts.
\<close>

section \<open>Replace all\<close>

text \<open>The reference: leftmost non-overlapping substitution, as \<^verbatim>\<open>str::replace\<close> does it.\<close>

function subst_all :: "'a list \<Rightarrow> 'a list \<Rightarrow> 'a list \<Rightarrow> 'a list" where
  "subst_all old new s =
     (if old = [] then s
      else if prefix old s then new @ subst_all old new (drop (length old) s)
      else (case s of [] \<Rightarrow> [] | c # cs \<Rightarrow> c # subst_all old new cs))"
  by pat_completeness auto
termination
  by (relation "measure (\<lambda>(old, new, s). length s)") (auto simp: prefix_def)

declare subst_all.simps [simp del]

lemma subst_all_prefix: "old \<noteq> [] \<Longrightarrow> subst_all old new (old @ s) = new @ subst_all old new s"
  by (subst subst_all.simps) simp

lemma subst_all_step: "\<not> prefix old (c # s) \<Longrightarrow> subst_all old new (c # s) = c # subst_all old new s"
  by (subst subst_all.simps) auto

lemma subst_all_Nil [simp]: "old \<noteq> [] \<Longrightarrow> subst_all old new [] = []"
  by (subst subst_all.simps) simp

lemma prefix_occurs: "prefix p s \<longleftrightarrow> occurs_at s p 0"
  by (auto simp: occurs_at_def prefix_def) (metis append_take_drop_id)

lemma occurs_at_Suc: "occurs_at (c # s) p (Suc i) \<longleftrightarrow> occurs_at s p i"
  by (simp add: occurs_at_def)

lemma subst_all_skip:
  "old \<noteq> [] \<Longrightarrow> \<forall>j < k. \<not> occurs_at s old j \<Longrightarrow> k \<le> length s \<Longrightarrow>
   subst_all old new s = take k s @ subst_all old new (drop k s)"
proof (induction k arbitrary: s)
  case (Suc k)
  then obtain c t where s: "s = c # t" by (cases s) auto
  from Suc.prems(2) have "\<not> occurs_at s old 0" by simp
  then have "\<not> prefix old (c # t)" by (simp add: prefix_occurs s)
  moreover have "\<forall>j < k. \<not> occurs_at t old j"
    using Suc.prems(2) unfolding s by (metis Suc_mono occurs_at_Suc)
  ultimately show ?case
    using Suc.IH [of t] Suc.prems by (simp add: s subst_all_step)
qed simp

lemma occurs_at_drop: "k \<le> length s \<Longrightarrow> occurs_at (drop k s) p j \<longleftrightarrow> occurs_at s p (k + j)"
  by (auto simp: occurs_at_def add.commute)

lemma replace_collected:
  "needle \<noteq> [] \<Longrightarrow> s \<le> length base \<Longrightarrow>
   (\<And>i. match_index (f i) = i) \<Longrightarrow> (\<And>i. match_length (f i) = length needle) \<Longrightarrow> (\<And>i. replacement (f i) = new) \<Longrightarrow>
   replace_from s base (map f (collect_from base needle s)) = subst_all needle new (drop s base)"
proof (induction base needle s rule: collect_from.induct)
  case (1 base needle s)
  show ?case
  proof (cases "index_of base needle s")
    case None
    with 1(2) have "\<forall>j < length (drop s base). \<not> occurs_at (drop s base) needle j"
      using 1(3) by (auto simp: index_of_None occurs_at_drop)
    from subst_all_skip [OF 1(2) this, of new] have "subst_all needle new (drop s base) = drop s base"
      using 1(2) by simp
    moreover have "collect_from base needle s = []"
      by (subst collect_from.simps) (simp add: None)
    ultimately show ?thesis by simp
  next
    case (Some i)
    from Some 1(2) have i: "s \<le> i" "occurs_at base needle i" "\<forall>j. s \<le> j \<and> j < i \<longrightarrow> \<not> occurs_at base needle j"
      by (simp_all add: index_of_Some)
    then have il: "i + length needle \<le> length base" by (simp add: occurs_at_def)
    have c: "collect_from base needle s = i # collect_from base needle (i + length needle)"
      using 1(2) by (subst collect_from.simps) (simp add: Some)
    have "\<forall>j < i - s. \<not> occurs_at (drop s base) needle j"
      using i(3) 1(3) by (auto simp: occurs_at_drop)
    from subst_all_skip [OF 1(2) this, of new] il i(1)
    have "subst_all needle new (drop s base) = take (i - s) (drop s base) @ subst_all needle new (drop i base)"
      by simp
    moreover have "drop i base = needle @ drop (i + length needle) base"
      using i(2) by (metis append_take_drop_id drop_drop add.commute occurs_at_def)
    ultimately have "subst_all needle new (drop s base)
        = slice base s i @ new @ subst_all needle new (drop (i + length needle) base)"
      using 1(2) by (simp add: subst_all_prefix slice_def)
    with 1(1) [OF 1(2) Some 1(2) il 1(4-6)] 1(4-6) show ?thesis by (simp add: c)
  qed
qed

lemma subst_all_scalar:
  "list_all scalar new \<Longrightarrow> list_all scalar s \<Longrightarrow> list_all scalar (subst_all old new s)"
proof (induction old new s rule: subst_all.induct)
  case (1 old new s)
  then show ?case
    by (subst subst_all.simps) (auto simp: prefix_def split: list.splits)
qed

lemma prefix_encode:
  "list_all scalar p \<Longrightarrow> list_all scalar s \<Longrightarrow> prefix (encode_utf16 p) (encode_utf16 s) \<longleftrightarrow> prefix p s"
  by (auto simp: prefix_def encode_utf16_append dest: encode_prefix)

lemma subst_all_encode:
  "old \<noteq> [] \<Longrightarrow> list_all scalar old \<Longrightarrow> list_all scalar s \<Longrightarrow>
   subst_all (encode_utf16 old) (encode_utf16 new) (encode_utf16 s) = encode_utf16 (subst_all old new s)"
proof (induction old new s rule: subst_all.induct)
  case (1 old new s)
  have ne: "encode_utf16 old \<noteq> []" "\<not> low_surrogate (hd (encode_utf16 old))"
    using encode_not_low [OF 1(4, 3)] by auto
  show ?case
  proof (cases "prefix old s")
    case True
    then obtain t where t: "s = old @ t" by (auto simp: prefix_def)
    with 1(1) [OF 1(3) True 1(3, 4)] 1(5) 1(3) show ?thesis
      by (simp add: encode_utf16_append subst_all_prefix [OF ne(1)] subst_all_prefix)
  next
    case False
    show ?thesis
    proof (cases s)
      case Nil
      with ne 1(3) show ?thesis by simp
    next
      case (Cons c t)
      have np: "\<not> prefix (encode_utf16 old) (encode_utf16 s)"
        using prefix_encode [OF 1(4, 5)] False by simp
      have IH: "subst_all (encode_utf16 old) (encode_utf16 new) (encode_utf16 t) = encode_utf16 (subst_all old new t)"
        using 1(2) [OF 1(3) False Cons 1(3, 4)] 1(5) Cons by simp
      have s: "subst_all old new s = c # subst_all old new t"
        using False by (simp add: Cons subst_all_step)
      show ?thesis
      proof (cases "c < 65536")
        case True
        with np IH s show ?thesis by (simp add: Cons encode_utf16_Cons subst_all_step)
      next
        case c: False
        let ?h = "55296 + (c - 65536) div 1024" and ?l = "56320 + (c - 65536) mod 1024"
        have "low_surrogate ?l"
          using surrogate_pair [of c] c 1(5) Cons by (auto simp: scalar_def)
        with ne have "\<not> prefix (encode_utf16 old) (?l # encode_utf16 t)"
          by (cases "encode_utf16 old") auto
        moreover have "\<not> prefix (encode_utf16 old) (?h # ?l # encode_utf16 t)"
          using np c by (simp add: Cons encode_utf16_Cons)
        ultimately show ?thesis
          using IH s c by (simp add: Cons encode_utf16_Cons subst_all_step)
      qed
    qed
  qed
qed

lemma find_overlap_apart: "sorted_wrt apart ms \<Longrightarrow> find_overlap ms = None"
  by (induction ms rule: find_overlap.induct) (auto simp: apart_def)

lemma replace_all_resolved:
  assumes "list_all scalar (a @ old @ b)" and "old \<noteq> []" and "hd old \<noteq> SPACE" and "hd old \<noteq> TAB"
  shows "\<exists>ms. resolve_edits nf mk (encode_utf16 (a @ old @ b))
        [\<lparr>old_u16 = encode_utf16 old, new_u16 = encode_utf16 new, all_u16 = True\<rparr>] = Inr ms
    \<and> foldl splice (encode_utf16 (a @ old @ b)) (rev ms) = encode_utf16 (subst_all old new (a @ old @ b))"
proof -
  let ?b = "encode_utf16 (a @ old @ b)"
  let ?o = "encode_utf16 old" and ?n = "encode_utf16 new"
  let ?f = "\<lambda>i. as_matched 0 \<lparr>match_index = i, match_length = length ?o, replacement = ?n\<rparr>"
  let ?is = "collect_match_indices ?b ?o"
  let ?ms = "map ?f ?is"
  have o: "list_all scalar old" using assms(1) by simp
  have ne: "?o \<noteq> []" using encode_not_low [OF o assms(2)] by simp
  have "occurs_at ?b ?o (utf16_len a)" using occurs_encode [OF assms(1) o assms(2)] by blast
  with collect_spec(3) [OF ne] have is_ne: "?is \<noteq> []" by fastforce
  have ex: "exact_matches ?b ?o = ?is"
    using anchored_encode [OF o assms(2)] assms(3, 4) by (simp add: exact_matches_def)
  have "match_edit nf ?b fz 1 0 \<lparr>old_u16 = ?o, new_u16 = ?n, all_u16 = True\<rparr> = Inr ?ms" for fz
    using is_ne by (simp add: match_edit_def find_edit_spans_def ex comp_def Let_def)
  moreover have ap: "sorted_wrt apart ?ms"
    using collect_spec(2) [OF ne, of ?b] by (simp add: sorted_wrt_map apart_def)
  moreover have "sorted (map match_index ?ms)"
    using collect_spec(2) [OF ne, of ?b]
    by (auto simp: comp_def intro: sorted_wrt_mono_rel [of _ "\<lambda>i j. i + length ?o \<le> j" "(\<le>)"])
  ultimately have res: "resolve_edits nf mk ?b [\<lparr>old_u16 = ?o, new_u16 = ?n, all_u16 = True\<rparr>] = Inr ?ms"
    using ne by (simp add: resolve_edits_def sort_key_id_if_sorted find_overlap_apart)
  have "\<forall>m \<in> set ?ms. span_in (length ?b) m"
    using collect_spec(1) [OF ne, of ?b] by (auto simp: span_in_def occurs_at_def)
  then have "foldl splice ?b (rev ?ms) = replace_from 0 ?b ?ms" by (rule foldl_splice_eq [OF ap])
  also have "\<dots> = subst_all ?o ?n ?b"
    using replace_collected [OF ne, of 0 ?b ?f] by (simp add: collect_match_indices_def)
  also have "\<dots> = encode_utf16 (subst_all old new (a @ old @ b))"
    by (rule subst_all_encode [OF assms(2) o assms(1)])
  finally show ?thesis using res by blast
qed

lemma normalize_to_lf_Nil [simp]: "normalize_to_lf s = [] \<longleftrightarrow> s = []"
  by (cases s rule: replace_crlf.cases) (auto simp: normalize_to_lf_def)

lemma plain_replace_all:
  assumes "list_all scalar (a @ old @ b)" and "list_all scalar new"
    and "CR \<notin> set old" and "CR \<notin> set new" and "old \<noteq> []" and "hd old \<noteq> SPACE" and "hd old \<noteq> TAB"
  shows "apply_edits_to_normalized_content nf mk (a @ old @ b)
      [\<lparr>old_text = old, new_text = new, replace_all = True\<rparr>]
    = (if subst_all old new (a @ old @ b) = a @ old @ b then Inl (No_Change 1)
       else Inr \<lparr>base_content = a @ old @ b, new_content = subst_all old new (a @ old @ b)\<rparr>)"
proof -
  let ?c = "a @ old @ b"
  have u: "to_u16 \<lparr>old_text = old, new_text = new, replace_all = True\<rparr>
      = \<lparr>old_u16 = encode_utf16 old, new_u16 = encode_utf16 new, all_u16 = True\<rparr>"
    using assms(3, 4) by (simp add: to_u16_def normalize_no_cr)
  obtain ms where ms: "resolve_edits nf mk (encode_utf16 ?c)
        [\<lparr>old_u16 = encode_utf16 old, new_u16 = encode_utf16 new, all_u16 = True\<rparr>] = Inr ms"
      "foldl splice (encode_utf16 ?c) (rev ms) = encode_utf16 (subst_all old new ?c)"
    using replace_all_resolved [OF assms(1, 5-7)] by blast
  have sc: "list_all scalar (subst_all old new ?c)" by (rule subst_all_scalar [OF assms(2, 1)])
  moreover have "encode_utf16 ?c = encode_utf16 (subst_all old new ?c) \<longleftrightarrow> subst_all old new ?c = ?c"
    using encode_utf16_inj [OF assms(1) sc] by auto
  ultimately show ?thesis
    by (simp only: apply_edits_to_normalized_content_def u ms Let_def list.map sum.case
        from_utf16_lossy_encode list.size One_nat_def add_0_left add_Suc_right if_True)
qed

text \<open>
  C35: \<open>replaceAll\<close> is textual substitution. Over the file's text with its line breaks as LF, an
  edit with \<open>replaceAll\<close> whose old text (its line breaks as LF too) is not empty, does not open
  with a space or a tab and occurs there gives the leftmost non-overlapping substitution of the
  new text, with its line breaks as LF, for the old one, computed on characters, whatever the
  tiers, the sort and the back-to-front splicing on UTF-16 units do on the way; when that
  changes nothing the call is rejected as making no change. All texts are Unicode scalar values.
\<close>

theorem replace_all_is_substitution:
  assumes "content = a @ normalize_to_lf old @ b" and "list_all scalar content" and "list_all scalar new"
    and "old \<noteq> []" and "hd (normalize_to_lf old) \<notin> {SPACE, TAB}"
  shows "apply_edits_to_normalized_content nf mk content
      [\<lparr>old_text = old, new_text = new, replace_all = True\<rparr>]
    = (let result = subst_all (normalize_to_lf old) (normalize_to_lf new) content
       in if result = content then Inl (No_Change 1)
          else Inr \<lparr>base_content = content, new_content = result\<rparr>)"
proof -
  have "list_all scalar (normalize_to_lf new)"
    using assms(3) normalize_subset [of new] by (auto simp: list_all_iff scalar_def)
  then show ?thesis
    using plain_replace_all [of a "normalize_to_lf old" b "normalize_to_lf new" nf mk] assms
    by (simp add: apply_edits_normalized normalize_has_no_cr Let_def)
qed

theorem replace_all_is_substitution_witness:
  "apply_edits_to_normalized_content (\<lambda>s. s) (\<lambda>_. False) [120, 97, 10, 97, 10]
      [\<lparr>old_text = [97, CR, LF], new_text = [98, CR, LF, 99], replace_all = True\<rparr>]
    = Inr \<lparr>base_content = [120, 97, 10, 97, 10], new_content = [120, 98, 10, 99, 98, 10, 99]\<rparr>"
proof -
  have n: "normalize_to_lf [97, CR, LF] = [97, 10]" "normalize_to_lf [98, CR, LF, 99] = [98, 10, 99]"
    by (simp_all add: normalize_to_lf_def)
  have "subst_all [97, 10] [98, 10, 99] [120, 97, 10, 97, 10] = [120, 98, 10, 99, 98, 10, 99 :: int]"
    by (simp add: subst_all.simps)
  then show ?thesis
    using replace_all_is_substitution [of "[120, 97, 10, 97, 10]" "[120]" "[97, CR, LF]" "[97, 10]"
        "[98, CR, LF, 99]" "\<lambda>s. s" "\<lambda>_. False"]
    by (simp add: n scalar_def)
qed

section \<open>Errors\<close>

text \<open>What edit \<open>i\<close> of a call finds in the file.\<close>

definition found_by :: "(ustr \<Rightarrow> ustr) \<Rightarrow> (int \<Rightarrow> bool) \<Rightarrow> ustr \<Rightarrow> edit list \<Rightarrow> nat \<Rightarrow> found_spans" where
  "found_by nf mk content edits i =
     find_edit_spans nf (encode_utf16 content) (to_u16 (edits ! i))
       (fuzzy_index nf mk (encode_utf16 content))"

lemma encode_utf16_eq_Nil [simp]: "encode_utf16 s = [] \<longleftrightarrow> s = []"
  by (cases s) (auto simp: encode_utf16_Cons)

lemma match_edit_Inl:
  "match_edit nf base fz n i e = Inl err \<Longrightarrow>
   (let found = find_edit_spans nf base e fz in
      err = Not_Found i n base (old_u16 e) \<and> spans found = []
    \<or> (\<exists>s. err = Fuzzy_Noop i n base s \<and> noop_fuzzy_span found = Some s \<and> spans found \<noteq> [])
    \<or> err = Duplicate i n (length (spans found)) \<and> 1 < length (spans found) \<and> \<not> all_u16 e)"
  by (auto simp: match_edit_def Let_def spans_occurrences split: if_splits option.splits)

text \<open>What each error asserts of the call that got it.\<close>

fun error_holds :: "(ustr \<Rightarrow> ustr) \<Rightarrow> (int \<Rightarrow> bool) \<Rightarrow> ustr \<Rightarrow> edit list \<Rightarrow> edit_error \<Rightarrow> bool" where
  "error_holds nf mk content edits (Empty_Old_Text i n) \<longleftrightarrow>
     n = length edits \<and> i < n \<and> old_text (edits ! i) = [] \<and> (\<forall>j < i. old_text (edits ! j) \<noteq> [])"
| "error_holds nf mk content edits (Not_Found i n base old) \<longleftrightarrow>
     n = length edits \<and> i < n \<and> spans (found_by nf mk content edits i) = []
     \<and> (\<forall>j < i. spans (found_by nf mk content edits j) \<noteq> [])"
| "error_holds nf mk content edits (Fuzzy_Noop i n base s) \<longleftrightarrow>
     n = length edits \<and> i < n \<and> noop_fuzzy_span (found_by nf mk content edits i) = Some s
     \<and> (\<forall>j < i. spans (found_by nf mk content edits j) \<noteq> [])"
| "error_holds nf mk content edits (Duplicate i n k) \<longleftrightarrow>
     n = length edits \<and> i < n \<and> \<not> replace_all (edits ! i)
     \<and> k = length (spans (found_by nf mk content edits i)) \<and> 1 < k
     \<and> (\<forall>j < i. spans (found_by nf mk content edits j) \<noteq> [])"
| "error_holds nf mk content edits (Overlap i j) \<longleftrightarrow>
     i < length edits \<and> j < length edits
     \<and> (\<exists>s \<in> set (spans (found_by nf mk content edits i)). \<exists>t \<in> set (spans (found_by nf mk content edits j)).
          match_index t < match_index s + match_length s)"
| "error_holds nf mk content edits (No_Change n) \<longleftrightarrow>
     n = length edits
     \<and> (\<exists>ms. resolve_edits nf mk (encode_utf16 content) (map to_u16 edits) = Inr ms
          \<and> replace_from 0 (encode_utf16 content) ms = encode_utf16 content)"

lemma match_error_holds:
  assumes "match_edit nf (encode_utf16 content) (fuzzy_index nf mk (encode_utf16 content)) (length edits) i
      (to_u16 (edits ! i)) = Inl err"
    and "i < length edits" and "\<forall>j < i. spans (found_by nf mk content edits j) \<noteq> []"
  shows "error_holds nf mk content edits err"
  using match_edit_Inl [OF assms(1)] assms(2, 3) unfolding Let_def found_by_def [symmetric]
  by (auto simp: to_u16_def)

lemma empty_error_holds:
  assumes "List.find (\<lambda>i. old_u16 (map to_u16 edits ! i) = []) [0 ..< length edits] = Some i"
  shows "error_holds nf mk content edits (Empty_Old_Text i (length edits))"
  using assms by (auto simp: find_upt_Some to_u16_def)

lemma matching_error_holds:
  assumes "match_edits nf (encode_utf16 content) (fuzzy_index nf mk (encode_utf16 content)) (length edits) 0
      (map to_u16 edits) [] = Inl err"
  shows "error_holds nf mk content edits err"
proof -
  let ?m = "\<lambda>k. match_edit nf (encode_utf16 content) (fuzzy_index nf mk (encode_utf16 content)) (length edits) k
      (to_u16 (edits ! k))"
  from match_edits_Inl [OF assms] obtain k where k: "k < length edits" "?m k = Inl err"
    "\<forall>j < k. \<exists>ms. ?m j = Inr ms" by auto
  have "spans (found_by nf mk content edits j) \<noteq> []" if "j < k" for j
  proof -
    from that k obtain ms where "?m j = Inr ms" by auto
    from match_edit_Inr [OF this] show ?thesis by (auto simp: found_by_def)
  qed
  with k show ?thesis by (intro match_error_holds) auto
qed

text \<open>Every matched edit is a span of the edit it names.\<close>

lemma matched_of_edit:
  assumes "match_edits nf (encode_utf16 content) (fuzzy_index nf mk (encode_utf16 content)) (length edits) 0
      (map to_u16 edits) [] = Inr matched"
    and "m \<in> set matched"
  shows "edit_index m < length edits"
    and "\<exists>s \<in> set (spans (found_by nf mk content edits (edit_index m))).
           match_index m = match_index s \<and> match_length m = match_length s"
proof -
  let ?m = "\<lambda>k. match_edit nf (encode_utf16 content) (fuzzy_index nf mk (encode_utf16 content)) (length edits) k
      (to_u16 (edits ! k))"
  from match_edits_Inr [OF assms(1)] obtain mss where mss: "length mss = length edits" "matched = concat mss"
    "\<forall>k < length edits. ?m k = Inr (mss ! k)" by auto
  with assms(2) obtain k where k: "k < length edits" "m \<in> set (mss ! k)"
    by (auto simp: in_set_conv_nth [of _ mss])
  with mss have "?m k = Inr (mss ! k)" by auto
  from match_edit_Inr [OF this] k obtain s where
    "s \<in> set (spans (found_by nf mk content edits k))" "m = as_matched k s"
    by (auto simp: found_by_def)
  with k show "edit_index m < length edits"
    and "\<exists>s \<in> set (spans (found_by nf mk content edits (edit_index m))).
           match_index m = match_index s \<and> match_length m = match_length s" by auto
qed

lemma overlap_error_holds:
  assumes "match_edits nf (encode_utf16 content) (fuzzy_index nf mk (encode_utf16 content)) (length edits) 0
      (map to_u16 edits) [] = Inr matched"
    and "find_overlap (sort_key match_index matched) = Some err"
  shows "error_holds nf mk content edits err"
proof -
  from find_overlap_Some [OF assms(2)] obtain p c where pc: "p \<in> set matched" "c \<in> set matched"
    "err = Overlap (edit_index p) (edit_index c)" "match_index c < match_index p + match_length p" by auto
  from matched_of_edit [OF assms(1) pc(1)] matched_of_edit [OF assms(1) pc(2)] pc(3, 4) show ?thesis
    by fastforce
qed

lemma no_change_holds:
  assumes "resolve_edits nf mk (encode_utf16 content) (map to_u16 edits) = Inr ms"
    and "apply_edits_to_normalized_content nf mk content edits = Inl err"
  shows "error_holds nf mk content edits err"
proof -
  note p = resolve_edits_Inr [OF assms(1)]
  from assms foldl_splice_eq [OF p(1, 2)] have "err = No_Change (length edits)"
    "replace_from 0 (encode_utf16 content) ms = encode_utf16 content"
    by (auto simp: apply_edits_to_normalized_content_def Let_def split: if_splits)
  with assms(1) show ?thesis by auto
qed

text \<open>
  An error of the edit tool is true. Empty old text names the first edit that has none;
  a missing text names the first edit that matches nothing, after edits that all match;
  duplicates are counted exactly and only held against an edit without \<open>replaceAll\<close>; an
  overlap names two edits with overlapping matches; no change means the replaced content is
  the original.
\<close>

theorem edit_errors_hold:
  assumes "apply_edits_to_normalized_content nf mk content edits = Inl err"
  shows "error_holds nf mk content edits err"
proof (cases "resolve_edits nf mk (encode_utf16 content) (map to_u16 edits)")
  case (Inl e)
  with assms have "resolve_edits nf mk (encode_utf16 content) (map to_u16 edits) = Inl err"
    by (simp add: apply_edits_to_normalized_content_def Let_def)
  then show ?thesis
    unfolding resolve_edits_def
    by (auto simp: Let_def simp del: error_holds.simps split: option.splits sum.splits
        intro: matching_error_holds overlap_error_holds empty_error_holds)
qed (use assms in \<open>blast intro: no_change_holds\<close>)

theorem edit_errors_hold_witness:
  "error_holds (\<lambda>s. s) (\<lambda>_. False) (U ''hello'')
     [\<lparr>old_text = U ''l'', new_text = U ''L'', replace_all = False\<rparr>] (Duplicate 0 1 2)"
proof (rule edit_errors_hold)
  show "apply_edits_to_normalized_content (\<lambda>s. s) (\<lambda>_. False) (U ''hello'')
     [\<lparr>old_text = U ''l'', new_text = U ''L'', replace_all = False\<rparr>] = Inl (Duplicate 0 1 2)"
    by code_simp
qed

section \<open>Two closed cases\<close>

text \<open>
  A normalisation that expands one character, as NFKC does for the ellipsis U+2026. An old
  text that matches part of the expansion is mapped back to the whole character or to none of
  it: \<open>Wait.\<close> matches \<open>Wait\<close> followed by the ellipsis and the ellipsis stays, and \<open>.!\<close>
  takes the whole ellipsis away.
\<close>

definition expand_ellipsis :: "ustr \<Rightarrow> ustr" where
  "expand_ellipsis s = concat (map (\<lambda>c. if c = 8230 then [46, 46, 46] else [c]) s)"

lemma half_matched_character:
  "apply_edits_to_normalized_content expand_ellipsis (\<lambda>_. False) (U ''Wait'' @ [8230, 33])
      [\<lparr>old_text = U ''Wait.'', new_text = U ''Go'', replace_all = False\<rparr>]
     = Inr \<lparr>base_content = U ''Wait'' @ [8230, 33], new_content = U ''Go'' @ [8230, 33]\<rparr>"
  "apply_edits_to_normalized_content expand_ellipsis (\<lambda>_. False) (U ''Wait'' @ [8230, 33])
      [\<lparr>old_text = U ''.!'', new_text = U ''?'', replace_all = False\<rparr>]
     = Inr \<lparr>base_content = U ''Wait'' @ [8230, 33], new_content = U ''Wait?''\<rparr>"
  by code_simp+

text \<open>Overlapping occurrences count once, so a text that occurs twice can pass as unique.\<close>

lemma overlapping_occurrences_pass:
  "apply_edits_to_normalized_content (\<lambda>s. s) (\<lambda>_. False) (U ''aaa'')
      [\<lparr>old_text = U ''aa'', new_text = U ''b'', replace_all = False\<rparr>]
     = Inr \<lparr>base_content = U ''aaa'', new_content = U ''ba''\<rparr>"
  by code_simp

end
