(* ===== verification/Truncate.thy ===== *)
theory Truncate
  imports Utf16
begin

text \<open>
  Truncation of tool output, the copy of the agent harness
  (\<^verbatim>\<open>crates/hoocode-agent-harness/src/utils/truncate.rs\<close>) and the copy of the tool API
  (\<^verbatim>\<open>crates/hoocode-code-tool-api/src/truncate.rs\<close>): two limits, lines and bytes, whole
  lines from the head or from the tail, and the one case where a line is cut.
\<close>

section \<open>Data\<close>

datatype truncated_by = Lines | Bytes

record truncation_result =
  content :: ustr
  truncated :: bool
  truncated_by :: "truncated_by option"
  total_lines :: nat
  total_bytes :: nat
  output_lines :: nat
  output_bytes :: nat
  last_line_partial :: bool
  first_line_exceeds_limit :: bool
  max_lines :: nat
  max_bytes :: nat

record truncation_options =
  opt_lines :: "nat option"
  opt_bytes :: "nat option"

definition DEFAULT_MAX_LINES :: nat where "DEFAULT_MAX_LINES = 2000"
definition DEFAULT_MAX_BYTES :: nat where "DEFAULT_MAX_BYTES = 50 * 1024"
definition TOOL_MAX_LINES :: nat where "TOOL_MAX_LINES = 800"
definition TOOL_MAX_BYTES :: nat where "TOOL_MAX_BYTES = 32 * 1024"

section \<open>The harness copy\<close>

definition to_fixed_1 :: "nat \<Rightarrow> nat \<Rightarrow> ustr" where
  "to_fixed_1 bytes unit =
     (let tenths = (bytes * 10 + unit div 2) div unit
      in nat_digits (tenths div 10) @ U ''.'' @ nat_digits (tenths mod 10))"

definition format_size :: "nat \<Rightarrow> ustr" where
  "format_size bytes =
     (if bytes < 1024 then nat_digits bytes @ U ''B''
      else if bytes < 1024 * 1024 then to_fixed_1 bytes 1024 @ U ''KB''
      else to_fixed_1 bytes (1024 * 1024) @ U ''MB'')"

definition trunc_result ::
  "ustr \<Rightarrow> truncated_by option \<Rightarrow> nat \<times> nat \<Rightarrow> nat \<Rightarrow> bool \<times> bool \<Rightarrow> nat \<times> nat \<Rightarrow> truncation_result" where
  "trunc_result c by_limit totals lines flags lims =
     \<lparr>content = c, truncated = (by_limit \<noteq> None), truncated_by = by_limit,
      total_lines = fst totals, total_bytes = snd totals,
      output_lines = lines, output_bytes = utf8_len c,
      last_line_partial = fst flags, first_line_exceeds_limit = snd flags,
      max_lines = fst lims, max_bytes = snd lims\<rparr>"

definition limits :: "truncation_options \<Rightarrow> nat \<times> nat" where
  "limits o' = (case opt_lines o' of Some n \<Rightarrow> n | None \<Rightarrow> DEFAULT_MAX_LINES,
                case opt_bytes o' of Some n \<Rightarrow> n | None \<Rightarrow> DEFAULT_MAX_BYTES)"

text \<open>
  The loop of \<open>truncate_head\<close> over the first \<open>max_lines\<close> lines: the output, its bytes, and
  which limit ended it.
\<close>

fun head_loop :: "nat \<Rightarrow> ustr list \<Rightarrow> nat \<Rightarrow> ustr list \<Rightarrow> nat \<Rightarrow> ustr list \<times> nat \<times> truncated_by" where
  "head_loop mb [] i out n = (out, n, Lines)"
| "head_loop mb (l # ls) i out n =
     (let line_bytes = utf8_len l + (if 0 < i then 1 else 0)
      in if mb < n + line_bytes then (out, n, Bytes)
         else head_loop mb ls (i + 1) (out @ [l]) (n + line_bytes))"

definition truncate_head :: "ustr \<Rightarrow> truncation_options \<Rightarrow> truncation_result" where
  "truncate_head c o' =
     (let (ml, mb) = limits o';
          lines = split_on 10 c;
          totals = (length lines, utf8_len c)
      in if length lines \<le> ml \<and> utf8_len c \<le> mb
         then trunc_result c None totals (length lines) (False, False) (ml, mb)
         else if mb < utf8_len (lines ! 0)
         then trunc_result [] (Some Bytes) totals 0 (False, True) (ml, mb)
         else
           (let (out, n, by_limit) = head_loop mb (take ml lines) 0 [] 0;
                by_limit = (if ml \<le> length out \<and> n \<le> mb then Lines else by_limit)
            in trunc_result (join [10] out) (Some by_limit) totals (length out) (False, False) (ml, mb)))"

text \<open>
  \<^verbatim>\<open>text.len() - max_bytes\<close>, moved up to a character boundary: characters are dropped until
  at least that many bytes are gone.
\<close>

fun drop_bytes :: "nat \<Rightarrow> ustr \<Rightarrow> ustr" where
  "drop_bytes n [] = []"
| "drop_bytes n (c # s) = (if n = 0 then c # s else drop_bytes (n - utf8_width c) s)"

definition truncate_string_to_bytes_from_end :: "ustr \<Rightarrow> nat \<Rightarrow> ustr" where
  "truncate_string_to_bytes_from_end s mb =
     (if utf8_len s \<le> mb then s else drop_bytes (utf8_len s - mb) s)"

text \<open>The loop of \<open>truncate_tail\<close>; the lines come last first.\<close>

fun tail_loop ::
  "nat \<Rightarrow> nat \<Rightarrow> ustr list \<Rightarrow> ustr list \<Rightarrow> nat \<Rightarrow> ustr list \<times> nat \<times> truncated_by \<times> bool" where
  "tail_loop ml mb [] out n = (out, n, Lines, False)"
| "tail_loop ml mb (l # ls) out n =
     (if ml \<le> length out then (out, n, Lines, False)
      else
        (let line_bytes = utf8_len l + (if out \<noteq> [] then 1 else 0)
         in if mb < n + line_bytes then
              (if out = [] then
                 (let part = truncate_string_to_bytes_from_end l mb
                  in ([part], utf8_len part, Bytes, True))
               else (out, n, Bytes, False))
            else tail_loop ml mb ls (out @ [l]) (n + line_bytes)))"

definition truncate_tail :: "ustr \<Rightarrow> truncation_options \<Rightarrow> truncation_result" where
  "truncate_tail c o' =
     (let (ml, mb) = limits o';
          lines = split_on 10 c;
          totals = (length lines, utf8_len c)
      in if length lines \<le> ml \<and> utf8_len c \<le> mb
         then trunc_result c None totals (length lines) (False, False) (ml, mb)
         else
           (let (out, n, by_limit, part) = tail_loop ml mb (rev lines) [] 0;
                by_limit = (if ml \<le> length out \<and> n \<le> mb then Lines else by_limit)
            in trunc_result (join [10] (rev out)) (Some by_limit) totals (length out) (part, False) (ml, mb)))"

definition truncate_line :: "ustr \<Rightarrow> nat \<Rightarrow> ustr \<times> bool" where
  "truncate_line line max_chars =
     (if length (encode_utf16 line) \<le> max_chars then (line, False)
      else (from_utf16_lossy (take max_chars (encode_utf16 line)) @ U ''... [truncated]'', True))"

section \<open>The copy of the tool API\<close>

definition resolve_options :: "truncation_options \<Rightarrow> nat \<times> nat" where
  "resolve_options o' = (case opt_lines o' of Some n \<Rightarrow> n | None \<Rightarrow> TOOL_MAX_LINES,
                         case opt_bytes o' of Some n \<Rightarrow> n | None \<Rightarrow> TOOL_MAX_BYTES)"

definition tool_to_fixed_1 :: "nat \<Rightarrow> nat \<Rightarrow> ustr" where
  "tool_to_fixed_1 n d =
     (let tenths = (n * 20 + d) div (2 * d)
      in nat_digits (tenths div 10) @ U ''.'' @ nat_digits (tenths mod 10))"

definition tool_format_size :: "nat \<Rightarrow> ustr" where
  "tool_format_size bytes =
     (if bytes < 1024 then nat_digits bytes @ U ''B''
      else if bytes < 1024 * 1024 then tool_to_fixed_1 bytes 1024 @ U ''KB''
      else tool_to_fixed_1 bytes (1024 * 1024) @ U ''MB'')"

definition untruncated :: "ustr \<Rightarrow> nat \<Rightarrow> nat \<Rightarrow> nat \<Rightarrow> truncation_result" where
  "untruncated c lines ml mb =
     \<lparr>content = c, truncated = False, truncated_by = None, total_lines = lines,
      total_bytes = utf8_len c, output_lines = lines, output_bytes = utf8_len c,
      last_line_partial = False, first_line_exceeds_limit = False, max_lines = ml, max_bytes = mb\<rparr>"

definition tool_truncate_head :: "ustr \<Rightarrow> truncation_options \<Rightarrow> truncation_result" where
  "tool_truncate_head c o' =
     (let (ml, mb) = resolve_options o';
          lines = split_on 10 c
      in if length lines \<le> ml \<and> utf8_len c \<le> mb then untruncated c (length lines) ml mb
         else if mb < utf8_len (lines ! 0) then
           \<lparr>content = [], truncated = True, truncated_by = Some Bytes, total_lines = length lines,
            total_bytes = utf8_len c, output_lines = 0, output_bytes = 0, last_line_partial = False,
            first_line_exceeds_limit = True, max_lines = ml, max_bytes = mb\<rparr>
         else
           (let (out, n, by_limit) = head_loop mb (take ml lines) 0 [] 0;
                by_limit = (if ml \<le> length out \<and> n \<le> mb then Lines else by_limit)
            in \<lparr>content = join [10] out, truncated = True, truncated_by = Some by_limit,
                total_lines = length lines, total_bytes = utf8_len c, output_lines = length out,
                output_bytes = utf8_len (join [10] out), last_line_partial = False,
                first_line_exceeds_limit = False, max_lines = ml, max_bytes = mb\<rparr>))"

definition tool_truncate_tail :: "ustr \<Rightarrow> truncation_options \<Rightarrow> truncation_result" where
  "tool_truncate_tail c o' =
     (let (ml, mb) = resolve_options o';
          lines = split_on 10 c
      in if length lines \<le> ml \<and> utf8_len c \<le> mb then untruncated c (length lines) ml mb
         else
           (let (out, n, by_limit, part) = tail_loop ml mb (rev lines) [] 0;
                by_limit = (if ml \<le> length out \<and> n \<le> mb then Lines else by_limit)
            in \<lparr>content = join [10] (rev out), truncated = True, truncated_by = Some by_limit,
                total_lines = length lines, total_bytes = utf8_len c, output_lines = length out,
                output_bytes = utf8_len (join [10] (rev out)), last_line_partial = part,
                first_line_exceeds_limit = False, max_lines = ml, max_bytes = mb\<rparr>))"

section \<open>Lines and bytes\<close>

lemma utf8_width_lf [simp]: "utf8_width 10 = 1"
  by (simp add: utf8_width_def)

text \<open>The bytes of the joined lines.\<close>

definition joined_bytes :: "ustr list \<Rightarrow> nat" where
  "joined_bytes ls = utf8_len (join [10] ls)"

lemma join_snoc: "join sep (ls @ [l]) = (if ls = [] then l else join sep ls @ sep @ l)"
  by (induction sep ls rule: join.induct) auto

lemma joined_bytes_snoc:
  "joined_bytes (ls @ [l]) = joined_bytes ls + utf8_len l + (if ls = [] then 0 else 1)"
  by (simp add: joined_bytes_def join_snoc)

lemma joined_bytes_rev: "joined_bytes (rev ls) = joined_bytes ls"
proof -
  have eq: "joined_bytes ls = sum_list (map utf8_len ls) + (length ls - 1)" for ls
    by (induction ls rule: rev_induct) (auto simp: joined_bytes_snoc joined_bytes_def [of "[]"])
  show ?thesis by (simp add: eq rev_map [symmetric] sum_list_rev)
qed

section \<open>The head\<close>

lemma head_loop_spec:
  "head_loop mb ls (length out) out n = (out', n', b) \<Longrightarrow> n = joined_bytes out \<Longrightarrow> n \<le> mb \<Longrightarrow>
   \<exists>k \<le> length ls. out' = out @ take k ls \<and> n' = joined_bytes out' \<and> n' \<le> mb
     \<and> (if k < length ls then b = Bytes \<and> mb < joined_bytes (out' @ [ls ! k]) else b = Lines)"
proof (induction ls arbitrary: out n)
  case (Cons l ls)
  let ?b = "utf8_len l + (if 0 < length out then 1 else 0)"
  have j: "joined_bytes (out @ [l]) = n + ?b" using Cons.prems(2) by (simp add: joined_bytes_snoc)
  show ?case
  proof (cases "mb < n + ?b")
    case True
    with Cons.prems(1) have o': "out' = out" "n' = n" "b = Bytes" by simp_all
    from True j have "mb < joined_bytes (out @ [l])" by simp
    with Cons.prems(2, 3) show ?thesis unfolding o' by (intro exI [of _ 0]) simp
  next
    case False
    with Cons.prems have "head_loop mb ls (length (out @ [l])) (out @ [l]) (n + ?b) = (out', n', b)" by simp
    from Cons.IH [OF this] False j obtain k where "k \<le> length ls" "out' = (out @ [l]) @ take k ls"
      "n' = joined_bytes out'" "n' \<le> mb"
      "if k < length ls then b = Bytes \<and> mb < joined_bytes (out' @ [ls ! k]) else b = Lines" by auto
    then show ?thesis by (intro exI [of _ "Suc k"]) auto
  qed
qed simp

definition lines_of :: "ustr \<Rightarrow> ustr list" where
  "lines_of c = split_on 10 c"

lemma lines_of_ne [simp]: "lines_of c \<noteq> []"
  by (simp add: lines_of_def)

lemma joined_lines_of [simp]: "joined_bytes (lines_of c) = utf8_len c" "join [10] (lines_of c) = c"
  by (simp_all add: joined_bytes_def lines_of_def split_on_join)

lemma head_loop_start:
  assumes "head_loop mb (take ml (lines_of c)) 0 [] 0 = (out, n, b)"
  shows "\<exists>k \<le> min ml (length (lines_of c)). out = take k (lines_of c) \<and> n = joined_bytes out \<and> n \<le> mb
     \<and> (if k < min ml (length (lines_of c))
         then b = Bytes \<and> mb < joined_bytes (take (Suc k) (lines_of c)) else b = Lines)"
proof -
  from head_loop_spec [of mb "take ml (lines_of c)" "[]" 0 out n b] assms
  obtain k where k: "k \<le> length (take ml (lines_of c))" "out = take k (take ml (lines_of c))"
    "n = joined_bytes out" "n \<le> mb"
    "if k < length (take ml (lines_of c)) then b = Bytes \<and> mb < joined_bytes (out @ [take ml (lines_of c) ! k])
     else b = Lines" by (auto simp: joined_bytes_def)
  from k(1) have "k \<le> ml" by simp
  with k(2) have "out = take k (lines_of c)" by (simp add: min_absorb1)
  moreover have "out @ [take ml (lines_of c) ! k] = take (Suc k) (lines_of c)" if "k < min ml (length (lines_of c))"
    using that calculation by (simp add: take_Suc_conv_app_nth)
  ultimately show ?thesis
    using k by (intro exI [of _ k]) (auto simp: min.commute split: if_splits)
qed

text \<open>
  Head truncation keeps the most whole lines that fit. The output is within both limits,
  it is the first \<open>output_lines\<close> lines of the input exactly, the counts are those of the input
  and of the output, an input within the limits is returned as it is, and a truncated one
  stops either at the line limit or because one more line would pass the byte limit, which is
  what \<open>truncated_by\<close> says.
\<close>

theorem truncate_head_bounds:
  fixes c o'
  defines "r \<equiv> truncate_head c o'" and "ml \<equiv> fst (limits o')" and "mb \<equiv> snd (limits o')"
  shows "output_bytes r = utf8_len (content r) \<and> output_bytes r \<le> mb \<and> output_lines r \<le> ml
    \<and> content r = join [10] (take (output_lines r) (lines_of c))
    \<and> total_lines r = length (lines_of c) \<and> total_bytes r = utf8_len c
    \<and> (if truncated r
        then output_lines r < total_lines r
          \<and> (output_lines r = ml \<or> mb < joined_bytes (take (Suc (output_lines r)) (lines_of c)))
          \<and> (\<not> first_line_exceeds_limit r \<longrightarrow> truncated_by r = Some (if output_lines r = ml then Lines else Bytes))
        else content r = c \<and> total_lines r \<le> ml \<and> total_bytes r \<le> mb)"
proof -
  have lim: "limits o' = (ml, mb)" by (simp add: ml_def mb_def)
  have d: "truncate_head c o' =
     (if length (lines_of c) \<le> ml \<and> utf8_len c \<le> mb
      then trunc_result c None (length (lines_of c), utf8_len c) (length (lines_of c)) (False, False) (ml, mb)
      else if mb < utf8_len (lines_of c ! 0)
      then trunc_result [] (Some Bytes) (length (lines_of c), utf8_len c) 0 (False, True) (ml, mb)
      else
        (let (out, n, by_limit) = head_loop mb (take ml (lines_of c)) 0 [] 0;
             by_limit = (if ml \<le> length out \<and> n \<le> mb then Lines else by_limit)
         in trunc_result (join [10] out) (Some by_limit) (length (lines_of c), utf8_len c) (length out)
              (False, False) (ml, mb)))"
    by (simp add: truncate_head_def lim Let_def lines_of_def)
  consider (fits) "length (lines_of c) \<le> ml" "utf8_len c \<le> mb"
    | (first) "\<not> (length (lines_of c) \<le> ml \<and> utf8_len c \<le> mb)" "mb < utf8_len (lines_of c ! 0)"
    | (cut) "\<not> (length (lines_of c) \<le> ml \<and> utf8_len c \<le> mb)" "\<not> mb < utf8_len (lines_of c ! 0)"
    by blast
  then show ?thesis
  proof cases
    case fits
    then show ?thesis by (simp add: r_def d trunc_result_def)
  next
    case first
    have "take 1 (lines_of c) = [lines_of c ! 0]" by (cases "lines_of c") simp_all
    with first show ?thesis by (simp add: r_def d trunc_result_def joined_bytes_def)
  next
    case cut
    obtain out n b where l: "head_loop mb (take ml (lines_of c)) 0 [] 0 = (out, n, b)"
      by (metis prod_cases3)
    from head_loop_start [OF l] obtain k where k: "k \<le> min ml (length (lines_of c))" "out = take k (lines_of c)"
      "n = joined_bytes out" "n \<le> mb"
      "if k < min ml (length (lines_of c)) then b = Bytes \<and> mb < joined_bytes (take (Suc k) (lines_of c)) else b = Lines"
      by blast
    have "k \<noteq> length (lines_of c)"
      using k cut by auto
    with k have kl: "k < length (lines_of c)" by simp
    then have len: "length out = k" using k(2) by simp
    from kl k have k5: "if k < ml then b = Bytes \<and> mb < joined_bytes (take (Suc k) (lines_of c)) else b = Lines"
      by simp
    have "r = trunc_result (join [10] out) (Some (if k = ml then Lines else Bytes))
       (length (lines_of c), utf8_len c) k (False, False) (ml, mb)"
      using cut l k k5 len by (auto simp: r_def d Let_def)
    with k k5 kl show ?thesis
      by (auto simp: trunc_result_def joined_bytes_def split: if_splits)
  qed
qed

theorem truncate_head_bounds_witness:
  "output_lines (truncate_head (U ''ab'' @ [10] @ U ''cd'') \<lparr>opt_lines = Some 5, opt_bytes = Some 3\<rparr>) = 1
   \<and> truncated_by (truncate_head (U ''ab'' @ [10] @ U ''cd'') \<lparr>opt_lines = Some 5, opt_bytes = Some 3\<rparr>)
       = Some Bytes"
proof -
  let ?o = "\<lparr>opt_lines = Some 5, opt_bytes = Some 3\<rparr>"
  have "truncated (truncate_head (U ''ab'' @ [10] @ U ''cd'') ?o)
      \<and> \<not> first_line_exceeds_limit (truncate_head (U ''ab'' @ [10] @ U ''cd'') ?o)
      \<and> output_lines (truncate_head (U ''ab'' @ [10] @ U ''cd'') ?o) = 1" by code_simp
  with truncate_head_bounds [of "U ''ab'' @ [10] @ U ''cd''" ?o] show ?thesis
    by (simp add: limits_def)
qed

section \<open>The tail\<close>

lemma drop_bytes_spec:
  "\<exists>j \<le> length s. drop_bytes n s = drop j s \<and> (n \<le> utf8_len s \<longrightarrow> n \<le> utf8_len (take j s))
     \<and> (0 < j \<longrightarrow> utf8_len (take (j - 1) s) < n)"
proof (induction n s rule: drop_bytes.induct)
  case (2 n c s)
  show ?case
  proof (cases "n = 0")
    case False
    with 2 obtain j where j: "j \<le> length s" "drop_bytes (n - utf8_width c) s = drop j s"
      "n - utf8_width c \<le> utf8_len s \<longrightarrow> n - utf8_width c \<le> utf8_len (take j s)"
      "0 < j \<longrightarrow> utf8_len (take (j - 1) s) < n - utf8_width c" by auto
    have "utf8_len (take j (c # s)) < n"
      using j(4) False by (cases j) auto
    with j False show ?thesis
      by (intro exI [of _ "Suc j"]) auto
  qed (auto intro!: exI [of _ 0])
qed simp

text \<open>The cut of one line: its longest end of whole characters within the limit.\<close>

lemma line_end_spec:
  "\<exists>j \<le> length s. truncate_string_to_bytes_from_end s mb = drop j s \<and> utf8_len (drop j s) \<le> mb
     \<and> (0 < j \<longrightarrow> mb < utf8_len (drop (j - 1) s))"
proof (cases "utf8_len s \<le> mb")
  case True
  then show ?thesis by (auto simp: truncate_string_to_bytes_from_end_def intro!: exI [of _ 0])
next
  case False
  have split: "utf8_len (take i s) + utf8_len (drop i s) = utf8_len s" for i
    by (metis append_take_drop_id utf8_len_simps(3))
  from drop_bytes_spec [of s "utf8_len s - mb"] obtain j where j: "j \<le> length s"
    "drop_bytes (utf8_len s - mb) s = drop j s" "utf8_len s - mb \<le> utf8_len (take j s)"
    "0 < j \<longrightarrow> utf8_len (take (j - 1) s) < utf8_len s - mb" by auto
  with False split [of j] split [of "j - 1"] show ?thesis
    by (intro exI [of _ j]) (auto simp: truncate_string_to_bytes_from_end_def)
qed

lemma tail_loop_spec:
  "tail_loop ml mb ls out n = (out', n', b, part) \<Longrightarrow> n = joined_bytes out \<Longrightarrow> n \<le> mb \<Longrightarrow> length out \<le> ml \<Longrightarrow>
   (if part then out = [] \<and> ls \<noteq> [] \<and> mb < utf8_len (ls ! 0) \<and> 0 < ml \<and> b = Bytes
        \<and> out' = [truncate_string_to_bytes_from_end (ls ! 0) mb] \<and> n' = joined_bytes out'
    else \<exists>k \<le> length ls. out' = out @ take k ls \<and> n' = joined_bytes out' \<and> n' \<le> mb \<and> length out' \<le> ml
     \<and> (k < length ls \<longrightarrow> (length out' = ml \<and> b = Lines)
          \<or> (length out' < ml \<and> b = Bytes \<and> mb < joined_bytes (out' @ [ls ! k]))))"
proof (induction ls arbitrary: out n)
  case (Cons l ls)
  let ?b = "utf8_len l + (if out \<noteq> [] then 1 else 0)"
  have j: "joined_bytes (out @ [l]) = n + ?b" using Cons.prems(2) by (simp add: joined_bytes_snoc)
  consider (full) "ml \<le> length out" | (cut) "\<not> ml \<le> length out" "mb < n + ?b"
    | (on) "\<not> ml \<le> length out" "\<not> mb < n + ?b" by blast
  then show ?case
  proof cases
    case full
    with Cons.prems(1) have "out' = out" "n' = n" "b = Lines" "\<not> part" by simp_all
    with full Cons.prems(2-4) show ?thesis by (auto intro!: exI [of _ 0])
  next
    case cut
    show ?thesis
    proof (cases "out = []")
      case True
      with cut Cons.prems show ?thesis by (auto simp: Let_def joined_bytes_def)
    next
      case False
      with cut Cons.prems(1) have "out' = out" "n' = n" "b = Bytes" "\<not> part" by simp_all
      moreover from cut j have "mb < joined_bytes (out @ [l])" by simp
      ultimately show ?thesis using cut Cons.prems(2-4) by (auto intro!: exI [of _ 0])
    qed
  next
    case on
    with Cons.prems have l: "tail_loop ml mb ls (out @ [l]) (n + ?b) = (out', n', b, part)" by simp
    from Cons.IH [OF this] on j have IH: "if part then False
      else \<exists>k \<le> length ls. out' = (out @ [l]) @ take k ls \<and> n' = joined_bytes out' \<and> n' \<le> mb \<and> length out' \<le> ml
        \<and> (k < length ls \<longrightarrow> (length out' = ml \<and> b = Lines)
          \<or> (length out' < ml \<and> b = Bytes \<and> mb < joined_bytes (out' @ [ls ! k])))"
      by (auto split: if_splits)
    then have np: "\<not> part" by (auto split: if_splits)
    from IH [unfolded if_not_P [OF np]] obtain k where "k \<le> length ls" "out' = (out @ [l]) @ take k ls" "n' = joined_bytes out'" "n' \<le> mb"
      "length out' \<le> ml" "k < length ls \<longrightarrow> (length out' = ml \<and> b = Lines)
          \<or> (length out' < ml \<and> b = Bytes \<and> mb < joined_bytes (out' @ [ls ! k]))" by blast
    with np show ?thesis by (auto intro!: exI [of _ "Suc k"])
  qed
qed (auto intro!: exI [of _ 0])

lemma rev_take_rev: "k \<le> length ls \<Longrightarrow> rev (take k (rev ls)) = drop (length ls - k) ls"
  by (simp add: take_rev)

lemma tail_loop_part:
  assumes "tail_loop ml mb (rev ls) [] 0 = (out, n, b, True)" and "ls \<noteq> []"
  shows "\<exists>j. out = [drop j (last ls)] \<and> 0 < ml \<and> mb < utf8_len (last ls) \<and> utf8_len (drop j (last ls)) \<le> mb
    \<and> (0 < j \<longrightarrow> mb < utf8_len (drop (j - 1) (last ls)))"
proof -
  have start: "0 = joined_bytes []" by (simp add: joined_bytes_def)
  have "rev ls ! 0 = last ls" using assms(2) by (simp add: hd_conv_nth [symmetric] hd_rev)
  with tail_loop_spec [OF assms(1) start] have p: "out = [truncate_string_to_bytes_from_end (last ls) mb]"
    "0 < ml" "mb < utf8_len (last ls)" by auto
  from line_end_spec [of "last ls" mb] obtain j where
    "truncate_string_to_bytes_from_end (last ls) mb = drop j (last ls)"
    "utf8_len (drop j (last ls)) \<le> mb" "0 < j \<longrightarrow> mb < utf8_len (drop (j - 1) (last ls))" by blast
  with p show ?thesis by auto
qed

lemma tail_loop_whole:
  assumes "tail_loop ml mb (rev ls) [] 0 = (out, n, b, False)" and "\<not> (length ls \<le> ml \<and> joined_bytes ls \<le> mb)"
  shows "\<exists>k < length ls. length out = k \<and> rev out = drop (length ls - k) ls \<and> k \<le> ml
    \<and> n = joined_bytes (drop (length ls - k) ls) \<and> n \<le> mb
    \<and> (k = ml \<or> mb < joined_bytes (drop (length ls - Suc k) ls))"
proof -
  have start: "0 = joined_bytes []" "0 \<le> mb" "length [] \<le> ml" by (simp_all add: joined_bytes_def)
  from tail_loop_spec [OF assms(1) start, unfolded if_False append_Nil length_rev]
  obtain k where k: "k \<le> length ls" "out = take k (rev ls)" "n \<le> mb" "n = joined_bytes out" "length out \<le> ml"
    "k < length ls \<longrightarrow> length out = ml \<or> mb < joined_bytes (out @ [rev ls ! k])" by blast
  have o: "rev out = drop (length ls - k) ls" using k by (simp add: rev_take_rev)
  have len: "length out = k" using k by simp
  have jb: "joined_bytes out = joined_bytes (drop (length ls - k) ls)"
    using o joined_bytes_rev [of out] by simp
  have "k \<noteq> length ls" using assms(2) k jb len by auto
  with k have kt: "k < length ls" by simp
  have "out @ [rev ls ! k] = take (Suc k) (rev ls)"
    using kt k(2) by (simp add: take_Suc_conv_app_nth)
  then have "rev (out @ [rev ls ! k]) = drop (length ls - Suc k) ls"
    using kt by (simp only: rev_take_rev Suc_leI)
  then have "joined_bytes (out @ [rev ls ! k]) = joined_bytes (drop (length ls - Suc k) ls)"
    using joined_bytes_rev by metis
  with k len kt jb o show ?thesis by auto
qed

text \<open>
  Tail truncation keeps the end of the input. The output is within both limits and is the
  last \<open>output_lines\<close> whole lines, as many as fit; only when the very last line alone passes
  the byte limit is that line cut, to its longest end of whole characters that fits, and then
  \<open>last_line_partial\<close> is set. An input within the limits is returned as it is.
\<close>

theorem truncate_tail_bounds:
  fixes c o'
  defines "r \<equiv> truncate_tail c o'" and "ml \<equiv> fst (limits o')" and "mb \<equiv> snd (limits o')"
  shows "output_bytes r = utf8_len (content r) \<and> output_bytes r \<le> mb \<and> output_lines r \<le> ml
    \<and> total_lines r = length (lines_of c) \<and> total_bytes r = utf8_len c
    \<and> (if last_line_partial r
        then output_lines r = 1 \<and> mb < utf8_len (last (lines_of c))
          \<and> (\<exists>j. content r = drop j (last (lines_of c)) \<and> (0 < j \<longrightarrow> mb < utf8_len (drop (j - 1) (last (lines_of c)))))
        else content r = join [10] (drop (total_lines r - output_lines r) (lines_of c))
          \<and> (truncated r \<longrightarrow> output_lines r < total_lines r
              \<and> (output_lines r = ml
                  \<or> mb < joined_bytes (drop (total_lines r - Suc (output_lines r)) (lines_of c))))
          \<and> (\<not> truncated r \<longrightarrow> content r = c))"
proof -
  let ?ls = "lines_of c"
  let ?T = "length ?ls"
  have lim: "limits o' = (ml, mb)" by (simp add: ml_def mb_def)
  show ?thesis
  proof (cases "?T \<le> ml \<and> utf8_len c \<le> mb")
    case True
    then show ?thesis by (simp add: r_def truncate_tail_def lim lines_of_def [symmetric] Let_def trunc_result_def)
  next
    case cut: False
    obtain out n b part where l: "tail_loop ml mb (rev ?ls) [] 0 = (out, n, b, part)"
      by (metis prod_cases4)
    obtain w where r: "r = trunc_result (join [10] (rev out)) (Some w) (?T, utf8_len c) (length out) (part, False) (ml, mb)"
      using cut l by (auto simp: r_def truncate_tail_def lim lines_of_def [symmetric] Let_def)
    show ?thesis
    proof (cases part)
      case True
      with tail_loop_part [of ml mb ?ls out n b] l show ?thesis by (auto simp: r trunc_result_def)
    next
      case False
      with tail_loop_whole [of ml mb ?ls out n b] l cut show ?thesis
        by (auto simp: r trunc_result_def joined_bytes_def)
    qed
  qed
qed

theorem truncate_tail_bounds_witness:
  "content (truncate_tail (U ''ab'' @ [10] @ U ''cd'') \<lparr>opt_lines = Some 5, opt_bytes = Some 3\<rparr>) = U ''cd''"
proof -
  let ?o = "\<lparr>opt_lines = Some 5, opt_bytes = Some 3\<rparr>"
  let ?r = "truncate_tail (U ''ab'' @ [10] @ U ''cd'') ?o"
  have "\<not> last_line_partial ?r \<and> total_lines ?r = 2 \<and> output_lines ?r = 1" by code_simp
  moreover have "join [10] (drop 1 (lines_of (U ''ab'' @ [10] @ U ''cd''))) = U ''cd''"
    by (simp add: lines_of_def ustr_eval)
  ultimately show ?thesis
    using truncate_tail_bounds [of "U ''ab'' @ [10] @ U ''cd''" ?o] by simp
qed

text \<open>
  A last line over the byte limit, with a line limit of one: the bytes cut it, and the result
  says the lines did.
\<close>

lemma partial_line_blamed_on_lines:
  "truncate_tail (U ''abcdef'') \<lparr>opt_lines = Some 1, opt_bytes = Some 3\<rparr>
     = \<lparr>content = U ''def'', truncated = True, truncated_by = Some Lines, total_lines = 1, total_bytes = 6,
        output_lines = 1, output_bytes = 3, last_line_partial = True, first_line_exceeds_limit = False,
        max_lines = 1, max_bytes = 3\<rparr>"
  by code_simp

section \<open>The two copies\<close>

definition with_tool_defaults :: "truncation_options \<Rightarrow> truncation_options" where
  "with_tool_defaults o' =
     \<lparr>opt_lines = Some (fst (resolve_options o')), opt_bytes = Some (snd (resolve_options o'))\<rparr>"

lemma limits_tool: "limits (with_tool_defaults o') = resolve_options o'"
  by (simp add: limits_def with_tool_defaults_def)

lemma to_fixed_copies: "even d \<Longrightarrow> 0 < d \<Longrightarrow> tool_to_fixed_1 n d = to_fixed_1 n d"
proof -
  assume d: "even d" "0 < d"
  then obtain h where h: "d = 2 * h" by (auto elim: evenE)
  have "(n * 20 + d) div (2 * d) = (2 * (n * 10 + h)) div (2 * d)" by (simp add: h algebra_simps)
  also have "\<dots> = (n * 10 + h) div d" by (rule div_mult_mult1) simp
  also have "h = d div 2" by (simp add: h)
  finally show ?thesis by (simp add: tool_to_fixed_1_def to_fixed_1_def)
qed

text \<open>
  The two copies of the truncation code compute the same thing. On every text and every
  options the tool API's head and tail truncation equal the harness's with the tool API's
  defaults filled in, and both print every size the same way, although they round by
  different formulas.
\<close>

theorem truncation_copies_agree:
  "tool_truncate_head c o' = truncate_head c (with_tool_defaults o')
   \<and> tool_truncate_tail c o' = truncate_tail c (with_tool_defaults o')
   \<and> tool_format_size n = format_size n"
proof (intro conjI)
  obtain ml mb where r: "resolve_options o' = (ml, mb)" by fastforce
  show "tool_truncate_head c o' = truncate_head c (with_tool_defaults o')"
    by (simp add: tool_truncate_head_def truncate_head_def limits_tool r untruncated_def trunc_result_def
        Let_def split: prod.splits)
  show "tool_truncate_tail c o' = truncate_tail c (with_tool_defaults o')"
    by (simp add: tool_truncate_tail_def truncate_tail_def limits_tool r untruncated_def trunc_result_def
        Let_def split: prod.splits)
  show "tool_format_size n = format_size n"
    by (simp add: tool_format_size_def format_size_def to_fixed_copies)
qed

text \<open>A line is cut to \<open>max_chars\<close> units and marked, or returned whole.\<close>

lemma truncate_line_whole: "snd (truncate_line line n) = False \<longleftrightarrow> utf16_len line \<le> n"
  by (simp add: truncate_line_def length_encode_utf16)

end
