(* ===== verification/Mutation_Queue.thy ===== *)
theory Mutation_Queue
  imports Prelude
begin

text \<open>
  The queue of file mutations (\<^verbatim>\<open>crates/hoocode-code-tools-fs/src/mutation_queue.rs\<close>): edits and
  writes of the same file run one at a time in arrival order. One step is one critical section
  of the code: taking the ticket (under the lock of the map of queues), beginning when the
  ticket is served, and the release.
\<close>

section \<open>State\<close>

text \<open>The next ticket to give and the ticket being served.\<close>

record file_queue =
  q_next :: nat
  q_serving :: nat

text \<open>A call with the key of its file, the queue object it holds and its ticket.\<close>

datatype call_phase =
    NotCalled
  | Waiting string nat nat
  | Running string nat nat
  | Finished

text \<open>
  \<open>mq_map\<close> is \<open>QUEUES\<close>, \<open>mq_queues\<close> the queue objects by identity; \<open>mq_realpaths\<close> the cache of
  real paths. \<open>mq_arrived\<close> and \<open>mq_begun\<close> record the calls in the order of their tickets and of
  their starts.
\<close>

record mutation_state =
  mq_map :: "string \<Rightarrow> nat option"
  mq_queues :: "nat \<Rightarrow> file_queue"
  mq_fresh :: nat
  mq_realpaths :: "string \<Rightarrow> string option"
  mq_phase :: "nat \<Rightarrow> call_phase"
  mq_arrived :: "(string \<times> nat) list"
  mq_begun :: "(string \<times> nat) list"

definition mutation_init :: mutation_state where
  "mutation_init = \<lparr>mq_map = (\<lambda>k. None), mq_queues = (\<lambda>q. \<lparr>q_next = 0, q_serving = 0\<rparr>), mq_fresh = 0,
     mq_realpaths = (\<lambda>p. None), mq_phase = (\<lambda>c. NotCalled), mq_arrived = [], mq_begun = []\<rparr>"

section \<open>Operations\<close>

text \<open>\<open>canon\<close> is what \<open>canonicalize\<close> answers at this moment; a cached path is not asked again.\<close>

definition queue_key :: "string \<Rightarrow> string option \<Rightarrow> mutation_state \<Rightarrow> string \<times> mutation_state" where
  "queue_key resolved canon s =
     (case mq_realpaths s resolved of
        Some k \<Rightarrow> (k, s)
      | None \<Rightarrow>
          (let k = (case canon of Some p \<Rightarrow> p | None \<Rightarrow> resolved)
           in (k, s\<lparr>mq_realpaths := (mq_realpaths s)(resolved \<mapsto> k)\<rparr>)))"

definition lookup_queue :: "string \<Rightarrow> mutation_state \<Rightarrow> nat \<times> mutation_state" where
  "lookup_queue k s =
     (case mq_map s k of
        Some q \<Rightarrow> (q, s)
      | None \<Rightarrow>
          (let q = mq_fresh s
           in (q, s\<lparr>mq_map := (mq_map s)(k \<mapsto> q), mq_fresh := q + 1,
                   mq_queues := (mq_queues s)(q := \<lparr>q_next = 0, q_serving = 0\<rparr>)\<rparr>)))"

definition take_ticket :: "nat \<Rightarrow> string \<Rightarrow> mutation_state \<Rightarrow> mutation_state" where
  "take_ticket c k s =
     (case lookup_queue k s of
        (q, s) \<Rightarrow>
          (let ticket = q_next (mq_queues s q)
           in s\<lparr>mq_queues := (mq_queues s)(q := (mq_queues s q)\<lparr>q_next := ticket + 1\<rparr>),
                mq_phase := (mq_phase s)(c := Waiting k q ticket),
                mq_arrived := mq_arrived s @ [(k, c)]\<rparr>))"

definition release_turn :: "nat \<Rightarrow> string \<Rightarrow> nat \<Rightarrow> nat \<Rightarrow> mutation_state \<Rightarrow> mutation_state" where
  "release_turn c k q ticket s =
     (let s = s\<lparr>mq_queues := (mq_queues s)(q := (mq_queues s q)\<lparr>q_serving := ticket + 1\<rparr>),
                mq_phase := (mq_phase s)(c := Finished)\<rparr>
      in if q_next (mq_queues s q) = q_serving (mq_queues s q) then s\<lparr>mq_map := (mq_map s)(k := None)\<rparr> else s)"

inductive mutation_step :: "mutation_state \<Rightarrow> mutation_state \<Rightarrow> bool" where
  arrives: "mq_phase s c = NotCalled \<Longrightarrow> queue_key resolved canon s = (k, s1) \<Longrightarrow>
    mutation_step s (take_ticket c k s1)"
| begins: "mq_phase s c = Waiting k q t \<Longrightarrow> q_serving (mq_queues s q) = t \<Longrightarrow>
    mutation_step s (s\<lparr>mq_phase := (mq_phase s)(c := Running k q t), mq_begun := mq_begun s @ [(k, c)]\<rparr>)"
| ends: "mq_phase s c = Running k q t \<Longrightarrow> mutation_step s (release_turn c k q t s)"

definition mutation_run :: "mutation_state \<Rightarrow> bool" where
  "mutation_run = mutation_step\<^sup>*\<^sup>* mutation_init"

section \<open>The invariant\<close>

fun phase_key :: "call_phase \<Rightarrow> string option" where
  "phase_key (Waiting k q t) = Some k"
| "phase_key (Running k q t) = Some k"
| "phase_key _ = None"

definition active :: "mutation_state \<Rightarrow> string \<Rightarrow> nat \<Rightarrow> bool" where
  "active s k c \<longleftrightarrow> phase_key (mq_phase s c) = Some k"

definition of_key :: "string \<Rightarrow> (string \<times> nat) list \<Rightarrow> nat list" where
  "of_key k xs = map snd (filter (\<lambda>x. fst x = k) xs)"

lemma of_key_simps [simp]:
  "of_key k [] = []" "of_key k (xs @ [(j, c)]) = (if j = k then of_key k xs @ [c] else of_key k xs)"
  by (simp_all add: of_key_def)

text \<open>
  The calls on one key, the running one first: their tickets are the ones from the served one
  on, the waiting ones are those that arrived and did not begin, in order.
\<close>

definition line_of :: "mutation_state \<Rightarrow> string \<Rightarrow> nat list \<Rightarrow> nat list \<Rightarrow> bool" where
  "line_of s k run ws \<longleftrightarrow>
     of_key k (mq_arrived s) = of_key k (mq_begun s) @ ws \<and> length run \<le> 1 \<and> distinct (run @ ws)
     \<and> (\<forall>c. active s k c \<longleftrightarrow> c \<in> set (run @ ws))
     \<and> (case mq_map s k of
          None \<Rightarrow> run @ ws = []
        | Some q \<Rightarrow> run @ ws \<noteq> [] \<and> q_next (mq_queues s q) = q_serving (mq_queues s q) + length (run @ ws)
            \<and> (\<forall>c \<in> set run. mq_phase s c = Running k q (q_serving (mq_queues s q)))
            \<and> (\<forall>i < length ws. mq_phase s (ws ! i) = Waiting k q (q_serving (mq_queues s q) + length run + i)))"

definition mutation_inv :: "mutation_state \<Rightarrow> bool" where
  "mutation_inv s \<longleftrightarrow> (\<forall>k. \<exists>run ws. line_of s k run ws)
     \<and> (\<forall>k q. mq_map s k = Some q \<longrightarrow> q < mq_fresh s)
     \<and> (\<forall>k j q. mq_map s k = Some q \<longrightarrow> mq_map s j = Some q \<longrightarrow> k = j)"

lemma line_active: "line_of s k run ws \<Longrightarrow> active s k c \<longleftrightarrow> c \<in> set (run @ ws)"
  unfolding line_of_def by blast

lemma line_queued:
  "line_of s k run ws \<Longrightarrow> mq_map s k = Some q \<Longrightarrow>
   run @ ws \<noteq> [] \<and> q_next (mq_queues s q) = q_serving (mq_queues s q) + length (run @ ws)
   \<and> (\<forall>c \<in> set run. mq_phase s c = Running k q (q_serving (mq_queues s q)))
   \<and> (\<forall>i < length ws. mq_phase s (ws ! i) = Waiting k q (q_serving (mq_queues s q) + length run + i))"
  unfolding line_of_def by simp

lemma line_unqueued: "line_of s k run ws \<Longrightarrow> mq_map s k = None \<longleftrightarrow> run @ ws = []"
  unfolding line_of_def by (auto split: option.splits)

lemma line_shape:
  "line_of s k run ws \<Longrightarrow> of_key k (mq_arrived s) = of_key k (mq_begun s) @ ws \<and> length run \<le> 1 \<and> distinct (run @ ws)"
  unfolding line_of_def by blast

lemma line_ofI:
  assumes "of_key k (mq_arrived s) = of_key k (mq_begun s) @ ws" "length run \<le> 1" "distinct (run @ ws)"
    and "\<And>c. active s k c \<longleftrightarrow> c \<in> set (run @ ws)" "mq_map s k = None \<Longrightarrow> run @ ws = []"
    and "\<And>q. mq_map s k = Some q \<Longrightarrow> run @ ws \<noteq> [] \<and> q_next (mq_queues s q) = q_serving (mq_queues s q) + length (run @ ws)
      \<and> (\<forall>c \<in> set run. mq_phase s c = Running k q (q_serving (mq_queues s q)))
      \<and> (\<forall>i < length ws. mq_phase s (ws ! i) = Waiting k q (q_serving (mq_queues s q) + length run + i))"
  shows "line_of s k run ws"
  using assms unfolding line_of_def by (simp split: option.split)

lemma mutation_invI:
  assumes "line_of s k run ws" and "\<And>j. j \<noteq> k \<Longrightarrow> \<exists>run ws. line_of s j run ws"
    and "\<forall>j q. mq_map s j = Some q \<longrightarrow> q < mq_fresh s"
    and "\<forall>j i q. mq_map s j = Some q \<longrightarrow> mq_map s i = Some q \<longrightarrow> j = i"
  shows "mutation_inv s"
proof -
  have "\<exists>run ws. line_of s j run ws" for j
    by (cases "j = k") (use assms(1,2) in auto)
  with assms(3,4) show ?thesis unfolding mutation_inv_def by simp
qed

lemma mutation_invD:
  assumes "mutation_inv s"
  shows "\<exists>run ws. line_of s k run ws" and "mq_map s k = Some q \<Longrightarrow> q < mq_fresh s"
    and "mq_map s k = Some q \<Longrightarrow> mq_map s j = Some q \<Longrightarrow> k = j"
    and "\<forall>j q. mq_map s j = Some q \<longrightarrow> q < mq_fresh s"
    and "\<forall>j i q. mq_map s j = Some q \<longrightarrow> mq_map s i = Some q \<longrightarrow> j = i"
  using assms unfolding mutation_inv_def by blast+

text \<open>A step on another key leaves a line alone.\<close>

lemma line_of_other:
  assumes "line_of s k run ws" and "mq_map s' k = mq_map s k"
    and "\<And>q. mq_map s k = Some q \<Longrightarrow> mq_queues s' q = mq_queues s q"
    and "of_key k (mq_arrived s') = of_key k (mq_arrived s)" and "of_key k (mq_begun s') = of_key k (mq_begun s)"
    and "\<And>c. mq_phase s' c = mq_phase s c \<or> (\<not> active s k c \<and> \<not> active s' k c)"
  shows "line_of s' k run ws"
proof -
  have act: "active s' k c = active s k c" for c
    using assms(6) [of c] by (auto simp: active_def)
  have ph: "mq_phase s' c = mq_phase s c" if "c \<in> set (run @ ws)" for c
    using assms(1) assms(6) [of c] that by (auto simp: line_of_def)
  show ?thesis
    using assms(1-5) ph unfolding line_of_def act by (auto split: option.splits)
qed

lemma init_inv: "mutation_inv mutation_init"
  by (auto simp: mutation_inv_def line_of_def mutation_init_def active_def intro!: exI [of _ "[]"])

lemma queue_key_fields:
  "queue_key resolved canon s = (k, s') \<Longrightarrow>
   mq_map s' = mq_map s \<and> mq_queues s' = mq_queues s \<and> mq_fresh s' = mq_fresh s \<and> mq_phase s' = mq_phase s
   \<and> mq_arrived s' = mq_arrived s \<and> mq_begun s' = mq_begun s"
  by (auto simp: queue_key_def Let_def split: option.splits)

lemma queue_key_inv: "queue_key resolved canon s = (k, s') \<Longrightarrow> mutation_inv s \<Longrightarrow> mutation_inv s'"
proof (drule queue_key_fields, elim conjE)
  assume f: "mq_map s' = mq_map s" "mq_queues s' = mq_queues s" "mq_fresh s' = mq_fresh s"
    "mq_phase s' = mq_phase s" "mq_arrived s' = mq_arrived s" "mq_begun s' = mq_begun s"
  have "line_of s' k = line_of s k" for k by (intro ext) (simp only: line_of_def active_def f)
  then show "mutation_inv s \<Longrightarrow> mutation_inv s'" unfolding mutation_inv_def by (simp add: f)
qed

lemma take_ticket_inv:
  assumes inv: "mutation_inv s" and new: "mq_phase s c = NotCalled"
  shows "mutation_inv (take_ticket c k s)"
proof -
  let ?s = "take_ticket c k s"
  obtain run ws where line: "line_of s k run ws" using mutation_invD(1) [OF inv] by blast
  have fresh: "c \<notin> set (run @ ws)"
    using line new unfolding line_of_def active_def by (metis option.distinct(1) phase_key.simps(3))
  have act: "active ?s j d \<longleftrightarrow> active s j d \<or> (d = c \<and> j = k)" for j d
    using new by (auto simp: take_ticket_def lookup_queue_def active_def Let_def split: option.split prod.split)
  have ph: "d \<noteq> c \<Longrightarrow> mq_phase ?s d = mq_phase s d" for d
    by (auto simp: take_ticket_def lookup_queue_def Let_def split: option.split)
  have logs: "mq_arrived ?s = mq_arrived s @ [(k, c)]" "mq_begun ?s = mq_begun s"
    by (auto simp: take_ticket_def lookup_queue_def Let_def split: option.split)
  have "line_of ?s k run (ws @ [c])"
  proof (cases "mq_map s k")
    case None
    with line have e: "run = []" "ws = []" by (auto simp: line_of_def)
    with line None fresh show ?thesis
      unfolding line_of_def act logs by (auto simp: take_ticket_def lookup_queue_def Let_def)
  next
    case (Some q)
    have keep: "i < length ws \<Longrightarrow> mq_phase ?s (ws ! i) = mq_phase s (ws ! i)" for i
      using ph fresh by (metis UnCI nth_mem set_append)
    have keep_run: "d \<in> set run \<Longrightarrow> mq_phase ?s d = mq_phase s d" for d
      using ph fresh by (metis UnCI set_append)
    from line Some fresh keep keep_run show ?thesis
      unfolding line_of_def act logs
      by (auto simp: take_ticket_def lookup_queue_def Let_def nth_append)
  qed
  moreover have "\<exists>run ws. line_of ?s j run ws" if "j \<noteq> k" for j
  proof -
    obtain run ws where l: "line_of s j run ws" using mutation_invD(1) [OF inv] by blast
    have "mq_map ?s j = mq_map s j"
      using that by (auto simp: take_ticket_def lookup_queue_def Let_def split: option.split)
    moreover have "mq_queues ?s q = mq_queues s q" if "mq_map s j = Some q" for q
      using that \<open>j \<noteq> k\<close> inv
      by (auto simp: mutation_inv_def take_ticket_def lookup_queue_def Let_def split: option.split)
    moreover have "mq_phase ?s d = mq_phase s d \<or> (\<not> active s j d \<and> \<not> active ?s j d)" for d
      using ph [of d] act [of j d] new that by (cases "d = c") (auto simp: active_def)
    ultimately show ?thesis using line_of_other [OF l, of ?s] that logs by auto
  qed
  moreover have "\<forall>j q. mq_map ?s j = Some q \<longrightarrow> q < mq_fresh ?s"
    using inv by (auto simp: mutation_inv_def take_ticket_def lookup_queue_def Let_def less_Suc_eq split: option.split)
  moreover have "\<forall>j i q. mq_map ?s j = Some q \<longrightarrow> mq_map ?s i = Some q \<longrightarrow> j = i"
  proof (cases "mq_map s k")
    case None
    then have "mq_map ?s = (mq_map s)(k \<mapsto> mq_fresh s)"
      by (simp add: take_ticket_def lookup_queue_def Let_def)
    with inv show ?thesis unfolding mutation_inv_def by (metis fun_upd_apply less_irrefl option.inject)
  next
    case (Some q)
    then have "mq_map ?s = mq_map s" by (simp add: take_ticket_def lookup_queue_def Let_def)
    with inv show ?thesis unfolding mutation_inv_def by simp
  qed
  ultimately show ?thesis by (rule mutation_invI)
qed

text \<open>What the invariant says of a call that is in the queue.\<close>

lemma line_waiting:
  assumes "line_of s k run ws" and "mq_phase s c = Waiting k q t"
  shows "mq_map s k = Some q \<and> (\<exists>i < length ws. ws ! i = c \<and> t = q_serving (mq_queues s q) + length run + i)"
proof -
  have mem: "c \<in> set (run @ ws)"
    using assms(2) line_active [OF assms(1), of c] by (simp add: active_def)
  then obtain p where p: "mq_map s k = Some p"
    using line_unqueued [OF assms(1)] by (cases "mq_map s k") auto
  have r: "\<forall>c \<in> set run. mq_phase s c = Running k p (q_serving (mq_queues s p))"
    and w: "\<forall>i < length ws. mq_phase s (ws ! i) = Waiting k p (q_serving (mq_queues s p) + length run + i)"
    using line_queued [OF assms(1) p] by blast+
  from r assms(2) have "c \<notin> set run" by auto
  with mem obtain i where i: "i < length ws" "ws ! i = c" by (auto simp: in_set_conv_nth)
  with w assms(2) p show ?thesis by auto
qed

lemma line_running:
  assumes "line_of s k run ws" and "mq_phase s c = Running k q t"
  shows "mq_map s k = Some q \<and> run = [c] \<and> t = q_serving (mq_queues s q)"
proof -
  have mem: "c \<in> set (run @ ws)"
    using assms(2) line_active [OF assms(1), of c] by (simp add: active_def)
  then obtain p where p: "mq_map s k = Some p"
    using line_unqueued [OF assms(1)] by (cases "mq_map s k") auto
  have r: "\<forall>c \<in> set run. mq_phase s c = Running k p (q_serving (mq_queues s p))"
    and w: "\<forall>i < length ws. mq_phase s (ws ! i) = Waiting k p (q_serving (mq_queues s p) + length run + i)"
    and one: "length run \<le> 1"
    using line_queued [OF assms(1) p] line_shape [OF assms(1)] by blast+
  from w assms(2) have "c \<notin> set ws" by (auto simp: in_set_conv_nth)
  with mem have "c \<in> set run" by simp
  with one have "run = [c]" by (cases run) auto
  with r assms(2) p show ?thesis by simp
qed

lemma begins_inv:
  assumes inv: "mutation_inv s" and ph: "mq_phase s c = Waiting k q t" and turn: "q_serving (mq_queues s q) = t"
  shows "mutation_inv (s\<lparr>mq_phase := (mq_phase s)(c := Running k q t), mq_begun := mq_begun s @ [(k, c)]\<rparr>)"
    (is "mutation_inv ?s")
proof -
  obtain run ws where line: "line_of s k run ws" using mutation_invD(1) [OF inv] by blast
  from line_waiting [OF line ph] turn have q: "mq_map s k = Some q" and e: "run = []"
    and hd: "ws \<noteq> []" "ws ! 0 = c" by auto
  from hd obtain vs where ws: "ws = c # vs" by (cases ws) auto
  have act: "active ?s j d = active s j d" for j d by (simp add: active_def ph)
  have dist: "c \<notin> set vs" "distinct vs" using line_shape [OF line] ws by auto
  have w: "mq_phase s (vs ! i) = Waiting k q (t + Suc i)" if "i < length vs" for i
    using line_queued [OF line q] that ws e turn by (auto dest!: spec [where x = "Suc i"])
  have new: "vs ! i \<noteq> c" if "i < length vs" for i using dist that by (auto simp: in_set_conv_nth)
  have "line_of ?s k [c] vs"
  proof (rule line_ofI)
    show "of_key k (mq_arrived ?s) = of_key k (mq_begun ?s) @ vs" using line_shape [OF line] ws by simp
    show "active ?s k d \<longleftrightarrow> d \<in> set ([c] @ vs)" for d using line_active [OF line, of d] act ws e by simp
  qed (use dist line_queued [OF line q] q ws e turn w new in auto)
  moreover have "\<exists>run ws. line_of ?s j run ws" if "j \<noteq> k" for j
  proof -
    obtain run ws where l: "line_of s j run ws" using mutation_invD(1) [OF inv] by blast
    have "line_of ?s j run ws"
    proof (rule line_of_other [OF l])
      show "mq_phase ?s d = mq_phase s d \<or> (\<not> active s j d \<and> \<not> active ?s j d)" for d
        using that ph by (cases "d = c") (simp_all add: active_def)
    qed (use that in simp_all)
    then show ?thesis by blast
  qed
  moreover have "mq_map ?s = mq_map s" "mq_fresh ?s = mq_fresh s" by simp_all
  ultimately show ?thesis by (intro mutation_invI) (use mutation_invD(4,5) [OF inv] in simp_all)
qed

lemma release_turn_fields:
  assumes "mq_phase s c = Running k q t"
  shows "mq_phase (release_turn c k q t s) = (mq_phase s)(c := Finished)"
    and "mq_queues (release_turn c k q t s) = (mq_queues s)(q := (mq_queues s q)\<lparr>q_serving := t + 1\<rparr>)"
    and "mq_map (release_turn c k q t s) = (if q_next (mq_queues s q) = t + 1 then (mq_map s)(k := None) else mq_map s)"
    and "mq_fresh (release_turn c k q t s) = mq_fresh s"
    and "mq_arrived (release_turn c k q t s) = mq_arrived s" and "mq_begun (release_turn c k q t s) = mq_begun s"
    and "active (release_turn c k q t s) j d \<longleftrightarrow> active s j d \<and> d \<noteq> c"
  using assms by (auto simp: release_turn_def Let_def active_def)

lemma ends_inv:
  assumes inv: "mutation_inv s" and ph: "mq_phase s c = Running k q t"
  shows "mutation_inv (release_turn c k q t s)" (is "mutation_inv ?s")
proof -
  note f = release_turn_fields [OF ph]
  obtain run ws where line: "line_of s k run ws" using mutation_invD(1) [OF inv] by blast
  from line_running [OF line ph] have q: "mq_map s k = Some q" and run: "run = [c]"
    and t: "t = q_serving (mq_queues s q)" by auto
  have new: "c \<notin> set ws" and d: "distinct ws" using line_shape [OF line] run by auto
  note z = line_queued [OF line q]
  have next_t: "q_next (mq_queues s q) = t + 1 + length ws" using z run t by simp
  have wait: "mq_phase s (ws ! i) = Waiting k q (t + 1 + i)" "ws ! i \<noteq> c" if "i < length ws" for i
    using z that run t new by (auto simp: in_set_conv_nth)
  have "line_of ?s k [] ws"
  proof (rule line_ofI)
    show "of_key k (mq_arrived ?s) = of_key k (mq_begun ?s) @ ws" using line_shape [OF line] f by simp
    show "active ?s k d \<longleftrightarrow> d \<in> set ([] @ ws)" for d
      using line_active [OF line, of d] f(7) run new by auto
    show "mq_map ?s k = None \<Longrightarrow> [] @ ws = []" using next_t q by (simp add: f(3) split: if_splits)
  qed (use d next_t q wait in \<open>auto simp: f split: if_splits\<close>)
  moreover have "\<exists>run ws. line_of ?s j run ws" if "j \<noteq> k" for j
  proof -
    obtain run ws where l: "line_of s j run ws" using mutation_invD(1) [OF inv] by blast
    have "line_of ?s j run ws"
    proof (rule line_of_other [OF l])
      show "mq_phase ?s d = mq_phase s d \<or> (\<not> active s j d \<and> \<not> active ?s j d)" for d
        using that ph f by (cases "d = c") (simp_all add: active_def)
      show "mq_queues ?s p = mq_queues s p" if "mq_map s j = Some p" for p
        using mutation_invD(3) [OF inv that, of k] q \<open>j \<noteq> k\<close> by (auto simp: f(2))
    qed (use that f in simp_all)
    then show ?thesis by blast
  qed
  ultimately show ?thesis
    by (rule mutation_invI) (use mutation_invD(4,5) [OF inv] in \<open>simp_all add: f(3,4) split: if_splits\<close>)
qed

lemma mutation_step_inv: "mutation_step s s' \<Longrightarrow> mutation_inv s \<Longrightarrow> mutation_inv s'"
proof (induction rule: mutation_step.induct)
  case (arrives s c resolved canon k s1)
  then have "mutation_inv s1" "mq_phase s1 c = NotCalled"
    using queue_key_inv queue_key_fields by metis+
  then show ?case by (rule take_ticket_inv)
qed (simp_all add: begins_inv ends_inv)

lemma mutation_run_inv: "mutation_run s \<Longrightarrow> mutation_inv s"
  unfolding mutation_run_def
  by (induction rule: rtranclp_induct) (auto intro: init_inv mutation_step_inv)

section \<open>What callers rely on\<close>

text \<open>
  C29: Two calls that mutate the same file (the same queue key) never run at the same time, in
  any interleaving of arrivals, starts and releases (the ticket counter, an u64 in the code, does
  not overflow).
\<close>

theorem mutations_exclusive:
  assumes "mutation_run s" and "mq_phase s c = Running k q t" and "mq_phase s d = Running k q' t'"
  shows "c = d"
proof -
  obtain run ws where line: "line_of s k run ws"
    using mutation_invD(1) [OF mutation_run_inv [OF assms(1)]] by blast
  from line_running [OF line assms(2)] line_running [OF line assms(3)] show ?thesis by simp
qed

text \<open>
  For every file, the calls have started in the order in which they took their tickets: the
  started ones are a prefix of the arrived ones.
\<close>

theorem mutations_in_arrival_order:
  assumes "mutation_run s"
  shows "prefix (of_key k (mq_begun s)) (of_key k (mq_arrived s))"
  using mutation_invD(1) [OF mutation_run_inv [OF assms], of k] line_shape by (metis prefixI)

text \<open>
  When calls wait for a file and none runs on it, a step is possible that starts exactly
  the next one in arrival order.
\<close>

theorem mutation_queue_not_stuck:
  assumes "mutation_run s" and "mq_phase s c = Waiting k q t" and "\<And>d r u. mq_phase s d \<noteq> Running k r u"
  shows "\<exists>s'. mutation_step s s' \<and>
     mq_begun s' = mq_begun s @ [(k, of_key k (mq_arrived s) ! length (of_key k (mq_begun s)))]"
proof -
  obtain run ws where line: "line_of s k run ws"
    using mutation_invD(1) [OF mutation_run_inv [OF assms(1)]] by blast
  from line_waiting [OF line assms(2)] obtain i where q: "mq_map s k = Some q" and i: "i < length ws" by blast
  let ?d = "ws ! 0"
  have "run = []" using line_queued [OF line q] assms(3) by (cases run) auto
  with line_queued [OF line q] i have "mq_phase s ?d = Waiting k q (q_serving (mq_queues s q))"
    by (auto dest!: spec [where x = 0])
  from mutation_step.begins [OF this] have
    "mutation_step s (s\<lparr>mq_phase := (mq_phase s)(?d := Running k q (q_serving (mq_queues s q))),
       mq_begun := mq_begun s @ [(k, ?d)]\<rparr>)" by simp
  moreover have "of_key k (mq_arrived s) ! length (of_key k (mq_begun s)) = ?d"
    using line_shape [OF line] i by (simp add: nth_append)
  ultimately show ?thesis by (intro exI) auto
qed

text \<open>
  A file has an entry in the queue map exactly while some call waits or runs on it.
\<close>

theorem mutation_queues_not_leaked:
  assumes "mutation_run s"
  shows "mq_map s k = None \<longleftrightarrow> (\<forall>c. \<not> active s k c)"
proof -
  obtain run ws where line: "line_of s k run ws"
    using mutation_invD(1) [OF mutation_run_inv [OF assms]] by blast
  show ?thesis using line_unqueued [OF line] line_active [OF line]
    by (metis all_not_in_conv set_empty)
qed

section \<open>Witnesses\<close>

definition two_mutations :: mutation_state where
  "two_mutations = take_ticket 1 ''/f'' (take_ticket 0 ''/f'' (snd (queue_key ''/f'' None mutation_init)))"

lemma arrives_now:
  "mutation_run s \<Longrightarrow> mq_phase s c = NotCalled \<Longrightarrow>
   s' = take_ticket c (fst (queue_key p canon s)) (snd (queue_key p canon s)) \<Longrightarrow> mutation_run s'"
  unfolding mutation_run_def by (metis mutation_step.arrives rtranclp.rtrancl_into_rtrancl prod.collapse)

lemma begins_now:
  "mutation_run s \<Longrightarrow> mq_phase s c = Waiting k q t \<Longrightarrow> q_serving (mq_queues s q) = t \<Longrightarrow>
   s' = s\<lparr>mq_phase := (mq_phase s)(c := Running k q t), mq_begun := mq_begun s @ [(k, c)]\<rparr> \<Longrightarrow> mutation_run s'"
  unfolding mutation_run_def by (metis mutation_step.begins rtranclp.rtrancl_into_rtrancl)

lemma ends_now:
  "mutation_run s \<Longrightarrow> mq_phase s c = Running k q t \<Longrightarrow> s' = release_turn c k q t s \<Longrightarrow> mutation_run s'"
  unfolding mutation_run_def by (metis mutation_step.ends rtranclp.rtrancl_into_rtrancl)

lemma run_start: "mutation_run mutation_init"
  by (simp add: mutation_run_def)

lemmas queue_eval = queue_key_def take_ticket_def lookup_queue_def release_turn_def mutation_init_def Let_def

lemma two_mutations_run: "mutation_run two_mutations"
proof -
  have one: "mutation_run (take_ticket 0 ''/f'' (snd (queue_key ''/f'' None mutation_init)))"
    by (rule arrives_now [OF run_start, where c = 0 and p = "''/f''" and canon = None]) (simp_all add: queue_eval)
  show ?thesis unfolding two_mutations_def
    by (rule arrives_now [OF one, where c = 1 and p = "''/f''" and canon = None]) (simp_all add: queue_eval)
qed

text \<open>
  A link asked about before its target exists keeps the key it got then, so a later call
  through the link and one through the target run side by side.
\<close>

definition link_then_target :: "mutation_state" where
  "link_then_target =
     (let s = take_ticket 0 ''/l'' (snd (queue_key ''/l'' None mutation_init));
          s = s\<lparr>mq_phase := (mq_phase s)(0 := Running ''/l'' 0 0), mq_begun := [(''/l'', 0)]\<rparr>;
          s = release_turn 0 ''/l'' 0 0 s;
          s = take_ticket 1 (fst (queue_key ''/l'' (Some ''/f'') s)) (snd (queue_key ''/l'' (Some ''/f'') s));
          s = take_ticket 2 (fst (queue_key ''/f'' (Some ''/f'') s)) (snd (queue_key ''/f'' (Some ''/f'') s));
          s = s\<lparr>mq_phase := (mq_phase s)(1 := Running ''/l'' 1 0), mq_begun := mq_begun s @ [(''/l'', 1)]\<rparr>
      in s\<lparr>mq_phase := (mq_phase s)(2 := Running ''/f'' 2 0), mq_begun := mq_begun s @ [(''/f'', 2)]\<rparr>)"

lemma stale_key_splits_a_file:
  "mutation_run link_then_target \<and> mq_phase link_then_target 1 = Running ''/l'' 1 0
   \<and> mq_phase link_then_target 2 = Running ''/f'' 2 0 \<and> mq_arrived link_then_target = [(''/l'', 0), (''/l'', 1), (''/f'', 2)]"
proof -
  define s1 where "s1 = take_ticket 0 ''/l'' (snd (queue_key ''/l'' None mutation_init))"
  define s2 where "s2 = s1\<lparr>mq_phase := (mq_phase s1)(0 := Running ''/l'' 0 0), mq_begun := [(''/l'', 0)]\<rparr>"
  define s3 where "s3 = release_turn 0 ''/l'' 0 0 s2"
  define s4 where "s4 = take_ticket 1 (fst (queue_key ''/l'' (Some ''/f'') s3)) (snd (queue_key ''/l'' (Some ''/f'') s3))"
  define s5 where "s5 = take_ticket 2 (fst (queue_key ''/f'' (Some ''/f'') s4)) (snd (queue_key ''/f'' (Some ''/f'') s4))"
  define s6 where "s6 = s5\<lparr>mq_phase := (mq_phase s5)(1 := Running ''/l'' 1 0), mq_begun := mq_begun s5 @ [(''/l'', 1)]\<rparr>"
  have r1: "mutation_run s1"
    by (rule arrives_now [OF run_start, where c = 0 and p = "''/l''" and canon = None]) (simp_all add: queue_eval s1_def)
  have r2: "mutation_run s2"
    by (rule begins_now [OF r1, where c = 0]) (simp_all add: queue_eval s1_def s2_def)
  have r3: "mutation_run s3"
    by (rule ends_now [OF r2, where c = 0 and k = "''/l''" and q = 0 and t = 0]) (simp_all add: queue_eval s1_def s2_def s3_def)
  note e3 = queue_eval s1_def s2_def s3_def
  have r4: "mutation_run s4"
    by (rule arrives_now [OF r3, where c = 1 and p = "''/l''" and canon = "Some ''/f''"]) (simp_all add: e3 s4_def)
  have r5: "mutation_run s5"
    by (rule arrives_now [OF r4, where c = 2 and p = "''/f''" and canon = "Some ''/f''"]) (simp_all add: e3 s4_def s5_def)
  have r6: "mutation_run s6"
    by (rule begins_now [OF r5, where c = 1]) (simp_all add: e3 s4_def s5_def s6_def)
  have last: "link_then_target = s6\<lparr>mq_phase := (mq_phase s6)(2 := Running ''/f'' 2 0), mq_begun := mq_begun s6 @ [(''/f'', 2)]\<rparr>"
    by (simp only: link_then_target_def Let_def s1_def s2_def s3_def s4_def s5_def s6_def)
  have two: "mq_phase s6 2 = Waiting ''/f'' 2 0" "q_serving (mq_queues s6 2) = 0"
    and logs: "mq_arrived s6 = [(''/l'', 0), (''/l'', 1), (''/f'', 2)]"
    by (simp_all add: e3 s4_def s5_def s6_def)
  have one: "mq_phase s6 1 = Running ''/l'' 1 0" by (simp add: s6_def)
  have "mutation_run link_then_target" by (rule begins_now [OF r6 two last])
  with one logs show ?thesis by (simp add: last)
qed

lemma mutation_queue_not_stuck_witness:
  "mutation_run two_mutations \<and> (\<exists>s'. mutation_step two_mutations s' \<and> mq_begun s' = [(''/f'', 0)])"
proof -
  have ph: "mq_phase two_mutations = (\<lambda>c. if c = 1 then Waiting ''/f'' 0 1 else if c = 0 then Waiting ''/f'' 0 0 else NotCalled)"
    by (auto simp: two_mutations_def queue_eval)
  have "mq_begun two_mutations = []" "mq_arrived two_mutations = [(''/f'', 0), (''/f'', 1)]"
    by (simp_all add: two_mutations_def queue_eval)
  with mutation_queue_not_stuck [OF two_mutations_run, of 1 "''/f''" 0 1] ph two_mutations_run show ?thesis
    by (simp add: of_key_def)
qed

lemma mutations_exclusive_witness:
  "mq_phase link_then_target 1 = Running ''/l'' 1 0 \<and> mq_phase link_then_target 2 \<noteq> Running ''/l'' 1 1"
proof -
  have run: "mutation_run link_then_target" "mq_phase link_then_target 1 = Running ''/l'' 1 0"
    using stale_key_splits_a_file by blast+
  from mutations_exclusive [OF run, of 2 1 1] run(2) show ?thesis by auto
qed

lemma mutations_in_arrival_order_witness:
  "of_key ''/l'' (mq_arrived link_then_target) = [0, 1]
   \<and> prefix (of_key ''/l'' (mq_begun link_then_target)) (of_key ''/l'' (mq_arrived link_then_target))"
  using mutations_in_arrival_order [of link_then_target "''/l''"] stale_key_splits_a_file
  by (simp add: of_key_def)

end
