(* ===== verification/Edit_Diff.thy ===== *)
theory Edit_Diff
  imports Prelude
begin

text \<open>
  The line diff of an edit and its display
  (\<^verbatim>\<open>crates/hoocode-code-tools-fs/src/edit_diff.rs\<close>, \<open>diff_lines\<close> and
  \<open>generate_diff_string\<close>): Myers' algorithm with the diagonal pruning of jsdiff, the runs it
  finds, and the numbered rows shown for them. The arena of components is append-only and a
  component never changes once it is there, so a chain of indices is the list of its
  components, the last one first.
\<close>

section \<open>Tokens, components, paths\<close>

datatype part_kind = CommonPart | AddedPart | RemovedPart

text \<open>\<^verbatim>\<open>split_inclusive('\n')\<close>: every line keeps its newline.\<close>

fun tokenize_lines :: "ustr \<Rightarrow> ustr list" where
  "tokenize_lines [] = []"
| "tokenize_lines (c # cs) =
     (if c = 10 then [c] # tokenize_lines cs
      else (case tokenize_lines cs of [] \<Rightarrow> [[c]] | l # ls \<Rightarrow> (c # l) # ls))"

record diff_component =
  comp_count :: nat
  comp_added :: bool
  comp_removed :: bool

record diff_path =
  old_pos :: int
  path_last :: "diff_component list"

definition add_to_path :: "diff_path \<Rightarrow> bool \<Rightarrow> bool \<Rightarrow> int \<Rightarrow> diff_path" where
  "add_to_path p added removed inc =
     \<lparr>old_pos = old_pos p + inc,
      path_last = (case path_last p of
          c # cs \<Rightarrow> if comp_added c = added \<and> comp_removed c = removed
            then \<lparr>comp_count = comp_count c + 1, comp_added = added, comp_removed = removed\<rparr> # cs
            else \<lparr>comp_count = 1, comp_added = added, comp_removed = removed\<rparr> # c # cs
        | [] \<Rightarrow> [\<lparr>comp_count = 1, comp_added = added, comp_removed = removed\<rparr>])\<rparr>"

text \<open>The walk along equal lines: the positions it ends at and the number of lines.\<close>

function common_walk :: "'a list \<Rightarrow> 'a list \<Rightarrow> int \<Rightarrow> int \<Rightarrow> nat \<Rightarrow> int \<times> int \<times> nat" where
  "common_walk old new op np common =
     (if np + 1 < int (length new) \<and> op + 1 < int (length old) \<and> old ! nat (op + 1) = new ! nat (np + 1)
      then common_walk old new (op + 1) (np + 1) (common + 1) else (op, np, common))"
  by pat_completeness auto
termination
  by (relation "measure (\<lambda>(old, new, op, np, common). nat (int (length old) - op))") auto

declare common_walk.simps [simp del]

definition extract_common :: "'a list \<Rightarrow> 'a list \<Rightarrow> diff_path \<Rightarrow> int \<Rightarrow> diff_path \<times> int" where
  "extract_common old new p diagonal =
     (case common_walk old new (old_pos p) (old_pos p - diagonal) 0 of
        (op, np, common) \<Rightarrow>
          (\<lparr>old_pos = op,
            path_last = (if 0 < common
              then \<lparr>comp_count = common, comp_added = False, comp_removed = False\<rparr> # path_last p
              else path_last p)\<rparr>, np))"

text \<open>The runs of a chain with their text, first run first.\<close>

fun build_parts :: "ustr list \<Rightarrow> ustr list \<Rightarrow> nat \<Rightarrow> nat \<Rightarrow> diff_component list \<Rightarrow> (part_kind \<times> ustr) list" where
  "build_parts old new o_at n_at [] = []"
| "build_parts old new o_at n_at (c # cs) =
     (let k = comp_count c
      in if comp_removed c then (RemovedPart, concat (take k (drop o_at old))) # build_parts old new (o_at + k) n_at cs
         else if comp_added c then (AddedPart, concat (take k (drop n_at new))) # build_parts old new o_at (n_at + k) cs
         else (CommonPart, concat (take k (drop n_at new))) # build_parts old new (o_at + k) (n_at + k) cs)"

section \<open>The search\<close>

text \<open>
  \<open>best\<close> holds the furthest path of every diagonal. One round tries every second diagonal in
  the range that is left; it ends with the chain of a complete path or the next state.
\<close>

type_synonym best_paths = "int \<Rightarrow> diff_path option"

definition complete :: "'a list \<Rightarrow> 'a list \<Rightarrow> diff_path \<Rightarrow> int \<Rightarrow> bool" where
  "complete old new p np \<longleftrightarrow> int (length old) \<le> old_pos p + 1 \<and> int (length new) \<le> np + 1"

definition can_add :: "'a list \<Rightarrow> diff_path option \<Rightarrow> int \<Rightarrow> bool" where
  "can_add new add_path d \<longleftrightarrow>
     (case add_path of Some p \<Rightarrow> 0 \<le> old_pos p - d \<and> old_pos p - d < int (length new) | None \<Rightarrow> False)"

definition can_remove :: "'a list \<Rightarrow> diff_path option \<Rightarrow> bool" where
  "can_remove old remove_path \<longleftrightarrow>
     (case remove_path of Some p \<Rightarrow> old_pos p + 1 < int (length old) | None \<Rightarrow> False)"

definition next_base :: "'a list \<Rightarrow> 'a list \<Rightarrow> diff_path option \<Rightarrow> diff_path option \<Rightarrow> int \<Rightarrow> diff_path" where
  "next_base old new remove_path add_path d =
     (if \<not> can_remove old remove_path
         \<or> (can_add new add_path d \<and> old_pos (the remove_path) < old_pos (the add_path))
      then add_to_path (the add_path) True False 0 else add_to_path (the remove_path) False True 1)"

function diff_round ::
  "'a list \<Rightarrow> 'a list \<Rightarrow> int \<Rightarrow> int \<Rightarrow> best_paths \<Rightarrow> int \<Rightarrow> int
   \<Rightarrow> diff_component list + (best_paths \<times> int \<times> int)" where
  "diff_round old new e d best mn mx =
     (if d \<le> min mx e then
        (let remove_path = best (d - 1); best = best(d - 1 := None); add_path = best (d + 1)
         in if \<not> can_add new add_path d \<and> \<not> can_remove old remove_path
            then diff_round old new e (d + 2) (best(d := None)) mn mx
            else (case extract_common old new (next_base old new remove_path add_path d) d of
              (p, np) \<Rightarrow>
                if complete old new p np then Inl (path_last p)
                else diff_round old new e (d + 2) (best(d := Some p))
                       (if int (length new) \<le> np + 1 then max mn (d + 1) else mn)
                       (if int (length old) \<le> old_pos p + 1 then min mx (d - 1) else mx)))
      else Inr (best, mn, mx))"
  by pat_completeness auto
termination
  by (relation "measure (\<lambda>(old, new, e, d, best, mn, mx). nat (e + 1 - d))") auto

declare diff_round.simps [simp del]

definition isize_max :: int where "isize_max = 9223372036854775807"
definition isize_min :: int where "isize_min = - 9223372036854775808"

function diff_rounds ::
  "'a list \<Rightarrow> 'a list \<Rightarrow> int \<Rightarrow> best_paths \<Rightarrow> int \<Rightarrow> int \<Rightarrow> diff_component list option" where
  "diff_rounds old new e best mn mx =
     (if e \<le> int (length old) + int (length new) then
        (case diff_round old new e (max mn (- e)) best mn mx of
           Inl ch \<Rightarrow> Some ch
         | Inr (best, mn, mx) \<Rightarrow> diff_rounds old new (e + 1) best mn mx)
      else None)"
  by pat_completeness auto
termination
  by (relation "measure (\<lambda>(old, new, e, best, mn, mx). nat (int (length old) + int (length new) + 1 - e))") auto

declare diff_rounds.simps [simp del]

text \<open>The chain of the diff; \<open>None\<close> stands for the panic after the loop.\<close>

definition diff_chain :: "'a list \<Rightarrow> 'a list \<Rightarrow> diff_component list option" where
  "diff_chain old new =
     (case extract_common old new \<lparr>old_pos = -1, path_last = []\<rparr> 0 of
        (first, np) \<Rightarrow>
          if complete old new first np then Some (path_last first)
          else diff_rounds old new 1 ((\<lambda>d. None)(0 := Some first)) isize_min isize_max)"

definition diff_lines :: "ustr \<Rightarrow> ustr \<Rightarrow> (part_kind \<times> ustr) list option" where
  "diff_lines old new =
     map_option (\<lambda>ch. build_parts (tokenize_lines old) (tokenize_lines new) 0 0 (rev ch))
       (diff_chain (tokenize_lines old) (tokenize_lines new))"

section \<open>Paths are partial edits\<close>

lemma concat_tokens: "concat (tokenize_lines s) = s"
  by (induction s) (auto split: list.split)

text \<open>What the runs of a chain stand for: they take \<open>o_at\<close> old and \<open>n_at\<close> new lines.\<close>

fun chain_ok :: "'a list \<Rightarrow> 'a list \<Rightarrow> diff_component list \<Rightarrow> nat \<Rightarrow> nat \<Rightarrow> bool" where
  "chain_ok old new [] o_at n_at \<longleftrightarrow> o_at = 0 \<and> n_at = 0"
| "chain_ok old new (c # cs) o_at n_at \<longleftrightarrow>
     (let k = comp_count c
      in 0 < k \<and> o_at \<le> length old \<and> n_at \<le> length new
         \<and> (if comp_removed c then k \<le> o_at \<and> chain_ok old new cs (o_at - k) n_at
            else if comp_added c then k \<le> n_at \<and> chain_ok old new cs o_at (n_at - k)
            else k \<le> o_at \<and> k \<le> n_at \<and> take k (drop (o_at - k) old) = take k (drop (n_at - k) new)
              \<and> chain_ok old new cs (o_at - k) (n_at - k)))"

definition path_ok :: "'a list \<Rightarrow> 'a list \<Rightarrow> int \<Rightarrow> diff_path \<Rightarrow> bool" where
  "path_ok old new d p \<longleftrightarrow>
     -1 \<le> old_pos p \<and> -1 \<le> old_pos p - d \<and> old_pos p < int (length old) \<and> old_pos p - d < int (length new)
     \<and> chain_ok old new (path_last p) (nat (old_pos p + 1)) (nat (old_pos p - d + 1))"

lemma chain_add:
  "chain_ok old new (path_last p) i j \<Longrightarrow> i \<le> length old \<Longrightarrow> j < length new \<Longrightarrow>
   chain_ok old new (path_last (add_to_path p True False inc)) i (Suc j)"
  by (cases "path_last p") (auto simp: add_to_path_def Let_def Suc_le_eq)

lemma chain_remove:
  "chain_ok old new (path_last p) i j \<Longrightarrow> i < length old \<Longrightarrow> j \<le> length new \<Longrightarrow>
   chain_ok old new (path_last (add_to_path p False True inc)) (Suc i) j"
  by (cases "path_last p") (auto simp: add_to_path_def Let_def Suc_le_eq)

lemma old_pos_add [simp]: "old_pos (add_to_path p a r inc) = old_pos p + inc"
  by (simp add: add_to_path_def)

lemma add_step_ok:
  assumes "path_ok old new (d + 1) p" and "can_add new (Some p) d"
  shows "path_ok old new d (add_to_path p True False 0)"
proof -
  let ?i = "nat (old_pos p + 1)" and ?j = "nat (old_pos p - (d + 1) + 1)"
  have n: "nat (old_pos p - d + 1) = Suc ?j" "?i \<le> length old" "?j < length new"
    using assms unfolding path_ok_def can_add_def by auto
  have "chain_ok old new (path_last p) ?i ?j" using assms(1) by (simp add: path_ok_def)
  from chain_add [OF this n(2,3)] n(1) assms show ?thesis by (auto simp: path_ok_def can_add_def)
qed

lemma remove_step_ok:
  assumes "path_ok old new (d - 1) p" and "can_remove old (Some p)"
  shows "path_ok old new d (add_to_path p False True 1)"
proof -
  let ?i = "nat (old_pos p + 1)" and ?j = "nat (old_pos p - (d - 1) + 1)"
  have n: "nat (old_pos p + 1 + 1) = Suc ?i" "?i < length old" "?j \<le> length new"
    using assms unfolding path_ok_def can_remove_def by auto
  have e: "old_pos p + 1 - d = old_pos p - (d - 1)" by simp
  have "chain_ok old new (path_last p) ?i ?j" using assms(1) by (simp add: path_ok_def)
  from chain_remove [OF this n(2,3)] n(1) assms show ?thesis by (auto simp: path_ok_def can_remove_def e)
qed

lemma common_walk_props:
  "common_walk old new op np c = (op', np', c') \<Longrightarrow> -1 \<le> op \<Longrightarrow> -1 \<le> np \<Longrightarrow>
   op < int (length old) \<Longrightarrow> np < int (length new) \<Longrightarrow>
   c \<le> c' \<and> op' = op + int (c' - c) \<and> np' = np + int (c' - c) \<and> op' < int (length old) \<and> np' < int (length new)
   \<and> take (c' - c) (drop (nat (op + 1)) old) = take (c' - c) (drop (nat (np + 1)) new)"
proof (induction old new op np c arbitrary: op' np' c' rule: common_walk.induct)
  case (1 old new op np c)
  show ?case
  proof (cases "np + 1 < int (length new) \<and> op + 1 < int (length old) \<and> old ! nat (op + 1) = new ! nat (np + 1)")
    case True
    with "1.prems" have "common_walk old new (op + 1) (np + 1) (c + 1) = (op', np', c')"
      by (subst (asm) common_walk.simps) simp
    note ih = "1.IH" [OF True this]
    have i: "nat (op + 1) < length old" "nat (np + 1) < length new" using True "1.prems" by auto
    have s: "nat (op + 1 + 1) = Suc (nat (op + 1))" "nat (np + 1 + 1) = Suc (nat (np + 1))"
      using "1.prems" by auto
    have k: "c + 1 \<le> c'" and eq: "take (c' - (c + 1)) (drop (Suc (nat (op + 1))) old)
        = take (c' - (c + 1)) (drop (Suc (nat (np + 1))) new)"
      using ih True "1.prems" s by auto
    then have "c' - c = Suc (c' - (c + 1))" by simp
    moreover have "old ! nat (op + 1) = new ! nat (np + 1)" using True by simp
    ultimately have "take (c' - c) (drop (nat (op + 1)) old) = take (c' - c) (drop (nat (np + 1)) new)"
      using eq i by (simp add: Cons_nth_drop_Suc [symmetric])
    with ih True "1.prems" k show ?thesis by auto
  next
    case False
    with "1.prems" show ?thesis by (subst (asm) common_walk.simps) auto
  qed
qed

lemma extract_common_ok:
  assumes "path_ok old new d p" and "extract_common old new p d = (p', np)"
  shows "path_ok old new d p' \<and> np = old_pos p' - d \<and> old_pos p \<le> old_pos p'"
proof -
  obtain op n k where w: "common_walk old new (old_pos p) (old_pos p - d) 0 = (op, n, k)"
    by (cases "common_walk old new (old_pos p) (old_pos p - d) 0") auto
  from common_walk_props [OF w] assms(1) have
    k: "op = old_pos p + int k" "n = old_pos p - d + int k" "op < int (length old)" "n < int (length new)"
    and same: "take k (drop (nat (old_pos p + 1)) old) = take k (drop (nat (old_pos p - d + 1)) new)"
    by (auto simp: path_ok_def)
  have e: "p' = \<lparr>old_pos = op, path_last = (if 0 < k
       then \<lparr>comp_count = k, comp_added = False, comp_removed = False\<rparr> # path_last p else path_last p)\<rparr>" "np = n"
    using assms(2) w by (auto simp: extract_common_def)
  have "nat (op + 1) = nat (old_pos p + 1) + k" "nat (op - d + 1) = nat (old_pos p - d + 1) + k"
    using k assms(1) by (auto simp: path_ok_def)
  with assms(1) k same show ?thesis unfolding path_ok_def e by (auto simp: Let_def)
qed

section \<open>The runs rebuild both texts\<close>

fun used_old :: "diff_component list \<Rightarrow> nat" where
  "used_old [] = 0"
| "used_old (c # cs) = (if comp_added c \<and> \<not> comp_removed c then 0 else comp_count c) + used_old cs"

fun used_new :: "diff_component list \<Rightarrow> nat" where
  "used_new [] = 0"
| "used_new (c # cs) = (if comp_removed c then 0 else comp_count c) + used_new cs"

lemma used_append [simp]:
  "used_old (xs @ ys) = used_old xs + used_old ys" "used_new (xs @ ys) = used_new xs + used_new ys"
  by (induction xs) auto

lemma used_rev [simp]: "used_old (rev xs) = used_old xs" "used_new (rev xs) = used_new xs"
  by (induction xs) auto

lemma chain_used: "chain_ok old new ch i j \<Longrightarrow> used_old ch = i \<and> used_new ch = j"
  by (induction ch arbitrary: i j) (auto simp: Let_def split: if_splits)

lemma build_parts_append:
  "build_parts old new i j (xs @ ys) =
     build_parts old new i j xs @ build_parts old new (i + used_old xs) (j + used_new xs) ys"
  by (induction xs arbitrary: i j) (auto simp: Let_def ac_simps)

definition old_side :: "(part_kind \<times> ustr) list \<Rightarrow> ustr" where
  "old_side parts = concat (map snd (filter (\<lambda>p. fst p \<noteq> AddedPart) parts))"

definition new_side :: "(part_kind \<times> ustr) list \<Rightarrow> ustr" where
  "new_side parts = concat (map snd (filter (\<lambda>p. fst p \<noteq> RemovedPart) parts))"

lemma sides_append [simp]:
  "old_side (xs @ ys) = old_side xs @ old_side ys" "new_side (xs @ ys) = new_side xs @ new_side ys"
  by (simp_all add: old_side_def new_side_def)

lemma sides_one [simp]:
  "old_side [(k, v)] = (if k = AddedPart then [] else v)" "new_side [(k, v)] = (if k = RemovedPart then [] else v)"
  by (simp_all add: old_side_def new_side_def)

lemma concat_take_split: "k \<le> i \<Longrightarrow> concat (take (i - k) xs) @ concat (take k (drop (i - k) xs)) = concat (take i xs)"
  by (metis concat_append le_add_diff_inverse2 take_add)

lemma chain_sides:
  "chain_ok old new ch i j \<Longrightarrow>
   old_side (build_parts old new 0 0 (rev ch)) = concat (take i old)
   \<and> new_side (build_parts old new 0 0 (rev ch)) = concat (take j new)"
proof (induction ch arbitrary: i j)
  case Nil
  then show ?case by (simp add: old_side_def new_side_def)
next
  case (Cons c ch)
  show ?case
  proof (cases "comp_removed c")
    case True
    with Cons.prems have k: "comp_count c \<le> i" and ok: "chain_ok old new ch (i - comp_count c) j"
      by (auto simp: Let_def)
    from Cons.IH [OF ok] chain_used [OF ok] True k show ?thesis
      by (simp add: build_parts_append Let_def concat_take_split)
  next
    case not_removed: False
    show ?thesis
    proof (cases "comp_added c")
      case True
      with Cons.prems not_removed have k: "comp_count c \<le> j" and ok: "chain_ok old new ch i (j - comp_count c)"
        by (auto simp: Let_def)
      from Cons.IH [OF ok] chain_used [OF ok] True not_removed k show ?thesis
        by (simp add: build_parts_append Let_def concat_take_split)
    next
      case False
      with Cons.prems not_removed have k: "comp_count c \<le> i" "comp_count c \<le> j"
        and same: "take (comp_count c) (drop (i - comp_count c) old) = take (comp_count c) (drop (j - comp_count c) new)"
        and ok: "chain_ok old new ch (i - comp_count c) (j - comp_count c)"
        by (auto simp: Let_def)
      from Cons.IH [OF ok] chain_used [OF ok] False not_removed k same concat_take_split [OF k(1), of old]
        concat_take_split [OF k(2), of new] show ?thesis
        by (simp add: build_parts_append Let_def)
    qed
  qed
qed

text \<open>Every path of the search is a partial edit, and a chain is returned only when it is whole.\<close>

definition best_ok :: "'a list \<Rightarrow> 'a list \<Rightarrow> best_paths \<Rightarrow> bool" where
  "best_ok old new best \<longleftrightarrow> (\<forall>d p. best d = Some p \<longrightarrow> path_ok old new d p)"

definition whole_chain :: "'a list \<Rightarrow> 'a list \<Rightarrow> diff_component list \<Rightarrow> bool" where
  "whole_chain old new ch \<longleftrightarrow> chain_ok old new ch (length old) (length new)"

lemma next_base_ok:
  assumes "best_ok old new best" and "can_add new (best (d + 1)) d \<or> can_remove old (best (d - 1))"
  shows "path_ok old new d (next_base old new (best (d - 1)) (best (d + 1)) d)"
proof (cases "\<not> can_remove old (best (d - 1))
    \<or> (can_add new (best (d + 1)) d \<and> old_pos (the (best (d - 1))) < old_pos (the (best (d + 1))))")
  case True
  with assms(2) have a: "can_add new (best (d + 1)) d" by blast
  then obtain p where "best (d + 1) = Some p" by (auto simp: can_add_def split: option.splits)
  with add_step_ok [of old new d p] a True assms(1) show ?thesis
    by (simp add: next_base_def best_ok_def)
next
  case False
  then have r: "can_remove old (best (d - 1))" by blast
  then obtain p where "best (d - 1) = Some p" by (auto simp: can_remove_def split: option.splits)
  with remove_step_ok [of old new d p] r False assms(1) show ?thesis
    by (auto simp: next_base_def best_ok_def)
qed

lemma complete_whole:
  assumes "path_ok old new d p" and "complete old new p (old_pos p - d)"
  shows "whole_chain old new (path_last p)"
proof -
  have "nat (old_pos p + 1) = length old" "nat (old_pos p - d + 1) = length new"
    using assms by (auto simp: path_ok_def complete_def)
  with assms(1) show ?thesis by (simp add: path_ok_def whole_chain_def)
qed

lemma best_ok_upd: "best_ok old new best \<Longrightarrow> path_ok old new d p \<Longrightarrow> best_ok old new (best(j := None, d := Some p))"
  by (auto simp: best_ok_def)

lemma best_ok_del: "best_ok old new best \<Longrightarrow> best_ok old new (best(j := None, d := None))"
  by (auto simp: best_ok_def)

text \<open>The turns of the inner loop, one equation for each way it goes.\<close>

definition may_go :: "'a list \<Rightarrow> 'a list \<Rightarrow> best_paths \<Rightarrow> int \<Rightarrow> bool" where
  "may_go old new best d \<longleftrightarrow> can_add new (best (d + 1)) d \<or> can_remove old (best (d - 1))"

lemma round_stop: "\<not> d \<le> min mx e \<Longrightarrow> diff_round old new e d best mn mx = Inr (best, mn, mx)"
  by (subst diff_round.simps) (simp only: if_False)

lemma round_skip:
  "d \<le> min mx e \<Longrightarrow> \<not> may_go old new best d \<Longrightarrow>
   diff_round old new e d best mn mx = diff_round old new e (d + 2) (best(d - 1 := None, d := None)) mn mx"
  by (subst diff_round.simps) (simp add: Let_def may_go_def)

lemma round_found:
  "d \<le> min mx e \<Longrightarrow> may_go old new best d \<Longrightarrow>
   extract_common old new (next_base old new (best (d - 1)) (best (d + 1)) d) d = (p, np) \<Longrightarrow>
   complete old new p np \<Longrightarrow> diff_round old new e d best mn mx = Inl (path_last p)"
  by (subst diff_round.simps) (auto simp add: Let_def may_go_def)

lemma round_next:
  "d \<le> min mx e \<Longrightarrow> may_go old new best d \<Longrightarrow>
   extract_common old new (next_base old new (best (d - 1)) (best (d + 1)) d) d = (p, np) \<Longrightarrow>
   \<not> complete old new p np \<Longrightarrow>
   diff_round old new e d best mn mx = diff_round old new e (d + 2) (best(d - 1 := None, d := Some p))
     (if int (length new) \<le> np + 1 then max mn (d + 1) else mn)
     (if int (length old) \<le> old_pos p + 1 then min mx (d - 1) else mx)"
  by (subst diff_round.simps) (auto simp add: Let_def may_go_def)

lemma diff_round_ok:
  "best_ok old new best \<Longrightarrow>
   (case diff_round old new e d best mn mx of
      Inl ch \<Rightarrow> whole_chain old new ch | Inr (best', mn', mx') \<Rightarrow> best_ok old new best')"
proof (induction "nat (e + 1 - d)" arbitrary: d best mn mx rule: less_induct)
  case less
  show ?case
  proof (cases "d \<le> min mx e")
    case False
    then show ?thesis using less.prems by (simp only: round_stop [OF False]) simp
  next
    case True
    then have dec: "nat (e + 1 - (d + 2)) < nat (e + 1 - d)" by simp
    note ih = less.hyps [OF dec]
    show ?thesis
    proof (cases "may_go old new best d")
      case False
      show ?thesis unfolding round_skip [OF True False] by (rule ih [OF best_ok_del [OF less.prems]])
    next
      case go: True
      obtain p np where x: "extract_common old new (next_base old new (best (d - 1)) (best (d + 1)) d) d = (p, np)"
        by (cases "extract_common old new (next_base old new (best (d - 1)) (best (d + 1)) d) d") auto
      from extract_common_ok [OF next_base_ok [OF less.prems go [unfolded may_go_def]] x]
      have p: "path_ok old new d p" and np: "np = old_pos p - d" by auto
      show ?thesis
      proof (cases "complete old new p np")
        case c: True
        with complete_whole [OF p] np show ?thesis unfolding round_found [OF True go x c] by simp
      next
        case c: False
        show ?thesis unfolding round_next [OF True go x c] by (rule ih [OF best_ok_upd [OF less.prems p]])
      qed
    qed
  qed
qed

lemma diff_rounds_ok: "best_ok old new best \<Longrightarrow> diff_rounds old new e best mn mx = Some ch \<Longrightarrow> whole_chain old new ch"
proof (induction old new e best mn mx rule: diff_rounds.induct)
  case (1 old new e best mn mx)
  from "1.prems"(2) have le: "e \<le> int (length old) + int (length new)"
    by (subst (asm) diff_rounds.simps) (simp split: if_splits)
  note ok = diff_round_ok [OF "1.prems"(1), of e "max mn (- e)" mn mx]
  show ?case
  proof (cases "diff_round old new e (max mn (- e)) best mn mx")
    case (Inl c)
    with "1.prems"(2) le ok show ?thesis by (subst (asm) diff_rounds.simps) simp
  next
    case (Inr r)
    obtain b m x where r: "r = (b, m, x)" by (cases r) auto
    from "1.prems"(2) le Inr r have "diff_rounds old new (e + 1) b m x = Some ch"
      by (subst (asm) diff_rounds.simps) simp
    moreover have "best_ok old new b" using ok Inr r by simp
    ultimately show ?thesis using "1.IH" [OF le Inr, of b "(m, x)" m x] \<open>diff_rounds old new (e + 1) b m x = Some ch\<close> r by simp
  qed
qed

lemma first_path_ok: "path_ok old new 0 \<lparr>old_pos = -1, path_last = []\<rparr>"
  by (simp add: path_ok_def)

lemma diff_chain_ok: "diff_chain old new = Some ch \<Longrightarrow> whole_chain old new ch"
proof -
  assume a: "diff_chain old new = Some ch"
  obtain p np where x: "extract_common old new \<lparr>old_pos = -1, path_last = []\<rparr> 0 = (p, np)"
    by (cases "extract_common old new \<lparr>old_pos = -1, path_last = []\<rparr> 0") auto
  from extract_common_ok [OF first_path_ok x] have p: "path_ok old new 0 p" "np = old_pos p - 0" by auto
  then have "best_ok old new ((\<lambda>d. None)(0 := Some p))" by (simp add: best_ok_def)
  with a x complete_whole [OF p(1)] p(2) diff_rounds_ok show ?thesis
    by (auto simp: diff_chain_def split: if_splits)
qed

lemma diff_parts_rebuild:
  assumes "diff_lines old new = Some parts"
  shows "old_side parts = old \<and> new_side parts = new"
proof -
  from assms obtain ch where "diff_chain (tokenize_lines old) (tokenize_lines new) = Some ch"
    and parts: "parts = build_parts (tokenize_lines old) (tokenize_lines new) 0 0 (rev ch)"
    by (auto simp: diff_lines_def)
  from chain_sides [OF diff_chain_ok [OF this(1), unfolded whole_chain_def]] show ?thesis
    by (simp add: parts concat_tokens)
qed

end
