(* ===== verification/Edit_Diff_Total.thy ===== *)
theory Edit_Diff_Total
  imports Edit_Diff
begin

text \<open>
  The search of the line diff always ends with a complete path: the range of diagonals never
  loses the one of the complete path, an edge that was pulled in is followed by a path that
  uses up its text, and in every round at least one path goes one line further.
\<close>

section \<open>The invariant of a round\<close>

definition entry_good :: "'a list \<Rightarrow> 'a list \<Rightarrow> int \<Rightarrow> int \<Rightarrow> diff_path \<Rightarrow> bool" where
  "entry_good old new k i p \<longleftrightarrow> k \<le> 2 * old_pos p - i + 2 \<and> \<not> complete old new p (old_pos p - i)"

definition new_end :: "'a list \<Rightarrow> int \<Rightarrow> diff_path \<Rightarrow> bool" where
  "new_end new i p \<longleftrightarrow> int (length new) \<le> old_pos p - i + 1"

definition old_end :: "'a list \<Rightarrow> diff_path \<Rightarrow> bool" where
  "old_end old p \<longleftrightarrow> int (length old) \<le> old_pos p + 1"

lemma complete_ends: "complete old new p (old_pos p - i) \<longleftrightarrow> old_end old p \<and> new_end new i p"
  by (simp add: complete_def old_end_def new_end_def)

text \<open>The paths of the last round not yet used, and those of this round up to \<open>d\<close>.\<close>

definition pending :: "'a list \<Rightarrow> 'a list \<Rightarrow> int \<Rightarrow> int \<Rightarrow> int \<Rightarrow> best_paths \<Rightarrow> bool" where
  "pending old new e d hi best \<longleftrightarrow>
     (\<forall>i p. best i = Some p \<longrightarrow> d - 1 \<le> i \<longrightarrow> i \<le> hi + 1 \<longrightarrow> odd (i + e) \<longrightarrow> entry_good old new (e - 1) i p)"

definition written :: "'a list \<Rightarrow> 'a list \<Rightarrow> int \<Rightarrow> int \<Rightarrow> int \<Rightarrow> best_paths \<Rightarrow> bool" where
  "written old new e lo d best \<longleftrightarrow>
     (\<forall>i p. best i = Some p \<longrightarrow> lo \<le> i \<longrightarrow> i \<le> d - 2 \<longrightarrow> even (i + e) \<longrightarrow> entry_good old new e i p)"

definition low_edge :: "'a list \<Rightarrow> int \<Rightarrow> int \<Rightarrow> int \<Rightarrow> best_paths \<Rightarrow> int \<Rightarrow> bool" where
  "low_edge new e lo d best mn \<longleftrightarrow>
     mn = isize_min \<and> lo = - e
     \<or> mn = lo \<and> d = lo \<and> (\<exists>p. best (lo - 1) = Some p \<and> new_end new (lo - 1) p)
     \<or> lo < mn \<and> mn \<le> d - 1 \<and> odd (mn + e) \<and> (\<exists>p. best (mn - 1) = Some p \<and> new_end new (mn - 1) p)"

definition high_edge :: "'a list \<Rightarrow> int \<Rightarrow> int \<Rightarrow> best_paths \<Rightarrow> int \<Rightarrow> bool" where
  "high_edge old e d best mx \<longleftrightarrow>
     mx = isize_max
     \<or> mx < e \<and> (d \<le> mx \<and> even (mx + e) \<or> mx + 3 = d) \<and> - e \<le> mx + 1
       \<and> (\<exists>p. best (mx + 1) = Some p \<and> old_end old p)"

text \<open>While no edge was pulled in, some path still has its turn or was written.\<close>

definition turn_of :: "'a list \<Rightarrow> int \<Rightarrow> diff_path \<Rightarrow> int" where
  "turn_of new i p = (if new_end new i p then i + 1 else i - 1)"

definition alive :: "'a list \<Rightarrow> int \<Rightarrow> int \<Rightarrow> int \<Rightarrow> best_paths \<Rightarrow> bool" where
  "alive new e lo d best \<longleftrightarrow>
     (\<exists>i p. best i = Some p \<and> odd (i + e) \<and> d \<le> turn_of new i p)
     \<or> (\<exists>i p. best i = Some p \<and> even (i + e) \<and> lo \<le> i \<and> i \<le> d - 2)"

definition round_mid :: "'a list \<Rightarrow> 'a list \<Rightarrow> int \<Rightarrow> int \<Rightarrow> int \<Rightarrow> best_paths \<Rightarrow> int \<Rightarrow> int \<Rightarrow> bool" where
  "round_mid old new e lo d best mn mx \<longleftrightarrow>
     best_ok old new best \<and> (\<forall>i p. best i = Some p \<longrightarrow> \<bar>i\<bar> \<le> e)
     \<and> (lo \<le> d \<and> - e \<le> lo \<and> d \<le> e + 2 \<and> even (d + e) \<and> even (lo + e) \<and> (d = lo \<longrightarrow> lo \<le> min mx e))
     \<and> pending old new e d (min mx e) best \<and> written old new e lo d best
     \<and> low_edge new e lo d best mn \<and> high_edge old e d best mx
     \<and> (mn \<le> int (length old) - int (length new) \<and> int (length old) - int (length new) \<le> mx)
     \<and> (mn = isize_min \<and> mx = isize_max \<longrightarrow> alive new e lo d best)"

definition small_enough :: "'a list \<Rightarrow> 'a list \<Rightarrow> bool" where
  "small_enough old new \<longleftrightarrow> 2 * (int (length old) + int (length new)) + 3 \<le> isize_max"

section \<open>A round\<close>

lemma not_end_can_add:
  "path_ok old new (d + 1) p \<Longrightarrow> \<not> new_end new (d + 1) p \<Longrightarrow> can_add new (Some p) d"
  by (auto simp: path_ok_def new_end_def can_add_def)

lemma not_end_can_remove: "\<not> old_end old p \<Longrightarrow> can_remove old (Some p)"
  by (auto simp: old_end_def can_remove_def)

lemma pendingD:
  "pending old new e d hi best \<Longrightarrow> best i = Some p \<Longrightarrow> d - 1 \<le> i \<Longrightarrow> i \<le> hi + 1 \<Longrightarrow> odd (i + e) \<Longrightarrow>
   entry_good old new (e - 1) i p"
  by (auto simp: pending_def)

lemma low_edge_goes:
  assumes "pending old new e lo hi best" and "best (lo - 1) = Some p" and "new_end new (lo - 1) p"
    and "even (lo + e)" and "lo \<le> hi"
  shows "can_remove old (best (lo - 1))"
proof -
  have "entry_good old new (e - 1) (lo - 1) p"
    using pendingD [OF assms(1,2)] assms(4,5) by simp
  then have "\<not> old_end old p" using assms(3) by (simp add: entry_good_def complete_ends)
  then show ?thesis using not_end_can_remove assms(2) by simp
qed

lemma high_edge_goes:
  assumes "best_ok old new best" and "pending old new e d (min mx e) best"
    and "best (mx + 1) = Some p" and "old_end old p" and "d = mx" and "even (mx + e)" and "mx < e"
  shows "can_add new (best (mx + 1)) mx"
proof -
  have "entry_good old new (e - 1) (mx + 1) p"
    using pendingD [OF assms(2,3)] assms(5-7) by simp
  then have "\<not> new_end new (mx + 1) p" using assms(4) by (simp add: entry_good_def complete_ends)
  moreover have "path_ok old new (mx + 1) p" using assms(1,3) by (simp add: best_ok_def)
  ultimately show ?thesis using not_end_can_add [of old new mx p] assms(3) by simp
qed

lemma turn_goes:
  assumes "best_ok old new best" and "pending old new e d hi best" and "best i = Some p"
    and "odd (i + e)" and "turn_of new i p = d" and "d \<le> hi"
  shows "may_go old new best d"
proof (cases "new_end new i p")
  case True
  with assms have i: "i = d - 1" by (simp add: turn_of_def)
  have "entry_good old new (e - 1) i p" using pendingD [OF assms(2,3)] assms(4,6) i by simp
  then have "\<not> old_end old p" using True by (simp add: entry_good_def complete_ends)
  then show ?thesis using not_end_can_remove assms(3) i by (auto simp: may_go_def)
next
  case False
  with assms have i: "i = d + 1" by (simp add: turn_of_def)
  have "can_add new (Some p) d"
    using False i assms(1,3) not_end_can_add [of old new d p] by (auto simp: best_ok_def)
  then show ?thesis using i assms(3) by (simp add: may_go_def)
qed

text \<open>What one turn does to the parts of the invariant; \<open>v\<close> is what it leaves at \<open>d\<close>.\<close>

lemma pending_turn:
  assumes "pending old new e d hi best" and "hi' \<le> hi"
  shows "pending old new e (d + 2) hi' (best(d - 1 := None, d := v))"
  unfolding pending_def
proof (intro allI impI)
  fix i p assume a: "(best(d - 1 := None, d := v)) i = Some p" "d + 2 - 1 \<le> i" "i \<le> hi' + 1" "odd (i + e)"
  then have "best i = Some p" by simp
  from pendingD [OF assms(1) this] a assms(2) show "entry_good old new (e - 1) i p" by simp
qed

lemma written_turn:
  assumes "written old new e lo d best" and "even (d + e)" and "\<And>p. v = Some p \<Longrightarrow> entry_good old new e d p"
  shows "written old new e lo (d + 2) (best(d - 1 := None, d := v))"
  unfolding written_def
proof (intro allI impI)
  fix i p assume a: "(best(d - 1 := None, d := v)) i = Some p" "lo \<le> i" "i \<le> d + 2 - 2" "even (i + e)"
  show "entry_good old new e i p"
  proof (cases "i = d")
    case True
    with a assms(3) show ?thesis by simp
  next
    case False
    with a(3,4) assms(2) have "i \<le> d - 2" by presburger
    with a assms(1) show ?thesis by (simp add: written_def)
  qed
qed

lemma alive_turn:
  assumes "alive new e lo d best" and "best_ok old new best" and "pending old new e d hi best" and "d \<le> hi"
    and "even (d + e)" and "lo \<le> d" and "v = None \<Longrightarrow> \<not> may_go old new best d"
  shows "alive new e lo (d + 2) (best(d - 1 := None, d := v))"
proof (cases v)
  case (Some q)
  with assms(5,6) show ?thesis unfolding alive_def by (intro disjI2 exI [of _ d] exI [of _ q]) auto
next
  case None
  from assms(1) consider (turn) i p where "best i = Some p" "odd (i + e)" "d \<le> turn_of new i p"
    | (past) i p where "best i = Some p" "even (i + e)" "lo \<le> i" "i \<le> d - 2"
    unfolding alive_def by blast
  then show ?thesis
  proof cases
    case turn
    have "turn_of new i p \<noteq> d" using turn_goes [OF assms(2,3) turn(1,2)] assms(4,7) None by blast
    moreover have "even (turn_of new i p + e)" using turn(2) by (simp add: turn_of_def)
    ultimately have t: "d + 2 \<le> turn_of new i p" using turn(3) assms(5) by presburger
    then have "i \<noteq> d - 1" "i \<noteq> d" by (auto simp: turn_of_def split: if_splits)
    with turn t show ?thesis unfolding alive_def by (intro disjI1 exI [of _ i] exI [of _ p]) simp
  next
    case past
    then show ?thesis unfolding alive_def by (intro disjI2 exI [of _ i] exI [of _ p]) simp
  qed
qed

lemma high_turn_keep:
  assumes "high_edge old e d best mx" and "d \<le> mx" and "d \<noteq> mx \<or> mx = isize_max" and "even (d + e)"
  shows "high_edge old e (d + 2) (best(d - 1 := None, d := v)) mx"
proof (cases "mx = isize_max")
  case True
  then show ?thesis by (simp add: high_edge_def)
next
  case False
  with assms have "even (mx + e)" by (auto simp: high_edge_def)
  with assms(2-4) False have "d + 2 \<le> mx" by presburger
  with assms(1) False show ?thesis by (auto simp: high_edge_def)
qed

lemma low_turn_keep:
  assumes "low_edge new e lo d best mn" and "d \<noteq> lo \<or> mn \<noteq> lo" and "lo \<le> d" and "isize_min < - e" and "- e \<le> lo"
  shows "low_edge new e lo (d + 2) (best(d - 1 := None, d := v)) mn"
proof -
  from assms(1) consider (first) "mn = isize_min" "lo = - e" | (at_low) "mn = lo" "d = lo"
    | (past) p where "lo < mn" "mn \<le> d - 1" "odd (mn + e)" "best (mn - 1) = Some p" "new_end new (mn - 1) p"
    unfolding low_edge_def by blast
  then show ?thesis
  proof cases
    case past
    then have "(best(d - 1 := None, d := v)) (mn - 1) = Some p" by simp
    with past show ?thesis unfolding low_edge_def by (intro disjI2 conjI exI) auto
  qed (use assms(2) in \<open>auto simp: low_edge_def\<close>)
qed

text \<open>A turn that writes nothing.\<close>

lemma skip_mid:
  assumes mid: "round_mid old new e lo d best mn mx" and le: "d \<le> min mx e"
    and no: "\<not> may_go old new best d" and far: "isize_min < - e" 
  shows "round_mid old new e lo (d + 2) (best(d - 1 := None, d := None)) mn mx"
proof -
  let ?b = "best(d - 1 := None, d := None)"
  have ok: "best_ok old new best" and pend: "pending old new e d (min mx e) best"
    and par: "even (d + e)" "lo \<le> d" "- e \<le> lo" and low: "low_edge new e lo d best mn" and high: "high_edge old e d best mx"
    using mid by (simp_all add: round_mid_def)
  have not_low: "d \<noteq> lo \<or> mn \<noteq> lo"
  proof (rule ccontr)
    assume a: "\<not> (d \<noteq> lo \<or> mn \<noteq> lo)"
    with low par far obtain p where p: "best (lo - 1) = Some p" "new_end new (lo - 1) p"
      by (auto simp: low_edge_def)
    have "can_remove old (best (lo - 1))"
      by (rule low_edge_goes [where best = best and lo = lo and e = e and hi = "min mx e", OF _ p(1) p(2)]) (use a pend par le in auto)
    with no a show False by (simp add: may_go_def)
  qed
  have not_high: "d \<noteq> mx \<or> mx = isize_max"
  proof (rule ccontr)
    assume a: "\<not> (d \<noteq> mx \<or> mx = isize_max)"
    with high obtain p where p: "best (mx + 1) = Some p" "old_end old p" "mx < e" by (auto simp: high_edge_def)
    have "can_add new (best (mx + 1)) mx"
      by (rule high_edge_goes [OF ok pend p(1,2)]) (use a par p in auto)
    with no a show False by (simp add: may_go_def)
  qed
  have "best_ok old new ?b" "\<forall>i p. ?b i = Some p \<longrightarrow> \<bar>i\<bar> \<le> e"
    using mid by (auto simp: round_mid_def best_ok_def)
  moreover have "pending old new e (d + 2) (min mx e) ?b" by (rule pending_turn [OF pend order_refl])
  moreover have "written old new e lo (d + 2) ?b"
    by (rule written_turn) (use mid par in \<open>auto simp: round_mid_def\<close>)
  moreover have "low_edge new e lo (d + 2) ?b mn"
    by (rule low_turn_keep [OF low]) (use not_low far par in auto)
  moreover have "high_edge old e (d + 2) ?b mx"
    by (rule high_turn_keep [OF high]) (use not_high le par in auto)
  moreover have "mn = isize_min \<and> mx = isize_max \<longrightarrow> alive new e lo (d + 2) ?b"
    using alive_turn [OF _ ok pend le] no par mid by (simp add: round_mid_def)
  ultimately show ?thesis using mid le par unfolding round_mid_def by auto
qed

text \<open>A turn that goes a line further.\<close>

lemma base_consumed:
  assumes "pending old new e d hi best" and "even (d + e)" and "d \<le> hi" and "may_go old new best d"
  shows "e \<le> 2 * old_pos (next_base old new (best (d - 1)) (best (d + 1)) d) - d + 2"
proof (cases "\<not> can_remove old (best (d - 1))
    \<or> (can_add new (best (d + 1)) d \<and> old_pos (the (best (d - 1))) < old_pos (the (best (d + 1))))")
  case True
  with assms(4) have "can_add new (best (d + 1)) d" by (auto simp: may_go_def)
  then obtain p where p: "best (d + 1) = Some p" by (auto simp: can_add_def split: option.splits)
  have "entry_good old new (e - 1) (d + 1) p" using pendingD [OF assms(1) p] assms(2,3) by simp
  with True p show ?thesis by (simp add: next_base_def entry_good_def)
next
  case False
  then have "can_remove old (best (d - 1))" by blast
  then obtain p where p: "best (d - 1) = Some p" by (auto simp: can_remove_def split: option.splits)
  have "entry_good old new (e - 1) (d - 1) p" using pendingD [OF assms(1) p] assms(2,3) by simp
  with False p show ?thesis by (auto simp: next_base_def entry_good_def)
qed

lemma low_edge_stays:
  assumes "best_ok old new best" and "can_remove old (best (d - 1))"
    and "best (d - 1) = Some r" and "new_end new (d - 1) r"
  shows "int (length new) \<le> old_pos (next_base old new (best (d - 1)) (best (d + 1)) d) - d + 1"
  using assms by (auto simp: next_base_def new_end_def)

lemma high_edge_stays:
  assumes "can_add new (best (d + 1)) d" and "best (d + 1) = Some a" and "old_end old a"
  shows "int (length old) \<le> old_pos (next_base old new (best (d - 1)) (best (d + 1)) d) + 1"
  using assms by (cases "best (d - 1)") (auto simp: next_base_def old_end_def can_remove_def)

lemma low_turn_next:
  assumes low: "low_edge new e lo d best mn" and forced: "d = lo \<and> mn = lo \<longrightarrow> new_end new d p"
    and "lo \<le> d" and "even (d + e)" and "isize_min < - e" and "- e \<le> lo"
  shows "low_edge new e lo (d + 2) (best(d - 1 := None, d := Some p)) (if new_end new d p then max mn (d + 1) else mn)"
proof (cases "new_end new d p")
  case True
  have "mn \<le> d" using low assms(3,5,6) by (auto simp: low_edge_def)
  then have "max mn (d + 1) = d + 1" by simp
  with True assms(3,4) show ?thesis by (simp add: low_edge_def)
next
  case False
  have "low_edge new e lo (d + 2) (best(d - 1 := None, d := Some p)) mn"
    by (rule low_turn_keep [OF low]) (use False forced assms(3,5,6) in auto)
  with False show ?thesis by simp
qed

lemma high_turn_next:
  assumes high: "high_edge old e d best mx" and forced: "d = mx \<and> mx \<noteq> isize_max \<longrightarrow> old_end old p"
    and "d \<le> min mx e" and "even (d + e)" and "- e \<le> d"
  shows "high_edge old e (d + 2) (best(d - 1 := None, d := Some p)) (if old_end old p then min mx (d - 1) else mx)"
proof (cases "old_end old p")
  case True
  have "min mx (d - 1) = d - 1" using assms(3) by simp
  with True assms(3-5) show ?thesis by (simp add: high_edge_def)
next
  case False
  with high_turn_keep [OF high] forced assms(3,4) show ?thesis by auto
qed

lemma edges_keep_goal:
  assumes "path_ok old new d p" and "\<not> (old_end old p \<and> new_end new d p)"
  shows "new_end new d p \<Longrightarrow> d + 1 \<le> int (length old) - int (length new)"
    and "old_end old p \<Longrightarrow> int (length old) - int (length new) \<le> d - 1"
  using assms by (auto simp: path_ok_def old_end_def new_end_def)

lemma next_mid:
  assumes mid: "round_mid old new e lo d best mn mx" and le: "d \<le> min mx e"
    and go: "may_go old new best d" and far: "isize_min < - e" 
    and x: "extract_common old new (next_base old new (best (d - 1)) (best (d + 1)) d) d = (p, np)"
    and nc: "\<not> complete old new p np"
  shows "round_mid old new e lo (d + 2) (best(d - 1 := None, d := Some p))
     (if int (length new) \<le> np + 1 then max mn (d + 1) else mn)
     (if int (length old) \<le> old_pos p + 1 then min mx (d - 1) else mx)"
    (is "round_mid old new e lo (d + 2) ?b ?mn ?mx")
proof -
  let ?base = "next_base old new (best (d - 1)) (best (d + 1)) d"
  have ok: "best_ok old new best" and pend: "pending old new e d (min mx e) best"
    and par: "even (d + e)" "lo \<le> d" "- e \<le> lo" "even (lo + e)"
    and low: "low_edge new e lo d best mn" and high: "high_edge old e d best mx"
    using mid by (simp_all add: round_mid_def)
  from extract_common_ok [OF next_base_ok [OF ok go [unfolded may_go_def]] x]
  have p: "path_ok old new d p" and np: "np = old_pos p - d" and further: "old_pos ?base \<le> old_pos p" by auto
  have ends: "(int (length new) \<le> np + 1) = new_end new d p" "(int (length old) \<le> old_pos p + 1) = old_end old p"
    by (simp_all add: np new_end_def old_end_def)
  have nc': "\<not> (old_end old p \<and> new_end new d p)" using nc unfolding np complete_ends .
  have good: "entry_good old new e d p"
    using base_consumed [OF pend par(1) le go] further nc np by (simp add: entry_good_def)
  have force_low: "d = lo \<and> mn = lo \<longrightarrow> new_end new d p"
  proof
    assume a: "d = lo \<and> mn = lo"
    with low par far obtain r where r: "best (d - 1) = Some r" "new_end new (d - 1) r"
      by (auto simp: low_edge_def)
    have "can_remove old (best (d - 1))"
      by (rule low_edge_goes [where best = best and lo = d and e = e and hi = "min mx e", OF _ r(1) r(2)]) (use pend par le in auto)
    from low_edge_stays [OF ok this r] further show "new_end new d p" by (simp add: new_end_def)
  qed
  have force_high: "d = mx \<and> mx \<noteq> isize_max \<longrightarrow> old_end old p"
  proof
    assume a: "d = mx \<and> mx \<noteq> isize_max"
    with high obtain q where q: "best (mx + 1) = Some q" "old_end old q" "mx < e" by (auto simp: high_edge_def)
    have "can_add new (best (mx + 1)) mx"
      by (rule high_edge_goes [OF ok pend q(1,2)]) (use a par q in auto)
    with high_edge_stays [of new best d q old] a q further show "old_end old p" by (simp add: old_end_def)
  qed
  have "best_ok old new ?b" "\<forall>i p. ?b i = Some p \<longrightarrow> \<bar>i\<bar> \<le> e"
    using mid p par le by (auto simp: round_mid_def best_ok_def)
  moreover have "pending old new e (d + 2) (min ?mx e) ?b" by (rule pending_turn [OF pend]) (auto simp: min_def)
  moreover have "written old new e lo (d + 2) ?b"
    by (rule written_turn) (use mid par good in \<open>auto simp: round_mid_def\<close>)
  moreover have "low_edge new e lo (d + 2) ?b ?mn"
    unfolding ends by (rule low_turn_next [OF low force_low]) (use far par in auto)
  moreover have "high_edge old e (d + 2) ?b ?mx"
    unfolding ends by (rule high_turn_next [OF high force_high le]) (use par in auto)
  moreover have "?mn \<le> int (length old) - int (length new) \<and> int (length old) - int (length new) \<le> ?mx"
    using mid edges_keep_goal [OF p nc'] unfolding ends round_mid_def by auto
  moreover have "alive new e lo (d + 2) ?b"
    unfolding alive_def using par by (intro disjI2 exI [of _ d] exI [of _ p]) auto
  ultimately show ?thesis using le par unfolding round_mid_def by simp
qed

section \<open>From round to round\<close>

text \<open>When the inner loop is over, the next round starts with the invariant.\<close>

lemma exit_mid:
  assumes mid: "round_mid old new e lo d best mn mx" and stop: "\<not> d \<le> min mx e"
    and far: "isize_min < - e - 1" "e + 1 < isize_max" and "0 \<le> e"
  shows "round_mid old new (e + 1) (max mn (- (e + 1))) (max mn (- (e + 1))) best mn mx"
    (is "round_mid old new (e + 1) ?lo ?lo best mn mx")
proof -
  have par: "even (d + e)" "lo \<le> d" "- e \<le> lo" "d \<le> e + 2" "even (lo + e)" "d \<noteq> lo"
    and low: "low_edge new e lo d best mn" and high: "high_edge old e d best mx"
    and wr: "written old new e lo d best" and inside: "best i = Some p \<Longrightarrow> \<bar>i\<bar> \<le> e"
    and goal: "mn \<le> int (length old) - int (length new)" "int (length old) - int (length new) \<le> mx" for i p
    using mid stop unfolding round_mid_def by blast+
  have low': "mn = isize_min \<and> lo = - e \<or> lo < mn \<and> mn \<le> d - 1 \<and> odd (mn + e) \<and> (\<exists>p. best (mn - 1) = Some p \<and> new_end new (mn - 1) p)"
    using low par unfolding low_edge_def by blast
  have high': "mx = isize_max \<and> d = e + 2 \<or> mx + 3 = d \<and> mx < e \<and> - e \<le> mx + 1 \<and> (\<exists>p. best (mx + 1) = Some p \<and> old_end old p)"
  proof (cases "mx = isize_max")
    case True
    with stop far par have "e < d" by auto
    then have "d = e + 2" using par(1,4) by presburger
    with True show ?thesis by simp
  next
    case False
    with high stop show ?thesis unfolding high_edge_def by auto
  qed
  have lo_le: "?lo \<le> min mx (e + 1)" using goal par low' high' far \<open>0 \<le> e\<close> by auto
  have lo_par: "even (?lo + (e + 1))"
    using low' far par by (auto simp: max_def)
  have "pending old new (e + 1) ?lo (min mx (e + 1)) best"
    unfolding pending_def
  proof (intro allI impI)
    fix i p assume a: "best i = Some p" "?lo - 1 \<le> i" "i \<le> min mx (e + 1) + 1" "odd (i + (e + 1))"
    have "lo \<le> i" using low' a(2) inside [OF a(1)] by auto
    moreover have "i \<le> d - 2" using high' a(3) inside [OF a(1)] by auto
    moreover have "even (i + e)" using a(4) by simp
    ultimately show "entry_good old new (e + 1 - 1) i p" using wr a(1) by (simp add: written_def)
  qed
  moreover have "written old new (e + 1) ?lo ?lo best" by (auto simp: written_def)
  moreover have "low_edge new (e + 1) ?lo ?lo best mn"
    using low' far par by (auto simp: low_edge_def)
  moreover have "high_edge old (e + 1) ?lo best mx"
    using high' lo_le par by (auto simp: high_edge_def)
  moreover have "alive new (e + 1) ?lo ?lo best" if m: "mn = isize_min \<and> mx = isize_max"
  proof -
    from mid m have "alive new e lo d best" by (simp add: round_mid_def)
    moreover have "\<not> (best i = Some p \<and> odd (i + e) \<and> d \<le> turn_of new i p)" for i p
      using inside [of i p] high' m far by (auto simp: turn_of_def split: if_splits)
    ultimately obtain i p where i: "best i = Some p" "even (i + e)" unfolding alive_def by blast
    have "?lo \<le> turn_of new i p" using inside [OF i(1)] m far by (auto simp: turn_of_def)
    with i show ?thesis unfolding alive_def by (intro disjI1 exI [of _ i] exI [of _ p]) simp
  qed
  moreover have "\<forall>i p. best i = Some p \<longrightarrow> \<bar>i\<bar> \<le> e + 1" using inside by fastforce
  moreover have "best_ok old new best" using mid by (simp add: round_mid_def)
  moreover have "- (e + 1) \<le> ?lo" "?lo \<le> e + 1 + 2" using lo_le by simp_all
  ultimately show ?thesis using lo_le lo_par goal unfolding round_mid_def by simp
qed

lemma diff_round_mid:
  assumes "round_mid old new e lo d best mn mx" and "isize_min < - e - 1" and "e + 1 < isize_max" and "0 \<le> e"
  shows "case diff_round old new e d best mn mx of
      Inl ch \<Rightarrow> True
    | Inr (best', mn', mx') \<Rightarrow>
        round_mid old new (e + 1) (max mn' (- (e + 1))) (max mn' (- (e + 1))) best' mn' mx'"
  using assms(1)
proof (induction "nat (e + 1 - d)" arbitrary: d best mn mx rule: less_induct)
  case less
  have far: "isize_min < - e" using assms(2) by simp
  show ?case
  proof (cases "d \<le> min mx e")
    case False
    show ?thesis using exit_mid [OF less.prems False assms(2-4)] by (simp add: round_stop [OF False])
  next
    case True
    then have dec: "nat (e + 1 - (d + 2)) < nat (e + 1 - d)" by simp
    note ih = less.hyps [OF dec]
    show ?thesis
    proof (cases "may_go old new best d")
      case False
      show ?thesis unfolding round_skip [OF True False] by (rule ih [OF skip_mid [OF less.prems True False far]])
    next
      case go: True
      obtain p np where x: "extract_common old new (next_base old new (best (d - 1)) (best (d + 1)) d) d = (p, np)"
        by (cases "extract_common old new (next_base old new (best (d - 1)) (best (d + 1)) d) d") auto
      show ?thesis
      proof (cases "complete old new p np")
        case c: True
        show ?thesis unfolding round_found [OF True go x c] by simp
      next
        case c: False
        show ?thesis unfolding round_next [OF True go x c] by (rule ih [OF next_mid [OF less.prems True go far x c]])
      qed
    qed
  qed
qed

text \<open>After \<open>old + new\<close> rounds a path would have used more lines than there are.\<close>

lemma path_used:
  "path_ok old new i p \<Longrightarrow> entry_good old new k i p \<Longrightarrow> k < int (length old) + int (length new)"
  by (auto simp: path_ok_def entry_good_def complete_ends old_end_def new_end_def)

lemma no_round_left:
  assumes "round_mid old new e lo lo best mn mx" and "e = int (length old) + int (length new) + 1"
    and "isize_min < - e" 
  shows False
proof -
  have ok: "best_ok old new best" and pend: "pending old new e lo (min mx e) best"
    and inside: "best i = Some p \<Longrightarrow> \<bar>i\<bar> \<le> e" for i p
    using assms(1) unfolding round_mid_def by blast+
  have none: "\<not> (best i = Some p \<and> lo - 1 \<le> i \<and> i \<le> min mx e + 1 \<and> odd (i + e))" for i p
  proof
    assume a: "best i = Some p \<and> lo - 1 \<le> i \<and> i \<le> min mx e + 1 \<and> odd (i + e)"
    then have "entry_good old new (e - 1) i p" using pendingD [OF pend, of i p] by blast
    moreover have "path_ok old new i p" using ok a by (simp add: best_ok_def)
    ultimately show False using path_used assms(2) by fastforce
  qed
  have lo: "lo \<le> min mx e" "even (lo + e)" using assms(1) by (auto simp: round_mid_def)
  have "mn = isize_min"
    using assms(1) none [of "lo - 1"] lo unfolding round_mid_def low_edge_def by auto
  moreover have "mx = isize_max"
  proof (rule ccontr)
    assume "mx \<noteq> isize_max"
    with assms(1) lo obtain p where "best (mx + 1) = Some p" "mx < e" "even (mx + e)"
      unfolding round_mid_def high_edge_def by auto
    with none [of "mx + 1" p] lo show False by auto
  qed
  ultimately obtain i p where i: "best i = Some p" "odd (i + e)" "lo \<le> turn_of new i p"
    using assms(1) unfolding round_mid_def alive_def by auto
  have "lo - 1 \<le> i" using i(3) by (auto simp: turn_of_def split: if_splits)
  moreover have "i \<le> min mx e + 1"
    using inside [OF i(1)] \<open>mx = isize_max\<close> assms(3) by (auto simp: isize_max_def isize_min_def)
  ultimately show False using none i by blast
qed

section \<open>The diff exists\<close>

lemma diff_rounds_total:
  assumes "small_enough old new"
  shows "round_mid old new e (max mn (- e)) (max mn (- e)) best mn mx \<Longrightarrow> 0 \<le> e \<Longrightarrow>
    e \<le> int (length old) + int (length new) + 1 \<Longrightarrow> diff_rounds old new e best mn mx \<noteq> None"
proof (induction "nat (int (length old) + int (length new) + 1 - e)" arbitrary: e best mn mx rule: less_induct)
  case less
  have bounds: "isize_min < - e - 1" "e + 1 < isize_max"
    using assms less.prems(3) by (simp_all add: small_enough_def isize_min_def isize_max_def)
  show ?case
  proof (cases "e = int (length old) + int (length new) + 1")
    case True
    with no_round_left [OF less.prems(1) True] bounds show ?thesis by simp
  next
    case False
    then have le: "e \<le> int (length old) + int (length new)" using less.prems(3) by simp
    note res = diff_round_mid [OF less.prems(1) bounds less.prems(2)]
    show ?thesis
    proof (cases "diff_round old new e (max mn (- e)) best mn mx")
      case (Inl c)
      with le show ?thesis by (subst diff_rounds.simps) simp
    next
      case (Inr r)
      obtain b m x where r: "r = (b, m, x)" by (cases r) auto
      have "round_mid old new (e + 1) (max m (- (e + 1))) (max m (- (e + 1))) b m x"
        using res Inr r by simp
      then have "diff_rounds old new (e + 1) b m x \<noteq> None"
        by (intro less.hyps) (use le less.prems(2) in auto)
      with le Inr r show ?thesis by (subst diff_rounds.simps) simp
    qed
  qed
qed

lemma diff_chain_total:
  assumes "small_enough old new"
  shows "diff_chain old new \<noteq> None"
proof -
  obtain p np where x: "extract_common old new \<lparr>old_pos = -1, path_last = []\<rparr> 0 = (p, np)"
    by (cases "extract_common old new \<lparr>old_pos = -1, path_last = []\<rparr> 0") auto
  from extract_common_ok [OF first_path_ok x] have p: "path_ok old new 0 p" and np: "np = old_pos p - 0" by auto
  show ?thesis
  proof (cases "complete old new p np")
    case True
    with x show ?thesis by (simp add: diff_chain_def)
  next
    case False
    have max1: "max isize_min (- 1) = - 1" by (simp add: isize_min_def)
    have "entry_good old new 0 0 p" using p np False by (auto simp: entry_good_def path_ok_def)
    then have "round_mid old new 1 (-1) (-1) ((\<lambda>d. None)(0 := Some p)) isize_min isize_max"
      using p assms
      by (auto simp: round_mid_def best_ok_def pending_def written_def low_edge_def high_edge_def alive_def
          turn_of_def small_enough_def isize_min_def isize_max_def)
    then have "diff_rounds old new 1 ((\<lambda>d. None)(0 := Some p)) isize_min isize_max \<noteq> None"
      by (intro diff_rounds_total [OF assms]) (simp_all add: max1)
    with x False show ?thesis by (simp add: diff_chain_def)
  qed
qed

lemma tokens_le: "length (tokenize_lines s) \<le> length s"
  by (induction s) (auto split: list.split)

lemma diff_lines_total:
  assumes "2 * (length old + length new) + 3 < 2 ^ 63"
  shows "\<exists>parts. diff_lines old new = Some parts"
proof -
  have "small_enough (tokenize_lines old) (tokenize_lines new)"
    using assms tokens_le [of old] tokens_le [of new] by (simp add: small_enough_def isize_max_def)
  from diff_chain_total [OF this] show ?thesis by (auto simp: diff_lines_def)
qed

text \<open>
  C31: The line diff of two texts always ends with a path (the unreachable branch is never
  reached), and its runs rebuild both texts: common and removed lines the old one, common and added
  lines the new one.
\<close>

theorem line_diff_exists:
  assumes "2 * (length old + length new) + 3 < 2 ^ 63"
  shows "\<exists>parts. diff_lines old new = Some parts \<and> old_side parts = old \<and> new_side parts = new"
  using diff_lines_total [OF assms] diff_parts_rebuild by blast

theorem line_diff_exists_witness:
  "\<exists>parts. diff_lines (U ''ab'') (U ''b'') = Some parts \<and> old_side parts = U ''ab'' \<and> new_side parts = U ''b''"
  by (rule line_diff_exists) simp

end
