(* ===== verification/Edit_Display.thy ===== *)
theory Edit_Display
  imports Edit_Diff_Total
begin

text \<open>
  The display of a line diff (\<open>generate_diff_string\<close> in
  \<^verbatim>\<open>crates/hoocode-code-tools-fs/src/edit_diff.rs\<close>): the rows shown with their line numbers
  as values, their text, and the proof that every row shown is a line of the texts under its
  true number and that no changed line is left out.
\<close>

section \<open>Rows\<close>

datatype diff_row = AddedRow nat ustr | RemovedRow nat ustr | ContextRow nat ustr | GapRow

text \<open>The lines of a run, without the empty one after its last newline.\<close>

definition raw_lines :: "ustr \<Rightarrow> ustr list" where
  "raw_lines v = (let raw = split_on 10 v in if last raw = [] then butlast raw else raw)"

fun number_rows :: "(nat \<Rightarrow> ustr \<Rightarrow> diff_row) \<Rightarrow> nat \<Rightarrow> ustr list \<Rightarrow> diff_row list" where
  "number_rows f n [] = []"
| "number_rows f n (l # ls) = f n l # number_rows f (n + 1) ls"

definition common_rows :: "nat \<Rightarrow> ustr list \<Rightarrow> nat \<Rightarrow> bool \<Rightarrow> bool \<Rightarrow> diff_row list" where
  "common_rows ctx raw old_line last_was_change next_is_change =
     (if last_was_change \<and> next_is_change then
        (if length raw \<le> ctx * 2 then number_rows ContextRow old_line raw
         else (let skipped = length raw - 2 * ctx
               in number_rows ContextRow old_line (take ctx raw) @ [GapRow]
                  @ number_rows ContextRow (old_line + ctx + skipped) (drop (length raw - ctx) raw)))
      else if last_was_change then
        (let shown = min (length raw) ctx; skipped = length raw - shown
         in number_rows ContextRow old_line (take shown raw) @ (if 0 < skipped then [GapRow] else []))
      else if next_is_change then
        (let skipped = length raw - ctx
         in (if 0 < skipped then [GapRow] else []) @ number_rows ContextRow (old_line + skipped) (drop skipped raw))
      else [])"

definition next_is_change :: "(part_kind \<times> ustr) list \<Rightarrow> bool" where
  "next_is_change rest = (case rest of p # ps \<Rightarrow> fst p \<noteq> CommonPart | [] \<Rightarrow> False)"

fun diff_rows :: "nat \<Rightarrow> (part_kind \<times> ustr) list \<Rightarrow> nat \<Rightarrow> nat \<Rightarrow> bool \<Rightarrow> diff_row list" where
  "diff_rows ctx [] old_line new_line last_was_change = []"
| "diff_rows ctx ((kind, v) # rest) old_line new_line last_was_change =
     (let raw = raw_lines v; k = length raw
      in case kind of
           AddedPart \<Rightarrow> number_rows AddedRow new_line raw @ diff_rows ctx rest old_line (new_line + k) True
         | RemovedPart \<Rightarrow> number_rows RemovedRow old_line raw @ diff_rows ctx rest (old_line + k) new_line True
         | CommonPart \<Rightarrow> common_rows ctx raw old_line last_was_change (next_is_change rest)
             @ diff_rows ctx rest (old_line + k) (new_line + k) False)"

fun first_changed :: "(part_kind \<times> ustr) list \<Rightarrow> nat \<Rightarrow> nat option" where
  "first_changed [] new_line = None"
| "first_changed ((kind, v) # rest) new_line =
     (if kind = CommonPart then first_changed rest (new_line + length (raw_lines v)) else Some new_line)"

section \<open>Text\<close>

definition pad_left :: "nat \<Rightarrow> ustr \<Rightarrow> ustr" where
  "pad_left width s = replicate (width - length s) 32 @ s"

fun row_text :: "nat \<Rightarrow> diff_row \<Rightarrow> ustr" where
  "row_text width (AddedRow n l) = U ''+'' @ pad_left width (nat_digits n) @ U '' '' @ l"
| "row_text width (RemovedRow n l) = U ''-'' @ pad_left width (nat_digits n) @ U '' '' @ l"
| "row_text width (ContextRow n l) = U '' '' @ pad_left width (nat_digits n) @ U '' '' @ l"
| "row_text width GapRow = U '' '' @ replicate width 32 @ U '' ...''"

record edit_diff =
  diff_text :: ustr
  first_changed_line :: "nat option"

definition generate_diff_string :: "ustr \<Rightarrow> ustr \<Rightarrow> nat \<Rightarrow> edit_diff option" where
  "generate_diff_string old_content new_content ctx =
     (case diff_lines old_content new_content of
        None \<Rightarrow> None
      | Some parts \<Rightarrow>
          (let width = length (nat_digits (max (length (split_on 10 old_content)) (length (split_on 10 new_content))))
           in Some \<lparr>diff_text = join [10] (map (row_text width) (diff_rows ctx parts 1 1 False)),
                    first_changed_line = first_changed parts 1\<rparr>))"

section \<open>Tokens and lines\<close>

text \<open>Tokens are lines that end with their newline, the last one perhaps without.\<close>

fun tokens_wf :: "ustr list \<Rightarrow> bool" where
  "tokens_wf [] \<longleftrightarrow> True"
| "tokens_wf (t # ts) \<longleftrightarrow> (\<exists>l. 10 \<notin> set l \<and> (t = l @ [10] \<or> t = l \<and> l \<noteq> [] \<and> ts = [])) \<and> tokens_wf ts"

definition strip_lf :: "ustr \<Rightarrow> ustr" where
  "strip_lf t = (if t \<noteq> [] \<and> last t = 10 then butlast t else t)"

lemma tokenize_wf: "tokens_wf (tokenize_lines s)"
proof (induction s)
  case Nil
  show ?case by simp
next
  case (Cons c s)
  show ?case
  proof (cases "c = 10")
    case True
    with Cons show ?thesis by (auto intro!: exI [of _ "[]"])
  next
    case False
    show ?thesis
    proof (cases "tokenize_lines s")
      case Nil
      with False show ?thesis by (auto intro!: exI [of _ "[c]"])
    next
      case (Cons t ts)
      with \<open>tokens_wf (tokenize_lines s)\<close> obtain l where
        "10 \<notin> set l" "t = l @ [10] \<or> t = l \<and> l \<noteq> [] \<and> ts = []" "tokens_wf ts" by auto
      with False Cons show ?thesis by (auto intro!: exI [of _ "c # l"])
    qed
  qed
qed

lemma wf_drop: "tokens_wf ts \<Longrightarrow> tokens_wf (drop k ts)"
  by (induction ts arbitrary: k) (auto simp: drop_Cons split: nat.split)

lemma wf_take: "tokens_wf ts \<Longrightarrow> tokens_wf (take k ts)"
  by (induction ts arbitrary: k) (auto simp: take_Cons split: nat.split)

lemma raw_lines_cons: "10 \<notin> set l \<Longrightarrow> raw_lines (l @ [10] @ s) = l # raw_lines s"
  by (simp add: raw_lines_def Let_def split_on_line)

lemma raw_lines_concat: "tokens_wf ts \<Longrightarrow> raw_lines (concat ts) = map strip_lf ts"
proof (induction ts)
  case Nil
  show ?case by (simp add: raw_lines_def)
next
  case (Cons t ts)
  then obtain l where l: "10 \<notin> set l" "t = l @ [10] \<or> t = l \<and> l \<noteq> [] \<and> ts = []" and wf: "tokens_wf ts" by auto
  from l(2) show ?case
  proof
    assume "t = l @ [10]"
    with Cons.IH [OF wf] raw_lines_cons [OF l(1)] show ?thesis by (simp add: strip_lf_def)
  next
    assume t: "t = l \<and> l \<noteq> [] \<and> ts = []"
    then have "last l \<noteq> 10" using l(1) by (metis last_in_set)
    with t l(1) show ?thesis by (simp add: raw_lines_def split_on_single strip_lf_def)
  qed
qed

lemma raw_lines_text: "raw_lines s = map strip_lf (tokenize_lines s)"
  using raw_lines_concat [OF tokenize_wf, of s] by (simp add: concat_tokens)

lemma raw_lines_nth: "i < length (raw_lines s) \<Longrightarrow> i < length (split_on 10 s) \<and> split_on 10 s ! i = raw_lines s ! i"
  by (auto simp: raw_lines_def Let_def nth_butlast split: if_splits)

section \<open>The rows are true\<close>

text \<open>The chain read from the front: what is left of both texts.\<close>

fun rest_ok :: "'a list \<Rightarrow> 'a list \<Rightarrow> nat \<Rightarrow> nat \<Rightarrow> diff_component list \<Rightarrow> bool" where
  "rest_ok old new i j [] \<longleftrightarrow> i = length old \<and> j = length new"
| "rest_ok old new i j (c # cs) \<longleftrightarrow>
     (let k = comp_count c
      in 0 < k \<and>
         (if comp_removed c then i + k \<le> length old \<and> rest_ok old new (i + k) j cs
          else if comp_added c then j + k \<le> length new \<and> rest_ok old new i (j + k) cs
          else i + k \<le> length old \<and> j + k \<le> length new \<and> take k (drop i old) = take k (drop j new)
            \<and> rest_ok old new (i + k) (j + k) cs))"

lemma chain_rest_ok:
  "chain_ok old new ch i j \<Longrightarrow> rest_ok old new i j cs \<Longrightarrow> rest_ok old new 0 0 (rev ch @ cs)"
proof (induction ch arbitrary: i j cs)
  case Nil
  then show ?case by simp
next
  case (Cons c ch)
  let ?i = "if comp_added c \<and> \<not> comp_removed c then i else i - comp_count c"
  let ?j = "if comp_removed c then j else j - comp_count c"
  have "chain_ok old new ch ?i ?j" "rest_ok old new ?i ?j (c # cs)"
    using Cons.prems by (auto simp: Let_def split: if_splits)
  from Cons.IH [OF this] show ?case by simp
qed

definition row_true :: "ustr \<Rightarrow> ustr \<Rightarrow> diff_row \<Rightarrow> bool" where
  "row_true old new row =
     (case row of
        AddedRow n l \<Rightarrow> 1 \<le> n \<and> n \<le> length (split_on 10 new) \<and> split_on 10 new ! (n - 1) = l
      | RemovedRow n l \<Rightarrow> 1 \<le> n \<and> n \<le> length (split_on 10 old) \<and> split_on 10 old ! (n - 1) = l
      | ContextRow n l \<Rightarrow> 1 \<le> n \<and> n \<le> length (split_on 10 old) \<and> split_on 10 old ! (n - 1) = l \<and> l \<in> set (split_on 10 new)
      | GapRow \<Rightarrow> True)"

lemma in_number_rows: "row \<in> set (number_rows f n ls) \<longleftrightarrow> (\<exists>i < length ls. row = f (n + i) (ls ! i))"
proof (induction ls arbitrary: n)
  case Nil
  show ?case by simp
next
  case (Cons l ls)
  have "(\<exists>i < length (l # ls). row = f (n + i) ((l # ls) ! i)) \<longleftrightarrow> row = f n l \<or> (\<exists>i < length ls. row = f (n + 1 + i) (ls ! i))"
    by (auto simp: less_Suc_eq_0_disj)
  with Cons show ?case by simp
qed

text \<open>A row of a common run is one of its lines, at its number.\<close>

lemma in_common_rows:
  assumes "row \<in> set (common_rows ctx raw n a b)"
  shows "row = GapRow \<or> (\<exists>i < length raw. row = ContextRow (n + i) (raw ! i))"
proof -
  have "row = GapRow \<or> (\<exists>k. row \<in> set (number_rows ContextRow (n + k) (drop k raw)))
      \<or> (\<exists>k. row \<in> set (number_rows ContextRow n (take k raw)))"
    using assms
    by (auto simp: common_rows_def Let_def split: if_splits intro: exI [of _ "length raw"] exI [of _ "length raw - ctx"])
  then show ?thesis
  proof (elim disjE exE)
    fix k assume "row \<in> set (number_rows ContextRow (n + k) (drop k raw))"
    then obtain i where "i < length raw - k" "row = ContextRow (n + k + i) (drop k raw ! i)"
      by (auto simp: in_number_rows)
    then show ?thesis by (intro disjI2 exI [of _ "k + i"]) auto
  qed (auto simp: in_number_rows)
qed

text \<open>The lines of a run of \<open>k\<close> tokens from \<open>i\<close> on are the text's lines \<open>i + 1\<close> to \<open>i + k\<close>.\<close>

lemma run_lines:
  assumes "i + k \<le> length (tokenize_lines s)"
  shows "raw_lines (concat (take k (drop i (tokenize_lines s)))) = take k (drop i (raw_lines s))"
    and "length (raw_lines (concat (take k (drop i (tokenize_lines s))))) = k"
  using raw_lines_concat [OF wf_take [OF wf_drop [OF tokenize_wf [of s], of i], of k]] assms
  by (simp_all add: raw_lines_text take_map drop_map)

lemma run_line:
  assumes "i + k \<le> length (tokenize_lines s)" and "m < k"
  shows "i + m < length (split_on 10 s)
    \<and> raw_lines (concat (take k (drop i (tokenize_lines s)))) ! m = split_on 10 s ! (i + m)"
  using run_lines(1) [OF assms(1)] raw_lines_nth [of "i + m" s] assms by (simp add: raw_lines_text)

lemma rows_true:
  assumes "rest_ok (tokenize_lines old) (tokenize_lines new) i j cs"
    and "row \<in> set (diff_rows ctx (build_parts (tokenize_lines old) (tokenize_lines new) i j cs) (i + 1) (j + 1) b)"
  shows "row_true old new row"
  using assms
proof (induction cs arbitrary: i j b)
  case Nil
  then show ?case by simp
next
  case (Cons c cs)
  let ?k = "comp_count c" and ?o = "tokenize_lines old" and ?n = "tokenize_lines new"
  consider (removed) "comp_removed c" | (added) "\<not> comp_removed c" "comp_added c"
    | (common) "\<not> comp_removed c" "\<not> comp_added c" by blast
  then show ?case
  proof cases
    case removed
    with Cons.prems(1) have le: "i + ?k \<le> length ?o" and ok: "rest_ok ?o ?n (i + ?k) j cs" by (auto simp: Let_def)
    from removed Cons.prems(2) run_lines(2) [OF le] consider
        "row \<in> set (number_rows RemovedRow (i + 1) (raw_lines (concat (take ?k (drop i ?o)))))"
      | "row \<in> set (diff_rows ctx (build_parts ?o ?n (i + ?k) j cs) (i + ?k + 1) (j + 1) True)"
      by (auto simp: Let_def ac_simps)
    then show ?thesis
    proof cases
      case 1
      with run_line [OF le] run_lines(2) [OF le] show ?thesis
        by (force simp: in_number_rows row_true_def Suc_le_eq)
    qed (rule Cons.IH [OF ok])
  next
    case added
    with Cons.prems(1) have le: "j + ?k \<le> length ?n" and ok: "rest_ok ?o ?n i (j + ?k) cs" by (auto simp: Let_def)
    from added Cons.prems(2) run_lines(2) [OF le] consider
        "row \<in> set (number_rows AddedRow (j + 1) (raw_lines (concat (take ?k (drop j ?n)))))"
      | "row \<in> set (diff_rows ctx (build_parts ?o ?n i (j + ?k) cs) (i + 1) (j + ?k + 1) True)"
      by (auto simp: Let_def ac_simps)
    then show ?thesis
    proof cases
      case 1
      with run_line [OF le] run_lines(2) [OF le] show ?thesis
        by (force simp: in_number_rows row_true_def Suc_le_eq)
    qed (rule Cons.IH [OF ok])
  next
    case common
    with Cons.prems(1) have le: "i + ?k \<le> length ?o" "j + ?k \<le> length ?n"
      and same: "take ?k (drop i ?o) = take ?k (drop j ?n)" and ok: "rest_ok ?o ?n (i + ?k) (j + ?k) cs"
      by (auto simp: Let_def)
    let ?raw = "raw_lines (concat (take ?k (drop j ?n)))"
    from common Cons.prems(2) run_lines(2) [OF le(2)] consider
        a where "row \<in> set (common_rows ctx ?raw (i + 1) b a)"
      | "row \<in> set (diff_rows ctx (build_parts ?o ?n (i + ?k) (j + ?k) cs) (i + ?k + 1) (j + ?k + 1) False)"
      by (auto simp: Let_def ac_simps)
    then show ?thesis
    proof cases
      case 1
      from in_common_rows [OF 1] show ?thesis
      proof (elim disjE exE conjE)
        fix m assume m: "m < length ?raw" "row = ContextRow (i + 1 + m) (?raw ! m)"
        then have "m < ?k" using run_lines(2) [OF le(2)] by simp
        moreover from this run_line [OF le(2), of m] have "?raw ! m \<in> set (split_on 10 new)" by simp
        ultimately show ?thesis using m run_line [OF le(1), of m] same
          by (auto simp: row_true_def Suc_le_eq)
      qed (simp add: row_true_def)
    qed (rule Cons.IH [OF ok])
  qed
qed

lemma diff_lines_rest:
  assumes "diff_lines old new = Some parts"
  obtains cs where "parts = build_parts (tokenize_lines old) (tokenize_lines new) 0 0 cs"
    "rest_ok (tokenize_lines old) (tokenize_lines new) 0 0 cs"
proof -
  from assms obtain ch where ch: "diff_chain (tokenize_lines old) (tokenize_lines new) = Some ch"
    and parts: "parts = build_parts (tokenize_lines old) (tokenize_lines new) 0 0 (rev ch)"
    by (auto simp: diff_lines_def)
  have "rest_ok (tokenize_lines old) (tokenize_lines new) 0 0 (rev ch @ [])"
    by (rule chain_rest_ok [OF diff_chain_ok [OF ch, unfolded whole_chain_def]]) simp
  with parts that show ?thesis by simp
qed

text \<open>
  C32: Every row of the displayed diff is true: an added row shows the line of the new text at
  the number it prints, a removed or context row the line of the old text at its number.
\<close>

theorem diff_rows_true:
  assumes "diff_lines old new = Some parts" and "row \<in> set (diff_rows ctx parts 1 1 False)"
  shows "row_true old new row"
proof -
  obtain cs where "parts = build_parts (tokenize_lines old) (tokenize_lines new) 0 0 cs"
    "rest_ok (tokenize_lines old) (tokenize_lines new) 0 0 cs"
    using diff_lines_rest [OF assms(1)] .
  with rows_true [of old new 0 0 cs row ctx False] assms(2) show ?thesis by simp
qed

section \<open>No change is left out\<close>

definition added_text :: "diff_row list \<Rightarrow> ustr list" where
  "added_text rows = concat (map (\<lambda>r. case r of AddedRow n l \<Rightarrow> [l] | _ \<Rightarrow> []) rows)"

definition removed_text :: "diff_row list \<Rightarrow> ustr list" where
  "removed_text rows = concat (map (\<lambda>r. case r of RemovedRow n l \<Rightarrow> [l] | _ \<Rightarrow> []) rows)"

definition lines_of_kind :: "part_kind \<Rightarrow> (part_kind \<times> ustr) list \<Rightarrow> ustr list" where
  "lines_of_kind kind parts = concat (map (raw_lines \<circ> snd) (filter (\<lambda>p. fst p = kind) parts))"

lemma text_append [simp]:
  "added_text (xs @ ys) = added_text xs @ added_text ys"
  "removed_text (xs @ ys) = removed_text xs @ removed_text ys"
  by (simp_all add: added_text_def removed_text_def)

lemma text_rows [simp]:
  "added_text (number_rows AddedRow n ls) = ls" "removed_text (number_rows AddedRow n ls) = []"
  "added_text (number_rows RemovedRow n ls) = []" "removed_text (number_rows RemovedRow n ls) = ls"
  "added_text (number_rows ContextRow n ls) = []" "removed_text (number_rows ContextRow n ls) = []"
  "added_text [] = []" "removed_text [] = []" "added_text (GapRow # rs) = added_text rs" "removed_text (GapRow # rs) = removed_text rs"
proof -
  show "added_text (number_rows AddedRow n ls) = ls" "removed_text (number_rows AddedRow n ls) = []"
    "added_text (number_rows RemovedRow n ls) = []" "removed_text (number_rows RemovedRow n ls) = ls"
    "added_text (number_rows ContextRow n ls) = []" "removed_text (number_rows ContextRow n ls) = []"
    by (induction ls arbitrary: n) (simp_all add: added_text_def removed_text_def)
qed (simp_all add: added_text_def removed_text_def)

lemma text_common [simp]:
  "added_text (common_rows ctx raw n a b) = []" "removed_text (common_rows ctx raw n a b) = []"
  by (simp_all add: common_rows_def Let_def)

text \<open>
  The displayed rows show all added and all removed lines of the diff, in order, whatever
  the context size.
\<close>

theorem diff_shows_every_change:
  "added_text (diff_rows ctx parts o_at n_at b) = lines_of_kind AddedPart parts
   \<and> removed_text (diff_rows ctx parts o_at n_at b) = lines_of_kind RemovedPart parts"
  by (induction ctx parts o_at n_at b rule: diff_rows.induct)
    (auto simp: lines_of_kind_def Let_def split: part_kind.split)

section \<open>The first changed line\<close>

lemma first_changed_true:
  assumes "rest_ok (tokenize_lines old) (tokenize_lines new) i i cs"
    and "take i (tokenize_lines old) = take i (tokenize_lines new)" and "i \<le> length (tokenize_lines old)"
    and "i \<le> length (tokenize_lines new)"
  shows "case first_changed (build_parts (tokenize_lines old) (tokenize_lines new) i i cs) (i + 1) of
      None \<Rightarrow> old = new
    | Some n \<Rightarrow> 1 \<le> n \<and> take (n - 1) (tokenize_lines old) = take (n - 1) (tokenize_lines new)"
  using assms
proof (induction cs arbitrary: i)
  case Nil
  then have "tokenize_lines old = tokenize_lines new" by simp
  then have "old = new" by (metis concat_tokens)
  then show ?case by simp
next
  case (Cons c cs)
  let ?k = "comp_count c" and ?o = "tokenize_lines old" and ?n = "tokenize_lines new"
  show ?case
  proof (cases "comp_removed c \<or> comp_added c")
    case True
    with Cons.prems(2) show ?thesis by (auto simp: Let_def)
  next
    case False
    with Cons.prems(1) have le: "i + ?k \<le> length ?o" "i + ?k \<le> length ?n"
      and same: "take ?k (drop i ?o) = take ?k (drop i ?n)" and ok: "rest_ok ?o ?n (i + ?k) (i + ?k) cs"
      by (auto simp: Let_def)
    have "take (i + ?k) ?o = take (i + ?k) ?n" using Cons.prems(2) same by (simp add: take_add)
    from Cons.IH [OF ok this le] False run_lines(2) [OF le(2)] show ?thesis by (simp add: Let_def ac_simps)
  qed
qed

text \<open>
  The first changed line reported is the first line number where the two texts differ up
  to it, and none is reported only when the texts are equal.
\<close>

theorem first_changed_line_true:
  assumes "diff_lines old new = Some parts"
  shows "case first_changed parts 1 of
      None \<Rightarrow> old = new
    | Some n \<Rightarrow> 1 \<le> n \<and> take (n - 1) (tokenize_lines old) = take (n - 1) (tokenize_lines new)"
proof -
  obtain cs where "parts = build_parts (tokenize_lines old) (tokenize_lines new) 0 0 cs"
    "rest_ok (tokenize_lines old) (tokenize_lines new) 0 0 cs"
    using diff_lines_rest [OF assms] .
  with first_changed_true [of old new 0 cs] show ?thesis by simp
qed

section \<open>Witnesses\<close>

text \<open>Replacing the second of three lines.\<close>

definition sample_parts :: "(part_kind \<times> ustr) list" where
  "sample_parts = [(CommonPart, [97, 10]), (RemovedPart, [98, 10]), (AddedPart, [99, 10]), (CommonPart, [100])]"

lemma sample_diff: "diff_lines [97, 10, 98, 10, 100] [97, 10, 99, 10, 100] = Some sample_parts"
  by code_simp

theorem diff_rows_true_witness:
  "row_true [97, 10, 98, 10, 100] [97, 10, 99, 10, 100] (AddedRow 2 [99])"
  by (rule diff_rows_true [OF sample_diff, of _ 4]) code_simp

theorem first_changed_line_true_witness:
  "first_changed sample_parts 1 = Some 2
   \<and> take 1 (tokenize_lines [97, 10, 98, 10, 100]) = take 1 (tokenize_lines [97, 10, 99, 10, 100])"
proof -
  have "first_changed sample_parts 1 = Some 2" by code_simp
  with first_changed_line_true [OF sample_diff] show ?thesis by simp
qed

end
