(* ===== verification/Utf8.thy ===== *)
theory Utf8
  imports Utf16
begin

text \<open>
  UTF-8 as the tools meet it: the bytes of a Rust string, and \<^verbatim>\<open>String::from_utf8_lossy\<close>,
  which replaces every maximal part of an invalid sequence by U+FFFD.
\<close>

section \<open>Bytes\<close>

definition encode_utf8_char :: "uchar \<Rightarrow> int list" where
  "encode_utf8_char c =
     (if c < 128 then [c]
      else if c < 2048 then [192 + c div 64, 128 + c mod 64]
      else if c < 65536 then [224 + c div 4096, 128 + c div 64 mod 64, 128 + c mod 64]
      else [240 + c div 262144, 128 + c div 4096 mod 64, 128 + c div 64 mod 64, 128 + c mod 64])"

definition encode_utf8 :: "ustr \<Rightarrow> int list" where
  "encode_utf8 s = concat (map encode_utf8_char s)"

definition continuation :: "int \<Rightarrow> bool" where
  "continuation b \<longleftrightarrow> 128 \<le> b \<and> b < 192"

text \<open>The second byte a leading byte of three or four admits.\<close>

definition second_ok :: "int \<Rightarrow> int \<Rightarrow> bool" where
  "second_ok b c \<longleftrightarrow>
     (if b = 224 then 160 \<le> c \<and> c < 192
      else if b = 237 then 128 \<le> c \<and> c < 160
      else if b = 240 then 144 \<le> c \<and> c < 192
      else if b = 244 then 128 \<le> c \<and> c < 144
      else continuation c)"

text \<open>One character and the bytes left, from a leading byte.\<close>

definition utf8_step :: "int \<Rightarrow> int list \<Rightarrow> uchar \<times> int list" where
  "utf8_step b bs =
     (if b < 128 then (b, bs)
      else if 194 \<le> b \<and> b < 224 then
        (case bs of c # cs \<Rightarrow> if continuation c then ((b - 192) * 64 + (c - 128), cs) else (65533, bs) | [] \<Rightarrow> (65533, bs))
      else if 224 \<le> b \<and> b < 240 then
        (case bs of c # cs \<Rightarrow>
           if second_ok b c then
             (case cs of d # ds \<Rightarrow>
                if continuation d then ((b - 224) * 4096 + (c - 128) * 64 + (d - 128), ds) else (65533, cs)
              | [] \<Rightarrow> (65533, cs))
           else (65533, bs)
         | [] \<Rightarrow> (65533, bs))
      else if 240 \<le> b \<and> b < 245 then
        (case bs of c # cs \<Rightarrow>
           if second_ok b c then
             (case cs of d # ds \<Rightarrow>
                if continuation d then
                  (case ds of f # fs \<Rightarrow>
                     if continuation f
                     then ((b - 240) * 262144 + (c - 128) * 4096 + (d - 128) * 64 + (f - 128), fs) else (65533, ds)
                   | [] \<Rightarrow> (65533, ds))
                else (65533, cs)
              | [] \<Rightarrow> (65533, cs))
           else (65533, bs)
         | [] \<Rightarrow> (65533, bs))
      else (65533, bs))"

lemma utf8_step_shorter: "length (snd (utf8_step b bs)) \<le> length bs"
  by (auto simp: utf8_step_def split: list.split)

function from_utf8_lossy :: "int list \<Rightarrow> ustr" where
  "from_utf8_lossy [] = []"
| "from_utf8_lossy (b # bs) = (case utf8_step b bs of (c, rest) \<Rightarrow> c # from_utf8_lossy rest)"
  by pat_completeness auto
termination
  using utf8_step_shorter by (relation "measure length") (auto simp: less_Suc_eq_le, metis snd_conv)

section \<open>Decoding what was encoded\<close>

lemma encode_utf8_simps [simp]:
  "encode_utf8 [] = []" "encode_utf8 (c # s) = encode_utf8_char c @ encode_utf8 s"
  "encode_utf8 (s @ t) = encode_utf8 s @ encode_utf8 t"
  by (simp_all add: encode_utf8_def)

lemma step_two: "194 \<le> b \<Longrightarrow> b < 224 \<Longrightarrow> continuation c \<Longrightarrow> utf8_step b (c # bs) = ((b - 192) * 64 + (c - 128), bs)"
  by (simp add: utf8_step_def)

lemma step_three:
  "224 \<le> b \<Longrightarrow> b < 240 \<Longrightarrow> second_ok b c \<Longrightarrow> continuation d \<Longrightarrow>
   utf8_step b (c # d # bs) = ((b - 224) * 4096 + (c - 128) * 64 + (d - 128), bs)"
  by (simp add: utf8_step_def)

lemma step_four:
  "240 \<le> b \<Longrightarrow> b < 245 \<Longrightarrow> second_ok b c \<Longrightarrow> continuation d \<Longrightarrow> continuation f \<Longrightarrow>
   utf8_step b (c # d # f # bs) = ((b - 240) * 262144 + (c - 128) * 4096 + (d - 128) * 64 + (f - 128), bs)"
  by (simp add: utf8_step_def)

text \<open>The digits of a number to base 64.\<close>

lemma digits64:
  "(c :: int) = c div 64 * 64 + c mod 64" "c div 64 = c div 4096 * 64 + c div 64 mod 64"
  "c div 4096 = c div 262144 * 64 + c div 4096 mod 64"
  "0 \<le> c mod 64" "c mod 64 < 64" "0 \<le> c div 64 mod 64" "c div 64 mod 64 < 64"
  "0 \<le> c div 4096 mod 64" "c div 4096 mod 64 < 64"
proof -
  have "c div 64 div 64 = c div 4096" "c div 4096 div 64 = c div 262144"
    by (simp_all add: zdiv_zmult2_eq [symmetric])
  then show "c div 64 = c div 4096 * 64 + c div 64 mod 64" "c div 4096 = c div 262144 * 64 + c div 4096 mod 64"
    by (metis div_mult_mod_eq)+
qed (simp_all add: div_mult_mod_eq)

lemma continuation_digit [simp]: "0 \<le> d \<Longrightarrow> d < 64 \<Longrightarrow> continuation (128 + d)"
  by (simp add: continuation_def)

text \<open>The three multi-byte forms, over the digits of the character.\<close>

lemma two_digits:
  assumes "c = q * 64 + r" "0 \<le> r" "r < 64" "128 \<le> c" "c < 2048"
  shows "utf8_step (192 + q) ((128 + r) # bs) = (c, bs)"
proof -
  have "2 \<le> q" "q < 32" using assms by linarith+
  with step_two [of "192 + q" "128 + r" bs] assms(1-3) show ?thesis by simp
qed

lemma three_digits:
  assumes c: "c = p * 4096 + q * 64 + r" and r: "0 \<le> q" "q < 64" "0 \<le> r" "r < 64"
    and range: "2048 \<le> c" "c < 65536" "scalar c"
  shows "utf8_step (224 + p) ((128 + q) # (128 + r) # bs) = (c, bs)"
proof -
  have p: "0 \<le> p" "p < 16" using c r range by linarith+
  have "p = 0 \<longrightarrow> 32 \<le> q" "p = 13 \<longrightarrow> q < 32"
    using c r range unfolding scalar_def by auto
  then have "second_ok (224 + p) (128 + q)" using p r by (auto simp: second_ok_def)
  with step_three [of "224 + p" "128 + q" "128 + r" bs] c p r show ?thesis by simp
qed

lemma four_digits:
  assumes c: "c = w * 262144 + p * 4096 + q * 64 + r"
    and r: "0 \<le> p" "p < 64" "0 \<le> q" "q < 64" "0 \<le> r" "r < 64" and range: "65536 \<le> c" "c < 1114112"
  shows "utf8_step (240 + w) ((128 + p) # (128 + q) # (128 + r) # bs) = (c, bs)"
proof -
  have w: "0 \<le> w" "w < 5" using c r range by linarith+
  have "w = 0 \<longrightarrow> 16 \<le> p" "w = 4 \<longrightarrow> p < 16" using c r range by auto
  then have "second_ok (240 + w) (128 + p)" using w r by (auto simp: second_ok_def)
  with step_four [of "240 + w" "128 + p" "128 + q" "128 + r" bs] c w r show ?thesis by simp
qed

lemma digits3: "(c :: int) = c div 4096 * 4096 + c div 64 mod 64 * 64 + c mod 64"
proof -
  have "q = y * 64 + y0 \<Longrightarrow> c = q * 64 + r \<Longrightarrow> c = y * 4096 + y0 * 64 + r" for q y y0 r :: int by simp
  from this [OF digits64(2) digits64(1)] show ?thesis .
qed

lemma digits4: "(c :: int) = c div 262144 * 262144 + c div 4096 mod 64 * 4096 + c div 64 mod 64 * 64 + c mod 64"
proof -
  have "y = z * 64 + z0 \<Longrightarrow> c = y * 4096 + y0 * 64 + r \<Longrightarrow> c = z * 262144 + z0 * 4096 + y0 * 64 + r"
    for y z z0 y0 r :: int by simp
  from this [OF digits64(3) digits3] show ?thesis .
qed

lemma from_utf8_lossy_char:
  assumes "scalar c"
  shows "from_utf8_lossy (encode_utf8_char c @ bs) = c # from_utf8_lossy bs"
proof -
  consider "c < 128" | "128 \<le> c" "c < 2048" | "2048 \<le> c" "c < 65536" | "65536 \<le> c" "c < 1114112"
    using assms unfolding scalar_def by linarith
  then show ?thesis
  proof cases
    case 1
    then show ?thesis by (simp add: encode_utf8_char_def utf8_step_def)
  next
    case 2
    with two_digits [OF digits64(1) _ _ 2] show ?thesis by (simp add: encode_utf8_char_def)
  next
    case 3
    with three_digits [OF digits3 _ _ _ _ 3 assms] show ?thesis by (simp add: encode_utf8_char_def)
  next
    case 4
    with four_digits [OF digits4 _ _ _ _ _ _ 4] show ?thesis by (simp add: encode_utf8_char_def)
  qed
qed

lemma from_utf8_lossy_encode: "list_all scalar s \<Longrightarrow> from_utf8_lossy (encode_utf8 s) = s"
  by (induction s) (simp_all add: from_utf8_lossy_char)

end
