(* ===== verification/Edit_Tool.thy ===== *)
theory Edit_Tool
  imports Edit_Properties Edit_Display Utf8 Json
begin

text \<open>
  The edit tool itself (\<^verbatim>\<open>crates/hoocode-code-tools-fs/src/edit.rs\<close>): the arguments as they
  arrive from a model, the run over the bytes of the file with its error paths, and what it
  reports. Parameters: the parser of \<open>serde_json\<close> for stringified edits, NFKC and the
  combining marks, and the file operations (the tool takes them as an interface too).
\<close>

section \<open>Arguments\<close>

text \<open>
  \<open>first_value\<close> is the streaming parser of \<open>serde_json\<close>: the first value of a text and the text after it.
\<close>

definition parse_lenient_json :: "(ustr \<Rightarrow> (json \<times> ustr) option) \<Rightarrow> ustr \<Rightarrow> json option" where
  "parse_lenient_json first_value s =
     (case first_value s of
        None \<Rightarrow> None
      | Some (v, rest) \<Rightarrow>
          if \<forall>c \<in> set rest. is_ws c \<or> c = C CHR ''}'' \<or> c = C CHR '']'' then Some v else None)"

definition with_parsed_edits :: "(ustr \<Rightarrow> (json \<times> ustr) option) \<Rightarrow> jobject \<Rightarrow> jobject" where
  "with_parsed_edits first_value args =
     (case aget args (U ''edits'') of
        Some (JStr s) \<Rightarrow>
          (case parse_lenient_json first_value s of
             Some (JArr es) \<Rightarrow> aput (U ''edits'') (JArr es) args
           | _ \<Rightarrow> args)
      | _ \<Rightarrow> args)"

definition edits_array :: "jobject \<Rightarrow> json list" where
  "edits_array args = (case aget args (U ''edits'') of Some (JArr es) \<Rightarrow> es | _ \<Rightarrow> [])"

definition prepare_edit_arguments :: "(ustr \<Rightarrow> (json \<times> ustr) option) \<Rightarrow> json \<Rightarrow> json" where
  "prepare_edit_arguments first_value input =
     (case input of
        JObj m \<Rightarrow>
          (let args = with_parsed_edits first_value m
           in case (aget args (U ''oldText''), aget args (U ''newText'')) of
                (Some (JStr o_text), Some (JStr n_text)) \<Rightarrow>
                  (let legacy = JObj [(U ''oldText'', JStr o_text), (U ''newText'', JStr n_text)]
                   in JObj (aput (U ''edits'') (JArr (edits_array args @ [legacy]))
                        (adel (U ''newText'') (adel (U ''oldText'') args))))
              | _ \<Rightarrow> JObj args)
      | _ \<Rightarrow> input)"

definition edit_field :: "json \<Rightarrow> ustr \<Rightarrow> ustr" where
  "edit_field v k = (case jget v k of Some w \<Rightarrow> (case as_str w of Some s \<Rightarrow> s | None \<Rightarrow> []) | None \<Rightarrow> [])"

definition edit_of_json :: "json \<Rightarrow> edit" where
  "edit_of_json e =
     \<lparr>old_text = edit_field e (U ''oldText''), new_text = edit_field e (U ''newText''),
      replace_all = (jget e (U ''replaceAll'') = Some (JBool True))\<rparr>"

definition validate_edit_input :: "json \<Rightarrow> ustr + (ustr \<times> edit list)" where
  "validate_edit_input args =
     (case jget args (U ''edits'') of
        Some (JArr (e # es)) \<Rightarrow>
          (case jget args (U ''path'') of
             Some (JStr p) \<Rightarrow> Inr (p, map edit_of_json (e # es))
           | _ \<Rightarrow> Inl (U ''The \"path\" argument must be of type string''))
      | _ \<Rightarrow> Inl (U ''Edit tool input is invalid. edits must contain at least one replacement.''))"

section \<open>The run\<close>

text \<open>A failed file operation: Node's code when there is one, and the message.\<close>

record fs_error =
  fs_code :: "ustr option"
  fs_message :: ustr

text \<open>
  The operations at the moment they are called: writing leaves some bytes in the file and may
  fail.
\<close>

record edit_operations =
  op_access :: "fs_error option"
  op_read :: "fs_error option"
  op_write :: "int list \<Rightarrow> int list \<Rightarrow> int list \<times> fs_error option"

datatype edit_failure =
    Operation_Aborted
  | Not_Editable ustr
  | File_Error fs_error
  | Edit_Error edit_error
  | Diff_Panic

record edit_result =
  er_text :: ustr
  er_diff :: ustr
  er_first_changed_line :: "nat option"

definition max_diff_chars :: nat where "max_diff_chars = 4000"

definition could_not_edit :: "ustr \<Rightarrow> fs_error \<Rightarrow> ustr" where
  "could_not_edit path e =
     U ''Could not edit file: '' @ path @ U ''. ''
     @ (case fs_code e of Some code \<Rightarrow> U ''Error code: '' @ code | None \<Rightarrow> U ''Error: '' @ fs_message e) @ U ''.''"

definition shown_diff :: "ustr \<Rightarrow> ustr" where
  "shown_diff diff =
     (let us = encode_utf16 diff
      in if max_diff_chars < length us
         then from_utf16_lossy (take max_diff_chars us) @ [10, 10] @ U ''[diff truncated for brevity]''
         else diff)"

definition edited_message :: "nat \<Rightarrow> ustr \<Rightarrow> ustr" where
  "edited_message n path = U ''Successfully replaced '' @ nat_digits n @ U '' block(s) in '' @ path @ U ''.''"

text \<open>What is written when the edits apply.\<close>

definition edited_text :: "(ustr \<Rightarrow> ustr) \<Rightarrow> (int \<Rightarrow> bool) \<Rightarrow> ustr \<Rightarrow> edit list \<Rightarrow> edit_error + (applied_edits \<times> ustr)" where
  "edited_text nf mk raw edits =
     (case strip_bom raw of (bom, content) \<Rightarrow>
        (case apply_edits_to_normalized_content nf mk (normalize_to_lf content) edits of
           Inl err \<Rightarrow> Inl err
         | Inr applied \<Rightarrow>
             Inr (applied, bom @ restore_line_endings (new_content applied) (detect_line_ending content))))"

text \<open>
  \<open>aborted k\<close> is what the abort signal says at its \<open>k\<close>-th check; the second component of the
  result is the file afterwards.
\<close>

definition run_edit ::
  "(ustr \<Rightarrow> ustr) \<Rightarrow> (int \<Rightarrow> bool) \<Rightarrow> edit_operations \<Rightarrow> (nat \<Rightarrow> bool) \<Rightarrow> ustr \<Rightarrow> edit list \<Rightarrow> int list
   \<Rightarrow> (edit_failure + edit_result) \<times> int list" where
  "run_edit nf mk ops aborted path edits file =
     (if aborted 0 then (Inl Operation_Aborted, file)
      else case op_access ops of
        Some e \<Rightarrow> (Inl (Not_Editable (could_not_edit path e)), file)
      | None \<Rightarrow>
          if aborted 1 then (Inl Operation_Aborted, file)
          else case op_read ops of
            Some e \<Rightarrow> (Inl (File_Error e), file)
          | None \<Rightarrow>
              (let raw = from_utf8_lossy file
               in if aborted 2 then (Inl Operation_Aborted, file)
                  else case edited_text nf mk raw edits of
                    Inl err \<Rightarrow> (Inl (Edit_Error err), file)
                  | Inr (applied, final) \<Rightarrow>
                      if aborted 3 then (Inl Operation_Aborted, file)
                      else case op_write ops file (encode_utf8 final) of
                        (file', Some e) \<Rightarrow> (Inl (File_Error e), file')
                      | (file', None) \<Rightarrow>
                          if aborted 4 then (Inl Operation_Aborted, file')
                          else case generate_diff_string (base_content applied) (new_content applied) 4 of
                            None \<Rightarrow> (Inl Diff_Panic, file')
                          | Some d \<Rightarrow>
                              (Inr \<lparr>er_text = edited_message (length edits) path, er_diff = shown_diff (diff_text d),
                                    er_first_changed_line = first_changed_line d\<rparr>, file')))"

text \<open>The local file system when nothing fails.\<close>

definition local_operations :: edit_operations where
  "local_operations = \<lparr>op_access = None, op_read = None, op_write = (\<lambda>file bytes. (bytes, None))\<rparr>"

section \<open>Arguments: the legacy form and stringified edits\<close>

lemma aput_same: "aget m k = Some v \<Longrightarrow> aput k v m = m"
  by (induction m) (auto split: if_splits)

lemma with_parsed_array: "aget m (U ''edits'') = Some (JArr es) \<Longrightarrow> with_parsed_edits f m = m"
  by (simp add: with_parsed_edits_def)

lemma with_parsed_twice: "with_parsed_edits f (with_parsed_edits f m) = with_parsed_edits f m"
  by (auto simp: with_parsed_edits_def amap.get_put split: option.split json.split)

text \<open>
  Preparing the arguments of an edit twice is preparing them once.
\<close>

theorem prepared_arguments_stable:
  "prepare_edit_arguments f (prepare_edit_arguments f input) = prepare_edit_arguments f input"
proof (cases input)
  case (JObj m)
  let ?args = "with_parsed_edits f m"
  show ?thesis
  proof (cases "\<exists>o_text n_text. aget ?args (U ''oldText'') = Some (JStr o_text) \<and> aget ?args (U ''newText'') = Some (JStr n_text)")
    case True
    then show ?thesis
      by (auto simp: JObj prepare_edit_arguments_def Let_def with_parsed_array amap.get_put amap.get_del)
  next
    case False
    then have "prepare_edit_arguments f input = JObj ?args"
      by (auto simp: JObj prepare_edit_arguments_def Let_def split: option.split json.split)
    moreover from False have "prepare_edit_arguments f (JObj ?args) = JObj ?args"
      by (auto simp: prepare_edit_arguments_def Let_def with_parsed_twice split: option.split json.split)
    ultimately show ?thesis by simp
  qed
qed (simp_all add: prepare_edit_arguments_def)

lemma with_parsed_other: "k \<noteq> U ''edits'' \<Longrightarrow> aget (with_parsed_edits f m) k = aget m k"
  by (auto simp: with_parsed_edits_def amap.get_put split: option.split json.split)

text \<open>
  Legacy top-level oldText and newText become one more edit after the given ones, and the
  prepared arguments pass validation.
\<close>

theorem legacy_edit_is_last:
  assumes "aget m (U ''path'') = Some (JStr p)" and "aget m (U ''oldText'') = Some (JStr o_text)"
    and "aget m (U ''newText'') = Some (JStr n_text)"
  shows "validate_edit_input (prepare_edit_arguments f (JObj m)) =
    Inr (p, map edit_of_json (edits_array (with_parsed_edits f m))
            @ [\<lparr>old_text = o_text, new_text = n_text, replace_all = False\<rparr>])"
proof -
  let ?legacy = "JObj [(U ''oldText'', JStr o_text), (U ''newText'', JStr n_text)]"
  let ?rest = "aput (U ''edits'') (JArr (edits_array (with_parsed_edits f m) @ [?legacy]))
     (adel (U ''newText'') (adel (U ''oldText'') (with_parsed_edits f m)))"
  have prep: "prepare_edit_arguments f (JObj m) = JObj ?rest"
    using assms(2,3) by (simp add: prepare_edit_arguments_def Let_def with_parsed_other)
  have "edit_of_json ?legacy = \<lparr>old_text = o_text, new_text = n_text, replace_all = False\<rparr>"
    by (simp add: edit_of_json_def edit_field_def)
  moreover have "aget ?rest (U ''edits'') = Some (JArr (edits_array (with_parsed_edits f m) @ [?legacy]))"
    "aget ?rest (U ''path'') = Some (JStr p)"
    using assms(1) by (simp_all add: amap.get_put amap.get_del with_parsed_other)
  ultimately show ?thesis
    unfolding prep validate_edit_input_def jget_JObj
    by (cases "edits_array (with_parsed_edits f m)") simp_all
qed

section \<open>One edit, from bytes to bytes\<close>

lemma restore_normalized:
  assumes "CR \<notin> set t"
  shows "normalize_to_lf (restore_line_endings t e) = t"
proof (cases e)
  case LineFeed
  with assms show ?thesis by (simp add: restore_line_endings_def normalize_no_cr)
next
  case CarriageReturnLineFeed
  have keep: "c \<noteq> CR \<Longrightarrow> replace_crlf (c # s) = c # replace_crlf s" for c s by (cases s) auto
  have "replace_crlf (restore_line_endings t e) = t"
    using assms by (induction t) (auto simp: restore_line_endings_def CarriageReturnLineFeed keep)
  with assms show ?thesis by (auto simp: normalize_to_lf_def intro: map_idI)
qed

lemma restore_all_crlf: "CR \<notin> set t \<Longrightarrow> all_crlf (restore_line_endings t CarriageReturnLineFeed)"
proof (induction t)
  case (Cons c t)
  have step: "c \<noteq> CR \<Longrightarrow> c \<noteq> LF \<Longrightarrow> all_crlf s \<Longrightarrow> all_crlf (c # s)" for s by (cases s) auto
  from Cons step [of "restore_line_endings t CarriageReturnLineFeed"] show ?case by (auto simp: restore_line_endings_def)
qed (simp add: restore_line_endings_def)

lemma detect_plain: "CR \<notin> set t \<Longrightarrow> detect_line_ending t = LineFeed"
proof -
  assume a: "CR \<notin> set t"
  have "find_str t [CR, LF] = None"
  proof (rule ccontr)
    assume "find_str t [CR, LF] \<noteq> None"
    then obtain i where "take 2 (drop i t) = [CR, LF]" by (auto simp: find_str_Some numeral_2_eq_2)
    then have "CR \<in> set (take 2 (drop i t))" by simp
    with a show False by (meson in_set_dropD in_set_takeD)
  qed
  then show ?thesis by (simp add: detect_line_ending_def)
qed

lemma detect_restored:
  assumes "CR \<notin> set t" and "e = CarriageReturnLineFeed \<longrightarrow> LF \<in> set t"
  shows "detect_line_ending (restore_line_endings t e) = e"
proof (cases e)
  case LineFeed
  with assms(1) show ?thesis by (simp add: restore_line_endings_def detect_plain)
next
  case CarriageReturnLineFeed
  then have "LF \<in> set (restore_line_endings t e)"
    using assms(2) by (auto simp: restore_line_endings_def)
  with CarriageReturnLineFeed detect_crlf restore_all_crlf [OF assms(1)] show ?thesis by simp
qed

text \<open>The hypotheses on one edit: its old text occurs once, and starts a line if it is indented.\<close>

definition single_edit :: "ustr \<Rightarrow> ustr \<Rightarrow> ustr \<Rightarrow> ustr \<Rightarrow> bool" where
  "single_edit a old b new \<longleftrightarrow>
     list_all scalar (a @ old @ b) \<and> list_all scalar new \<and> CR \<notin> set (a @ old @ b) \<and> CR \<notin> set new \<and> old \<noteq> [] \<and> new \<noteq> old
     \<and> (\<forall>a' b'. a @ old @ b = a' @ old @ b' \<longrightarrow> a' = a) \<and> line_start_ok a old"

abbreviation one_edit :: "ustr \<Rightarrow> ustr \<Rightarrow> edit list" where
  "one_edit old new \<equiv> [\<lparr>old_text = old, new_text = new, replace_all = False\<rparr>]"

lemma edited_text_single:
  assumes "single_edit a old b new" and "strip_bom raw = (bom, content)" and "normalize_to_lf content = a @ old @ b"
  shows "edited_text nf mk raw (one_edit old new) =
    Inr (\<lparr>base_content = a @ old @ b, new_content = a @ new @ b\<rparr>,
         bom @ restore_line_endings (a @ new @ b) (detect_line_ending content))"
proof -
  have "apply_edits_to_normalized_content nf mk (a @ old @ b) (one_edit old new) =
      Inr \<lparr>base_content = a @ old @ b, new_content = a @ new @ b\<rparr>"
    by (rule exact_edit_applies) (use assms(1) in \<open>auto simp: single_edit_def\<close>)
  with assms(2,3) show ?thesis by (simp add: edited_text_def)
qed

lemma run_edit_single:
  assumes "\<forall>k < 5. \<not> aborted k" and "edited_text nf mk (from_utf8_lossy file) edits = Inr (applied, final)"
    and "generate_diff_string (base_content applied) (new_content applied) 4 = Some d"
  shows "run_edit nf mk local_operations aborted path edits file =
    (Inr \<lparr>er_text = edited_message (length edits) path, er_diff = shown_diff (diff_text d),
          er_first_changed_line = first_changed_line d\<rparr>, encode_utf8 final)"
  using assms by (simp add: run_edit_def local_operations_def Let_def)

lemma diff_string_exists:
  assumes "2 * (length old + length new) + 3 < 2 ^ 63"
  shows "\<exists>d. generate_diff_string old new 4 = Some d"
proof -
  obtain parts where "diff_lines old new = Some parts" using diff_lines_total [OF assms] by blast
  then show ?thesis by (simp add: generate_diff_string_def Let_def)
qed

lemma plain_edit_replaces_one_place:
  assumes "single_edit a old b new" and "\<forall>k < 5. \<not> aborted k"
    and "bom = [65279] \<or> bom = [] \<and> \<not> prefix [65279] (restore_line_endings (a @ old @ b) ending)"
    and "ending = CarriageReturnLineFeed \<longrightarrow> LF \<in> set (a @ old @ b)"
    and "2 * (length (a @ old @ b) + length (a @ new @ b)) + 3 < 2 ^ 63"
  shows "\<exists>d. generate_diff_string (a @ old @ b) (a @ new @ b) 4 = Some d \<and>
    run_edit nf mk local_operations aborted path (one_edit old new)
        (encode_utf8 (bom @ restore_line_endings (a @ old @ b) ending))
    = (Inr \<lparr>er_text = edited_message 1 path, er_diff = shown_diff (diff_text d),
            er_first_changed_line = first_changed_line d\<rparr>,
       encode_utf8 (bom @ restore_line_endings (a @ new @ b) ending))"
proof -
  let ?t = "a @ old @ b" and ?raw = "bom @ restore_line_endings (a @ old @ b) ending"
  have t: "list_all scalar ?t" "CR \<notin> set ?t" using assms(1) by (auto simp: single_edit_def)
  have "list_all scalar (restore_line_endings ?t ending)"
    using t(1) by (auto simp: restore_line_endings_def list_all_iff scalar_def)
  then have "list_all scalar ?raw" using assms(3) by (auto simp: scalar_def)
  then have raw: "from_utf8_lossy (encode_utf8 ?raw) = ?raw" by (rule from_utf8_lossy_encode)
  have bom: "strip_bom ?raw = (bom, restore_line_endings ?t ending)"
    using assms(3) by (auto simp: strip_bom_def strip_prefix_def)
  have "edited_text nf mk (from_utf8_lossy (encode_utf8 ?raw)) (one_edit old new) =
      Inr (\<lparr>base_content = ?t, new_content = a @ new @ b\<rparr>, bom @ restore_line_endings (a @ new @ b) ending)"
    using edited_text_single [OF assms(1) bom restore_normalized [OF t(2)]] detect_restored [OF t(2) assms(4)] raw by simp
  note run = run_edit_single [OF assms(2) this]
  obtain d where "generate_diff_string ?t (a @ new @ b) 4 = Some d" using diff_string_exists [OF assms(5)] by blast
  with run [of d path] show ?thesis by simp
qed

lemma edited_text_normalized:
  "edited_text nf mk raw (one_edit (normalize_to_lf old) (normalize_to_lf new)) =
   edited_text nf mk raw (one_edit old new)"
  by (simp add: edited_text_def apply_edits_normalized)

lemma run_edit_normalized:
  "run_edit nf mk ops aborted path (one_edit (normalize_to_lf old) (normalize_to_lf new)) file =
   run_edit nf mk ops aborted path (one_edit old new) file"
  by (simp add: run_edit_def edited_text_normalized Let_def split: option.split sum.split prod.split)

text \<open>
  C21: One edit rewrites a file from bytes to bytes by replacing one place only. The file is UTF-8,
  with or without a byte order mark, its line breaks all LF or all CRLF; \<open>a @ lf_old @ b\<close> is its
  text with the line breaks as LF, where the edit's old text (line breaks as LF) is not empty,
  occurs exactly there and, if it opens with a space or a tab, starts a line; the new text is
  another one. If the call is not aborted and no file operation fails, the file is then the text
  with the new one in that place, its mark and its kind of line break kept (also where the
  edit's own texts have the other kind), and the result is the diff of it. The texts are Unicode
  scalar values and too short to overflow the diff's positions.
\<close>

theorem edit_replaces_one_place:
  assumes "lf_old = normalize_to_lf old" and "lf_new = normalize_to_lf new"
    and "single_edit a lf_old b lf_new" and "\<forall>k < 5. \<not> aborted k"
    and "bom = [65279] \<or> bom = [] \<and> \<not> prefix [65279] (restore_line_endings (a @ lf_old @ b) ending)"
    and "ending = CarriageReturnLineFeed \<longrightarrow> LF \<in> set (a @ lf_old @ b)"
    and "2 * (length (a @ lf_old @ b) + length (a @ lf_new @ b)) + 3 < 2 ^ 63"
  shows "\<exists>d. generate_diff_string (a @ lf_old @ b) (a @ lf_new @ b) 4 = Some d \<and>
    run_edit nf mk local_operations aborted path (one_edit old new)
        (encode_utf8 (bom @ restore_line_endings (a @ lf_old @ b) ending))
    = (Inr \<lparr>er_text = edited_message 1 path, er_diff = shown_diff (diff_text d),
            er_first_changed_line = first_changed_line d\<rparr>,
       encode_utf8 (bom @ restore_line_endings (a @ lf_new @ b) ending))"
  using plain_edit_replaces_one_place [OF assms(3-7), of nf mk path]
    run_edit_normalized [of nf mk local_operations aborted path old new] assms(1,2) by simp

lemma last_char_single:
  assumes "c \<notin> set a" and "list_all scalar (a @ [c])" and "CR \<notin> set (a @ [c])" and "c \<noteq> SPACE" "c \<noteq> TAB"
    and "list_all scalar new" "CR \<notin> set new" "new \<noteq> [c]"
  shows "single_edit a [c] [] new"
proof -
  have "a' = a" if "a @ [c] = a' @ c # b'" for a' b' :: ustr
  proof (cases b' rule: rev_cases)
    case Nil
    with that show ?thesis by simp
  next
    case (snoc xs x)
    with that have "a = a' @ c # xs" by simp
    with assms(1) show ?thesis by simp
  qed
  with assms show ?thesis by (auto simp: single_edit_def line_start_ok_def)
qed

lemma sample_single: "single_edit [120, 10] [121] [] [122]"
  by (rule last_char_single) (simp_all add: scalar_def)

theorem edit_replaces_one_place_witness:
  "\<exists>d :: edit_diff. run_edit (\<lambda>s. s) (\<lambda>_. False) local_operations (\<lambda>k. False) (U ''f'') (one_edit [121] [122, CR]) [120, 13, 10, 121]
    = (Inr \<lparr>er_text = edited_message 1 (U ''f''), er_diff = shown_diff (diff_text d),
            er_first_changed_line = first_changed_line d\<rparr>, [120, 13, 10, 122, 13, 10])"
proof -
  have bytes: "encode_utf8 ([] @ restore_line_endings ([120, 10] @ [121] @ []) CarriageReturnLineFeed) = [120, 13, 10, 121]"
    "encode_utf8 ([] @ restore_line_endings ([120, 10] @ [122, 10] @ []) CarriageReturnLineFeed) = [120, 13, 10, 122, 13, 10]"
    by (simp_all add: restore_line_endings_def encode_utf8_char_def)
  have single: "single_edit [120, 10] [121] [] [122, 10]"
    by (rule last_char_single) (simp_all add: scalar_def)
  have "\<exists>d. generate_diff_string ([120, 10] @ [121] @ []) ([120, 10] @ [122, 10] @ []) 4 = Some d \<and>
    run_edit (\<lambda>s. s) (\<lambda>_. False) local_operations (\<lambda>k. False) (U ''f'') (one_edit [121] [122, CR])
        (encode_utf8 ([] @ restore_line_endings ([120, 10] @ [121] @ []) CarriageReturnLineFeed))
    = (Inr \<lparr>er_text = edited_message 1 (U ''f''), er_diff = shown_diff (diff_text d),
            er_first_changed_line = first_changed_line d\<rparr>,
       encode_utf8 ([] @ restore_line_endings ([120, 10] @ [122, 10] @ []) CarriageReturnLineFeed))"
    by (rule edit_replaces_one_place [OF _ _ single])
      (simp_all add: restore_line_endings_def normalize_to_lf_def)
  then show ?thesis unfolding bytes by blast
qed

section \<open>Runs that fail\<close>

text \<open>The texts of an edit are short enough for the diff's positions to be machine integers.\<close>

definition diff_fits :: "(ustr \<Rightarrow> ustr) \<Rightarrow> (int \<Rightarrow> bool) \<Rightarrow> edit list \<Rightarrow> int list \<Rightarrow> bool" where
  "diff_fits nf mk edits file \<longleftrightarrow>
     (case edited_text nf mk (from_utf8_lossy file) edits of
        Inl err \<Rightarrow> True
      | Inr r \<Rightarrow> 2 * (length (base_content (fst r)) + length (new_content (fst r))) + 3 < 2 ^ 63)"

text \<open>
  C22: An edit that reports a failure has left the file as it was, unless writing itself failed
  or the call was aborted after the write.
\<close>

theorem failed_edit_keeps_the_file:
  assumes "run_edit nf mk ops aborted path edits file = (Inl err, file')" and "file' \<noteq> file"
    and "diff_fits nf mk edits file"
  shows "(\<exists>final e. op_write ops file final = (file', Some e) \<and> err = File_Error e) \<or> (err = Operation_Aborted \<and> aborted 4)"
proof (cases "edited_text nf mk (from_utf8_lossy file) edits")
  case (Inl e)
  with assms show ?thesis by (auto simp: run_edit_def Let_def split: if_splits option.splits)
next
  case (Inr r)
  obtain applied final where r: "r = (applied, final)" by (cases r)
  have "\<exists>d. generate_diff_string (base_content applied) (new_content applied) 4 = Some d"
    using assms(3) Inr r by (intro diff_string_exists) (simp add: diff_fits_def)
  then obtain d where "generate_diff_string (base_content applied) (new_content applied) 4 = Some d" by blast
  with assms(1,2) Inr r show ?thesis
    by (cases "op_write ops file (encode_utf8 final)")
      (auto simp: run_edit_def Let_def split: if_splits option.splits)
qed

text \<open>
  The last check comes after the write: a call aborted there is reported as not done although
  the file has changed.
\<close>

lemma sample_edited:
  "edited_text nf mk [120, 10, 121] (one_edit [121] [122]) =
    Inr (\<lparr>base_content = [120, 10, 121], new_content = [120, 10, 122]\<rparr>, [120, 10, 122])"
proof -
  have "detect_line_ending [120, 10, 121] = LineFeed" by (rule detect_plain) simp
  moreover have "normalize_to_lf [120, 10, 121] = [120, 10, 121]" by (rule normalize_no_cr) simp
  ultimately show ?thesis
    using edited_text_single [OF sample_single, of "[120, 10, 121]" "[]" "[120, 10, 121]" nf mk]
    by (simp add: strip_bom_def strip_prefix_def restore_line_endings_def)
qed

lemma ascii_lossy: "\<forall>b \<in> set bs. b < 128 \<Longrightarrow> from_utf8_lossy bs = bs"
  by (induction bs) (auto simp: utf8_step_def)

lemma sample_raw: "from_utf8_lossy [120, 10, 121] = [120, 10, 121]"
  by (rule ascii_lossy) simp

lemma abort_after_write:
  "run_edit nf mk local_operations (\<lambda>k. k = 4) path (one_edit [121] [122]) [120, 10, 121] = (Inl Operation_Aborted, [120, 10, 122])"
  by (simp add: run_edit_def local_operations_def Let_def sample_raw sample_edited encode_utf8_char_def
      del: from_utf8_lossy.simps)

theorem failed_edit_keeps_the_file_witness:
  "run_edit (\<lambda>s. s) (\<lambda>_. False) local_operations (\<lambda>k. k = 4) [] (one_edit [121] [122]) [120, 10, 121] = (Inl Operation_Aborted, [120, 10, 122])
   \<and> (Operation_Aborted = Operation_Aborted \<and> (\<lambda>k. k = 4) (4 :: nat))"
proof -
  have "diff_fits (\<lambda>s. s) (\<lambda>_. False) (one_edit [121] [122]) [120, 10, 121]"
    by (simp add: diff_fits_def sample_raw sample_edited del: from_utf8_lossy.simps)
  from failed_edit_keeps_the_file [OF abort_after_write _ this] abort_after_write show ?thesis
    by (auto simp: local_operations_def)
qed

text \<open>
  A byte that is not UTF-8 is replaced wherever it stands in the file, not only where the edit is;
  and in a file with both kinds of line break every break is rewritten as the first one.
\<close>

lemma latin1_sample_edited:
  "edited_text nf mk [65533, 10, 121] (one_edit [121] [122]) =
    Inr (\<lparr>base_content = [65533, 10, 121], new_content = [65533, 10, 122]\<rparr>, [65533, 10, 122])"
proof -
  have s: "single_edit [65533, 10] [121] [] [122]"
    by (rule last_char_single) (simp_all add: scalar_def)
  have "detect_line_ending [65533, 10, 121] = LineFeed" by (rule detect_plain) simp
  moreover have "normalize_to_lf [65533, 10, 121] = [65533, 10, 121]" by (rule normalize_no_cr) simp
  ultimately show ?thesis
    using edited_text_single [OF s, of "[65533, 10, 121]" "[]" "[65533, 10, 121]" nf mk]
    by (simp add: strip_bom_def strip_prefix_def restore_line_endings_def)
qed

lemma undecodable_byte_replaced:
  "\<exists>r. run_edit nf mk local_operations (\<lambda>k. False) path (one_edit [121] [122]) [233, 10, 121] = (Inr r, [239, 191, 189, 10, 122])"
proof -
  have raw: "from_utf8_lossy [233, 10, 121] = [65533, 10, 121]" by (simp add: utf8_step_def second_ok_def continuation_def)
  obtain d where d: "generate_diff_string [65533, 10, 121] [65533, 10, 122] 4 = Some d"
    using diff_string_exists [of "[65533, 10, 121]" "[65533, 10, 122]"] by auto
  have "run_edit nf mk local_operations (\<lambda>k. False) path (one_edit [121] [122]) [233, 10, 121] =
    (Inr \<lparr>er_text = edited_message (length (one_edit [121] [122])) path, er_diff = shown_diff (diff_text d),
          er_first_changed_line = first_changed_line d\<rparr>, encode_utf8 [65533, 10, 122])"
    by (rule run_edit_single [where applied = "\<lparr>base_content = [65533, 10, 121], new_content = [65533, 10, 122]\<rparr>"]) (simp_all add: raw latin1_sample_edited d del: from_utf8_lossy.simps)
  then show ?thesis by (simp add: encode_utf8_char_def)
qed

lemma mixed_breaks_rewritten:
  "\<exists>r. run_edit nf mk local_operations (\<lambda>k. False) path (one_edit [121] [122]) [13, 10, 120, 10, 121] = (Inr r, [13, 10, 120, 13, 10, 122])"
proof -
  have s: "single_edit [10, 120, 10] [121] [] [122]"
    by (rule last_char_single) (simp_all add: scalar_def)
  let ?raw = "[13, 10, 120, 10, 121]"
  have raw: "from_utf8_lossy ?raw = ?raw" by (rule ascii_lossy) simp
  have "detect_line_ending ?raw = CarriageReturnLineFeed" by code_simp
  moreover have "normalize_to_lf ?raw = [10, 120, 10, 121]" by (simp add: normalize_to_lf_def)
  ultimately have ed: "edited_text nf mk ?raw (one_edit [121] [122]) =
      Inr (\<lparr>base_content = [10, 120, 10, 121], new_content = [10, 120, 10, 122]\<rparr>, [13, 10, 120, 13, 10, 122])"
    using edited_text_single [OF s, of ?raw "[]" ?raw nf mk]
    by (simp add: strip_bom_def strip_prefix_def restore_line_endings_def)
  obtain d where d: "generate_diff_string [10, 120, 10, 121] [10, 120, 10, 122] 4 = Some d"
    using diff_string_exists [of "[10, 120, 10, 121]" "[10, 120, 10, 122]"] by auto
  have "run_edit nf mk local_operations (\<lambda>k. False) path (one_edit [121] [122]) ?raw =
    (Inr \<lparr>er_text = edited_message (length (one_edit [121] [122])) path, er_diff = shown_diff (diff_text d),
          er_first_changed_line = first_changed_line d\<rparr>, encode_utf8 [13, 10, 120, 13, 10, 122])"
    by (rule run_edit_single [where applied = "\<lparr>base_content = [10, 120, 10, 121], new_content = [10, 120, 10, 122]\<rparr>"]) (simp_all add: raw ed d del: from_utf8_lossy.simps)
  then show ?thesis by (simp add: encode_utf8_char_def)
qed

theorem legacy_edit_is_last_witness:
  "validate_edit_input (prepare_edit_arguments f
      (JObj [(U ''path'', JStr (U ''f'')), (U ''oldText'', JStr (U ''a'')), (U ''newText'', JStr (U ''b''))]))
    = Inr (U ''f'', [\<lparr>old_text = U ''a'', new_text = U ''b'', replace_all = False\<rparr>])"
  using legacy_edit_is_last [of "[(U ''path'', JStr (U ''f'')), (U ''oldText'', JStr (U ''a'')), (U ''newText'', JStr (U ''b''))]"
      "U ''f''" "U ''a''" "U ''b''" f]
  by (simp add: with_parsed_edits_def edits_array_def)

end
