(* ===== verification/Provider_Messages.thy ===== *)
theory Provider_Messages
  imports Messages
begin

text \<open>
  The messages a provider is sent: \<open>convert_to_llm\<close>
  (\<^verbatim>\<open>crates/hoocode-agent-harness/src/messages.rs\<close>) turns the agent's own message kinds into
  user messages, and \<open>transform_messages\<close>
  (\<^verbatim>\<open>crates/hoocode-ai-util/src/transform_messages.rs\<close>) fits a log that other models may
  have written to the model that reads it. Parameters: a provider's rule for tool call ids, and
  the clock (one reading for each message written).
\<close>

section \<open>Messages and models\<close>

datatype message =
    MUser user_message
  | MAssistant assistant_message
  | MToolResult tool_result_message

text \<open>The fields of \<open>Model\<close> the transformation reads.\<close>

record model =
  model_id :: ustr
  model_api :: ustr
  model_provider :: ustr
  model_input :: "ustr list"

section \<open>The agent's messages as model messages\<close>

definition bash_execution_to_text :: "bash_execution_message \<Rightarrow> ustr" where
  "bash_execution_to_text b =
     U ''Ran `'' @ be_command b @ U ''`'' @ [10]
     @ (if be_output b \<noteq> [] then U ''```'' @ [10] @ be_output b @ [10] @ U ''```'' else U ''(no output)'')
     @ (if be_cancelled b then [10, 10] @ U ''(command cancelled)''
        else (case be_exit_code b of
          Some code \<Rightarrow> if code \<noteq> 0
            then [10, 10] @ U ''Command exited with code ''
              @ (if code < 0 then U ''-'' @ nat_digits (nat (- code)) else nat_digits (nat code))
            else []
        | None \<Rightarrow> []))
     @ (if be_truncated b then (case be_full_output_path b of
          Some p \<Rightarrow> [10, 10] @ U ''[Output truncated. Full output: '' @ p @ U '']''
        | None \<Rightarrow> []) else [])"

definition compaction_summary_text :: "ustr \<Rightarrow> ustr" where
  "compaction_summary_text s =
     U ''The conversation history before this point was compacted into the following summary:''
     @ [10, 10] @ U ''<summary>'' @ [10] @ s @ [10] @ U ''</summary>''"

definition branch_summary_text :: "ustr \<Rightarrow> ustr" where
  "branch_summary_text s =
     U ''The following is a summary of a branch that this conversation came back from:''
     @ [10, 10] @ U ''<summary>'' @ [10] @ s @ U ''</summary>''"

definition llm_user :: "content list \<Rightarrow> int \<Rightarrow> message" where
  "llm_user bs t = MUser \<lparr>um_content = UBlocks bs, um_timestamp = t\<rparr>"

fun llm_message :: "agent_message \<Rightarrow> message option" where
  "llm_message (BashExecutionMsg b) =
     (if be_exclude_from_context b = Some True then None
      else Some (llm_user [text_block (bash_execution_to_text b)] (be_timestamp b)))"
| "llm_message (CustomMsg c) = Some (llm_user (blocks (cm_content c)) (cm_timestamp c))"
| "llm_message (BranchSummaryMsg b) =
     Some (llm_user [text_block (branch_summary_text (bs_summary b))] (bs_timestamp b))"
| "llm_message (CompactionSummaryMsg c) =
     Some (llm_user [text_block (compaction_summary_text (cs_summary c))] (cs_timestamp c))"
| "llm_message (UserMsg m) = Some (MUser m)"
| "llm_message (AssistantMsg m) = Some (MAssistant m)"
| "llm_message (ToolResultMsg m) = Some (MToolResult m)"

definition convert_to_llm :: "agent_message list \<Rightarrow> message list" where
  "convert_to_llm ms = List.map_filter llm_message ms"

section \<open>Images for a model that does not take them\<close>

definition user_image_placeholder :: ustr where
  "user_image_placeholder = U ''(image omitted: model does not support images)''"

definition tool_image_placeholder :: ustr where
  "tool_image_placeholder = U ''(tool image omitted: model does not support images)''"

fun replace_images_with_placeholder :: "ustr \<Rightarrow> bool \<Rightarrow> content list \<Rightarrow> content list" where
  "replace_images_with_placeholder ph prev [] = []"
| "replace_images_with_placeholder ph prev (CImage i # bs) =
     (if prev then [] else [text_block ph]) @ replace_images_with_placeholder ph True bs"
| "replace_images_with_placeholder ph prev (b # bs) =
     b # replace_images_with_placeholder ph (case b of CText t \<Rightarrow> tx_text t = ph | _ \<Rightarrow> False) bs"

fun downgrade_message :: "message \<Rightarrow> message" where
  "downgrade_message (MUser m) =
     MUser (case um_content m of
       UBlocks bs \<Rightarrow> m\<lparr>um_content := UBlocks (replace_images_with_placeholder user_image_placeholder False bs)\<rparr>
     | UText t \<Rightarrow> m)"
| "downgrade_message (MToolResult m) =
     MToolResult (m\<lparr>tr_content := replace_images_with_placeholder tool_image_placeholder False (tr_content m)\<rparr>)"
| "downgrade_message (MAssistant m) = MAssistant m"

definition downgrade_unsupported_images :: "message list \<Rightarrow> model \<Rightarrow> message list" where
  "downgrade_unsupported_images ms model =
     (if U ''image'' \<in> set (model_input model) then ms else map downgrade_message ms)"

section \<open>Blocks and ids of other models\<close>

type_synonym normalize_id = "ustr \<Rightarrow> model \<Rightarrow> assistant_message \<Rightarrow> ustr"

definition is_same_model :: "model \<Rightarrow> assistant_message \<Rightarrow> bool" where
  "is_same_model model a \<longleftrightarrow>
     am_provider a = model_provider model \<and> am_api a = model_api model \<and> am_model a = model_id model"

definition thinking_blocks :: "bool \<Rightarrow> thinking_content \<Rightarrow> content list" where
  "thinking_blocks same t =
     (if th_redacted t then (if same then [CThinking t] else [])
      else if same \<and> (case th_signature t of Some s \<Rightarrow> s \<noteq> [] | None \<Rightarrow> False) then [CThinking t]
      else if trim (th_thinking t) = [] then []
      else if same then [CThinking t] else [text_block (th_thinking t)])"

fun transform_block ::
  "model \<Rightarrow> normalize_id option \<Rightarrow> assistant_message \<Rightarrow> (ustr \<Rightarrow> ustr option) \<Rightarrow> content
   \<Rightarrow> (ustr \<Rightarrow> ustr option) \<times> content list" where
  "transform_block model nid a ids (CThinking t) = (ids, thinking_blocks (is_same_model model a) t)"
| "transform_block model nid a ids (CText t) =
     (ids, [if is_same_model model a then CText t else text_block (tx_text t)])"
| "transform_block model nid a ids (CImage i) = (ids, [CImage i])"
| "transform_block model nid a ids (CToolCall tc) =
     (if is_same_model model a then (ids, [CToolCall tc])
      else (let tc' = tc\<lparr>call_thought_signature := None\<rparr>
            in case nid of
                 None \<Rightarrow> (ids, [CToolCall tc'])
               | Some f \<Rightarrow>
                   (let i = f (call_id tc) model a
                    in if i \<noteq> call_id tc then (ids(call_id tc \<mapsto> i), [CToolCall (tc'\<lparr>call_id := i\<rparr>)])
                       else (ids, [CToolCall tc']))))"

fun transform_blocks ::
  "model \<Rightarrow> normalize_id option \<Rightarrow> assistant_message \<Rightarrow> (ustr \<Rightarrow> ustr option) \<Rightarrow> content list
   \<Rightarrow> (ustr \<Rightarrow> ustr option) \<times> content list" where
  "transform_blocks model nid a ids [] = (ids, [])"
| "transform_blocks model nid a ids (b # bs) =
     (case transform_block model nid a ids b of
        (ids, c) \<Rightarrow> (case transform_blocks model nid a ids bs of (ids, cs) \<Rightarrow> (ids, c @ cs)))"

fun normalize_messages ::
  "model \<Rightarrow> normalize_id option \<Rightarrow> (ustr \<Rightarrow> ustr option) \<Rightarrow> message list \<Rightarrow> message list" where
  "normalize_messages model nid ids [] = []"
| "normalize_messages model nid ids (MUser m # ms) = MUser m # normalize_messages model nid ids ms"
| "normalize_messages model nid ids (MToolResult m # ms) =
     MToolResult (case ids (tr_call_id m) of Some i \<Rightarrow> m\<lparr>tr_call_id := i\<rparr> | None \<Rightarrow> m)
     # normalize_messages model nid ids ms"
| "normalize_messages model nid ids (MAssistant a # ms) =
     (case transform_blocks model nid a ids (am_content a) of
        (ids, bs) \<Rightarrow> MAssistant (a\<lparr>am_content := bs\<rparr>) # normalize_messages model nid ids ms)"

section \<open>Calls without a result\<close>

definition missing_tool_result :: ustr where
  "missing_tool_result =
     U ''No result recorded: the session ended or was interrupted before this call finished''"

definition synthetic_result :: "int \<Rightarrow> tool_call_content \<Rightarrow> message" where
  "synthetic_result now tc =
     MToolResult \<lparr>tr_call_id = call_id tc, tr_tool_name = call_name tc, tr_content = [text_block missing_tool_result],
       tr_details = None, tr_is_error = True, tr_timestamp = now, tr_duration_ms = None\<rparr>"

record log_repair =
  rp_result :: "message list"
  rp_pending :: "tool_call_content list"
  rp_existing :: "ustr set"

fun push_missing :: "(nat \<Rightarrow> int) \<Rightarrow> ustr set \<Rightarrow> tool_call_content list \<Rightarrow> message list \<Rightarrow> message list" where
  "push_missing clock ex [] result = result"
| "push_missing clock ex (tc # tcs) result =
     push_missing clock ex tcs
       (if call_id tc \<in> ex then result else result @ [synthetic_result (clock (length result)) tc])"

definition insert_synthetic :: "(nat \<Rightarrow> int) \<Rightarrow> log_repair \<Rightarrow> log_repair" where
  "insert_synthetic clock s =
     (if rp_pending s = [] then s
      else \<lparr>rp_result = push_missing clock (rp_existing s) (rp_pending s) (rp_result s),
            rp_pending = [], rp_existing = {}\<rparr>)"

fun block_calls :: "content list \<Rightarrow> tool_call_content list" where
  "block_calls [] = []"
| "block_calls (CToolCall tc # bs) = tc # block_calls bs"
| "block_calls (_ # bs) = block_calls bs"

fun repair_step :: "(nat \<Rightarrow> int) \<Rightarrow> log_repair \<Rightarrow> message \<Rightarrow> log_repair" where
  "repair_step clock s (MAssistant a) =
     (let s = insert_synthetic clock s
      in if am_stop_reason a \<in> {ErrorStop, Aborted} then s
         else (let calls = block_calls (am_content a);
                   s = (if calls \<noteq> [] then s\<lparr>rp_pending := calls, rp_existing := {}\<rparr> else s)
               in s\<lparr>rp_result := rp_result s @ [MAssistant a]\<rparr>))"
| "repair_step clock s (MToolResult m) =
     s\<lparr>rp_existing := insert (tr_call_id m) (rp_existing s), rp_result := rp_result s @ [MToolResult m]\<rparr>"
| "repair_step clock s (MUser m) =
     (let s = insert_synthetic clock s in s\<lparr>rp_result := rp_result s @ [MUser m]\<rparr>)"

definition repair_log :: "(nat \<Rightarrow> int) \<Rightarrow> message list \<Rightarrow> message list" where
  "repair_log clock ms =
     rp_result (insert_synthetic clock
       (foldl (repair_step clock) \<lparr>rp_result = [], rp_pending = [], rp_existing = {}\<rparr> ms))"

definition transform_messages :: "(nat \<Rightarrow> int) \<Rightarrow> message list \<Rightarrow> model \<Rightarrow> normalize_id option \<Rightarrow> message list" where
  "transform_messages clock ms model nid =
     repair_log clock (normalize_messages model nid Map.empty (downgrade_unsupported_images ms model))"

section \<open>Every call is answered\<close>

fun is_result :: "message \<Rightarrow> bool" where
  "is_result (MToolResult m) = True"
| "is_result _ = False"

fun result_id :: "message \<Rightarrow> ustr set" where
  "result_id (MToolResult m) = {tr_call_id m}"
| "result_id _ = {}"

definition result_ids :: "message list \<Rightarrow> ustr set" where
  "result_ids ms = \<Union> (result_id ` set ms)"

text \<open>A result for every call of an assistant message follows it before the next turn.\<close>

fun answered :: "message list \<Rightarrow> bool" where
  "answered [] \<longleftrightarrow> True"
| "answered (MAssistant a # ms) \<longleftrightarrow>
     call_id ` set (block_calls (am_content a)) \<subseteq> result_ids (takeWhile is_result ms) \<and> answered ms"
| "answered (_ # ms) \<longleftrightarrow> answered ms"

lemma result_ids_simps [simp]:
  "result_ids [] = {}" "result_ids (m # ms) = result_id m \<union> result_ids ms"
  "result_ids (xs @ ys) = result_ids xs \<union> result_ids ys"
  by (auto simp: result_ids_def)

lemma takeWhile_append_subset: "set (takeWhile P xs) \<subseteq> set (takeWhile P (xs @ ys))"
  by (induction xs) auto

lemma result_ids_mono: "set xs \<subseteq> set ys \<Longrightarrow> result_ids xs \<subseteq> result_ids ys"
  by (auto simp: result_ids_def)

lemma answered_append: "answered xs \<Longrightarrow> answered ys \<Longrightarrow> answered (xs @ ys)"
proof (induction xs rule: answered.induct)
  case (2 a ms)
  then show ?case using result_ids_mono [OF takeWhile_append_subset [of is_result ms ys]] by auto
qed auto

lemma answered_results: "\<forall>r \<in> set rs. is_result r \<Longrightarrow> answered rs"
  by (induction rs rule: answered.induct) auto

definition repair_inv :: "log_repair \<Rightarrow> bool" where
  "repair_inv s \<longleftrightarrow>
     (if rp_pending s = [] then answered (rp_result s)
      else \<exists>pre a rs. rp_result s = pre @ MAssistant a # rs \<and> answered pre \<and> (\<forall>r \<in> set rs. is_result r)
        \<and> rp_pending s = block_calls (am_content a) \<and> rp_existing s = result_ids rs)"

lemma push_missing_eq:
  "\<exists>rs. push_missing clock ex tcs result = result @ rs \<and> (\<forall>r \<in> set rs. is_result r)
     \<and> call_id ` set tcs \<subseteq> ex \<union> result_ids rs"
proof (induction tcs arbitrary: result)
  case Nil
  show ?case by simp
next
  case (Cons tc tcs)
  show ?case
  proof (cases "call_id tc \<in> ex")
    case True
    with Cons [of result] show ?thesis by auto
  next
    case False
    let ?m = "synthetic_result (clock (length result)) tc"
    from Cons [of "result @ [?m]"] obtain rs where
      "push_missing clock ex tcs (result @ [?m]) = (result @ [?m]) @ rs" "\<forall>r \<in> set rs. is_result r"
      "call_id ` set tcs \<subseteq> ex \<union> result_ids rs" by blast
    with False show ?thesis by (intro exI [of _ "?m # rs"]) (auto simp: synthetic_result_def)
  qed
qed

lemma insert_synthetic_answers:
  assumes "repair_inv s"
  shows "rp_pending (insert_synthetic clock s) = [] \<and> answered (rp_result (insert_synthetic clock s))"
proof (cases "rp_pending s = []")
  case True
  with assms show ?thesis by (simp add: insert_synthetic_def repair_inv_def)
next
  case False
  with assms obtain pre a rs where s: "rp_result s = pre @ MAssistant a # rs" "answered pre"
    "\<forall>r \<in> set rs. is_result r" "rp_pending s = block_calls (am_content a)" "rp_existing s = result_ids rs"
    by (auto simp: repair_inv_def)
  obtain qs where q: "push_missing clock (rp_existing s) (rp_pending s) (rp_result s) = rp_result s @ qs"
    "\<forall>r \<in> set qs. is_result r" "call_id ` set (rp_pending s) \<subseteq> rp_existing s \<union> result_ids qs"
    using push_missing_eq by blast
  have "takeWhile is_result (rs @ qs) = rs @ qs" using s(3) q(2) by (simp only: takeWhile_eq_all_conv) auto
  moreover have "call_id ` set (block_calls (am_content a)) \<subseteq> result_ids (rs @ qs)" using s q by simp
  moreover have "answered (rs @ qs)" using s(3) q(2) by (intro answered_results) auto
  ultimately have "answered (MAssistant a # rs @ qs)" by (simp only: answered.simps)
  with s(2) have "answered (rp_result s @ qs)" using s(1) answered_append by simp
  with False q show ?thesis by (simp add: insert_synthetic_def)
qed

lemma repair_step_inv:
  assumes "repair_inv s"
  shows "repair_inv (repair_step clock s m)"
proof (cases m)
  case (MUser u)
  with insert_synthetic_answers [OF assms, of clock] show ?thesis
    by (auto simp: repair_inv_def Let_def intro: answered_append)
next
  case (MAssistant a)
  show ?thesis
  proof (cases "am_stop_reason a \<in> {ErrorStop, Aborted} \<or> block_calls (am_content a) = []")
    case True
    with MAssistant insert_synthetic_answers [OF assms, of clock] show ?thesis
      by (auto simp: repair_inv_def Let_def intro: answered_append)
  next
    case False
    with MAssistant insert_synthetic_answers [OF assms, of clock] show ?thesis
      by (simp add: repair_inv_def Let_def)
        (rule exI [of _ "rp_result (insert_synthetic clock s)"], rule exI [of _ a], rule exI [of _ "[]"], simp)
  qed
next
  case (MToolResult r)
  show ?thesis
  proof (cases "rp_pending s = []")
    case True
    with assms MToolResult show ?thesis by (auto simp: repair_inv_def intro: answered_append)
  next
    case False
    with assms obtain pre a rs where s: "rp_result s = pre @ MAssistant a # rs" "answered pre"
      "\<forall>r \<in> set rs. is_result r" "rp_pending s = block_calls (am_content a)" "rp_existing s = result_ids rs"
      by (auto simp: repair_inv_def)
    with False MToolResult show ?thesis
      by (simp add: repair_inv_def)
        (rule exI [of _ pre], rule exI [of _ a], rule exI [of _ "rs @ [MToolResult r]"], auto)
  qed
qed

interpretation log_run: stepper "repair_step clock" repair_inv for clock
  by unfold_locales (rule repair_step_inv)

text \<open>
  C30: In the messages sent to a provider every tool call of an assistant message is followed by
  a result with its id before the next user or assistant message, whatever the log held.
\<close>

theorem sent_calls_are_answered: "answered (transform_messages clock ms model nid)"
proof -
  have "repair_inv \<lparr>rp_result = [], rp_pending = [], rp_existing = {}\<rparr>" by (simp add: repair_inv_def)
  from insert_synthetic_answers [OF log_run.run_inv [OF this]] show ?thesis
    by (simp add: transform_messages_def repair_log_def)
qed

section \<open>What the reading model is not sent\<close>

fun block_sendable :: "bool \<Rightarrow> content \<Rightarrow> bool" where
  "block_sendable same (CThinking t) \<longleftrightarrow> same"
| "block_sendable same (CText t) \<longleftrightarrow> same \<or> tx_signature t = None"
| "block_sendable same (CToolCall tc) \<longleftrightarrow> same \<or> call_thought_signature tc = None"
| "block_sendable same (CImage i) \<longleftrightarrow> True"

fun is_image :: "content \<Rightarrow> bool" where
  "is_image (CImage i) = True"
| "is_image _ = False"

text \<open>
  Reasoning and signatures of another model are not sent, and a model without images gets none
  from a user or a tool.
\<close>

fun sendable :: "model \<Rightarrow> message \<Rightarrow> bool" where
  "sendable model (MAssistant a) \<longleftrightarrow>
     (\<forall>b \<in> set (am_content a). block_sendable (is_same_model model a) b) \<and> am_stop_reason a \<notin> {ErrorStop, Aborted}"
| "sendable model (MUser m) \<longleftrightarrow>
     U ''image'' \<in> set (model_input model) \<or> (\<forall>b \<in> set (blocks (um_content m)). \<not> is_image b)"
| "sendable model (MToolResult m) \<longleftrightarrow>
     U ''image'' \<in> set (model_input model) \<or> (\<forall>b \<in> set (tr_content m). \<not> is_image b)"

fun sendable_or_failed :: "model \<Rightarrow> message \<Rightarrow> bool" where
  "sendable_or_failed model (MAssistant a) \<longleftrightarrow>
     (\<forall>b \<in> set (am_content a). block_sendable (is_same_model model a) b)"
| "sendable_or_failed model m \<longleftrightarrow> sendable model m"

lemma replaced_no_images: "b \<in> set (replace_images_with_placeholder ph prev bs) \<Longrightarrow> \<not> is_image b"
  by (induction ph prev bs rule: replace_images_with_placeholder.induct) (auto simp: text_block_def split: if_splits)

lemma downgraded_images:
  "m \<in> set (downgrade_unsupported_images ms model) \<Longrightarrow> (case m of MAssistant a \<Rightarrow> True | _ \<Rightarrow> sendable model m)"
proof -
  assume a: "m \<in> set (downgrade_unsupported_images ms model)"
  show ?thesis
  proof (cases "U ''image'' \<in> set (model_input model)")
    case True
    then show ?thesis by (auto split: message.split)
  next
    case False
    with a obtain x where "m = downgrade_message x" by (auto simp: downgrade_unsupported_images_def)
    then show ?thesis
      by (cases x) (auto simp: text_block_def dest: replaced_no_images split: user_content.splits)
  qed
qed

lemma transform_blocks_sendable:
  "transform_blocks model nid a ids bs = (ids', cs) \<Longrightarrow> c \<in> set cs \<Longrightarrow> block_sendable (is_same_model model a) c"
proof (induction bs arbitrary: ids ids' cs)
  case (Cons b bs)
  obtain ids1 c1 where one: "transform_block model nid a ids b = (ids1, c1)"
    by (cases "transform_block model nid a ids b") auto
  obtain ids2 cs2 where rest: "transform_blocks model nid a ids1 bs = (ids2, cs2)"
    by (cases "transform_blocks model nid a ids1 bs") auto
  have "x \<in> set c1 \<Longrightarrow> block_sendable (is_same_model model a) x" for x
    using one by (cases b) (auto simp: thinking_blocks_def text_block_def Let_def split: if_splits option.splits)
  with Cons.prems one rest Cons.IH [OF rest] show ?case by auto
qed simp

lemma normalized_sendable:
  "(\<And>m. m \<in> set ms \<Longrightarrow> case m of MAssistant a \<Rightarrow> True | _ \<Rightarrow> sendable model m) \<Longrightarrow>
   m \<in> set (normalize_messages model nid ids ms) \<Longrightarrow> sendable_or_failed model m"
proof (induction model nid ids ms rule: normalize_messages.induct)
  case (4 model nid ids a ms)
  obtain ids' bs where b: "transform_blocks model nid a ids (am_content a) = (ids', bs)"
    by (cases "transform_blocks model nid a ids (am_content a)") auto
  have same: "is_same_model model (a\<lparr>am_content := bs\<rparr>) = is_same_model model a" by (simp add: is_same_model_def)
  from "4.prems"(2) b consider "m = MAssistant (a\<lparr>am_content := bs\<rparr>)" | "m \<in> set (normalize_messages model nid ids' ms)" by auto
  then show ?case
  proof cases
    case 1
    with transform_blocks_sendable [OF b] same show ?thesis by simp
  next
    case 2
    then show ?thesis using "4.IH" [OF b [symmetric]] "4.prems"(1) by auto
  qed
qed (force split: option.splits)+

lemma push_missing_in: "m \<in> set (push_missing clock ex tcs result) \<Longrightarrow> m \<in> set result \<or> (\<exists>now tc. m = synthetic_result now tc)"
  by (induction clock ex tcs result rule: push_missing.induct) (auto split: if_splits)

lemma synthetic_sendable [simp]: "sendable model (synthetic_result now tc)"
  by (simp add: synthetic_result_def text_block_def)

definition all_sendable :: "model \<Rightarrow> log_repair \<Rightarrow> bool" where
  "all_sendable model s \<longleftrightarrow> (\<forall>m \<in> set (rp_result s). sendable model m)"

lemma insert_sendable: "all_sendable model s \<Longrightarrow> all_sendable model (insert_synthetic clock s)"
  by (auto simp: all_sendable_def insert_synthetic_def dest: push_missing_in)

lemma repair_step_sendable:
  "all_sendable model s \<Longrightarrow> sendable_or_failed model m \<Longrightarrow> all_sendable model (repair_step clock s m)"
  using insert_sendable [of model s clock]
  by (cases m) (auto simp: all_sendable_def Let_def)

lemma repair_run_sendable:
  "all_sendable model s \<Longrightarrow> \<forall>m \<in> set ms. sendable_or_failed model m \<Longrightarrow>
   all_sendable model (foldl (repair_step clock) s ms)"
  by (induction ms arbitrary: s) (auto intro: repair_step_sendable)

text \<open>
  No message sent holds what the reading model cannot take: no turn that failed or was
  aborted, no thinking or signature of another model, and no image when the model takes none.
\<close>

theorem sent_messages_fit_the_model:
  "list_all (sendable model) (transform_messages clock ms model nid)"
proof -
  have "all_sendable model (insert_synthetic clock (foldl (repair_step clock) \<lparr>rp_result = [], rp_pending = [], rp_existing = {}\<rparr>
      (normalize_messages model nid Map.empty (downgrade_unsupported_images ms model))))"
    using normalized_sendable [OF downgraded_images]
    by (intro insert_sendable repair_run_sendable) (auto simp: all_sendable_def)
  then show ?thesis by (simp add: transform_messages_def repair_log_def all_sendable_def list_all_iff)
qed

section \<open>A sound log of the same model is sent as it is\<close>

fun kept_block :: "content \<Rightarrow> bool" where
  "kept_block (CThinking t) \<longleftrightarrow> th_redacted t \<or> (\<exists>s. th_signature t = Some s \<and> s \<noteq> []) \<or> trim (th_thinking t) \<noteq> []"
| "kept_block _ \<longleftrightarrow> True"

fun native :: "model \<Rightarrow> message \<Rightarrow> bool" where
  "native model (MAssistant a) \<longleftrightarrow> is_same_model model a \<and> am_stop_reason a \<notin> {ErrorStop, Aborted}
     \<and> (\<forall>b \<in> set (am_content a). kept_block b)"
| "native model _ \<longleftrightarrow> True"

lemma native_blocks:
  "is_same_model model a \<Longrightarrow> \<forall>b \<in> set bs. kept_block b \<Longrightarrow> transform_blocks model nid a ids bs = (ids, bs)"
proof (induction bs)
  case (Cons b bs)
  then have "transform_block model nid a ids b = (ids, [b])"
    by (cases b) (auto simp: thinking_blocks_def split: option.splits)
  with Cons show ?case by simp
qed simp

lemma native_normalize: "\<forall>m \<in> set ms. native model m \<Longrightarrow> normalize_messages model nid Map.empty ms = ms"
proof (induction ms)
  case (Cons m ms)
  then show ?case by (cases m) (simp_all add: native_blocks)
qed simp

lemma push_none_missing: "call_id ` set tcs \<subseteq> ex \<Longrightarrow> push_missing clock ex tcs result = result"
  by (induction tcs) auto

lemma nothing_missing:
  "call_id ` set (rp_pending s) \<subseteq> rp_existing s \<Longrightarrow>
   rp_result (insert_synthetic clock s) = rp_result s \<and> rp_pending (insert_synthetic clock s) = []"
  by (auto simp: insert_synthetic_def push_none_missing)

lemma repair_keeps:
  "answered ms \<Longrightarrow> \<forall>m \<in> set ms. native model m \<Longrightarrow>
   call_id ` set (rp_pending s) \<subseteq> rp_existing s \<union> result_ids (takeWhile is_result ms) \<Longrightarrow>
   rp_result (insert_synthetic clock (foldl (repair_step clock) s ms)) = rp_result s @ ms"
proof (induction ms arbitrary: s)
  case Nil
  then show ?case by (simp add: nothing_missing)
next
  case (Cons m ms)
  show ?case
  proof (cases m)
    case (MToolResult r)
    with Cons.prems have "call_id ` set (rp_pending (repair_step clock s m))
        \<subseteq> rp_existing (repair_step clock s m) \<union> result_ids (takeWhile is_result ms)" by auto
    with Cons MToolResult show ?thesis by simp
  next
    case (MUser u)
    with Cons.prems nothing_missing [of s clock] have "rp_result (repair_step clock s m) = rp_result s @ [m]"
      "rp_pending (repair_step clock s m) = []" by (auto simp: Let_def)
    with Cons MUser show ?thesis by (simp del: repair_step.simps)
  next
    case (MAssistant a)
    with Cons.prems nothing_missing [of s clock] have s: "rp_result (repair_step clock s m) = rp_result s @ [m]"
      "rp_pending (repair_step clock s m) = block_calls (am_content a)" by (auto simp: Let_def)
    have "call_id ` set (rp_pending (repair_step clock s m))
        \<subseteq> rp_existing (repair_step clock s m) \<union> result_ids (takeWhile is_result ms)"
      using Cons.prems(1) MAssistant s(2) by auto
    with Cons MAssistant s show ?thesis by (simp del: repair_step.simps)
  qed
qed

text \<open>
  A log whose turns are the reading model's own, whose calls are answered and that holds no
  empty thinking is sent exactly as it is.
\<close>

theorem native_log_unchanged:
  assumes "U ''image'' \<in> set (model_input model)" and "\<forall>m \<in> set ms. native model m" and "answered ms"
  shows "transform_messages clock ms model nid = ms"
  using repair_keeps [OF assms(3,2), of "\<lparr>rp_result = [], rp_pending = [], rp_existing = {}\<rparr>" clock]
    native_normalize [OF assms(2)] assms(1)
  by (simp add: transform_messages_def repair_log_def downgrade_unsupported_images_def)

section \<open>What the user said is kept\<close>

fun is_user :: "message \<Rightarrow> bool" where
  "is_user (MUser m) = True"
| "is_user _ = False"

lemma users_normalized: "filter is_user (normalize_messages model nid ids ms) = filter is_user ms"
  by (induction model nid ids ms rule: normalize_messages.induct) (auto split: prod.split)

lemma users_pushed: "filter is_user (push_missing clock ex tcs result) = filter is_user result"
  by (induction clock ex tcs result rule: push_missing.induct) (auto simp: synthetic_result_def)

lemma users_inserted: "filter is_user (rp_result (insert_synthetic clock s)) = filter is_user (rp_result s)"
  by (simp add: insert_synthetic_def users_pushed)

lemma users_repaired:
  "filter is_user (rp_result (foldl (repair_step clock) s ms)) = filter is_user (rp_result s) @ filter is_user ms"
proof (induction ms arbitrary: s)
  case (Cons m ms)
  then show ?case using users_inserted [of clock s] by (cases m) (auto simp: Let_def)
qed simp

text \<open>
  The user messages sent are those of the log, all of them and in order, with images
  replaced when the model takes none.
\<close>

theorem user_messages_kept:
  "filter is_user (transform_messages clock ms model nid) = filter is_user (downgrade_unsupported_images ms model)"
  by (simp add: transform_messages_def repair_log_def users_inserted users_repaired users_normalized)

section \<open>Samples\<close>

definition sample_call :: "ustr \<Rightarrow> content" where
  "sample_call i = CToolCall \<lparr>call_id = i, call_name = U ''Read'', call_arguments = JNull, call_thought_signature = None\<rparr>"

definition sample_turn :: "ustr \<Rightarrow> ustr \<Rightarrow> message" where
  "sample_turn provider i = MAssistant \<lparr>am_content = [sample_call i], am_api = U ''x'', am_provider = provider,
     am_model = U ''m'', am_usage = no_usage, am_stop_reason = ToolUse, am_timestamp = 0, am_response_id = None,
     am_response_model = None, am_error_message = None, am_diagnostics = None\<rparr>"

definition sample_result :: "ustr \<Rightarrow> message" where
  "sample_result i = MToolResult \<lparr>tr_call_id = i, tr_tool_name = U ''Read'', tr_content = [], tr_details = None,
     tr_is_error = False, tr_timestamp = 0, tr_duration_ms = None\<rparr>"

definition sample_model :: model where
  "sample_model = \<lparr>model_id = U ''m'', model_api = U ''x'', model_provider = U ''p'', model_input = [U ''text'', U ''image'']\<rparr>"

theorem native_log_unchanged_witness:
  "transform_messages (\<lambda>n. 7) [sample_turn (U ''p'') (U ''a''), sample_result (U ''a'')] sample_model None
     = [sample_turn (U ''p'') (U ''a''), sample_result (U ''a'')]"
  by (rule native_log_unchanged)
    (simp_all add: sample_model_def sample_turn_def sample_result_def sample_call_def is_same_model_def)

text \<open>
  The map of renamed ids is never cleared: a later call of the reading model itself that
  happens to have an id another model used loses its result to the renamed call, and a failure
  is recorded in its place.
\<close>

definition underscore_id :: normalize_id where
  "underscore_id i m a = map (\<lambda>c. if c = C CHR ''|'' then C CHR ''_'' else c) i"

definition ids_of_results :: "message list \<Rightarrow> (ustr \<times> bool) list" where
  "ids_of_results ms = concat (map (\<lambda>m. case m of MToolResult r \<Rightarrow> [(tr_call_id r, tr_is_error r)] | _ \<Rightarrow> []) ms)"

lemma renamed_id_steals_result:
  "ids_of_results (transform_messages (\<lambda>n. 0)
     [sample_turn (U ''q'') (U ''a|b''), sample_result (U ''a|b''),
      sample_turn (U ''p'') (U ''a|b''), sample_result (U ''a|b'')] sample_model (Some underscore_id))
   = [(U ''a_b'', False), (U ''a_b'', False), (U ''a|b'', True)]"
  by code_simp

text \<open>A failed turn is dropped, the results recorded for its calls are not.\<close>

definition failed_turn :: "ustr \<Rightarrow> message" where
  "failed_turn i = MAssistant \<lparr>am_content = [sample_call i], am_api = U ''x'', am_provider = U ''p'',
     am_model = U ''m'', am_usage = no_usage, am_stop_reason = Aborted, am_timestamp = 0, am_response_id = None,
     am_response_model = None, am_error_message = None, am_diagnostics = None\<rparr>"

lemma failed_turn_leaves_results:
  "transform_messages (\<lambda>n. 0) [failed_turn (U ''a''), sample_result (U ''a'')] sample_model None = [sample_result (U ''a'')]"
  by code_simp

end
