(* ===== verification/Stdin_Buffer.thy ===== *)
theory Stdin_Buffer
  imports Prelude
begin

text \<open>
  The terminal's input buffer (\<^verbatim>\<open>crates/hoocode-tui-terminal/src/stdin_buffer.rs\<close>): decoded
  text arrives in chunks of any size, and whole key sequences and pastes come out. Positions in the
  paste buffer are bytes in the code and characters here; only the search window is given in
  bytes, and \<open>suffix_from\<close> (\<^verbatim>\<open>hoocode-tui-util/src/text_slice.rs\<close>) cuts it as the code does.
\<close>

section \<open>Sequences\<close>

abbreviation ESC :: uchar where "ESC \<equiv> 27"

definition paste_start :: ustr where "paste_start = [ESC, 91, 50, 48, 48, 126]"
definition paste_end :: ustr where "paste_end = [ESC, 91, 50, 48, 49, 126]"

datatype stdin_event = DataEvent ustr | PasteEvent ustr

datatype seq_status = CompleteSeq | IncompleteSeq | NotEscape

definition is_mouse :: "ustr \<Rightarrow> bool" where
  "is_mouse inner =
     (let parts = split_on (C CHR '';'') inner
      in length parts = 3 \<and> (\<forall>p \<in> set parts. p \<noteq> [] \<and> (\<forall>c \<in> set p. is_digit c)))"

definition is_complete_csi_sequence :: "ustr \<Rightarrow> seq_status" where
  "is_complete_csi_sequence data =
     (if length data < 2 \<or> hd data \<noteq> ESC \<or> data ! 1 \<noteq> C CHR ''['' then CompleteSeq
      else if length data < 3 then IncompleteSeq
      else (let payload = drop 2 data
            in if 64 \<le> last payload \<and> last payload \<le> 126
               then (if hd payload = C CHR ''<''
                     then (if is_mouse (butlast (tl payload)) then CompleteSeq else IncompleteSeq)
                     else CompleteSeq)
               else IncompleteSeq))"

definition string_sequence_status :: "ustr \<Rightarrow> uchar \<Rightarrow> ustr list \<Rightarrow> seq_status" where
  "string_sequence_status data introducer terminators =
     (if length data < 2 \<or> hd data \<noteq> ESC \<or> data ! 1 \<noteq> introducer then CompleteSeq
      else if \<exists>t \<in> set terminators. suffix t data then CompleteSeq else IncompleteSeq)"

definition is_complete_sequence :: "ustr \<Rightarrow> seq_status" where
  "is_complete_sequence data =
     (if data = [] \<or> hd data \<noteq> ESC then NotEscape
      else if length data = 1 then IncompleteSeq
      else (let c = data ! 1 in
        if c = C CHR ''['' then
          (if 3 \<le> length data \<and> data ! 2 = C CHR ''M''
           then (if 6 \<le> length data then CompleteSeq else IncompleteSeq)
           else is_complete_csi_sequence data)
        else if c = C CHR '']'' then string_sequence_status data (C CHR '']'') [[ESC, 92], [7]]
        else if c = C CHR ''P'' then string_sequence_status data (C CHR ''P'') [[ESC, 92]]
        else if c = C CHR ''_'' then string_sequence_status data (C CHR ''_'') [[ESC, 92]]
        else if c = C CHR ''O'' then (if 3 \<le> length data then CompleteSeq else IncompleteSeq)
        else CompleteSeq))"

text \<open>The shortest prefix that is not incomplete.\<close>

definition next_sequence :: "ustr \<Rightarrow> nat option" where
  "next_sequence rest = List.find (\<lambda>n. is_complete_sequence (take n rest) \<noteq> IncompleteSeq) [1 ..< Suc (length rest)]"

lemma next_sequence_bounds: "next_sequence rest = Some n \<Longrightarrow> 1 \<le> n \<and> n \<le> length rest"
  by (auto simp: next_sequence_def find_upt_Some simp del: upt_Suc)

function extract_complete_sequences :: "ustr \<Rightarrow> ustr list \<times> ustr" where
  "extract_complete_sequences buffer =
     (if buffer = [] then ([], [])
      else if hd buffer = ESC then
        (case next_sequence buffer of
           None \<Rightarrow> ([], buffer)
         | Some n \<Rightarrow> (case extract_complete_sequences (drop n buffer) of (ss, r) \<Rightarrow> (take n buffer # ss, r)))
      else (case extract_complete_sequences (tl buffer) of (ss, r) \<Rightarrow> ([hd buffer] # ss, r)))"
  by pat_completeness auto
termination
  by (relation "measure length") (auto dest: next_sequence_bounds)

declare extract_complete_sequences.simps [simp del]

text \<open>The code point of an unmodified printable key of the Kitty protocol.\<close>

definition u32_max :: nat where "u32_max = 4294967295"

definition parse_kitty_printable :: "ustr \<Rightarrow> int option" where
  "parse_kitty_printable s =
     (case strip_prefix s [ESC, 91] of
        None \<Rightarrow> None
      | Some r \<Rightarrow> (case strip_suffix r (U ''u'') of
          None \<Rightarrow> None
        | Some d \<Rightarrow>
            if d = [] \<or> (\<exists>c \<in> set d. \<not> is_digit c) then None
            else (let v = foldl (\<lambda>n c. n * 10 + nat (c - 48)) 0 d
                  in if v \<le> u32_max \<and> 32 \<le> v then Some (int v) else None)))"

section \<open>The buffer\<close>

record stdin_buffer =
  sb_buffer :: ustr
  sb_pending_since :: "int option"
  sb_paste_mode :: bool
  sb_paste_buffer :: ustr
  sb_kitty :: "int option"

definition stdin_new :: stdin_buffer where
  "stdin_new = \<lparr>sb_buffer = [], sb_pending_since = None, sb_paste_mode = False, sb_paste_buffer = [], sb_kitty = None\<rparr>"

definition emit_data_sequence :: "ustr \<Rightarrow> stdin_buffer \<Rightarrow> stdin_buffer \<times> stdin_event list" where
  "emit_data_sequence sequence b =
     (if length sequence = 1 \<and> sb_kitty b = Some (hd sequence) then (b\<lparr>sb_kitty := None\<rparr>, [])
      else (b\<lparr>sb_kitty := parse_kitty_printable sequence\<rparr>, [DataEvent sequence]))"

fun emit_sequences :: "ustr list \<Rightarrow> stdin_buffer \<Rightarrow> stdin_buffer \<times> stdin_event list" where
  "emit_sequences [] b = (b, [])"
| "emit_sequences (s # ss) b =
     (case emit_data_sequence s b of (b, e) \<Rightarrow> (case emit_sequences ss b of (b, es) \<Rightarrow> (b, e @ es)))"

text \<open>\<^verbatim>\<open>text_slice::suffix_from\<close>: from byte \<open>n\<close> on, moved down to a character.\<close>

fun suffix_from :: "ustr \<Rightarrow> nat \<Rightarrow> ustr" where
  "suffix_from [] n = []"
| "suffix_from (c # s) n = (if utf8_width c \<le> n then suffix_from s (n - utf8_width c) else c # s)"

text \<open>The paste before its end and the input after it, with the end searched from \<open>searched_to\<close> on.\<close>

definition find_paste_end :: "ustr \<Rightarrow> nat \<Rightarrow> (ustr \<times> ustr) option" where
  "find_paste_end pb searched_to =
     (let tail = suffix_from pb (searched_to - (utf8_len paste_end - 1))
      in case find_str tail paste_end of
           None \<Rightarrow> None
         | Some i \<Rightarrow>
             (let end_idx = length pb - length tail + i
              in Some (take end_idx pb, drop (end_idx + length paste_end) pb)))"

definition end_paste :: "stdin_buffer \<Rightarrow> stdin_buffer" where
  "end_paste b = b\<lparr>sb_paste_mode := False, sb_paste_buffer := [], sb_kitty := None\<rparr>"

text \<open>The sequences before a paste; an incomplete tail is emitted too.\<close>

definition emit_before_paste :: "ustr \<Rightarrow> stdin_buffer \<Rightarrow> stdin_buffer \<times> stdin_event list" where
  "emit_before_paste before b =
     (if before = [] then (b, [])
      else (case extract_complete_sequences before of
        (ss, r) \<Rightarrow> emit_sequences (if r = [] then ss else ss @ [r]) b))"

lemma find_paste_end_length: "find_paste_end pb n = Some (p, rest) \<Longrightarrow> length rest < length pb"
proof -
  assume a: "find_paste_end pb n = Some (p, rest)"
  let ?tail = "suffix_from pb (n - (utf8_len paste_end - 1))"
  obtain i where i: "find_str ?tail paste_end = Some i"
    and rest: "rest = drop (length pb - length ?tail + i + length paste_end) pb"
    using a by (auto simp: find_paste_end_def Let_def split: option.splits)
  have le: "length (suffix_from s m) \<le> length s" for s m by (induction s m rule: suffix_from.induct) auto
  have "take (length paste_end) (drop i ?tail) = paste_end" using i by (simp add: find_str_Some)
  then have "i + length paste_end \<le> length ?tail"
    by (metis length_drop length_take min.absorb_iff2 min_def nat_le_linear add.commute le_diff_conv2
        paste_end_def list.size(4) drop_eq_Nil take_Nil list.distinct(1) nle_le)
  with le [of pb "n - (utf8_len paste_end - 1)"] rest show ?thesis by (simp add: paste_end_def)
qed

text \<open>What \<open>process_inner\<close> does with one piece of input, and the input left for the next piece.\<close>

definition paste_or_wait :: "nat \<Rightarrow> stdin_buffer \<Rightarrow> stdin_buffer \<times> stdin_event list \<times> ustr" where
  "paste_or_wait searched_to b =
     (case find_paste_end (sb_paste_buffer b) searched_to of
        None \<Rightarrow> (b, [], [])
      | Some (p, rest) \<Rightarrow> (end_paste b, [PasteEvent p], rest))"

definition process_piece :: "int \<Rightarrow> ustr \<Rightarrow> stdin_buffer \<Rightarrow> stdin_buffer \<times> stdin_event list \<times> ustr" where
  "process_piece now data b =
     (let buffer = sb_buffer b @ data
      in if sb_paste_mode b then
           paste_or_wait (utf8_len (sb_paste_buffer b))
             (b\<lparr>sb_paste_buffer := sb_paste_buffer b @ buffer, sb_buffer := []\<rparr>)
         else (case find_str buffer paste_start of
           Some i \<Rightarrow>
             (case emit_before_paste (take i buffer) b of
                (b, es) \<Rightarrow>
                  (case paste_or_wait 0 (b\<lparr>sb_kitty := None, sb_buffer := [], sb_paste_mode := True,
                            sb_paste_buffer := drop (i + length paste_start) buffer\<rparr>) of
                     (b, es', rest) \<Rightarrow> (b, es @ es', rest)))
         | None \<Rightarrow>
             (case extract_complete_sequences buffer of
                (ss, r) \<Rightarrow>
                  (case emit_sequences ss (b\<lparr>sb_buffer := r\<rparr>) of
                     (b, es) \<Rightarrow> (if r = [] then b else b\<lparr>sb_pending_since := Some now\<rparr>, es, [])))))"

lemma paste_or_wait_rest:
  "paste_or_wait n b = (b', es, rest) \<Longrightarrow> rest \<noteq> [] \<Longrightarrow>
   length rest < length (sb_paste_buffer b) \<and> b' = end_paste b"
  by (auto simp: paste_or_wait_def dest: find_paste_end_length split: option.splits)

lemma process_piece_rest:
  assumes "process_piece now data b = (b', es, rest)" and "rest \<noteq> []"
  shows "length rest + length (sb_buffer b') + length (sb_paste_buffer b')
    < length data + length (sb_buffer b) + length (sb_paste_buffer b)"
proof (cases "sb_paste_mode b")
  case True
  with assms paste_or_wait_rest show ?thesis
    by (fastforce simp: process_piece_def Let_def end_paste_def)
next
  case False
  from assms False obtain i b1 e1 e2 where i: "find_str (sb_buffer b @ data) paste_start = Some i"
    and p: "paste_or_wait 0 (b1\<lparr>sb_kitty := None, sb_buffer := [], sb_paste_mode := True,
        sb_paste_buffer := drop (i + length paste_start) (sb_buffer b @ data)\<rparr>) = (b', e2, rest)"
    by (auto simp: process_piece_def Let_def split: option.splits prod.splits)
  from paste_or_wait_rest [OF p assms(2)] show ?thesis by (auto simp: end_paste_def)
qed

function process_inner :: "int \<Rightarrow> ustr \<Rightarrow> stdin_buffer \<Rightarrow> stdin_buffer \<times> stdin_event list" where
  "process_inner now data b =
     (if data = [] \<and> sb_buffer b = [] then emit_data_sequence [] b
      else (case process_piece now data b of
        (b, es, rest) \<Rightarrow>
          if rest = [] then (b, es)
          else (case process_inner now rest b of (b, es') \<Rightarrow> (b, es @ es'))))"
  by pat_completeness auto
termination
  by (relation "measure (\<lambda>(now, data, b). length data + length (sb_buffer b) + length (sb_paste_buffer b))")
    (auto dest!: process_piece_rest [OF sym])

declare process_inner.simps [simp del]

definition process :: "int \<Rightarrow> ustr \<Rightarrow> stdin_buffer \<Rightarrow> stdin_buffer \<times> stdin_event list" where
  "process now data b = process_inner now data (b\<lparr>sb_pending_since := None\<rparr>)"

definition flush_input :: "int \<Rightarrow> stdin_buffer \<Rightarrow> stdin_buffer \<times> stdin_event list" where
  "flush_input now b =
     (let b = b\<lparr>sb_pending_since := None\<rparr>; buf = sb_buffer b
      in if buf = [] then (b, [])
         else if 2 \<le> length buf \<and> hd buf = ESC \<and> buf ! 1 \<in> {C CHR ''P'', C CHR ''_'', C CHR '']''} then
           (let b = b\<lparr>sb_buffer := [], sb_kitty := None\<rparr>
            in if drop 2 buf = [] then (b, [DataEvent (take 2 buf)])
               else (case process_inner now (drop 2 buf) b of (b, es) \<Rightarrow> (b, DataEvent (take 2 buf) # es)))
         else (b\<lparr>sb_buffer := [], sb_kitty := None\<rparr>, [DataEvent buf]))"

definition poll_timeout :: "int \<Rightarrow> int \<Rightarrow> stdin_buffer \<Rightarrow> stdin_buffer \<times> stdin_event list" where
  "poll_timeout timeout now b =
     (case sb_pending_since b of
        Some since \<Rightarrow> if timeout \<le> now - since then flush_input now b else (b, [])
      | None \<Rightarrow> (b, []))"

definition clear_input :: "stdin_buffer \<Rightarrow> stdin_buffer" where
  "clear_input b = stdin_new"

section \<open>Keys do not depend on how they are read\<close>

lemma next_sequence_append: "next_sequence x = Some n \<Longrightarrow> next_sequence (x @ y) = Some n"
  by (auto simp: next_sequence_def find_upt_Some simp del: upt_Suc)

lemma extract_append:
  "extract_complete_sequences (x @ y) =
     (case extract_complete_sequences x of (ss, r) \<Rightarrow>
       (case extract_complete_sequences (r @ y) of (ss', r') \<Rightarrow> (ss @ ss', r')))"
proof (induction x rule: extract_complete_sequences.induct)
  case (1 x)
  show ?case
  proof (cases "x = []")
    case True
    then show ?thesis by (simp add: extract_complete_sequences.simps [of "[]"])
  next
    case ne: False
    show ?thesis
    proof (cases "hd x = ESC")
      case esc: True
      show ?thesis
      proof (cases "next_sequence x")
        case None
        then show ?thesis by (simp add: extract_complete_sequences.simps [of x] ne esc)
      next
        case (Some n)
        then have n: "n \<le> length x" using next_sequence_bounds by blast
        from "1.IH"(1) [OF ne esc Some] n show ?thesis
          by (simp add: extract_complete_sequences.simps [of x] extract_complete_sequences.simps [of "x @ y"]
              ne esc Some next_sequence_append [OF Some] split: prod.split)
      qed
    next
      case False
      from "1.IH"(2) [OF ne False] show ?thesis
        by (simp add: extract_complete_sequences.simps [of x] extract_complete_sequences.simps [of "x @ y"]
            ne False split: prod.split)
    qed
  qed
qed

lemma extract_keeps: "concat (fst (extract_complete_sequences x)) @ snd (extract_complete_sequences x) = x"
proof (induction x rule: extract_complete_sequences.induct)
  case (1 x)
  show ?case
  proof (cases "x = [] \<or> (hd x = ESC \<and> next_sequence x = None)")
    case True
    then show ?thesis by (auto simp: extract_complete_sequences.simps [of x])
  next
    case False
    show ?thesis
    proof (cases "hd x = ESC")
      case True
      with False obtain n where n: "next_sequence x = Some n" by auto
      from "1.IH"(1) [OF _ True n] False True n show ?thesis
        by (simp add: extract_complete_sequences.simps [of x] split: prod.split) (metis append_take_drop_id fst_conv snd_conv)
    next
      case other: False
      obtain ss r where e: "extract_complete_sequences (tl x) = (ss, r)" by force
      from "1.IH"(2) [OF _ other] False e have "hd x # concat ss @ r = x" by simp
      with False other e show ?thesis by (simp add: extract_complete_sequences.simps [of x])
    qed
  qed
qed

text \<open>Emitting touches only the memory of the last Kitty key.\<close>

fun kitty_run :: "ustr list \<Rightarrow> int option \<Rightarrow> int option \<times> stdin_event list" where
  "kitty_run [] k = (k, [])"
| "kitty_run (s # ss) k =
     (if length s = 1 \<and> k = Some (hd s) then kitty_run ss None
      else (case kitty_run ss (parse_kitty_printable s) of (k', es) \<Rightarrow> (k', DataEvent s # es)))"

lemma emit_sequences_eq:
  "emit_sequences ss b = (b\<lparr>sb_kitty := fst (kitty_run ss (sb_kitty b))\<rparr>, snd (kitty_run ss (sb_kitty b)))"
  by (induction ss arbitrary: b) (simp_all add: emit_data_sequence_def split: prod.split)

lemma kitty_run_append:
  "kitty_run (xs @ ys) k = (case kitty_run xs k of (k, es) \<Rightarrow> (case kitty_run ys k of (k, es') \<Rightarrow> (k, es @ es')))"
  by (induction xs arbitrary: k) (auto split: prod.split)

text \<open>Key input: no paste is open and none starts.\<close>

lemma process_keys:
  assumes "\<not> sb_paste_mode b" and "\<not> sublist paste_start (sb_buffer b @ data)" and "data \<noteq> []"
  shows "process_inner now data b =
     (case extract_complete_sequences (sb_buffer b @ data) of (ss, r) \<Rightarrow>
       (case kitty_run ss (sb_kitty b) of (k, es) \<Rightarrow>
         (b\<lparr>sb_buffer := r, sb_kitty := k, sb_pending_since := (if r = [] then sb_pending_since b else Some now)\<rparr>, es)))"
  using assms
  by (subst process_inner.simps)
    (simp add: process_piece_def Let_def find_str_None [THEN iffD2] emit_sequences_eq split: prod.split)

text \<open>
  C34: Key input that holds no paste gives the same events and the same state whether it is read
  at once or in two pieces with no timer tick between them.
\<close>

theorem keys_chunk_independent:
  assumes "\<not> sb_paste_mode b" and "\<not> sublist paste_start (sb_buffer b @ x @ y)" and "x \<noteq> []" and "y \<noteq> []"
  shows "process now (x @ y) b =
    (case process now x b of (b1, es1) \<Rightarrow> (case process now y b1 of (b2, es2) \<Rightarrow> (b2, es1 @ es2)))"
proof -
  obtain ss r where x: "extract_complete_sequences (sb_buffer b @ x) = (ss, r)" by force
  obtain ss' r' where y: "extract_complete_sequences (r @ y) = (ss', r')" by force
  have "concat ss @ r = sb_buffer b @ x" using extract_keeps [of "sb_buffer b @ x"] x by simp
  then have split: "sb_buffer b @ x @ y = concat ss @ r @ y" by (metis append.assoc)
  have "sublist (r @ y) (sb_buffer b @ x @ y)"
    unfolding split sublist_def by (intro exI [of _ "concat ss"] exI [of _ "[]"]) simp
  moreover have "sublist (sb_buffer b @ x) (sb_buffer b @ x @ y)"
    unfolding sublist_def by (intro exI [of _ "[]"] exI [of _ y]) simp
  ultimately have none: "\<not> sublist paste_start (r @ y)" "\<not> sublist paste_start (sb_buffer b @ x)"
    using assms(2) by (meson sublist_order.order_trans)+
  have xy: "extract_complete_sequences (sb_buffer b @ x @ y) = (ss @ ss', r')"
    using extract_append [of "sb_buffer b @ x" y] x y by simp
  show ?thesis
    using assms none x y xy
    by (cases "r = []") (simp_all add: process_def process_keys kitty_run_append split: prod.split)
qed

text \<open>Every character of key input comes out, is still held, or repeats a Kitty key just reported.\<close>

fun event_text :: "stdin_event \<Rightarrow> ustr" where
  "event_text (DataEvent s) = s"
| "event_text (PasteEvent s) = s"

lemma kitty_run_text:
  "\<forall>s \<in> set ss. parse_kitty_printable s = None \<Longrightarrow> k = None \<Longrightarrow>
   concat (map event_text (snd (kitty_run ss k))) = concat ss \<and> fst (kitty_run ss k) = None"
  by (induction ss arbitrary: k) (auto split: prod.split)

text \<open>
  No key byte is lost: the texts of the events and the held rest are the input, when no Kitty
  key is involved.
\<close>

theorem keys_conserved:
  assumes "\<not> sb_paste_mode b" and "\<not> sublist paste_start (sb_buffer b @ x)" and "x \<noteq> []" and "sb_kitty b = None"
    and "\<forall>s \<in> set (fst (extract_complete_sequences (sb_buffer b @ x))). parse_kitty_printable s = None"
  shows "concat (map event_text (snd (process now x b))) @ sb_buffer (fst (process now x b)) = sb_buffer b @ x"
proof -
  obtain ss r where e: "extract_complete_sequences (sb_buffer b @ x) = (ss, r)" by force
  with extract_keeps [of "sb_buffer b @ x"] kitty_run_text [of ss None] assms show ?thesis
    by (auto simp: process_def process_keys split: prod.split)
qed

section \<open>The search for the end of a paste\<close>

lemma suffix_from_drop: "suffix_from s n = drop (length s - length (suffix_from s n)) s"
proof (induction s n rule: suffix_from.induct)
  case (2 c s n)
  have "length (suffix_from s m) \<le> length s" for m by (induction s m rule: suffix_from.induct) auto
  with 2 show ?case by (auto simp: Suc_diff_le)
qed simp

text \<open>The window starts at or before every character that is not before byte \<open>n\<close>.\<close>

lemma suffix_from_starts: "n \<le> utf8_len (take i s) \<Longrightarrow> length s - length (suffix_from s n) \<le> i"
proof (induction s n arbitrary: i rule: suffix_from.induct)
  case (2 c s n)
  show ?case
  proof (cases "utf8_width c \<le> n")
    case True
    with "2.prems" obtain j where j: "i = Suc j" using utf8_width_pos(1) [of c] by (cases i) auto
    with "2.prems" have "n - utf8_width c \<le> utf8_len (take j s)" by simp
    from "2.IH" [OF True this] True j show ?thesis by simp
  qed simp
qed simp

lemma paste_end_ascii: "utf8_len (take m paste_end) \<le> m"
  by (cases m; cases "m - 1"; cases "m - 2"; cases "m - 3"; cases "m - 4")
    (auto simp: paste_end_def utf8_width_def take_Cons split: nat.split)

lemma length_paste_end [simp]: "length paste_end = 6" "utf8_len paste_end = 6"
  by (simp_all add: paste_end_def utf8_width_def)

text \<open>An end marker that reaches beyond the searched text starts at most five bytes before its end.\<close>

lemma marker_in_window:
  assumes "\<not> sublist paste_end old" and "take 6 (drop i (old @ x)) = paste_end"
  shows "utf8_len old - 5 \<le> utf8_len (take i (old @ x))"
proof (cases "length old \<le> i")
  case True
  then show ?thesis by simp
next
  case False
  have "length old < i + 6"
  proof (rule ccontr)
    assume "\<not> length old < i + 6"
    then have "take 6 (drop i old) = paste_end" using assms(2) by simp
    then have "old = take i old @ paste_end @ drop 6 (drop i old)" by (metis append_take_drop_id)
    with assms(1) show False unfolding sublist_def by blast
  qed
  have "take (length old - i) (take 6 (drop i (old @ x))) = take (length old - i) (drop i (old @ x))"
    using \<open>length old < i + 6\<close> by (simp only: take_take) (simp add: min_def)
  then have "drop i old = take (length old - i) (take 6 (drop i (old @ x)))" using False by simp
  then have d: "drop i old = take (length old - i) paste_end" by (simp only: assms(2))
  have "utf8_len old = utf8_len (take i old) + utf8_len (drop i old)"
    by (metis append_take_drop_id utf8_len_simps(3))
  moreover have "utf8_len (drop i old) \<le> 5"
    unfolding d using paste_end_ascii [of "length old - i"] \<open>length old < i + 6\<close> False by linarith
  ultimately show ?thesis using False by simp
qed

text \<open>
  Searching the end of a paste from five bytes before the newly read text on finds the same
  end as searching the whole paste.
\<close>

theorem paste_end_window:
  assumes "\<not> sublist paste_end old"
  shows "find_paste_end (old @ x) (utf8_len old) = find_paste_end (old @ x) 0"
proof -
  let ?pb = "old @ x" and ?tail = "suffix_from (old @ x) (utf8_len old - 5)"
  define k where "k = length ?pb - length ?tail"
  have tail: "?tail = drop k ?pb" unfolding k_def by (rule suffix_from_drop)
  have before: "k \<le> i" if "take 6 (drop i ?pb) = paste_end" for i
    unfolding k_def by (rule suffix_from_starts [OF marker_in_window [OF assms that]])
  have zero: "suffix_from ?pb 0 = ?pb" by (cases ?pb) auto
  show ?thesis
  proof (cases "find_str ?pb paste_end")
    case None
    then have "find_str ?tail paste_end = None"
      unfolding tail find_str_None by (meson sublist_drop sublist_order.order_trans)
    with None show ?thesis by (simp add: find_paste_end_def Let_def zero)
  next
    case (Some i)
    then have i: "i \<le> length ?pb" "take 6 (drop i ?pb) = paste_end" "\<forall>j < i. take 6 (drop j ?pb) \<noteq> paste_end"
      by (simp_all add: find_str_Some del: length_append)
    have "k \<le> i" by (rule before [OF i(2)])
    then have "find_str ?tail paste_end = Some (i - k)"
      unfolding tail find_str_Some using i by (auto simp del: drop_append length_append)
    moreover have "length ?pb - length ?tail = k" using k_def by simp
    ultimately show ?thesis using Some \<open>k \<le> i\<close>
      by (simp add: find_paste_end_def Let_def zero del: drop_append take_append length_append)
  qed
qed

section \<open>A paste does not depend on how it is read\<close>

text \<open>
  The bytes of a paste are the start marker, its text and the end marker. \<open>pasting b w\<close>: the
  part \<open>w\<close> of them has been read into \<open>b\<close>.
\<close>

definition pasting :: "stdin_buffer \<Rightarrow> ustr \<Rightarrow> bool" where
  "pasting b w \<longleftrightarrow>
     (if length w < 6 then \<not> sb_paste_mode b \<and> sb_buffer b = w \<and> sb_paste_buffer b = []
      else sb_paste_mode b \<and> sb_buffer b = [] \<and> sb_paste_buffer b = drop 6 w)"

definition input_idle :: "stdin_buffer \<Rightarrow> bool" where
  "input_idle b \<longleftrightarrow> \<not> sb_paste_mode b \<and> sb_buffer b = [] \<and> sb_paste_buffer b = []"

lemma length_paste_start [simp]: "length paste_start = 6"
  by (simp add: paste_start_def)

lemma marker_part_held:
  assumes "k < 6"
  shows "extract_complete_sequences (take k paste_start) = ([], take k paste_start)"
proof -
  have "k \<in> {0, 1, 2, 3, 4, 5}" using assms by auto
  then have "take k paste_start = [] \<or> next_sequence (take k paste_start) = None"
    by (auto simp: paste_start_def next_sequence_def is_complete_sequence_def is_complete_csi_sequence_def
        Let_def C_def upt_rec numeral_nat)
  moreover have "take k paste_start = [] \<or> hd (take k paste_start) = ESC" by (cases k) (simp_all add: paste_start_def)
  ultimately show ?thesis by (subst extract_complete_sequences.simps) auto
qed

lemma process_opening:
  assumes "pasting b (take k paste_start)" and "take k paste_start @ d = take j paste_start" and "j < 6" and "d \<noteq> []"
  shows "\<exists>b'. process_inner now d b = (b', []) \<and> pasting b' (take j paste_start)"
proof -
  have len: "length (take k paste_start) < 6" using assms(2,3) by (metis length_append length_take le_add1 order_le_less_trans min_less_iff_disj)
  then have b: "\<not> sb_paste_mode b" "sb_buffer b = take k paste_start" "sb_paste_buffer b = []"
    using assms(1) unfolding pasting_def if_P [OF len] by blast+
  have "\<not> sublist paste_start (take j paste_start)"
    using assms(3) by (auto dest: sublist_length_le)
  then show ?thesis
    using assms b marker_part_held [OF assms(3)]
    by (auto simp: process_keys pasting_def intro!: exI)
qed

lemma find_end:
  assumes "\<not> sublist paste_end (q @ butlast paste_end)"
  shows "find_str (q @ paste_end @ rest) paste_end = Some (length q)"
proof -
  have "take 6 (drop j (q @ paste_end @ rest)) \<noteq> paste_end" if "j < length q" for j
  proof
    assume a: "take 6 (drop j (q @ paste_end @ rest)) = paste_end"
    have "take 6 (drop j (q @ butlast paste_end)) = take 6 (drop j (q @ paste_end @ rest))"
      using that by (simp add: butlast_conv_take)
    with a have "q @ butlast paste_end = take j (q @ butlast paste_end) @ paste_end @ drop 6 (drop j (q @ butlast paste_end))"
      by (metis append_take_drop_id)
    with assms show False unfolding sublist_def by metis
  qed
  then show ?thesis by (simp add: find_str_Some)
qed

text \<open>Reading on inside the paste.\<close>

lemma find_paste_end_zero:
  "find_paste_end pb 0 = (case find_str pb paste_end of None \<Rightarrow> None | Some i \<Rightarrow> Some (take i pb, drop (i + 6) pb))"
proof -
  have "suffix_from pb 0 = pb" by (cases pb) auto
  then show ?thesis by (simp add: find_paste_end_def Let_def split: option.split)
qed

lemma process_inside:
  assumes "sb_paste_mode b" and "sb_buffer b = []" and "\<not> sublist paste_end (sb_paste_buffer b)" and "d \<noteq> []"
    and "find_paste_end (sb_paste_buffer b @ d) 0 = r"
  shows "r = None \<Longrightarrow> process_inner now d b = (b\<lparr>sb_paste_buffer := sb_paste_buffer b @ d\<rparr>, [])"
    and "r = Some (q, []) \<Longrightarrow> process_inner now d b = (end_paste b, [PasteEvent q])"
  using assms paste_end_window [OF assms(3), of d]
  by (subst process_inner.simps, simp add: process_piece_def Let_def paste_or_wait_def end_paste_def)+

lemma process_starts:
  assumes "\<not> sb_paste_mode b" and "sb_buffer b @ d = paste_start @ p" and "d \<noteq> []" and "find_paste_end p 0 = r"
  shows "r = None \<Longrightarrow> process_inner now d b =
      (b\<lparr>sb_kitty := None, sb_buffer := [], sb_paste_mode := True, sb_paste_buffer := p\<rparr>, [])"
    and "r = Some (q, []) \<Longrightarrow> \<exists>b'. process_inner now d b = (b', [PasteEvent q]) \<and> input_idle b'"
proof -
  have "find_str (paste_start @ p) paste_start = Some 0" by (simp add: find_str_Some)
  with assms show "r = None \<Longrightarrow> process_inner now d b =
      (b\<lparr>sb_kitty := None, sb_buffer := [], sb_paste_mode := True, sb_paste_buffer := p\<rparr>, [])"
    "r = Some (q, []) \<Longrightarrow> \<exists>b'. process_inner now d b = (b', [PasteEvent q]) \<and> input_idle b'"
    by (subst process_inner.simps, simp add: process_piece_def Let_def paste_or_wait_def emit_before_paste_def
        end_paste_def input_idle_def)+
qed

definition paste_bytes :: "ustr \<Rightarrow> ustr" where
  "paste_bytes q = paste_start @ q @ paste_end"

lemma proper_part_open:
  assumes "\<not> sublist paste_end (q @ butlast paste_end)" and "prefix p (q @ paste_end)"
  shows "p \<noteq> q @ paste_end \<Longrightarrow> \<not> sublist paste_end p \<and> find_paste_end p 0 = None"
    and "p = q @ paste_end \<Longrightarrow> find_paste_end p 0 = Some (q, [])"
proof -
  show "find_paste_end p 0 = Some (q, [])" if "p = q @ paste_end"
    using find_end [OF assms(1), of "[]"] that by (simp add: find_paste_end_zero)
  show "\<not> sublist paste_end p \<and> find_paste_end p 0 = None" if "p \<noteq> q @ paste_end"
  proof -
    have "prefix p (butlast (q @ paste_end))"
      using assms(2) that by (metis append_butlast_last_id prefix_snoc append_is_Nil_conv paste_end_def list.distinct(1))
    moreover have "butlast (q @ paste_end) = q @ butlast paste_end"
      by (simp add: butlast_append paste_end_def)
    ultimately have "sublist p (q @ butlast paste_end)" by (metis prefix_imp_sublist)
    with assms(1) have "\<not> sublist paste_end p" by (meson sublist_order.order_trans)
    then show ?thesis by (simp add: find_paste_end_zero find_str_None [THEN iffD2])
  qed
qed

lemma short_part: "prefix x (paste_bytes q) \<Longrightarrow> length x < 6 \<Longrightarrow> take (length x) paste_start = x"
proof -
  assume a: "prefix x (paste_bytes q)" "length x < 6"
  then have "take (length x) (paste_bytes q) = x" by (auto simp: prefix_def)
  with a(2) show ?thesis by (simp add: paste_bytes_def)
qed

lemma long_part:
  assumes "prefix x (paste_bytes q)" and "6 \<le> length x"
  obtains p where "x = paste_start @ p" "prefix p (q @ paste_end)"
proof -
  from assms(1) obtain y where y: "paste_start @ q @ paste_end = x @ y" by (auto simp: paste_bytes_def prefix_def)
  then have "take 6 x = paste_start" using assms(2) by (metis append_eq_conv_conj length_paste_start take_append
      diff_is_0_eq' take0 append_Nil2)
  then have x: "x = paste_start @ drop 6 x" by (metis append_take_drop_id)
  with y have "q @ paste_end = drop 6 x @ y" by (metis append.assoc same_append_eq)
  with x that show ?thesis by (metis prefixI)
qed

lemma paste_piece:
  assumes "\<not> sublist paste_end (q @ butlast paste_end)" and "pasting b w" and "prefix (w @ d) (paste_bytes q)" and "d \<noteq> []"
  shows "if w @ d = paste_bytes q then \<exists>b'. process_inner now d b = (b', [PasteEvent q]) \<and> input_idle b'
    else \<exists>b'. process_inner now d b = (b', []) \<and> pasting b' (w @ d)"
proof -
  consider (early) "length (w @ d) < 6" | (starting) "length w < 6" "6 \<le> length (w @ d)" | (within) "6 \<le> length w"
    by linarith
  then show ?thesis
  proof cases
    case early
    have "prefix w (paste_bytes q)" using assms(3) by (rule append_prefixD)
    then have w: "take (length w) paste_start = w" using early by (intro short_part) auto
    have wd: "take (length (w @ d)) paste_start = w @ d" using assms(3) early by (rule short_part)
    have "w @ d \<noteq> paste_bytes q" using early by (auto simp: paste_bytes_def dest: arg_cong [where f = length])
    moreover have "\<exists>b'. process_inner now d b = (b', []) \<and> pasting b' (take (length (w @ d)) paste_start)"
      by (rule process_opening [where k = "length w"]) (use assms(2,4) w wd early in \<open>simp_all only: w wd, auto\<close>)
    ultimately show ?thesis using wd by simp
  next
    case starting
    obtain p where p: "w @ d = paste_start @ p" "prefix p (q @ paste_end)"
      using long_part [OF assms(3) starting(2)] .
    have b: "\<not> sb_paste_mode b" "sb_buffer b = w" using assms(2) starting(1) by (simp_all add: pasting_def)
    have eq: "w @ d = paste_bytes q \<longleftrightarrow> p = q @ paste_end" by (simp add: p(1) paste_bytes_def)
    show ?thesis
    proof (cases "p = q @ paste_end")
      case True
      with process_starts(2) [OF b(1) _ assms(4) proper_part_open(2) [OF assms(1) p(2) True] refl] p b eq show ?thesis by simp
    next
      case False
      with proper_part_open(1) [OF assms(1) p(2)] process_starts(1) [OF b(1) _ assms(4) _ refl] p b eq show ?thesis
        by (auto simp: pasting_def)
    qed
  next
    case within
    let ?p = "drop 6 w"
    have b: "sb_paste_mode b" "sb_buffer b = []" "sb_paste_buffer b = ?p"
      using assms(2) within by (simp_all add: pasting_def)
    have "prefix w (paste_bytes q)" using assms(3) by (rule append_prefixD)
    then have w: "w = paste_start @ ?p" using within by (elim long_part) auto
    have pd: "prefix (?p @ d) (q @ paste_end)"
      using assms(3) w unfolding paste_bytes_def by (metis append.assoc same_prefix_prefix)
    have "?p \<noteq> q @ paste_end" using pd assms(4) by (auto simp: prefix_def)
    then have open_p: "\<not> sublist paste_end (sb_paste_buffer b)"
      using proper_part_open(1) [OF assms(1) append_prefixD [OF pd]] b(3) by simp
    have eq: "w @ d = paste_bytes q \<longleftrightarrow> ?p @ d = q @ paste_end"
      by (subst w) (simp add: paste_bytes_def)
    show ?thesis
    proof (cases "?p @ d = q @ paste_end")
      case True
      with process_inside(2) [OF b(1,2) open_p assms(4)] proper_part_open(2) [OF assms(1) pd True] b eq show ?thesis
        by (auto simp: input_idle_def end_paste_def)
    next
      case False
      with process_inside(1) [OF b(1,2) open_p assms(4)] proper_part_open(1) [OF assms(1) pd] b eq within show ?thesis
        by (auto simp: pasting_def)
    qed
  qed
qed

text \<open>
  What the reader does one after the other: a read, decoded, with its time, and a tick of the
  timer (\<^verbatim>\<open>Feed::tick\<close> of \<^verbatim>\<open>stdin_hub.rs\<close>), which flushes what is held when it is old enough.
\<close>

datatype reader_event = Read int ustr | Tick int

fun run_reader :: "int \<Rightarrow> reader_event list \<Rightarrow> stdin_buffer \<Rightarrow> stdin_buffer \<times> stdin_event list" where
  "run_reader timeout [] b = (b, [])"
| "run_reader timeout (Read now d # evs) b =
     (case process now d b of (b, es) \<Rightarrow> (case run_reader timeout evs b of (b, es') \<Rightarrow> (b, es @ es')))"
| "run_reader timeout (Tick now # evs) b =
     (case poll_timeout timeout now b of (b, es) \<Rightarrow> (case run_reader timeout evs b of (b, es') \<Rightarrow> (b, es @ es')))"

fun reads_of :: "reader_event list \<Rightarrow> ustr list" where
  "reads_of [] = []"
| "reads_of (Read now d # evs) = d # reads_of evs"
| "reads_of (Tick now # evs) = reads_of evs"

text \<open>
  No tick comes a whole timeout after the last read while the start marker is read in part;
  \<open>w\<close> is what has been read of the paste, \<open>since\<close> the time of the last read.
\<close>

fun marker_in_time :: "int \<Rightarrow> ustr \<Rightarrow> int \<Rightarrow> reader_event list \<Rightarrow> bool" where
  "marker_in_time timeout w since [] = True"
| "marker_in_time timeout w since (Read now d # evs) = marker_in_time timeout (w @ d) now evs"
| "marker_in_time timeout w since (Tick now # evs) =
     ((w \<noteq> [] \<and> length w < length paste_start \<longrightarrow> now - since < timeout) \<and> marker_in_time timeout w since evs)"

lemma pasting_time [simp]: "pasting (b\<lparr>sb_pending_since := t\<rparr>) w = pasting b w"
  by (simp add: pasting_def)

text \<open>When an incomplete sequence is held, its time is that of the last read; a paste holds none.\<close>

lemma emit_pending: "emit_sequences ss b = (b', es) \<Longrightarrow>
   sb_pending_since b' = sb_pending_since b \<and> sb_buffer b' = sb_buffer b \<and> sb_paste_mode b' = sb_paste_mode b"
  by (auto simp: emit_sequences_eq split: prod.splits)

lemma paste_or_wait_pending: "paste_or_wait n b = (b', es, rest) \<Longrightarrow>
   sb_pending_since b' = sb_pending_since b \<and> sb_buffer b' = sb_buffer b"
  by (auto simp: paste_or_wait_def end_paste_def split: option.splits)

lemma before_pending: "emit_before_paste before b = (b', es) \<Longrightarrow> sb_pending_since b' = sb_pending_since b"
  by (auto simp: emit_before_paste_def dest: emit_pending split: prod.splits if_splits)

lemma piece_pending:
  assumes "process_piece now d b = (b', es, rest)"
  shows "(if sb_buffer b' \<noteq> [] then sb_pending_since b' = Some now else sb_pending_since b' = sb_pending_since b)
    \<and> (rest \<noteq> [] \<longrightarrow> sb_buffer b' = [])"
proof (cases "sb_paste_mode b")
  case True
  with assms paste_or_wait_pending show ?thesis by (fastforce simp: process_piece_def Let_def)
next
  case False
  show ?thesis
  proof (cases "find_str (sb_buffer b @ d) paste_start")
    case None
    with assms False show ?thesis
      by (auto simp: process_piece_def Let_def dest: emit_pending split: prod.splits if_splits)
  next
    case (Some i)
    with assms False show ?thesis
      by (fastforce simp: process_piece_def Let_def dest: before_pending paste_or_wait_pending split: prod.splits)
  qed
qed

lemma inner_pending:
  "process_inner now d b = (b', es) \<Longrightarrow>
   (if sb_buffer b' \<noteq> [] then sb_pending_since b' = Some now else sb_pending_since b' = sb_pending_since b)"
proof (induction now d b arbitrary: b' es rule: process_inner.induct)
  case (1 now d b)
  show ?case
  proof (cases "d = [] \<and> sb_buffer b = []")
    case True
    with "1.prems" show ?thesis
      by (subst (asm) process_inner.simps) (auto simp: emit_data_sequence_def split: if_splits)
  next
    case False
    obtain b1 e1 rest where piece: "process_piece now d b = (b1, e1, rest)"
      by (cases "process_piece now d b")
    note p = piece_pending [OF piece]
    show ?thesis
    proof (cases "rest = []")
      case True
      with "1.prems" False piece p show ?thesis by (subst (asm) process_inner.simps) auto
    next
      case ne: False
      with "1.prems" False piece obtain e2 where e2: "process_inner now rest b1 = (b', e2)"
        by (subst (asm) process_inner.simps) (auto split: prod.splits)
      from "1.IH" [OF False piece [symmetric] refl ne e2] p ne show ?thesis by (auto split: if_splits)
    qed
  qed
qed

lemma process_pending:
  assumes "process now d b = (b', es)" and "pasting b' w"
  shows "sb_pending_since b' = (if w \<noteq> [] \<and> length w < 6 then Some now else None)"
  using assms inner_pending [of now d "b\<lparr>sb_pending_since := None\<rparr>" b' es]
  by (auto simp: process_def pasting_def split: if_splits)

text \<open>A tick of the timer during a paste, when the start marker is not overdue.\<close>

lemma tick_pasting:
  assumes "pasting b w" and "w \<noteq> [] \<longrightarrow> sb_pending_since b = (if length w < 6 then Some since else None)"
    and "w \<noteq> [] \<and> length w < 6 \<longrightarrow> now - since < timeout"
  shows "\<exists>b'. poll_timeout timeout now b = (b', []) \<and> pasting b' w
    \<and> (w \<noteq> [] \<longrightarrow> sb_pending_since b' = (if length w < 6 then Some since else None))"
proof (cases "w = []")
  case True
  with assms(1) show ?thesis
    by (auto simp: poll_timeout_def flush_input_def pasting_def Let_def split: option.split)
next
  case False
  with assms show ?thesis by (auto simp: poll_timeout_def)
qed

lemma tick_idle: "input_idle b \<Longrightarrow> \<exists>b'. poll_timeout timeout now b = (b', []) \<and> input_idle b'"
  by (auto simp: poll_timeout_def flush_input_def input_idle_def Let_def split: option.split)

lemma ticks_idle:
  "reads_of evs = [] \<Longrightarrow> input_idle b \<Longrightarrow> \<exists>b'. run_reader timeout evs b = (b', []) \<and> input_idle b'"
proof (induction evs arbitrary: b)
  case (Cons e evs)
  then obtain now where "e = Tick now" by (cases e) auto
  with Cons tick_idle [of b timeout now] show ?case by fastforce
qed simp

lemma paste_rest:
  assumes "\<not> sublist paste_end (q @ butlast paste_end)"
  shows "pasting b w \<Longrightarrow> w \<noteq> [] \<longrightarrow> sb_pending_since b = (if length w < 6 then Some since else None) \<Longrightarrow>
    w @ concat (reads_of evs) = paste_bytes q \<Longrightarrow> w \<noteq> paste_bytes q \<Longrightarrow> \<forall>d \<in> set (reads_of evs). d \<noteq> [] \<Longrightarrow>
    marker_in_time timeout w since evs \<Longrightarrow>
    \<exists>b'. run_reader timeout evs b = (b', [PasteEvent q]) \<and> input_idle b'"
proof (induction evs arbitrary: b w since)
  case (Cons e evs)
  show ?case
  proof (cases e)
    case (Tick now)
    with tick_pasting [OF Cons.prems(1,2), of now timeout] Cons.prems(6) obtain b' where
      "poll_timeout timeout now b = (b', [])" "pasting b' w"
      "w \<noteq> [] \<longrightarrow> sb_pending_since b' = (if length w < 6 then Some since else None)" by auto
    with Cons.IH [of b' w since] Cons.prems Tick show ?thesis by auto
  next
    case (Read now d)
    have pre: "prefix (w @ d) (paste_bytes q)" using Cons.prems(3) Read by (simp add: prefix_def) (metis append.assoc)
    have d: "d \<noteq> []" using Cons.prems(5) Read by simp
    note piece = paste_piece [OF assms _ pre d, of "b\<lparr>sb_pending_since := None\<rparr>" now]
    show ?thesis
    proof (cases "w @ d = paste_bytes q")
      case True
      then have "concat (reads_of evs) = []" using Cons.prems(3) Read
        by (metis append.assoc append_self_conv concat.simps(2) reads_of.simps(2))
      then have "reads_of evs = []" using Cons.prems(5) Read by (cases "reads_of evs") auto
      moreover obtain b' where "process now d b = (b', [PasteEvent q])" "input_idle b'"
        using True piece Cons.prems(1) by (auto simp: process_def)
      ultimately show ?thesis using ticks_idle [of evs b' timeout] Read by auto
    next
      case False
      with piece Cons.prems(1) obtain b' where b': "process now d b = (b', [])" "pasting b' (w @ d)"
        by (auto simp: process_def)
      from Cons.IH [OF b'(2) _ _ False, of now] process_pending [OF b'] d Cons.prems(3,5,6) Read obtain c where
        "run_reader timeout evs b' = (c, [PasteEvent q])" "input_idle c" by auto
      with b'(1) Read show ?thesis by simp
    qed
  qed
qed simp

text \<open>
  C33: A bracketed paste read in any number of pieces comes out as one paste event with exactly
  its text, and the buffer is idle after it. The buffer is idle before it (no paste open and no
  incomplete sequence held), the pieces are not empty, the pasted text does not contain the end
  marker (nor a part that makes one with it), and the timer may tick at any time between the reads,
  except that no tick comes a whole timeout after a read that ends inside the start marker.
\<close>

theorem paste_chunk_independent:
  assumes "input_idle b" and "concat (reads_of evs) = paste_start @ q @ paste_end" and "[] \<notin> set (reads_of evs)"
    and "\<not> sublist paste_end (q @ butlast paste_end)" and "marker_in_time timeout [] since evs"
  shows "\<exists>b'. run_reader timeout evs b = (b', [PasteEvent q]) \<and> input_idle b'"
proof (rule paste_rest [OF assms(4), of b "[]" since])
  show "pasting b []" using assms(1) by (simp add: pasting_def input_idle_def)
  show "[] @ concat (reads_of evs) = paste_bytes q" using assms(2) by (simp add: paste_bytes_def)
  show "[] \<noteq> paste_bytes q" by (simp add: paste_bytes_def paste_start_def)
  show "\<forall>d \<in> set (reads_of evs). d \<noteq> []" using assms(3) by metis
  show "marker_in_time timeout [] since evs" by (rule assms(5))
qed simp

section \<open>Samples\<close>

theorem paste_chunk_independent_witness:
  "\<exists>b'. run_reader 10 [Tick 0, Read 1 [27, 91, 50], Tick 9, Read 10 [48, 48, 126, 233, 27, 91], Tick 40,
       Read 50 [50, 48, 49], Read 90 [126], Tick 110] stdin_new
     = (b', [PasteEvent [233]]) \<and> input_idle b'"
proof (rule paste_chunk_independent [where since = 0])
  show "\<not> sublist paste_end ([233] @ butlast paste_end)"
    by (auto dest: sublist_length_le simp: paste_end_def sublist_Cons_right)
qed (simp_all add: input_idle_def stdin_new_def paste_start_def paste_end_def)

theorem keys_chunk_independent_witness:
  "process 0 ([27, 91] @ [65]) stdin_new =
    (case process 0 [27, 91] stdin_new of (b1, es1) \<Rightarrow> (case process 0 [65] b1 of (b2, es2) \<Rightarrow> (b2, es1 @ es2)))"
  by (rule keys_chunk_independent)
    (auto simp: stdin_new_def paste_start_def dest: sublist_length_le)

text \<open>
  An Escape key right before a paste: when the read ends after the first byte of the marker the
  two escapes make one sequence, and the paste is read as keys.
\<close>

lemma split_marker_is_keys:
  "snd (run_reader 10 [Read 0 [27, 27], Read 1 ([91, 50, 48, 48, 126, 120] @ paste_end)] stdin_new) =
     map DataEvent [[27, 27], [91], [50], [48], [48], [126], [120], paste_end]
   \<and> snd (process 0 ([27, 27, 91, 50, 48, 48, 126, 120] @ paste_end) stdin_new) = [DataEvent [27], PasteEvent [120]]"
  by (rule conjI; code_simp)

text \<open>
  A start marker that comes in two reads more than a timeout apart: the timer gives up the part
  that is held, and the pasted text is read as keys.
\<close>

lemma slow_marker_is_keys:
  "snd (run_reader 10 [Read 0 [27, 91, 50], Tick 10, Read 11 ([48, 48, 126, 120] @ paste_end)] stdin_new) =
     map DataEvent [[27, 91, 50], [48], [48], [126], [120], paste_end]"
  by code_simp

end
