(* ===== verification/Subagent_Pool.thy ===== *)
theory Subagent_Pool
  imports Json "HOL-Library.Multiset"
begin

text \<open>
  The pool of subagents (\<^verbatim>\<open>crates/hoocode-code-subagents/src/pool.rs\<close>): admission, the queue
  with its ageing priority, the way of a task from the queue to a child process, cancelling,
  settling with the retry on the caller's model, waiting and disposal. The pool's methods run
  on many threads and meet in one mutex: \<open>pool_work\<close> takes one critical section of one thread
  at a time, \<open>pool_call\<close> is a call from outside. Parameters: agent definitions, token budgets, the
  pattern of errors another model may fix, JSON printing, and what a child process does.
\<close>

section \<open>Tasks and results\<close>

datatype agent_source = Builtin_Agent | User_Agent | Project_Agent | Claude_User_Agent | Claude_Project_Agent

text \<open>The fields of an agent definition the pool's scheduling reads.\<close>

record agent_definition =
  ad_source :: agent_source
  ad_model :: "ustr option"
  ad_token_budget :: "nat option"

record pool_env =
  pe_max_concurrency :: nat
  pe_max_queued :: nat
  pe_max_completed :: nat
  pe_definition :: "ustr \<Rightarrow> agent_definition option"
  pe_token_budget_for :: "ustr \<Rightarrow> nat option \<Rightarrow> nat"
  pe_fallback_error :: "ustr \<Rightarrow> bool"
  pe_json_text :: "jobject \<Rightarrow> ustr"

record pool_task =
  pt_id :: ustr
  pt_agent_type :: ustr
  pt_token_budget :: "nat option"
  pt_inherited_model :: "ustr option"
  pt_session_file :: "ustr option"
  pt_fallback :: bool
  pt_queued_at :: "nat option"

datatype result_status =
  Result_Complete | Result_Partial | Result_Failed | Result_Stalled | Result_Timeout | Result_Cancelled

record subagent_result =
  sr_task_id :: ustr
  sr_ok :: bool
  sr_stdout :: ustr
  sr_stderr :: ustr
  sr_exit_code :: "int option"
  sr_error :: "ustr option"
  sr_budget_exceeded :: "bool option"
  sr_status :: "result_status option"
  sr_result_data :: "jobject option"
  sr_used_fallback :: "bool option"

definition default_result :: "ustr \<Rightarrow> subagent_result" where
  "default_result i = \<lparr>sr_task_id = i, sr_ok = False, sr_stdout = [], sr_stderr = [], sr_exit_code = None,
     sr_error = None, sr_budget_exceeded = None, sr_status = None, sr_result_data = None, sr_used_fallback = None\<rparr>"

datatype pool_task_status =
  Task_Running | Task_Queued | Task_Done | Task_Failed | Task_Stalled | Task_Timeout | Task_Cancelled | Task_Unknown

definition status_of_result :: "subagent_result \<Rightarrow> pool_task_status" where
  "status_of_result r =
     (case sr_status r of
        Some Result_Stalled \<Rightarrow> Task_Stalled
      | Some Result_Timeout \<Rightarrow> Task_Timeout
      | Some Result_Cancelled \<Rightarrow> Task_Cancelled
      | _ \<Rightarrow> if sr_ok r then Task_Done else Task_Failed)"

datatype kill_reason = Kill_Stalled | Kill_Timeout | Kill_Cancelled

fun kill_status :: "kill_reason \<Rightarrow> result_status" where
  "kill_status Kill_Stalled = Result_Stalled"
| "kill_status Kill_Timeout = Result_Timeout"
| "kill_status Kill_Cancelled = Result_Cancelled"

definition worth_retrying_on_another_model :: "kill_reason \<Rightarrow> bool" where
  "worth_retrying_on_another_model k \<longleftrightarrow> k = Kill_Stalled \<or> k = Kill_Timeout"

section \<open>How a run ended\<close>

text \<open>What is found when a child has exited: the verifier's verdict and \<open>result.json\<close> among it.\<close>

record child_exit =
  ce_code :: "int option"
  ce_valid :: bool
  ce_reason :: "ustr option"
  ce_result :: "jobject option"
  ce_stdout :: ustr
  ce_stderr :: ustr
  ce_budget_exceeded :: bool

definition js_code :: "int option \<Rightarrow> ustr" where
  "js_code code = (case code of None \<Rightarrow> U ''null''
     | Some c \<Rightarrow> if c < 0 then U ''-'' @ nat_digits (nat (- c)) else nat_digits (nat c))"

definition looks_like_error :: "ustr \<Rightarrow> bool" where
  "looks_like_error line =
     (let lower = to_ascii_lowercase line
      in \<exists>needle \<in> set [U ''error'', U ''failed'', U ''failure'', U ''enospc'', U ''no api key'', U ''panic'',
           U ''unauthorized'', U ''forbidden'', U ''quota'', U ''rate limit'', U ''denied'', U ''exception''].
           sublist needle lower)"

definition derive_failure_reason :: "subagent_result \<Rightarrow> ustr" where
  "derive_failure_reason r =
     (let summary = (case sr_result_data r of
            Some d \<Rightarrow> (case aget d (U ''summary'') of Some (JStr s) \<Rightarrow> trim s | _ \<Rightarrow> [])
          | None \<Rightarrow> [])
      in if summary \<noteq> [] then summary
         else (let lines = filter (\<lambda>l. l \<noteq> [] \<and> \<not> prefix (U ''Note:'') l) (map trim (split_on 10 (sr_stderr r)));
                   errors = filter looks_like_error lines;
                   picked = (if errors = [] then lines else errors);
                   tail = join [10] (drop (length picked - 5) picked)
               in if tail \<noteq> [] then tail else U ''Exited with code '' @ js_code (sr_exit_code r)))"

definition is_inherited_model_fallback_error :: "pool_env \<Rightarrow> subagent_result \<Rightarrow> bool" where
  "is_inherited_model_fallback_error env r =
     (let data = pe_json_text env (case sr_result_data r of Some d \<Rightarrow> d | None \<Rightarrow> []);
          error = (case sr_error r of Some e \<Rightarrow> e | None \<Rightarrow> [])
      in pe_fallback_error env (join [10] (filter (\<lambda>p. p \<noteq> []) [error, sr_stderr r, data])))"

definition should_retry_with_inherited_model :: "pool_env \<Rightarrow> pool_task \<Rightarrow> subagent_result \<Rightarrow> bool" where
  "should_retry_with_inherited_model env t r =
     (if pt_fallback t \<or> pt_session_file t \<noteq> None then False
      else if (case pt_inherited_model t of None \<Rightarrow> True | Some m \<Rightarrow> m = []) then False
      else (case pe_definition env (pt_agent_type t) of
          None \<Rightarrow> False
        | Some d \<Rightarrow>
            if ad_source d \<noteq> Builtin_Agent \<and> ad_source d \<noteq> Project_Agent then False
            else if (case ad_model d of None \<Rightarrow> True | Some m \<Rightarrow> m = [] \<or> m = U ''inherit'') then False
            else is_inherited_model_fallback_error env r))"

text \<open>A run that has exited is settled, or queued again for the caller's model; the result is recorded either way.\<close>

datatype settle_choice = Retry_Inherited subagent_result | Settled subagent_result

definition result_json_status :: "child_exit \<Rightarrow> ustr \<Rightarrow> bool" where
  "result_json_status x s = (case ce_result x of Some d \<Rightarrow> aget d (U ''status'') = Some (JStr s) | None \<Rightarrow> False)"

definition cleanly_completed :: "child_exit \<Rightarrow> bool" where
  "cleanly_completed x \<longleftrightarrow>
     (ce_code x = Some 0 \<or> ce_valid x) \<and> \<not> (ce_valid x \<and> result_json_status x (U ''failed''))"

definition settle_killed :: "pool_env \<Rightarrow> pool_task \<Rightarrow> kill_reason \<Rightarrow> child_exit \<Rightarrow> settle_choice" where
  "settle_killed env t reason x =
     (let r = (default_result (pt_id t))\<lparr>sr_stdout := ce_stdout x, sr_stderr := ce_stderr x, sr_exit_code := ce_code x,
                sr_status := Some (kill_status reason), sr_used_fallback := Some (pt_fallback t)\<rparr>
      in if worth_retrying_on_another_model reason \<and> should_retry_with_inherited_model env t r
         then Retry_Inherited r else Settled r)"

definition settle_exit :: "pool_env \<Rightarrow> pool_task \<Rightarrow> child_exit \<Rightarrow> settle_choice" where
  "settle_exit env t x =
     (let ok = cleanly_completed x;
          r = (default_result (pt_id t))\<lparr>sr_ok := ok, sr_stdout := ce_stdout x, sr_stderr := ce_stderr x,
                sr_exit_code := ce_code x, sr_budget_exceeded := Some (ce_budget_exceeded x),
                sr_status := Some (if ok then Result_Complete else Result_Failed),
                sr_used_fallback := Some (pt_fallback t)\<rparr>
      in if ok then
           (if \<not> ce_valid x
            then Settled (r\<lparr>sr_ok := False, sr_error := ce_reason x, sr_status := Some Result_Failed\<rparr>)
            else Settled (r\<lparr>sr_result_data := ce_result x,
                   sr_status := Some (if result_json_status x (U ''partial'') then Result_Partial else Result_Complete)\<rparr>))
         else
           (let r = r\<lparr>sr_result_data := ce_result x\<rparr>;
                r = r\<lparr>sr_error := Some (derive_failure_reason r)\<rparr>
            in if should_retry_with_inherited_model env t r then Retry_Inherited r else Settled r))"

definition settle_choose :: "pool_env \<Rightarrow> pool_task \<Rightarrow> kill_reason option \<Rightarrow> child_exit \<Rightarrow> settle_choice" where
  "settle_choose env t kill x =
     (case kill of
        Some reason \<Rightarrow> if \<not> ce_valid x then settle_killed env t reason x else settle_exit env t x
      | None \<Rightarrow> settle_exit env t x)"

text \<open>The results of a run whose child never ran or could not be waited for.\<close>

definition cancelled_result :: "ustr \<Rightarrow> subagent_result" where
  "cancelled_result i = (default_result i)\<lparr>sr_error := Some (U ''cancelled before start''), sr_status := Some Result_Cancelled\<rparr>"

definition spawn_failed_result :: "ustr \<Rightarrow> subagent_result" where
  "spawn_failed_result i = (default_result i)\<lparr>sr_error := Some (U ''Spawn failed synchronously''), sr_status := Some Result_Failed\<rparr>"

definition wait_failed_result :: "pool_task \<Rightarrow> ustr \<Rightarrow> ustr \<Rightarrow> ustr \<Rightarrow> subagent_result" where
  "wait_failed_result t err out errs =
     (default_result (pt_id t))\<lparr>sr_stdout := out, sr_stderr := errs, sr_error := Some err,
        sr_status := Some Result_Failed, sr_used_fallback := Some (pt_fallback t)\<rparr>"

section \<open>The queue\<close>

definition ageing_step_ms :: nat where "ageing_step_ms = 60000"

definition priority_of :: "ustr \<Rightarrow> nat" where
  "priority_of agent_type = (if agent_type = U ''explore'' \<or> agent_type = U ''plan'' then 2 else 1)"

definition effective_priority :: "ustr \<Rightarrow> nat \<Rightarrow> nat \<Rightarrow> nat" where
  "effective_priority agent_type queued_at now = priority_of agent_type + (now - queued_at) div ageing_step_ms"

definition task_priority :: "nat \<Rightarrow> pool_task \<Rightarrow> nat" where
  "task_priority now t = effective_priority (pt_agent_type t) (case pt_queued_at t of Some q \<Rightarrow> q | None \<Rightarrow> now) now"

text \<open>A new task goes before the first task of lower priority.\<close>

fun insert_before_lower :: "nat \<Rightarrow> nat \<Rightarrow> pool_task \<Rightarrow> pool_task list \<Rightarrow> pool_task list" where
  "insert_before_lower now p t [] = [t]"
| "insert_before_lower now p t (x # q) =
     (if task_priority now x < p then t # x # q else x # insert_before_lower now p t q)"

definition enqueue_task :: "nat \<Rightarrow> pool_task \<Rightarrow> pool_task list \<Rightarrow> pool_task list" where
  "enqueue_task now t q =
     (let t = t\<lparr>pt_queued_at := Some (case pt_queued_at t of Some a \<Rightarrow> a | None \<Rightarrow> now)\<rparr>
      in insert_before_lower now (task_priority now t) t q)"

section \<open>The state under the mutex\<close>

record pool_slot =
  sl_pid :: nat
  sl_generation :: nat
  sl_agent_type :: ustr
  sl_task_id :: ustr
  sl_spawned_at :: nat
  sl_token_budget :: nat

text \<open>A waiter is a number; what it is told is recorded by \<open>pool_world\<close> below.\<close>

record pool_state =
  pl_slots :: "(ustr \<times> pool_slot) list"
  pl_starting :: "ustr list"
  pl_queue :: "pool_task list"
  pl_completed :: "(ustr \<times> subagent_result) list"
  pl_completed_order :: "ustr list"
  pl_waiters :: "(ustr \<times> nat) list"
  pl_kill_reasons :: "(ustr \<times> kill_reason) list"
  pl_task_status :: "(ustr \<times> pool_task_status) list"
  pl_disposed :: bool

definition pool_empty :: pool_state where
  "pool_empty = \<lparr>pl_slots = [], pl_starting = [], pl_queue = [], pl_completed = [], pl_completed_order = [],
     pl_waiters = [], pl_kill_reasons = [], pl_task_status = [], pl_disposed = False\<rparr>"

definition queued_ids :: "pool_state \<Rightarrow> ustr list" where
  "queued_ids p = map pt_id (pl_queue p)"

definition running_count :: "pool_state \<Rightarrow> nat" where
  "running_count p = length (pl_slots p) + length (pl_starting p)"

definition is_live_task :: "ustr \<Rightarrow> pool_state \<Rightarrow> bool" where
  "is_live_task i p \<longleftrightarrow> aget (pl_slots p) i \<noteq> None \<or> i \<in> set (pl_starting p) \<or> i \<in> set (queued_ids p)"

text \<open>\<open>spawn\<close>: the task's budget is settled first, then it is admitted or refused.\<close>

definition with_budget :: "pool_env \<Rightarrow> pool_task \<Rightarrow> pool_task" where
  "with_budget env t =
     (case pt_token_budget t of
        Some n \<Rightarrow> t
      | None \<Rightarrow> t\<lparr>pt_token_budget := Some (pe_token_budget_for env (pt_agent_type t)
                   (Option.bind (pe_definition env (pt_agent_type t)) ad_token_budget))\<rparr>)"

definition pool_spawn :: "pool_env \<Rightarrow> nat \<Rightarrow> pool_task \<Rightarrow> pool_state \<Rightarrow> ustr + pool_state" where
  "pool_spawn env now t p =
     (if pl_disposed p then Inl (U ''SubagentPool has been disposed'')
      else if is_live_task (pt_id t) p \<or> aget (pl_completed p) (pt_id t) \<noteq> None
        then Inl (U ''Duplicate task_id: '' @ pt_id t)
      else if pe_max_queued env \<le> length (pl_queue p)
        then Inl (U ''Dispatch queue is full ('' @ nat_digits (length (pl_queue p)) @ U '' waiting, ''
               @ nat_digits (running_count p) @ U '' running). Try again once one finishes.'')
      else Inr (p\<lparr>pl_queue := enqueue_task now (with_budget env t) (pl_queue p)\<rparr>))"

text \<open>One round of \<open>pull\<close>: the task taken off the queue, unless the pool is disposed, full or idle.\<close>

definition pull_next :: "pool_env \<Rightarrow> pool_state \<Rightarrow> (pool_task \<times> pool_state) option" where
  "pull_next env p =
     (if pl_disposed p \<or> pe_max_concurrency env \<le> running_count p then None
      else (case pl_queue p of
          [] \<Rightarrow> None
        | t # q \<Rightarrow> Some (t, p\<lparr>pl_queue := q, pl_starting := List.insert (pt_id t) (pl_starting p)\<rparr>)))"

definition take_starting_cancel :: "ustr \<Rightarrow> pool_state \<Rightarrow> pool_state option" where
  "take_starting_cancel i p =
     (if i \<in> set (pl_starting p) \<and> aget (pl_kill_reasons p) i = Some Kill_Cancelled
      then Some (p\<lparr>pl_kill_reasons := adel i (pl_kill_reasons p)\<rparr>) else None)"

definition enter_slot :: "pool_task \<Rightarrow> nat \<Rightarrow> nat \<Rightarrow> nat \<Rightarrow> pool_state \<Rightarrow> pool_state" where
  "enter_slot t pid generation now p =
     p\<lparr>pl_starting := remove1 (pt_id t) (pl_starting p),
       pl_slots := aput (pt_id t)
         \<lparr>sl_pid = pid, sl_generation = generation, sl_agent_type = pt_agent_type t, sl_task_id = pt_id t,
          sl_spawned_at = now, sl_token_budget = (case pt_token_budget t of Some n \<Rightarrow> n | None \<Rightarrow> 0)\<rparr> (pl_slots p)\<rparr>"

definition leave_slot :: "ustr \<Rightarrow> pool_state \<Rightarrow> kill_reason option \<times> pool_state" where
  "leave_slot i p =
     (aget (pl_kill_reasons p) i,
      p\<lparr>pl_slots := adel i (pl_slots p), pl_kill_reasons := adel i (pl_kill_reasons p)\<rparr>)"

text \<open>Waiting on the child failed: the first time the task goes back to starting at once.\<close>

definition wait_failed :: "ustr \<Rightarrow> bool \<Rightarrow> pool_state \<Rightarrow> pool_state" where
  "wait_failed i is_retry p =
     (let p = p\<lparr>pl_slots := adel i (pl_slots p)\<rparr>
      in if is_retry then p else p\<lparr>pl_starting := List.insert i (pl_starting p)\<rparr>)"

definition requeue_fallback :: "pool_task \<Rightarrow> pool_state \<Rightarrow> pool_state" where
  "requeue_fallback t p = p\<lparr>pl_queue := t\<lparr>pt_fallback := True\<rparr> # pl_queue p\<rparr>"

definition release_starting :: "ustr \<Rightarrow> pool_state \<Rightarrow> pool_state" where
  "release_starting i p = p\<lparr>pl_starting := remove1 i (pl_starting p)\<rparr>"

text \<open>The oldest finished results beyond the limit are dropped.\<close>

function drop_oldest :: "nat \<Rightarrow> pool_state \<Rightarrow> pool_state" where
  "drop_oldest limit p =
     (case pl_completed_order p of
        [] \<Rightarrow> p
      | i # order \<Rightarrow>
          if limit < length (pl_completed_order p) then
            drop_oldest limit (p\<lparr>pl_completed_order := order, pl_completed := adel i (pl_completed p),
              pl_task_status := adel i (pl_task_status p)\<rparr>)
          else p)"
  by pat_completeness auto
termination
  by (relation "measure (\<lambda>(limit, p). length (pl_completed_order p))") auto

declare drop_oldest.simps [simp del]

definition resolve_waiter :: "pool_env \<Rightarrow> ustr \<Rightarrow> subagent_result \<Rightarrow> pool_state \<Rightarrow> nat option \<times> pool_state" where
  "resolve_waiter env i r p =
     (let p = p\<lparr>pl_task_status := aput i (status_of_result r) (pl_task_status p)\<rparr>
      in case aget (pl_waiters p) i of
           Some k \<Rightarrow> (Some k, p\<lparr>pl_waiters := adel i (pl_waiters p)\<rparr>)
         | None \<Rightarrow> (None, drop_oldest (pe_max_completed env)
             (p\<lparr>pl_completed := aput i r (pl_completed p), pl_completed_order := pl_completed_order p @ [i]\<rparr>)))"

datatype cancel_outcome = Cancelled_Queued pool_task | Cancel_Flagged | Cancel_Kills pool_slot | Not_Held

definition pool_cancel :: "ustr \<Rightarrow> pool_state \<Rightarrow> cancel_outcome \<times> pool_state" where
  "pool_cancel i p =
     (case List.find (\<lambda>t. pt_id t = i) (pl_queue p) of
        Some t \<Rightarrow> (Cancelled_Queued t, p\<lparr>pl_queue := remove1 t (pl_queue p)\<rparr>)
      | None \<Rightarrow>
          (let flagged = p\<lparr>pl_kill_reasons := aput i Kill_Cancelled (pl_kill_reasons p)\<rparr>
           in if i \<in> set (pl_starting p) then (Cancel_Flagged, flagged)
              else (case aget (pl_slots p) i of
                 Some s \<Rightarrow> (Cancel_Kills s, flagged)
               | None \<Rightarrow> (Not_Held, p))))"

text \<open>\<open>wait_for\<close>: the result at once, or a new waiter in the place of an earlier one.\<close>

datatype wait_outcome = Wait_Refused | Wait_Result subagent_result | Wait_Replaces "nat option"

definition wait_for :: "ustr \<Rightarrow> nat \<Rightarrow> pool_state \<Rightarrow> wait_outcome \<times> pool_state" where
  "wait_for i k p =
     (if pl_disposed p then (Wait_Refused, p)
      else (case aget (pl_completed p) i of
          Some r \<Rightarrow> (Wait_Result r, p\<lparr>pl_completed := adel i (pl_completed p)\<rparr>)
        | None \<Rightarrow> (Wait_Replaces (aget (pl_waiters p) i), p\<lparr>pl_waiters := aput i k (pl_waiters p)\<rparr>)))"

definition lifeguard_verdict :: "ustr \<Rightarrow> kill_reason \<Rightarrow> pool_state \<Rightarrow> pool_state" where
  "lifeguard_verdict i k p = p\<lparr>pl_kill_reasons := aput i k (pl_kill_reasons p)\<rparr>"

definition pool_dispose :: "pool_state \<Rightarrow> pool_state" where
  "pool_dispose p = pool_empty\<lparr>pl_disposed := True\<rparr>"

definition get_status :: "ustr \<Rightarrow> pool_state \<Rightarrow> pool_task_status" where
  "get_status i p =
     (if aget (pl_slots p) i \<noteq> None \<or> i \<in> set (pl_starting p) then Task_Running
      else if i \<in> set (queued_ids p) then Task_Queued
      else (case aget (pl_task_status p) i of
          Some s \<Rightarrow> s
        | None \<Rightarrow> (case aget (pl_completed p) i of Some r \<Rightarrow> status_of_result r | None \<Rightarrow> Task_Unknown)))"

datatype running_since = Running_Since nat | Since_Queued

definition pool_statuses :: "nat \<Rightarrow> pool_state \<Rightarrow> (ustr \<times> running_since) list" where
  "pool_statuses now p =
     map (\<lambda>(i, s). (sl_task_id s, Running_Since (sl_spawned_at s))) (pl_slots p)
     @ map (\<lambda>i. (i, Running_Since now)) (pl_starting p)
     @ map (\<lambda>t. (pt_id t, Since_Queued)) (pl_queue p)"

section \<open>Threads\<close>

text \<open>
  Where a thread of the pool stands. \<open>n\<close> counts the callers of a nested \<open>pull\<close>, each in its own
  loop: after the nested one ends they pull again. \<open>Awaiting\<close> is the task that waits for a child.
\<close>

datatype settle_end = After_Cancel | After_Child | After_Start nat

datatype pool_thread =
    Pulling nat
  | Start_Task pool_task bool nat
  | Run_Spawn pool_task bool nat
  | Child_Spawned pool_task bool nat
  | Enter_Slot pool_task bool nat
  | Awaiting pool_task bool
  | Requeue pool_task
  | Resolve pool_task subagent_result settle_end
  | Release ustr nat

text \<open>
  The pool with its threads and what has happened: the ids accepted by \<open>spawn\<close>, the tasks
  settled, the ids dropped by \<open>dispose\<close>, the attempts written to the ledger, the ids whose cancel
  was accepted, the children killed, the id each call of \<open>wait_for\<close> asked for (the calls are numbered
  in order), and what each was told (\<open>None\<close>: disposed).
\<close>

record pool_world =
  pw_pool :: pool_state
  pw_threads :: "pool_thread multiset"
  pw_accepted :: "ustr list"
  pw_settled :: "(ustr \<times> subagent_result) list"
  pw_dropped :: "ustr list"
  pw_ledger :: "(ustr \<times> subagent_result) list"
  pw_cancelled :: "ustr list"
  pw_killed :: "nat list"
  pw_asked :: "ustr list"
  pw_answers :: "(nat \<times> subagent_result option) list"

definition pool_start :: pool_world where
  "pool_start = \<lparr>pw_pool = pool_empty, pw_threads = {#}, pw_accepted = [], pw_settled = [], pw_dropped = [],
     pw_ledger = [], pw_cancelled = [], pw_killed = [], pw_asked = [], pw_answers = []\<rparr>"

definition go :: "pool_thread \<Rightarrow> pool_thread multiset \<Rightarrow> pool_state \<Rightarrow> pool_world \<Rightarrow> pool_world" where
  "go t ts p w = w\<lparr>pw_pool := p, pw_threads := pw_threads w - {#t#} + ts\<rparr>"

definition record_attempt :: "ustr \<Rightarrow> subagent_result \<Rightarrow> pool_world \<Rightarrow> pool_world" where
  "record_attempt i r w = w\<lparr>pw_ledger := pw_ledger w @ [(i, r)]\<rparr>"

definition tell_waiter :: "nat option \<Rightarrow> subagent_result option \<Rightarrow> pool_world \<Rightarrow> pool_world" where
  "tell_waiter k r w = (case k of None \<Rightarrow> w | Some k \<Rightarrow> w\<lparr>pw_answers := pw_answers w @ [(k, r)]\<rparr>)"

text \<open>What follows a result that has been handed over.\<close>

fun after_resolve :: "ustr \<Rightarrow> settle_end \<Rightarrow> pool_thread multiset" where
  "after_resolve i After_Cancel = {#}"
| "after_resolve i After_Child = {#Pulling 0#}"
| "after_resolve i (After_Start n) = {#Release i n#}"

definition pull_again :: "nat \<Rightarrow> pool_thread multiset" where
  "pull_again n = (case n of 0 \<Rightarrow> {#} | Suc m \<Rightarrow> {#Pulling m#})"

section \<open>Steps\<close>

inductive pool_work :: "pool_env \<Rightarrow> pool_world \<Rightarrow> pool_world \<Rightarrow> bool" for env where
  pull_ends: "Pulling n \<in># pw_threads w \<Longrightarrow> pull_next env (pw_pool w) = None \<Longrightarrow>
    pool_work env w (go (Pulling n) (pull_again n) (pw_pool w) w)"
| pull_takes: "Pulling n \<in># pw_threads w \<Longrightarrow> pull_next env (pw_pool w) = Some (t, p) \<Longrightarrow>
    pool_work env w (go (Pulling n) {#Start_Task t False n#} p w)"
| start_cancelled: "Start_Task t r n \<in># pw_threads w \<Longrightarrow> take_starting_cancel (pt_id t) (pw_pool w) = Some p \<Longrightarrow>
    pool_work env w (record_attempt (pt_id t) (cancelled_result (pt_id t))
      (go (Start_Task t r n) {#Resolve t (cancelled_result (pt_id t)) (After_Start n)#} p w))"
| start_goes: "Start_Task t r n \<in># pw_threads w \<Longrightarrow> take_starting_cancel (pt_id t) (pw_pool w) = None \<Longrightarrow>
    pool_work env w (go (Start_Task t r n) {#Run_Spawn t r n#} (pw_pool w) w)"
| spawn_ok: "Run_Spawn t r n \<in># pw_threads w \<Longrightarrow>
    pool_work env w (go (Run_Spawn t r n) {#Child_Spawned t r n#} (pw_pool w) w)"
| spawn_fails_first: "Run_Spawn t False n \<in># pw_threads w \<Longrightarrow>
    pool_work env w (go (Run_Spawn t False n) {#Start_Task t True n#} (pw_pool w) w)"
| spawn_fails_again: "Run_Spawn t True n \<in># pw_threads w \<Longrightarrow>
    pool_work env w (record_attempt (pt_id t) (spawn_failed_result (pt_id t))
      (go (Run_Spawn t True n) {#Resolve t (spawn_failed_result (pt_id t)) (After_Start n)#} (pw_pool w) w))"
| spawned_cancelled: "Child_Spawned t r n \<in># pw_threads w \<Longrightarrow> take_starting_cancel (pt_id t) (pw_pool w) = Some p \<Longrightarrow>
    pool_work env w (record_attempt (pt_id t) (cancelled_result (pt_id t))
      (go (Child_Spawned t r n) {#Resolve t (cancelled_result (pt_id t)) (After_Start n)#} p w))"
| spawned_goes: "Child_Spawned t r n \<in># pw_threads w \<Longrightarrow> take_starting_cancel (pt_id t) (pw_pool w) = None \<Longrightarrow>
    pool_work env w (go (Child_Spawned t r n) {#Enter_Slot t r n#} (pw_pool w) w)"
| enters: "Enter_Slot t r n \<in># pw_threads w \<Longrightarrow>
    pool_work env w (go (Enter_Slot t r n) {#Awaiting t r, Pulling n#} (enter_slot t pid gen now (pw_pool w)) w)"
| exits: "Awaiting t r \<in># pw_threads w \<Longrightarrow> leave_slot (pt_id t) (pw_pool w) = (kill, p) \<Longrightarrow>
    settle_choose env t kill x = Settled res \<Longrightarrow>
    pool_work env w (record_attempt (pt_id t) res (go (Awaiting t r) {#Resolve t res After_Child#} p w))"
| exits_to_retry: "Awaiting t r \<in># pw_threads w \<Longrightarrow> leave_slot (pt_id t) (pw_pool w) = (kill, p) \<Longrightarrow>
    settle_choose env t kill x = Retry_Inherited res \<Longrightarrow>
    pool_work env w (record_attempt (pt_id t) res (go (Awaiting t r) {#Requeue t#} p w))"
| wait_fails_first: "Awaiting t False \<in># pw_threads w \<Longrightarrow>
    pool_work env w (go (Awaiting t False) {#Start_Task t True 0#} (wait_failed (pt_id t) False (pw_pool w)) w)"
| wait_fails_again: "Awaiting t True \<in># pw_threads w \<Longrightarrow> res = wait_failed_result t err out errs \<Longrightarrow>
    pool_work env w (record_attempt (pt_id t) res
      (go (Awaiting t True) {#Resolve t res After_Child#} (wait_failed (pt_id t) True (pw_pool w)) w))"
| requeues: "Requeue t \<in># pw_threads w \<Longrightarrow>
    pool_work env w (go (Requeue t) {#Pulling 0#} (requeue_fallback t (pw_pool w)) w)"
| resolves: "Resolve t res e \<in># pw_threads w \<Longrightarrow> resolve_waiter env (pt_id t) res (pw_pool w) = (k, p) \<Longrightarrow>
    pool_work env w (tell_waiter k (Some res)
      ((go (Resolve t res e) (after_resolve (pt_id t) e) p w)\<lparr>pw_settled := pw_settled w @ [(pt_id t, res)]\<rparr>))"
| releases: "Release i n \<in># pw_threads w \<Longrightarrow>
    pool_work env w (go (Release i n) {#Pulling (Suc n)#} (release_starting i (pw_pool w)) w)"

inductive pool_call :: "pool_env \<Rightarrow> pool_world \<Rightarrow> pool_world \<Rightarrow> bool" for env where
  spawns: "pool_spawn env now t (pw_pool w) = Inr p \<Longrightarrow>
    pool_call env w (w\<lparr>pw_pool := p, pw_accepted := pw_accepted w @ [pt_id t],
      pw_threads := pw_threads w + {#Pulling 0#}\<rparr>)"
| cancels_queued: "pool_cancel i (pw_pool w) = (Cancelled_Queued t, p) \<Longrightarrow>
    pool_call env w (record_attempt i (cancelled_result i)
      (w\<lparr>pw_pool := p, pw_cancelled := pw_cancelled w @ [i],
         pw_threads := pw_threads w + {#Resolve t (cancelled_result i) After_Cancel#}\<rparr>))"
| cancels_starting: "pool_cancel i (pw_pool w) = (Cancel_Flagged, p) \<Longrightarrow>
    pool_call env w (w\<lparr>pw_pool := p, pw_cancelled := pw_cancelled w @ [i]\<rparr>)"
| cancels_running: "pool_cancel i (pw_pool w) = (Cancel_Kills s, p) \<Longrightarrow>
    pool_call env w (w\<lparr>pw_pool := p, pw_cancelled := pw_cancelled w @ [i],
      pw_killed := pw_killed w @ (if 0 < sl_pid s then [sl_pid s] else [])\<rparr>)"
| waits: "wait_for i (length (pw_asked w)) (pw_pool w) = (out, p) \<Longrightarrow>
    w1 = w\<lparr>pw_pool := p, pw_asked := pw_asked w @ [i]\<rparr> \<Longrightarrow>
    pool_call env w (case out of
        Wait_Refused \<Rightarrow> tell_waiter (Some (length (pw_asked w))) None w1
      | Wait_Result r \<Rightarrow> tell_waiter (Some (length (pw_asked w))) (Some r) w1
      | Wait_Replaces k \<Rightarrow> tell_waiter k None w1)"
| judges: "k \<noteq> Kill_Cancelled \<Longrightarrow>
    pool_call env w (w\<lparr>pw_pool := lifeguard_verdict i k (pw_pool w)\<rparr>)"
| disposes: "\<not> pl_disposed (pw_pool w) \<Longrightarrow>
    pool_call env w (w\<lparr>pw_pool := pool_dispose (pw_pool w), pw_dropped := pw_dropped w @ queued_ids (pw_pool w),
      pw_killed := pw_killed w @ map (\<lambda>(i, s). sl_pid s) (pl_slots (pw_pool w)),
      pw_answers := pw_answers w @ map (\<lambda>(i, k). (k, None)) (pl_waiters (pw_pool w))\<rparr>)"

definition pool_run :: "pool_env \<Rightarrow> pool_world \<Rightarrow> bool" where
  "pool_run env = (\<lambda>w w'. pool_work env w w' \<or> pool_call env w w')\<^sup>*\<^sup>* pool_start"

lemma world_fields [simp]:
  "pw_pool (go t ts p w) = p" "pw_accepted (go t ts p w) = pw_accepted w" "pw_settled (go t ts p w) = pw_settled w"
  "pw_dropped (go t ts p w) = pw_dropped w" "pw_cancelled (go t ts p w) = pw_cancelled w"
  "pw_asked (go t ts p w) = pw_asked w" "pw_answers (go t ts p w) = pw_answers w"
  "pw_threads (go t ts p w) = pw_threads w - {#t#} + ts" "pw_ledger (go t ts p w) = pw_ledger w"
  "pw_pool (record_attempt i r w) = pw_pool w" "pw_accepted (record_attempt i r w) = pw_accepted w"
  "pw_settled (record_attempt i r w) = pw_settled w" "pw_dropped (record_attempt i r w) = pw_dropped w"
  "pw_cancelled (record_attempt i r w) = pw_cancelled w" "pw_asked (record_attempt i r w) = pw_asked w"
  "pw_answers (record_attempt i r w) = pw_answers w" "pw_threads (record_attempt i r w) = pw_threads w"
  "pw_pool (tell_waiter k a w) = pw_pool w" "pw_accepted (tell_waiter k a w) = pw_accepted w"
  "pw_settled (tell_waiter k a w) = pw_settled w" "pw_dropped (tell_waiter k a w) = pw_dropped w"
  "pw_cancelled (tell_waiter k a w) = pw_cancelled w" "pw_asked (tell_waiter k a w) = pw_asked w"
  "pw_threads (tell_waiter k a w) = pw_threads w" "pw_ledger (tell_waiter k a w) = pw_ledger w"
  by (simp_all add: go_def record_attempt_def tell_waiter_def split: option.split)

lemma answer_told [simp]:
  "pw_answers (tell_waiter k a w) = pw_answers w @ (case k of None \<Rightarrow> [] | Some j \<Rightarrow> [(j, a)])"
  by (simp add: tell_waiter_def split: option.split)

lemma pool_run_start: "pool_run env pool_start"
  by (simp add: pool_run_def)

lemma run_work: "pool_run env w \<Longrightarrow> pool_work env w w' \<Longrightarrow> pool_run env w'"
  unfolding pool_run_def by (erule rtranclp.rtrancl_into_rtrancl) simp

lemma run_call: "pool_run env w \<Longrightarrow> pool_call env w w' \<Longrightarrow> pool_run env w'"
  unfolding pool_run_def by (erule rtranclp.rtrancl_into_rtrancl) simp

end
