(* ===== verification/Subagent_Queue.thy ===== *)
theory Subagent_Queue
  imports Subagent_Pool
begin

text \<open>
  The order of the pool's queue: arrivals keep it sorted by the ageing priority at every later
  time, so a task that has waited one ageing step is passed by nobody; a retry pushed to the
  front breaks this.
\<close>

section \<open>Arrivals keep the queue sorted for ever\<close>

definition fair_from :: "nat \<Rightarrow> pool_task list \<Rightarrow> bool" where
  "fair_from now q \<longleftrightarrow>
     (\<forall>x \<in> set q. \<exists>a \<le> now. pt_queued_at x = Some a)
     \<and> (\<forall>n \<ge> now. sorted_wrt (\<lambda>x y. task_priority n y \<le> task_priority n x) q)"

lemma task_priority_Some:
  "pt_queued_at t = Some a \<Longrightarrow> task_priority n t = priority_of (pt_agent_type t) + (n - a) div ageing_step_ms"
  by (simp add: task_priority_def effective_priority_def)

lemma priority_of_range: "1 \<le> priority_of s" "priority_of s \<le> 2"
  by (simp_all add: priority_of_def)

lemma div_split: "(u :: nat) div k + v div k \<le> (u + v) div k" "v < k \<Longrightarrow> (u + v) div k \<le> u div k + 1"
proof -
  show "u div k + v div k \<le> (u + v) div k"
  proof (cases "k = 0")
    case False
    then show ?thesis by (metis div_add1_eq le_add1)
  qed simp
  assume "v < k"
  then have "(u + v) div k \<le> (u + k) div k" by (simp add: div_le_mono)
  moreover have "(u + k) div k = u div k + 1" using \<open>v < k\<close> by (simp add: div_add_self2)
  ultimately show "(u + v) div k \<le> u div k + 1" by simp
qed

text \<open>A task that is ahead of an arrival stays ahead, and one that is behind stays behind.\<close>

lemma stays_ahead:
  assumes "pt_queued_at x = Some a" and "a \<le> now" and "pt_queued_at t = Some now" and "now \<le> n"
    and "task_priority now t \<le> task_priority now x"
  shows "task_priority n t \<le> task_priority n x"
proof -
  have "n - a = (n - now) + (now - a)" using assms(2,4) by simp
  with div_split(1) [of "n - now" ageing_step_ms "now - a"] assms(5) show ?thesis
    by (simp add: task_priority_Some [OF assms(1)] task_priority_Some [OF assms(3)])
qed

lemma stays_behind:
  assumes "pt_queued_at y = Some a" and "a \<le> now" and "pt_queued_at t = Some now" and "now \<le> n"
    and "task_priority now y < task_priority now t"
  shows "task_priority n y \<le> task_priority n t"
proof -
  have less: "priority_of (pt_agent_type y) + (now - a) div ageing_step_ms < priority_of (pt_agent_type t)"
    using assms(5) by (simp add: task_priority_Some [OF assms(1)] task_priority_Some [OF assms(3)])
  with priority_of_range(1) [of "pt_agent_type y"] priority_of_range(2) [of "pt_agent_type t"]
  have "(now - a) div ageing_step_ms = 0" by linarith
  then have "now - a < ageing_step_ms" by (simp add: div_eq_0_iff ageing_step_ms_def)
  moreover have "n - a = (n - now) + (now - a)" using assms(2,4) by simp
  ultimately have "(n - a) div ageing_step_ms \<le> (n - now) div ageing_step_ms + 1"
    using div_split(2) [of "now - a" ageing_step_ms "n - now"] by simp
  with less show ?thesis
    by (simp add: task_priority_Some [OF assms(1)] task_priority_Some [OF assms(3)])
qed

lemma insert_place:
  assumes "sorted_wrt (\<lambda>x y. task_priority now y \<le> task_priority now x) q"
  shows "\<exists>a b. q = a @ b \<and> insert_before_lower now p t q = a @ t # b
    \<and> (\<forall>x \<in> set a. p \<le> task_priority now x) \<and> (\<forall>y \<in> set b. task_priority now y < p)"
  using assms
proof (induction q)
  case Nil
  show ?case by simp
next
  case (Cons x q)
  show ?case
  proof (cases "task_priority now x < p")
    case True
    with Cons.prems show ?thesis by (intro exI [of _ "[]"] exI [of _ "x # q"]) auto
  next
    case False
    from Cons obtain a b where "q = a @ b" "insert_before_lower now p t q = a @ t # b"
      "\<forall>x \<in> set a. p \<le> task_priority now x" "\<forall>y \<in> set b. task_priority now y < p" by auto
    with False show ?thesis by (intro exI [of _ "x # a"] exI [of _ b]) auto
  qed
qed

definition arrived :: "nat \<Rightarrow> pool_task \<Rightarrow> pool_task" where
  "arrived now t = t\<lparr>pt_queued_at := Some now\<rparr>"

lemma enqueue_place:
  assumes "fair_from now0 q" and "now0 \<le> now" and "pt_queued_at t = None"
  obtains a b where "q = a @ b" "enqueue_task now t q = a @ arrived now t # b"
    "\<forall>x \<in> set a. task_priority now (arrived now t) \<le> task_priority now x"
    "\<forall>y \<in> set b. task_priority now y < task_priority now (arrived now t)"
  using insert_place [of now q "task_priority now (arrived now t)" "arrived now t"] assms
  by (auto simp: fair_from_def enqueue_task_def arrived_def Let_def)

lemma arrival_keeps_fair:
  assumes "fair_from now0 q" and "now0 \<le> now" and "pt_queued_at t = None"
  shows "fair_from now (enqueue_task now t q)"
proof -
  let ?t = "arrived now t"
  obtain a b where ab: "q = a @ b" "enqueue_task now t q = a @ ?t # b"
    and place: "\<forall>x \<in> set a. task_priority now ?t \<le> task_priority now x"
      "\<forall>y \<in> set b. task_priority now y < task_priority now ?t"
    using enqueue_place [OF assms] by metis
  have t: "pt_queued_at ?t = Some now" by (simp add: arrived_def)
  have at: "\<exists>s \<le> now. pt_queued_at x = Some s" if "x \<in> set q" for x
    using assms(1,2) that unfolding fair_from_def by (meson le_trans)
  have "sorted_wrt (\<lambda>x y. task_priority n y \<le> task_priority n x) (a @ ?t # b)" if n: "now \<le> n" for n
  proof -
    have "sorted_wrt (\<lambda>x y. task_priority n y \<le> task_priority n x) (a @ b)"
      using assms(1,2) n unfolding fair_from_def ab(1) by (meson le_trans)
    moreover have "\<forall>x \<in> set a. task_priority n ?t \<le> task_priority n x"
      using at place(1) stays_ahead [OF _ _ t n] unfolding ab(1) by (metis Un_iff set_append)
    moreover have "\<forall>y \<in> set b. task_priority n y \<le> task_priority n ?t"
      using at place(2) stays_behind [OF _ _ t n] unfolding ab(1) by (metis Un_iff set_append)
    ultimately show ?thesis by (auto simp: sorted_wrt_append)
  qed
  with at t show ?thesis unfolding fair_from_def ab(2) by (auto simp: ab(1))
qed

text \<open>Taking and cancelling tasks leaves the rest in order.\<close>

lemma fair_subset:
  assumes "fair_from now q" and "subseq q' q"
  shows "fair_from now q'"
proof -
  have "sorted_wrt P q'" if "sorted_wrt P q" for P :: "pool_task \<Rightarrow> pool_task \<Rightarrow> bool"
    using assms(2) that
  proof (induction rule: list_emb.induct)
    case (list_emb_Cons2 x y xs ys)
    then show ?case using set_nths_subset list_emb_set by (auto dest: list_emb_set)
  qed auto
  moreover have "set q' \<subseteq> set q" using assms(2) by (auto dest: list_emb_set)
  ultimately show ?thesis using assms(1) by (auto simp: fair_from_def)
qed

lemma fair_empty: "fair_from now []"
  by (simp add: fair_from_def)

section \<open>A task that has waited one step is not passed\<close>

text \<open>What can become of the queue while no task is retried: the clock does not go back.\<close>

inductive queue_history :: "nat \<Rightarrow> pool_task list \<Rightarrow> bool" where
  opens: "queue_history now []"
| arrives: "queue_history now0 q \<Longrightarrow> now0 \<le> now \<Longrightarrow> pt_queued_at t = None \<Longrightarrow> queue_history now (enqueue_task now t q)"
| taken: "queue_history now (t # q) \<Longrightarrow> queue_history now q"
| dropped: "queue_history now q \<Longrightarrow> queue_history now (remove1 t q)"

lemma history_fair: "queue_history now q \<Longrightarrow> fair_from now q"
proof (induction rule: queue_history.induct)
  case (taken now t q)
  then show ?case by (auto simp: fair_from_def)
next
  case (dropped now q t)
  have "subseq (remove1 t q) q" by (induction q) auto
  with dropped.IH show ?case by (rule fair_subset)
qed (auto intro: fair_empty arrival_keeps_fair)

text \<open>
  C28: While no task is retried and the clock does not go back, a queued task that has waited
  one ageing step (a minute) is passed by no later arrival, whatever its agent type: the queue
  up to it stays as it was.
\<close>

theorem waiting_task_not_passed:
  assumes "queue_history now0 (a @ x # b)" and "now0 \<le> now" and "pt_queued_at t = None"
    and "pt_queued_at x = Some s" and "s + ageing_step_ms \<le> now"
  shows "\<exists>c. enqueue_task now t (a @ x # b) = a @ x # c"
proof -
  note fair = history_fair [OF assms(1)]
  obtain u v where uv: "a @ x # b = u @ v" "enqueue_task now t (a @ x # b) = u @ arrived now t # v"
    and behind: "\<forall>y \<in> set v. task_priority now y < task_priority now (arrived now t)"
    using enqueue_place [OF fair assms(2,3)] by metis
  have "ageing_step_ms \<le> now - s" using assms(5) by simp
  then have "1 \<le> (now - s) div ageing_step_ms" by (simp add: ageing_step_ms_def div_greater_zero_iff Suc_le_eq)
  then have x: "2 \<le> task_priority now x"
    using priority_of_range(1) [of "pt_agent_type x"] by (simp add: task_priority_Some [OF assms(4)])
  have "task_priority now (arrived now t) \<le> 2"
    using priority_of_range(2) by (simp add: task_priority_Some arrived_def)
  with x behind have "x \<notin> set v" by fastforce
  with uv(1) obtain w where "u = a @ x # w" by (auto simp: append_eq_append_conv2 Cons_eq_append_conv)
  with uv(2) show ?thesis by auto
qed

text \<open>Two tasks wait; a third, of the type that goes first, arrives a minute after the first.\<close>

definition sample_task :: "ustr \<Rightarrow> ustr \<Rightarrow> nat option \<Rightarrow> pool_task" where
  "sample_task i agent at = \<lparr>pt_id = i, pt_agent_type = agent, pt_token_budget = Some 1, pt_inherited_model = None,
     pt_session_file = None, pt_fallback = False, pt_queued_at = at\<rparr>"

lemma sample_history:
  "queue_history 20 [sample_task (U ''b'') (U ''explore'') (Some 20), sample_task (U ''a'') (U ''review'') (Some 5)]"
proof -
  have "queue_history 5 (enqueue_task 5 (sample_task (U ''a'') (U ''review'') None) [])"
    by (rule arrives [OF opens [of 0]]) (simp_all add: sample_task_def)
  from arrives [OF this, of 20 "sample_task (U ''b'') (U ''explore'') None"] show ?thesis
    by (simp add: sample_task_def enqueue_task_def Let_def task_priority_def effective_priority_def priority_of_def ageing_step_ms_def)
qed

theorem waiting_task_not_passed_witness:
  "\<exists>c. enqueue_task 60005 (sample_task (U ''c'') (U ''plan'') None)
       [sample_task (U ''b'') (U ''explore'') (Some 20), sample_task (U ''a'') (U ''review'') (Some 5)]
     = [sample_task (U ''b'') (U ''explore'') (Some 20), sample_task (U ''a'') (U ''review'') (Some 5)] @ c"
  using waiting_task_not_passed [of 20 "[sample_task (U ''b'') (U ''explore'') (Some 20)]"
      "sample_task (U ''a'') (U ''review'') (Some 5)" "[]" 60005 "sample_task (U ''c'') (U ''plan'') None" 5] sample_history
  by (simp add: sample_task_def ageing_step_ms_def)

text \<open>
  A retried task goes to the front whatever its priority. While it waits there, a new task of higher
  priority is put before it, and so before tasks of the same priority that arrived earlier.
\<close>

lemma retry_lets_arrivals_pass:
  "enqueue_task 50000 (sample_task (U ''c'') (U ''explore'') None)
     (pl_queue (requeue_fallback (sample_task (U ''a'') (U ''review'') (Some 5))
        (pool_empty\<lparr>pl_queue := [sample_task (U ''b'') (U ''explore'') (Some 20)]\<rparr>)))
   = [sample_task (U ''c'') (U ''explore'') (Some 50000), (sample_task (U ''a'') (U ''review'') (Some 5))\<lparr>pt_fallback := True\<rparr>,
      sample_task (U ''b'') (U ''explore'') (Some 20)]"
  by (simp add: sample_task_def requeue_fallback_def enqueue_task_def Let_def task_priority_def effective_priority_def
      priority_of_def ageing_step_ms_def)

end
