(* ===== verification/Subagent_Pool_Samples.thy ===== *)
theory Subagent_Pool_Samples
  imports Subagent_Queue
begin

text \<open>Runs of a pool with one place: a task from its dispatch to its answer, and two races.\<close>

section \<open>A task from dispatch to answer\<close>

definition one_place :: pool_env where
  "one_place = \<lparr>pe_max_concurrency = 1, pe_max_queued = 8, pe_max_completed = 2, pe_definition = (\<lambda>_. None),
     pe_token_budget_for = (\<lambda>_ _. 1), pe_fallback_error = (\<lambda>_. False), pe_json_text = (\<lambda>_. [])\<rparr>"

definition task_a :: pool_task where "task_a = sample_task (U ''a'') (U ''explore'') (Some 0)"

definition good_exit :: child_exit where
  "good_exit = \<lparr>ce_code = Some 0, ce_valid = True, ce_reason = None, ce_result = None, ce_stdout = [], ce_stderr = [],
     ce_budget_exceeded = False\<rparr>"

definition done_a :: subagent_result where
  "done_a = (default_result (U ''a''))\<lparr>sr_ok := True, sr_exit_code := Some 0, sr_budget_exceeded := Some False,
     sr_status := Some Result_Complete, sr_used_fallback := Some False\<rparr>"

definition slot_a :: pool_slot where
  "slot_a = \<lparr>sl_pid = 7, sl_generation = 1, sl_agent_type = U ''explore'', sl_task_id = U ''a'', sl_spawned_at = 3, sl_token_budget = 1\<rparr>"

text \<open>The task has been accepted and asked for, and its child is about to enter the slot.\<close>

definition entering_a :: pool_world where
  "entering_a = pool_start\<lparr>pw_pool := pool_empty\<lparr>pl_starting := [U ''a''], pl_waiters := [(U ''a'', 0)]\<rparr>,
     pw_threads := {#Enter_Slot task_a False 0#}, pw_accepted := [U ''a''], pw_asked := [U ''a'']\<rparr>"

lemmas pool_eval = pool_start_def pool_empty_def one_place_def task_a_def sample_task_def go_def pull_next_def
  running_count_def take_starting_cancel_def

lemma then_works: "pool_run env w \<Longrightarrow> pool_work env w v \<Longrightarrow> v = w' \<Longrightarrow> pool_run env w'"
  using run_work by blast

lemma then_calls: "pool_run env w \<Longrightarrow> pool_call env w v \<Longrightarrow> v = w' \<Longrightarrow> pool_run env w'"
  using run_call by blast

lemma entering_run: "pool_run one_place entering_a"
proof -
  let ?t = "sample_task (U ''a'') (U ''explore'') None"
  define w1 where "w1 = pool_start\<lparr>pw_pool := pool_empty\<lparr>pl_queue := [task_a]\<rparr>, pw_accepted := [U ''a''],
    pw_threads := {#Pulling 0#}\<rparr>"
  define w2 where "w2 = w1\<lparr>pw_pool := pool_empty\<lparr>pl_queue := [task_a], pl_waiters := [(U ''a'', 0)]\<rparr>, pw_asked := [U ''a'']\<rparr>"
  define p3 where "p3 = pool_empty\<lparr>pl_starting := [U ''a''], pl_waiters := [(U ''a'', 0)]\<rparr>"
  define w3 where "w3 = w2\<lparr>pw_pool := p3, pw_threads := {#Start_Task task_a False 0#}\<rparr>"
  define w4 where "w4 = w3\<lparr>pw_threads := {#Run_Spawn task_a False 0#}\<rparr>"
  define w5 where "w5 = w4\<lparr>pw_threads := {#Child_Spawned task_a False 0#}\<rparr>"
  note ws = w1_def w2_def p3_def w3_def w4_def w5_def
  have "pool_spawn one_place 0 ?t (pw_pool pool_start) = Inr (pool_empty\<lparr>pl_queue := [task_a]\<rparr>)"
    by (simp add: pool_spawn_def pool_eval is_live_task_def queued_ids_def enqueue_task_def with_budget_def Let_def
        task_priority_def)
  from then_calls [OF pool_run_start pool_call.spawns [OF this]] have "pool_run one_place w1"
    by (simp add: ws pool_eval)
  moreover have "wait_for (U ''a'') (length (pw_asked w1)) (pw_pool w1) = (Wait_Replaces None, pw_pool w2)"
    by (simp add: ws pool_eval wait_for_def)
  ultimately have "pool_run one_place w2"
    using then_calls [OF _ pool_call.waits [OF _ refl]] by (simp add: ws pool_eval tell_waiter_def)
  then have "pool_run one_place w3"
    by (rule then_works [OF _ pool_work.pull_takes [of 0 _ _ task_a p3]]) (simp_all add: ws pool_eval)
  then have "pool_run one_place w4"
    by (rule then_works [OF _ pool_work.start_goes [of task_a False 0]]) (simp_all add: ws pool_eval)
  then have "pool_run one_place w5"
    by (rule then_works [OF _ pool_work.spawn_ok [of task_a False 0]]) (simp_all add: ws pool_eval)
  then show ?thesis
    by (rule then_works [OF _ pool_work.spawned_goes [of task_a False 0]]) (simp_all add: ws pool_eval entering_a_def)
qed

text \<open>The child runs, exits well, and the wait is told.\<close>

definition answered_a :: pool_world where
  "answered_a = entering_a\<lparr>pw_pool := pool_empty\<lparr>pl_task_status := [(U ''a'', Task_Done)]\<rparr>,
     pw_threads := {#Pulling 0, Pulling 0#}, pw_settled := [(U ''a'', done_a)], pw_ledger := [(U ''a'', done_a)],
     pw_answers := [(0, Some done_a)]\<rparr>"

lemma good_exit_settles: "settle_choose env task_a None good_exit = Settled done_a"
  by (simp add: settle_choose_def settle_exit_def cleanly_completed_def good_exit_def result_json_status_def done_a_def
      default_result_def task_a_def sample_task_def)

lemma enters_slot_a:
  "enter_slot task_a 7 1 3 (pool_empty\<lparr>pl_starting := [U ''a''], pl_waiters := ws, pl_kill_reasons := ks\<rparr>)
   = pool_empty\<lparr>pl_slots := [(U ''a'', slot_a)], pl_waiters := ws, pl_kill_reasons := ks\<rparr>"
  by (simp add: enter_slot_def pool_eval slot_a_def)

lemma answered_run: "pool_run one_place answered_a"
proof -
  define w1 where "w1 = entering_a\<lparr>pw_pool := pool_empty\<lparr>pl_slots := [(U ''a'', slot_a)], pl_waiters := [(U ''a'', 0)]\<rparr>,
    pw_threads := {#Awaiting task_a False, Pulling 0#}\<rparr>"
  define p2 where "p2 = pool_empty\<lparr>pl_waiters := [(U ''a'', 0)]\<rparr>"
  define w2 where "w2 = w1\<lparr>pw_pool := p2, pw_threads := {#Resolve task_a done_a After_Child, Pulling 0#},
    pw_ledger := [(U ''a'', done_a)]\<rparr>"
  note ws = w1_def p2_def w2_def entering_a_def
  have "pool_run one_place w1"
    using enters_slot_a [where ws = "[(U ''a'', 0)]" and ks = "[]"]
    by (intro then_works [OF entering_run pool_work.enters [of task_a False 0 _ _ 7 1 3]])
      (simp_all add: ws pool_start_def go_def pool_empty_def)
  then have "pool_run one_place w2"
    by (rule then_works [OF _ pool_work.exits [OF _ _ good_exit_settles, of False _ p2]])
      (simp_all add: ws leave_slot_def adel_def record_attempt_def pool_eval)
  then show ?thesis
    by (rule then_works [OF _ pool_work.resolves [of task_a done_a After_Child _ _ "Some 0"
          "pool_empty\<lparr>pl_task_status := [(U ''a'', Task_Done)]\<rparr>"]])
      (simp_all add: ws resolve_waiter_def adel_def tell_waiter_def answered_a_def pool_eval status_of_result_def done_a_def)
qed

text \<open>A task that is cancelled while it waits.\<close>

definition cancelled_a :: pool_world where
  "cancelled_a = pool_start\<lparr>pw_pool := pool_empty\<lparr>pl_completed := [(U ''a'', cancelled_result (U ''a''))],
       pl_completed_order := [U ''a''], pl_task_status := [(U ''a'', Task_Cancelled)]\<rparr>,
     pw_threads := {#Pulling 0#}, pw_accepted := [U ''a''], pw_cancelled := [U ''a''],
     pw_settled := [(U ''a'', cancelled_result (U ''a''))], pw_ledger := [(U ''a'', cancelled_result (U ''a''))]\<rparr>"

lemma cancelled_run: "pool_run one_place cancelled_a"
proof -
  let ?t = "sample_task (U ''a'') (U ''explore'') None"
  define w1 where "w1 = pool_start\<lparr>pw_pool := pool_empty\<lparr>pl_queue := [task_a]\<rparr>, pw_accepted := [U ''a''],
    pw_threads := {#Pulling 0#}\<rparr>"
  define w2 where "w2 = w1\<lparr>pw_pool := pool_empty, pw_cancelled := [U ''a''], pw_ledger := [(U ''a'', cancelled_result (U ''a''))],
    pw_threads := {#Pulling 0, Resolve task_a (cancelled_result (U ''a'')) After_Cancel#}\<rparr>"
  note ws = w1_def w2_def
  have "pool_spawn one_place 0 ?t (pw_pool pool_start) = Inr (pool_empty\<lparr>pl_queue := [task_a]\<rparr>)"
    by (simp add: pool_spawn_def pool_eval is_live_task_def queued_ids_def enqueue_task_def with_budget_def Let_def
        task_priority_def)
  from then_calls [OF pool_run_start pool_call.spawns [OF this]] have "pool_run one_place w1"
    by (simp add: ws pool_eval)
  then have "pool_run one_place w2"
    by (rule then_calls [OF _ pool_call.cancels_queued [of "U ''a''" _ task_a pool_empty]])
      (simp_all add: ws pool_eval pool_cancel_def record_attempt_def)
  then show ?thesis
    by (rule then_works [OF _ pool_work.resolves [of task_a "cancelled_result (U ''a'')" After_Cancel _ _ None
          "pw_pool cancelled_a"]])
      (simp_all add: ws resolve_waiter_def tell_waiter_def cancelled_a_def pool_eval status_of_result_def
        cancelled_result_def drop_oldest.simps)
qed

section \<open>Races\<close>

text \<open>
  A cancel that arrives after the second check for one, and before the task enters its slot, is
  accepted but kills nothing: the child runs on.
\<close>

lemma cancel_before_slot_is_lost:
  "\<exists>w. pool_run one_place w \<and> pw_cancelled w = [U ''a''] \<and> pw_killed w = []
     \<and> aget (pl_slots (pw_pool w)) (U ''a'') = Some slot_a \<and> Awaiting task_a False \<in># pw_threads w"
proof -
  define p1 where "p1 = pool_empty\<lparr>pl_starting := [U ''a''], pl_waiters := [(U ''a'', 0)], pl_kill_reasons := [(U ''a'', Kill_Cancelled)]\<rparr>"
  define w1 where "w1 = entering_a\<lparr>pw_pool := p1, pw_cancelled := [U ''a'']\<rparr>"
  have "pool_run one_place w1"
    by (rule then_calls [OF entering_run pool_call.cancels_starting [of "U ''a''" _ p1]])
      (simp_all add: w1_def p1_def entering_a_def pool_cancel_def pool_eval)
  then have "pool_run one_place (go (Enter_Slot task_a False 0) {#Awaiting task_a False, Pulling 0#} (enter_slot task_a 7 1 3 p1) w1)"
    by (rule then_works [OF _ pool_work.enters [of task_a False 0 _ _ 7 1 3]]) (simp_all add: w1_def entering_a_def)
  then show ?thesis
    using enters_slot_a [where ws = "[(U ''a'', 0)]" and ks = "[(U ''a'', Kill_Cancelled)]"]
    by (intro exI conjI) (assumption, simp_all add: go_def w1_def p1_def entering_a_def pool_start_def)
qed

text \<open>A child that is being started when the pool is disposed enters a slot afterwards; nothing kills it.\<close>

lemma dispose_misses_starting_child:
  "\<exists>w. pool_run one_place w \<and> pl_disposed (pw_pool w) \<and> pw_killed w = []
     \<and> aget (pl_slots (pw_pool w)) (U ''a'') = Some slot_a \<and> Awaiting task_a False \<in># pw_threads w"
proof -
  define w1 where "w1 = entering_a\<lparr>pw_pool := pool_empty\<lparr>pl_disposed := True\<rparr>, pw_answers := [(0, None)]\<rparr>"
  have "pool_run one_place w1"
    by (rule then_calls [OF entering_run pool_call.disposes])
      (simp_all add: w1_def entering_a_def pool_dispose_def queued_ids_def pool_eval)
  then have "pool_run one_place (go (Enter_Slot task_a False 0) {#Awaiting task_a False, Pulling 0#}
      (enter_slot task_a 7 1 3 (pool_empty\<lparr>pl_disposed := True\<rparr>)) w1)"
    by (rule then_works [OF _ pool_work.enters [of task_a False 0 _ _ 7 1 3]]) (simp_all add: w1_def entering_a_def)
  then show ?thesis
    by (intro exI conjI) (assumption, simp_all add: w1_def entering_a_def enter_slot_def slot_a_def pool_eval)
qed

text \<open>
  Taking a result leaves its id in the order of finished tasks: with room for two, a result nobody
  has taken is dropped although only one other is kept.
\<close>

lemma taken_results_take_room:
  "map fst (pl_completed (snd (resolve_waiter one_place (U ''c'') done_a
      (snd (wait_for (U ''b'') 0 (snd (resolve_waiter one_place (U ''b'') done_a
        (snd (resolve_waiter one_place (U ''a'') done_a pool_empty))))))))) = [U ''c'']"
  by (simp add: resolve_waiter_def wait_for_def pool_empty_def one_place_def adel_def drop_oldest.simps)

end
