(* ===== verification/Subagent_Pool_Properties.thy ===== *)
theory Subagent_Pool_Properties
  imports Subagent_Pool_Samples
begin

text \<open>
  What the pool keeps in every interleaving: no task is lost or settled twice, no more children
  than the limit, and what the slots and the starting set stand for.
\<close>

section \<open>Counting over threads\<close>

definition threads_sum :: "(pool_thread \<Rightarrow> 'a :: comm_monoid_add) \<Rightarrow> pool_world \<Rightarrow> 'a" where
  "threads_sum f w = (\<Sum>t \<in># pw_threads w. f t)"

section \<open>No task is lost\<close>

fun thread_ids :: "pool_thread \<Rightarrow> ustr multiset" where
  "thread_ids (Start_Task t r n) = {#pt_id t#}"
| "thread_ids (Run_Spawn t r n) = {#pt_id t#}"
| "thread_ids (Child_Spawned t r n) = {#pt_id t#}"
| "thread_ids (Enter_Slot t r n) = {#pt_id t#}"
| "thread_ids (Awaiting t r) = {#pt_id t#}"
| "thread_ids (Requeue t) = {#pt_id t#}"
| "thread_ids (Resolve t r e) = {#pt_id t#}"
| "thread_ids _ = {#}"

definition held_ids :: "pool_world \<Rightarrow> ustr multiset" where
  "held_ids w = mset (queued_ids (pw_pool w)) + threads_sum thread_ids w"

definition accounted :: "pool_world \<Rightarrow> bool" where
  "accounted w \<longleftrightarrow>
     mset (pw_accepted w) = held_ids w + mset (map fst (pw_settled w)) + mset (pw_dropped w)"

lemma mset_insert_before: "mset (map pt_id (insert_before_lower now p t q)) = add_mset (pt_id t) (mset (map pt_id q))"
  by (induction q) auto

lemma with_budget_id [simp]: "pt_id (with_budget env t) = pt_id t"
  by (simp add: with_budget_def split: option.split)

lemma enqueue_ids: "mset (map pt_id (enqueue_task now t q)) = add_mset (pt_id t) (mset (map pt_id q))"
  using mset_insert_before [of now _ "t\<lparr>pt_queued_at := Some (case pt_queued_at t of Some a \<Rightarrow> a | None \<Rightarrow> now)\<rparr>" q]
  by (simp add: enqueue_task_def Let_def)

lemma spawn_queue:
  "pool_spawn env now t p = Inr p' \<Longrightarrow> p' = p\<lparr>pl_queue := enqueue_task now (with_budget env t) (pl_queue p)\<rparr>"
  by (auto simp: pool_spawn_def split: if_splits)

lemma pull_next_Some:
  "pull_next env p = Some (t, p') \<longleftrightarrow>
     \<not> pl_disposed p \<and> running_count p < pe_max_concurrency env \<and>
     (\<exists>q. pl_queue p = t # q \<and> p' = p\<lparr>pl_queue := q, pl_starting := List.insert (pt_id t) (pl_starting p)\<rparr>)"
  by (auto simp: pull_next_def split: list.splits)

lemma drop_oldest_fields [simp]:
  "pl_slots (drop_oldest k p) = pl_slots p" "pl_starting (drop_oldest k p) = pl_starting p"
  "pl_queue (drop_oldest k p) = pl_queue p" "pl_waiters (drop_oldest k p) = pl_waiters p"
  "pl_kill_reasons (drop_oldest k p) = pl_kill_reasons p" "pl_disposed (drop_oldest k p) = pl_disposed p"
  by (induction k p rule: drop_oldest.induct) (subst drop_oldest.simps, simp split: list.split)+

lemma resolve_waiter_fields:
  assumes "resolve_waiter env i r p = (k, p')"
  shows "pl_slots p' = pl_slots p" "pl_starting p' = pl_starting p" "pl_queue p' = pl_queue p"
    "pl_kill_reasons p' = pl_kill_reasons p" "pl_disposed p' = pl_disposed p"
  using assms by (auto simp: resolve_waiter_def Let_def split: option.splits)

lemma take_starting_cancel_Some:
  "take_starting_cancel i p = Some p' \<longleftrightarrow> i \<in> set (pl_starting p) \<and> aget (pl_kill_reasons p) i = Some Kill_Cancelled
     \<and> p' = p\<lparr>pl_kill_reasons := adel i (pl_kill_reasons p)\<rparr>"
  by (auto simp: take_starting_cancel_def)

lemma cancel_queued:
  assumes "pool_cancel i p = (Cancelled_Queued t, p')"
  shows "pt_id t = i" "t \<in> set (pl_queue p)" "p' = p\<lparr>pl_queue := remove1 t (pl_queue p)\<rparr>"
  using assms by (auto simp: pool_cancel_def Let_def find_Some_iff split: option.splits if_splits)

lemma cancel_other:
  assumes "pool_cancel i p = (out, p')" and "\<And>t. out \<noteq> Cancelled_Queued t"
  shows "p' = p \<or> p' = p\<lparr>pl_kill_reasons := aput i Kill_Cancelled (pl_kill_reasons p)\<rparr>"
  using assms by (auto simp: pool_cancel_def Let_def split: option.splits if_splits)

lemma mset_remove1_ids:
  "t \<in> set q \<Longrightarrow> mset (map pt_id q) = add_mset (pt_id t) (mset (map pt_id (remove1 t q)))"
  by (induction q) auto

lemma resolve_ids: "(\<Sum>x \<in># after_resolve i e. thread_ids x) = {#}" "(\<Sum>x \<in># pull_again n. thread_ids x) = {#}"
  by (cases e; simp) (simp add: pull_again_def split: nat.split)

lemmas pool_moves = enter_slot_def leave_slot_def wait_failed_def release_starting_def requeue_fallback_def
  take_starting_cancel_Some pull_next_Some Let_def

lemma work_accounted: "pool_work env w w' \<Longrightarrow> accounted w \<Longrightarrow> accounted w'"
  by (induction rule: pool_work.induct)
    (auto dest!: multi_member_split dest: resolve_waiter_fields(3)
      simp: accounted_def held_ids_def threads_sum_def queued_ids_def pool_moves resolve_ids)

lemma call_accounted: "pool_call env w w' \<Longrightarrow> accounted w \<Longrightarrow> accounted w'"
proof (induction rule: pool_call.induct)
  case (spawns now t w p)
  then show ?case using enqueue_ids [of now "with_budget env t" "pl_queue (pw_pool w)"]
    by (auto simp: accounted_def held_ids_def threads_sum_def queued_ids_def dest!: spawn_queue)
next
  case (cancels_queued i w t p)
  from cancel_queued [OF cancels_queued(1)] cancels_queued(2) show ?case
    using mset_remove1_ids [of t "pl_queue (pw_pool w)"]
    by (auto simp: accounted_def held_ids_def threads_sum_def queued_ids_def)
next
  case (cancels_starting i w p)
  from cancel_other [OF cancels_starting(1)] cancels_starting(2) show ?case
    by (auto simp: accounted_def held_ids_def threads_sum_def queued_ids_def)
next
  case (cancels_running i w s p)
  from cancel_other [OF cancels_running(1)] cancels_running(2) show ?case
    by (auto simp: accounted_def held_ids_def threads_sum_def queued_ids_def)
next
  case (waits i w out p w1)
  then show ?case
    by (auto simp: accounted_def held_ids_def threads_sum_def queued_ids_def wait_for_def split: option.splits if_splits)
qed (auto simp: accounted_def held_ids_def threads_sum_def queued_ids_def lifeguard_verdict_def pool_dispose_def pool_empty_def)

text \<open>An invariant of every run.\<close>

lemma pool_run_induct [consumes 1, case_names start work call]:
  assumes "pool_run env w" and "P pool_start"
    and "\<And>w w'. pool_run env w \<Longrightarrow> P w \<Longrightarrow> pool_work env w w' \<Longrightarrow> P w'"
    and "\<And>w w'. pool_run env w \<Longrightarrow> P w \<Longrightarrow> pool_call env w w' \<Longrightarrow> P w'"
  shows "P w"
  using assms(1) unfolding pool_run_def
proof (induction rule: rtranclp_induct)
  case (step w w')
  then have "pool_run env w" by (simp add: pool_run_def)
  with step assms(3,4) show ?case by blast
qed (rule assms(2))

lemma start_accounted: "accounted pool_start"
  by (simp add: accounted_def held_ids_def threads_sum_def pool_start_def pool_empty_def queued_ids_def)

lemma run_accounted: "pool_run env w \<Longrightarrow> accounted w"
  by (erule pool_run_induct) (blast intro: start_accounted work_accounted call_accounted)+

text \<open>
  C6: In every interleaving each task the pool accepted is in exactly one place: queued, with one thread,
  settled, or dropped by disposal. So no task is lost and none is settled twice.
\<close>

theorem pool_tasks_conserved:
  assumes "pool_run env w"
  shows "mset (pw_accepted w) =
    mset (queued_ids (pw_pool w)) + threads_sum thread_ids w + mset (map fst (pw_settled w)) + mset (pw_dropped w)"
  using run_accounted [OF assms] by (simp add: accounted_def held_ids_def)

theorem pool_tasks_conserved_witness:
  "mset [U ''a''] = mset (queued_ids (pw_pool entering_a)) + threads_sum thread_ids entering_a
     + mset (map fst (pw_settled entering_a)) + mset (pw_dropped entering_a)"
  using pool_tasks_conserved [OF entering_run] by (simp add: entering_a_def)

section \<open>What the slots and the starting set stand for\<close>

fun starting_ids :: "pool_thread \<Rightarrow> ustr multiset" where
  "starting_ids (Start_Task t r n) = {#pt_id t#}"
| "starting_ids (Run_Spawn t r n) = {#pt_id t#}"
| "starting_ids (Child_Spawned t r n) = {#pt_id t#}"
| "starting_ids (Enter_Slot t r n) = {#pt_id t#}"
| "starting_ids (Resolve t r (After_Start n)) = {#pt_id t#}"
| "starting_ids (Release i n) = {#i#}"
| "starting_ids _ = {#}"

fun slot_ids :: "pool_thread \<Rightarrow> ustr multiset" where
  "slot_ids (Awaiting t r) = {#pt_id t#}"
| "slot_ids _ = {#}"

fun released_ids :: "pool_thread \<Rightarrow> ustr multiset" where
  "released_ids (Release i n) = {#i#}"
| "released_ids _ = {#}"

definition releases_settled :: "pool_world \<Rightarrow> bool" where
  "releases_settled w \<longleftrightarrow> threads_sum released_ids w \<subseteq># mset (map fst (pw_settled w))"

definition tracked :: "pool_world \<Rightarrow> bool" where
  "tracked w \<longleftrightarrow> pl_disposed (pw_pool w)
     \<or> mset (pl_starting (pw_pool w)) = threads_sum starting_ids w
       \<and> mset (map fst (pl_slots (pw_pool w))) = threads_sum slot_ids w"

lemma subseteq_add: "A \<subseteq># B \<Longrightarrow> A \<subseteq># add_mset x B"
  by (metis add_mset_add_single mset_subset_eq_add_left subset_mset.order_trans)

lemma subseteq_drop: "add_mset x A \<subseteq># B \<Longrightarrow> A \<subseteq># B"
  by (metis add_mset_add_single mset_subset_eq_add_left subset_mset.order_trans)

lemma work_releases: "pool_work env w w' \<Longrightarrow> releases_settled w \<Longrightarrow> releases_settled w'"
proof (induction rule: pool_work.induct)
  case (resolves t res e w k p)
  then show ?case
    by (cases e) (auto dest!: multi_member_split intro: subseteq_add simp: releases_settled_def threads_sum_def)
qed (auto dest!: multi_member_split dest: subseteq_drop
      simp: releases_settled_def threads_sum_def pull_again_def split: nat.splits)

lemma call_releases: "pool_call env w w' \<Longrightarrow> releases_settled w \<Longrightarrow> releases_settled w'"
  by (induction rule: pool_call.induct) (auto simp: releases_settled_def threads_sum_def split: wait_outcome.split)

lemma run_releases: "pool_run env w \<Longrightarrow> releases_settled w"
proof (erule pool_run_induct)
  show "releases_settled pool_start" by (simp add: releases_settled_def threads_sum_def pool_start_def)
qed (blast intro: work_releases call_releases)+

lemma ids_parts:
  "(\<Sum>t \<in># M. starting_ids t) \<subseteq># (\<Sum>t \<in># M. thread_ids t) + (\<Sum>t \<in># M. released_ids t)"
  "(\<Sum>t \<in># M. slot_ids t) \<subseteq># (\<Sum>t \<in># M. thread_ids t)"
proof -
  have one: "starting_ids t \<subseteq># thread_ids t + released_ids t" "slot_ids t \<subseteq># thread_ids t" for t
    by (cases t rule: starting_ids.cases; simp)+
  show "(\<Sum>t \<in># M. starting_ids t) \<subseteq># (\<Sum>t \<in># M. thread_ids t) + (\<Sum>t \<in># M. released_ids t)"
  proof (induction M)
    case (add x M)
    from subset_mset.add_mono [OF one(1) [of x] this] show ?case by (simp add: ac_simps)
  qed simp
  show "(\<Sum>t \<in># M. slot_ids t) \<subseteq># (\<Sum>t \<in># M. thread_ids t)"
  proof (induction M)
    case (add x M)
    from subset_mset.add_mono [OF one(2) [of x] this] show ?case by simp
  qed simp
qed

text \<open>An id that is queued or held by one thread is with no other thread.\<close>

lemma held_once:
  assumes "accounted w" and "distinct (pw_accepted w)" and "releases_settled w" and "x \<in># held_ids w"
    and "pw_threads w = M + N" and "x \<in> set (queued_ids (pw_pool w)) \<or> x \<in># (\<Sum>t \<in># N. thread_ids t)"
  shows "x \<notin># (\<Sum>t \<in># M. starting_ids t)" "x \<notin># (\<Sum>t \<in># M. slot_ids t)"
proof -
  have "count (mset (pw_accepted w)) x \<le> 1" using assms(2) by (simp add: count_mset_0_iff distinct_count_atmost_1)
  then have total: "count (mset (queued_ids (pw_pool w))) x + count (\<Sum>t \<in># M. thread_ids t) x
      + count (\<Sum>t \<in># N. thread_ids t) x + count (mset (map fst (pw_settled w))) x \<le> 1"
    using assms(1) by (simp add: accounted_def held_ids_def threads_sum_def assms(5) del: mset_map)
  moreover have "0 < count (mset (queued_ids (pw_pool w))) x + count (\<Sum>t \<in># N. thread_ids t) x"
    using assms(6) by auto
  ultimately have none: "count (\<Sum>t \<in># M. thread_ids t) x = 0" "count (mset (map fst (pw_settled w))) x = 0" by linarith+
  then have "count (\<Sum>t \<in># M. released_ids t) x = 0"
    using assms(3) unfolding releases_settled_def threads_sum_def assms(5)
    by (metis add_is_0 count_union image_mset_union le_zero_eq mset_subset_eq_count sum_mset.union)
  moreover have "count (\<Sum>t \<in># M. starting_ids t) x
      \<le> count (\<Sum>t \<in># M. thread_ids t) x + count (\<Sum>t \<in># M. released_ids t) x"
    using mset_subset_eq_count [OF ids_parts(1) [of M], of x] by (simp only: count_union)
  ultimately show "x \<notin># (\<Sum>t \<in># M. starting_ids t)" unfolding not_in_iff using none(1) by linarith
  show "x \<notin># (\<Sum>t \<in># M. slot_ids t)" unfolding not_in_iff
    using mset_subset_eq_count [OF ids_parts(2) [of M], of x] none(1) by linarith
qed

lemma aput_fresh: "i \<notin> fst ` set m \<Longrightarrow> map fst (aput i v m) = map fst m @ [i]"
  by (induction i v m rule: aput.induct) auto

lemma adel_ids: "map fst (adel i m) = filter (\<lambda>k. k \<noteq> i) (map fst m)"
  by (induction m) (auto simp: adel_def)

lemma filter_others: "i \<notin># A \<Longrightarrow> filter_mset (\<lambda>k. k \<noteq> i) A = A"
  by (induction A) auto

lemma moved_starting: "(\<Sum>x \<in># after_resolve (pt_id t) e. starting_ids x) = starting_ids (Resolve t r e)"
  by (cases e) simp_all

lemma moved_slots [simp]: "(\<Sum>x \<in># after_resolve i e. slot_ids x) = {#}"
  by (cases e) simp_all

lemma pulled_ids [simp]:
  "(\<Sum>x \<in># pull_again n. starting_ids x) = {#}" "(\<Sum>x \<in># pull_again n. slot_ids x) = {#}"
  by (simp_all add: pull_again_def split: nat.split)

text \<open>The child of a task that awaits it is in the task's slot, and the task is not starting.\<close>

lemma awaiting_tracked:
  assumes "Awaiting t r \<in># pw_threads w" and "accounted w" and "distinct (pw_accepted w)" and "releases_settled w"
    and "tracked w" and "\<not> pl_disposed (pw_pool w)"
  obtains M where "pw_threads w = add_mset (Awaiting t r) M"
    "mset (map fst (adel (pt_id t) (pl_slots (pw_pool w)))) = (\<Sum>t \<in># M. slot_ids t)"
    "mset (pl_starting (pw_pool w)) = (\<Sum>t \<in># M. starting_ids t)" "pt_id t \<notin> set (pl_starting (pw_pool w))"
proof -
  obtain M where M: "pw_threads w = add_mset (Awaiting t r) M" using multi_member_split [OF assms(1)] by blast
  note apart = held_once [OF assms(2-4), of "pt_id t" M "{#Awaiting t r#}"]
  have none: "pt_id t \<notin># (\<Sum>t \<in># M. slot_ids t)" "pt_id t \<notin># (\<Sum>t \<in># M. starting_ids t)"
    using apart M by (simp_all add: threads_sum_def held_ids_def)
  from assms(5,6) M have "mset (map fst (pl_slots (pw_pool w))) = add_mset (pt_id t) (\<Sum>t \<in># M. slot_ids t)"
    and st: "mset (pl_starting (pw_pool w)) = (\<Sum>t \<in># M. starting_ids t)"
    by (simp_all add: tracked_def threads_sum_def)
  then have "mset (map fst (adel (pt_id t) (pl_slots (pw_pool w)))) = (\<Sum>t \<in># M. slot_ids t)"
    using none(1) by (simp add: adel_ids filter_others del: mset_map)
  moreover have "pt_id t \<notin> set (pl_starting (pw_pool w))" using none(2) st by (metis set_mset_mset)
  ultimately show ?thesis using M st that by blast
qed

lemma tracked_disposed: "pl_disposed (pw_pool w) \<Longrightarrow> tracked w"
  by (simp add: tracked_def)

lemma work_tracked:
  assumes "pool_work env w w'" and "accounted w" and "distinct (pw_accepted w)" and "releases_settled w" and "tracked w"
  shows "tracked w'"
  using assms
proof (induction rule: pool_work.induct)
  case (pull_takes n w t p)
  then obtain q where q: "pl_queue (pw_pool w) = t # q" "\<not> pl_disposed (pw_pool w)"
    "p = pw_pool w\<lparr>pl_queue := q, pl_starting := List.insert (pt_id t) (pl_starting (pw_pool w))\<rparr>"
    by (auto simp: pull_next_Some)
  have "pt_id t \<notin># threads_sum starting_ids w"
    using held_once(1) [OF pull_takes(3-5), of "pt_id t" "pw_threads w" "{#}"] q(1)
    by (simp add: threads_sum_def held_ids_def queued_ids_def)
  with pull_takes(1,6) q have "pt_id t \<notin> set (pl_starting (pw_pool w))"
    by (metis set_mset_mset tracked_def)
  with pull_takes(1,6) q show ?case
    by (auto dest!: multi_member_split simp: tracked_def threads_sum_def List.insert_def)
next
  case (enters t r n w pid gen now)
  obtain M where M: "pw_threads w = add_mset (Enter_Slot t r n) M" using multi_member_split [OF enters(1)] by blast
  have "pt_id t \<notin># (\<Sum>t \<in># M. slot_ids t)"
    using held_once(2) [OF enters(2-4), of "pt_id t" M "{#Enter_Slot t r n#}"] M
    by (simp add: threads_sum_def held_ids_def)
  moreover have "\<not> pl_disposed (pw_pool w) \<Longrightarrow> mset (map fst (pl_slots (pw_pool w))) = (\<Sum>t \<in># M. slot_ids t)"
    using enters(5) M by (simp add: tracked_def threads_sum_def del: mset_map)
  ultimately have "\<not> pl_disposed (pw_pool w) \<Longrightarrow> pt_id t \<notin> fst ` set (pl_slots (pw_pool w))"
    by (metis list.set_map set_mset_mset)
  with enters(5) M show ?case
    by (auto simp: tracked_def threads_sum_def enter_slot_def aput_fresh simp del: mset_map)
next
  case (exits t r w kill p x res)
  then show ?case
    by (cases "pl_disposed (pw_pool w)")
      (auto simp: tracked_def threads_sum_def leave_slot_def simp del: mset_map elim!: awaiting_tracked)
next
  case (exits_to_retry t r w kill p x res)
  then show ?case
    by (cases "pl_disposed (pw_pool w)")
      (auto simp: tracked_def threads_sum_def leave_slot_def simp del: mset_map elim!: awaiting_tracked)
next
  case (wait_fails_first t w)
  then show ?case
    by (cases "pl_disposed (pw_pool w)")
      (auto simp: tracked_def threads_sum_def wait_failed_def List.insert_def Let_def simp del: mset_map elim!: awaiting_tracked)
next
  case (wait_fails_again t w res err out errs)
  then show ?case
    by (cases "pl_disposed (pw_pool w)")
      (auto simp: tracked_def threads_sum_def wait_failed_def Let_def simp del: mset_map elim!: awaiting_tracked)
next
  case (resolves t res e w k p)
  then show ?case
    by (auto dest!: multi_member_split simp: tracked_def threads_sum_def resolve_waiter_fields [OF resolves(2)]
        moved_starting [of t e res])
qed (auto dest!: multi_member_split simp: tracked_def threads_sum_def pool_moves)

lemma call_tracked: "pool_call env w w' \<Longrightarrow> tracked w \<Longrightarrow> tracked w'"
proof (induction rule: pool_call.induct)
  case (cancels_starting i w p)
  from cancel_other [OF cancels_starting(1)] cancels_starting(2) show ?case by (auto simp: tracked_def threads_sum_def)
next
  case (cancels_running i w s p)
  from cancel_other [OF cancels_running(1)] cancels_running(2) show ?case by (auto simp: tracked_def threads_sum_def)
qed (auto simp: tracked_def threads_sum_def wait_for_def lifeguard_verdict_def pool_dispose_def
      dest!: spawn_queue cancel_queued(3) split: option.splits if_splits)

lemma accepted_grows: "pool_work env w w' \<or> pool_call env w w' \<Longrightarrow> prefix (pw_accepted w) (pw_accepted w')"
  by (auto elim!: pool_work.cases pool_call.cases split: wait_outcome.splits)

lemma accepted_before:
  "pool_work env w w' \<or> pool_call env w w' \<Longrightarrow> distinct (pw_accepted w') \<Longrightarrow> distinct (pw_accepted w)"
  using accepted_grows by (fastforce simp: prefix_def)

lemma run_tracked: "pool_run env w \<Longrightarrow> distinct (pw_accepted w) \<Longrightarrow> tracked w"
proof (induction rule: pool_run_induct)
  case (work w w')
  with accepted_before [of env w w'] show ?case
    by (blast intro: work_tracked run_accounted run_releases)
next
  case (call w w')
  with accepted_before [of env w w'] show ?case by (blast intro: call_tracked)
qed (simp add: tracked_def threads_sum_def pool_start_def pool_empty_def)

section \<open>No more children than the limit\<close>

definition places :: "pool_world \<Rightarrow> nat" where
  "places w = size (threads_sum starting_ids w) + size (threads_sum slot_ids w)"

fun has_child :: "pool_thread \<Rightarrow> bool" where
  "has_child (Child_Spawned t r n) = True"
| "has_child (Enter_Slot t r n) = True"
| "has_child (Awaiting t r) = True"
| "has_child _ = False"

definition children :: "pool_world \<Rightarrow> nat" where
  "children w = size (filter_mset has_child (pw_threads w))"

lemma places_running:
  "tracked w \<Longrightarrow> \<not> pl_disposed (pw_pool w) \<Longrightarrow> places w = running_count (pw_pool w)"
  unfolding tracked_def places_def running_count_def by (metis size_mset length_map add.commute)

lemma work_places:
  assumes "pool_work env w w'" and "tracked w" and "places w \<le> pe_max_concurrency env"
  shows "places w' \<le> pe_max_concurrency env"
  using assms
proof (induction rule: pool_work.induct)
  case (pull_takes n w t p)
  then have "places w < pe_max_concurrency env" by (auto simp: pull_next_Some places_running)
  with pull_takes(1) show ?case
    by (auto dest!: multi_member_split simp: places_def threads_sum_def)
next
  case (resolves t res e w k p)
  then show ?case
    by (cases e) (auto dest!: multi_member_split simp: places_def threads_sum_def)
next
  case (pull_ends n w)
  then show ?case
    by (cases n) (auto dest!: multi_member_split simp: places_def threads_sum_def pull_again_def)
qed (auto dest!: multi_member_split simp: places_def threads_sum_def)

lemma run_places: "pool_run env w \<Longrightarrow> distinct (pw_accepted w) \<Longrightarrow> places w \<le> pe_max_concurrency env"
proof (induction rule: pool_run_induct)
  case (work w w')
  with accepted_before [of env w w'] show ?case by (blast intro: work_places run_tracked)
next
  case (call w w')
  then have "places w' = places w"
    by (auto elim!: pool_call.cases simp: places_def threads_sum_def split: wait_outcome.splits)
  with call accepted_before [of env w w'] show ?case by auto
qed (simp add: places_def threads_sum_def pool_start_def)

lemma children_places: "children w \<le> places w"
proof -
  have "size (filter_mset has_child M) \<le> size (\<Sum>t \<in># M. starting_ids t) + size (\<Sum>t \<in># M. slot_ids t)" for M
  proof (induction M)
    case (add x M)
    then show ?case by (cases x rule: has_child.cases) auto
  qed simp
  then show ?thesis by (simp add: children_def places_def threads_sum_def)
qed

text \<open>
  C7: When every dispatch has an id of its own, no more child processes are alive than the limit of the
  pool, retries, failed waits, cancels and disposal included.
\<close>

theorem pool_children_within_limit:
  assumes "pool_run env w" and "distinct (pw_accepted w)"
  shows "children w \<le> pe_max_concurrency env"
  using children_places run_places [OF assms] by (rule order_trans)

theorem pool_children_within_limit_witness:
  "children entering_a = 1 \<and> children entering_a \<le> pe_max_concurrency one_place"
  using pool_children_within_limit [OF entering_run] by (simp add: entering_a_def children_def)

end
