(* ===== verification/Subagent_Pool_Results.thy ===== *)
theory Subagent_Pool_Results
  imports Subagent_Pool_Rest
begin

text \<open>
  What a wait is told, which tasks are reported as cancelled, and how much is kept of finished tasks.
\<close>

section \<open>The answer is the result of the task asked for\<close>

definition asked_for :: "ustr list \<Rightarrow> ustr \<times> nat \<Rightarrow> bool" where
  "asked_for qs p \<longleftrightarrow> snd p < length qs \<and> qs ! snd p = fst p"

definition told_true :: "ustr list \<Rightarrow> (ustr \<times> subagent_result) set \<Rightarrow> nat \<times> subagent_result option \<Rightarrow> bool" where
  "told_true qs S a \<longleftrightarrow> fst a < length qs \<and> (\<forall>r. snd a = Some r \<longrightarrow> (qs ! fst a, r) \<in> S)"

definition answers_true :: "pool_world \<Rightarrow> bool" where
  "answers_true w \<longleftrightarrow>
     set (pl_completed (pw_pool w)) \<subseteq> set (pw_settled w)
     \<and> (\<forall>p \<in> set (pl_waiters (pw_pool w)). asked_for (pw_asked w) p)
     \<and> (\<forall>a \<in> set (pw_answers w). told_true (pw_asked w) (set (pw_settled w)) a)"

lemma asked_later: "asked_for qs q \<Longrightarrow> asked_for (qs @ [i]) q"
  by (auto simp: asked_for_def nth_append)

lemma asked_now: "asked_for (qs @ [i]) (i, length qs)"
  by (simp add: asked_for_def)

lemma told_later: "told_true qs S a \<Longrightarrow> told_true (qs @ [i]) S a" "told_true qs S a \<Longrightarrow> told_true qs (insert x S) a"
  by (auto simp: told_true_def nth_append)

lemma told_nothing: "asked_for qs (i, k) \<Longrightarrow> told_true qs S (k, None)" "told_true (qs @ [i]) S (length qs, None)"
  by (auto simp: asked_for_def told_true_def)

lemma told_result: "asked_for qs (i, k) \<Longrightarrow> (i, r) \<in> S \<Longrightarrow> told_true qs S (k, Some r)"
  by (auto simp: asked_for_def told_true_def)

lemma answers_unchanged:
  "pl_completed (pw_pool w') = pl_completed (pw_pool w) \<Longrightarrow> pl_waiters (pw_pool w') = pl_waiters (pw_pool w) \<Longrightarrow>
   pw_answers w' = pw_answers w \<Longrightarrow> pw_asked w' = pw_asked w \<Longrightarrow> pw_settled w' = pw_settled w \<Longrightarrow>
   answers_true w \<Longrightarrow> answers_true w'"
  by (simp add: answers_true_def)

lemma aput_in: "set (aput i v m) \<subseteq> insert (i, v) (set m)"
  by (induction i v m rule: aput.induct) auto

lemma adel_in: "set (adel i m) \<subseteq> set m"
  by (auto simp: adel_def)

lemma drop_oldest_in: "set (pl_completed (drop_oldest k p)) \<subseteq> set (pl_completed p)"
proof (induction k p rule: drop_oldest.induct)
  case (1 k p)
  show ?case
  proof (cases "pl_completed_order p")
    case (Cons i order)
    with 1 [OF Cons] adel_in [of i "pl_completed p"] show ?thesis
      by (subst drop_oldest.simps) (auto simp: Cons)
  qed (simp add: drop_oldest.simps)
qed

lemma resolve_waiter_cases:
  assumes "resolve_waiter env i r p = (k, p')"
  obtains j where "k = Some j" "aget (pl_waiters p) i = Some j" "pl_waiters p' = adel i (pl_waiters p)"
      "pl_completed p' = pl_completed p" "pl_completed_order p' = pl_completed_order p"
  | "k = None" "pl_waiters p' = pl_waiters p" "set (pl_completed p') \<subseteq> insert (i, r) (set (pl_completed p))"
proof (cases "aget (pl_waiters p) i")
  case None
  let ?q = "p\<lparr>pl_task_status := aput i (status_of_result r) (pl_task_status p),
      pl_completed := aput i r (pl_completed p), pl_completed_order := pl_completed_order p @ [i]\<rparr>"
  have "k = None" "p' = drop_oldest (pe_max_completed env) ?q"
    using assms None by (auto simp: resolve_waiter_def Let_def)
  with that(2) drop_oldest_in [of "pe_max_completed env" ?q] aput_in [of i r "pl_completed p"] show ?thesis by auto
next
  case (Some j)
  with assms have "k = Some j" "p' = p\<lparr>pl_task_status := aput i (status_of_result r) (pl_task_status p),
      pl_waiters := adel i (pl_waiters p)\<rparr>" by (simp_all add: resolve_waiter_def Let_def)
  with that(1) Some show ?thesis by simp
qed

lemma work_answers: "pool_work env w w' \<Longrightarrow> answers_true w \<Longrightarrow> answers_true w'"
proof (induction rule: pool_work.induct)
  case (resolves t res e w k p)
  from resolves(2) show ?case
  proof (cases rule: resolve_waiter_cases)
    case (1 j)
    have "asked_for (pw_asked w) (pt_id t, j)" using aget_in_set [OF 1(2)] resolves(3) by (auto simp: answers_true_def)
    then have "told_true (pw_asked w) (insert (pt_id t, res) (set (pw_settled w))) (j, Some res)" by (rule told_result) simp
    with resolves(3) 1 adel_in [of "pt_id t" "pl_waiters (pw_pool w)"] show ?thesis
      by (auto simp: answers_true_def intro: told_later)
  next
    case 2
    with resolves(3) show ?thesis by (auto simp: answers_true_def intro: told_later)
  qed
qed (auto elim!: answers_unchanged [rotated 5] simp: pool_moves)

lemma call_answers: "pool_call env w w' \<Longrightarrow> answers_true w \<Longrightarrow> answers_true w'"
proof (induction rule: pool_call.induct)
  case (waits i w out p w1)
  let ?k = "length (pw_asked w)"
  show ?case
  proof (cases out)
    case Wait_Refused
    with waits(1) have "p = pw_pool w" by (auto simp: wait_for_def split: if_splits option.splits)
    with waits(3) show ?thesis
      by (auto simp: Wait_Refused waits(2) answers_true_def intro: told_later asked_later told_nothing)
  next
    case (Wait_Result r)
    with waits(1) have r: "aget (pl_completed (pw_pool w)) i = Some r"
      "p = pw_pool w\<lparr>pl_completed := adel i (pl_completed (pw_pool w))\<rparr>"
      by (auto simp: wait_for_def split: if_splits option.splits)
    from aget_in_set [OF r(1)] waits(3) have "(i, r) \<in> set (pw_settled w)" by (auto simp: answers_true_def)
    then have "told_true (pw_asked w @ [i]) (set (pw_settled w)) (?k, Some r)" by (rule told_result [OF asked_now])
    with waits(3) adel_in [of i "pl_completed (pw_pool w)"] show ?thesis
      by (auto simp: Wait_Result waits(2) r(2) answers_true_def intro: told_later asked_later)
  next
    case (Wait_Replaces j)
    with waits(1) have j: "j = aget (pl_waiters (pw_pool w)) i"
      "p = pw_pool w\<lparr>pl_waiters := aput i ?k (pl_waiters (pw_pool w))\<rparr>"
      by (auto simp: wait_for_def split: if_splits option.splits)
    have "asked_for (pw_asked w) (i, l)" if "j = Some l" for l
      using aget_in_set that j(1) waits(3) by (metis answers_true_def)
    moreover have "asked_for (pw_asked w @ [i]) q" if "q \<in> set (aput i ?k (pl_waiters (pw_pool w)))" for q
    proof (cases "q = (i, ?k)")
      case False
      with that aput_in [of i ?k "pl_waiters (pw_pool w)"] have "q \<in> set (pl_waiters (pw_pool w))" by blast
      with waits(3) have "asked_for (pw_asked w) q" unfolding answers_true_def by blast
      then show ?thesis by (rule asked_later)
    qed (simp add: asked_now)
    ultimately show ?thesis using waits(3)
      by (auto simp: Wait_Replaces waits(2) j(2) answers_true_def intro: told_later told_nothing split: option.split)
  qed
next
  case (cancels_starting i w p)
  from cancel_other [OF cancels_starting(1)] cancels_starting(2) show ?case by (auto elim!: answers_unchanged [rotated 5])
next
  case (cancels_running i w s p)
  from cancel_other [OF cancels_running(1)] cancels_running(2) show ?case by (auto elim!: answers_unchanged [rotated 5])
next
  case (cancels_queued i w t p)
  from cancel_queued(3) [OF cancels_queued(1)] cancels_queued(2) show ?case by (auto elim!: answers_unchanged [rotated 5])
next
  case (disposes w)
  then show ?case by (auto simp: answers_true_def pool_dispose_def pool_empty_def intro: told_nothing)
qed (auto elim!: answers_unchanged [rotated 5] simp: lifeguard_verdict_def dest!: spawn_queue)

text \<open>
  C23: A wait that is told a result is told the one its own task was settled with.
\<close>

theorem waits_get_their_task:
  assumes "pool_run env w" and "(k, Some r) \<in> set (pw_answers w)"
  shows "k < length (pw_asked w) \<and> (pw_asked w ! k, r) \<in> set (pw_settled w)"
proof -
  from assms(1) have "answers_true w"
  proof (induction rule: pool_run_induct)
    case start
    show ?case by (simp add: answers_true_def pool_start_def pool_empty_def)
  qed (blast intro: work_answers call_answers)+
  with assms(2) show ?thesis by (auto simp: answers_true_def told_true_def dest!: bspec)
qed

theorem waits_get_their_task_witness:
  "(0, Some done_a) \<in> set (pw_answers answered_a) \<and> (U ''a'', done_a) \<in> set (pw_settled answered_a)"
  using waits_get_their_task [OF answered_run, of 0 done_a] by (simp add: answered_a_def entering_a_def)

section \<open>Only a task that was cancelled is reported as cancelled\<close>

fun reported :: "pool_thread \<Rightarrow> (ustr \<times> subagent_result) set" where
  "reported (Resolve t r e) = {(pt_id t, r)}"
| "reported _ = {}"

definition cancels_asked :: "pool_world \<Rightarrow> bool" where
  "cancels_asked w \<longleftrightarrow>
     (\<forall>i. aget (pl_kill_reasons (pw_pool w)) i = Some Kill_Cancelled \<longrightarrow> i \<in> set (pw_cancelled w))
     \<and> (\<forall>(i, r) \<in> set (pw_settled w) \<union> (\<Union>t \<in> set_mset (pw_threads w). reported t).
          sr_status r = Some Result_Cancelled \<longrightarrow> i \<in> set (pw_cancelled w))"

lemma settled_status:
  "settle_choose env t kill x = Settled r \<Longrightarrow> sr_status r = Some Result_Cancelled \<Longrightarrow> kill = Some Kill_Cancelled"
  by (auto simp: settle_choose_def settle_killed_def settle_exit_def Let_def split: option.splits if_splits
      elim: kill_status.elims)

lemma other_results [simp]:
  "sr_status (spawn_failed_result i) = Some Result_Failed" "sr_status (wait_failed_result t err out errs) = Some Result_Failed"
  by (simp_all add: spawn_failed_result_def wait_failed_result_def)

lemma moved_reports [simp]: "x \<in># after_resolve i e \<Longrightarrow> reported x = {}" "x \<in># pull_again n \<Longrightarrow> reported x = {}"
  by (cases e; auto) (auto simp: pull_again_def split: nat.splits)

lemma work_cancels: "pool_work env w w' \<Longrightarrow> cancels_asked w \<Longrightarrow> cancels_asked w'"
proof (induction rule: pool_work.induct)
  case (exits t r w kill p x res)
  from exits(2) have p: "kill = aget (pl_kill_reasons (pw_pool w)) (pt_id t)"
    "pl_kill_reasons p = adel (pt_id t) (pl_kill_reasons (pw_pool w))" by (auto simp: leave_slot_def)
  with exits(4) settled_status [OF exits(3)] show ?case
    by (auto dest!: multi_member_split simp: cancels_asked_def aget_adel split: if_splits) (use exits(1) multi_member_split in fastforce)+
next
  case (pull_ends n w)
  obtain M where "pw_threads w = add_mset (Pulling n) M" using multi_member_split [OF pull_ends(1)] by blast
  with pull_ends(3) show ?case by (auto simp: cancels_asked_def)
next
  case (resolves t res e w k p)
  obtain M where "pw_threads w = add_mset (Resolve t res e) M" using multi_member_split [OF resolves(1)] by blast
  with resolves(3) show ?case by (auto simp: cancels_asked_def resolve_waiter_fields [OF resolves(2)])
qed (auto dest!: multi_member_split simp: cancels_asked_def pool_moves aget_adel split: if_splits)

lemma cancels_unchanged:
  "pl_kill_reasons (pw_pool w') = pl_kill_reasons (pw_pool w) \<Longrightarrow> pw_settled w' = pw_settled w \<Longrightarrow>
   (\<Union>t \<in> set_mset (pw_threads w'). reported t) = (\<Union>t \<in> set_mset (pw_threads w). reported t) \<Longrightarrow>
   pw_cancelled w' = pw_cancelled w \<Longrightarrow> cancels_asked w \<Longrightarrow> cancels_asked w'"
  by (simp add: cancels_asked_def)

lemma call_cancels: "pool_call env w w' \<Longrightarrow> cancels_asked w \<Longrightarrow> cancels_asked w'"
proof (induction rule: pool_call.induct)
  case (cancels_starting i w p)
  from cancel_other [OF cancels_starting(1)] cancels_starting(2) show ?case by (auto simp: cancels_asked_def aget_aput split: if_splits)
next
  case (cancels_running i w s p)
  from cancel_other [OF cancels_running(1)] cancels_running(2) show ?case by (auto simp: cancels_asked_def aget_aput split: if_splits)
next
  case (cancels_queued i w t p)
  from cancel_queued [OF cancels_queued(1)] cancels_queued(2) show ?case by (auto simp: cancels_asked_def)
next
  case (judges k w i)
  then show ?case by (auto simp: cancels_asked_def lifeguard_verdict_def aget_aput)
next
  case (disposes w)
  then show ?case by (auto simp: cancels_asked_def pool_dispose_def pool_empty_def)
qed (auto elim!: cancels_unchanged [rotated 4] simp: wait_for_def dest!: spawn_queue split: option.splits if_splits)

text \<open>
  A task is settled as cancelled only if a cancel of it was accepted.
\<close>

theorem only_cancelled_tasks_cancelled:
  assumes "pool_run env w" and "(i, r) \<in> set (pw_settled w)" and "sr_status r = Some Result_Cancelled"
  shows "i \<in> set (pw_cancelled w)"
proof -
  from assms(1) have "cancels_asked w"
  proof (induction rule: pool_run_induct)
    case start
    show ?case by (simp add: cancels_asked_def pool_start_def pool_empty_def)
  qed (blast intro: work_cancels call_cancels)+
  with assms(2,3) show ?thesis by (fastforce simp: cancels_asked_def)
qed

theorem only_cancelled_tasks_cancelled_witness:
  "(U ''a'', cancelled_result (U ''a'')) \<in> set (pw_settled cancelled_a) \<and> U ''a'' \<in> set (pw_cancelled cancelled_a)"
  using only_cancelled_tasks_cancelled [OF cancelled_run, of "U ''a''" "cancelled_result (U ''a'')"]
  by (simp add: cancelled_a_def cancelled_result_def)

section \<open>How much is kept of finished tasks\<close>

definition completed_ok :: "nat \<Rightarrow> pool_state \<Rightarrow> bool" where
  "completed_ok limit p \<longleftrightarrow> distinct (map fst (pl_completed p)) \<and> fst ` set (pl_completed p) \<subseteq> set (pl_completed_order p)
     \<and> length (pl_completed_order p) \<le> limit"

lemma completed_same:
  "pl_completed p' = pl_completed p \<Longrightarrow> pl_completed_order p' = pl_completed_order p \<Longrightarrow>
   completed_ok limit p \<Longrightarrow> completed_ok limit p'"
  by (simp add: completed_ok_def)

lemma completed_adel:
  assumes "completed_ok limit p"
  shows "completed_ok limit (p\<lparr>pl_completed := adel i (pl_completed p)\<rparr>)"
proof -
  have "fst ` set (adel i (pl_completed p)) \<subseteq> fst ` set (pl_completed p)" using adel_in by fastforce
  with assms adel_distinct [of "pl_completed p" i] show ?thesis by (simp add: completed_ok_def order_trans)
qed

lemma drop_oldest_ok:
  assumes "distinct (map fst (pl_completed p))" and "fst ` set (pl_completed p) \<subseteq> set (pl_completed_order p)"
  shows "completed_ok limit (drop_oldest limit p)"
  using assms
proof (induction limit p rule: drop_oldest.induct)
  case (1 limit p)
  show ?case
  proof (cases "pl_completed_order p")
    case (Cons i order)
    show ?thesis
    proof (cases "limit < length (pl_completed_order p)")
      case True
      have "fst ` set (adel i (pl_completed p)) \<subseteq> set order"
        using "1.prems"(2) Cons by (auto simp: adel_def)
      with "1.IH" [OF Cons True] adel_distinct [OF "1.prems"(1), of i] True show ?thesis
        by (subst drop_oldest.simps) (simp add: Cons)
    qed (use "1.prems" Cons in \<open>auto simp: completed_ok_def drop_oldest.simps [of limit p]\<close>)
  qed (use "1.prems" in \<open>auto simp: completed_ok_def drop_oldest.simps\<close>)
qed

lemma resolve_completed:
  assumes "completed_ok (pe_max_completed env) p"
  shows "completed_ok (pe_max_completed env) (snd (resolve_waiter env i r p))"
proof (cases "aget (pl_waiters p) i")
  case None
  have keys: "fst ` set (aput i r (pl_completed p)) \<subseteq> insert i (fst ` set (pl_completed p))" using aput_in by fastforce
  let ?q = "p\<lparr>pl_task_status := aput i (status_of_result r) (pl_task_status p),
      pl_completed := aput i r (pl_completed p), pl_completed_order := pl_completed_order p @ [i]\<rparr>"
  have "completed_ok (pe_max_completed env) (drop_oldest (pe_max_completed env) ?q)"
  proof (rule drop_oldest_ok)
    show "distinct (map fst (pl_completed ?q))" 
      using assms aput_keys_distinct [of "pl_completed p" i r] by (simp add: completed_ok_def)
    have "fst ` set (pl_completed p) \<subseteq> set (pl_completed_order p)" using assms by (simp add: completed_ok_def)
    with keys show "fst ` set (pl_completed ?q) \<subseteq> set (pl_completed_order ?q)" by simp blast
  qed
  then show ?thesis by (simp add: resolve_waiter_def Let_def None)
qed (use assms in \<open>simp add: resolve_waiter_def Let_def completed_ok_def\<close>)

lemma work_completed:
  "pool_work env w w' \<Longrightarrow> completed_ok (pe_max_completed env) (pw_pool w) \<Longrightarrow> completed_ok (pe_max_completed env) (pw_pool w')"
proof (induction rule: pool_work.induct)
  case (resolves t res e w k p)
  with resolve_completed [of env "pw_pool w" "pt_id t" res] show ?case by simp
qed (auto elim!: completed_same [rotated 2] simp: pool_moves)

lemma call_completed:
  "pool_call env w w' \<Longrightarrow> completed_ok (pe_max_completed env) (pw_pool w) \<Longrightarrow> completed_ok (pe_max_completed env) (pw_pool w')"
proof (induction rule: pool_call.induct)
  case (waits i w out p w1)
  then have "completed_ok (pe_max_completed env) p" using completed_adel [of _ "pw_pool w" i]
    by (auto simp: wait_for_def elim!: completed_same [rotated 2] split: option.splits if_splits)
  with waits(2) show ?case by (simp split: wait_outcome.split)
next
  case (cancels_starting i w p)
  from cancel_other [OF cancels_starting(1)] cancels_starting(2) show ?case by (auto elim!: completed_same [rotated 2])
next
  case (cancels_running i w s p)
  from cancel_other [OF cancels_running(1)] cancels_running(2) show ?case by (auto elim!: completed_same [rotated 2])
next
  case (cancels_queued i w t p)
  from cancel_queued [OF cancels_queued(1)] cancels_queued(2) show ?case by (auto elim!: completed_same [rotated 2])
next
  case (disposes w)
  show ?case by (simp add: completed_ok_def pool_dispose_def pool_empty_def)
qed (auto elim!: completed_same [rotated 2] simp: lifeguard_verdict_def dest!: spawn_queue)

text \<open>
  No more finished results are kept than the limit, whatever was settled and taken.
\<close>

theorem completed_bounded:
  assumes "pool_run env w"
  shows "length (pl_completed (pw_pool w)) \<le> pe_max_completed env"
proof -
  from assms have "completed_ok (pe_max_completed env) (pw_pool w)"
  proof (induction rule: pool_run_induct)
    case start
    show ?case by (simp add: completed_ok_def pool_start_def pool_empty_def)
  qed (blast intro: work_completed call_completed)+
  then show ?thesis unfolding completed_ok_def
    by (metis card_length card_mono distinct_card length_map list.set_map finite_set order_trans)
qed

theorem completed_bounded_witness:
  "length (pl_completed (pw_pool cancelled_a)) = 1 \<and> length (pl_completed (pw_pool cancelled_a)) \<le> pe_max_completed one_place"
  using completed_bounded [OF cancelled_run] by (simp add: cancelled_a_def)

end
