(* ===== verification/Subagent_Depth.thy ===== *)
theory Subagent_Depth
  imports Complex_Main Cron
begin

text \<open>
  How deep and how wide subagents nest (\<^verbatim>\<open>crates/hoocode-code-subagents/src/depth.rs\<close>,
  \<^verbatim>\<open>dispatch.rs\<close>): the environment variables every process of a delegation tree reads, the
  environment a child is given (\<open>child_env\<close> of \<^verbatim>\<open>pool.rs\<close>, \<open>warm_child_env\<close> of \<^verbatim>\<open>warm.rs\<close>), and
  how a process completes its own at startup (\<open>subagent_tools\<close> of
  \<^verbatim>\<open>hoocode-code-cli/src/runtime.rs\<close>). The estimate of a task's complexity, made by regular
  expressions, is an argument.
\<close>

section \<open>Environments\<close>

type_synonym process_env = "(ustr \<times> ustr) list"

definition ENV_PREFIXES :: "ustr list" where "ENV_PREFIXES = [U ''HOOCODE_'']"

definition SUBAGENT_DEPTH_ENV :: ustr where "SUBAGENT_DEPTH_ENV = U ''SUBAGENT_DEPTH''"
definition SUBAGENT_MAX_DEPTH_ENV :: ustr where "SUBAGENT_MAX_DEPTH_ENV = U ''SUBAGENT_MAX_DEPTH''"
definition ROOT_CONCURRENCY_ENV :: ustr where "ROOT_CONCURRENCY_ENV = U ''SUBAGENT_CONCURRENCY''"
definition NESTED_CONCURRENCY_ENV :: ustr where "NESTED_CONCURRENCY_ENV = U ''NESTED_SUBAGENT_CONCURRENCY''"
definition DELEGATE_ALLOW_ENV :: ustr where "DELEGATE_ALLOW_ENV = U ''DELEGATE_ALLOW''"
definition SUBAGENT_SKIP_MCP_ENV :: ustr where "SUBAGENT_SKIP_MCP_ENV = U ''SKIP_MCP''"
definition DEFER_MCP_SCHEMAS_ENV :: ustr where "DEFER_MCP_SCHEMAS_ENV = U ''DEFER_MCP_SCHEMAS''"
definition SHELL_DEFAULT_TIMEOUT_ENV :: ustr where
  "SHELL_DEFAULT_TIMEOUT_ENV = U ''HOOCODE_BASH_DEFAULT_TIMEOUT_SECS''"

lemmas env_names = SUBAGENT_DEPTH_ENV_def SUBAGENT_MAX_DEPTH_ENV_def ROOT_CONCURRENCY_ENV_def
  NESTED_CONCURRENCY_ENV_def DELEGATE_ALLOW_ENV_def SUBAGENT_SKIP_MCP_ENV_def DEFER_MCP_SCHEMAS_ENV_def

fun first_set :: "process_env \<Rightarrow> ustr \<Rightarrow> ustr list \<Rightarrow> ustr option" where
  "first_set env name [] = None"
| "first_set env name (p # ps) =
     (case aget env (p @ name) of Some v \<Rightarrow> Some v | None \<Rightarrow> first_set env name ps)"

definition env_var :: "process_env \<Rightarrow> ustr \<Rightarrow> ustr option" where
  "env_var env name = first_set env name ENV_PREFIXES"

definition DEFAULT_MAX_SUBAGENT_DEPTH :: nat where "DEFAULT_MAX_SUBAGENT_DEPTH = 4"
definition DEFAULT_ROOT_CONCURRENCY :: nat where "DEFAULT_ROOT_CONCURRENCY = 12"
definition MIN_ROOT_CONCURRENCY :: nat where "MIN_ROOT_CONCURRENCY = 1"
definition MAX_ROOT_CONCURRENCY :: nat where "MAX_ROOT_CONCURRENCY = 32"
definition NESTED_SUBAGENT_CONCURRENCY :: nat where "NESTED_SUBAGENT_CONCURRENCY = 6"
definition ABSOLUTE_MAX_SUBAGENT_DEPTH :: nat where "ABSOLUTE_MAX_SUBAGENT_DEPTH = 8"

lemmas depth_limits = DEFAULT_MAX_SUBAGENT_DEPTH_def DEFAULT_ROOT_CONCURRENCY_def MIN_ROOT_CONCURRENCY_def
  MAX_ROOT_CONCURRENCY_def NESTED_SUBAGENT_CONCURRENCY_def ABSOLUTE_MAX_SUBAGENT_DEPTH_def

section \<open>Numbers\<close>

text \<open>
  A setting is an \<^verbatim>\<open>f64\<close>: a rational or one of the values \<^verbatim>\<open>is_finite\<close> rejects. \<open>floor_clamp\<close> is
  \<^verbatim>\<open>floor().clamp(lo, hi) as u32\<close>, where not-a-number becomes 0. The rounding of an \<^verbatim>\<open>i64\<close> or
  \<^verbatim>\<open>u64\<close> to \<^verbatim>\<open>f64\<close> is not modelled: it moves only numbers from \<open>2 ^ 53\<close> on, which every use cuts
  to a bound.
\<close>

datatype f64_value = F64 rat | F64_Infinity | F64_Neg_Infinity | F64_NaN

fun is_finite :: "f64_value \<Rightarrow> bool" where
  "is_finite (F64 r) = True"
| "is_finite _ = False"

fun at_least_one :: "f64_value \<Rightarrow> bool" where
  "at_least_one (F64 r) = (1 \<le> r)"
| "at_least_one F64_Infinity = True"
| "at_least_one _ = False"

fun floor_clamp :: "nat \<Rightarrow> nat \<Rightarrow> f64_value \<Rightarrow> nat" where
  "floor_clamp lo hi (F64 r) = nat (max (int lo) (min (int hi) \<lfloor>r\<rfloor>))"
| "floor_clamp lo hi F64_Infinity = hi"
| "floor_clamp lo hi F64_Neg_Infinity = lo"
| "floor_clamp lo hi F64_NaN = 0"

definition u32_max :: nat where "u32_max = 4294967295"

definition depth_parse_int :: "ustr \<Rightarrow> int option" where
  "depth_parse_int s =
     (let s = trim_start s;
          (negative, rest) = (case s of
              [] \<Rightarrow> (False, s)
            | c # cs \<Rightarrow> if c = C CHR ''-'' then (True, cs) else if c = C CHR ''+'' then (False, cs) else (False, s));
          digits = takeWhile is_digit rest
      in if digits = [] then None
         else (let n = (case parse_i64 digits of Some v \<Rightarrow> v | None \<Rightarrow> i64_max)
               in Some (if negative then - n else n)))"

definition env_int :: "process_env \<Rightarrow> ustr \<Rightarrow> int option" where
  "env_int env name = Option.bind (env_var env name) depth_parse_int"

section \<open>Depth and concurrency\<close>

definition clamp_max_subagent_depth :: "f64_value \<Rightarrow> nat" where
  "clamp_max_subagent_depth n =
     (if \<not> is_finite n then DEFAULT_MAX_SUBAGENT_DEPTH else floor_clamp 1 ABSOLUTE_MAX_SUBAGENT_DEPTH n)"

definition current_subagent_depth :: "process_env \<Rightarrow> nat" where
  "current_subagent_depth env =
     (case env_int env SUBAGENT_DEPTH_ENV of
        Some n \<Rightarrow> if 0 < n then nat (min n (int u32_max)) else 0
      | None \<Rightarrow> 0)"

definition resolve_max_subagent_depth :: "f64_value option \<Rightarrow> process_env \<Rightarrow> nat" where
  "resolve_max_subagent_depth setting env =
     (let from_setting = (case setting of
            Some n \<Rightarrow> if is_finite n \<and> at_least_one n then clamp_max_subagent_depth n else DEFAULT_MAX_SUBAGENT_DEPTH
          | None \<Rightarrow> DEFAULT_MAX_SUBAGENT_DEPTH)
      in case env_int env SUBAGENT_MAX_DEPTH_ENV of
           Some n \<Rightarrow> if 1 \<le> n then clamp_max_subagent_depth (F64 (of_int n)) else from_setting
         | None \<Rightarrow> from_setting)"

definition can_spawn_subagent :: "f64_value option \<Rightarrow> process_env \<Rightarrow> bool" where
  "can_spawn_subagent setting env \<longleftrightarrow> current_subagent_depth env < resolve_max_subagent_depth setting env"

definition resolve_nested_concurrency :: "f64_value option \<Rightarrow> process_env \<Rightarrow> nat" where
  "resolve_nested_concurrency setting env =
     (let from_setting = (case setting of
            Some n \<Rightarrow> if is_finite n \<and> at_least_one n then floor_clamp 0 u32_max n else NESTED_SUBAGENT_CONCURRENCY
          | None \<Rightarrow> NESTED_SUBAGENT_CONCURRENCY)
      in case env_int env NESTED_CONCURRENCY_ENV of
           Some n \<Rightarrow> if 1 \<le> n then nat (min n (int u32_max)) else from_setting
         | None \<Rightarrow> from_setting)"

definition clamp_root_concurrency :: "f64_value \<Rightarrow> nat" where
  "clamp_root_concurrency n = floor_clamp MIN_ROOT_CONCURRENCY MAX_ROOT_CONCURRENCY n"

definition resolve_root_concurrency :: "f64_value option \<Rightarrow> process_env \<Rightarrow> nat" where
  "resolve_root_concurrency setting env =
     (case env_int env ROOT_CONCURRENCY_ENV of
        Some n \<Rightarrow> clamp_root_concurrency (F64 (of_int n))
      | None \<Rightarrow> (case setting of
            Some n \<Rightarrow> if is_finite n then clamp_root_concurrency n else DEFAULT_ROOT_CONCURRENCY
          | None \<Rightarrow> DEFAULT_ROOT_CONCURRENCY))"

definition pool_concurrency_for_depth :: "f64_value option \<Rightarrow> f64_value option \<Rightarrow> process_env \<Rightarrow> nat" where
  "pool_concurrency_for_depth root_setting nested_setting env =
     (if 1 \<le> current_subagent_depth env then resolve_nested_concurrency nested_setting env
      else resolve_root_concurrency root_setting env)"

section \<open>Delegation scope and tools\<close>

definition delegate_allow_list :: "process_env \<Rightarrow> ustr list option" where
  "delegate_allow_list env =
     (case env_var env DELEGATE_ALLOW_ENV of
        None \<Rightarrow> None
      | Some raw \<Rightarrow>
          (let list = filter (\<lambda>s. s \<noteq> []) (map trim (split_on (C CHR '','') raw))
           in if list \<noteq> [] then Some list else None))"

definition is_delegate_allowed :: "ustr \<Rightarrow> process_env \<Rightarrow> bool" where
  "is_delegate_allowed subagent_type env =
     (case delegate_allow_list env of None \<Rightarrow> True | Some allow \<Rightarrow> subagent_type \<in> set allow)"

definition subagent_skip_mcp :: "process_env \<Rightarrow> bool" where
  "subagent_skip_mcp env \<longleftrightarrow> env_var env SUBAGENT_SKIP_MCP_ENV = Some (U ''1'')"

definition defer_mcp_schemas :: "process_env \<Rightarrow> bool" where
  "defer_mcp_schemas env \<longleftrightarrow> env_var env DEFER_MCP_SCHEMAS_ENV = Some (U ''1'')"

text \<open>The first three bytes of a name are \<open>mcp\<close> in any case only if its first three characters are.\<close>

definition tool_allowlist_needs_mcp :: "ustr list option \<Rightarrow> bool" where
  "tool_allowlist_needs_mcp tools =
     (case tools of None \<Rightarrow> True
      | Some ts \<Rightarrow> \<exists>t \<in> set ts. eq_ignore_ascii_case (take 3 (trim t)) (U ''mcp''))"

datatype complexity = Low_Complexity | Medium_Complexity | High_Complexity

record task_analysis =
  should_delegate :: bool
  ta_reason :: ustr
  estimated_complexity :: complexity

definition evaluate_with_env :: "(ustr \<Rightarrow> complexity) \<Rightarrow> ustr \<Rightarrow> process_env \<Rightarrow> task_analysis" where
  "evaluate_with_env estimate task env =
     (if \<not> can_spawn_subagent None env then
        (let max_depth = resolve_max_subagent_depth None env
         in \<lparr>should_delegate = False,
             ta_reason = (if max_depth \<le> 1 then U ''Subagents cannot spawn subagents''
                          else U ''Maximum subagent depth ('' @ nat_digits max_depth @ U '') reached''),
             estimated_complexity = Low_Complexity\<rparr>)
      else \<lparr>should_delegate = True, ta_reason = U ''delegated to subagent'', estimated_complexity = estimate task\<rparr>)"

section \<open>The environment of a child, and of a process at startup\<close>

definition own_name :: "ustr \<Rightarrow> ustr" where "own_name name = U ''HOOCODE_'' @ name"

fun remove_all :: "ustr \<Rightarrow> ustr list \<Rightarrow> process_env \<Rightarrow> process_env" where
  "remove_all name [] env = env"
| "remove_all name (p # ps) env = remove_all name ps (adel (p @ name) env)"

text \<open>The depth is a \<^verbatim>\<open>u32\<close>, which wraps in the shipped (release) build.\<close>

definition child_env :: "nat \<Rightarrow> ustr list option \<Rightarrow> process_env \<Rightarrow> process_env" where
  "child_env shell_timeout_secs tools env =
     (let depth = (current_subagent_depth env + 1) mod 2 ^ 32;
          e = remove_all SUBAGENT_DEPTH_ENV ENV_PREFIXES env;
          e = aput (own_name SUBAGENT_DEPTH_ENV) (nat_digits depth) e;
          e = aput SHELL_DEFAULT_TIMEOUT_ENV (nat_digits shell_timeout_secs) e;
          e = (if \<not> tool_allowlist_needs_mcp tools then aput (own_name SUBAGENT_SKIP_MCP_ENV) (U ''1'') e else e)
      in remove_all DEFER_MCP_SCHEMAS_ENV ENV_PREFIXES e)"

record startup_args =
  sa_max_subagent_depth :: "nat option"
  sa_delegate_allow :: "ustr list option"

record startup_settings =
  st_max_subagent_depth :: nat
  st_subagent_concurrency :: nat
  st_nested_subagent_concurrency :: nat

definition seed :: "ustr \<Rightarrow> nat \<Rightarrow> process_env \<Rightarrow> process_env" where
  "seed name n env = (if env_var env name = None then aput (own_name name) (nat_digits n) env else env)"

definition startup_env :: "startup_args \<Rightarrow> startup_settings \<Rightarrow> process_env \<Rightarrow> process_env" where
  "startup_env args settings env =
     (let e = seed SUBAGENT_MAX_DEPTH_ENV (resolve_max_subagent_depth (Some (F64 (of_nat
                 (case sa_max_subagent_depth args of Some n \<Rightarrow> n | None \<Rightarrow> st_max_subagent_depth settings)))) []) env;
          e = seed ROOT_CONCURRENCY_ENV (resolve_root_concurrency (Some (F64 (of_nat
                 (st_subagent_concurrency settings)))) []) e;
          e = seed NESTED_CONCURRENCY_ENV (resolve_nested_concurrency (Some (F64 (of_nat
                 (st_nested_subagent_concurrency settings)))) []) e;
          e = remove_all DELEGATE_ALLOW_ENV ENV_PREFIXES e
      in case sa_delegate_allow args of
           Some allow \<Rightarrow> if allow \<noteq> [] then aput (own_name DELEGATE_ALLOW_ENV) (join (U '','') allow) e else e
         | None \<Rightarrow> e)"

text \<open>
  The rest of \<open>subagent_tools\<close>: a process that gets the Agent tool and was not started with
  \<^verbatim>\<open>--task-id\<close> turns warm dispatch on when the flag or the setting says so.
\<close>

definition WARM_SUBAGENTS_ENV :: ustr where "WARM_SUBAGENTS_ENV = U ''WARM_SUBAGENTS''"
definition WARM_WORKER_ENV :: ustr where "WARM_WORKER_ENV = U ''HOOCODE_INTERNAL_WARM_WORKER''"

definition warm_subagents_enabled :: "process_env \<Rightarrow> bool" where
  "warm_subagents_enabled env \<longleftrightarrow> env_var env WARM_SUBAGENTS_ENV = Some (U ''1'')"

definition startup_warm :: "bool \<Rightarrow> bool \<Rightarrow> bool \<Rightarrow> process_env \<Rightarrow> process_env" where
  "startup_warm allowed is_subagent_child warm env =
     (if allowed \<and> \<not> is_subagent_child \<and> warm then aput (own_name WARM_SUBAGENTS_ENV) (U ''1'') env else env)"

text \<open>What a warm worker's process is given on top of the environment it inherits.\<close>

definition warm_child_env :: "nat \<Rightarrow> ustr list option \<Rightarrow> process_env \<Rightarrow> process_env" where
  "warm_child_env shell_timeout_secs tools env =
     (let depth = (current_subagent_depth env + 1) mod 2 ^ 32;
          e = aput (own_name SUBAGENT_DEPTH_ENV) (nat_digits depth) env;
          e = aput SHELL_DEFAULT_TIMEOUT_ENV (nat_digits shell_timeout_secs) e;
          e = aput WARM_WORKER_ENV (U ''1'') e
      in if \<not> tool_allowlist_needs_mcp tools then aput (own_name SUBAGENT_SKIP_MCP_ENV) (U ''1'') e else e)"

definition subagents_allowed :: "bool \<Rightarrow> bool \<Rightarrow> bool \<Rightarrow> bool" where
  "subagents_allowed light enabled can_spawn \<longleftrightarrow> \<not> light \<and> enabled \<and> can_spawn"

section \<open>Reading back what was written\<close>

lemma own_name_eq [simp]: "own_name a = own_name b \<longleftrightarrow> a = b"
  by (simp add: own_name_def)

lemma env_var_own: "env_var env name = aget env (own_name name)"
  by (simp add: env_var_def ENV_PREFIXES_def own_name_def split: option.split)

lemma aget_remove_all [simp]:
  "aget (remove_all name ENV_PREFIXES env) k = (if k = own_name name then None else aget env k)"
  by (simp add: ENV_PREFIXES_def own_name_def amap.get_del)

lemma shell_timeout_own: "SHELL_DEFAULT_TIMEOUT_ENV = own_name (U ''BASH_DEFAULT_TIMEOUT_SECS'')"
  by (simp add: SHELL_DEFAULT_TIMEOUT_ENV_def own_name_def U_def)

lemma read_nat_digits:
  assumes "int n \<le> i64_max"
  shows "depth_parse_int (nat_digits n) = Some (int n)"
proof -
  obtain c cs where cs: "nat_digits n = c # cs" using nat_digits_read [of n] by (cases "nat_digits n") auto
  from nat_digits_read [of n] have digits: "list_all is_digit (nat_digits n)" and c: "is_digit c"
    and val: "digits_value (nat_digits n) = int n" by (simp_all add: cs)
  from c have "trim_start (nat_digits n) = nat_digits n"
    by (auto simp: cs trim_start_def is_ws_def is_digit_def)
  moreover from c have signs: "c \<noteq> C CHR ''-''" "c \<noteq> C CHR ''+''" by (auto simp: is_digit_def ustr_eval)
  moreover have "parse_i64 (nat_digits n) = Some (int n)"
    using assms digits val signs by (simp add: parse_i64_def cs in_i64_def i64_min_def)
  ultimately show ?thesis using takeWhile_digits [OF digits] by (simp add: depth_parse_int_def cs Let_def)
qed

section \<open>What a child and its startup change\<close>

lemma env_int_seed:
  "env_int (seed a n env) b = (if a = b \<and> env_var env a = None then depth_parse_int (nat_digits n) else env_int env b)"
  by (auto simp: env_int_def seed_def env_var_own amap.get_put)

lemma env_int_cong: "aget e1 (own_name name) = aget e2 (own_name name) \<Longrightarrow> env_int e1 name = env_int e2 name"
  by (simp add: env_int_def env_var_own)

lemma startup_other:
  assumes "name \<notin> {SUBAGENT_MAX_DEPTH_ENV, ROOT_CONCURRENCY_ENV, NESTED_CONCURRENCY_ENV, DELEGATE_ALLOW_ENV}"
  shows "aget (startup_env args settings env) (own_name name) = aget env (own_name name)"
  using assms by (simp add: startup_env_def Let_def seed_def amap.get_put split: option.split)

lemma startup_kept:
  assumes "aget env (own_name name) \<noteq> None" and "name \<noteq> DELEGATE_ALLOW_ENV"
  shows "aget (startup_env args settings env) (own_name name) = aget env (own_name name)"
  using assms by (auto simp: startup_env_def Let_def seed_def amap.get_put env_var_own split: option.split)

lemma child_depth_value:
  assumes "current_subagent_depth env < u32_max"
  shows "env_int (child_env secs tools env) SUBAGENT_DEPTH_ENV = Some (int (current_subagent_depth env + 1))"
proof -
  from assms have "(current_subagent_depth env + 1) mod 2 ^ 32 = current_subagent_depth env + 1"
    "int (current_subagent_depth env + 1) \<le> i64_max" by (simp_all add: u32_max_def i64_max_def)
  then show ?thesis
    using read_nat_digits [of "current_subagent_depth env + 1"]
    by (simp add: child_env_def Let_def env_int_def env_var_own amap.get_put shell_timeout_own env_names)
qed

lemma child_other:
  assumes "name \<in> {SUBAGENT_MAX_DEPTH_ENV, ROOT_CONCURRENCY_ENV, NESTED_CONCURRENCY_ENV, DELEGATE_ALLOW_ENV}"
  shows "aget (child_env secs tools env) (own_name name) = aget env (own_name name)"
  using assms by (auto simp: child_env_def Let_def amap.get_put shell_timeout_own env_names)

lemma depth_of_value: "env_int env SUBAGENT_DEPTH_ENV = Some (int n) \<Longrightarrow> n \<le> u32_max \<Longrightarrow> current_subagent_depth env = n"
  by (simp add: current_subagent_depth_def)

lemma floor_clamp_bounds: "lo \<le> hi \<Longrightarrow> n \<noteq> F64_NaN \<Longrightarrow> lo \<le> floor_clamp lo hi n \<and> floor_clamp lo hi n \<le> hi"
  by (cases n) auto

lemma max_depth_range: "1 \<le> resolve_max_subagent_depth setting env" "resolve_max_subagent_depth setting env \<le> 8"
proof -
  have "1 \<le> clamp_max_subagent_depth n \<and> clamp_max_subagent_depth n \<le> 8" for n
    using floor_clamp_bounds [of 1 8 n] by (cases n) (simp_all add: clamp_max_subagent_depth_def depth_limits)
  then show "1 \<le> resolve_max_subagent_depth setting env" "resolve_max_subagent_depth setting env \<le> 8"
    by (simp_all add: resolve_max_subagent_depth_def Let_def depth_limits split: option.split)
qed

section \<open>A chain of delegations\<close>

text \<open>A child delegated to while the process may spawn: its environment, completed at its own startup.\<close>

inductive child_of :: "process_env \<Rightarrow> process_env \<Rightarrow> bool" where
  "can_spawn_subagent None env \<Longrightarrow> child_of env (startup_env args settings (child_env secs tools env))"

inductive delegated :: "process_env \<Rightarrow> nat \<Rightarrow> process_env \<Rightarrow> bool" where
  root: "delegated (startup_env args settings env) 0 (startup_env args settings env)"
| child: "delegated r n env \<Longrightarrow> child_of env e \<Longrightarrow> delegated r (Suc n) e"

lemma startup_max_set: "aget (startup_env args settings env) (own_name SUBAGENT_MAX_DEPTH_ENV) \<noteq> None"
  by (auto simp: startup_env_def Let_def seed_def amap.get_put env_var_own env_names split: option.split)

lemma startup_nested_set: "aget (startup_env args settings env) (own_name NESTED_CONCURRENCY_ENV) \<noteq> None"
  by (auto simp: startup_env_def Let_def seed_def amap.get_put env_var_own env_names split: option.split)

lemma child_of_depth:
  assumes "child_of env e"
  shows "current_subagent_depth e = Suc (current_subagent_depth env)" and "current_subagent_depth e \<le> resolve_max_subagent_depth None env"
  using assms
proof (induction rule: child_of.induct)
  case (1 env args settings secs tools)
  from 1 have less: "current_subagent_depth env < resolve_max_subagent_depth None env" by (simp add: can_spawn_subagent_def)
  also note max_depth_range(2)
  finally have small: "current_subagent_depth env < 8" .
  have "env_int (startup_env args settings (child_env secs tools env)) SUBAGENT_DEPTH_ENV = Some (int (current_subagent_depth env + 1))"
    using child_depth_value [of env secs tools] small
    by (subst env_int_cong [OF startup_other]) (simp_all add: env_names u32_max_def)
  with small have eq: "current_subagent_depth (startup_env args settings (child_env secs tools env)) = current_subagent_depth env + 1"
    by (intro depth_of_value) (simp_all add: u32_max_def)
  { case 1 show ?case using eq by simp }
  { case 2 show ?case using eq less by simp }
qed

lemma child_keeps:
  assumes "child_of env e" and "name \<in> {SUBAGENT_MAX_DEPTH_ENV, ROOT_CONCURRENCY_ENV, NESTED_CONCURRENCY_ENV}"
    and "aget env (own_name name) \<noteq> None"
  shows "aget e (own_name name) = aget env (own_name name)"
proof -
  have "name \<noteq> DELEGATE_ALLOW_ENV" using assms(2) by (auto simp: env_names)
  with assms show ?thesis
    by (auto elim!: child_of.cases simp: startup_kept child_other)
qed

lemma max_depth_cong:
  "aget e1 (own_name SUBAGENT_MAX_DEPTH_ENV) = aget e2 (own_name SUBAGENT_MAX_DEPTH_ENV)
   \<Longrightarrow> resolve_max_subagent_depth s e1 = resolve_max_subagent_depth s e2"
  using env_int_cong [of e1 SUBAGENT_MAX_DEPTH_ENV e2] by (simp add: resolve_max_subagent_depth_def)

text \<open>
  Along a chain of delegations every process is one level deeper than the one it was started by,
  all agree on the root's cap, which is at most 8 whatever the variables and settings say, and no
  process below the root is deeper than it.
\<close>

theorem delegation_depth_bounded:
  assumes "delegated r n e"
  shows "current_subagent_depth e = current_subagent_depth r + n
     \<and> resolve_max_subagent_depth None e = resolve_max_subagent_depth None r
     \<and> current_subagent_depth e \<le> max (current_subagent_depth r) (resolve_max_subagent_depth None r)
     \<and> resolve_max_subagent_depth None r \<le> 8"
proof -
  have "aget e (own_name SUBAGENT_MAX_DEPTH_ENV) \<noteq> None \<and> current_subagent_depth e = current_subagent_depth r + n
     \<and> resolve_max_subagent_depth None e = resolve_max_subagent_depth None r
     \<and> current_subagent_depth e \<le> max (current_subagent_depth r) (resolve_max_subagent_depth None r)"
    using assms
  proof (induction rule: delegated.induct)
    case (root args settings env)
    show ?case using startup_max_set by simp
  next
    case (child r n env e)
    from child_keeps [OF child.hyps(2), of SUBAGENT_MAX_DEPTH_ENV] child.IH
    have "aget e (own_name SUBAGENT_MAX_DEPTH_ENV) = aget env (own_name SUBAGENT_MAX_DEPTH_ENV)" by simp
    with child.IH child_of_depth [OF child.hyps(2)] max_depth_cong [of e env None] show ?case by simp
  qed
  then show ?thesis using max_depth_range(2) by blast
qed

text \<open>A machine where nothing is set: the settings' defaults, one child.\<close>

definition default_settings :: startup_settings where
  "default_settings = \<lparr>st_max_subagent_depth = 4, st_subagent_concurrency = 12, st_nested_subagent_concurrency = 6\<rparr>"

definition plain_start :: process_env where
  "plain_start = startup_env \<lparr>sa_max_subagent_depth = None, sa_delegate_allow = None\<rparr> default_settings []"

definition plain_child :: process_env where
  "plain_child = startup_env \<lparr>sa_max_subagent_depth = None, sa_delegate_allow = None\<rparr> default_settings
     (child_env 1200 None plain_start)"

lemma plain_values:
  "env_int plain_start SUBAGENT_DEPTH_ENV = None" "env_int plain_start SUBAGENT_MAX_DEPTH_ENV = Some 4"
  "env_int plain_start ROOT_CONCURRENCY_ENV = Some 12" "env_int plain_start NESTED_CONCURRENCY_ENV = Some 6"
proof -
  have "depth_parse_int (nat_digits 4) = Some 4" "depth_parse_int (nat_digits 12) = Some 12"
    "depth_parse_int (nat_digits 6) = Some 6"
    using read_nat_digits [of 4] read_nat_digits [of 12] read_nat_digits [of 6] by (simp_all add: i64_max_def)
  moreover have "resolve_max_subagent_depth (Some (F64 4)) [] = 4" "resolve_root_concurrency (Some (F64 12)) [] = 12"
    "resolve_nested_concurrency (Some (F64 6)) [] = 6"
    by (simp_all add: resolve_max_subagent_depth_def resolve_root_concurrency_def resolve_nested_concurrency_def
        clamp_max_subagent_depth_def clamp_root_concurrency_def depth_limits env_int_def env_var_own u32_max_def)
  ultimately show "env_int plain_start SUBAGENT_DEPTH_ENV = None" "env_int plain_start SUBAGENT_MAX_DEPTH_ENV = Some 4"
    "env_int plain_start ROOT_CONCURRENCY_ENV = Some 12" "env_int plain_start NESTED_CONCURRENCY_ENV = Some 6"
    by (simp_all add: plain_start_def default_settings_def startup_env_def Let_def env_int_def seed_def env_var_own
        amap.get_put env_names)
qed

lemma plain_depth: "current_subagent_depth plain_start = 0" "resolve_max_subagent_depth None plain_start = 4"
  by (simp_all add: current_subagent_depth_def resolve_max_subagent_depth_def clamp_max_subagent_depth_def plain_values depth_limits)

lemma plain_delegates: "delegated plain_start 1 plain_child"
proof -
  have "child_of plain_start plain_child"
    unfolding plain_child_def by (rule child_of.intros) (simp add: can_spawn_subagent_def plain_depth)
  with delegated.child [OF delegated.root] show ?thesis unfolding plain_start_def One_nat_def .
qed

theorem delegation_depth_bounded_witness:
  "current_subagent_depth plain_child = 1 \<and> resolve_max_subagent_depth None plain_child = 4"
  using delegation_depth_bounded [OF plain_delegates] by (simp add: plain_depth)

section \<open>Warm workers\<close>

text \<open>
  A worker of the warm pool of a process whose warm dispatch is on. It is started without
  \<^verbatim>\<open>--task-id\<close>, so its own startup may turn the flag on once more; a child of the cold pool is
  started with it, and its startup leaves the flag alone.
\<close>

inductive warm_child_of :: "process_env \<Rightarrow> process_env \<Rightarrow> bool" where
  "can_spawn_subagent None env \<Longrightarrow> warm_subagents_enabled env \<Longrightarrow>
   warm_child_of env (startup_warm allowed False warm (startup_env args settings (warm_child_env secs tools env)))"

lemma warm_child_enabled: "warm_child_of env e \<Longrightarrow> warm_subagents_enabled env"
  by (auto elim: warm_child_of.cases)

lemma worker_own: "WARM_WORKER_ENV = own_name (U ''INTERNAL_WARM_WORKER'')"
  by (simp add: WARM_WORKER_ENV_def own_name_def ustr_eval)

lemma startup_warm_other:
  "name \<noteq> WARM_SUBAGENTS_ENV \<Longrightarrow> aget (startup_warm allowed c warm env) (own_name name) = aget env (own_name name)"
  by (simp add: startup_warm_def amap.get_put)

lemma warm_child_other:
  assumes "name \<in> {SUBAGENT_MAX_DEPTH_ENV, ROOT_CONCURRENCY_ENV, NESTED_CONCURRENCY_ENV, WARM_SUBAGENTS_ENV}"
  shows "aget (warm_child_env secs tools env) (own_name name) = aget env (own_name name)"
  using assms
  by (auto simp: warm_child_env_def Let_def amap.get_put shell_timeout_own worker_own env_names
      WARM_SUBAGENTS_ENV_def)

definition any_child_of :: "process_env \<Rightarrow> process_env \<Rightarrow> bool" where
  "any_child_of env e \<longleftrightarrow> child_of env e \<or> warm_child_of env e"

lemma any_child_can_spawn: "any_child_of env e \<Longrightarrow> can_spawn_subagent None env"
  by (auto simp: any_child_of_def elim: child_of.cases warm_child_of.cases)

lemma any_child_depth:
  assumes "any_child_of env e"
  shows "current_subagent_depth e = Suc (current_subagent_depth env)"
proof (cases "child_of env e")
  case True
  then show ?thesis by (rule child_of_depth(1))
next
  case False
  with assms have "warm_child_of env e" by (simp add: any_child_of_def)
  then show ?thesis
  proof (induction rule: warm_child_of.induct)
    case (1 env allowed warm args settings secs tools)
    from 1(1) have "current_subagent_depth env < resolve_max_subagent_depth None env"
      by (simp add: can_spawn_subagent_def)
    also note max_depth_range(2)
    finally have small: "current_subagent_depth env < 8" .
    let ?e = "warm_child_env secs tools env" and ?d = "current_subagent_depth env + 1"
    have "?d mod 2 ^ 32 = ?d" "int ?d \<le> i64_max" using small by (simp_all add: i64_max_def)
    with read_nat_digits [of ?d] have "env_int ?e SUBAGENT_DEPTH_ENV = Some (int ?d)"
      by (simp add: warm_child_env_def Let_def env_int_def env_var_own amap.get_put shell_timeout_own
          worker_own env_names)
    moreover have "aget (startup_warm allowed False warm (startup_env args settings ?e)) (own_name SUBAGENT_DEPTH_ENV)
        = aget ?e (own_name SUBAGENT_DEPTH_ENV)"
      by (subst startup_warm_other, simp add: env_names WARM_SUBAGENTS_ENV_def,
          rule startup_other) (simp add: env_names)
    ultimately have "env_int (startup_warm allowed False warm (startup_env args settings ?e)) SUBAGENT_DEPTH_ENV
        = Some (int ?d)" using env_int_cong by metis
    with small have "current_subagent_depth (startup_warm allowed False warm (startup_env args settings ?e)) = ?d"
      by (intro depth_of_value) (simp_all add: u32_max_def)
    then show ?case by simp
  qed
qed

lemma any_child_keeps:
  assumes "any_child_of env e" and "name \<in> {SUBAGENT_MAX_DEPTH_ENV, NESTED_CONCURRENCY_ENV}"
    and "aget env (own_name name) \<noteq> None"
  shows "aget e (own_name name) = aget env (own_name name)"
proof (cases "child_of env e")
  case True
  with assms child_keeps [OF True, of name] show ?thesis by auto
next
  case False
  with assms(1) have "warm_child_of env e" by (simp add: any_child_of_def)
  moreover have "name \<noteq> DELEGATE_ALLOW_ENV" "name \<noteq> WARM_SUBAGENTS_ENV"
    using assms(2) by (auto simp: env_names WARM_SUBAGENTS_ENV_def)
  ultimately show ?thesis
    using assms(2,3)
    by (auto elim!: warm_child_of.cases simp: startup_warm_other startup_kept warm_child_other)
qed

text \<open>The flag for warm dispatch is the same in the whole tree.\<close>

lemma any_child_warm:
  assumes "any_child_of env e"
  shows "warm_subagents_enabled e = warm_subagents_enabled env"
proof (cases "child_of env e")
  case True
  have "aget (child_env secs tools env) (own_name WARM_SUBAGENTS_ENV) = aget env (own_name WARM_SUBAGENTS_ENV)"
    for secs tools env
    by (auto simp: child_env_def Let_def amap.get_put shell_timeout_own env_names WARM_SUBAGENTS_ENV_def)
  with True show ?thesis
    by (auto elim!: child_of.cases simp: warm_subagents_enabled_def env_var_own
        startup_other env_names WARM_SUBAGENTS_ENV_def)
next
  case False
  with assms have "warm_child_of env e" by (simp add: any_child_of_def)
  then show ?thesis
  proof (induction rule: warm_child_of.induct)
    case (1 env allowed warm args settings secs tools)
    have "aget (startup_env args settings (warm_child_env secs tools env)) (own_name WARM_SUBAGENTS_ENV)
        = aget env (own_name WARM_SUBAGENTS_ENV)"
      by (subst startup_other) (simp_all add: warm_child_other env_names WARM_SUBAGENTS_ENV_def)
    with 1(2) show ?case
      by (simp add: startup_warm_def warm_subagents_enabled_def env_var_own amap.get_put)
  qed
qed

section \<open>How many processes can live\<close>

text \<open>
  The processes of a delegation at one moment: a process, the children its cold pool runs, the
  workers of its warm pool that run a task, and the workers that are parked between tasks. The
  cold pool has at most its concurrency of children (\<open>pool_children_within_limit\<close> of the pool).
  The warm pool has a semaphore of its own with the same number of permits, one held by each
  task, and parks at most \<open>max_per_key\<close> idle workers of one configuration (agent type, model,
  effort, provider); \<open>q\<close> bounds the configurations a process has parked workers of. A process
  that is being stopped is not counted. The settings files of the processes may say anything.
\<close>

definition max_per_key :: nat where "max_per_key = 2"

datatype process_tree = Process process_env "process_tree list" "process_tree list" "process_tree list"

fun tree_env :: "process_tree \<Rightarrow> process_env" where "tree_env (Process env cold busy parked) = env"

fun subagents :: "process_tree \<Rightarrow> nat" where
  "subagents (Process env cold busy parked) =
     (\<Sum>c\<leftarrow>cold. Suc (subagents c)) + (\<Sum>c\<leftarrow>busy. Suc (subagents c)) + (\<Sum>c\<leftarrow>parked. Suc (subagents c))"

definition parked_keys_ok :: "nat \<Rightarrow> process_tree list \<Rightarrow> bool" where
  "parked_keys_ok q parked \<longleftrightarrow> (\<exists>keys :: ustr list. length keys = length parked
     \<and> (\<forall>k. count_list keys k \<le> max_per_key) \<and> card (set keys) \<le> q)"

inductive live_tree :: "nat \<Rightarrow> process_tree \<Rightarrow> bool" for q where
  "length cold \<le> pool_concurrency_for_depth root_setting nested_setting env \<Longrightarrow>
   length busy \<le> pool_concurrency_for_depth root_setting' nested_setting' env \<Longrightarrow>
   parked_keys_ok q parked \<Longrightarrow>
   \<forall>c \<in> set cold. live_tree q c \<and> child_of env (tree_env c) \<Longrightarrow>
   \<forall>c \<in> set busy. live_tree q c \<and> warm_child_of env (tree_env c) \<Longrightarrow>
   \<forall>c \<in> set parked. live_tree q c \<and> warm_child_of env (tree_env c) \<Longrightarrow>
   live_tree q (Process env cold busy parked)"

lemma sum_at_most: "(\<And>c. c \<in> set cs \<Longrightarrow> f c \<le> (b :: nat)) \<Longrightarrow> length cs \<le> k \<Longrightarrow> (\<Sum>c\<leftarrow>cs. f c) \<le> k * b"
proof (induction cs arbitrary: k)
  case (Cons c cs)
  then obtain j where "k = Suc j" by (cases k) auto
  moreover have "f c \<le> b" using Cons.prems(1) by simp
  ultimately show ?case using Cons.IH [of j] Cons.prems by (simp add: add_le_mono)
qed simp

lemma parked_at_most:
  assumes "parked_keys_ok q parked"
  shows "length parked \<le> 2 * q"
proof -
  from assms obtain keys :: "ustr list" where keys: "length keys = length parked"
    "\<forall>k. count_list keys k \<le> max_per_key" "card (set keys) \<le> q" by (auto simp: parked_keys_ok_def)
  have "length keys = (\<Sum>k \<in> set keys. count_list keys k)" by (simp add: sum_count_set)
  also have "\<dots> \<le> (\<Sum>k \<in> set keys. max_per_key)" by (rule sum_mono) (use keys(2) in simp)
  also have "\<dots> \<le> 2 * q" using keys(3) by (simp add: max_per_key_def)
  finally show ?thesis using keys(1) by simp
qed

text \<open>How many children a process of pool width \<open>w\<close> can have, and what its tree comes to.\<close>

definition children_of_width :: "bool \<Rightarrow> nat \<Rightarrow> nat \<Rightarrow> nat" where
  "children_of_width warm q w = (if warm then 2 * w + 2 * q else w)"

lemma tree_at_most:
  assumes "length cold \<le> w" and "length busy \<le> w" and "parked_keys_ok q parked"
    and "\<forall>c \<in> set busy \<union> set parked. warm_child_of env (tree_env c)"
    and "\<And>c. c \<in> set cold \<union> set busy \<union> set parked \<Longrightarrow> Suc (subagents c) \<le> b"
  shows "subagents (Process env cold busy parked) \<le> children_of_width (warm_subagents_enabled env) q w * b"
proof (cases "warm_subagents_enabled env")
  case True
  have "(\<Sum>c\<leftarrow>cold. Suc (subagents c)) \<le> w * b" "(\<Sum>c\<leftarrow>busy. Suc (subagents c)) \<le> w * b"
    "(\<Sum>c\<leftarrow>parked. Suc (subagents c)) \<le> 2 * q * b"
    using assms parked_at_most [OF assms(3)] by (intro sum_at_most; simp)+
  with True show ?thesis by (simp add: children_of_width_def algebra_simps)
next
  case False
  then have none: "c \<notin> set busy \<union> set parked" for c using assms(4) warm_child_enabled by blast
  have "busy = []" "parked = []" using none [of "hd busy"] none [of "hd parked"] list.set_sel(1) by auto
  moreover have "(\<Sum>c\<leftarrow>cold. Suc (subagents c)) \<le> w * b" using assms by (intro sum_at_most; simp)
  ultimately show ?thesis using False by (simp add: children_of_width_def)
qed

lemma nested_width:
  assumes "env_int env NESTED_CONCURRENCY_ENV = Some (int w)" and "1 \<le> w" and "w \<le> u32_max" and "0 < current_subagent_depth env"
  shows "pool_concurrency_for_depth rs ns env = w"
  using assms by (simp add: pool_concurrency_for_depth_def resolve_nested_concurrency_def)

lemma live_tree_any_child:
  assumes "live_tree q (Process env cold busy parked)" and "c \<in> set cold \<union> set busy \<union> set parked"
  shows "any_child_of env (tree_env c)"
  using assms by (auto elim: live_tree.cases simp: any_child_of_def)

lemma subagents_below:
  assumes "live_tree q t" and "env_int (tree_env t) NESTED_CONCURRENCY_ENV = Some (int w)" and "1 \<le> w" and "w \<le> u32_max"
    and "0 < current_subagent_depth (tree_env t)" and "resolve_max_subagent_depth None (tree_env t) = m"
    and "aget (tree_env t) (own_name SUBAGENT_MAX_DEPTH_ENV) \<noteq> None"
    and "warm_subagents_enabled (tree_env t) = warm"
  shows "subagents t \<le> (\<Sum>i < m - current_subagent_depth (tree_env t). children_of_width warm q w ^ Suc i)"
  using assms
proof (induction rule: live_tree.induct)
  case (1 cold rs ns env busy rs' ns' parked)
  let ?d = "current_subagent_depth env" and ?W = "children_of_width warm q w"
  from 1 have width: "length cold \<le> w" "length busy \<le> w"
    using nested_width [of env w rs ns] nested_width [of env w rs' ns'] by simp_all
  have kids: "any_child_of env (tree_env c)" if "c \<in> set cold \<union> set busy \<union> set parked" for c
    using that 1(4-6) by (auto simp: any_child_of_def)
  show ?case
  proof (cases "set cold \<union> set busy \<union> set parked = {}")
    case False
    from ex_in_conv [THEN iffD2, OF this] obtain c where "c \<in> set cold \<union> set busy \<union> set parked"
      by (elim exE)
    with kids any_child_can_spawn have "can_spawn_subagent None env" by blast
    with 1 have less: "?d < m" by (simp add: can_spawn_subagent_def)
    have "Suc (subagents c) \<le> Suc (\<Sum>i < m - Suc ?d. ?W ^ Suc i)"
      if c: "c \<in> set cold \<union> set busy \<union> set parked" for c
    proof -
      note ch = kids [OF c]
      have set: "aget env (own_name NESTED_CONCURRENCY_ENV) \<noteq> None" "aget env (own_name SUBAGENT_MAX_DEPTH_ENV) \<noteq> None"
        using 1 by (simp_all add: env_int_def env_var_own bind_eq_Some_conv) blast
      have keep: "aget (tree_env c) (own_name NESTED_CONCURRENCY_ENV) = aget env (own_name NESTED_CONCURRENCY_ENV)"
        "aget (tree_env c) (own_name SUBAGENT_MAX_DEPTH_ENV) = aget env (own_name SUBAGENT_MAX_DEPTH_ENV)"
        using any_child_keeps [OF ch _ set(1)] any_child_keeps [OF ch _ set(2)] by simp_all
      have "env_int (tree_env c) NESTED_CONCURRENCY_ENV = Some (int w)" "resolve_max_subagent_depth None (tree_env c) = m"
        using env_int_cong [OF keep(1)] max_depth_cong [OF keep(2)] 1 by simp_all
      moreover have "current_subagent_depth (tree_env c) = Suc ?d" using any_child_depth [OF ch] .
      moreover have "aget (tree_env c) (own_name SUBAGENT_MAX_DEPTH_ENV) \<noteq> None" using keep(2) set(2) by simp
      moreover have "warm_subagents_enabled (tree_env c) = warm" using any_child_warm [OF ch] 1 by simp
      ultimately show ?thesis using c 1(4-6) 1(8,9) by auto
    qed
    then have "subagents (Process env cold busy parked) \<le> children_of_width (warm_subagents_enabled env) q w
        * Suc (\<Sum>i < m - Suc ?d. ?W ^ Suc i)"
      using width 1(3,5,6) by (intro tree_at_most) auto
    also have "\<dots> = (\<Sum>i < Suc (m - Suc ?d). ?W ^ Suc i)"
      using 1 by (subst sum.lessThan_Suc_shift) (simp add: sum_distrib_left)
    also have "Suc (m - Suc ?d) = m - ?d" using less by simp
    finally show ?thesis by simp
  qed simp
qed

text \<open>
  C25: A root that starts at depth 0 with pool width \<open>k\<close> and hands down the width \<open>w\<close> and the cap \<open>m\<close>
  never has more than \<open>K * (1 + W + \<dots> + W ^ (m - 1))\<close> subagent processes alive below it, whatever
  the processes in between find in their settings. Without warm dispatch \<open>K = k\<close> and \<open>W = w\<close> (with
  the defaults 3108, as the module says). With it, cold and warm pool have separate ceilings and
  idle workers are parked, so \<open>K = 2 k + 2 q\<close> and \<open>W = 2 w + 2 q\<close>, where \<open>q\<close> bounds the
  configurations a process has parked workers of.
\<close>

theorem live_subagents_bounded:
  assumes "live_tree q t" and "tree_env t = startup_warm allowed False warm (startup_env args settings env)"
    and "current_subagent_depth (tree_env t) = 0"
    and "env_int (tree_env t) ROOT_CONCURRENCY_ENV = Some (int k)" and "1 \<le> k" and "k \<le> 32"
    and "env_int (tree_env t) NESTED_CONCURRENCY_ENV = Some (int w)" and "1 \<le> w" and "w \<le> u32_max"
    and "W = children_of_width (warm_subagents_enabled (tree_env t)) q"
  shows "subagents t \<le> W k * (\<Sum>i < resolve_max_subagent_depth None (tree_env t). W w ^ i)"
  using assms(1)
proof (cases rule: live_tree.cases)
  case (1 cold rs ns e busy rs' ns' parked)
  let ?m = "resolve_max_subagent_depth None e"
  have e: "aget e (own_name name) \<noteq> None" if "name \<in> {SUBAGENT_MAX_DEPTH_ENV, NESTED_CONCURRENCY_ENV}" for name
    using that 1(1) assms(2) startup_max_set startup_nested_set
    by (auto simp: startup_warm_other env_names WARM_SUBAGENTS_ENV_def)
  have width: "length cold \<le> k" "length busy \<le> k"
    using 1 assms(3-6) by (simp_all add: pool_concurrency_for_depth_def resolve_root_concurrency_def
        clamp_root_concurrency_def depth_limits)
  have "Suc (subagents c) \<le> Suc (\<Sum>i < ?m - 1. W w ^ Suc i)" if c: "c \<in> set cold \<union> set busy \<union> set parked" for c
  proof -
    from c 1 have ch: "any_child_of e (tree_env c)" "live_tree q c" by (auto simp: any_child_of_def)
    have keep: "aget (tree_env c) (own_name name) = aget e (own_name name)"
      if "name \<in> {SUBAGENT_MAX_DEPTH_ENV, NESTED_CONCURRENCY_ENV}" for name
      using any_child_keeps [OF ch(1) that e [OF that]] .
    have "env_int (tree_env c) NESTED_CONCURRENCY_ENV = Some (int w)" "resolve_max_subagent_depth None (tree_env c) = ?m"
      using env_int_cong [OF keep [of NESTED_CONCURRENCY_ENV]] max_depth_cong [OF keep] assms(7) 1(1) by simp_all
    moreover have "current_subagent_depth (tree_env c) = 1" using any_child_depth [OF ch(1)] assms(3) 1(1) by simp
    moreover have "aget (tree_env c) (own_name SUBAGENT_MAX_DEPTH_ENV) \<noteq> None" using keep e by simp
    ultimately show ?thesis
      using subagents_below [OF ch(2) _ assms(8,9)] any_child_warm [OF ch(1)] assms(10) 1(1) by simp
  qed
  then have "subagents t \<le> W k * Suc (\<Sum>i < ?m - 1. W w ^ Suc i)"
    unfolding assms(10) 1(1) tree_env.simps using width 1(4-7) by (intro tree_at_most) auto
  also have "Suc (\<Sum>i < ?m - 1. W w ^ Suc i) = (\<Sum>i < Suc (?m - 1). W w ^ i)" by (subst sum.lessThan_Suc_shift) simp
  also have "Suc (?m - 1) = ?m" using max_depth_range(1) [of None e] by simp
  finally show ?thesis using 1(1) by simp
qed

text \<open>A default root with warm dispatch on, a cold child, a worker that runs and a parked one.\<close>

definition warm_start :: process_env where
  "warm_start = startup_warm True False True plain_start"

definition warm_worker :: process_env where
  "warm_worker = startup_warm True False True
     (startup_env \<lparr>sa_max_subagent_depth = None, sa_delegate_allow = None\<rparr> default_settings
       (warm_child_env 1200 None warm_start))"

definition cold_of_warm :: process_env where
  "cold_of_warm = startup_env \<lparr>sa_max_subagent_depth = None, sa_delegate_allow = None\<rparr> default_settings
     (child_env 1200 None warm_start)"

lemma warm_start_same:
  "name \<noteq> WARM_SUBAGENTS_ENV \<Longrightarrow> env_int warm_start name = env_int plain_start name"
  unfolding warm_start_def by (rule env_int_cong [OF startup_warm_other])

lemma warm_start_values:
  "current_subagent_depth warm_start = 0" "resolve_max_subagent_depth None warm_start = 4"
  "env_int warm_start ROOT_CONCURRENCY_ENV = Some 12" "env_int warm_start NESTED_CONCURRENCY_ENV = Some 6"
  "warm_subagents_enabled warm_start" "pool_concurrency_for_depth rs ns warm_start = 12"
proof -
  have v: "env_int warm_start SUBAGENT_DEPTH_ENV = None" "env_int warm_start SUBAGENT_MAX_DEPTH_ENV = Some 4"
    "env_int warm_start ROOT_CONCURRENCY_ENV = Some 12" "env_int warm_start NESTED_CONCURRENCY_ENV = Some 6"
    using plain_values by (simp_all add: warm_start_same env_names WARM_SUBAGENTS_ENV_def)
  then show "current_subagent_depth warm_start = 0" "resolve_max_subagent_depth None warm_start = 4"
    "env_int warm_start ROOT_CONCURRENCY_ENV = Some 12" "env_int warm_start NESTED_CONCURRENCY_ENV = Some 6"
    "pool_concurrency_for_depth rs ns warm_start = 12"
    by (simp_all add: current_subagent_depth_def resolve_max_subagent_depth_def clamp_max_subagent_depth_def
        pool_concurrency_for_depth_def resolve_root_concurrency_def clamp_root_concurrency_def depth_limits)
  show "warm_subagents_enabled warm_start"
    by (simp add: warm_start_def startup_warm_def warm_subagents_enabled_def env_var_own amap.get_put)
qed

lemma warm_children: "warm_child_of warm_start warm_worker" "child_of warm_start cold_of_warm"
  unfolding warm_worker_def cold_of_warm_def
  by (rule warm_child_of.intros child_of.intros;
      simp add: can_spawn_subagent_def warm_start_values)+

lemma live_leaf: "live_tree q (Process env [] [] [])"
  by (rule live_tree.intros [of _ None None _ _ None None])
    (auto simp: parked_keys_ok_def intro: exI [of _ "[]"])

lemma warm_tree:
  assumes "a \<le> 12" and "b \<le> 12"
  shows "live_tree 1 (Process warm_start (replicate a (Process cold_of_warm [] [] []))
     (replicate b (Process warm_worker [] [] [])) [Process warm_worker [] [] []])"
proof (rule live_tree.intros [of _ None None _ _ None None])
  show "parked_keys_ok 1 [Process warm_worker [] [] []]"
    unfolding parked_keys_ok_def by (rule exI [of _ "[U ''explore'']"]) (simp add: max_per_key_def)
qed (use assms warm_children in \<open>auto simp: warm_start_values live_leaf\<close>)

theorem live_subagents_bounded_witness:
  "subagents (Process warm_start [Process cold_of_warm [] [] []] [Process warm_worker [] [] []]
      [Process warm_worker [] [] []]) = 3
   \<and> subagents (Process warm_start [Process cold_of_warm [] [] []] [Process warm_worker [] [] []]
      [Process warm_worker [] [] []]) \<le> 76830"
proof -
  have "(\<Sum>i < 4. 14 ^ i) = (2955 :: nat)" by (simp add: numeral_eq_Suc)
  moreover have "tree_env (Process warm_start [Process cold_of_warm [] [] []] [Process warm_worker [] [] []]
      [Process warm_worker [] [] []]) = startup_warm True False True
      (startup_env \<lparr>sa_max_subagent_depth = None, sa_delegate_allow = None\<rparr> default_settings [])"
    by (simp add: warm_start_def plain_start_def)
  ultimately show ?thesis
    using live_subagents_bounded [OF warm_tree [of 1 1], where k = 12 and w = 6]
    by (simp add: warm_start_values u32_max_def children_of_width_def)
qed

text \<open>
  With warm dispatch a default root can have 25 live subagents as its children: twelve of the
  cold pool, twelve running on the warm pool, and a parked worker. The module's worst
  case of 3108 counts twelve children of the root and six of each process below.
\<close>

theorem warm_pool_exceeds_width:
  "\<exists>t. live_tree 1 t \<and> tree_env t = warm_start \<and> 12 < subagents t"
proof -
  let ?t = "Process warm_start (replicate 12 (Process cold_of_warm [] [] []))
     (replicate 12 (Process warm_worker [] [] [])) [Process warm_worker [] [] []]"
  have "subagents ?t = 25" by (simp add: sum_list_replicate)
  with warm_tree [of 12 12] show ?thesis by (intro exI [of _ ?t]) simp
qed

section \<open>Whom a process may delegate to\<close>

lemma split_on_names:
  "\<forall>x \<in> set xs. c \<notin> set x \<Longrightarrow> xs \<noteq> [] \<Longrightarrow> split_on c (join [c] xs) = xs"
proof (induction xs rule: induct_list012)
  case (3 x y xs)
  then show ?case by (simp add: split_on_line)
qed (simp_all add: split_on_single)

text \<open>
  The scope of delegation is the process's own \<^verbatim>\<open>--delegate-allow\<close>: a scope in the inherited
  environment never restricts or widens it, and without the argument every type may be delegated
  to.
\<close>

theorem delegation_scope_is_own:
  assumes "\<And>allow a. sa_delegate_allow args = Some allow \<Longrightarrow> a \<in> set allow \<Longrightarrow>
     a \<noteq> [] \<and> trim a = a \<and> C CHR '','' \<notin> set a"
  shows "is_delegate_allowed t (startup_env args settings env) \<longleftrightarrow>
     (case sa_delegate_allow args of None \<Rightarrow> True | Some allow \<Rightarrow> allow = [] \<or> t \<in> set allow)"
proof (cases "\<exists>allow. sa_delegate_allow args = Some allow \<and> allow \<noteq> []")
  case False
  then have "env_var (startup_env args settings env) DELEGATE_ALLOW_ENV = None"
    by (auto simp: startup_env_def Let_def env_var_own split: option.split)
  with False show ?thesis by (auto simp: is_delegate_allowed_def delegate_allow_list_def split: option.split)
next
  case True
  then obtain allow where allow: "sa_delegate_allow args = Some allow" "allow \<noteq> []" by blast
  note names = assms [OF allow(1)]
  have "U '','' = [C CHR '','']" by (simp add: U_def C_def)
  with allow have "env_var (startup_env args settings env) DELEGATE_ALLOW_ENV = Some (join [C CHR '',''] allow)"
    by (simp add: startup_env_def Let_def env_var_own amap.get_put)
  moreover have "split_on (C CHR '','') (join [C CHR '',''] allow) = allow"
    using names allow(2) by (intro split_on_names) auto
  moreover have "map trim allow = allow" using names by (intro map_idI) auto
  moreover have "filter (\<lambda>s. s \<noteq> []) allow = allow" using names by (auto simp: filter_id_conv)
  ultimately have "delegate_allow_list (startup_env args settings env) = Some allow"
    using allow(2) by (simp add: delegate_allow_list_def)
  with allow show ?thesis by (simp add: is_delegate_allowed_def)
qed

text \<open>A child told to delegate to \<open>explore\<close> only, whose parent may delegate to \<open>plan\<close> only.\<close>

definition explore_only :: startup_args where
  "explore_only = \<lparr>sa_max_subagent_depth = None, sa_delegate_allow = Some [U ''explore'']\<rparr>"

theorem delegation_scope_is_own_witness:
  "is_delegate_allowed (U ''explore'') (startup_env explore_only default_settings [(own_name DELEGATE_ALLOW_ENV, U ''plan'')])
   \<and> \<not> is_delegate_allowed (U ''plan'') (startup_env explore_only default_settings [(own_name DELEGATE_ALLOW_ENV, U ''plan'')])"
proof -
  have "trim (U ''explore'') = U ''explore''" "C CHR '','' \<notin> set (U ''explore'')"
    by (simp_all add: trim_def trim_start_def trim_end_def is_ws_def ustr_eval)
  then have "a \<noteq> [] \<and> trim a = a \<and> C CHR '','' \<notin> set a"
    if "sa_delegate_allow explore_only = Some allow" "a \<in> set allow" for allow a
    using that by (auto simp: explore_only_def)
  then show ?thesis using delegation_scope_is_own [of explore_only, where env = "[(own_name DELEGATE_ALLOW_ENV, U ''plan'')]"]
    by (simp add: explore_only_def)
qed

end
