(* ===== verification/Subagent_Inbox.thy ===== *)
theory Subagent_Inbox
  imports Subagent_Pool Utf16 Cron
begin

text \<open>
  The inbox of background subagents (\<^verbatim>\<open>crates/hoocode-code-subagents/src/inbox.rs\<close>): a run is listed from
  the placeholder of its call (\<open>reserve_label\<close>), bound to a task id when its execute starts it, settled
  by the pool's result, and its body is handed out once. One definition per critical section of
  the mutex; \<open>inbox_step\<close> takes them in any order. The clock is an argument, and so is the pattern that
  finds handles in a session's file. \<open>get\<close> without a session, which picks among equal labels in the order
  of a hash map, is not modelled.
\<close>

section \<open>Records\<close>

datatype task_lifecycle =
  Life_Running | Life_Done | Life_Failed | Life_Stalled | Life_Timeout | Life_Cancelled | Life_Collected

record inbox_record =
  ir_task_id :: ustr
  ir_label :: ustr
  ir_agent_type :: ustr
  ir_description :: "ustr option"
  ir_session :: "ustr option"
  ir_starting :: bool
  ir_cancel_requested :: bool
  ir_lifecycle :: task_lifecycle
  ir_started_at :: nat
  ir_ended_at :: "nat option"
  ir_last_activity :: "ustr option"
  ir_summary_line :: "ustr option"
  ir_body :: "ustr option"
  ir_error :: "ustr option"

definition is_outstanding :: "task_lifecycle \<Rightarrow> bool" where
  "is_outstanding l \<longleftrightarrow> l = Life_Running"

definition MAX_SETTLED :: nat where "MAX_SETTLED = 50"

definition first_line :: "ustr \<Rightarrow> nat \<Rightarrow> ustr" where
  "first_line text limit =
     (let line = trim (case List.find (\<lambda>l. trim l \<noteq> []) (split_on 10 (trim text)) of Some l \<Rightarrow> l | None \<Rightarrow> []);
          units = encode_utf16 line
      in if limit < length units then from_utf16_lossy (take (limit - 1) units) @ [8230] else line)"

fun fail_lifecycle :: "result_status option \<Rightarrow> task_lifecycle" where
  "fail_lifecycle (Some Result_Stalled) = Life_Stalled"
| "fail_lifecycle (Some Result_Timeout) = Life_Timeout"
| "fail_lifecycle (Some Result_Cancelled) = Life_Cancelled"
| "fail_lifecycle _ = Life_Failed"

definition activity_from_event :: "json \<Rightarrow> ustr option" where
  "activity_from_event event =
     (case Option.bind (jget event (U ''type'')) as_str of
        Some t \<Rightarrow> if t = U ''tool_execution_start'' then Option.bind (jget event (U ''toolName'')) as_str
                  else if t = U ''turn_end'' then Some (U ''thinking'') else None
      | None \<Rightarrow> None)"

section \<open>Handles\<close>

text \<open>\<open>handles_in\<close>: what reading the file gave, and the matches of the pattern in a line.\<close>

datatype file_read = File_Missing | File_Unreadable | File_Lines "int list list"

definition note_handle :: "int list \<times> int list \<Rightarrow> (ustr \<times> nat) list \<Rightarrow> (ustr \<times> nat) list" where
  "note_handle m seen =
     (case parse_u64 (snd m) of
        None \<Rightarrow> seen
      | Some n \<Rightarrow> aput (fst m) (max (case aget seen (fst m) of Some k \<Rightarrow> k | None \<Rightarrow> 0) n) seen)"

definition handles_in :: "(int list \<Rightarrow> (int list \<times> int list) list) \<Rightarrow> file_read \<Rightarrow> (ustr \<times> nat) list option" where
  "handles_in captures file =
     (case file of
        File_Missing \<Rightarrow> Some []
      | File_Unreadable \<Rightarrow> None
      | File_Lines ls \<Rightarrow> Some (fold (\<lambda>l seen. if 35 \<in> set l then fold note_handle (captures l) seen else seen) ls []))"

definition reserved_key :: "ustr option \<Rightarrow> ustr \<Rightarrow> ustr" where
  "reserved_key session label =
     U ''starting:'' @ (case session of Some s \<Rightarrow> s | None \<Rightarrow> []) @ U '':'' @ label"

definition parse_handle :: "ustr \<Rightarrow> (ustr \<times> nat) option" where
  "parse_handle handle =
     (if 35 \<in> set handle
      then map_option (\<lambda>n. (rev (tl (dropWhile (\<lambda>c. c \<noteq> 35) (rev handle))), n))
             (parse_u64 (rev (takeWhile (\<lambda>c. c \<noteq> 35) (rev handle))))
      else None)"

definition handle_of :: "ustr \<Rightarrow> nat \<Rightarrow> ustr" where
  "handle_of agent_type n = agent_type @ U ''#'' @ nat_digits n"

section \<open>The state under the mutex\<close>

type_synonym inbox_scope = "ustr option"

record label_reservation =
  rv_description :: ustr
  rv_session :: inbox_scope
  rv_label :: ustr

record inbox_state =
  ib_records :: "(ustr \<times> inbox_record) list"
  ib_order :: "ustr list"
  ib_counters :: "((inbox_scope \<times> ustr) \<times> nat) list"
  ib_seeded :: "(ustr \<times> (ustr \<times> nat) list) list"
  ib_reserved :: "((inbox_scope \<times> ustr) \<times> label_reservation) list"
  ib_observed :: "nat list"
  ib_session_ids :: "((inbox_scope \<times> ustr) \<times> ustr) list"
  ib_session_order :: "(inbox_scope \<times> ustr) list"

definition inbox_empty :: inbox_state where
  "inbox_empty = \<lparr>ib_records = [], ib_order = [], ib_counters = [], ib_seeded = [], ib_reserved = [],
     ib_observed = [], ib_session_ids = [], ib_session_order = []\<rparr>"

definition key_in :: "inbox_scope \<Rightarrow> ustr \<Rightarrow> inbox_state \<Rightarrow> ustr option" where
  "key_in session handle s =
     (if aget (ib_records s) handle \<noteq> None then Some handle
      else List.find (\<lambda>i. case aget (ib_records s) i of
             Some r \<Rightarrow> ir_label r = handle \<and> ir_session r = session | None \<Rightarrow> False) (ib_order s))"

definition key_any :: "ustr \<Rightarrow> inbox_state \<Rightarrow> ustr option" where
  "key_any handle s =
     (if aget (ib_records s) handle \<noteq> None then Some handle
      else List.find (\<lambda>i. case aget (ib_records s) i of Some r \<Rightarrow> ir_label r = handle | None \<Rightarrow> False) (ib_order s))"

definition inbox_list :: "inbox_scope option \<Rightarrow> inbox_state \<Rightarrow> inbox_record list" where
  "inbox_list session s =
     filter (\<lambda>r. case session of None \<Rightarrow> True | Some x \<Rightarrow> ir_session r = x)
       (List.map_filter (aget (ib_records s)) (ib_order s))"

definition outstanding_count :: "inbox_scope option \<Rightarrow> inbox_state \<Rightarrow> nat" where
  "outstanding_count session s =
     length (filter (\<lambda>r. is_outstanding (ir_lifecycle r) \<and> (case session of None \<Rightarrow> True | Some x \<Rightarrow> ir_session r = x))
       (map snd (ib_records s)))"

text \<open>The counter is a \<^verbatim>\<open>u64\<close>, which wraps in the shipped (release) build.\<close>

definition inbox_next_label :: "inbox_scope \<Rightarrow> ustr \<Rightarrow> inbox_state \<Rightarrow> ustr \<times> inbox_state" where
  "inbox_next_label session agent_type s =
     (let n = ((case aget (ib_counters s) (session, agent_type) of Some n \<Rightarrow> n | None \<Rightarrow> 0) + 1) mod 2 ^ 64
      in (handle_of agent_type n, s\<lparr>ib_counters := aput (session, agent_type) n (ib_counters s)\<rparr>))"

definition settled_key :: "(ustr \<times> inbox_record) list \<Rightarrow> ustr \<Rightarrow> bool" where
  "settled_key recs i = (case aget recs i of Some r \<Rightarrow> \<not> is_outstanding (ir_lifecycle r) | None \<Rightarrow> False)"

fun prune_go :: "nat \<Rightarrow> (ustr \<times> inbox_record) list \<Rightarrow> ustr list \<Rightarrow> (ustr \<times> inbox_record) list \<times> ustr list" where
  "prune_go settled recs [] = (recs, [])"
| "prune_go settled recs (i # order) =
     (if settled_key recs i \<and> MAX_SETTLED < settled then prune_go (settled - 1) (adel i recs) order
      else (let (recs, kept) = prune_go settled recs order in (recs, i # kept)))"

definition inbox_prune :: "inbox_state \<Rightarrow> inbox_state" where
  "inbox_prune s =
     (let settled = length (filter (settled_key (ib_records s)) (ib_order s))
      in if settled \<le> MAX_SETTLED then s
         else (let (recs, kept) = prune_go settled (ib_records s) (ib_order s)
               in s\<lparr>ib_records := recs, ib_order := kept\<rparr>))"

definition settle_record :: "nat \<Rightarrow> task_lifecycle \<Rightarrow> ustr \<Rightarrow> inbox_record \<Rightarrow> inbox_record" where
  "settle_record now lifecycle reason r =
     r\<lparr>ir_ended_at := Some now, ir_last_activity := None, ir_lifecycle := lifecycle,
       ir_error := Some reason, ir_summary_line := Some reason\<rparr>"

definition put_record :: "ustr \<Rightarrow> inbox_record \<Rightarrow> inbox_state \<Rightarrow> inbox_state" where
  "put_record i r s = s\<lparr>ib_records := aput i r (ib_records s)\<rparr>"

section \<open>Labels\<close>

text \<open>The file is read outside the mutex, so another call may have seeded the session in between.\<close>

fun seed_counter :: "ustr \<Rightarrow> ustr \<times> nat \<Rightarrow> ((inbox_scope \<times> ustr) \<times> nat) list \<Rightarrow> ((inbox_scope \<times> ustr) \<times> nat) list" where
  "seed_counter session (t, n) cs =
     aput (Some session, t) (max (case aget cs (Some session, t) of Some k \<Rightarrow> k | None \<Rightarrow> 0) n) cs"

definition seed_with :: "ustr \<Rightarrow> (ustr \<times> nat) list option \<Rightarrow> inbox_state \<Rightarrow> inbox_state" where
  "seed_with session read s =
     (if aget (ib_seeded s) session \<noteq> None then s
      else (case read of
          None \<Rightarrow> s
        | Some seen \<Rightarrow> s\<lparr>ib_counters := fold (seed_counter session) seen (ib_counters s),
                         ib_seeded := aput session seen (ib_seeded s)\<rparr>))"

definition new_record :: "nat \<Rightarrow> ustr \<Rightarrow> ustr \<Rightarrow> ustr \<Rightarrow> ustr \<Rightarrow> inbox_scope \<Rightarrow> bool \<Rightarrow> inbox_record" where
  "new_record now key label agent_type description session starting =
     \<lparr>ir_task_id = key, ir_label = label, ir_agent_type = agent_type,
      ir_description = (if trim description \<noteq> [] then Some (trim description) else None),
      ir_session = session, ir_starting = starting, ir_cancel_requested = False, ir_lifecycle = Life_Running,
      ir_started_at = now, ir_ended_at = None, ir_last_activity = None, ir_summary_line = None, ir_body = None,
      ir_error = None\<rparr>"

definition reserve_label ::
  "nat \<Rightarrow> ustr \<Rightarrow> ustr \<Rightarrow> ustr \<Rightarrow> inbox_scope \<Rightarrow> inbox_state \<Rightarrow> ustr option \<times> inbox_state" where
  "reserve_label now call_id agent_type description session s =
     (if aget (ib_reserved s) (session, call_id) \<noteq> None then (None, s)
      else (let (label, s) = inbox_next_label session agent_type s;
                key = reserved_key session label;
                s = put_record key (new_record now key label agent_type description session True) s
            in (Some label,
                s\<lparr>ib_order := ib_order s @ [key],
                  ib_reserved := aput (session, call_id)
                    \<lparr>rv_description = description, rv_session = session, rv_label = label\<rparr> (ib_reserved s)\<rparr>)))"

text \<open>\<open>take_label\<close>: \<open>None\<close> when the call had no reservation and gets the next label.\<close>

definition take_reserved :: "ustr \<Rightarrow> ustr \<Rightarrow> inbox_scope \<Rightarrow> inbox_state \<Rightarrow> (ustr \<times> inbox_state) option" where
  "take_reserved call_id description session s =
     (case aget (ib_reserved s) (session, call_id) of
        None \<Rightarrow> None
      | Some rv \<Rightarrow>
          (let s = s\<lparr>ib_reserved := adel (session, call_id) (ib_reserved s)\<rparr>;
               description = trim description;
               key = reserved_key (rv_session rv) (rv_label rv)
           in Some (rv_label rv,
                if trim (rv_description rv) \<noteq> description \<and> description \<noteq> [] then
                  (case aget (ib_records s) key of
                     Some r \<Rightarrow> put_record key (r\<lparr>ir_description := Some description\<rparr>) s
                   | None \<Rightarrow> s)
                else s)))"

section \<open>The life of a run\<close>

fun replace_first :: "'a \<Rightarrow> 'a \<Rightarrow> 'a list \<Rightarrow> 'a list" where
  "replace_first a b [] = []"
| "replace_first a b (x # xs) = (if x = a then b # xs else x # replace_first a b xs)"

definition start_in ::
  "nat \<Rightarrow> inbox_scope \<Rightarrow> ustr \<Rightarrow> ustr \<Rightarrow> ustr \<Rightarrow> ustr \<Rightarrow> inbox_state \<Rightarrow> inbox_record \<times> inbox_state" where
  "start_in now session task_id label agent_type description s =
     (let key = reserved_key session label
      in case aget (ib_records s) key of
           Some r \<Rightarrow>
             (let s = s\<lparr>ib_records := adel key (ib_records s)\<rparr>;
                  r = r\<lparr>ir_task_id := task_id, ir_starting := False,
                        ir_description := (if ir_description r = None
                          then (if trim description \<noteq> [] then Some (trim description) else None) else ir_description r)\<rparr>
              in (r, put_record task_id r (s\<lparr>ib_order := replace_first key task_id (ib_order s)\<rparr>)))
         | None \<Rightarrow>
             (let r = new_record now task_id label agent_type description session False;
                  s = put_record task_id r s
              in (r, inbox_prune (s\<lparr>ib_order := ib_order s @ [task_id]\<rparr>))))"

definition fail_reserved ::
  "nat \<Rightarrow> inbox_scope \<Rightarrow> ustr \<Rightarrow> ustr \<Rightarrow> inbox_state \<Rightarrow> (inbox_record \<times> inbox_state) option" where
  "fail_reserved now session label reason s =
     (case aget (ib_records s) (reserved_key session label) of
        None \<Rightarrow> None
      | Some r \<Rightarrow>
          if ir_lifecycle r \<noteq> Life_Running then None
          else (let r = settle_record now Life_Failed reason r
                in Some (r, inbox_prune (put_record (reserved_key session label) r s))))"

definition settle_abandoned :: "nat \<Rightarrow> inbox_scope \<Rightarrow> ustr \<Rightarrow> inbox_state \<Rightarrow> (inbox_record \<times> inbox_state) option" where
  "settle_abandoned now session label s =
     (case key_in session label s of
        None \<Rightarrow> None
      | Some key \<Rightarrow> (case aget (ib_records s) key of
            None \<Rightarrow> None
          | Some r \<Rightarrow>
              if ir_lifecycle r \<noteq> Life_Running then None
              else (let r = settle_record now Life_Failed
                          (if ir_starting r then U ''not started: the Agent call ended before starting this run''
                           else U ''stopped unexpectedly: the Agent call ended without a result for this run'') r
                    in Some (r, put_record key r s))))"

datatype cancel_ask = Cancel_Before_Start inbox_record | Cancel_Running inbox_record | Cancel_Settled inbox_record

definition request_cancel :: "nat \<Rightarrow> inbox_scope \<Rightarrow> ustr \<Rightarrow> inbox_state \<Rightarrow> (cancel_ask \<times> inbox_state) option" where
  "request_cancel now session handle s =
     (case key_in session handle s of
        None \<Rightarrow> None
      | Some key \<Rightarrow> (case aget (ib_records s) key of
            None \<Rightarrow> None
          | Some r \<Rightarrow>
              if ir_lifecycle r \<noteq> Life_Running then Some (Cancel_Settled r, s)
              else (let r = r\<lparr>ir_cancel_requested := True\<rparr>
                    in if ir_starting r
                       then (let r = settle_record now Life_Cancelled (U ''cancelled before it started'') r
                             in Some (Cancel_Before_Start r, put_record key r s))
                       else Some (Cancel_Running r, put_record key r s))))"

definition cancel_requested :: "ustr \<Rightarrow> inbox_state \<Rightarrow> bool" where
  "cancel_requested task_id s = (case aget (ib_records s) task_id of Some r \<Rightarrow> ir_cancel_requested r | None \<Rightarrow> False)"

definition result_summary :: "subagent_result \<Rightarrow> ustr" where
  "result_summary r =
     (case Option.bind (sr_result_data r) (\<lambda>d. Option.bind (aget d (U ''summary'')) as_str) of
        Some t \<Rightarrow> if trim t \<noteq> [] then trim t else U ''(subagent returned no output)''
      | None \<Rightarrow> U ''(subagent returned no output)'')"

fun status_text :: "result_status \<Rightarrow> ustr" where
  "status_text Result_Complete = U ''complete''"
| "status_text Result_Partial = U ''partial''"
| "status_text Result_Failed = U ''failed''"
| "status_text Result_Stalled = U ''stalled''"
| "status_text Result_Timeout = U ''timeout''"
| "status_text Result_Cancelled = U ''cancelled''"

definition finish_record :: "nat \<Rightarrow> subagent_result option \<Rightarrow> inbox_record \<Rightarrow> inbox_record" where
  "finish_record now result r =
     (let r = r\<lparr>ir_ended_at := Some now, ir_last_activity := None\<rparr>
      in if (case result of Some x \<Rightarrow> sr_ok x | None \<Rightarrow> False) then
           (let summary = result_summary (the result)
            in r\<lparr>ir_lifecycle := Life_Done, ir_summary_line := Some (first_line summary 120), ir_body := Some summary\<rparr>)
         else
           (let status = Option.bind result sr_status;
                error = (case Option.bind result sr_error of
                    Some e \<Rightarrow> e
                  | None \<Rightarrow> (case status of Some st \<Rightarrow> U ''subagent '' @ status_text st | None \<Rightarrow> U ''unknown error''))
            in r\<lparr>ir_lifecycle := fail_lifecycle status, ir_summary_line := Some error, ir_error := Some error\<rparr>))"

definition inbox_finish :: "nat \<Rightarrow> ustr \<Rightarrow> subagent_result option \<Rightarrow> inbox_state \<Rightarrow> (inbox_record \<times> inbox_state) option" where
  "inbox_finish now task_id result s =
     (case aget (ib_records s) task_id of
        None \<Rightarrow> None
      | Some r \<Rightarrow> (let r = finish_record now result r in Some (r, put_record task_id r s)))"

definition inbox_fail :: "nat \<Rightarrow> ustr \<Rightarrow> ustr \<Rightarrow> task_lifecycle \<Rightarrow> inbox_state \<Rightarrow> (inbox_record \<times> inbox_state) option" where
  "inbox_fail now task_id reason lifecycle s =
     (case aget (ib_records s) task_id of
        None \<Rightarrow> None
      | Some r \<Rightarrow> (let r = settle_record now lifecycle reason r in Some (r, put_record task_id r s)))"

definition get_in :: "inbox_scope \<Rightarrow> ustr \<Rightarrow> inbox_state \<Rightarrow> inbox_record option" where
  "get_in session handle s = Option.bind (key_in session handle s) (aget (ib_records s))"

text \<open>\<open>collect\<close> looks the key up in one critical section and takes the body in another.\<close>

definition collect_key :: "ustr \<Rightarrow> inbox_state \<Rightarrow> ((inbox_record \<times> ustr) \<times> inbox_state) option" where
  "collect_key key s =
     (case aget (ib_records s) key of
        None \<Rightarrow> None
      | Some r \<Rightarrow>
          if ir_lifecycle r \<noteq> Life_Done then None
          else (case ir_body r of
              None \<Rightarrow> None
            | Some body \<Rightarrow>
                (let r = r\<lparr>ir_body := None, ir_lifecycle := Life_Collected\<rparr>
                 in Some ((r\<lparr>ir_body := Some body\<rparr>, body), put_record key r s))))"

fun reconcile_go :: "(ustr \<Rightarrow> bool) \<Rightarrow> nat \<Rightarrow> nat \<Rightarrow> ustr list \<Rightarrow> inbox_state \<Rightarrow> inbox_record list \<times> inbox_state" where
  "reconcile_go is_live max_age now [] s = ([], s)"
| "reconcile_go is_live max_age now (i # order) s =
     (case aget (ib_records s) i of
        None \<Rightarrow> reconcile_go is_live max_age now order s
      | Some r \<Rightarrow>
          if ir_lifecycle r \<noteq> Life_Running \<or> is_live i \<or> now - ir_started_at r < max_age
          then reconcile_go is_live max_age now order s
          else (let r = r\<lparr>ir_lifecycle := Life_Failed, ir_ended_at := Some now,
                          ir_error := Some (U ''the dispatch is no longer running and never reported back''),
                          ir_summary_line := Some (U ''reconciled: no result'')\<rparr>;
                    (rs, s) = reconcile_go is_live max_age now order (put_record i r s)
                in (r # rs, s)))"

definition reconcile :: "(ustr \<Rightarrow> bool) \<Rightarrow> nat \<Rightarrow> nat \<Rightarrow> inbox_state \<Rightarrow> inbox_record list \<times> inbox_state" where
  "reconcile is_live max_age now s = reconcile_go is_live max_age now (ib_order s) s"

definition task_progress :: "ustr \<Rightarrow> json \<Rightarrow> inbox_state \<Rightarrow> inbox_state" where
  "task_progress task_id event s =
     (case aget (ib_records s) task_id of
        None \<Rightarrow> s
      | Some r \<Rightarrow>
          if ir_lifecycle r \<noteq> Life_Running then s
          else (case activity_from_event event of
              Some a \<Rightarrow> put_record task_id (r\<lparr>ir_last_activity := Some a\<rparr>) s
            | None \<Rightarrow> s))"

definition observe :: "nat \<Rightarrow> inbox_state \<Rightarrow> bool \<times> inbox_state" where
  "observe pool s = (pool \<notin> set (ib_observed s), s\<lparr>ib_observed := List.insert pool (ib_observed s)\<rparr>)"

section \<open>Bindings of labels to sessions\<close>

fun drop_bindings :: "(inbox_scope \<times> ustr) list \<Rightarrow> ((inbox_scope \<times> ustr) \<times> ustr) list \<Rightarrow>
    (inbox_scope \<times> ustr) list \<times> ((inbox_scope \<times> ustr) \<times> ustr) list" where
  "drop_bindings [] ids = ([], ids)"
| "drop_bindings (k # order) ids =
     (if MAX_SETTLED < length (k # order) then drop_bindings order (adel k ids) else (k # order, ids))"

definition bind_label_in :: "inbox_scope \<Rightarrow> ustr \<Rightarrow> ustr \<Rightarrow> inbox_state \<Rightarrow> inbox_state" where
  "bind_label_in session label session_id s =
     (let key = (session, label);
          order = (if aget (ib_session_ids s) key = None then ib_session_order s @ [key] else ib_session_order s);
          (order, ids) = drop_bindings order (aput key session_id (ib_session_ids s))
      in s\<lparr>ib_session_order := order, ib_session_ids := ids\<rparr>)"

definition session_id_for_in :: "inbox_scope \<Rightarrow> ustr \<Rightarrow> inbox_state \<Rightarrow> ustr option" where
  "session_id_for_in session handle s = aget (ib_session_ids s) (session, handle)"

definition is_other_sessions_run :: "inbox_scope \<Rightarrow> ustr \<Rightarrow> inbox_state \<Rightarrow> bool" where
  "is_other_sessions_run session handle s \<longleftrightarrow>
     key_in session handle s = None \<and> (\<exists>r \<in> snd ` set (ib_records s). ir_label r = handle \<and> ir_session r \<noteq> session)"

text \<open>The \<open>seed\<close> that the code does first is a step of its own; both looks are at one state here.\<close>

definition is_earlier_run :: "inbox_scope \<Rightarrow> ustr \<Rightarrow> inbox_state \<Rightarrow> bool" where
  "is_earlier_run session handle s =
     (case session of None \<Rightarrow> False
      | Some x \<Rightarrow> (case parse_handle handle of None \<Rightarrow> False
          | Some (t, n) \<Rightarrow>
              n \<le> (case Option.bind (aget (ib_seeded s) x) (\<lambda>seen. aget seen t) of Some k \<Rightarrow> k | None \<Rightarrow> 0)
              \<and> get_in session handle s = None))"

end
