(* ===== verification/Subagent_Inbox_Steps.thy ===== *)
theory Subagent_Inbox_Steps
  imports Subagent_Inbox
begin

text \<open>
  The inbox under any sequence of calls of the Agent and AgentOutput tools, and what has happened
  with each handle.
\<close>

section \<open>Steps\<close>

text \<open>
  A run is its session and its handle. \<open>iw_given\<close> are the handles given out, \<open>iw_started\<close> those whose
  call started them (each call once, with its own handle and a new task id), \<open>iw_dispatched\<close> those the
  caller went on to dispatch, \<open>iw_stopped\<close> those reported as cancelled before they started, \<open>iw_pruned\<close>
  those dropped by \<open>inbox_prune\<close>. \<open>iw_done\<close> and \<open>iw_collected\<close> are the keys whose body was stored and
  handed out, \<open>iw_wakes\<close> counts the calls of \<open>notify_settle\<close>, \<open>iw_wrapped\<close> tells that a label counter
  overflowed.
\<close>

type_synonym inbox_run_id = "inbox_scope \<times> ustr"

record inbox_world =
  iw_state :: inbox_state
  iw_given :: "inbox_run_id list"
  iw_started :: "inbox_run_id list"
  iw_dispatched :: "inbox_run_id list"
  iw_ids :: "ustr list"
  iw_stopped :: "inbox_run_id list"
  iw_pruned :: "inbox_run_id list"
  iw_done :: "ustr list"
  iw_collected :: "ustr list"
  iw_wakes :: nat
  iw_wrapped :: bool

definition inbox_start :: inbox_world where
  "inbox_start = \<lparr>iw_state = inbox_empty, iw_given = [], iw_started = [], iw_dispatched = [], iw_ids = [],
     iw_stopped = [], iw_pruned = [], iw_done = [], iw_collected = [], iw_wakes = 0, iw_wrapped = False\<rparr>"

definition run_id :: "inbox_record \<Rightarrow> inbox_run_id" where "run_id r = (ir_session r, ir_label r)"

definition reserved_for :: "inbox_run_id \<Rightarrow> ustr" where "reserved_for h = reserved_key (fst h) (snd h)"

definition last_label :: "inbox_scope \<Rightarrow> ustr \<Rightarrow> inbox_state \<Rightarrow> nat" where
  "last_label session t s = (case aget (ib_counters s) (session, t) of Some n \<Rightarrow> n | None \<Rightarrow> 0)"

definition label_wraps :: "inbox_scope \<Rightarrow> ustr \<Rightarrow> inbox_state \<Rightarrow> bool" where
  "label_wraps session t s \<longleftrightarrow> last_label session t s + 1 \<ge> 2 ^ 64"

text \<open>The runs that are no longer listed.\<close>

definition dropped_runs :: "inbox_state \<Rightarrow> inbox_state \<Rightarrow> inbox_run_id list" where
  "dropped_runs s s' = filter (\<lambda>h. h \<notin> set (map run_id (inbox_list None s'))) (map run_id (inbox_list None s))"

inductive inbox_step :: "inbox_world \<Rightarrow> inbox_world \<Rightarrow> bool" for w where
  seeds: "inbox_step w (w\<lparr>iw_state := seed_with session (handles_in captures file) (iw_state w)\<rparr>)"
| reserves: "reserve_label now call t d session (iw_state w) = (Some l, s) \<Longrightarrow>
    inbox_step w (w\<lparr>iw_state := s, iw_given := iw_given w @ [(session, l)],
      iw_wrapped := (iw_wrapped w \<or> label_wraps session t (iw_state w))\<rparr>)"
| takes: "take_reserved call d session (iw_state w) = Some (l, s) \<Longrightarrow> inbox_step w (w\<lparr>iw_state := s\<rparr>)"
| labels: "inbox_next_label session t (iw_state w) = (l, s) \<Longrightarrow>
    inbox_step w (w\<lparr>iw_state := s, iw_given := iw_given w @ [(session, l)],
      iw_wrapped := (iw_wrapped w \<or> label_wraps session t (iw_state w))\<rparr>)"
| starts: "(session, l) \<in> set (iw_given w) \<Longrightarrow> (session, l) \<notin> set (iw_started w) \<Longrightarrow>
    task_id \<notin> set (iw_ids w) \<Longrightarrow> \<not> prefix (U ''starting:'') task_id \<Longrightarrow>
    start_in now session task_id l t d (iw_state w) = (r, s) \<Longrightarrow>
    inbox_step w (w\<lparr>iw_state := s, iw_started := iw_started w @ [(session, l)], iw_ids := iw_ids w @ [task_id],
      iw_dispatched := iw_dispatched w @ (if ir_lifecycle r = Life_Running then [(session, l)] else []),
      iw_pruned := iw_pruned w @ dropped_runs (iw_state w) s\<rparr>)"
| fails_reserved: "fail_reserved now session l reason (iw_state w) = Some (r, s) \<Longrightarrow>
    inbox_step w (w\<lparr>iw_state := s, iw_pruned := iw_pruned w @ dropped_runs (iw_state w) s, iw_wakes := iw_wakes w + 1\<rparr>)"
| abandons: "settle_abandoned now session l (iw_state w) = Some (r, s) \<Longrightarrow>
    inbox_step w (w\<lparr>iw_state := s, iw_wakes := iw_wakes w + 1\<rparr>)"
| cancels_before_start: "request_cancel now session h (iw_state w) = Some (Cancel_Before_Start r, s) \<Longrightarrow>
    inbox_step w (w\<lparr>iw_state := s, iw_stopped := iw_stopped w @ [run_id r], iw_wakes := iw_wakes w + 1\<rparr>)"
| cancels_running: "request_cancel now session h (iw_state w) = Some (Cancel_Running r, s) \<Longrightarrow>
    inbox_step w (w\<lparr>iw_state := s\<rparr>)"
| finishes: "task_id \<in> set (iw_ids w) \<Longrightarrow> inbox_finish now task_id result (iw_state w) = Some (r, s) \<Longrightarrow>
    inbox_step w (w\<lparr>iw_state := s, iw_done := iw_done w @ (if ir_lifecycle r = Life_Done then [task_id] else []),
      iw_wakes := iw_wakes w + 1\<rparr>)"
| fails: "task_id \<in> set (iw_ids w) \<Longrightarrow> inbox_fail now task_id reason Life_Failed (iw_state w) = Some (r, s) \<Longrightarrow>
    inbox_step w (w\<lparr>iw_state := s, iw_wakes := iw_wakes w + 1\<rparr>)"
| collects: "collect_key key (iw_state w) = Some ((r, body), s) \<Longrightarrow>
    inbox_step w (w\<lparr>iw_state := s, iw_collected := iw_collected w @ [key]\<rparr>)"
| reconciles: "reconcile is_live max_age now (iw_state w) = (rs, s) \<Longrightarrow> inbox_step w (w\<lparr>iw_state := s\<rparr>)"
| progresses: "inbox_step w (w\<lparr>iw_state := task_progress task_id event (iw_state w)\<rparr>)"
| observes: "observe pool (iw_state w) = (new, s) \<Longrightarrow> inbox_step w (w\<lparr>iw_state := s\<rparr>)"
| binds: "inbox_step w (w\<lparr>iw_state := bind_label_in session l session_id (iw_state w)\<rparr>)"

definition inbox_run :: "inbox_world \<Rightarrow> bool" where
  "inbox_run = inbox_step\<^sup>*\<^sup>* inbox_start"

lemma inbox_run_induct [consumes 1, case_names start step]:
  assumes "inbox_run w" and "P inbox_start" and "\<And>w w'. inbox_run w \<Longrightarrow> P w \<Longrightarrow> inbox_step w w' \<Longrightarrow> P w'"
  shows "P w"
  using assms(1) unfolding inbox_run_def
  by (induction rule: rtranclp_induct) (auto intro: assms(2) assms(3) [unfolded inbox_run_def])

lemma inbox_run_start: "inbox_run inbox_start"
  by (simp add: inbox_run_def)

lemma inbox_run_step: "inbox_run w \<Longrightarrow> inbox_step w w' \<Longrightarrow> inbox_run w'"
  unfolding inbox_run_def by (erule rtranclp.rtrancl_into_rtrancl)

section \<open>What each operation does to the records\<close>

lemma aget_put_record [simp]: "aget (ib_records (put_record i r s)) k = (if k = i then Some r else aget (ib_records s) k)"
  by (simp add: put_record_def amap.get_put)

lemma put_record_fields [simp]:
  "ib_order (put_record i r s) = ib_order s" "ib_counters (put_record i r s) = ib_counters s"
  "ib_seeded (put_record i r s) = ib_seeded s" "ib_reserved (put_record i r s) = ib_reserved s"
  by (simp_all add: put_record_def)

lemma seed_with_fields [simp]:
  "ib_records (seed_with x read s) = ib_records s" "ib_order (seed_with x read s) = ib_order s"
  by (simp_all add: seed_with_def split: option.split)

lemma next_label_fields:
  "inbox_next_label session t s = (l, s') \<Longrightarrow> ib_records s' = ib_records s \<and> ib_order s' = ib_order s
     \<and> l = handle_of t ((last_label session t s + 1) mod 2 ^ 64)"
  by (auto simp: inbox_next_label_def Let_def last_label_def)

text \<open>Most operations rewrite one record in place; its run, its key and its place stay.\<close>

definition same_run :: "inbox_record \<Rightarrow> inbox_record \<Rightarrow> bool" where
  "same_run r r' \<longleftrightarrow> run_id r' = run_id r \<and> ir_task_id r' = ir_task_id r \<and> ir_starting r' = ir_starting r \<and>
     (ir_lifecycle r' = Life_Running \<longrightarrow> ir_lifecycle r = Life_Running)"

lemma same_run_refl: "same_run r r"
  by (simp add: same_run_def)

definition rewritten :: "inbox_state \<Rightarrow> inbox_state \<Rightarrow> bool" where
  "rewritten s s' \<longleftrightarrow> ib_order s' = ib_order s \<and> ib_counters s' = ib_counters s \<and> ib_seeded s' = ib_seeded s \<and>
     (\<forall>k. rel_option same_run (aget (ib_records s) k) (aget (ib_records s') k))"

lemma rewritten_refl: "rewritten s s"
  by (simp add: rewritten_def option.rel_refl same_run_refl)

lemma rewritten_trans:
  assumes "rewritten s s'" and "rewritten s' s''"
  shows "rewritten s s''"
proof -
  have "rel_option same_run (aget (ib_records s) k) (aget (ib_records s'') k)" for k
  proof -
    from assms have "rel_option same_run (aget (ib_records s) k) (aget (ib_records s') k)"
      "rel_option same_run (aget (ib_records s') k) (aget (ib_records s'') k)" by (simp_all add: rewritten_def)
    then show ?thesis
      by (cases "aget (ib_records s) k"; cases "aget (ib_records s') k"; cases "aget (ib_records s'') k") (auto simp: same_run_def)
  qed
  with assms show ?thesis by (simp add: rewritten_def)
qed

lemma rewritten_put:
  "aget (ib_records s) k = Some r \<Longrightarrow> same_run r r' \<Longrightarrow> rewritten s (put_record k r' s)"
  by (simp add: rewritten_def option.rel_refl same_run_refl)

lemma run_id_updates [simp]:
  "run_id (settle_record now l reason r) = run_id r" "ir_task_id (settle_record now l reason r) = ir_task_id r"
  "ir_starting (settle_record now l reason r) = ir_starting r" "ir_lifecycle (settle_record now l reason r) = l"
  "run_id (finish_record now result r) = run_id r" "ir_task_id (finish_record now result r) = ir_task_id r"
  "ir_starting (finish_record now result r) = ir_starting r"
  "run_id (r\<lparr>ir_cancel_requested := b\<rparr>) = run_id r" "run_id (r\<lparr>ir_last_activity := act\<rparr>) = run_id r"
  "run_id (r\<lparr>ir_body := body, ir_lifecycle := l\<rparr>) = run_id r" "run_id (r\<lparr>ir_description := desc\<rparr>) = run_id r"
  by (simp_all add: settle_record_def finish_record_def run_id_def Let_def)

lemma finish_not_running: "ir_lifecycle (finish_record now result r) \<noteq> Life_Running"
  by (cases "Option.bind result sr_status" rule: fail_lifecycle.cases) (simp_all add: finish_record_def Let_def)

lemma rewritten_unreserve: "rewritten (s\<lparr>ib_reserved := rs\<rparr>) s' \<Longrightarrow> rewritten s s'"
  by (simp add: rewritten_def)

lemma reconcile_rewrites:
  "reconcile_go is_live max_age now order s = (rs, s') \<Longrightarrow> rewritten s s'"
proof (induction order arbitrary: s rs)
  case (Cons i order)
  show ?case
  proof (cases "aget (ib_records s) i")
    case (Some r)
    show ?thesis
    proof (cases "ir_lifecycle r \<noteq> Life_Running \<or> is_live i \<or> now - ir_started_at r < max_age")
      case False
      let ?r = "r\<lparr>ir_lifecycle := Life_Failed, ir_ended_at := Some now,
        ir_error := Some (U ''the dispatch is no longer running and never reported back''),
        ir_summary_line := Some (U ''reconciled: no result'')\<rparr>"
      from Some have "rewritten s (put_record i ?r s)" by (rule rewritten_put) (simp add: same_run_def run_id_def)
      moreover from Cons.prems Some False have "\<exists>rs. reconcile_go is_live max_age now order (put_record i ?r s) = (rs, s')"
        by (simp add: Let_def split: prod.splits)
      ultimately show ?thesis using Cons.IH rewritten_trans by blast
    qed (use Cons Some in auto)
  qed (use Cons in auto)
qed (auto simp: rewritten_refl)

lemma reconciled_rewrites: "reconcile is_live max_age now s = (rs, s') \<Longrightarrow> rewritten s s'"
  unfolding reconcile_def by (rule reconcile_rewrites)

lemma abandoned_rewrites: "settle_abandoned now session l s = Some (r, s') \<Longrightarrow> rewritten s s'"
  by (auto simp: settle_abandoned_def Let_def same_run_def intro!: rewritten_put split: option.splits if_splits)

lemma cancel_rewrites: "request_cancel now session h s = Some (ask, s') \<Longrightarrow> rewritten s s'"
  by (auto simp: request_cancel_def Let_def same_run_def rewritten_refl intro!: rewritten_put split: option.splits if_splits)

lemma finish_rewrites: "inbox_finish now i result s = Some (r, s') \<Longrightarrow> rewritten s s'"
  by (auto simp: inbox_finish_def Let_def same_run_def finish_not_running intro!: rewritten_put split: option.splits)

lemma fail_rewrites: "inbox_fail now i reason Life_Failed s = Some (r, s') \<Longrightarrow> rewritten s s'"
  by (auto simp: inbox_fail_def Let_def same_run_def intro!: rewritten_put split: option.splits)

lemma collect_rewrites: "collect_key i s = Some (out, s') \<Longrightarrow> rewritten s s'"
  by (auto simp: collect_key_def Let_def same_run_def intro!: rewritten_put split: option.splits if_splits)

lemma progress_rewrites: "rewritten s (task_progress i event s)"
  by (auto simp: task_progress_def same_run_def rewritten_refl intro!: rewritten_put split: option.splits)

lemma take_rewrites:
  assumes "take_reserved call d session s = Some (l, s')"
  shows "rewritten s s'"
proof -
  obtain rv where rv: "aget (ib_reserved s) (session, call) = Some rv"
    using assms by (auto simp: take_reserved_def split: option.splits)
  let ?s = "s\<lparr>ib_reserved := adel (session, call) (ib_reserved s)\<rparr>"
  from assms rv have "s' = ?s \<or> (\<exists>k r desc. aget (ib_records ?s) k = Some r \<and> s' = put_record k (r\<lparr>ir_description := desc\<rparr>) ?s)"
    by (auto simp: take_reserved_def Let_def split: option.splits if_splits)
  then have "rewritten ?s s'" by (auto simp: rewritten_refl same_run_def simp del: put_record_fields intro!: rewritten_put)
  then show ?thesis by (rule rewritten_unreserve)
qed

end
