(* ===== verification/Subagent_Inbox_Properties.thy ===== *)
theory Subagent_Inbox_Properties
  imports Subagent_Inbox_Steps
begin

text \<open>
  What the inbox keeps: a prune drops the oldest settled records only, a handle names one run, a body is
  handed out once, a run cancelled before its start is not dispatched, and a settled run wakes the waits.
\<close>

section \<open>Pruning\<close>

lemma settled_key_adel: "settled_key (adel i recs) j \<longleftrightarrow> j \<noteq> i \<and> settled_key recs j"
  by (simp add: settled_key_def amap.get_del)

lemma prune_go_keeps:
  "prune_go n recs order = (recs', kept) \<Longrightarrow> distinct order \<Longrightarrow>
   distinct kept \<and> set kept \<subseteq> set order \<and> (\<forall>k \<in> set order - set kept. settled_key recs k) \<and>
   (\<forall>k. aget recs' k = (if k \<in> set order - set kept then None else aget recs k))"
proof (induction n recs order arbitrary: recs' kept rule: prune_go.induct)
  case (2 n recs i order)
  show ?case
  proof (cases "settled_key recs i \<and> MAX_SETTLED < n")
    case True
    with 2 have "distinct kept \<and> set kept \<subseteq> set order \<and> (\<forall>k \<in> set order - set kept. settled_key (adel i recs) k) \<and>
      (\<forall>k. aget recs' k = (if k \<in> set order - set kept then None else aget (adel i recs) k))" by simp
    with True 2(4) show ?thesis by (auto simp: settled_key_adel amap.get_del)
  next
    case False
    with 2(3) obtain kept1 where k: "prune_go n recs order = (recs', kept1)" "kept = i # kept1"
      by (auto simp: Let_def split: prod.splits if_splits)
    with False 2(2,4) show ?thesis by fastforce
  qed
qed auto

lemma prune_go_settled:
  "prune_go n recs order = (recs', kept) \<Longrightarrow> distinct order \<Longrightarrow>
   filter (\<lambda>i. \<not> settled_key recs i) kept = filter (\<lambda>i. \<not> settled_key recs i) order \<and>
   filter (settled_key recs) kept = drop (n - MAX_SETTLED) (filter (settled_key recs) order)"
proof (induction n recs order arbitrary: recs' kept rule: prune_go.induct)
  case (2 n recs i order)
  show ?case
  proof (cases "settled_key recs i \<and> MAX_SETTLED < n")
    case True
    with 2(3) have k: "prune_go (n - 1) (adel i recs) order = (recs', kept)" by simp
    from 2(4) have i: "i \<notin> set order" by simp
    with prune_go_keeps [OF k] 2(4) have "i \<notin> set kept" by auto
    have n: "n - MAX_SETTLED = Suc (n - Suc MAX_SETTLED)" using True by (simp add: Suc_diff_Suc)
    have same: "filter (settled_key (adel i recs)) xs = filter (settled_key recs) xs"
      "filter (\<lambda>j. \<not> settled_key (adel i recs) j) xs = filter (\<lambda>j. \<not> settled_key recs j) xs"
      if "i \<notin> set xs" for xs
      by (rule filter_cong; use that in \<open>auto simp: settled_key_adel\<close>)+
    from 2(1) [OF True k] 2(4) same [OF i] same [OF \<open>i \<notin> set kept\<close>] True show ?thesis by (simp add: n)
  next
    case False
    with 2(3) obtain kept1 where k: "prune_go n recs order = (recs', kept1)" "kept = i # kept1"
      by (auto simp: Let_def split: prod.splits if_splits)
    with False 2(2,4) show ?thesis by auto
  qed
qed auto

definition places_ok :: "inbox_state \<Rightarrow> bool" where
  "places_ok s \<longleftrightarrow> distinct (ib_order s) \<and> (\<forall>k. k \<in> set (ib_order s) \<longleftrightarrow> aget (ib_records s) k \<noteq> None)"

lemma prune_state:
  assumes "places_ok s"
  shows "places_ok (inbox_prune s)"
    and "aget (ib_records (inbox_prune s)) k = Some r \<Longrightarrow> aget (ib_records s) k = Some r"
    and "aget (ib_records s) k = Some r \<Longrightarrow> ir_lifecycle r = Life_Running \<Longrightarrow> aget (ib_records (inbox_prune s)) k = Some r"
    and "ib_counters (inbox_prune s) = ib_counters s" and "ib_seeded (inbox_prune s) = ib_seeded s"
proof -
  let ?n = "length (filter (settled_key (ib_records s)) (ib_order s))"
  obtain recs kept where go: "prune_go ?n (ib_records s) (ib_order s) = (recs, kept)" by (cases "prune_go ?n (ib_records s) (ib_order s)")
  note keeps = prune_go_keeps [OF go]
  have p: "inbox_prune s = (if ?n \<le> MAX_SETTLED then s else s\<lparr>ib_records := recs, ib_order := kept\<rparr>)"
    by (simp add: inbox_prune_def Let_def go)
  have "distinct (ib_order s)" using assms by (simp add: places_ok_def)
  note keeps = keeps [OF this]
  then have val: "aget recs k = (if k \<in> set (ib_order s) \<and> k \<notin> set kept then None else aget (ib_records s) k)" for k by simp
  from assms keeps show "places_ok (inbox_prune s)" by (auto simp: p places_ok_def)
  show "ib_counters (inbox_prune s) = ib_counters s" "ib_seeded (inbox_prune s) = ib_seeded s" by (simp_all add: p)
  { assume "aget (ib_records (inbox_prune s)) k = Some r"
    then show "aget (ib_records s) k = Some r" by (auto simp: p val split: if_splits) }
  { assume r: "aget (ib_records s) k = Some r" "ir_lifecycle r = Life_Running"
    then have "\<not> settled_key (ib_records s) k" by (simp add: settled_key_def is_outstanding_def)
    with r keeps show "aget (ib_records (inbox_prune s)) k = Some r" by (auto simp: p val) }
qed

text \<open>
  A prune keeps every run that is still at work and the fifty newest settled ones, in their order,
  and drops the rest.
\<close>

theorem prune_keeps_running:
  assumes "distinct (ib_order s)"
  shows "filter (\<lambda>i. \<not> settled_key (ib_records s) i) (ib_order (inbox_prune s))
       = filter (\<lambda>i. \<not> settled_key (ib_records s) i) (ib_order s) \<and>
     filter (settled_key (ib_records s)) (ib_order (inbox_prune s))
       = (let settled = filter (settled_key (ib_records s)) (ib_order s) in drop (length settled - 50) settled)"
proof -
  let ?n = "length (filter (settled_key (ib_records s)) (ib_order s))"
  obtain recs kept where go: "prune_go ?n (ib_records s) (ib_order s) = (recs, kept)"
    by (cases "prune_go ?n (ib_records s) (ib_order s)")
  have "inbox_prune s = (if ?n \<le> MAX_SETTLED then s else s\<lparr>ib_records := recs, ib_order := kept\<rparr>)"
    by (simp add: inbox_prune_def Let_def go)
  with prune_go_settled [OF go assms] show ?thesis by (simp add: Let_def MAX_SETTLED_def)
qed

section \<open>A handle names one run\<close>

lemma cut_at: "c \<notin> set xs \<Longrightarrow> takeWhile (\<lambda>x. x \<noteq> c) (xs @ c # ys) = xs \<and> dropWhile (\<lambda>x. x \<noteq> c) (xs @ c # ys) = c # ys"
  by (induction xs) auto

lemma handle_inj:
  assumes "handle_of t m = handle_of t' n"
  shows "t = t' \<and> m = n"
proof -
  have digits: "35 \<notin> set (rev (nat_digits k))" for k
    using nat_digits_read [of k] by (auto simp: list_all_iff is_digit_def)
  have cut: "takeWhile (\<lambda>c. c \<noteq> 35) (rev (nat_digits k) @ 35 # rev u) = rev (nat_digits k)"
    "dropWhile (\<lambda>c. c \<noteq> 35) (rev (nat_digits k) @ 35 # rev u) = 35 # rev u" for k u
    using cut_at [OF digits [of k]] by auto
  have "U ''#'' = [35]" by (simp add: ustr_eval)
  with assms have "rev (nat_digits m) @ 35 # rev t = rev (nat_digits n) @ 35 # rev t'"
    by (metis append.assoc append_Cons append_Nil handle_of_def rev.simps(2) rev_append)
  with cut [of m t] cut [of n t'] have "nat_digits m = nat_digits n" "t = t'" by auto
  with nat_digits_read [of m] nat_digits_read [of n] show ?thesis by (metis of_nat_eq_iff)
qed

text \<open>The labels given out lie below the counters.\<close>

definition handle_below :: "inbox_scope \<Rightarrow> ustr \<Rightarrow> inbox_state \<Rightarrow> bool" where
  "handle_below session l s \<longleftrightarrow> (\<exists>t n. l = handle_of t n \<and> n \<le> last_label session t s)"

lemma handle_below_of: "n \<le> last_label session t s \<Longrightarrow> handle_below session (handle_of t n) s"
  unfolding handle_below_def by blast

lemma handle_below_grows:
  "handle_below session l s \<Longrightarrow> (\<And>t. last_label session t s \<le> last_label session t s') \<Longrightarrow> handle_below session l s'"
  unfolding handle_below_def [of session l s] by (auto intro: handle_below_of le_trans)

definition labels_ok :: "inbox_run_id list \<Rightarrow> inbox_state \<Rightarrow> bool" where
  "labels_ok given s \<longleftrightarrow> distinct given \<and>
     (\<forall>(session, l) \<in> set given. handle_below session l s) \<and>
     (\<forall>x seen t n. aget (ib_seeded s) x = Some seen \<longrightarrow> (t, n) \<in> set seen \<longrightarrow> n \<le> last_label (Some x) t s)"

lemma labels_ok_cong: "ib_counters s' = ib_counters s \<Longrightarrow> ib_seeded s' = ib_seeded s \<Longrightarrow> labels_ok given s' = labels_ok given s"
  by (simp add: labels_ok_def handle_below_def last_label_def)

lemma seed_counters:
  "(case aget cs (session, t) of Some n \<Rightarrow> n | None \<Rightarrow> 0)
     \<le> (case aget (fold (seed_counter x) seen cs) (session, t) of Some n \<Rightarrow> n | None \<Rightarrow> 0) \<and>
   ((t, n) \<in> set seen \<longrightarrow> session = Some x \<longrightarrow>
     n \<le> (case aget (fold (seed_counter x) seen cs) (session, t) of Some n \<Rightarrow> n | None \<Rightarrow> 0))"
proof (induction seen arbitrary: cs)
  case (Cons m seen)
  obtain u k where m: "m = (u, k)" by (cases m)
  let ?cs = "seed_counter x m cs"
  have "(case aget cs (session, t) of Some n \<Rightarrow> n | None \<Rightarrow> 0) \<le> (case aget ?cs (session, t) of Some n \<Rightarrow> n | None \<Rightarrow> 0)"
    "session = Some x \<Longrightarrow> t = u \<Longrightarrow> k \<le> (case aget ?cs (session, t) of Some n \<Rightarrow> n | None \<Rightarrow> 0)"
    by (auto simp: m amap.get_put)
  with Cons.IH [of ?cs] show ?case by (auto simp: m) 
qed simp

lemma seed_labels: "labels_ok given s \<Longrightarrow> labels_ok given (seed_with x read s)"
proof -
  assume ok: "labels_ok given s"
  show ?thesis
  proof (cases "aget (ib_seeded s) x = None \<and> read \<noteq> None")
    case True
    then obtain seen where seen: "read = Some seen" by auto
    let ?s = "seed_with x read s"
    from True seen have s: "ib_counters ?s = fold (seed_counter x) seen (ib_counters s)" "ib_seeded ?s = aput x seen (ib_seeded s)"
      by (simp_all add: seed_with_def)
    have grows: "last_label session t s \<le> last_label session t ?s" for session t
      using seed_counters [of "ib_counters s" session t x seen] by (simp add: last_label_def s)
    have "n \<le> last_label (Some x) t ?s" if "(t, n) \<in> set seen" for t n
      using seed_counters [of "ib_counters s" "Some x" t x seen n] that by (simp add: last_label_def s)
    moreover have "handle_below session l ?s" if "(session, l) \<in> set given" for session l
      using ok that grows by (auto simp: labels_ok_def intro: handle_below_grows)
    moreover have "n \<le> last_label (Some y) t ?s" if "aget (ib_seeded s) y = Some old" "(t, n) \<in> set old" for y old t n
      using ok that grows [of "Some y" t] unfolding labels_ok_def by (meson le_trans)
    ultimately show ?thesis using ok
      unfolding labels_ok_def by (auto simp: s amap.get_put split: if_splits)
  qed (use ok in \<open>auto simp: seed_with_def\<close>)
qed

lemma next_label_fresh:
  assumes "labels_ok given s" and "inbox_next_label session t s = (l, s')" and "\<not> label_wraps session t s"
  shows "labels_ok (given @ [(session, l)]) s'" and "(session, l) \<notin> set given"
    and "l = handle_of t (last_label session t s + 1)"
proof -
  let ?n = "last_label session t s + 1"
  from assms(3) have n: "?n mod 2 ^ 64 = ?n" by (simp add: label_wraps_def)
  with next_label_fields [OF assms(2)] show l: "l = handle_of t ?n" by simp
  from assms(2) n have s': "ib_counters s' = aput (session, t) ?n (ib_counters s)" "ib_seeded s' = ib_seeded s"
    by (auto simp: inbox_next_label_def Let_def last_label_def)
  then have last: "last_label a b s' = (if a = session \<and> b = t then ?n else last_label a b s)" for a b
    by (simp add: last_label_def amap.get_put)
  show fresh: "(session, l) \<notin> set given"
  proof
    assume "(session, l) \<in> set given"
    with assms(1) obtain t' n' where "l = handle_of t' n'" "n' \<le> last_label session t' s"
      by (auto simp: labels_ok_def handle_below_def)
    with l handle_inj [of t ?n t' n'] show False by auto
  qed
  have grows: "last_label a b s \<le> last_label a b s'" for a b by (simp add: last)
  have "handle_below session l s'" using last [of session t] unfolding l by (auto intro: handle_below_of)
  moreover have "handle_below a b s'" if "(a, b) \<in> set given" for a b
    using assms(1) that grows by (auto simp: labels_ok_def intro: handle_below_grows)
  moreover have "n \<le> last_label (Some y) u s'" if "aget (ib_seeded s) y = Some old" "(u, n) \<in> set old" for y old u n
    using assms(1) that grows [of "Some y" u] unfolding labels_ok_def by (meson le_trans)
  ultimately show "labels_ok (given @ [(session, l)]) s'"
    using assms(1) fresh unfolding labels_ok_def by (auto simp: s')
qed

end
