(* ===== verification/Subagent_Inbox_Runs.thy ===== *)
theory Subagent_Inbox_Runs
  imports Subagent_Inbox_Properties
begin

text \<open>
  Which records a run has: a handle names one run at any time, a body is handed out once, and a run
  cancelled before its start is not dispatched unless a prune dropped its record in between.
\<close>

section \<open>One record per run\<close>

definition record_ok :: "inbox_run_id list \<Rightarrow> inbox_run_id list \<Rightarrow> ustr list \<Rightarrow> ustr \<Rightarrow> inbox_record \<Rightarrow> bool" where
  "record_ok given started ids k r \<longleftrightarrow> run_id r \<in> set given \<and> ir_task_id r = k \<and>
     (if ir_starting r then k = reserved_for (run_id r) \<and> run_id r \<notin> set started
      else run_id r \<in> set started \<and> k \<in> set ids)"

definition runs_ok :: "inbox_run_id list \<Rightarrow> inbox_run_id list \<Rightarrow> ustr list \<Rightarrow> inbox_state \<Rightarrow> bool" where
  "runs_ok given started ids s \<longleftrightarrow> places_ok s \<and> set started \<subseteq> set given \<and>
     (\<forall>i \<in> set ids. \<not> prefix (U ''starting:'') i) \<and>
     (\<forall>k r. aget (ib_records s) k = Some r \<longrightarrow> record_ok given started ids k r) \<and>
     (\<forall>k r k' r'. aget (ib_records s) k = Some r \<longrightarrow> aget (ib_records s) k' = Some r' \<longrightarrow> run_id r = run_id r' \<longrightarrow> k = k')"

lemma runs_okD:
  assumes "runs_ok given started ids s"
  shows "places_ok s" and "set started \<subseteq> set given" and "i \<in> set ids \<Longrightarrow> \<not> prefix (U ''starting:'') i"
    and "aget (ib_records s) k = Some r \<Longrightarrow> record_ok given started ids k r"
    and "aget (ib_records s) k = Some r \<Longrightarrow> aget (ib_records s) k' = Some r' \<Longrightarrow> run_id r = run_id r' \<Longrightarrow> k = k'"
  using assms by (auto simp: runs_ok_def)

lemma reserved_prefix [simp]: "prefix (U ''starting:'') (reserved_key session l)"
  by (simp add: reserved_key_def)

lemma rewritten_rel: "rewritten s s' \<Longrightarrow> rel_option same_run (aget (ib_records s) k) (aget (ib_records s') k)"
  by (simp add: rewritten_def)

lemma rewritten_back:
  assumes "rewritten s s'" and "aget (ib_records s') k = Some r'"
  obtains r where "aget (ib_records s) k = Some r" "same_run r r'"
  using rewritten_rel [OF assms(1), of k] assms(2) by (cases "aget (ib_records s) k") auto

lemma rewritten_None: "rewritten s s' \<Longrightarrow> aget (ib_records s') k = None \<longleftrightarrow> aget (ib_records s) k = None"
  using rewritten_rel [of s s' k] by (cases "aget (ib_records s) k"; cases "aget (ib_records s') k") auto

lemma rewritten_runs:
  assumes "rewritten s s'" and "runs_ok given started ids s"
  shows "runs_ok given started ids s'"
proof -
  have "places_ok s'"
    using assms rewritten_None [OF assms(1)] by (simp add: runs_ok_def places_ok_def rewritten_def)
  moreover have "record_ok given started ids k r'" if "aget (ib_records s') k = Some r'" for k r'
  proof -
    from that obtain r where "aget (ib_records s) k = Some r" "same_run r r'" by (rule rewritten_back [OF assms(1)])
    with runs_okD(4) [OF assms(2) this(1)] show ?thesis by (simp add: record_ok_def same_run_def)
  qed
  moreover have "k = k'" if r: "aget (ib_records s') k = Some r" "aget (ib_records s') k' = Some r'" "run_id r = run_id r'" for k k' r r'
  proof -
    from r(1) obtain x where x: "aget (ib_records s) k = Some x" "same_run x r" by (rule rewritten_back [OF assms(1)])
    from r(2) obtain y where y: "aget (ib_records s) k' = Some y" "same_run y r'" by (rule rewritten_back [OF assms(1)])
    from runs_okD(5) [OF assms(2) x(1) y(1)] x(2) y(2) r(3) show ?thesis by (simp add: same_run_def)
  qed
  ultimately show ?thesis using runs_okD(2,3) [OF assms(2)] unfolding runs_ok_def by blast
qed

lemma same_records_runs:
  "ib_records s' = ib_records s \<Longrightarrow> ib_order s' = ib_order s \<Longrightarrow> runs_ok given started ids s' = runs_ok given started ids s"
  by (simp add: runs_ok_def places_ok_def)

lemma prune_runs: "runs_ok given started ids s \<Longrightarrow> runs_ok given started ids (inbox_prune s)"
proof -
  assume ok: "runs_ok given started ids s"
  note p = prune_state [OF runs_okD(1) [OF ok]]
  show ?thesis unfolding runs_ok_def
    using p(1) runs_okD(2,3) [OF ok] runs_okD(4,5) [OF ok p(2)] p(2) by (auto intro: runs_okD(5) [OF ok])
qed

lemma more_given: "runs_ok given started ids s \<Longrightarrow> runs_ok (given @ extra) started ids s"
  by (auto simp: runs_ok_def record_ok_def split: if_splits)

text \<open>The record of a run that has not started is at its reserved key.\<close>

lemma unstarted_record:
  assumes "runs_ok given started ids s" and "aget (ib_records s) k = Some r" and "run_id r \<notin> set started"
  shows "k = reserved_for (run_id r)" and "ir_starting r"
  using runs_okD(4) [OF assms(1,2)] assms(3) by (auto simp: record_ok_def split: if_splits)

lemma record_at_reserved:
  assumes "runs_ok given started ids s" and "inj_on reserved_for (set given)" and "(session, l) \<in> set given"
    and "aget (ib_records s) (reserved_key session l) = Some r"
  shows "run_id r = (session, l)" and "ir_starting r" and "(session, l) \<notin> set started"
proof -
  note ok = runs_okD(4) [OF assms(1,4)]
  have "reserved_key session l \<notin> set ids" using runs_okD(3) [OF assms(1)] reserved_prefix by blast
  with ok show st: "ir_starting r" by (auto simp: record_ok_def split: if_splits)
  with ok have "reserved_for (session, l) = reserved_for (run_id r)" "run_id r \<in> set given"
    by (simp_all add: record_ok_def reserved_for_def)
  with assms(2,3) show "run_id r = (session, l)" by (metis inj_onD)
  with ok st show "(session, l) \<notin> set started" by (simp add: record_ok_def)
qed

lemma reserved_key_free:
  assumes "runs_ok given started ids s" and "inj_on reserved_for (set (given @ [(session, l)]))" and "(session, l) \<notin> set given"
  shows "aget (ib_records s) (reserved_key session l) = None"
proof (rule ccontr)
  assume "aget (ib_records s) (reserved_key session l) \<noteq> None"
  then obtain r where r: "aget (ib_records s) (reserved_key session l) = Some r" by auto
  have "run_id r = (session, l)" using record_at_reserved [OF more_given [OF assms(1)] assms(2) _ r] by simp
  with runs_okD(4) [OF assms(1) r] assms(3) show False by (simp add: record_ok_def)
qed

lemma reserve_runs:
  assumes "runs_ok given started ids s" and "inj_on reserved_for (set (given @ [(session, l)]))" and "(session, l) \<notin> set given"
    and "reserve_label now call t d session s = (Some l, s')"
  shows "runs_ok (given @ [(session, l)]) started ids s'"
proof -
  let ?key = "reserved_key session l" and ?r = "new_record now (reserved_key session l) l t d session True"
  obtain s1 where s1: "inbox_next_label session t s = (l, s1)"
    using assms(4) by (auto simp: reserve_label_def Let_def split: if_splits prod.splits)
  from assms(4) s1 have s': "ib_records s' = aput ?key ?r (ib_records s)" "ib_order s' = ib_order s @ [?key]"
    using next_label_fields [OF s1] by (auto simp: reserve_label_def Let_def put_record_def split: if_splits)
  have rid: "run_id ?r = (session, l)" "ir_starting ?r" "ir_task_id ?r = ?key" by (simp_all add: new_record_def run_id_def)
  have none: "aget (ib_records s) ?key = None" by (rule reserved_key_free [OF assms(1-3)])
  have unstarted: "(session, l) \<notin> set started" using runs_okD(2) [OF assms(1)] assms(3) by auto
  have other: "run_id r \<noteq> (session, l)" if "aget (ib_records s) k = Some r" for k r
    using runs_okD(4) [OF assms(1) that] assms(3) by (auto simp: record_ok_def)
  have "places_ok s'"
    using runs_okD(1) [OF assms(1)] none by (auto simp: places_ok_def s' amap.get_put)
  moreover have "record_ok (given @ [(session, l)]) started ids k r" if r: "aget (ib_records s') k = Some r" for k r
  proof (cases "k = ?key")
    case True
    with r rid unstarted show ?thesis by (simp add: s' amap.get_put record_ok_def reserved_for_def)
  next
    case False
    with r have "aget (ib_records s) k = Some r" by (simp add: s' amap.get_put)
    with runs_okD(4) [OF more_given [OF assms(1)]] show ?thesis by blast
  qed
  moreover have "k = k'" if "aget (ib_records s') k = Some r" "aget (ib_records s') k' = Some r'" "run_id r = run_id r'" for k k' r r'
    using that rid other [of k r] other [of k' r'] runs_okD(5) [OF assms(1)] by (auto simp: s' amap.get_put split: if_splits)
  ultimately show ?thesis using runs_okD(2,3) [OF assms(1)] by (auto simp: runs_ok_def)
qed

lemma replace_first_distinct:
  "distinct xs \<Longrightarrow> a \<in> set xs \<Longrightarrow> b \<notin> set xs \<Longrightarrow>
   distinct (replace_first a b xs) \<and> set (replace_first a b xs) = insert b (set xs - {a})"
  by (induction xs) auto

lemma start_runs:
  assumes ok: "runs_ok given started ids s" and inj: "inj_on reserved_for (set given)"
    and giv: "(session, l) \<in> set given" and new: "(session, l) \<notin> set started"
    and id: "task_id \<notin> set ids" "\<not> prefix (U ''starting:'') task_id"
    and st: "start_in now session task_id l t d s = (r, s')"
  shows "runs_ok given (started @ [(session, l)]) (ids @ [task_id]) s'"
proof -
  let ?key = "reserved_key session l"
  have free: "aget (ib_records s) task_id = None"
  proof (rule ccontr)
    assume "aget (ib_records s) task_id \<noteq> None"
    then obtain x where x: "aget (ib_records s) task_id = Some x" by auto
    from runs_okD(4) [OF ok x] id show False by (auto simp: record_ok_def reserved_for_def split: if_splits)
  qed
  have ne: "task_id \<noteq> ?key" using id(2) by auto
  have keep: "record_ok given (started @ [(session, l)]) (ids @ [task_id]) k x"
    if "aget (ib_records s) k = Some x" "run_id x \<noteq> (session, l)" for k x
    using runs_okD(4) [OF ok that(1)] that(2) by (auto simp: record_ok_def split: if_splits)
  have bound: "runs_ok given (started @ [(session, l)]) (ids @ [task_id]) s2"
    if recs: "\<And>k. aget (ib_records s2) k = (if k = task_id then Some x else if k = ?key then None else aget (ib_records s) k)"
      and x: "run_id x = (session, l)" "ir_task_id x = task_id" "\<not> ir_starting x"
      and places: "places_ok s2" for s2 x
  proof -
    have other: "run_id y \<noteq> (session, l)" if "aget (ib_records s) k = Some y" "k \<noteq> ?key" for k y
      using unstarted_record(1) [OF ok that(1)] new that(2) by (auto simp: reserved_for_def)
    have "record_ok given (started @ [(session, l)]) (ids @ [task_id]) k y" if y: "aget (ib_records s2) k = Some y" for k y
    proof (cases "k = task_id")
      case True
      with y x giv show ?thesis by (simp add: recs record_ok_def)
    next
      case False
      with y have "aget (ib_records s) k = Some y" "k \<noteq> ?key" by (simp_all add: recs split: if_splits)
      with keep other show ?thesis by blast
    qed
    moreover have "k = k'" if "aget (ib_records s2) k = Some y" "aget (ib_records s2) k' = Some y'" "run_id y = run_id y'" for k k' y y'
      using that x other [of k y] other [of k' y'] runs_okD(5) [OF ok] by (auto simp: recs split: if_splits)
    ultimately show ?thesis
      using places runs_okD(2,3) [OF ok] giv id by (auto simp: runs_ok_def)
  qed
  show ?thesis
  proof (cases "aget (ib_records s) ?key")
    case (Some x)
    note at = record_at_reserved [OF ok inj giv Some]
    let ?s1 = "s\<lparr>ib_records := adel ?key (ib_records s), ib_order := replace_first ?key task_id (ib_order s)\<rparr>"
    from st Some have s': "s' = put_record task_id r ?s1" and r: "run_id r = (session, l)" "ir_task_id r = task_id" "\<not> ir_starting r"
      using at(1) by (auto simp: start_in_def Let_def run_id_def)
    have recs: "aget (ib_records s') k = (if k = task_id then Some r else if k = ?key then None else aget (ib_records s) k)" for k
      by (simp add: s' amap.get_del)
    have "?key \<in> set (ib_order s)" "task_id \<notin> set (ib_order s)" "distinct (ib_order s)"
      using runs_okD(1) [OF ok] Some free by (auto simp: places_ok_def)
    from replace_first_distinct [OF this(3,1,2)] have "places_ok s'"
      using runs_okD(1) [OF ok] ne by (auto simp: places_ok_def s' amap.get_del)
    with recs r show ?thesis by (rule bound)
  next
    case None
    let ?r = "new_record now task_id l t d session False"
    let ?s1 = "(put_record task_id ?r s)\<lparr>ib_order := ib_order s @ [task_id]\<rparr>"
    from st None have s': "s' = inbox_prune ?s1" by (auto simp: start_in_def Let_def)
    have r: "run_id ?r = (session, l)" "ir_task_id ?r = task_id" "\<not> ir_starting ?r"
      by (simp_all add: new_record_def run_id_def)
    have recs: "aget (ib_records ?s1) k = (if k = task_id then Some ?r else if k = ?key then None else aget (ib_records s) k)" for k
      using None by simp
    have "places_ok ?s1" using runs_okD(1) [OF ok] free by (auto simp: places_ok_def)
    from prune_runs [OF bound [OF recs r this]] show ?thesis by (simp add: s')
  qed
qed

end
