(* ===== verification/Subagent_Inbox_Life.thy ===== *)
theory Subagent_Inbox_Life
  imports Subagent_Inbox_Runs
begin

text \<open>
  The invariants of whole runs of the inbox: labels and records, the bodies still to be handed out, the
  runs cancelled before their start, and which operations settle a run.
\<close>

section \<open>The invariant of a run\<close>

definition inbox_inv :: "inbox_world \<Rightarrow> bool" where
  "inbox_inv w \<longleftrightarrow> labels_ok (iw_given w) (iw_state w) \<and> runs_ok (iw_given w) (iw_started w) (iw_ids w) (iw_state w)"

definition sound_keys :: "inbox_world \<Rightarrow> bool" where
  "sound_keys w \<longleftrightarrow> \<not> iw_wrapped w \<and> inj_on reserved_for (set (iw_given w))"

lemma start_counters: "start_in now session i l t d s = (r, s') \<Longrightarrow> places_ok s \<Longrightarrow> aget (ib_records s) i = None \<Longrightarrow>
   ib_counters s' = ib_counters s \<and> ib_seeded s' = ib_seeded s"
proof (cases "aget (ib_records s) (reserved_key session l)")
  case None
  assume st: "start_in now session i l t d s = (r, s')" and ok: "places_ok s" "aget (ib_records s) i = None"
  have "places_ok ((put_record i (new_record now i l t d session False) s)\<lparr>ib_order := ib_order s @ [i]\<rparr>)"
    using ok by (auto simp: places_ok_def)
  from prune_state(4,5) [OF this] st None show ?thesis by (auto simp: start_in_def Let_def)
qed (auto simp: start_in_def Let_def)

lemma rewritten_inv:
  "rewritten s s' \<Longrightarrow> labels_ok given s \<Longrightarrow> runs_ok given started ids s \<Longrightarrow> labels_ok given s' \<and> runs_ok given started ids s'"
  using rewritten_runs labels_ok_cong [of s' s] by (simp add: rewritten_def)

lemma prune_inv:
  "labels_ok given s \<Longrightarrow> runs_ok given started ids s \<Longrightarrow> labels_ok given (inbox_prune s) \<and> runs_ok given started ids (inbox_prune s)"
  using prune_runs labels_ok_cong [of "inbox_prune s" s] prune_state(4,5) [OF runs_okD(1)] by simp

lemma fresh_id:
  "runs_ok given started ids s \<Longrightarrow> i \<notin> set ids \<Longrightarrow> \<not> prefix (U ''starting:'') i \<Longrightarrow> aget (ib_records s) i = None"
  using runs_okD(4) [of given started ids s i] by (cases "aget (ib_records s) i") (auto simp: record_ok_def reserved_for_def split: if_splits)

lemma fail_reserved_steps:
  assumes "fail_reserved now session l reason s = Some (r, s')"
  obtains x where "aget (ib_records s) (reserved_key session l) = Some x" "ir_lifecycle x = Life_Running"
    "rewritten s (put_record (reserved_key session l) (settle_record now Life_Failed reason x) s)"
    "s' = inbox_prune (put_record (reserved_key session l) (settle_record now Life_Failed reason x) s)"
proof -
  from assms obtain x where x: "aget (ib_records s) (reserved_key session l) = Some x" "ir_lifecycle x = Life_Running"
    "s' = inbox_prune (put_record (reserved_key session l) (settle_record now Life_Failed reason x) s)"
    by (auto simp: fail_reserved_def Let_def split: option.splits if_splits)
  moreover have "same_run x (settle_record now Life_Failed reason x)" by (simp add: same_run_def)
  ultimately show ?thesis using that rewritten_put by blast
qed

lemma sound_before: "inbox_step w w' \<Longrightarrow> sound_keys w' \<Longrightarrow> sound_keys w"
  by (erule inbox_step.cases) (auto simp: sound_keys_def intro: inj_on_subset)

lemma step_inv:
  assumes "inbox_step w w'" and "sound_keys w'" and inv: "sound_keys w \<Longrightarrow> inbox_inv w"
  shows "inbox_inv w'"
proof -
  have sound: "sound_keys w" by (rule sound_before [OF assms(1,2)])
  then have lab: "labels_ok (iw_given w) (iw_state w)" and run: "runs_ok (iw_given w) (iw_started w) (iw_ids w) (iw_state w)"
    using inv by (simp_all add: inbox_inv_def)
  note kept = rewritten_inv [OF _ lab run]
  have rew: ?thesis if "rewritten (iw_state w) (iw_state w')" "iw_given w' = iw_given w" "iw_started w' = iw_started w"
      "iw_ids w' = iw_ids w"
    using kept [OF that(1)] that(2-4) by (simp add: inbox_inv_def)
  have same: ?thesis if "ib_records (iw_state w') = ib_records (iw_state w)" "ib_order (iw_state w') = ib_order (iw_state w)"
      "ib_counters (iw_state w') = ib_counters (iw_state w)" "ib_seeded (iw_state w') = ib_seeded (iw_state w)"
      "iw_given w' = iw_given w" "iw_started w' = iw_started w" "iw_ids w' = iw_ids w"
    using lab run same_records_runs [OF that(1,2)] labels_ok_cong [OF that(3,4)] that(5-7) by (simp add: inbox_inv_def)
  from assms(1) show ?thesis
  proof (cases rule: inbox_step.cases)
    case (seeds session captures contents)
    with seed_labels [OF lab] run same_records_runs [of "seed_with session (handles_in captures contents) (iw_state w)" "iw_state w"]
    show ?thesis by (simp add: inbox_inv_def)
  next
    case (reserves now call t d session l s)
    then obtain s1 where s1: "inbox_next_label session t (iw_state w) = (l, s1)"
      "ib_counters s = ib_counters s1" "ib_seeded s = ib_seeded s1"
      by (auto simp: reserve_label_def Let_def split: if_splits prod.splits)
    from reserves assms(2) have "\<not> label_wraps session t (iw_state w)" "inj_on reserved_for (set (iw_given w @ [(session, l)]))"
      by (simp_all add: sound_keys_def)
    with next_label_fresh [OF lab s1(1)] labels_ok_cong [OF s1(2,3)] reserve_runs [OF run _ _ reserves(2)] reserves(1)
    show ?thesis by (simp add: inbox_inv_def)
  next
    case (labels session t l s)
    then have "\<not> label_wraps session t (iw_state w)" using assms(2) by (simp add: sound_keys_def)
    with next_label_fresh [OF lab labels(2)] same_records_runs [of s "iw_state w"] next_label_fields [OF labels(2)]
      more_given [OF run] labels(1)
    show ?thesis by (simp add: inbox_inv_def)
  next
    case (starts session l task_id now t d r s)
    have "inj_on reserved_for (set (iw_given w))" using sound by (simp add: sound_keys_def)
    from start_runs [OF run this starts(2-6)] start_counters [OF starts(6) runs_okD(1) [OF run] fresh_id [OF run starts(4,5)]]
      lab labels_ok_cong [of s "iw_state w"] starts(1)
    show ?thesis by (simp add: inbox_inv_def)
  next
    case (fails_reserved now session l reason r s)
    obtain s1 where s1: "rewritten (iw_state w) s1" "s = inbox_prune s1"
      using fail_reserved_steps [OF fails_reserved(2)] by blast
    from prune_inv [of "iw_given w" s1 "iw_started w" "iw_ids w"] kept [OF s1(1)] s1(2) fails_reserved(1) show ?thesis by (simp add: inbox_inv_def)
  next
    case (observes pool new s)
    then show ?thesis by (intro same) (auto simp: observe_def)
  next
    case (binds session l session_id)
    then show ?thesis by (intro same) (simp_all add: bind_label_in_def Let_def split: prod.split)
  next
    case takes
    then show ?thesis by (intro rew) (auto dest: take_rewrites)
  next
    case abandons
    then show ?thesis by (intro rew) (auto dest: abandoned_rewrites)
  next
    case cancels_before_start
    then show ?thesis by (intro rew) (auto dest: cancel_rewrites)
  next
    case cancels_running
    then show ?thesis by (intro rew) (auto dest: cancel_rewrites)
  next
    case finishes
    then show ?thesis by (intro rew) (auto dest: finish_rewrites)
  next
    case fails
    then show ?thesis by (intro rew) (auto dest: fail_rewrites)
  next
    case collects
    then show ?thesis by (intro rew) (auto dest: collect_rewrites)
  next
    case reconciles
    then show ?thesis by (intro rew) (auto dest: reconciled_rewrites)
  next
    case progresses
    then show ?thesis by (intro rew) (auto intro: progress_rewrites)
  qed
qed

lemma start_inv: "inbox_inv inbox_start"
  by (simp add: inbox_inv_def labels_ok_def runs_ok_def places_ok_def inbox_start_def inbox_empty_def)

lemma inbox_run_inv: "inbox_run w \<Longrightarrow> sound_keys w \<Longrightarrow> inbox_inv w"
proof (induction rule: inbox_run_induct)
  case start
  show ?case by (rule start_inv)
next
  case (step w w')
  from step_inv [OF step.hyps(2) step.prems step.IH] show ?case .
qed

section \<open>A body is handed out once\<close>

definition bodies_ok :: "inbox_world \<Rightarrow> bool" where
  "bodies_ok w \<longleftrightarrow> (\<forall>k. count_list (iw_collected w) k
       + (case aget (ib_records (iw_state w)) k of Some r \<Rightarrow> (if ir_lifecycle r = Life_Done then 1 else 0) | None \<Rightarrow> 0)
       \<le> count_list (iw_done w) k) \<and>
     (\<forall>k r. aget (ib_records (iw_state w)) k = Some r \<longrightarrow> ir_starting r \<longrightarrow> ir_lifecycle r \<noteq> Life_Done)"

text \<open>An operation that stores no body leaves the count of bodies to hand out.\<close>

definition no_more_done :: "inbox_state \<Rightarrow> inbox_state \<Rightarrow> bool" where
  "no_more_done s s' \<longleftrightarrow> (\<forall>k r'. aget (ib_records s') k = Some r' \<longrightarrow> ir_lifecycle r' = Life_Done \<longrightarrow>
     \<not> ir_starting r' \<and> (\<exists>r. aget (ib_records s) k = Some r \<and> ir_lifecycle r = Life_Done))"

lemma bodies_kept:
  assumes "bodies_ok w" and "no_more_done (iw_state w) (iw_state w')" and "iw_collected w' = iw_collected w"
    and "iw_done w' = iw_done w"
  shows "bodies_ok w'"
proof -
  have "count_list (iw_collected w) k
       + (case aget (ib_records (iw_state w')) k of Some r \<Rightarrow> (if ir_lifecycle r = Life_Done then 1 else 0) | None \<Rightarrow> 0)
       \<le> count_list (iw_done w) k" for k
  proof (cases "\<exists>r'. aget (ib_records (iw_state w')) k = Some r' \<and> ir_lifecycle r' = Life_Done")
    case True
    then obtain r where "aget (ib_records (iw_state w)) k = Some r" "ir_lifecycle r = Life_Done"
      using assms(2) by (auto simp: no_more_done_def)
    with True assms(1) show ?thesis by (auto simp: bodies_ok_def dest: spec [of _ k])
  next
    case False
    from assms(1) have "count_list (iw_collected w) k \<le> count_list (iw_done w) k"
      unfolding bodies_ok_def by (meson add_leD1)
    with False show ?thesis by (auto split: option.split)
  qed
  with assms(2,3,4) show ?thesis by (auto simp: bodies_ok_def no_more_done_def)
qed

lemma no_more_done_refl:
  "bodies_ok w \<Longrightarrow> ib_records s = ib_records (iw_state w) \<Longrightarrow> no_more_done (iw_state w) s"
  by (auto simp: bodies_ok_def no_more_done_def)

lemma no_more_done_put:
  assumes "bodies_ok w" and "ir_lifecycle r' = Life_Done \<longrightarrow> aget (ib_records (iw_state w)) k = Some r \<and> ir_lifecycle r = Life_Done \<and> ir_starting r' = ir_starting r"
    and "ib_records s = aput k r' (ib_records (iw_state w))"
  shows "no_more_done (iw_state w) s"
  using assms by (auto simp: bodies_ok_def no_more_done_def amap.get_put split: if_splits)

lemma no_more_done_prune: "places_ok s \<Longrightarrow> no_more_done s0 s \<Longrightarrow> no_more_done s0 (inbox_prune s)"
  unfolding no_more_done_def using prune_state(2) by blast

lemma reconciled_records:
  "reconcile_go is_live max_age now order s = (rs, s') \<Longrightarrow> aget (ib_records s') k = Some r' \<Longrightarrow>
   aget (ib_records s) k = Some r' \<or> ir_lifecycle r' = Life_Failed"
proof (induction order arbitrary: s rs)
  case (Cons i order)
  then show ?case by (fastforce simp: Let_def split: option.splits if_splits prod.splits)
qed simp

lemma collected_record:
  assumes "collect_key key s = Some ((r, body), s')"
  obtains x where "aget (ib_records s) key = Some x" "ir_lifecycle x = Life_Done"
    "ib_records s' = aput key (x\<lparr>ir_body := None, ir_lifecycle := Life_Collected\<rparr>) (ib_records s)"
  using assms by (auto simp: collect_key_def Let_def put_record_def split: option.splits if_splits)

text \<open>\<open>finish\<close> and \<open>collect\<close> change the counts at one key.\<close>

lemma bodies_at:
  assumes "bodies_ok w" and "ib_records (iw_state w') = aput key x (ib_records (iw_state w))" and "\<not> ir_starting x"
    and "\<And>k. k \<noteq> key \<Longrightarrow> count_list (iw_collected w') k = count_list (iw_collected w) k \<and> count_list (iw_done w') k = count_list (iw_done w) k"
    and "count_list (iw_collected w') key + (if ir_lifecycle x = Life_Done then 1 else 0) \<le> count_list (iw_done w') key"
  shows "bodies_ok w'"
proof -
  have "count_list (iw_collected w') k
       + (case aget (ib_records (iw_state w')) k of Some r \<Rightarrow> (if ir_lifecycle r = Life_Done then 1 else 0) | None \<Rightarrow> 0)
       \<le> count_list (iw_done w') k" for k
    using assms(1,4,5) by (cases "k = key") (simp_all add: assms(2) amap.get_put bodies_ok_def)
  with assms(1,2,3) show ?thesis by (auto simp: bodies_ok_def amap.get_put split: if_splits)
qed

lemma start_bodies:
  assumes ok: "bodies_ok w" and run: "runs_ok given started ids (iw_state w)" and id: "aget (ib_records (iw_state w)) task_id = None"
    and st: "start_in now session task_id l t d (iw_state w) = (r, s)"
  shows "no_more_done (iw_state w) s"
proof (cases "aget (ib_records (iw_state w)) (reserved_key session l)")
  case (Some x)
  let ?key = "reserved_key session l"
  from st Some have s: "\<And>k. aget (ib_records s) k = (if k = task_id then Some r else if k = ?key then None else aget (ib_records (iw_state w)) k)"
    and r: "ir_lifecycle r = ir_lifecycle x" by (auto simp: start_in_def Let_def amap.get_del)
  from runs_okD(4) [OF run Some] runs_okD(3) [OF run, of ?key] have "ir_starting x" by (auto simp: record_ok_def split: if_splits)
  with ok Some r have "ir_lifecycle r \<noteq> Life_Done" by (auto simp: bodies_ok_def)
  with ok s show ?thesis by (auto simp: bodies_ok_def no_more_done_def split: if_splits)
next
  case None
  let ?s = "(put_record task_id (new_record now task_id l t d session False) (iw_state w))\<lparr>ib_order := ib_order (iw_state w) @ [task_id]\<rparr>"
  from st None have s: "s = inbox_prune ?s" by (auto simp: start_in_def Let_def)
  have "places_ok ?s" using runs_okD(1) [OF run] id by (auto simp: places_ok_def)
  moreover have "no_more_done (iw_state w) ?s"
    by (rule no_more_done_put [OF ok, of "new_record now task_id l t d session False" task_id])
      (simp_all add: new_record_def put_record_def)
  ultimately show ?thesis unfolding s by (rule no_more_done_prune)
qed

text \<open>What the other operations store.\<close>

lemma reserve_stores:
  "reserve_label now call t d session s = (Some l, s') \<Longrightarrow>
   ib_records s' = aput (reserved_key session l) (new_record now (reserved_key session l) l t d session True) (ib_records s)"
  by (auto simp: reserve_label_def Let_def put_record_def dest: next_label_fields split: if_splits prod.splits)

lemma reserve_bodies:
  "bodies_ok w \<Longrightarrow> reserve_label now call t d session (iw_state w) = (Some l, s) \<Longrightarrow> no_more_done (iw_state w) s"
  by (rule no_more_done_put [OF _ _ reserve_stores]) (simp_all add: new_record_def)

lemma take_bodies:
  assumes ok: "bodies_ok w" and "take_reserved call d session (iw_state w) = Some (l, s)"
  shows "no_more_done (iw_state w) s"
proof -
  from assms(2) consider "ib_records s = ib_records (iw_state w)"
    | k r desc where "aget (ib_records (iw_state w)) k = Some r" "ib_records s = aput k (r\<lparr>ir_description := desc\<rparr>) (ib_records (iw_state w))"
    by (auto simp: take_reserved_def Let_def put_record_def split: option.splits if_splits)
  then show ?thesis
  proof cases
    case 1
    then show ?thesis by (rule no_more_done_refl [OF ok])
  next
    case 2
    then show ?thesis by (intro no_more_done_put [OF ok, of "r\<lparr>ir_description := desc\<rparr>" k r]) simp_all
  qed
qed

lemma settled_bodies:
  "bodies_ok w \<Longrightarrow> lc \<noteq> Life_Done \<Longrightarrow> no_more_done (iw_state w) (put_record k (settle_record now lc reason x) (iw_state w))"
  by (rule no_more_done_put [where k = k and r' = "settle_record now lc reason x"]) (simp_all add: put_record_def)

lemma abandon_bodies:
  "bodies_ok w \<Longrightarrow> settle_abandoned now session l (iw_state w) = Some (r, s) \<Longrightarrow> no_more_done (iw_state w) s"
  by (auto simp: settle_abandoned_def Let_def settled_bodies split: option.splits if_splits)

lemma fail_bodies:
  "bodies_ok w \<Longrightarrow> inbox_fail now i reason Life_Failed (iw_state w) = Some (r, s) \<Longrightarrow> no_more_done (iw_state w) s"
  by (auto simp: inbox_fail_def Let_def settled_bodies split: option.splits)

lemma fail_reserved_bodies:
  assumes ok: "bodies_ok w" and run: "runs_ok given started ids (iw_state w)"
    and "fail_reserved now session l reason (iw_state w) = Some (r, s)"
  shows "no_more_done (iw_state w) s"
proof -
  obtain x where x: "rewritten (iw_state w) (put_record (reserved_key session l) (settle_record now Life_Failed reason x) (iw_state w))"
    "s = inbox_prune (put_record (reserved_key session l) (settle_record now Life_Failed reason x) (iw_state w))"
    using fail_reserved_steps [OF assms(3)] by blast
  from no_more_done_prune [OF runs_okD(1) [OF rewritten_runs [OF x(1) run]]] settled_bodies [OF ok] show ?thesis
    unfolding x(2) by blast
qed

lemma flag_bodies:
  "bodies_ok w \<Longrightarrow> aget (ib_records (iw_state w)) k = Some x \<Longrightarrow>
   no_more_done (iw_state w) (put_record k (x\<lparr>ir_cancel_requested := True\<rparr>) (iw_state w))"
  by (rule no_more_done_put [where k = k and r = x and r' = "x\<lparr>ir_cancel_requested := True\<rparr>"]) (simp_all add: put_record_def)

lemma cancel_bodies:
  "bodies_ok w \<Longrightarrow> request_cancel now session h (iw_state w) = Some (ask, s) \<Longrightarrow> no_more_done (iw_state w) s"
  by (auto simp: request_cancel_def Let_def settled_bodies flag_bodies no_more_done_refl split: option.splits if_splits)

lemma reconcile_bodies:
  "bodies_ok w \<Longrightarrow> reconcile is_live max_age now (iw_state w) = (rs, s) \<Longrightarrow> no_more_done (iw_state w) s"
  using reconciled_records [of is_live max_age now "ib_order (iw_state w)" "iw_state w" rs s]
  by (fastforce simp: no_more_done_def bodies_ok_def reconcile_def)

lemma progress_bodies: "bodies_ok w \<Longrightarrow> no_more_done (iw_state w) (task_progress i event (iw_state w))"
proof -
  assume ok: "bodies_ok w"
  have "no_more_done (iw_state w) (put_record i (x\<lparr>ir_last_activity := Some a\<rparr>) (iw_state w))"
    if "aget (ib_records (iw_state w)) i = Some x" for x a
    by (rule no_more_done_put [OF ok, where k = i and r = x and r' = "x\<lparr>ir_last_activity := Some a\<rparr>"])
      (simp_all add: put_record_def that)
  then show ?thesis using no_more_done_refl [OF ok] by (auto simp: task_progress_def split: option.split)
qed

lemma finish_bodies:
  assumes ok: "bodies_ok w" and run: "runs_ok (iw_given w) (iw_started w) (iw_ids w) (iw_state w)"
    and id: "task_id \<in> set (iw_ids w)" and fin: "inbox_finish now task_id result (iw_state w) = Some (r, s)"
    and w': "iw_state w' = s" "iw_collected w' = iw_collected w"
      "iw_done w' = iw_done w @ (if ir_lifecycle r = Life_Done then [task_id] else [])"
  shows "bodies_ok w'"
proof -
  from fin obtain x where x: "aget (ib_records (iw_state w)) task_id = Some x" "r = finish_record now result x"
    "ib_records s = aput task_id r (ib_records (iw_state w))"
    by (auto simp: inbox_finish_def Let_def put_record_def split: option.splits)
  from runs_okD(4) [OF run x(1)] runs_okD(3) [OF run id] have "\<not> ir_starting x"
    by (auto simp: record_ok_def reserved_for_def split: if_splits)
  moreover from ok have "count_list (iw_collected w) task_id \<le> count_list (iw_done w) task_id"
    unfolding bodies_ok_def by (meson add_leD1)
  ultimately show ?thesis using x(2,3) by (intro bodies_at [OF ok, of w' task_id r]) (auto simp: w')
qed

lemma collect_bodies:
  assumes ok: "bodies_ok w" and coll: "collect_key key (iw_state w) = Some ((r, body), s)"
    and w': "iw_state w' = s" "iw_collected w' = iw_collected w @ [key]" "iw_done w' = iw_done w"
  shows "bodies_ok w'"
proof -
  obtain x where x: "aget (ib_records (iw_state w)) key = Some x" "ir_lifecycle x = Life_Done"
    "ib_records s = aput key (x\<lparr>ir_body := None, ir_lifecycle := Life_Collected\<rparr>) (ib_records (iw_state w))"
    by (rule collected_record [OF coll])
  with ok have "\<not> ir_starting x" "count_list (iw_collected w) key + 1 \<le> count_list (iw_done w) key"
    by (auto simp: bodies_ok_def dest: spec [of _ key])
  with x(3) show ?thesis
    by (intro bodies_at [OF ok, of w' key "x\<lparr>ir_body := None, ir_lifecycle := Life_Collected\<rparr>"]) (auto simp: w')
qed

lemma bodies_step:
  assumes "inbox_step w w'" and ok: "bodies_ok w" and run: "runs_ok (iw_given w) (iw_started w) (iw_ids w) (iw_state w)"
  shows "bodies_ok w'"
proof -
  note kept = bodies_kept [OF ok]
  note same = kept [OF no_more_done_refl [OF ok]]
  from assms(1) show ?thesis
  proof (cases rule: inbox_step.cases)
    case labels
    then show ?thesis by (intro same) (auto dest: next_label_fields)
  next
    case (starts session l task_id now t d r s)
    from start_bodies [OF ok run fresh_id [OF run starts(4,5)] starts(6)] starts(1) show ?thesis by (intro kept) simp_all
  next
    case finishes
    then show ?thesis by (intro finish_bodies [OF ok run]) auto
  next
    case collects
    then show ?thesis by (intro collect_bodies [OF ok]) auto
  next
    case observes
    then show ?thesis by (intro same) (auto simp: observe_def)
  next
    case binds
    then show ?thesis by (intro same) (auto simp: bind_label_in_def Let_def split: prod.split)
  next
    case seeds
    then show ?thesis by (intro same) auto
  qed (auto intro!: kept intro: reserve_bodies [OF ok] take_bodies [OF ok] abandon_bodies [OF ok] fail_bodies [OF ok]
      fail_reserved_bodies [OF ok run] cancel_bodies [OF ok] reconcile_bodies [OF ok] progress_bodies [OF ok])
qed

section \<open>A run cancelled before its start\<close>

definition stop_ok :: "inbox_world \<Rightarrow> inbox_run_id \<Rightarrow> bool" where
  "stop_ok w h \<longleftrightarrow> h \<in> set (iw_given w) \<and> (h \<in> set (iw_pruned w) \<or>
     (if h \<in> set (iw_started w) then h \<notin> set (iw_dispatched w)
      else \<exists>r. aget (ib_records (iw_state w)) (reserved_for h) = Some r \<and> run_id r = h \<and> ir_lifecycle r \<noteq> Life_Running))"

definition stops_ok :: "inbox_world \<Rightarrow> bool" where
  "stops_ok w \<longleftrightarrow> set (iw_dispatched w) \<subseteq> set (iw_started w) \<and> (\<forall>h \<in> set (iw_stopped w). stop_ok w h)"

text \<open>A settled record that is not in the new state is one that was pruned.\<close>

lemma inbox_list_in: "r \<in> set (inbox_list None s) \<longleftrightarrow> (\<exists>k \<in> set (ib_order s). aget (ib_records s) k = Some r)"
  by (simp add: inbox_list_def map_filter_def image_iff) (metis option.sel)

lemma gone_is_dropped:
  assumes "places_ok s" and "aget (ib_records s) k = Some r"
    and "\<And>k' x. aget (ib_records s') k' = Some x \<Longrightarrow> run_id x \<noteq> run_id r"
  shows "run_id r \<in> set (dropped_runs s s')"
proof -
  have "k \<in> set (ib_order s)" using assms(1,2) by (simp add: places_ok_def)
  with assms(2) have "r \<in> set (inbox_list None s)" by (auto simp: inbox_list_in)
  moreover have "run_id r \<notin> run_id ` set (inbox_list None s')" using assms(3) by (fastforce simp: inbox_list_in)
  ultimately show ?thesis by (simp add: dropped_runs_def)
qed

lemma stops_kept:
  assumes "stops_ok w" and "set (iw_given w) \<subseteq> set (iw_given w')" and "iw_started w' = iw_started w"
    and "iw_dispatched w' = iw_dispatched w" and "iw_stopped w' = iw_stopped w" and "set (iw_pruned w) \<subseteq> set (iw_pruned w')"
    and "\<And>h r. h \<notin> set (iw_started w) \<Longrightarrow> aget (ib_records (iw_state w)) (reserved_for h) = Some r \<Longrightarrow> run_id r = h \<Longrightarrow>
      ir_lifecycle r \<noteq> Life_Running \<Longrightarrow>
      h \<in> set (iw_pruned w') \<or> (\<exists>r'. aget (ib_records (iw_state w')) (reserved_for h) = Some r' \<and> same_run r r')"
  shows "stops_ok w'"
proof -
  have "stop_ok w' h" if h: "stop_ok w h" for h
  proof (cases "h \<in> set (iw_pruned w) \<or> h \<in> set (iw_started w)")
    case True
    with h assms(2-6) show ?thesis by (auto simp: stop_ok_def)
  next
    case False
    with h obtain r where r: "aget (ib_records (iw_state w)) (reserved_for h) = Some r" "run_id r = h" "ir_lifecycle r \<noteq> Life_Running"
      by (auto simp: stop_ok_def)
    with False assms(7) [of h r] h assms(2,3) show ?thesis by (auto simp: stop_ok_def same_run_def)
  qed
  with assms(1,3-5) show ?thesis by (auto simp: stops_ok_def)
qed

lemma stops_rewritten:
  assumes "stops_ok w" and "rewritten (iw_state w) (iw_state w')" and "iw_given w' = iw_given w" and "iw_started w' = iw_started w"
    and "iw_dispatched w' = iw_dispatched w" and "iw_stopped w' = iw_stopped w" and "iw_pruned w' = iw_pruned w"
  shows "stops_ok w'"
proof (rule stops_kept [OF assms(1)])
  fix h r
  assume "aget (ib_records (iw_state w)) (reserved_for h) = Some r"
  with rewritten_rel [OF assms(2), of "reserved_for h"]
  show "h \<in> set (iw_pruned w') \<or> (\<exists>r'. aget (ib_records (iw_state w')) (reserved_for h) = Some r' \<and> same_run r r')"
    by (cases "aget (ib_records (iw_state w')) (reserved_for h)") auto
qed (simp_all add: assms)

text \<open>A record that has lost its place without having started has been dropped.\<close>

lemma lost_is_dropped:
  assumes "runs_ok given started ids s" and "runs_ok given' started' ids' s'" and "h \<notin> set started'"
    and "aget (ib_records s) (reserved_for h) = Some r" and "run_id r = h" and "aget (ib_records s') (reserved_for h) = None"
  shows "h \<in> set (dropped_runs s s')"
proof -
  have "run_id x \<noteq> run_id r" if "aget (ib_records s') k' = Some x" for k' x
    using unstarted_record(1) [OF assms(2) that] assms(3,5,6) that by auto
  from gone_is_dropped [OF runs_okD(1) [OF assms(1)] assms(4) this] assms(5) show ?thesis by simp
qed

lemma start_stops:
  assumes ok: "stops_ok w" and run: "runs_ok (iw_given w) (iw_started w) (iw_ids w) (iw_state w)"
    and inj: "inj_on reserved_for (set (iw_given w))"
    and h: "(session, l) \<in> set (iw_given w)" "(session, l) \<notin> set (iw_started w)"
    and id: "task_id \<notin> set (iw_ids w)" "\<not> prefix (U ''starting:'') task_id"
    and st: "start_in now session task_id l t d (iw_state w) = (r, s)"
    and w': "iw_state w' = s" "iw_given w' = iw_given w" "iw_started w' = iw_started w @ [(session, l)]"
      "iw_dispatched w' = iw_dispatched w @ (if ir_lifecycle r = Life_Running then [(session, l)] else [])"
      "iw_stopped w' = iw_stopped w" "iw_pruned w' = iw_pruned w @ dropped_runs (iw_state w) s"
  shows "stops_ok w'"
proof -
  let ?key = "reserved_key session l"
  have run': "runs_ok (iw_given w) (iw_started w @ [(session, l)]) (iw_ids w @ [task_id]) s"
    by (rule start_runs [OF run inj h id st])
  have own: "ir_lifecycle r = ir_lifecycle x" if "aget (ib_records (iw_state w)) ?key = Some x" for x
    using st that by (auto simp: start_in_def Let_def)
  have other: "h' \<in> set (iw_pruned w') \<or> (\<exists>x'. aget (ib_records s) (reserved_for h') = Some x' \<and> run_id x' = h' \<and> ir_lifecycle x' \<noteq> Life_Running)"
    if h': "h' \<notin> set (iw_started w)" "h' \<noteq> (session, l)" "h' \<in> set (iw_given w)"
      "aget (ib_records (iw_state w)) (reserved_for h') = Some x" "run_id x = h'" "ir_lifecycle x \<noteq> Life_Running" for h' x
  proof (cases "aget (ib_records s) (reserved_for h')")
    case None
    from lost_is_dropped [OF run run' _ h'(4,5) None] h'(1,2) show ?thesis by (simp add: w'(6))
  next
    case (Some x')
    have "reserved_for h' \<noteq> ?key" using inj_onD [OF inj, of h' "(session, l)"] h'(2,3) h(1) by (auto simp: reserved_for_def)
    moreover have "reserved_for h' \<noteq> task_id" using id(2) by (auto simp: reserved_for_def)
    moreover have "places_ok ((put_record task_id (new_record now task_id l t d session False) (iw_state w))
        \<lparr>ib_order := ib_order (iw_state w) @ [task_id]\<rparr>)"
      using runs_okD(1) [OF run] fresh_id [OF run id] by (auto simp: places_ok_def)
    ultimately have "x' = x"
      using st Some h'(4) by (auto simp: start_in_def Let_def amap.get_del dest!: prune_state(2) [rotated] split: option.splits)
    with Some h'(5,6) show ?thesis by simp
  qed
  have "stop_ok w' h'" if h': "stop_ok w h'" for h'
  proof (cases "h' \<in> set (iw_pruned w) \<or> h' \<in> set (iw_started w)")
    case True
    with h' h(2) show ?thesis by (auto simp: stop_ok_def w')
  next
    case False
    with h' obtain x where x: "aget (ib_records (iw_state w)) (reserved_for h') = Some x" "run_id x = h'" "ir_lifecycle x \<noteq> Life_Running"
      by (auto simp: stop_ok_def)
    show ?thesis
    proof (cases "h' = (session, l)")
      case True
      with own x have "ir_lifecycle r \<noteq> Life_Running" by (simp add: reserved_for_def)
      with True h ok show ?thesis by (auto simp: stop_ok_def stops_ok_def w')
    next
      case other_run: False
      with False h' x other [of h' x] show ?thesis by (auto simp: stop_ok_def w')
    qed
  qed
  with ok show ?thesis by (auto simp: stops_ok_def w')
qed

lemma reserve_stops:
  assumes ok: "stops_ok w" and inv: "inbox_inv w" and sound: "\<not> label_wraps session t (iw_state w)"
      "inj_on reserved_for (set (iw_given w @ [(session, l)]))"
    and res: "reserve_label now call t d session (iw_state w) = (Some l, s)"
    and w': "iw_state w' = s" "iw_given w' = iw_given w @ [(session, l)]" "iw_started w' = iw_started w"
      "iw_dispatched w' = iw_dispatched w" "iw_stopped w' = iw_stopped w" "iw_pruned w' = iw_pruned w"
  shows "stops_ok w'"
proof -
  obtain s1 where s1: "inbox_next_label session t (iw_state w) = (l, s1)"
    using res by (auto simp: reserve_label_def Let_def split: if_splits prod.splits)
  have "(session, l) \<notin> set (iw_given w)" using next_label_fresh(2) [OF _ s1 sound(1)] inv by (simp add: inbox_inv_def)
  with reserved_key_free [OF _ sound(2)] inv have "aget (ib_records (iw_state w)) (reserved_key session l) = None"
    by (auto simp: inbox_inv_def)
  with reserve_stores [OF res] w' show ?thesis by (intro stops_kept [OF ok]) (auto simp: amap.get_put same_run_refl)
qed

lemma fail_reserved_stops:
  assumes ok: "stops_ok w" and run: "runs_ok (iw_given w) (iw_started w) (iw_ids w) (iw_state w)"
    and fr: "fail_reserved now session l reason (iw_state w) = Some (r, s)"
    and w': "iw_state w' = s" "iw_given w' = iw_given w" "iw_started w' = iw_started w"
      "iw_dispatched w' = iw_dispatched w" "iw_stopped w' = iw_stopped w" "iw_pruned w' = iw_pruned w @ dropped_runs (iw_state w) s"
  shows "stops_ok w'"
proof -
  let ?s1 = "\<lambda>x. put_record (reserved_key session l) (settle_record now Life_Failed reason x) (iw_state w)"
  obtain x where x: "rewritten (iw_state w) (?s1 x)" "s = inbox_prune (?s1 x)" using fail_reserved_steps [OF fr] by blast
  note run1 = rewritten_runs [OF x(1) run]
  show ?thesis
  proof (rule stops_kept [OF ok])
    fix h r
    assume h: "h \<notin> set (iw_started w)" "aget (ib_records (iw_state w)) (reserved_for h) = Some r" "run_id r = h"
    then show "h \<in> set (iw_pruned w') \<or> (\<exists>r'. aget (ib_records (iw_state w')) (reserved_for h) = Some r' \<and> same_run r r')"
      using lost_is_dropped [OF run prune_runs [OF run1] h] prune_state(2) [OF runs_okD(1) [OF run1], of "reserved_for h"]
        rewritten_rel [OF x(1), of "reserved_for h"] x(2) w'
      by (cases "aget (ib_records s) (reserved_for h)") fastforce+
  qed (simp_all add: w')
qed

lemma cancel_stops:
  assumes ok: "stops_ok w" and run: "runs_ok (iw_given w) (iw_started w) (iw_ids w) (iw_state w)"
    and req: "request_cancel now session h (iw_state w) = Some (Cancel_Before_Start r, s)"
    and w': "iw_state w' = s" "iw_given w' = iw_given w" "iw_started w' = iw_started w"
      "iw_dispatched w' = iw_dispatched w" "iw_stopped w' = iw_stopped w @ [run_id r]" "iw_pruned w' = iw_pruned w"
  shows "stops_ok w'"
proof -
  from req obtain key x where x: "aget (ib_records (iw_state w)) key = Some x" "ir_starting x" "run_id r = run_id x"
    "ir_lifecycle r = Life_Cancelled" "s = put_record key r (iw_state w)"
    by (auto simp: request_cancel_def Let_def split: option.splits if_splits)
  have rec: "record_ok (iw_given w) (iw_started w) (iw_ids w) key x" by (rule runs_okD(4) [OF run x(1)])
  have "stops_ok (w\<lparr>iw_state := s\<rparr>)" using cancel_rewrites [OF req] by (intro stops_rewritten [OF ok]) simp_all
  moreover have "stop_ok w' (run_id r)" using rec x(2-5) w' by (simp add: record_ok_def stop_ok_def)
  moreover have "stop_ok w' h = stop_ok (w\<lparr>iw_state := s\<rparr>) h" for h by (simp add: stop_ok_def w')
  ultimately show ?thesis using w' by (auto simp: stops_ok_def)
qed

lemma stops_step:
  assumes "inbox_step w w'" and ok: "stops_ok w" and "sound_keys w'" and inv: "inbox_inv w"
  shows "stops_ok w'"
proof -
  have run: "runs_ok (iw_given w) (iw_started w) (iw_ids w) (iw_state w)" using inv by (simp add: inbox_inv_def)
  have inj: "inj_on reserved_for (set (iw_given w))" using sound_before [OF assms(1,3)] by (simp add: sound_keys_def)
  note kept = stops_kept [OF ok]
  from assms(1) show ?thesis
  proof (cases rule: inbox_step.cases)
    case (reserves now call t d session l s)
    with assms(3) show ?thesis by (intro reserve_stops [OF ok inv _ _ reserves(2)]) (auto simp: sound_keys_def)
  next
    case (starts session l task_id now t d r s)
    show ?thesis by (rule start_stops [OF ok run inj starts(2-6)]) (simp_all add: starts(1))
  next
    case fails_reserved
    then show ?thesis by (intro fail_reserved_stops [OF ok run]) auto
  next
    case cancels_before_start
    then show ?thesis by (intro cancel_stops [OF ok run]) auto
  next
    case labels
    then show ?thesis by (intro kept) (auto simp: same_run_refl dest: next_label_fields)
  next
    case seeds
    then show ?thesis by (intro kept) (auto simp: same_run_refl)
  next
    case observes
    then show ?thesis by (intro kept) (auto simp: observe_def same_run_refl)
  next
    case binds
    then show ?thesis by (intro kept) (auto simp: bind_label_in_def Let_def same_run_refl split: prod.split)
  qed (auto intro!: stops_rewritten [OF ok] intro: progress_rewrites
      dest: take_rewrites abandoned_rewrites cancel_rewrites finish_rewrites fail_rewrites collect_rewrites reconciled_rewrites)
qed

section \<open>What settles a run wakes the waits\<close>

definition none_settled :: "inbox_state \<Rightarrow> inbox_state \<Rightarrow> bool" where
  "none_settled s s' \<longleftrightarrow> (\<forall>k x y. aget (ib_records s) k = Some x \<longrightarrow> ir_lifecycle x = Life_Running \<longrightarrow>
     aget (ib_records s') k = Some y \<longrightarrow> ir_lifecycle y = Life_Running)"

lemma none_settled_same: "ib_records s' = ib_records s \<Longrightarrow> none_settled s s'"
  by (simp add: none_settled_def)

lemma none_settled_put:
  "ib_records s' = aput k r (ib_records s) \<Longrightarrow> (\<And>x. aget (ib_records s) k = Some x \<Longrightarrow> ir_lifecycle x = Life_Running \<Longrightarrow> ir_lifecycle r = Life_Running)
   \<Longrightarrow> none_settled s s'"
  by (simp add: none_settled_def amap.get_put)

lemma take_none_settled: "take_reserved call d session s = Some (l, s') \<Longrightarrow> none_settled s s'"
  by (auto simp: take_reserved_def Let_def none_settled_def amap.get_put put_record_def split: option.splits if_splits)

lemma flag_none_settled: "request_cancel now session h s = Some (Cancel_Running r, s') \<Longrightarrow> none_settled s s'"
  by (auto simp: request_cancel_def Let_def none_settled_def split: option.splits if_splits)

lemma collect_none_settled: "collect_key key s = Some (out, s') \<Longrightarrow> none_settled s s'"
  by (auto simp: collect_key_def Let_def none_settled_def split: option.splits if_splits)

lemma progress_none_settled: "none_settled s (task_progress i event s)"
  by (auto simp: task_progress_def none_settled_def split: option.splits if_splits)

lemma start_none_settled:
  assumes ok: "places_ok s" and id: "aget (ib_records s) i = None" and st: "start_in now session i l t d s = (r, s')"
  shows "none_settled s s'"
proof (cases "aget (ib_records s) (reserved_key session l)")
  case (Some x)
  with st id show ?thesis by (auto simp: start_in_def Let_def none_settled_def amap.get_del split: if_splits)
next
  case None
  let ?s = "(put_record i (new_record now i l t d session False) s)\<lparr>ib_order := ib_order s @ [i]\<rparr>"
  from st None have s': "s' = inbox_prune ?s" by (auto simp: start_in_def Let_def)
  have "places_ok ?s" using ok id by (auto simp: places_ok_def)
  note pruned = prune_state(2) [OF this]
  show ?thesis unfolding none_settled_def s' using id by (auto dest!: pruned split: if_splits)
qed

section \<open>Runs keep it all\<close>

lemma run_bodies: "inbox_run w \<Longrightarrow> sound_keys w \<Longrightarrow> bodies_ok w"
proof (induction rule: inbox_run_induct)
  case start
  show ?case by (simp add: bodies_ok_def inbox_start_def inbox_empty_def)
next
  case (step w w')
  have "sound_keys w" by (rule sound_before [OF step.hyps(2) step.prems])
  with inbox_run_inv [OF step.hyps(1)] step.IH bodies_step [OF step.hyps(2)] show ?case by (simp add: inbox_inv_def)
qed

lemma run_stops: "inbox_run w \<Longrightarrow> sound_keys w \<Longrightarrow> stops_ok w"
proof (induction rule: inbox_run_induct)
  case start
  show ?case by (simp add: stops_ok_def inbox_start_def)
next
  case (step w w')
  have "sound_keys w" by (rule sound_before [OF step.hyps(2) step.prems])
  with inbox_run_inv [OF step.hyps(1)] step.IH stops_step [OF step.hyps(2) _ step.prems] show ?case by blast
qed

lemma sound_keysI:
  "\<not> iw_wrapped w \<Longrightarrow> inj_on (\<lambda>h. reserved_key (fst h) (snd h)) (set (iw_given w)) \<Longrightarrow> sound_keys w"
proof -
  have "reserved_for = (\<lambda>h. reserved_key (fst h) (snd h))" by (simp add: fun_eq_iff reserved_for_def)
  then show "\<not> iw_wrapped w \<Longrightarrow> inj_on (\<lambda>h. reserved_key (fst h) (snd h)) (set (iw_given w)) \<Longrightarrow> sound_keys w"
    by (simp add: sound_keys_def)
qed

end
