(* ===== verification/Subagent_Inbox_Results.thy ===== *)
theory Subagent_Inbox_Results
  imports Subagent_Inbox_Life
begin

text \<open>
  What the inbox promises: a handle names one run, a body is handed out once per result, a run
  cancelled before its start is not dispatched, and what settles a run wakes the waits; sample
  runs, and the places where the inbox does not do what it says.
\<close>

section \<open>Promises\<close>

text \<open>
  C26: Until a label counter overflows, no handle is given out twice in a session, and at any
  time at most one record answers to a handle of a session (as long as the keys under which runs
  wait for their start differ).
\<close>

theorem handles_name_one_run:
  assumes "inbox_run w" and "\<not> iw_wrapped w"
    and "inj_on (\<lambda>h. reserved_key (fst h) (snd h)) (set (iw_given w))"
  shows "distinct (iw_given w) \<and>
     (\<forall>k r k' r'. aget (ib_records (iw_state w)) k = Some r \<and> aget (ib_records (iw_state w)) k' = Some r' \<and>
        ir_session r = ir_session r' \<and> ir_label r = ir_label r' \<longrightarrow> k = k')"
proof -
  from inbox_run_inv [OF assms(1) sound_keysI [OF assms(2,3)]] have "labels_ok (iw_given w) (iw_state w)"
    and run: "runs_ok (iw_given w) (iw_started w) (iw_ids w) (iw_state w)" by (simp_all add: inbox_inv_def)
  moreover have "k = k'" if "aget (ib_records (iw_state w)) k = Some r" "aget (ib_records (iw_state w)) k' = Some r'"
      "ir_session r = ir_session r'" "ir_label r = ir_label r'" for k r k' r'
    using runs_okD(5) [OF run that(1,2)] that(3,4) by (simp add: run_id_def)
  ultimately show ?thesis unfolding labels_ok_def by blast
qed

text \<open>
  Once a session's file has been read, a new handle of the session is none of the handles found in
  the file and none below them, so it cannot answer for a run of an earlier process.
\<close>

theorem labels_continue_after_file:
  assumes "inbox_run w" and "\<not> iw_wrapped w"
    and "inj_on (\<lambda>h. reserved_key (fst h) (snd h)) (set (iw_given w))"
    and "aget (ib_seeded (iw_state w)) x = Some seen" and "(t, n) \<in> set seen" and "m \<le> n"
    and "\<not> label_wraps (Some x) u (iw_state w)"
    and "inbox_next_label (Some x) u (iw_state w) = (l, s')"
  shows "l \<noteq> handle_of t m"
proof -
  from inbox_run_inv [OF assms(1) sound_keysI [OF assms(2,3)]] have lab: "labels_ok (iw_given w) (iw_state w)" by (simp add: inbox_inv_def)
  with assms(4,5) have "n \<le> last_label (Some x) t (iw_state w)" unfolding labels_ok_def by blast
  with assms(6) have "\<not> (t = u \<and> m = last_label (Some x) u (iw_state w) + 1)" by auto
  with handle_inj [of t m u "last_label (Some x) u (iw_state w) + 1"] next_label_fresh(3) [OF lab assms(8,7)]
  show ?thesis by metis
qed

text \<open>
  C27: A body is handed out at most once for each result that stored one, whoever asks for it and by
  whatever handle, until a label counter overflows (and as long as the keys under which runs wait
  for their start differ).
\<close>

theorem body_handed_out_once:
  assumes "inbox_run w" and "\<not> iw_wrapped w"
    and "inj_on (\<lambda>h. reserved_key (fst h) (snd h)) (set (iw_given w))"
  shows "count_list (iw_collected w) k \<le> count_list (iw_done w) k"
  using run_bodies [OF assms(1) sound_keysI [OF assms(2,3)]] unfolding bodies_ok_def by (meson add_leD1)

text \<open>
  A run reported as cancelled before it started is not dispatched by its call, unless a prune
  dropped its record before the call started it.
\<close>

theorem cancelled_run_not_dispatched:
  assumes "inbox_run w" and "\<not> iw_wrapped w"
    and "inj_on (\<lambda>h. reserved_key (fst h) (snd h)) (set (iw_given w))"
    and "h \<in> set (iw_stopped w)" and "h \<notin> set (iw_pruned w)"
  shows "h \<notin> set (iw_dispatched w)"
  using run_stops [OF assms(1) sound_keysI [OF assms(2,3)]] assms(4,5) by (auto simp: stops_ok_def stop_ok_def split: if_splits)

text \<open>
  Whatever settles a run that was at work wakes the waits, with one exception: the run was given up
  by \<open>reconcile\<close>.
\<close>

theorem settling_wakes:
  assumes "inbox_run w" and "\<not> iw_wrapped w"
    and "inj_on (\<lambda>h. reserved_key (fst h) (snd h)) (set (iw_given w))"
    and "inbox_step w w'" and "aget (ib_records (iw_state w)) k = Some x" and "ir_lifecycle x = Life_Running"
    and "aget (ib_records (iw_state w')) k = Some y" and "ir_lifecycle y \<noteq> Life_Running"
  shows "iw_wakes w' = iw_wakes w + 1 \<or>
     (\<exists>is_live max_age now. iw_state w' = snd (reconcile is_live max_age now (iw_state w)))"
proof -
  from inbox_run_inv [OF assms(1) sound_keysI [OF assms(2,3)]] have run: "runs_ok (iw_given w) (iw_started w) (iw_ids w) (iw_state w)"
    by (simp add: inbox_inv_def)
  have "\<not> none_settled (iw_state w) (iw_state w')" using assms(5-8) by (auto simp: none_settled_def)
  with assms(4) show ?thesis
  proof (cases rule: inbox_step.cases)
    case (reserves now call t d session l s)
    from reserves(1) have "none_settled (iw_state w) (iw_state w')"
      using none_settled_put [OF reserve_stores [OF reserves(2)]] by (simp add: new_record_def)
    with \<open>\<not> none_settled _ _\<close> show ?thesis by simp
  next
    case (starts session l i now t d r s)
    with start_none_settled [OF runs_okD(1) [OF run] fresh_id [OF run starts(4,5)] starts(6)] \<open>\<not> none_settled _ _\<close>
    show ?thesis by simp
  next
    case (reconciles is_live max_age now rs s)
    then have "iw_state w' = snd (reconcile is_live max_age now (iw_state w))" by simp
    then show ?thesis by blast
  qed (auto dest: take_none_settled flag_none_settled collect_none_settled next_label_fields
      simp: progress_none_settled none_settled_same observe_def bind_label_in_def Let_def split: prod.splits)
qed

section \<open>A run from its placeholder to its body\<close>

lemma then_step: "inbox_run w \<Longrightarrow> inbox_step w w'' \<Longrightarrow> w'' = w' \<Longrightarrow> inbox_run w'"
  using inbox_run_step by blast

abbreviation explore :: ustr where "explore \<equiv> U ''explore''"
abbreviation first_key :: ustr where "first_key \<equiv> reserved_key None (handle_of explore 1)"

definition explore_1 :: inbox_record where
  "explore_1 = new_record 0 first_key (handle_of explore 1) explore (U ''audit'') None True"

definition reserved_world :: inbox_world where
  "reserved_world = inbox_start\<lparr>iw_state := inbox_empty\<lparr>ib_records := [(first_key, explore_1)],
     ib_order := [first_key], ib_counters := [((None, explore), 1)],
     ib_reserved := [((None, U ''c''), \<lparr>rv_description = U ''audit'', rv_session = None, rv_label = handle_of explore 1\<rparr>)]\<rparr>,
     iw_given := [(None, handle_of explore 1)]\<rparr>"

lemma reserved_run: "inbox_run reserved_world"
proof (rule then_step [OF inbox_run_start])
  show "inbox_step inbox_start (inbox_start\<lparr>iw_state := iw_state reserved_world, iw_given := iw_given inbox_start @ [(None, handle_of explore 1)],
      iw_wrapped := (iw_wrapped inbox_start \<or> label_wraps None explore (iw_state inbox_start))\<rparr>)"
    by (rule reserves [of 0 "U ''c''" explore "U ''audit''"])
      (simp add: reserve_label_def inbox_next_label_def inbox_empty_def reserved_world_def explore_1_def put_record_def inbox_start_def Let_def)
qed (simp add: inbox_start_def reserved_world_def label_wraps_def last_label_def inbox_empty_def)

abbreviation task_t :: ustr where "task_t \<equiv> U ''t''"

definition good_result :: subagent_result where
  "good_result = (default_result task_t)\<lparr>sr_ok := True, sr_status := Some Result_Complete\<rparr>"

definition started_1 :: inbox_record where
  "started_1 = explore_1\<lparr>ir_task_id := task_t, ir_starting := False\<rparr>"

definition done_1 :: inbox_record where "done_1 = finish_record 9 (Some good_result) started_1"

definition with_record :: "ustr \<Rightarrow> inbox_record \<Rightarrow> inbox_state" where
  "with_record k r = (iw_state reserved_world)\<lparr>ib_records := [(k, r)], ib_order := [k]\<rparr>"

definition started_world :: inbox_world where
  "started_world = reserved_world\<lparr>iw_state := with_record task_t started_1, iw_started := [(None, handle_of explore 1)],
     iw_dispatched := [(None, handle_of explore 1)], iw_ids := [task_t]\<rparr>"

definition done_world :: inbox_world where
  "done_world = started_world\<lparr>iw_state := with_record task_t done_1, iw_done := [task_t], iw_wakes := 1\<rparr>"

definition collected_world :: inbox_world where
  "collected_world = done_world\<lparr>iw_state := with_record task_t (done_1\<lparr>ir_body := None, ir_lifecycle := Life_Collected\<rparr>),
     iw_collected := [task_t]\<rparr>"

lemmas sample_worlds = collected_world_def done_world_def started_world_def reserved_world_def inbox_start_def
  with_record_def inbox_empty_def

lemma task_t_key [simp]: "\<not> prefix (U ''starting:'') task_t" "first_key \<noteq> task_t" "task_t \<noteq> first_key"
proof -
  show no: "\<not> prefix (U ''starting:'') task_t" by (simp add: ustr_eval)
  with reserved_prefix [of None "handle_of explore 1"] show "first_key \<noteq> task_t" "task_t \<noteq> first_key" by metis+
qed

lemma started_1_fields [simp]:
  "ir_lifecycle started_1 = Life_Running" "ir_session started_1 = None" "ir_label started_1 = handle_of explore 1"
  "ir_lifecycle explore_1 = Life_Running" "ir_starting explore_1" "ir_description explore_1 = Some (U ''audit'')"
  "\<not> ir_starting started_1" "ir_started_at started_1 = 0"
  by (simp_all add: started_1_def explore_1_def new_record_def trim_def trim_start_def trim_end_def is_ws_def ustr_eval)

lemma done_1_fields [simp]:
  "ir_lifecycle done_1 = Life_Done" "ir_body done_1 = Some (U ''(subagent returned no output)'')"
  by (simp_all add: done_1_def finish_record_def good_result_def default_result_def result_summary_def Let_def)

lemma started_run: "inbox_run started_world"
proof (rule then_step [OF reserved_run])
  have "start_in 1 None task_t (handle_of explore 1) explore (U ''audit'') (iw_state reserved_world) = (started_1, with_record task_t started_1)"
    by (simp add: start_in_def sample_worlds put_record_def started_1_def adel_def Let_def)
  from starts [OF _ _ _ _ this] show "inbox_step reserved_world (reserved_world\<lparr>iw_state := with_record task_t started_1,
      iw_started := iw_started reserved_world @ [(None, handle_of explore 1)], iw_ids := iw_ids reserved_world @ [task_t],
      iw_dispatched := iw_dispatched reserved_world @ [(None, handle_of explore 1)],
      iw_pruned := iw_pruned reserved_world @ dropped_runs (iw_state reserved_world) (with_record task_t started_1)\<rparr>)"
    by (simp add: sample_worlds)
  have "run_id explore_1 = run_id started_1" by (simp add: run_id_def started_1_def)
  then show "reserved_world\<lparr>iw_state := with_record task_t started_1,
      iw_started := iw_started reserved_world @ [(None, handle_of explore 1)], iw_ids := iw_ids reserved_world @ [task_t],
      iw_dispatched := iw_dispatched reserved_world @ [(None, handle_of explore 1)],
      iw_pruned := iw_pruned reserved_world @ dropped_runs (iw_state reserved_world) (with_record task_t started_1)\<rparr> = started_world"
    by (simp add: sample_worlds dropped_runs_def inbox_list_def map_filter_def)
qed

lemma done_step: "inbox_step started_world done_world"
proof -
  have "inbox_finish 9 task_t (Some good_result) (iw_state started_world) = Some (done_1, with_record task_t done_1)"
    by (simp add: inbox_finish_def sample_worlds put_record_def done_1_def Let_def)
  from finishes [OF _ this] have "inbox_step started_world (started_world\<lparr>iw_state := with_record task_t done_1,
      iw_done := iw_done started_world @ [task_t], iw_wakes := iw_wakes started_world + 1\<rparr>)"
    by (simp add: sample_worlds)
  then show ?thesis by (simp add: sample_worlds)
qed

lemma done_run: "inbox_run done_world"
  by (rule inbox_run_step [OF started_run done_step])

lemma collected_run: "inbox_run collected_world"
proof (rule then_step [OF done_run])
  have "collect_key task_t (iw_state done_world) = Some ((done_1\<lparr>ir_lifecycle := Life_Collected\<rparr>, U ''(subagent returned no output)''),
      with_record task_t (done_1\<lparr>ir_body := None, ir_lifecycle := Life_Collected\<rparr>))"
    by (simp add: collect_key_def sample_worlds put_record_def Let_def)
  from collects [OF this] show "inbox_step done_world (done_world\<lparr>iw_state := with_record task_t (done_1\<lparr>ir_body := None, ir_lifecycle := Life_Collected\<rparr>),
      iw_collected := iw_collected done_world @ [task_t]\<rparr>)" .
qed (simp add: sample_worlds)

theorem handles_name_one_run_witness:
  "distinct (iw_given collected_world) \<and> iw_given collected_world = [(None, handle_of explore 1)]"
  using handles_name_one_run [OF collected_run] by (simp add: sample_worlds)

theorem body_handed_out_once_witness:
  "count_list (iw_collected collected_world) task_t = 1 \<and> 1 \<le> count_list (iw_done collected_world) task_t"
  using body_handed_out_once [OF collected_run, of task_t] by (simp add: sample_worlds)

theorem settling_wakes_witness:
  "iw_wakes done_world = iw_wakes started_world + 1 \<or>
     (\<exists>is_live max_age now. iw_state done_world = snd (reconcile is_live max_age now (iw_state started_world)))"
  by (rule settling_wakes [OF started_run _ _ done_step, of task_t started_1 done_1]) (simp_all add: sample_worlds)

text \<open>The same run cancelled between its placeholder and its execute.\<close>

definition cancelled_1 :: inbox_record where
  "cancelled_1 = settle_record 5 Life_Cancelled (U ''cancelled before it started'') (explore_1\<lparr>ir_cancel_requested := True\<rparr>)"

definition stopped_world :: inbox_world where
  "stopped_world = reserved_world\<lparr>iw_state := (iw_state reserved_world)\<lparr>ib_records := [(first_key, cancelled_1)]\<rparr>,
     iw_stopped := [(None, handle_of explore 1)], iw_wakes := 1\<rparr>"

definition refused_world :: inbox_world where
  "refused_world = stopped_world\<lparr>iw_state := with_record task_t (cancelled_1\<lparr>ir_task_id := task_t, ir_starting := False\<rparr>),
     iw_started := [(None, handle_of explore 1)], iw_ids := [task_t]\<rparr>"

lemma cancelled_1_fields [simp]:
  "ir_lifecycle cancelled_1 = Life_Cancelled" "ir_description cancelled_1 = Some (U ''audit'')"
  "run_id cancelled_1 = (None, handle_of explore 1)"
  using started_1_fields(6) by (simp_all add: cancelled_1_def settle_record_def run_id_def explore_1_def new_record_def)

lemma stopped_run: "inbox_run stopped_world"
proof (rule then_step [OF reserved_run])
  have "request_cancel 5 None first_key (iw_state reserved_world) =
      Some (Cancel_Before_Start cancelled_1, (iw_state reserved_world)\<lparr>ib_records := [(first_key, cancelled_1)]\<rparr>)"
    by (simp add: request_cancel_def key_in_def sample_worlds put_record_def cancelled_1_def Let_def)
  from cancels_before_start [OF this] show "inbox_step reserved_world (reserved_world\<lparr>
      iw_state := (iw_state reserved_world)\<lparr>ib_records := [(first_key, cancelled_1)]\<rparr>,
      iw_stopped := iw_stopped reserved_world @ [run_id cancelled_1], iw_wakes := iw_wakes reserved_world + 1\<rparr>)" .
qed (simp add: stopped_world_def sample_worlds)

lemma refused_run: "inbox_run refused_world"
proof (rule then_step [OF stopped_run])
  let ?r = "cancelled_1\<lparr>ir_task_id := task_t, ir_starting := False\<rparr>"
  have "start_in 6 None task_t (handle_of explore 1) explore (U ''audit'') (iw_state stopped_world) = (?r, with_record task_t ?r)"
    by (simp add: start_in_def stopped_world_def sample_worlds put_record_def adel_def Let_def)
  from starts [OF _ _ _ _ this] show "inbox_step stopped_world (stopped_world\<lparr>iw_state := with_record task_t ?r,
      iw_started := iw_started stopped_world @ [(None, handle_of explore 1)], iw_ids := iw_ids stopped_world @ [task_t],
      iw_dispatched := iw_dispatched stopped_world @ [],
      iw_pruned := iw_pruned stopped_world @ dropped_runs (iw_state stopped_world) (with_record task_t ?r)\<rparr>)"
    by (simp add: stopped_world_def sample_worlds)
  have "run_id ?r = run_id cancelled_1" by (simp add: run_id_def)
  then show "stopped_world\<lparr>iw_state := with_record task_t ?r,
      iw_started := iw_started stopped_world @ [(None, handle_of explore 1)], iw_ids := iw_ids stopped_world @ [task_t],
      iw_dispatched := iw_dispatched stopped_world @ [],
      iw_pruned := iw_pruned stopped_world @ dropped_runs (iw_state stopped_world) (with_record task_t ?r)\<rparr> = refused_world"
    by (simp add: refused_world_def stopped_world_def sample_worlds dropped_runs_def inbox_list_def map_filter_def)
qed

theorem cancelled_run_not_dispatched_witness:
  "(None, handle_of explore 1) \<in> set (iw_started refused_world) \<and> (None, handle_of explore 1) \<notin> set (iw_dispatched refused_world)"
  using cancelled_run_not_dispatched [OF refused_run, of "(None, handle_of explore 1)"]
  by (simp add: refused_world_def stopped_world_def sample_worlds)

text \<open>A session whose file holds \<open>explore#3\<close>.\<close>

abbreviation session_s :: ustr where "session_s \<equiv> U ''s''"

definition seeded_world :: inbox_world where
  "seeded_world = inbox_start\<lparr>iw_state := seed_with session_s
     (handles_in (\<lambda>l. [(explore, U ''3'')]) (File_Lines [U ''explore#3''])) inbox_empty\<rparr>"

lemma seeded_run: "inbox_run seeded_world"
  using inbox_run_step [OF inbox_run_start seeds [of inbox_start session_s "\<lambda>l. [(explore, U ''3'')]" "File_Lines [U ''explore#3'']"]]
  by (simp add: seeded_world_def inbox_start_def)

lemma seeded_state:
  "iw_state seeded_world = inbox_empty\<lparr>ib_counters := [((Some session_s, explore), 3)], ib_seeded := [(session_s, [(explore, 3)])]\<rparr>"
proof -
  have "parse_u64 (U ''3'') = Some 3" by (simp add: parse_u64_def digits_value_def is_digit_def ustr_eval)
  moreover have "35 \<in> set (U ''explore#3'')" by (simp add: ustr_eval)
  ultimately show ?thesis
    by (simp add: seeded_world_def seed_with_def handles_in_def note_handle_def inbox_empty_def)
qed

theorem labels_continue_after_file_witness:
  "fst (inbox_next_label (Some session_s) explore (iw_state seeded_world)) \<noteq> handle_of explore 3"
proof -
  have "\<not> label_wraps (Some session_s) explore (iw_state seeded_world)"
    by (simp add: label_wraps_def last_label_def seeded_state)
  with labels_continue_after_file [OF seeded_run, of session_s "[(explore, 3)]" explore 3 3 explore] show ?thesis
    by (cases "inbox_next_label (Some session_s) explore (iw_state seeded_world)")
      (simp add: seeded_state, simp add: seeded_world_def inbox_start_def)
qed

section \<open>Where the inbox does not do what it says\<close>

text \<open>
  A run given up by \<open>reconcile\<close> is settled without waking the waits: a wait for it goes on until its
  timeout.
\<close>

lemma reconcile_wakes_nobody:
  "\<exists>w. inbox_step started_world w \<and> iw_wakes w = iw_wakes started_world \<and>
     outstanding_count None (iw_state started_world) = 1 \<and> outstanding_count None (iw_state w) = 0"
proof -
  have "\<exists>rs r. reconcile (\<lambda>i. False) 5 9 (iw_state started_world) = (rs, with_record task_t r) \<and> ir_lifecycle r = Life_Failed"
    by (simp add: reconcile_def sample_worlds put_record_def Let_def)
  then obtain rs r where rec: "reconcile (\<lambda>i. False) 5 9 (iw_state started_world) = (rs, with_record task_t r)"
    and r: "ir_lifecycle r = Life_Failed" by blast
  from reconciles [OF rec] r show ?thesis
    by (intro exI [of _ "started_world\<lparr>iw_state := with_record task_t r\<rparr>"])
      (simp add: outstanding_count_def sample_worlds is_outstanding_def)
qed

text \<open>
  A number in the file that is the greatest a counter can hold makes the next label start over
  (in the shipped build), below the handles of the file.
\<close>

lemma label_counter_wraps:
  "fst (inbox_next_label (Some x) t (seed_with x (Some [(t, 18446744073709551615)]) inbox_empty)) = handle_of t 0"
  by (simp add: inbox_next_label_def seed_with_def inbox_empty_def Let_def)

text \<open>
  The records of runs that were reserved at their placeholder are never pruned on their normal
  way: after any number of runs that were reserved, taken, started and settled all of them are
  still held, although at most fifty settled records are meant to be kept.
\<close>

definition nth_run :: "nat \<Rightarrow> inbox_run_id" where "nth_run i = (None, handle_of explore (Suc i))"
definition nth_task :: "nat \<Rightarrow> ustr" where "nth_task i = U ''t'' @ nat_digits i"

lemma nth_run_inj: "nth_run i = nth_run j \<longleftrightarrow> i = j"
  using handle_inj [of explore "Suc i" explore "Suc j"] by (auto simp: nth_run_def)

lemma nth_task_inj: "nth_task i = nth_task j \<longleftrightarrow> i = j"
proof
  assume "nth_task i = nth_task j"
  then have same: "nat_digits i = nat_digits j" by (simp only: nth_task_def same_append_eq)
  from handle_inj [of explore i explore j] same show "i = j" by (simp add: handle_of_def)
qed simp

lemmas nth_inj = nth_run_inj nth_task_inj

lemma nth_task_key: "\<not> prefix (U ''starting:'') (nth_task i)" "reserved_key x l \<noteq> nth_task i"
proof -
  show no: "\<not> prefix (U ''starting:'') (nth_task i)" by (simp add: nth_task_def ustr_eval)
  from reserved_prefix [of x l] no show "reserved_key x l \<noteq> nth_task i" by (cases "reserved_key x l = nth_task i") simp_all
qed

text \<open>After \<open>n\<close> runs on the normal way.\<close>

definition all_held :: "nat \<Rightarrow> inbox_world \<Rightarrow> bool" where
  "all_held n w \<longleftrightarrow> inbox_run w \<and> set (iw_given w) = nth_run ` {..<n} \<and> set (iw_started w) = nth_run ` {..<n} \<and>
     set (iw_ids w) = nth_task ` {..<n} \<and> ib_reserved (iw_state w) = [] \<and> last_label None explore (iw_state w) = n \<and>
     ib_order (iw_state w) = map nth_task [0..<n] \<and>
     (\<forall>k. aget (ib_records (iw_state w)) k \<noteq> None \<longleftrightarrow> k \<in> nth_task ` {..<n}) \<and>
     (\<forall>i < n. settled_key (ib_records (iw_state w)) (nth_task i))"

lemma replace_last: "a \<notin> set xs \<Longrightarrow> replace_first a b (xs @ [a]) = xs @ [b]"
  by (induction xs) auto

lemma one_more_held:
  assumes "all_held n w" and "n + 1 < 2 ^ 64"
  shows "\<exists>w'. all_held (Suc n) w'"
proof -
  let ?s = "iw_state w" and ?l = "handle_of explore (Suc n)" and ?t = "nth_task n"
  let ?key = "reserved_key None ?l" and ?call = "(None, U ''c'')"
  let ?r = "new_record 0 ?key ?l explore (U ''audit'') None True"
  let ?rv = "\<lparr>rv_description = U ''audit'', rv_session = None, rv_label = ?l\<rparr>"
  let ?cs = "aput (None, explore) (Suc n) (ib_counters ?s)"
  note held = assms(1) [unfolded all_held_def]
  define s1 where "s1 = ?s\<lparr>ib_records := aput ?key ?r (ib_records ?s), ib_order := ib_order ?s @ [?key], ib_counters := ?cs,
      ib_reserved := [(?call, ?rv)]\<rparr>"
  define s2 where "s2 = s1\<lparr>ib_reserved := []\<rparr>"
  define w1 where "w1 = w\<lparr>iw_state := s1, iw_given := iw_given w @ [(None, ?l)],
      iw_wrapped := (iw_wrapped w \<or> label_wraps None explore ?s)\<rparr>"
  have res: "reserve_label 0 (U ''c'') explore (U ''audit'') None ?s = (Some ?l, s1)"
    using held assms(2) by (simp add: reserve_label_def inbox_next_label_def last_label_def s1_def put_record_def Let_def)
  then have "inbox_step w w1" unfolding w1_def by (rule reserves)
  moreover have "take_reserved (U ''c'') (U ''audit'') None s1 = Some (?l, s2)"
    by (simp add: take_reserved_def s1_def s2_def adel_def Let_def)
  with takes [of "U ''c''" "U ''audit''" None w1 ?l s2] have "inbox_step w1 (w1\<lparr>iw_state := s2\<rparr>)" by (simp add: w1_def)
  ultimately have run2: "inbox_run (w1\<lparr>iw_state := s2\<rparr>)"
    using inbox_run_step [OF inbox_run_step [of w w1]] held by simp
  obtain r s3 where st: "start_in 1 None ?t ?l explore (U ''audit'') s2 = (r, s3)" by (cases "start_in 1 None ?t ?l explore (U ''audit'') s2")
  have key: "aget (ib_records s2) ?key = Some ?r" by (simp add: s2_def s1_def amap.get_put)
  have keyfree: "?key \<notin> set (map nth_task [0..<n])" using nth_task_key(2) by auto
  from st key have r: "ir_lifecycle r = Life_Running"
    and s3: "\<And>k. aget (ib_records s3) k = (if k = ?t then Some r else if k = ?key then None else aget (ib_records s2) k)"
      "ib_order s3 = replace_first ?key ?t (ib_order s2)" "ib_reserved s3 = ib_reserved s2" "ib_counters s3 = ib_counters s2"
    by (auto simp: start_in_def Let_def amap.get_del new_record_def)
  have fresh: "(None, ?l) \<notin> set (iw_started w)" "?t \<notin> set (iw_ids w)"
    using held nth_inj by (auto simp: nth_run_def)
  define w3 where "w3 = w1\<lparr>iw_state := s3, iw_started := iw_started w @ [(None, ?l)], iw_ids := iw_ids w @ [?t],
      iw_dispatched := iw_dispatched w @ [(None, ?l)], iw_pruned := iw_pruned w @ dropped_runs s2 s3\<rparr>"
  have "inbox_step (w1\<lparr>iw_state := s2\<rparr>) w3"
    using starts [of None ?l "w1\<lparr>iw_state := s2\<rparr>" ?t 1 explore "U ''audit''" r s3] st r fresh nth_task_key(1) [of n]
    by (simp add: w1_def w3_def)
  from inbox_run_step [OF run2 this] have run3: "inbox_run w3" .
  let ?f = "settle_record 2 Life_Failed (U ''x'') r"
  define s4 where "s4 = put_record ?t ?f s3"
  define w4 where "w4 = w3\<lparr>iw_state := s4, iw_wakes := iw_wakes w3 + 1\<rparr>"
  have "inbox_fail 2 ?t (U ''x'') Life_Failed s3 = Some (?f, s4)" by (simp add: inbox_fail_def s3(1) s4_def Let_def)
  with fails [of ?t w3 2 "U ''x''" ?f s4] have "inbox_step w3 w4" by (simp add: w3_def w4_def)
  from inbox_run_step [OF run3 this] have run4: "inbox_run w4" .
  have "?key \<notin> nth_task ` {..<n}" using nth_task_key(2) by auto
  with held have none: "aget (ib_records ?s) ?key = None" by blast
  have recs: "aget (ib_records s4) k = (if k = ?t then Some ?f else aget (ib_records ?s) k)" for k
    using none by (simp add: s4_def s3(1) s2_def s1_def amap.get_put)
  have order: "ib_order s4 = map nth_task [0..<Suc n]"
    using held replace_last [OF keyfree] by (simp add: s4_def s3(2) s2_def s1_def)
  have settled: "settled_key (ib_records s4) (nth_task i)" if "i < Suc n" for i
    using held that by (cases "i = n") (simp_all add: settled_key_def is_outstanding_def nth_inj recs)
  have rest: "ib_reserved s4 = []" "last_label None explore s4 = Suc n"
    by (simp_all add: s4_def s3 s2_def s1_def last_label_def amap.get_put)
  have sets: "set (iw_given w4) = nth_run ` {..<Suc n}" "set (iw_started w4) = nth_run ` {..<Suc n}"
    "set (iw_ids w4) = nth_task ` {..<Suc n}"
    using held by (simp_all add: w4_def w3_def w1_def nth_run_def lessThan_Suc)
  have held_recs: "aget (ib_records s4) k \<noteq> None \<longleftrightarrow> k \<in> nth_task ` {..<Suc n}" for k
    using held by (simp add: recs lessThan_Suc)
  have "iw_state w4 = s4" by (simp add: w4_def)
  with run4 sets rest order settled held_recs have "all_held (Suc n) w4" by (simp only: all_held_def) blast
  then show ?thesis by blast
qed

lemma reserved_runs_never_pruned:
  assumes "n < 2 ^ 64"
  shows "\<exists>w. inbox_run w \<and> length (filter (settled_key (ib_records (iw_state w))) (ib_order (iw_state w))) = n"
proof -
  have "\<exists>w. all_held n w" using assms
  proof (induction n)
    case 0
    have "all_held 0 inbox_start"
      unfolding all_held_def using inbox_run_start
      by (intro conjI) (assumption, simp_all add: inbox_start_def inbox_empty_def last_label_def)
    then show ?case by blast
  next
    case (Suc n)
    then show ?case using one_more_held by fastforce
  qed
  then obtain w where w: "all_held n w" by blast
  then have "filter (settled_key (ib_records (iw_state w))) (ib_order (iw_state w)) = map nth_task [0..<n]"
    by (auto simp: all_held_def filter_id_conv)
  with w show ?thesis by (intro exI [of _ w]) (simp add: all_held_def)
qed

end
