(* ===== verification/Spec2Isabelle.thy ===== *)
theory Spec2Isabelle
  imports Shell_Properties Gate_Properties Schedule_Ticks Loop_Command Task_Properties
    Session_Properties Compaction_Properties Agent_Loop_Events Agent_Registry Edit_Outcomes Truncate
    Mutation_Queue Edit_Tool Provider_Messages Stdin_Buffer Subagent_Pool_Results Subagent_Depth Subagent_Inbox_Results
begin

text \<open>
  A model of the core of hoocode, a coding agent written in Rust (workspace \<^verbatim>\<open>crates/\<close>): the
  agent loop with its batches of tool calls, the permission gate that decides which calls run,
  the edit tool and the queue of file mutations below it, the truncation of tool output, the
  pool of subagents and the inbox of their results, the scheduler of recurring prompts, the task
  list, the session tree with its files, the compaction of its history, the repair of the
  messages sent to a provider, and the terminal's input buffer.

  How the parts interact: the input buffer turns the terminal's bytes into keys and pastes; a
  prompt starts a run of the agent loop, which asks the gate before each tool call, runs the
  calls of a response as a batch and adds their results to the conversation; an edit call
  takes its turn in the file's mutation queue, matches its texts in the file and writes it
  back; its diff is shown to the user; long output is truncated; a delegated task is listed in
  the subagent inbox, goes through the pool to a child process, and its result waits in the
  inbox until the model asks for it; a fired schedule becomes a prompt of the session and a
  row of the task list; every message of a turn becomes an entry of the session tree; the
  context sent to the model is built from the tree's current branch and repaired for the
  provider that reads it; when it grows too large, compaction summarises a prefix of that
  branch and appends an entry that the context builder honours from then on.

  \<^bold>\<open>Theories and code.\<close>

  \<^item> \<open>Prelude\<close>, \<open>Json\<close>, \<open>Messages\<close>, \<open>Utf16\<close>, \<open>Utf8\<close>: strings, saturating 64-bit arithmetic,
    association lists (locale \<open>keyed_map\<close>, interpreted as \<open>amap\<close>), runs of a step function (locale
    \<open>stepper\<close>, interpreted for the task list and for the repair of provider messages), JSON
    values, the message types of \<^verbatim>\<open>hoocode-ai-types\<close> and \<^verbatim>\<open>hoocode-agent-types\<close>, and the decoders
    of the standard library the edit tool and the input buffer rest on.
  \<^item> \<open>Mode_Config\<close>: \<^verbatim>\<open>hoocode-code-modes/src/config.rs\<close>, the merge of the user's and the project's
    configuration and the shipped mode rules.
  \<^item> \<open>Shell_Words\<close>, \<open>Safe_Shell\<close>, \<open>Shell_Properties\<close>: the shell scanners of
    \<^verbatim>\<open>hoocode-code-permissions/src/lib.rs\<close> and \<^verbatim>\<open>safe_shell.rs\<close>. The lemmas compare the split with
    the splitting of a shell on plain commands and with quoting, and say what a command accepted
    by an always-rule or by the read-only list can hold.
  \<^item> \<open>Write_Paths\<close>, \<open>Clearance_Card\<close>, \<open>Permission_Gate\<close>, \<open>Gate_Properties\<close>: the path rules, the
    clearance card, \<^verbatim>\<open>evaluate\<close> and \<^verbatim>\<open>HooPermissionGate\<close>. A state record holds the global and
    project files, the session approvals and the notifications; a check returns its answer and the
    new state.
  \<^item> \<open>Agent_Tools\<close>, \<open>Agent_Batch\<close>, \<open>Agent_Loop\<close> and their properties (\<open>Agent_Batch_Properties\<close>,
    \<open>Agent_Properties\<close>, \<open>Agent_Loop_Properties\<close>, \<open>Agent_Loop_Events\<close>):
    \<^verbatim>\<open>hoocode-agent-loop/src/lib.rs\<close>. \<open>Agent_Tools\<close> prepares a batch (validation, hooks, gate,
    background dispatch) in state passing; \<open>Agent_Batch\<close> is the parallel execution as a step
    relation in which calls settle in any order; \<open>Agent_Loop\<close> is a run over program points, with
    steering, follow-ups and background results. \<open>Agent_Registry\<close> is the map of background
    managers by session.
  \<^item> \<open>Edit_Text\<close>, \<open>Edit_Match\<close>, \<open>Edit_Diff\<close>, \<open>Edit_Display\<close> with \<open>Edit_Text_Properties\<close>,
    \<open>Edit_Properties\<close>, \<open>Edit_Outcomes\<close>, \<open>Edit_Diff_Total\<close>:
    \<^verbatim>\<open>hoocode-code-tools-fs/src/edit_diff.rs\<close> on UTF-16 units: normalisation with source maps, the
    three matching tiers, overlap check and splice, the line diff at machine width, and its
    display. \<open>Edit_Tool\<close> (\<^verbatim>\<open>edit.rs\<close>) runs an edit from the bytes of a file to its bytes;
    \<open>Mutation_Queue\<close> (\<^verbatim>\<open>mutation_queue.rs\<close>) is the ticket queue by real path as a step relation of
    any number of calls.
  \<^item> \<open>Truncate\<close>: both copies of output truncation (\<^verbatim>\<open>hoocode-agent-harness/src/utils/truncate.rs\<close>,
    \<^verbatim>\<open>hoocode-code-tool-api/src/truncate.rs\<close>).
  \<^item> \<open>Subagent_Depth\<close>: \<^verbatim>\<open>hoocode-code-subagents/src/depth.rs\<close> with the environment a child is given,
    and of \<^verbatim>\<open>warm.rs\<close> the environment of a warm worker and the ceilings of the warm pool.
  \<^item> \<open>Subagent_Pool\<close>, \<open>Subagent_Queue\<close>, \<open>Subagent_Pool_Samples\<close>, \<open>Subagent_Pool_Properties\<close>,
    \<open>Subagent_Pool_Rest\<close>, \<open>Subagent_Pool_Results\<close>: \<^verbatim>\<open>hoocode-code-subagents/src/pool.rs\<close>. The record
    \<open>pool_state\<close> is what the mutex guards; \<open>pool_work\<close> takes one critical section of one thread,
    \<open>pool_call\<close> is a call from outside, and \<open>pool_world\<close> keeps the threads with what has happened.
  \<^item> \<open>Subagent_Inbox\<close>, \<open>Subagent_Inbox_Steps\<close>, \<open>Subagent_Inbox_Properties\<close>, \<open>Subagent_Inbox_Runs\<close>,
    \<open>Subagent_Inbox_Life\<close>, \<open>Subagent_Inbox_Results\<close>: \<^verbatim>\<open>hoocode-code-subagents/src/inbox.rs\<close>, each
    critical section as a function on \<open>inbox_state\<close>; \<open>inbox_step\<close> takes them in any order and
    \<open>inbox_world\<close> keeps the labels given out, the runs started and the bodies handed out.
  \<^item> \<open>Cron\<close>, \<open>Schedule_Store\<close>, \<open>Lock_File\<close>, \<open>Schedule_Ticks\<close>, \<open>Loop_Command\<close>:
    \<^verbatim>\<open>hoocode-code-scheduler\<close>. A tick is a function from the stored tasks to the claimed ones and
    the new file; the lock file is a step relation with one step per system call, with both
    clocks; several processes on one store are a step relation over it, in which each takes the
    lock, reads, writes and submits step by step.
  \<^item> \<open>Task_Store\<close>, \<open>Task_Properties\<close>: \<^verbatim>\<open>hoocode-code-task-store/src/lib.rs\<close>, every operation of the
    store as a function on its state; a listener call is an entry of \<open>notified\<close>.
  \<^item> \<open>Session_Tree\<close>, \<open>Session_Storage\<close>, \<open>Session_Ops\<close>, \<open>Session_Properties\<close>:
    \<^verbatim>\<open>hoocode-agent-session\<close>. The trait \<^verbatim>\<open>SessionStorage\<close> is a record of operations, its contract
    the locale \<open>session_storage\<close>, interpreted for the in-memory and for the JSONL backend; the
    lemmas about \<^verbatim>\<open>Session\<close> are proved once from the contract.
  \<^item> \<open>Session_Context\<close>, \<open>Compaction\<close>, \<open>Compaction_Properties\<close>: \<^verbatim>\<open>context.rs\<close> and
    \<^verbatim>\<open>hoocode-agent-compaction\<close> (\<^verbatim>\<open>compaction.rs\<close>, the file lists of \<^verbatim>\<open>utils.rs\<close>).
  \<^item> \<open>Provider_Messages\<close>: \<^verbatim>\<open>hoocode-agent-harness/src/messages.rs\<close> and
    \<^verbatim>\<open>hoocode-ai-util/src/transform_messages.rs\<close>.
  \<^item> \<open>Stdin_Buffer\<close>: \<^verbatim>\<open>hoocode-tui-terminal/src/stdin_buffer.rs\<close>; the reader of \<^verbatim>\<open>stdin_hub.rs\<close> is a
    sequence of decoded reads and timer ticks.

  \<^bold>\<open>Conventions.\<close> A string is the list of its code points, or of its UTF-16 units in the edit
  engine; a path is the list of its components. A \<^verbatim>\<open>Result\<close> is a
  sum with the error on the left, or an option holding the error text where success carries
  nothing. Mutation through \<^verbatim>\<open>&mut self\<close> is state passing; threads and tasks that meet in a lock
  or a channel are a step relation with one step per critical section. Hash maps whose order
  is not observed are association lists; the order of keys in a written file is not modelled.
  Counters \<^verbatim>\<open>u64\<close> that the code only increments, clock times, token counts and process ids are
  naturals; the last-run minute, read from a file and so arbitrary, saturates or wraps as the
  code does, and the line diff computes its diagonals at machine width.

  \<^bold>\<open>Outside the model\<close>, as arguments of the definitions: the regex crate, \<^verbatim>\<open>serde\<close> encoding and
  decoding of a session line (hypothesis \<open>line_codec\<close>: one line per value, which reads back as
  \<open>stored\<close>, what the serde attributes of the types keep of it), the JSON
  parser of edit arguments, the RFC 3339 parser and the local calendar, random UUIDs, the
  clock, the file system (existence, canonical paths, reads, faults of a write), \<^verbatim>\<open>f64\<close> rounding,
  the model that writes summaries, Unicode NFKC and the class of combining marks, tools with
  their validation and hooks, the stream of a provider's response, a provider's rule for tool
  call ids, agent definitions and token budgets, the pattern of errors another model may fix,
  the pattern of handles in a session file, and what a child process does.

  \<^bold>\<open>Termination and fuel.\<close> Loops are structural recursion or have a measure; no definition takes
  fuel. The walk of a cron field and the walk to the root of a session are \<open>partial_function\<close>s,
  so that not returning is \<open>None\<close>: the first is proved to return for every expression, the second
  on every well-formed tree, with a counterexample for a file whose entry is its own parent. The
  search of the line diff is bounded by the code itself; \<open>line_diff_exists\<close> proves that it finds a
  path within that bound for all texts whose lengths fit the machine's integers (\<open>2 ^ 63\<close>). The
  subagent pool at work takes at most \<open>work_left\<close> steps (\<open>pool_comes_to_rest\<close>), and batches and
  mutation queues never get stuck. The only other bound is the code's own (100 draws of an entry
  id).

  \<^bold>\<open>What the lemma groups show.\<close> Gate: a project's file cannot silence a prompt, denied tools stay
  denied, an unanswered gate fails closed, approvals stay in their directory and mode, plan mode
  confines writes. Agent loop: every call of a batch has one result in call order, whatever the
  order of settling, a denied call never runs, the cap on running calls holds, a batch never
  stalls, and a run leaves a conversation in which every call is answered and every message is
  announced once and, but for background results within a batch, in order. Edits: spans are slices
  of the file, an accepted call replaces disjoint slices and nothing else, a failed call leaves
  the file, the error names what holds, the diff exists and its rows are true, and calls on one
  file exclude each other in arrival order. Subagents: no task is lost or settled twice, no more
  children run than the limit, a waiting task is not passed after a minute, a wait is told once
  and the result of its own task, only a cancelled task is reported as cancelled, and depth and
  width stay inside their bounds along a chain of children, cold or warm; a handle names one run,
  also across a restart, a body is handed out once, and a run cancelled before its start is not
  dispatched. Scheduler: the field parser is exact, a task fires when due, at most one process
  holds the lock as long as the timing it relies on is kept, and then a task fires at most once
  for a due minute across processes. Task list: unique ids, \<open>arrange\<close> permutes, a plan goes whole,
  a batch notifies once. Sessions: history is append-only and its branch readable under any I/O
  fault, moves and forks give the path they name, a file is read back as written, up to what its
  lines keep. Compaction: what is dropped is what is summarised, what is kept is the suffix, and
  no tool result loses its call. Provider messages: every call sent is answered, and what is sent
  fits the model that reads it. Input: keys and pastes do not depend on how the bytes are cut into
  reads, as long as the timer does not give up what a paste's marker has begun.

  Several theorems show where the code departs from its intent. Gate: a quote that blinds the
  shell scans (\<open>quoted_quote_hides_code\<close>), a project file that lifts a block
  (\<open>project_lifts_bash_block\<close>), print mode writing the project's configuration
  (\<open>print_gate_writes_config\<close>), an "Always" that drops shipped rules
  (\<open>always_drops_shipped_rule\<close>), a backslash that escapes a path rule (\<open>backslash_escapes_rule\<close>).
  Scheduler and task list: a cron field accepted and never matched (\<open>double_dash_never_fires\<close>), a
  lock lost by a slow holder (\<open>slow_holder_loses_lock\<close>), the race of the stale lock
  (\<open>stale_removal_race\<close>), a create without the lock that undoes a claim
  (\<open>unlocked_create_refires\<close>), a keyed row that a reset drops (\<open>reset_drops_keyed_row\<close>). Sessions:
  a parent cycle that never returns (\<open>self_parent_never_returns\<close>), a torn line that takes the next
  entry with it (\<open>torn_line_swallows_next_entry\<close>), a settings entry that makes a whole turn look
  split (\<open>settings_entry_splits_turn\<close>). Agent loop: two calls with one id
  (\<open>same_id_loses_result\<close>), a registry above its cap with no run left
  (\<open>cap_exceeded_without_runs\<close>). Edits: a match that ends inside one character's expansion
  (\<open>half_matched_character\<close>), overlapping occurrences counted as one
  (\<open>overlapping_occurrences_pass\<close>), a key of the mutation queue gone stale
  (\<open>stale_key_splits_a_file\<close>), an abort reported after the write (\<open>abort_after_write\<close>), bytes and
  line breaks outside the edited place rewritten (\<open>undecodable_byte_replaced\<close>,
  \<open>mixed_breaks_rewritten\<close>), a cut line blamed on the number of lines
  (\<open>partial_line_blamed_on_lines\<close>). Provider messages: a renamed id that takes another call's
  result (\<open>renamed_id_steals_result\<close>), results of a dropped turn (\<open>failed_turn_leaves_results\<close>).
  Input: a paste marker cut after an Escape key (\<open>split_marker_is_keys\<close>) or read too slowly
  (\<open>slow_marker_is_keys\<close>). Subagents: a cancel that comes just before the slot
  (\<open>cancel_before_slot_is_lost\<close>), a child started during disposal
  (\<open>dispose_misses_starting_child\<close>), taken results that take room (\<open>taken_results_take_room\<close>), a
  retry behind which the queue loses its order (\<open>retry_lets_arrivals_pass\<close>), runs given up without
  waking who waits for them (\<open>reconcile_wakes_nobody\<close>), a label counter that overflows
  (\<open>label_counter_wraps\<close>), a width that the warm pool exceeds (\<open>warm_pool_exceeds_width\<close>), settled
  runs that are never pruned (\<open>reserved_runs_never_pruned\<close>).

  \<^bold>\<open>Not modelled.\<close> Of the crates above: the session repositories (except the fork's entries),
  branch summarisation and the texts of the prompts, because they are file listings and prose;
  reading and writing the schedule file; the texts of the edit errors with their hints and the
  preview of an edit that is not run; of the subagent pool its events, a child's command line,
  output stream and clearance requests, the dispatch directories and the text of the ledger; of
  the warm pool how it dispatches, parks and resets its workers; of the inbox the loops that wait
  for a run or for all with a timeout, and the tools in front of it. The other crates are left out
  because their core is I/O with a system that is not in the repository (provider clients and
  OAuth, MCP servers, plugins, the bash and search tools, the updater), rendering (the terminal
  UI), or wiring of the parts above (command line, sessions, settings, app server).
\<close>

end
